(* ===== verification/Prelude.thy ===== *)
theory Prelude
  imports Main "HOL-Library.Word"
begin

text \<open>
  Shared vocabulary of the development: the machine integers of the C code, byte memory as
  lists (buffers with a known extent) and as total functions (the flash array), little-endian
  words, C strings, and the list lemmas that the component proofs rewrite with.

  A buffer is the list of the bytes that belong to it.  \<open>mem_load\<close> and \<open>mem_store\<close> are
  the two halves of \<open>memcpy\<close>: they return \<open>None\<close> when the access leaves the buffer, so an
  out-of-bounds access of the C code is a visible outcome of the model.
\<close>

unbundle bit_operations_syntax

type_synonym u8 = "8 word"
type_synonym u16 = "16 word"
type_synonym u32 = "32 word"

named_theorems slice_simps \<open>rewriting of byte slices\<close>
named_theorems loop_simps \<open>closed forms of translated loops\<close>

subsection \<open>Buffers with an extent\<close>

definition mem_load :: "'a list \<Rightarrow> nat \<Rightarrow> nat \<Rightarrow> 'a list option" where
  "mem_load m off n = (if off + n \<le> length m then Some (take n (drop off m)) else None)"

definition mem_store :: "'a list \<Rightarrow> nat \<Rightarrow> 'a list \<Rightarrow> 'a list option" where
  "mem_store m off bs =
     (if off + length bs \<le> length m
      then Some (take off m @ bs @ drop (off + length bs) m) else None)"

lemma mem_load_Some [simp]: "off + n \<le> length m \<Longrightarrow> mem_load m off n = Some (take n (drop off m))"
  by (simp add: mem_load_def)

lemma mem_load_None [simp]: "length m < off + n \<Longrightarrow> mem_load m off n = None"
  by (simp add: mem_load_def)

lemma mem_store_Some [simp]:
  "off + length bs \<le> length m \<Longrightarrow>
     mem_store m off bs = Some (take off m @ bs @ drop (off + length bs) m)"
  by (simp add: mem_store_def)

lemma mem_store_None [simp]: "length m < off + length bs \<Longrightarrow> mem_store m off bs = None"
  by (simp add: mem_store_def)

lemma mem_store_length: "mem_store m off bs = Some m' \<Longrightarrow> length m' = length m"
  by (auto simp: mem_store_def split: if_splits)

definition mem_byte :: "'a list \<Rightarrow> nat \<Rightarrow> 'a option" where
  "mem_byte m i = (if i < length m then Some (m ! i) else None)"

lemma mem_byte_Some [simp]: "i < length m \<Longrightarrow> mem_byte m i = Some (m ! i)"
  by (simp add: mem_byte_def)

lemma mem_byte_drop:
  assumes "drop i m = xs @ ys" "k < length xs"
  shows "mem_byte m (i + k) = Some (xs ! k)"
proof -
  have "length m - i = length xs + length ys"
    using arg_cong [OF assms(1), of length] by simp
  then have l: "i + k < length m"
    using assms(2) by linarith
  have "m ! (i + k) = (xs @ ys) ! k"
    using l by (simp flip: assms(1))
  with l assms(2) show ?thesis
    by (simp add: nth_append)
qed

subsection \<open>Byte arrays as functions\<close>

definition slice :: "(nat \<Rightarrow> 'a) \<Rightarrow> nat \<Rightarrow> nat \<Rightarrow> 'a list" where
  "slice m a n = map (\<lambda>i. m (a + i)) [0..<n]"

lemma length_slice [simp]: "length (slice m a n) = n"
  by (simp add: slice_def)

lemma nth_slice [simp]: "i < n \<Longrightarrow> slice m a n ! i = m (a + i)"
  by (simp add: slice_def)

lemma slice_0 [simp]: "slice m a 0 = []"
  by (simp add: slice_def)

lemma take_slice [slice_simps]: "take k (slice m a n) = slice m a (min k n)"
  by (rule nth_equalityI) auto

lemma drop_slice [slice_simps]: "drop k (slice m a n) = slice m (a + k) (n - k)"
  by (rule nth_equalityI) (auto simp: add.assoc)

lemma slice_append: "slice m a k @ slice m (a + k) n = slice m a (k + n)"
  by (rule nth_equalityI) (auto simp: nth_append add.assoc)

lemma slice_eq_iff: "slice m a n = slice m' b n \<longleftrightarrow> (\<forall>i<n. m (a + i) = m' (b + i))"
  by (auto simp: list_eq_iff_nth_eq)

lemma slice_eq_list_iff: "slice m a n = bs \<longleftrightarrow> length bs = n \<and> (\<forall>i<n. m (a + i) = bs ! i)"
  by (auto simp: list_eq_iff_nth_eq)

lemma slice_cong: "(\<And>i. i < n \<Longrightarrow> m (a + i) = m' (a + i)) \<Longrightarrow> slice m a n = slice m' a n"
  by (simp add: slice_eq_iff)

subsection \<open>Little-endian words\<close>

definition le32 :: "u32 \<Rightarrow> u8 list" where
  "le32 w = [ucast w, ucast (drop_bit 8 w), ucast (drop_bit 16 w), ucast (drop_bit 24 w)]"

definition get32 :: "u8 list \<Rightarrow> nat \<Rightarrow> u32" where
  "get32 bs i = ucast (bs ! i) OR push_bit 8 (ucast (bs ! (i + 1)))
     OR push_bit 16 (ucast (bs ! (i + 2))) OR push_bit 24 (ucast (bs ! (i + 3)))"

lemma length_le32 [simp]: "length (le32 w) = 4"
  by (simp add: le32_def)

lemma get32_le32 [simp]: "get32 (le32 w @ bs) 0 = w"
proof (rule bit_word_eqI)
  fix n assume "n < LENGTH(32)"
  then show "bit (get32 (le32 w @ bs) 0) n = bit w n"
    by (cases "24 \<le> n"; cases "16 \<le> n") (auto simp: get32_def le32_def bit_simps)
qed

lemma get32_append_right [simp]: "length xs = n \<Longrightarrow> get32 (xs @ ys) (n + i) = get32 ys i"
  by (auto simp: get32_def nth_append add.assoc)

subsection \<open>C strings\<close>

text \<open>
  \<open>c_strlen\<close> is \<open>strlen\<close> of the string that starts at the head of the list;
  \<open>cstr\<close> gives the bytes of a literal.
\<close>

definition c_strlen :: "u8 list \<Rightarrow> nat" where
  "c_strlen bs = length (takeWhile (\<lambda>b. b \<noteq> 0) bs)"

definition cstr :: "string \<Rightarrow> u8 list" where
  "cstr s = map of_char s"

lemma c_strlen_le: "c_strlen bs \<le> length bs"
  by (simp add: c_strlen_def length_takeWhile_le)

lemma c_strlen_padded:
  "0 \<notin> set s \<Longrightarrow> c_strlen (s @ replicate (Suc n) 0 @ r) = length s"
  by (subst c_strlen_def, subst takeWhile_append2) (auto intro: gr0I)

subsection \<open>Words\<close>

lemma unat_add_no_wrap:
  "unat (a::u32) + unat b < 2 ^ 32 \<Longrightarrow> unat (a + b) = unat a + unat b"
  by (simp add: unat_word_ariths)

lemma unat_add_32: "unat (a::u32) + unat b < 4294967296 \<Longrightarrow> unat (a + b) = unat a + unat b"
  by (rule unat_add_no_wrap) simp

lemma unat_sub_no_wrap: "(b::u32) \<le> a \<Longrightarrow> unat (a - b) = unat a - unat b"
  by (simp add: unat_sub)

lemma unat_lt_2p32: "unat (a::u32) < 4294967296"
  using unsigned_less [of a] by simp

end
