(* ===== verification/RingBuffer.thy ===== *)
theory RingBuffer
  imports Prelude "HOL-Library.Monad_Syntax"
begin

text \<open>
  The audio ring buffer of \<open>driver/audio/ring_buffer.c\<close>: one writer (the decoder task) and
  one reader (the DAC interrupt) share a byte array, a write index \<open>wp\<close> and a read index
  \<open>rp\<close>.  \<open>RB_ST\<close> is the record \<open>rb_st\<close>; its array is the list of the bytes it owns, so every
  \<open>RB_MEMCPY\<close> is a \<open>mem_load\<close> or a \<open>mem_store\<close> and an access outside the array makes the
  operation return \<open>None\<close>.  Indices and byte counts are the 32-bit words of the source.

  The abstraction \<open>rb_content\<close> is the byte queue; the invariant \<open>rb_inv\<close> says that the
  indices stay inside the array and that the four byte safety gap between writer and reader
  is kept.  The locale \<open>byte_fifo\<close> states the contract a byte queue gives its clients and
  derives that a reader sees exactly the accepted bytes, in order; the ring buffer
  interprets it.
\<close>

record rb_st =
  address :: "u8 list"
  capacity :: u32
  wp :: u32
  rp :: u32

definition RWP_SAFE_INTERVAL :: u32 where
  "RWP_SAFE_INTERVAL = 4"

definition rb_init :: "u8 list \<Rightarrow> u32 \<Rightarrow> rb_st" where
  "rb_init addr cap = \<lparr>address = addr, capacity = cap, wp = 0, rp = 0\<rparr>"

definition rb_clear :: "rb_st \<Rightarrow> rb_st" where
  "rb_clear rb = rb\<lparr>wp := 0, rp := 0\<rparr>"

text \<open>
  \<open>rb_read\<close> returns the count, the bytes it copied to the start of the caller's buffer, and
  the new state.
\<close>

definition rb_read :: "rb_st \<Rightarrow> u32 \<Rightarrow> u32 \<Rightarrow> (u32 \<times> u8 list \<times> rb_st) option" where
  "rb_read rb sz count =
     (let required_bytes = sz * count; w = wp rb in
      if required_bytes = 0 then Some (0, [], rb)
      else if rp rb \<le> w then
        (let remain_bytes = w - rp rb;
             read_bytes = (if required_bytes > remain_bytes then remain_bytes else required_bytes) in
         do { bs \<leftarrow> mem_load (address rb) (unat (rp rb)) (unat read_bytes);
              Some (read_bytes, bs, rb\<lparr>rp := rp rb + read_bytes\<rparr>) })
      else
        (let remain_bytes = capacity rb - rp rb in
         if required_bytes > remain_bytes then
           (let read_bytes = remain_bytes in
            do { bs \<leftarrow> mem_load (address rb) (unat (rp rb)) (unat read_bytes);
                 if required_bytes - read_bytes > w then
                   do { bs' \<leftarrow> mem_load (address rb) 0 (unat w);
                        Some (read_bytes + w, bs @ bs', rb\<lparr>rp := w\<rparr>) }
                 else
                   do { bs' \<leftarrow> mem_load (address rb) 0 (unat (required_bytes - read_bytes));
                        Some (required_bytes, bs @ bs',
                              rb\<lparr>rp := required_bytes - read_bytes\<rparr>) } })
         else
           do { bs \<leftarrow> mem_load (address rb) (unat (rp rb)) (unat required_bytes);
                Some (required_bytes, bs, rb\<lparr>rp := rp rb + required_bytes\<rparr>) }))"

text \<open>The wrap of the write index at the end of \<open>rb_write\<close>.\<close>

definition rb_wrap_wp :: "rb_st \<Rightarrow> rb_st" where
  "rb_wrap_wp rb = (if capacity rb \<le> wp rb \<and> rp rb \<noteq> 0 then rb\<lparr>wp := 0\<rparr> else rb)"

definition rb_write :: "rb_st \<Rightarrow> u8 list \<Rightarrow> u32 \<Rightarrow> u32 \<Rightarrow> (u32 \<times> rb_st) option" where
  "rb_write rb buffer sz count =
     (let write_bytes = sz * count; r = rp rb in
      if write_bytes = 0 then Some (0, rb)
      else if r \<le> wp rb then
        (if capacity rb - wp rb + r \<ge> write_bytes + RWP_SAFE_INTERVAL then
           (let remain_bytes = capacity rb - wp rb in
            if remain_bytes \<ge> write_bytes then
              do { bs \<leftarrow> mem_load buffer 0 (unat write_bytes);
                   m \<leftarrow> mem_store (address rb) (unat (wp rb)) bs;
                   Some (write_bytes, rb_wrap_wp (rb\<lparr>address := m, wp := wp rb + write_bytes\<rparr>)) }
            else
              do { bs \<leftarrow> mem_load buffer 0 (unat remain_bytes);
                   m \<leftarrow> mem_store (address rb) (unat (wp rb)) bs;
                   bs' \<leftarrow> mem_load buffer (unat remain_bytes) (unat (write_bytes - remain_bytes));
                   m' \<leftarrow> mem_store m 0 bs';
                   Some (write_bytes,
                         rb_wrap_wp (rb\<lparr>address := m', wp := write_bytes - remain_bytes\<rparr>)) })
         else Some (0, rb))
      else
        (if r - wp rb \<ge> write_bytes + RWP_SAFE_INTERVAL then
           do { bs \<leftarrow> mem_load buffer 0 (unat write_bytes);
                m \<leftarrow> mem_store (address rb) (unat (wp rb)) bs;
                Some (write_bytes, rb_wrap_wp (rb\<lparr>address := m, wp := wp rb + write_bytes\<rparr>)) }
         else Some (0, rb)))"

definition rb_get_fill_size :: "rb_st \<Rightarrow> u32" where
  "rb_get_fill_size rb =
     (if wp rb \<ge> rp rb then wp rb - rp rb else capacity rb - rp rb + wp rb)"

definition rb_get_free_size :: "rb_st \<Rightarrow> u32" where
  "rb_get_free_size rb =
     (let free_size = (if wp rb \<ge> rp rb then capacity rb - wp rb + rp rb else rp rb - wp rb) in
      if free_size > RWP_SAFE_INTERVAL then free_size - RWP_SAFE_INTERVAL else 0)"

subsection \<open>Abstraction and invariant\<close>

definition rb_content :: "rb_st \<Rightarrow> u8 list" where
  "rb_content rb =
     (if rp rb \<le> wp rb
      then take (unat (wp rb) - unat (rp rb)) (drop (unat (rp rb)) (address rb))
      else drop (unat (rp rb)) (address rb) @ take (unat (wp rb)) (address rb))"

definition rb_inv :: "rb_st \<Rightarrow> bool" where
  "rb_inv rb \<longleftrightarrow> length (address rb) = unat (capacity rb) \<and> wp rb \<le> capacity rb \<and>
     rp rb \<le> capacity rb \<and>
     (rb_content rb = [] \<or> length (rb_content rb) + 4 \<le> unat (capacity rb))"


lemma length_rb_content:
  assumes "rb_inv rb"
  shows "length (rb_content rb) =
    (if rp rb \<le> wp rb then unat (wp rb) - unat (rp rb)
     else unat (capacity rb) - unat (rp rb) + unat (wp rb))"
  using assms by (auto simp: rb_content_def rb_inv_def word_le_nat_alt)

lemma rb_fill_size:
  assumes "rb_inv rb"
  shows "unat (rb_get_fill_size rb) = length (rb_content rb)"
proof (cases "rp rb \<le> wp rb")
  case True
  then show ?thesis
    by (simp add: length_rb_content [OF assms] rb_get_fill_size_def unat_sub)
next
  case False
  have le: "rp rb \<le> capacity rb" using assms by (simp add: rb_inv_def)
  have "unat (capacity rb - rp rb) + unat (wp rb) < 2 ^ 32"
    using False le unat_lt_2p32 [of "capacity rb"]
    by (simp add: unat_sub word_le_nat_alt)
  then show ?thesis
    using False le
    by (simp add: length_rb_content [OF assms] rb_get_fill_size_def unat_add_no_wrap unat_sub)
qed


text \<open>The word comparisons of \<open>rb_write\<close>, read as natural numbers.\<close>

lemma rb_room_iff:
  assumes inv: "rb_inv rb" and n: "unat k = n" "n + 4 < 2 ^ 32"
  shows "rp rb \<le> wp rb \<Longrightarrow> k + RWP_SAFE_INTERVAL \<le> capacity rb - wp rb + rp rb \<longleftrightarrow>
           length (rb_content rb) + n + 4 \<le> unat (capacity rb)"
    and "\<not> rp rb \<le> wp rb \<Longrightarrow> k + RWP_SAFE_INTERVAL \<le> rp rb - wp rb \<longleftrightarrow>
           length (rb_content rb) + n + 4 \<le> unat (capacity rb)"
proof -
  have k4: "unat (k + RWP_SAFE_INTERVAL) = n + 4"
    using n by (simp add: RWP_SAFE_INTERVAL_def unat_add_no_wrap)
  have w: "unat (wp rb) \<le> unat (capacity rb)" and r: "unat (rp rb) \<le> unat (capacity rb)"
    using inv by (auto simp: rb_inv_def word_le_nat_alt)
  {
    assume le: "rp rb \<le> wp rb"
    have "unat (capacity rb - wp rb) + unat (rp rb) < 2 ^ 32"
      using le w unat_lt_2p32 [of "capacity rb"] by (simp add: unat_sub word_le_nat_alt)
    then have "unat (capacity rb - wp rb + rp rb) = unat (capacity rb) - unat (wp rb) + unat (rp rb)"
      using w by (simp add: unat_add_no_wrap unat_sub word_le_nat_alt)
    then show "k + RWP_SAFE_INTERVAL \<le> capacity rb - wp rb + rp rb \<longleftrightarrow>
           length (rb_content rb) + n + 4 \<le> unat (capacity rb)"
      using le w by (auto simp: word_le_nat_alt k4 length_rb_content [OF inv])
  next
    assume gt: "\<not> rp rb \<le> wp rb"
    then have "unat (rp rb - wp rb) = unat (rp rb) - unat (wp rb)"
      by (simp add: unat_sub word_le_nat_alt)
    then show "k + RWP_SAFE_INTERVAL \<le> rp rb - wp rb \<longleftrightarrow>
           length (rb_content rb) + n + 4 \<le> unat (capacity rb)"
      using gt w r by (auto simp: word_le_nat_alt k4 length_rb_content [OF inv])
  }
qed

lemma unat_mult_no_wrap:
  "unat (a::u32) * unat b < 2 ^ 32 \<Longrightarrow> unat (a * b) = unat a * unat b"
  by (simp add: unat_word_ariths)

lemma rb_wrap_wp_content:
  "wp rb \<le> capacity rb \<Longrightarrow> rp rb \<le> capacity rb \<Longrightarrow> length (address rb) = unat (capacity rb) \<Longrightarrow>
     rb_content (rb_wrap_wp rb) = rb_content rb"
  by (auto simp: rb_wrap_wp_def rb_content_def word_le_nat_alt unat_eq_0)

lemma rb_wrap_wp_simps [simp]:
  "capacity (rb_wrap_wp rb) = capacity rb" "rp (rb_wrap_wp rb) = rp rb"
  "address (rb_wrap_wp rb) = address rb"
  by (auto simp: rb_wrap_wp_def)

lemma rb_wrap_wp_inv: "rb_inv rb \<Longrightarrow> rb_inv (rb_wrap_wp rb)"
  using rb_wrap_wp_content [of rb]
  by (auto simp: rb_inv_def) (auto simp: rb_wrap_wp_def)

text \<open>A write that the safety gap does not admit changes nothing and returns 0.\<close>

lemma rb_write_refused:
  assumes inv: "rb_inv rb" and n: "unat sz * unat count + 4 < 2 ^ 32"
    and full: "unat sz * unat count = 0 \<or>
      unat (capacity rb) < length (rb_content rb) + unat sz * unat count + 4"
  shows "rb_write rb buffer sz count = Some (0, rb)"
proof -
  have k: "unat (sz * count) = unat sz * unat count" using n by (simp add: unat_mult_no_wrap)
  show ?thesis
    using full rb_room_iff [OF inv k n] k
    by (auto simp: rb_write_def Let_def unat_eq_0 not_le [symmetric])
qed

lemma rb_write_accepted:
  assumes inv: "rb_inv rb" and n: "n = unat sz * unat count" "n + 4 < 2 ^ 32"
    and pos: "0 < n" and buf: "n \<le> length buffer"
    and room: "length (rb_content rb) + n + 4 \<le> unat (capacity rb)"
  shows "\<exists>rb'. rb_write rb buffer sz count = Some (sz * count, rb') \<and> rb_inv rb' \<and>
           rb_content rb' = rb_content rb @ take n buffer \<and> capacity rb' = capacity rb"
proof -
  let ?C = "unat (capacity rb)" and ?W = "unat (wp rb)" and ?R = "unat (rp rb)"
  let ?k = "sz * count"
  have k: "unat ?k = n" using n by (simp add: unat_mult_no_wrap)
  have C: "?C < 2 ^ 32" using unat_lt_2p32 [of "capacity rb"] by simp
  have w: "?W \<le> ?C" and r: "?R \<le> ?C" and len: "length (address rb) = ?C"
    using inv by (auto simp: rb_inv_def word_le_nat_alt)
  have k0: "?k \<noteq> 0" using k pos by (metis less_irrefl unat_0)
  note room' = rb_room_iff [OF inv k n(2)] and lc = length_rb_content [OF inv]
  have fin: ?thesis
    if run: "rb_write rb buffer sz count = Some (?k, rb_wrap_wp rb')"
      and rb': "capacity rb' = capacity rb" "wp rb' \<le> capacity rb" "rp rb' = rp rb"
        "length (address rb') = ?C" "rb_content rb' = rb_content rb @ take n buffer" for rb'
  proof -
    have "rb_inv rb'" using rb' r room buf by (auto simp: rb_inv_def word_le_nat_alt)
    with run rb' show ?thesis
      using r by (auto simp: rb_wrap_wp_inv rb_wrap_wp_content word_le_nat_alt)
  qed
  show ?thesis
  proof (cases "rp rb \<le> wp rb")
    case le: True
    have rem: "unat (capacity rb - wp rb) = ?C - ?W" using w by (simp add: unat_sub word_le_nat_alt)
    show ?thesis
    proof (cases "n \<le> ?C - ?W")
      case True
      have wn: "unat (wp rb + ?k) = ?W + n" using True w C k by (simp add: unat_add_no_wrap)
      let ?m = "take ?W (address rb) @ take n buffer @ drop (?W + n) (address rb)"
      let ?rb' = "rb\<lparr>address := ?m, wp := wp rb + ?k\<rparr>"
      have "rb_write rb buffer sz count = Some (?k, rb_wrap_wp ?rb')"
        using True le k0 room room' k rem buf w len
        by (simp add: rb_write_def Let_def word_le_nat_alt min_absorb1)
      then show ?thesis
      proof (rule fin)
        show "rb_content ?rb' = rb_content rb @ take n buffer"
          using le wn w len True buf
          by (simp add: rb_content_def word_le_nat_alt min_absorb1 drop_take)
      qed (use wn w len True buf in \<open>auto simp: word_le_nat_alt min_absorb1\<close>)
    next
      case False
      let ?j = "?C - ?W"
      have sub: "unat (?k - (capacity rb - wp rb)) = n - ?j"
        using False rem k by (simp add: unat_sub word_le_nat_alt)
      have gap: "n - ?j + 4 \<le> ?R" using room le lc w False by (auto simp: word_le_nat_alt)
      let ?m = "take (n - ?j) (drop ?j buffer) @ drop (n - ?j) (take ?W (address rb) @ take ?j buffer)"
      let ?rb' = "rb\<lparr>address := ?m, wp := ?k - (capacity rb - wp rb)\<rparr>"
      have "rb_write rb buffer sz count = Some (?k, rb_wrap_wp ?rb')"
        using False le k0 room room' k rem buf w len sub gap r
        by (simp add: rb_write_def Let_def word_le_nat_alt min_absorb1)
      then show ?thesis
      proof (rule fin)
        have "take n buffer = take ?j buffer @ take (n - ?j) (drop ?j buffer)"
          using False by (metis le_add_diff_inverse nat_le_linear take_add)
        then show "rb_content ?rb' = rb_content rb @ take n buffer"
          using le sub gap w r len False buf
          by (simp add: rb_content_def word_le_nat_alt min_absorb1 drop_take)
      qed (use sub gap r w len False buf in \<open>auto simp: word_le_nat_alt min_absorb1\<close>)
    qed
  next
    case gt: False
    have gap: "?W + n + 4 \<le> ?R" using room gt lc r w by (auto simp: word_le_nat_alt)
    have wn: "unat (wp rb + ?k) = ?W + n" using gap r C k by (simp add: unat_add_no_wrap)
    let ?m = "take ?W (address rb) @ take n buffer @ drop (?W + n) (address rb)"
    let ?rb' = "rb\<lparr>address := ?m, wp := wp rb + ?k\<rparr>"
    have "rb_write rb buffer sz count = Some (?k, rb_wrap_wp ?rb')"
      using gt k0 room room' k buf w len gap r
      by (simp add: rb_write_def Let_def word_le_nat_alt min_absorb1)
    then show ?thesis
    proof (rule fin)
      show "rb_content ?rb' = rb_content rb @ take n buffer"
        using gt wn w r len gap buf
        by (simp add: rb_content_def word_le_nat_alt min_absorb1)
    qed (use wn w r len gap buf in \<open>auto simp: word_le_nat_alt min_absorb1\<close>)
  qed
qed


text \<open>
  What a read of \<open>k\<close> bytes must return: the first \<open>k\<close> bytes of the queue, or all of it.
\<close>

definition rb_read_ok :: "rb_st \<Rightarrow> u32 \<Rightarrow> (u32 \<times> u8 list \<times> rb_st) option \<Rightarrow> bool" where
  "rb_read_ok rb k res \<longleftrightarrow> (\<exists>r rb'. res = Some (r, take (unat k) (rb_content rb), rb') \<and>
     unat r = min (unat k) (length (rb_content rb)) \<and> rb_inv rb' \<and>
     rb_content rb' = drop (unat k) (rb_content rb) \<and> capacity rb' = capacity rb)"

lemma rb_read_okI:
  assumes "rb_inv rb" and "res = Some (q, take (unat k) (rb_content rb), rb\<lparr>rp := p\<rparr>)"
    and "unat q = min (unat k) (length (rb_content rb))" and "p \<le> capacity rb"
    and "rb_content (rb\<lparr>rp := p\<rparr>) = drop (unat k) (rb_content rb)"
  shows "rb_read_ok rb k res"
  using assms by (auto simp: rb_read_ok_def rb_inv_def)

lemma rb_bounds:
  assumes "rb_inv rb"
  shows "unat (capacity rb) < 2 ^ 32" "unat (wp rb) \<le> unat (capacity rb)"
    "unat (rp rb) \<le> unat (capacity rb)" "length (address rb) = unat (capacity rb)"
  using assms unat_lt_2p32 [of "capacity rb"] by (auto simp: rb_inv_def word_le_nat_alt)

lemma rb_read_linear:
  assumes inv: "rb_inv rb" and k0: "sz * count \<noteq> 0" and le: "rp rb \<le> wp rb"
  shows "rb_read_ok rb (sz * count) (rb_read rb sz count)"
proof -
  let ?k = "sz * count"
  note b = rb_bounds [OF inv] and lc = length_rb_content [OF inv]
  define q where "q = (if ?k > wp rb - rp rb then wp rb - rp rb else ?k)"
  have q: "unat q = min (unat ?k) (unat (wp rb) - unat (rp rb))"
    using le by (auto simp: q_def word_less_nat_alt unat_sub word_le_nat_alt)
  have rq: "unat (rp rb + q) = unat (rp rb) + unat q"
    using le q b by (subst unat_add_no_wrap) (auto simp: word_le_nat_alt)
  show ?thesis
  proof (rule rb_read_okI [OF inv, of _ q _ "rp rb + q"])
    have "take (unat q) (drop (unat (rp rb)) (address rb)) = take (unat ?k) (rb_content rb)"
      using le q b by (simp add: rb_content_def)
    then show "rb_read rb sz count = Some (q, take (unat ?k) (rb_content rb), rb\<lparr>rp := rp rb + q\<rparr>)"
      using le k0 q b by (simp add: rb_read_def Let_def q_def [symmetric] word_le_nat_alt)
    show "rb_content (rb\<lparr>rp := rp rb + q\<rparr>) = drop (unat ?k) (rb_content rb)"
      using le rq q b by (auto simp: rb_content_def word_le_nat_alt drop_take add.commute min_def)
  qed (use le rq q lc b in \<open>auto simp: word_le_nat_alt\<close>)
qed

lemma rb_read_tail:
  assumes inv: "rb_inv rb" and k0: "sz * count \<noteq> 0" and gt: "\<not> rp rb \<le> wp rb"
    and n: "unat (sz * count) \<le> unat (capacity rb) - unat (rp rb)"
  shows "rb_read_ok rb (sz * count) (rb_read rb sz count)"
proof -
  let ?k = "sz * count"
  note b = rb_bounds [OF inv] and lc = length_rb_content [OF inv]
  have rem: "unat (capacity rb - rp rb) = unat (capacity rb) - unat (rp rb)"
    using b by (simp add: unat_sub word_le_nat_alt)
  have rq: "unat (rp rb + ?k) = unat (rp rb) + unat ?k" using n b by (simp add: unat_add_no_wrap)
  show ?thesis
  proof (rule rb_read_okI [OF inv, of _ ?k _ "rp rb + ?k"])
    show "rb_read rb sz count = Some (?k, take (unat ?k) (rb_content rb), rb\<lparr>rp := rp rb + ?k\<rparr>)"
      using n gt k0 rem b
      by (simp add: rb_read_def Let_def rb_content_def word_le_nat_alt word_less_nat_alt)
    show "rb_content (rb\<lparr>rp := rp rb + ?k\<rparr>) = drop (unat ?k) (rb_content rb)"
      using n gt rq b by (simp add: rb_content_def word_le_nat_alt add.commute)
  qed (use n gt rq lc b in \<open>auto simp: word_le_nat_alt\<close>)
qed

lemma rb_read_around:
  assumes inv: "rb_inv rb" and k0: "sz * count \<noteq> 0" and gt: "\<not> rp rb \<le> wp rb"
    and n: "unat (capacity rb) - unat (rp rb) < unat (sz * count)"
  shows "rb_read_ok rb (sz * count) (rb_read rb sz count)"
proof -
  let ?k = "sz * count" and ?j = "unat (capacity rb) - unat (rp rb)"
  note b = rb_bounds [OF inv] and lc = length_rb_content [OF inv]
  have rem: "unat (capacity rb - rp rb) = ?j" using b by (simp add: unat_sub word_le_nat_alt)
  have sub: "unat (?k - (capacity rb - rp rb)) = unat ?k - ?j"
    using n rem by (simp add: unat_sub word_le_nat_alt)
  show ?thesis
  proof (cases "unat ?k - ?j \<le> unat (wp rb)")
    case True
    show ?thesis
    proof (rule rb_read_okI [OF inv, of _ ?k _ "?k - (capacity rb - rp rb)"])
      show "rb_read rb sz count = Some (?k, take (unat ?k) (rb_content rb),
              rb\<lparr>rp := ?k - (capacity rb - rp rb)\<rparr>)"
        using True n gt k0 rem b sub
        by (simp add: rb_read_def Let_def rb_content_def word_le_nat_alt word_less_nat_alt min_absorb1)
      show "rb_content (rb\<lparr>rp := ?k - (capacity rb - rp rb)\<rparr>) = drop (unat ?k) (rb_content rb)"
        using True n gt sub b by (simp add: rb_content_def word_le_nat_alt drop_take)
    qed (use True n gt sub lc b in \<open>auto simp: word_le_nat_alt\<close>)
  next
    case False
    have q: "unat (capacity rb - rp rb + wp rb) = ?j + unat (wp rb)"
      using rem gt b by (subst unat_add_no_wrap) (auto simp: word_le_nat_alt)
    show ?thesis
    proof (rule rb_read_okI [OF inv, of _ "capacity rb - rp rb + wp rb" _ "wp rb"])
      show "rb_read rb sz count = Some (capacity rb - rp rb + wp rb, take (unat ?k) (rb_content rb),
              rb\<lparr>rp := wp rb\<rparr>)"
        using False n gt k0 rem b sub
        by (simp add: rb_read_def Let_def rb_content_def word_le_nat_alt word_less_nat_alt)
    qed (use False n q lc b gt in \<open>auto simp: rb_content_def word_le_nat_alt\<close>)
  qed
qed

lemma rb_read_spec:
  assumes inv: "rb_inv rb"
  shows "rb_read_ok rb (sz * count) (rb_read rb sz count)"
proof (cases "sz * count = 0")
  case True
  then show ?thesis using inv by (simp add: rb_read_def rb_read_ok_def)
next
  case False
  then show ?thesis
    using rb_read_linear [OF inv] rb_read_tail [OF inv] rb_read_around [OF inv]
    by (metis not_le)
qed


lemma rb_init_inv: "length addr = unat cap \<Longrightarrow> rb_inv (rb_init addr cap)"
  by (simp add: rb_inv_def rb_init_def rb_content_def)

lemma rb_init_content [simp]: "rb_content (rb_init addr cap) = []"
  by (simp add: rb_init_def rb_content_def)

lemma rb_clear_inv: "rb_inv rb \<Longrightarrow> rb_inv (rb_clear rb) \<and> rb_content (rb_clear rb) = []"
  by (simp add: rb_inv_def rb_clear_def rb_content_def)

subsection \<open>The contract of a byte queue\<close>

text \<open>
  \<open>put\<close> offers bytes and returns how many were taken; \<open>get\<close> asks for a number of bytes and
  returns those that were there.  Both are total on requests shorter than \<open>lim\<close>.
\<close>

datatype 'b fifo_op = Put "'b list" | Get nat

fun fifo_run :: "('s \<Rightarrow> 'b list \<Rightarrow> (nat \<times> 's) option) \<Rightarrow> ('s \<Rightarrow> nat \<Rightarrow> ('b list \<times> 's) option) \<Rightarrow>
    's \<Rightarrow> 'b fifo_op list \<Rightarrow> ('b list \<times> 'b list \<times> 's) option" where
  "fifo_run put get s [] = Some ([], [], s)"
| "fifo_run put get s (Put bs # ops) =
     do { (n, s') \<leftarrow> put s bs; (acc, del, t) \<leftarrow> fifo_run put get s' ops;
          Some (take n bs @ acc, del, t) }"
| "fifo_run put get s (Get n # ops) =
     do { (bs, s') \<leftarrow> get s n; (acc, del, t) \<leftarrow> fifo_run put get s' ops;
          Some (acc, bs @ del, t) }"

fun fifo_request :: "'b fifo_op \<Rightarrow> nat" where
  "fifo_request (Put bs) = length bs"
| "fifo_request (Get n) = n"

locale byte_fifo =
  fixes inv :: "'s \<Rightarrow> bool" and content :: "'s \<Rightarrow> 'b list" and lim :: nat
    and put :: "'s \<Rightarrow> 'b list \<Rightarrow> (nat \<times> 's) option"
    and get :: "'s \<Rightarrow> nat \<Rightarrow> ('b list \<times> 's) option"
  assumes put_law: "inv s \<Longrightarrow> length bs < lim \<Longrightarrow>
      \<exists>n s'. put s bs = Some (n, s') \<and> inv s' \<and> content s' = content s @ take n bs"
    and get_law: "inv s \<Longrightarrow> n < lim \<Longrightarrow>
      \<exists>s'. get s n = Some (take n (content s), s') \<and> inv s' \<and> content s' = drop n (content s)"
begin

lemma run_fifo:
  "inv s \<Longrightarrow> \<forall>x \<in> set ops. fifo_request x < lim \<Longrightarrow>
     \<exists>acc del t. fifo_run put get s ops = Some (acc, del, t) \<and> inv t \<and>
       content s @ acc = del @ content t"
proof (induction ops arbitrary: s)
  case Nil
  then show ?case by simp
next
  case (Cons x ops)
  show ?case
  proof (cases x)
    case (Put bs)
    with Cons.prems put_law [of s bs] obtain n s'
      where put: "put s bs = Some (n, s')" "inv s'" "content s' = content s @ take n bs" by auto
    with Cons.IH [of s'] Cons.prems Put show ?thesis by auto
  next
    case (Get n)
    with Cons.prems get_law [of s n] obtain s'
      where get: "get s n = Some (take n (content s), s')" "inv s'" "content s' = drop n (content s)"
      by auto
    with Cons.IH [of s'] Cons.prems Get obtain acc del t
      where IH: "fifo_run put get s' ops = Some (acc, del, t)" "inv t"
        "drop n (content s) @ acc = del @ content t"
      by auto
    have "content s @ acc = take n (content s) @ (drop n (content s) @ acc)" by simp
    also have "\<dots> = (take n (content s) @ del) @ content t" by (simp only: IH append_assoc)
    finally show ?thesis using Get get IH by simp
  qed
qed

end

text \<open>A client writes and reads bytes, so the element size passed to the C functions is 1.\<close>

definition rb_put :: "rb_st \<Rightarrow> u8 list \<Rightarrow> (nat \<times> rb_st) option" where
  "rb_put rb bs = do { (r, rb') \<leftarrow> rb_write rb bs 1 (of_nat (length bs)); Some (unat r, rb') }"

definition rb_get :: "rb_st \<Rightarrow> nat \<Rightarrow> (u8 list \<times> rb_st) option" where
  "rb_get rb n = do { (_, bs, rb') \<leftarrow> rb_read rb 1 (of_nat n); Some (bs, rb') }"

lemma unat_of_nat_small: "n < 2 ^ 32 \<Longrightarrow> unat (of_nat n :: u32) = n"
  by (simp add: unat_of_nat take_bit_nat_eq_self)

interpretation rb: byte_fifo rb_inv rb_content "2 ^ 32 - 4" rb_put rb_get
proof
  fix rb and bs :: "u8 list" assume inv: "rb_inv rb" and small: "length bs < 2 ^ 32 - 4"
  let ?n = "unat (1::u32) * unat (of_nat (length bs) :: u32)"
  have n: "?n = length bs" using small by (simp add: unat_of_nat_small)
  show "\<exists>n s'. rb_put rb bs = Some (n, s') \<and> rb_inv s' \<and> rb_content s' = rb_content rb @ take n bs"
  proof (cases "length bs = 0 \<or> unat (capacity rb) < length (rb_content rb) + length bs + 4")
    case True
    then have "rb_write rb bs 1 (of_nat (length bs)) = Some (0, rb)"
      using rb_write_refused [OF inv, of 1 "of_nat (length bs)"] n small by simp
    then show ?thesis using inv by (simp add: rb_put_def)
  next
    case False
    then show ?thesis
      using rb_write_accepted [OF inv, of "length bs" 1 "of_nat (length bs)" bs] n small
      by (auto simp: rb_put_def)
  qed
next
  fix rb n assume inv: "rb_inv rb" and small: "n < 2 ^ 32 - (4::nat)"
  then show "\<exists>s'. rb_get rb n = Some (take n (rb_content rb), s') \<and> rb_inv s' \<and>
      rb_content s' = drop n (rb_content rb)"
    using rb_read_spec [OF inv, of 1 "of_nat n"]
    by (auto simp: rb_read_ok_def rb_get_def unat_of_nat_small)
qed

subsection \<open>Properties\<close>

text \<open>
  C2. The ring buffer is a FIFO: whatever sequence of writes and reads (each shorter than
  \<open>2 ^ 32 - 4\<close> bytes) runs on a freshly initialised buffer, no access leaves the array, and
  the accepted bytes are exactly the delivered ones followed by those still queued, in order.
\<close>

theorem rb_run_is_fifo:
  assumes "length addr = unat cap" and "\<forall>x \<in> set ops. fifo_request x < 2 ^ 32 - 4"
  shows "\<exists>acc del t. fifo_run rb_put rb_get (rb_init addr cap) ops = Some (acc, del, t) \<and>
    rb_inv t \<and> acc = del @ rb_content t"
  using rb.run_fifo [OF rb_init_inv [OF assms(1)], of ops] assms(2) by simp

theorem rb_run_is_fifo_witness:
  "\<exists>acc del t. fifo_run rb_put rb_get (rb_init (replicate 8 0) 8)
       [Put [1,2,3], Get 2, Put [4,5], Get 9] = Some (acc, del, t) \<and>
     rb_inv t \<and> acc = del @ rb_content t"
  by (rule rb_run_is_fifo) simp_all

text \<open>
  C14. A write is all or nothing: it takes every byte exactly when the queue keeps four spare
  bytes afterwards and otherwise leaves the buffer unchanged and returns 0; in both cases it
  stays inside the array.
\<close>

theorem rb_write_all_or_nothing:
  assumes "rb_inv rb" and "n = unat sz * unat count" and "n + 4 < 2 ^ 32" and "n \<le> length buffer"
  shows "if n \<noteq> 0 \<and> length (rb_content rb) + n + 4 \<le> unat (capacity rb)
    then \<exists>rb'. rb_write rb buffer sz count = Some (sz * count, rb') \<and> rb_inv rb' \<and>
           rb_content rb' = rb_content rb @ take n buffer \<and> capacity rb' = capacity rb
    else rb_write rb buffer sz count = Some (0, rb)"
  using rb_write_accepted [OF assms(1-3) _ assms(4)] rb_write_refused [OF assms(1), of sz count] assms
  by auto

theorem rb_write_all_or_nothing_witness:
  "\<exists>rb'. rb_write (rb_init (replicate 16 0) 16) [1,2,3,4] 2 2 = Some (2 * 2, rb') \<and> rb_inv rb' \<and>
     rb_content rb' = [1,2,3,4]"
proof -
  let ?rb = "rb_init (replicate 16 0) 16"
  have "rb_inv ?rb" by (simp add: rb_init_inv)
  moreover have "capacity ?rb = 16" by (simp add: rb_init_def)
  ultimately show ?thesis
    using rb_write_all_or_nothing [of ?rb 4 2 2 "[1,2,3,4]"] by auto
qed

text \<open>
  A read returns the oldest bytes of the queue, as many as are asked for and there, and
  removes them; it stays inside the array for every \<open>size * count\<close>, wrapped or not.
\<close>

theorem rb_read_takes_oldest:
  assumes "rb_inv rb"
  shows "\<exists>r rb'. rb_read rb sz count = Some (r, take (unat (sz * count)) (rb_content rb), rb') \<and>
     unat r = min (unat (sz * count)) (length (rb_content rb)) \<and> rb_inv rb' \<and>
     rb_content rb' = drop (unat (sz * count)) (rb_content rb)"
  using rb_read_spec [OF assms, of sz count] by (auto simp: rb_read_ok_def)

theorem rb_read_takes_oldest_witness:
  "\<exists>r rb'. rb_read (rb_init [7,8] 2) 1 5 = Some (r, [], rb') \<and> unat r = 0 \<and> rb_inv rb' \<and>
     rb_content rb' = []"
  using rb_read_takes_oldest [of "rb_init [7,8] 2" 1 5] by (simp add: rb_init_inv)

text \<open>
  The size queries agree with the queue: the fill size is its length, and the free size
  is exactly the longest non-empty write that will be accepted (0 when none is).
\<close>

theorem rb_sizes_agree:
  assumes "rb_inv rb"
  shows "unat (rb_get_fill_size rb) = length (rb_content rb) \<and>
    unat (rb_get_free_size rb) = unat (capacity rb) - length (rb_content rb) - 4"
proof -
  note b = rb_bounds [OF assms] and lc = length_rb_content [OF assms]
  define f where "f = (if wp rb \<ge> rp rb then capacity rb - wp rb + rp rb else rp rb - wp rb)"
  have f: "unat f = unat (capacity rb) - length (rb_content rb)"
  proof (cases "rp rb \<le> wp rb")
    case True
    have "unat (capacity rb - wp rb) + unat (rp rb) < 2 ^ 32"
      using True b by (simp add: unat_sub word_le_nat_alt)
    then show ?thesis
      using True b lc by (simp add: f_def unat_add_no_wrap unat_sub word_le_nat_alt)
  next
    case False
    then show ?thesis using b lc by (simp add: f_def unat_sub word_le_nat_alt)
  qed
  have "unat (if f > 4 then f - 4 else 0) = unat f - 4"
    by (auto simp: word_less_nat_alt unat_sub word_le_nat_alt)
  moreover have "rb_get_free_size rb = (if f > 4 then f - 4 else 0)"
    by (simp add: rb_get_free_size_def RWP_SAFE_INTERVAL_def Let_def f_def)
  ultimately show ?thesis
    by (simp only: f rb_fill_size [OF assms])
qed

theorem rb_sizes_agree_witness:
  "unat (rb_get_fill_size (rb_init (replicate 16 0) 16)) = 0 \<and>
   unat (rb_get_free_size (rb_init (replicate 16 0) 16)) = 12"
  using rb_sizes_agree [of "rb_init (replicate 16 0) 16"]
  by (simp add: rb_init_inv) (simp add: rb_init_def)

text \<open>
  C3. The guard of \<open>rb_write\<close> adds the safety interval in 32 bits: a request of
  \<open>0xFFFFFFFC\<close> bytes makes the sum 0, passes the check on every buffer whose indices have
  not wrapped, and the copy then leaves the array.
\<close>

theorem rb_write_guard_wraps:
  assumes "rb_inv rb" and "rp rb \<le> wp rb" and "unat (capacity rb) < 2 ^ 30"
  shows "rb_write rb buffer 0xFFFFFFFC 1 = None"
proof -
  note b = rb_bounds [OF assms(1)]
  have rem: "unat (capacity rb - wp rb) = unat (capacity rb) - unat (wp rb)"
    using b by (simp add: unat_sub word_le_nat_alt)
  then have sub: "unat (0xFFFFFFFC - (capacity rb - wp rb)) =
      0xFFFFFFFC - (unat (capacity rb) - unat (wp rb))"
    using assms(3) by (simp add: unat_sub word_le_nat_alt)
  have no: "\<not> capacity rb - wp rb \<ge> 0xFFFFFFFC"
    using rem assms(3) by (simp add: word_le_nat_alt)
  have zero: "0xFFFFFFFC + RWP_SAFE_INTERVAL = 0" by (simp add: RWP_SAFE_INTERVAL_def)
  let ?j = "unat (capacity rb) - unat (wp rb)"
  have run: "rb_write rb buffer 0xFFFFFFFC 1 =
      do { bs \<leftarrow> mem_load buffer 0 ?j; m \<leftarrow> mem_store (address rb) (unat (wp rb)) bs;
           bs' \<leftarrow> mem_load buffer ?j (0xFFFFFFFC - ?j); m' \<leftarrow> mem_store m 0 bs';
           Some (0xFFFFFFFC, rb_wrap_wp (rb\<lparr>address := m', wp := 0xFFFFFFFC - (capacity rb - wp rb)\<rparr>)) }"
    using assms(2) by (simp add: rb_write_def Let_def zero no rem sub)
  have "mem_store m 0 bs' = None"
    if "mem_store (address rb) (unat (wp rb)) bs = Some m"
      "mem_load buffer ?j (0xFFFFFFFC - ?j) = Some bs'" for bs m bs'
  proof -
    have "length bs' = 0xFFFFFFFC - ?j" using that(2) by (auto simp: mem_load_def split: if_splits)
    moreover have "length m = unat (capacity rb)" using mem_store_length [OF that(1)] b by simp
    ultimately show ?thesis using assms(3)
      by (simp add: mem_store_def)
  qed
  then show ?thesis by (auto simp: run split: bind_splits)
qed

theorem rb_write_guard_wraps_witness:
  "rb_write (rb_init (replicate 8 0) 8) [] 0xFFFFFFFC 1 = None"
  by (rule rb_write_guard_wraps) (simp_all add: rb_init_inv, simp_all add: rb_init_def)

end
