(* ===== verification/Flash.thy ===== *)
theory Flash
  imports Prelude "HOL-Library.Monad_Syntax"
begin

text \<open>
  The flash driver (\<open>driver/flash/flash.c\<close>) and the partition layer above it
  (\<open>func/user_driver/BkDriverFlash.c\<close>).

  The device state \<open>flash_dev\<close> holds the array of the chip (a total function, so a command at
  an address past the end of the part is visible), its status register, the entry of
  \<open>flash_config\<close> that \<open>flash_get_current_flash_config\<close> selected, and the clock and line mode
  fields of the controller.  What the chip itself does with a page program or a sector erase
  is not in the repository; \<open>chip_pp\<close>, \<open>chip_se\<close> and \<open>chip_read32\<close> state the documented
  behaviour of a NOR part that the drivers rely on (``flash can only write zeros'', as
  \<open>flash_namespace_value.h\<close> puts it): programming clears bits, erasing sets the 4 KB sector
  to 0xFF, and a cell that the status register protects does not change.  Which cells a
  status value protects is the data sheet's business and stays a parameter, \<open>fd_locked\<close>.

  The loops of \<open>flash_read_data\<close>, \<open>flash_write_data\<close> and \<open>flash_page_write_data\<close> are
  translated with their 32 and 256 byte chunks, then proved equal to a slice and to one
  programming of the whole range.  The locale \<open>nor_store\<close> is the contract that the clients
  of the driver use.
\<close>

subsection \<open>Data\<close>

record flash_config_t =
  flash_id :: u32
  sr_size :: u8
  flash_size :: u32
  line_mode :: u8
  cmp_post :: u8
  protect_post :: u8
  protect_mask :: u8
  protect_all :: u16
  protect_none :: u16
  protect_half :: u16
  unprotect_last_block :: u16
  qe_bit_post :: u8
  qe_bit :: u8
  m_value :: u8
  mode_sel :: u8

definition mk_config ::
  "u32 \<Rightarrow> u8 \<Rightarrow> u32 \<Rightarrow> u8 \<Rightarrow> u8 \<Rightarrow> u8 \<Rightarrow> u8 \<Rightarrow> u16 \<Rightarrow> u16 \<Rightarrow> u16 \<Rightarrow> u16 \<Rightarrow> u8 \<Rightarrow> u8 \<Rightarrow> u8 \<Rightarrow> u8
    \<Rightarrow> flash_config_t" where
  "mk_config i ss fs lm cp pp pm pa pn ph pl qp qb mv ms =
     \<lparr>flash_id = i, sr_size = ss, flash_size = fs, line_mode = lm, cmp_post = cp,
      protect_post = pp, protect_mask = pm, protect_all = pa, protect_none = pn,
      protect_half = ph, unprotect_last_block = pl, qe_bit_post = qp, qe_bit = qb,
      m_value = mv, mode_sel = ms\<rparr>"

definition flash_config :: "flash_config_t list" where
  "flash_config =
    [mk_config 0x1C7016 1 0x400000 2  0 2 0x1F 0x1F 0x00 0x16 0x01B 0 0 0xA5 0x01,
     mk_config 0x1C7015 1 0x200000 2  0 2 0x1F 0x1F 0x00 0x0d 0x0d  0 0 0xA5 0x01,
     mk_config 0x1C4116 2 0x400000 2 14 2 0x1F 0x1F 0x00 0x0E 0x101 9 1 0xA5 0x01,
     mk_config 0x1C6116 2 0x400000 2 14 2 0x1F 0x1F 0x00 0x0E 0x101 9 1 0xA5 0x01,
     mk_config 0x0B4014 2 0x100000 2 14 2 0x1F 0x1F 0x00 0x0C 0x101 9 1 0xA0 0x01,
     mk_config 0x0B4015 2 0x200000 2 14 2 0x1F 0x1F 0x00 0x0D 0x101 9 1 0xA0 0x01,
     mk_config 0x0B4016 2 0x400000 2 14 2 0x1F 0x1F 0x00 0x0E 0x101 9 1 0xA0 0x01,
     mk_config 0x0B4017 2 0x800000 2 14 2 0x1F 0x05 0x00 0x0E 0x109 9 1 0xA0 0x01,
     mk_config 0x0E4016 2 0x400000 2 14 2 0x1F 0x1F 0x00 0x0E 0x101 9 1 0xA0 0x01,
     mk_config 0xC84015 2 0x200000 2 14 2 0x1F 0x1F 0x00 0x0D 0x101 9 1 0xA0 0x01,
     mk_config 0xC84016 1 0x400000 2  0 2 0x1F 0x1F 0x00 0x0E 0x00E 0 0 0xA0 0x01,
     mk_config 0xC86515 2 0x200000 2 14 2 0x1F 0x1F 0x00 0x0D 0x101 9 1 0xA0 0x01,
     mk_config 0xEF4016 2 0x400000 2 14 2 0x1F 0x1F 0x00 0x00 0x101 9 1 0xA0 0x01,
     mk_config 0x204016 2 0x400000 2 14 2 0x1F 0x1F 0x00 0x0E 0x101 9 1 0xA0 0x01,
     mk_config 0xC22315 1 0x200000 2  0 2 0x0F 0x0F 0x00 0x0A 0x00E 6 1 0xA5 0x01,
     mk_config 0xEB6015 2 0x200000 2 14 2 0x1F 0x1F 0x00 0x0D 0x101 9 1 0xA0 0x01,
     mk_config 0xCD6014 2 0x100000 2 14 2 0x1F 0x1F 0x00 0x0C 0x101 9 1 0xA0 0x01,
     mk_config 0x854215 1 0x200000 2 14 2 0x1F 0x1F 0x00 0x0C 0x101 9 1 0xA0 0x01,
     mk_config 0x856015 2 0x200000 2 14 2 0x1F 0x1F 0x00 0x0D 0x101 9 1 0xA0 0x01,
     mk_config 0x852015 2 0x200000 2 14 2 0x1F 0x1F 0x00 0x0D 0x101 9 1 0xA0 0x01,
     mk_config 0xC46015 2 0x200000 2 14 2 0x1F 0x1F 0x00 0x0D 0x011 9 1 0x20 0x01,
     mk_config 0x000000 2 0x400000 2  0 2 0x1F 0x00 0x00 0x00 0x000 0 0 0x00 0x01]"

text \<open>
  \<open>fd_page_write\<close> tells whether the build is for a BK7238 or BK7252N (the page write path);
  \<open>fd_conf\<close> and \<open>fd_crc_cnt\<close> are the registers \<open>REG_FLASH_CONF\<close> (clock, line mode, CPU write
  enable, status register data, CRC enable) and \<open>REG_FLASH_SR_DATA_CRC_CNT\<close> (mode value,
  page write enable); \<open>fd_chip_id\<close> is what the part answers to a read-id command, \<open>fd_otp\<close>
  holds its security registers and \<open>fd_uid\<close> the answer of \<open>flash_bypass_op_read\<close> to the unique
  id command.  The bus carries 24 address bits; the model speaks of addresses below 16 MB.
\<close>

record flash_dev =
  fd_mem :: "nat \<Rightarrow> u8"
  fd_sr :: u16
  fd_locked :: "u16 \<Rightarrow> nat \<Rightarrow> bool"
  fd_chip_id :: u32
  fd_id :: u32
  fd_cfg :: flash_config_t
  fd_conf :: u32
  fd_crc_cnt :: u32
  fd_otp :: "u8 \<Rightarrow> nat \<Rightarrow> u8"
  fd_uid :: "int \<times> u8 list"
  fd_page_write :: bool

datatype PROTECT_TYPE =
    FLASH_PROTECT_NONE | FLASH_PROTECT_ALL | FLASH_PROTECT_HALF | FLASH_UNPROTECT_LAST_BLOCK
  | PROTECT_UNKNOWN  \<comment> \<open>the \<open>-1\<close> of \<open>get_flash_protect\<close>\<close>

subsection \<open>The chip\<close>

definition nor_write :: "(nat \<Rightarrow> u8) \<Rightarrow> nat \<Rightarrow> u8 list \<Rightarrow> (nat \<Rightarrow> u8)" where
  "nor_write m a bs = (\<lambda>x. if a \<le> x \<and> x < a + length bs then m x AND bs ! (x - a) else m x)"

definition nor_erase :: "(nat \<Rightarrow> u8) \<Rightarrow> nat \<Rightarrow> nat \<Rightarrow> (nat \<Rightarrow> u8)" where
  "nor_erase m a n = (\<lambda>x. if a \<le> x \<and> x < a + n then 0xFF else m x)"

definition chip_keep :: "flash_dev \<Rightarrow> (nat \<Rightarrow> u8) \<Rightarrow> flash_dev" where
  "chip_keep d m' = d\<lparr>fd_mem := (\<lambda>x. if fd_locked d (fd_sr d) x then fd_mem d x else m' x)\<rparr>"

definition chip_read32 :: "flash_dev \<Rightarrow> nat \<Rightarrow> u8 list" where
  "chip_read32 d a = slice (fd_mem d) a 32"

definition chip_pp :: "flash_dev \<Rightarrow> nat \<Rightarrow> u8 list \<Rightarrow> flash_dev" where
  "chip_pp d a bs = chip_keep d (nor_write (fd_mem d) a bs)"

definition chip_se :: "flash_dev \<Rightarrow> nat \<Rightarrow> flash_dev" where
  "chip_se d a = chip_keep d (nor_erase (fd_mem d) a 4096)"

text \<open>
  A write-status command transfers the data field of \<open>REG_FLASH_CONF\<close> to one or both bytes of
  the status register.
\<close>

definition wrsr_data :: "u32 \<Rightarrow> u16" where
  "wrsr_data conf = ucast (drop_bit 10 conf)"

definition put_wrsr_data :: "flash_dev \<Rightarrow> u16 \<Rightarrow> flash_dev" where
  "put_wrsr_data d v =
     d\<lparr>fd_conf := (fd_conf d AND NOT (push_bit 10 0x00FFFF)) OR push_bit 10 (ucast v)\<rparr>"

definition chip_wrsr :: "flash_dev \<Rightarrow> flash_dev" where
  "chip_wrsr d = d\<lparr>fd_sr := (fd_sr d AND 0xFF00) OR (wrsr_data (fd_conf d) AND 0x00FF)\<rparr>"

definition chip_wrsr2 :: "flash_dev \<Rightarrow> flash_dev" where
  "chip_wrsr2 d = d\<lparr>fd_sr := wrsr_data (fd_conf d)\<rparr>"

subsection \<open>Status register and protection\<close>

definition flash_get_current_flash_config :: "flash_dev \<Rightarrow> flash_dev" where
  "flash_get_current_flash_config d =
     (case find (\<lambda>c. flash_id c = fd_id d) (butlast flash_config) of
        Some c \<Rightarrow> d\<lparr>fd_cfg := c\<rparr>
      | None \<Rightarrow> d\<lparr>fd_cfg := last flash_config\<rparr>)"

definition flash_read_sr :: "flash_dev \<Rightarrow> u8 \<Rightarrow> u16" where
  "flash_read_sr d sr_width =
     (let sr = fd_sr d AND 0x00FF in
      if sr_width = 2 then sr OR (push_bit 8 (drop_bit 8 (fd_sr d) AND 0x00FF)) else sr)"

definition flash_write_sr :: "flash_dev \<Rightarrow> u8 \<Rightarrow> u16 \<Rightarrow> flash_dev" where
  "flash_write_sr d sr_width val =
     (let d1 = put_wrsr_data d val in
      if sr_width = 1 then chip_wrsr d1
      else if sr_width = 2 then chip_wrsr2 d1
      else d1)"

definition get_flash_protect :: "flash_dev \<Rightarrow> PROTECT_TYPE" where
  "get_flash_protect d =
     (let c = fd_cfg d; sr_value = flash_read_sr d (sr_size c);
          param = drop_bit (unat (protect_post c)) sr_value AND ucast (protect_mask c);
          cmp = drop_bit (unat (cmp_post c)) sr_value AND 0x01;
          value = push_bit 8 cmp OR param in
      if value = protect_all c then FLASH_PROTECT_ALL
      else if value = protect_none c then FLASH_PROTECT_NONE
      else if value = protect_half c then FLASH_PROTECT_HALF
      else if value = unprotect_last_block c then FLASH_UNPROTECT_LAST_BLOCK
      else PROTECT_UNKNOWN)"

definition protect_word :: "flash_config_t \<Rightarrow> PROTECT_TYPE \<Rightarrow> u16" where
  "protect_word c type =
     (case type of
        FLASH_PROTECT_NONE \<Rightarrow> protect_none c
      | FLASH_PROTECT_ALL \<Rightarrow> protect_all c
      | FLASH_PROTECT_HALF \<Rightarrow> protect_half c
      | FLASH_UNPROTECT_LAST_BLOCK \<Rightarrow> unprotect_last_block c
      | PROTECT_UNKNOWN \<Rightarrow> protect_all c)"

definition set_flash_protect :: "flash_dev \<Rightarrow> PROTECT_TYPE \<Rightarrow> flash_dev" where
  "set_flash_protect d type =
     (let c = fd_cfg d;
          param = (ucast (protect_word c type AND 0xff) :: u32);
          cmp = (ucast (drop_bit 8 (protect_word c type) AND 0xff) :: u32);
          pmask = push_bit (unat (protect_post c)) (ucast (protect_mask c) :: u32);
          value = (ucast (flash_read_sr d (sr_size c)) :: u32) in
      if push_bit (unat (protect_post c)) param \<noteq> value AND pmask
         \<or> push_bit (unat (cmp_post c)) cmp \<noteq> value AND push_bit (unat (cmp_post c)) 1
      then
        (let v1 = (value AND NOT pmask) OR push_bit (unat (protect_post c)) param;
             v2 = v1 AND NOT (push_bit (unat (cmp_post c)) 1);
             v3 = v2 OR push_bit (unat (cmp_post c)) (cmp AND 0x01) in
         flash_write_sr d (sr_size c) (ucast v3))
      else d)"


definition flash_erase_sector :: "flash_dev \<Rightarrow> u32 \<Rightarrow> flash_dev" where
  "flash_erase_sector d addr =
     (let erase_addr = addr AND 0xFFF000 in
      if flash_size (fd_cfg d) \<le> erase_addr then d
      else chip_se d (unat erase_addr))"

subsection \<open>Reading\<close>

text \<open>
  The inner loop of \<open>flash_read_data\<close> copies bytes of the 32 byte buffer \<open>pb\<close> from index \<open>i\<close> on
  until the buffer or the request is exhausted; it returns the bytes, the advanced address
  and the remaining length.
\<close>

function rd_copy :: "u8 list \<Rightarrow> nat \<Rightarrow> nat \<Rightarrow> nat \<Rightarrow> u8 list \<times> nat \<times> nat" where
  "rd_copy pb i addr len =
     (if i < 32
      then (let b = pb ! i; addr' = addr + 1; len' = len - 1 in
            if len' = 0 then ([b], addr', len')
            else (let (bs, addr'', len'') = rd_copy pb (i + 1) addr' len' in (b # bs, addr'', len'')))
      else ([], addr, len))"
  by pat_completeness auto
termination by (relation "measure (\<lambda>(pb, i, addr, len). 32 - i)") auto

declare rd_copy.simps [simp del]

lemma rd_copy_eq [loop_simps]:
  "0 < len \<Longrightarrow> length pb = 32 \<Longrightarrow> i \<le> 32 \<Longrightarrow>
     rd_copy pb i addr len =
       (take len (drop i pb), addr + min len (32 - i), len - min len (32 - i))"
proof (induction pb i addr len rule: rd_copy.induct)
  case (1 pb i addr len)
  show ?case
  proof (cases "i < 32 \<and> 1 < len")
    case True
    have "take len (drop i pb) = pb ! i # take (len - 1) (drop (Suc i) pb)"
      using True "1.prems" by (simp add: Cons_nth_drop_Suc [symmetric] take_Cons')
    then show ?thesis
      using True "1.prems" "1.IH" by (subst rd_copy.simps) (auto simp: Let_def)
  next
    case False
    then consider "i = 32" | "i < 32" "len = 1" using "1.prems" by linarith
    then show ?thesis
      using "1.prems"
      by (subst rd_copy.simps, cases)
        (auto simp: Let_def take_Suc hd_drop_conv_nth)
  qed
qed

function rd_loop :: "flash_dev \<Rightarrow> nat \<Rightarrow> nat \<Rightarrow> nat \<Rightarrow> u8 list" where
  "rd_loop d a addr len =
     (if len = 0 then []
      else (let pb = chip_read32 d a; (bs, addr', len') = rd_copy pb (addr mod 32) addr len in
            bs @ rd_loop d (a + 32) addr' len'))"
  by pat_completeness auto
termination
  by (relation "measure (\<lambda>(d, a, addr, len). len)")
    (auto simp: chip_read32_def rd_copy_eq less_imp_le)

declare rd_loop.simps [simp del]

definition flash_read_data :: "flash_dev \<Rightarrow> u32 \<Rightarrow> u32 \<Rightarrow> u8 list" where
  "flash_read_data d addr len =
     (if len = 0 then []
      else rd_loop d (unat (addr AND NOT 0x1F)) (unat addr) (unat len))"

lemma and_not_mask_unat: "unat ((a::u32) AND NOT (mask n)) = unat a - unat a mod 2 ^ n"
proof -
  have "a AND NOT (mask n) = push_bit n (drop_bit n a)"
    by (rule bit_word_eqI) (auto simp: bit_simps)
  moreover have "push_bit n (drop_bit n a) + take_bit n a = a" by (rule bits_ident)
  ultimately have "a AND NOT (mask n) = a - take_bit n a" by (simp add: algebra_simps)
  moreover have "unat (take_bit n a) = unat a mod 2 ^ n"
    by (subst unsigned_take_bit_eq) (simp add: take_bit_eq_mod)
  moreover have "take_bit n a \<le> a"
    by (simp add: word_le_nat_alt unsigned_take_bit_eq)
  ultimately show ?thesis by (simp add: unat_sub)
qed

lemma unat_align32 [simp]: "unat ((a::u32) AND - 32) = unat a - unat a mod 32"
  using and_not_mask_unat [of a 5] by (simp add: mask_eq_decr_exp)

text \<open>The chunked read loop is a slice of the array.\<close>

lemma align32_next:
  "a = addr - addr mod 32 \<Longrightarrow> 32 - addr mod 32 < len \<Longrightarrow>
     a + 32 = (addr + min len (32 - addr mod 32)) - (addr + min len (32 - addr mod 32)) mod (32::nat)"
proof -
  assume a: "a = addr - addr mod 32" and l: "32 - addr mod 32 < len"
  then have "addr + min len (32 - addr mod 32) = a + 32" by simp
  moreover have "(a + 32) mod 32 = 0" using a by (simp add: minus_mod_eq_mult_div)
  ultimately show ?thesis by simp
qed

lemma rd_loop_eq [loop_simps]:
  "a = addr - addr mod 32 \<Longrightarrow> rd_loop d a addr len = slice (fd_mem d) addr len"
proof (induction len arbitrary: a addr rule: less_induct)
  case (less len)
  let ?k = "min len (32 - addr mod 32)"
  show ?case
  proof (cases "len = 0")
    case True
    then show ?thesis by (simp add: rd_loop.simps)
  next
    case False
    have copy: "rd_copy (chip_read32 d a) (addr mod 32) addr len =
        (slice (fd_mem d) addr ?k, addr + ?k, len - ?k)"
      using False less.prems
      by (simp add: rd_copy_eq chip_read32_def slice_simps less_imp_le min.commute)
    have "rd_loop d (a + 32) (addr + ?k) (len - ?k) = slice (fd_mem d) (addr + ?k) (len - ?k)"
    proof (cases "len \<le> 32 - addr mod 32")
      case True
      then show ?thesis by (simp add: rd_loop.simps)
    next
      case gt: False
      then show ?thesis
        using False align32_next [OF less.prems, of len] by (intro less.IH) auto
    qed
    then show ?thesis
      using False copy by (simp add: rd_loop.simps [of d a addr len] slice_append)
  qed
qed

lemma flash_read_data_eq [loop_simps]:
  "flash_read_data d addr len = slice (fd_mem d) (unat addr) (unat len)"
  by (auto simp: flash_read_data_def rd_loop_eq)


subsection \<open>Writing\<close>

text \<open>
  The inner loop of \<open>flash_write_data\<close> stores the next bytes of the caller's buffer in \<open>pb\<close> from
  index \<open>i\<close> on; it returns \<open>pb\<close>, the rest of the buffer, the advanced address and the
  remaining length.
\<close>

function wr_fill :: "u8 list \<Rightarrow> nat \<Rightarrow> u8 list \<Rightarrow> nat \<Rightarrow> nat \<Rightarrow> u8 list \<times> u8 list \<times> nat \<times> nat" where
  "wr_fill pb i buffer addr len =
     (if i < 32
      then (let pb' = pb[i := hd buffer]; buffer' = tl buffer; addr' = addr + 1; len' = len - 1 in
            if len' = 0 then (pb', buffer', addr', len')
            else wr_fill pb' (i + 1) buffer' addr' len')
      else (pb, buffer, addr, len))"
  by pat_completeness auto
termination by (relation "measure (\<lambda>(pb, i, buffer, addr, len). 32 - i)") auto

declare wr_fill.simps [simp del]

lemma wr_fill_eq [loop_simps]:
  "0 < len \<Longrightarrow> length pb = 32 \<Longrightarrow> i \<le> 32 \<Longrightarrow> len \<le> length buffer \<Longrightarrow>
     wr_fill pb i buffer addr len =
       (let k = min len (32 - i) in
        (take i pb @ take k buffer @ drop (i + k) pb, drop k buffer, addr + k, len - k))"
proof (induction pb i buffer addr len rule: wr_fill.induct)
  case (1 pb i buffer addr len)
  obtain b bs where buffer: "buffer = b # bs" using "1.prems" by (cases buffer) auto
  show ?case
  proof (cases "i < 32 \<and> 1 < len")
    case True
    have "take (Suc i) (pb[i := b]) = take i pb @ [b]"
      using True "1.prems" by (simp add: take_Suc_conv_app_nth)
    moreover have "min len (32 - i) = Suc (min (len - 1) (31 - i))" using True by (auto simp: min_def)
    ultimately show ?thesis
      using True "1.prems" "1.IH" buffer
      by (subst wr_fill.simps) (auto simp: Let_def take_Cons' drop_Cons')
  next
    case False
    then consider "i = 32" | "i < 32" "len = 1" using "1.prems" by linarith
    then show ?thesis
      using "1.prems" buffer
      by (subst wr_fill.simps, cases) (auto simp: Let_def upd_conv_take_nth_drop)
  qed
qed

lemma wr_fill_less:
  "(pb2, buffer', addr', len') = wr_fill pb i buffer addr len \<Longrightarrow> 0 < len \<Longrightarrow>
     len' \<le> len \<and> (i < 32 \<longrightarrow> len' < len)"
proof (induction pb i buffer addr len rule: wr_fill.induct)
  case (1 pb i buffer addr len)
  show ?case
  proof (cases "i < 32 \<and> len \<noteq> 1")
    case True
    with "1.prems" have "wr_fill pb i buffer addr len =
        wr_fill (pb[i := hd buffer]) (i + 1) (tl buffer) (addr + 1) (len - 1)"
      by (subst wr_fill.simps) (auto simp: Let_def)
    then have "len' \<le> len - 1" using "1.prems" "1.IH" True by auto
    then show ?thesis using "1.prems" by auto
  next
    case False
    then show ?thesis
      using "1.prems" by (subst (asm) wr_fill.simps) (auto simp: Let_def split: if_splits)
  qed
qed

function wr_loop :: "flash_dev \<Rightarrow> u8 list \<Rightarrow> u8 list \<Rightarrow> nat \<Rightarrow> nat \<Rightarrow> nat \<Rightarrow> flash_dev" where
  "wr_loop d pb buffer a addr len =
     (if len = 0 then d
      else (let pb1 = (if len < 32 then chip_read32 d a else pb);
                (pb2, buffer', addr', len') = wr_fill pb1 (addr mod 32) buffer addr len in
            wr_loop (chip_pp d a pb2) (replicate 32 0xFF) buffer' (a + 32) addr' len'))"
  by pat_completeness auto
termination
  by (relation "measure (\<lambda>(d, pb, buffer, a, addr, len). len)") (auto dest: wr_fill_less)

declare wr_loop.simps [simp del]


definition flash_write_data :: "flash_dev \<Rightarrow> u8 list \<Rightarrow> u32 \<Rightarrow> u32 \<Rightarrow> flash_dev option" where
  "flash_write_data d buffer addr len =
     (let a = addr AND NOT 0x1F; fs = flash_size (fd_cfg d) in
      if fs \<le> a \<or> fs < len \<or> fs < a + len then Some d
      else if length buffer < unat len then None
      else (let pb = (if addr mod 32 \<noteq> 0 then flash_read_data d a 32 else replicate 32 0xFF) in
            Some (wr_loop d pb buffer (unat a) (unat addr) (unat len))))"

definition neutral :: "flash_dev \<Rightarrow> nat \<Rightarrow> u8 list \<Rightarrow> bool" where
  "neutral d a pb \<longleftrightarrow> length pb = 32 \<and> (\<forall>i<32. fd_mem d (a + i) AND pb ! i = fd_mem d (a + i))"

lemma neutral_read [simp]: "neutral d a (chip_read32 d a)"
  by (simp add: neutral_def chip_read32_def)

lemma and_FF [simp]: "(w :: u8) AND 0xFF = w"
proof -
  have "(0xFF :: u8) = - 1" by simp
  then show ?thesis by (simp only: and_minus_numerals bit.conj_one_right)
qed

lemma neutral_FF [simp]: "neutral d a (replicate 32 0xFF)"
  by (simp add: neutral_def)

lemma chip_keep_cong:
  "(\<And>x. \<not> fd_locked d (fd_sr d) x \<Longrightarrow> m x = m' x) \<Longrightarrow> chip_keep d m = chip_keep d m'"
proof -
  assume "\<And>x. \<not> fd_locked d (fd_sr d) x \<Longrightarrow> m x = m' x"
  then have "(\<lambda>x. if fd_locked d (fd_sr d) x then fd_mem d x else m x) =
      (\<lambda>x. if fd_locked d (fd_sr d) x then fd_mem d x else m' x)" by auto
  then show ?thesis by (simp add: chip_keep_def)
qed

lemma chip_keep_same [simp]: "chip_keep d (fd_mem d) = d"
  by (simp add: chip_keep_def)

lemma chip_keep_twice: "chip_keep (chip_keep d m) m' = chip_keep d m'"
proof -
  have "(\<lambda>x. if fd_locked d (fd_sr d) x then (if fd_locked d (fd_sr d) x then fd_mem d x else m x)
      else m' x) = (\<lambda>x. if fd_locked d (fd_sr d) x then fd_mem d x else m' x)" by auto
  then show ?thesis by (simp add: chip_keep_def cong: if_cong)
qed

lemma nor_write_Nil [simp]: "nor_write m a [] = m"
  by (auto simp: nor_write_def fun_eq_iff)

lemma chip_pp_Nil [simp]: "chip_pp d a [] = d"
  by (simp add: chip_pp_def)

lemma chip_pp_append:
  "chip_pp (chip_pp d a xs) (a + length xs) ys = chip_pp d a (xs @ ys)"
  unfolding chip_pp_def chip_keep_twice
  by (rule chip_keep_cong) (auto simp: chip_keep_def nor_write_def nth_append)

lemma chip_pp_neutral:
  assumes "neutral d a pb" and "i + length xs \<le> 32"
  shows "chip_pp d a (take i pb @ xs @ drop (i + length xs) pb) = chip_pp d (a + i) xs"
proof -
  let ?bs = "take i pb @ xs @ drop (i + length xs) pb"
  have len: "length ?bs = 32" using assms by (simp add: neutral_def)
  have "nor_write (fd_mem d) a ?bs = nor_write (fd_mem d) (a + i) xs"
  proof
    fix x
    have "fd_mem d x AND pb ! (x - a) = fd_mem d x" if "a \<le> x" "x < a + 32"
      using assms(1) that by (auto simp: neutral_def dest: spec [of _ "x - a"])
    then show "nor_write (fd_mem d) a ?bs x = nor_write (fd_mem d) (a + i) xs x"
      using assms by (auto simp: nor_write_def len neutral_def nth_append diff_diff_left)
  qed
  then show ?thesis by (simp add: chip_pp_def)
qed

lemma wr_loop_eq [loop_simps]:
  "a = addr - addr mod 32 \<Longrightarrow> neutral d a pb \<Longrightarrow> len \<le> length buffer \<Longrightarrow>
     wr_loop d pb buffer a addr len = chip_pp d addr (take len buffer)"
proof (induction len arbitrary: d pb buffer a addr rule: less_induct)
  case (less len)
  let ?i = "addr mod 32"
  let ?k = "min len (32 - ?i)"
  show ?case
  proof (cases "len = 0")
    case True
    then show ?thesis by (simp add: wr_loop.simps)
  next
    case False
    define pb1 where "pb1 = (if len < 32 then chip_read32 d a else pb)"
    have n1: "neutral d a pb1" using less.prems by (simp add: pb1_def)
    let ?pb2 = "take ?i pb1 @ take ?k buffer @ drop (?i + ?k) pb1"
    have fill: "wr_fill pb1 ?i buffer addr len = (?pb2, drop ?k buffer, addr + ?k, len - ?k)"
      using False n1 less.prems by (subst wr_fill_eq) (auto simp: neutral_def Let_def less_imp_le)
    have pp: "chip_pp d a ?pb2 = chip_pp d addr (take ?k buffer)"
      using chip_pp_neutral [OF n1, of ?i "take ?k buffer"] less.prems by auto
    have rest: "wr_loop (chip_pp d a ?pb2) (replicate 32 0xFF) (drop ?k buffer) (a + 32) (addr + ?k) (len - ?k)
        = chip_pp (chip_pp d a ?pb2) (addr + ?k) (take (len - ?k) (drop ?k buffer))"
    proof (cases "len \<le> 32 - ?i")
      case True
      then show ?thesis by (simp add: wr_loop.simps)
    next
      case gt: False
      have kpos: "0 < ?k" using False by simp
      show ?thesis
      proof (rule less.IH)
        show "len - ?k < len" using False kpos by linarith
        show "a + 32 = addr + ?k - (addr + ?k) mod 32"
          using align32_next [OF less.prems(1), of len] gt by linarith
        show "len - ?k \<le> length (drop ?k buffer)"
          unfolding length_drop by (rule diff_le_mono [OF less.prems(3)])
      qed simp
    qed
    have step: "wr_loop d pb buffer a addr len =
        wr_loop (chip_pp d a ?pb2) (replicate 32 0xFF) (drop ?k buffer) (a + 32) (addr + ?k) (len - ?k)"
      by (subst wr_loop.simps) (simp only: False if_False Let_def pb1_def [symmetric] fill prod.case)
    have "length (take ?k buffer) = ?k" using less.prems(3) by simp
    then have "chip_pp (chip_pp d addr (take ?k buffer)) (addr + ?k) (take (len - ?k) (drop ?k buffer))
        = chip_pp d addr (take ?k buffer @ take (len - ?k) (drop ?k buffer))"
      by (metis chip_pp_append)
    moreover have "take ?k buffer @ take (len - ?k) (drop ?k buffer) = take len buffer"
      by (metis add_diff_inverse_nat min.cobounded1 not_less take_add)
    ultimately show ?thesis
      by (simp only: step pp rest [unfolded pp])
  qed
qed


subsection \<open>Controller registers\<close>

definition flash_disable_crc :: "flash_dev \<Rightarrow> flash_dev" where
  "flash_disable_crc d = d\<lparr>fd_conf := fd_conf d AND NOT (push_bit 26 1)\<rparr>"

definition flash_enable_crc :: "flash_dev \<Rightarrow> flash_dev" where
  "flash_enable_crc d = d\<lparr>fd_conf := fd_conf d OR push_bit 26 1\<rparr>"

definition flash_set_clk :: "flash_dev \<Rightarrow> u8 \<Rightarrow> flash_dev" where
  "flash_set_clk d clk_conf = d\<lparr>fd_conf := (fd_conf d AND NOT 0x0F) OR ucast clk_conf\<rparr>"

definition flash_get_clk :: "flash_dev \<Rightarrow> u32" where
  "flash_get_clk d = fd_conf d AND 0x0F"

definition flash_disable_cpu_data_wr :: "flash_dev \<Rightarrow> flash_dev" where
  "flash_disable_cpu_data_wr d = d\<lparr>fd_conf := fd_conf d AND NOT (push_bit 9 1)\<rparr>"

definition flash_read_qe :: "flash_dev \<Rightarrow> u8" where
  "flash_read_qe d =
     (if sr_size (fd_cfg d) = 1 then ucast (fd_sr d AND 0xFF)
      else ucast (drop_bit 8 (fd_sr d) AND 0xFF))"

definition flash_set_qe :: "flash_dev \<Rightarrow> flash_dev" where
  "flash_set_qe d =
     (let c = fd_cfg d; param = flash_read_sr d (sr_size c);
          qe = push_bit (unat (qe_bit_post c)) (ucast (qe_bit c)) in
      if param AND qe \<noteq> 0 then d
      else (let d1 = put_wrsr_data d (qe OR param) in
            if sr_size c = 1 then chip_wrsr d1 else chip_wrsr2 d1))"

definition flash_set_qwfr :: "flash_dev \<Rightarrow> flash_dev" where
  "flash_set_qwfr d =
     d\<lparr>fd_conf := (fd_conf d AND NOT (push_bit 4 0x1F)) OR push_bit 4 (ucast (mode_sel (fd_cfg d)))\<rparr>"

definition flash_clr_qwfr :: "flash_dev \<Rightarrow> flash_dev" where
  "flash_clr_qwfr d = d\<lparr>fd_conf := fd_conf d AND NOT (push_bit 4 0x1F)\<rparr>"

definition flash_set_wsr :: "flash_dev \<Rightarrow> u16 \<Rightarrow> flash_dev" where
  "flash_set_wsr d data = chip_wrsr2 (put_wrsr_data d data)"

definition flash_set_line_mode :: "flash_dev \<Rightarrow> u8 \<Rightarrow> flash_dev" where
  "flash_set_line_mode d mode =
     (if mode = 1 then flash_clr_qwfr d
      else if mode = 2 then
        (let d1 = flash_clr_qwfr d in
         d1\<lparr>fd_conf := (fd_conf d1 AND NOT (push_bit 4 0x1F)) OR push_bit 4 (1 AND 0x1F)\<rparr>)
      else if mode = 4 then
        (let d1 = flash_clr_qwfr d;
             d2 = d1\<lparr>fd_crc_cnt := (fd_crc_cnt d1 AND NOT (push_bit 22 0xFF))
                       OR push_bit 22 (ucast (m_value (fd_cfg d)))\<rparr>;
             d3 = (if qe_bit (fd_cfg d) = 1 then flash_set_qe d2 else d2) in
         flash_set_qwfr d3)
      else d)"

definition flash_get_id :: "flash_dev \<Rightarrow> flash_dev" where
  "flash_get_id d = d\<lparr>fd_id := fd_chip_id d\<rparr>"

definition flash_support_wide_voltage :: "flash_dev \<Rightarrow> bool" where
  "flash_support_wide_voltage d \<longleftrightarrow> fd_id d = 0xC86515"

definition flash_is_xtx_type :: "flash_dev \<Rightarrow> bool" where
  "flash_is_xtx_type d \<longleftrightarrow>
     fd_id d \<in> {0x0B4014, 0x0B4015, 0x0B4016, 0x0B4017, 0x0E4016} \<or>
     fd_id d \<in> {0x854215, 0x856015, 0x852015}"

definition flash_init :: "flash_dev \<Rightarrow> flash_dev" where
  "flash_init d =
     (let d1 = flash_get_current_flash_config (flash_get_id d);
          d2 = set_flash_protect d1 FLASH_UNPROTECT_LAST_BLOCK;
          d3 = flash_disable_cpu_data_wr d2;
          d4 = flash_enable_crc (flash_set_line_mode d3 (line_mode (fd_cfg d3))) in
      flash_set_clk d4 (if fd_page_write d then 9 else 5))"

subsection \<open>One-time programmable memory\<close>

text \<open>
  The loop of \<open>flash_read_opt_data\<close> has the shape of the one of \<open>flash_read_data\<close>; the address
  sent to the chip is the register number and the low ten bits of the aligned address.
\<close>

definition otp_puya :: "u32 \<Rightarrow> bool" where
  "otp_puya i \<longleftrightarrow> i = 0x854215 \<or> i = 0x852015 \<or> i = 0x856015"

definition flash_read_opt_data :: "flash_dev \<Rightarrow> u8 \<Rightarrow> u32 \<Rightarrow> u32 \<Rightarrow> int \<times> u8 list" where
  "flash_read_opt_data d grp addr len =
     (if len = 0 then (0, [])
      else if 1024 \<le> addr then (-1, [])
      else if otp_puya (fd_id d) \<and> (grp < 1 \<or> 3 < grp) then (-3, [])
      else if \<not> otp_puya (fd_id d) \<and> fd_id d = 0xC86515 \<and> 1 < grp then (-3, [])
      else if \<not> otp_puya (fd_id d) \<and> fd_id d \<noteq> 0xC86515 then (-4, [])
      else (let len' = (if 1024 < addr + len then 1024 - addr else len);
                bank = d\<lparr>fd_mem := (\<lambda>x. fd_otp d grp (x mod 1024))\<rparr> in
            (uint len', rd_loop bank (unat (addr AND NOT 0x1F)) (unat addr) (unat len'))))"

record flash_otp_t =
  otp_addr :: u32
  otp_len :: u32

text \<open>
  \<open>flash_read_otp\<close> walks the security registers; every round consumes a register number, so the
  fuel \<open>4\<close> (the largest register number plus one) is enough for its loop.
\<close>

fun otp_loop :: "nat \<Rightarrow> flash_dev \<Rightarrow> u8 \<Rightarrow> u8 \<Rightarrow> u32 \<Rightarrow> u32 \<Rightarrow> u8 list" where
  "otp_loop 0 d slot slot_max addr len = []"
| "otp_loop (Suc n) d slot slot_max addr len =
     (if len = 0 then []
      else (let read_addr = addr mod 1024; slot_len = 1024 - read_addr;
                read_size = (if slot_len < len then slot_len else len);
                (ret, bs) = flash_read_opt_data d slot read_addr read_size in
            if 0 < ret then
              bs @ (if slot_max < slot + 1 then []
                    else otp_loop n d (slot + 1) slot_max (addr + read_size) (len - read_size))
            else []))"

definition flash_read_otp :: "flash_dev \<Rightarrow> flash_otp_t \<Rightarrow> u8 list" where
  "flash_read_otp d param =
     (let slot = (ucast (otp_addr param div 1024) :: u8) in
      if otp_puya (fd_id d) then
        (if 2 < slot then [] else otp_loop 4 d (slot + 1) 3 (otp_addr param) (otp_len param))
      else if fd_id d = 0xC86515 then
        (if 1 < slot then [] else otp_loop 4 d slot 1 (otp_addr param) (otp_len param))
      else [])"

text \<open>A request of 2 GB or more would make the copy length negative: undefined in C.\<close>

definition flash_read_uid :: "flash_dev \<Rightarrow> u32 \<Rightarrow> (int \<times> u8 list) option" where
  "flash_read_uid d len =
     (let (ret, rx_buf) = fd_uid d in
      if 0 < ret then
        (let cp_len = (if ret < sint len then ret else sint len) in
         if cp_len < 0 then None else Some (cp_len, take (nat cp_len) rx_buf))
      else Some (ret, []))"

subsection \<open>A sample device\<close>

definition demo_dev :: "bool \<Rightarrow> flash_dev" where
  "demo_dev pw = \<lparr>fd_mem = (\<lambda>_. 0xFF), fd_sr = 0, fd_locked = (\<lambda>_ _. False),
     fd_chip_id = 0xEB6015, fd_id = 0xEB6015, fd_cfg = flash_config ! 15, fd_conf = 0,
     fd_crc_cnt = 0, fd_otp = (\<lambda>_ _. 0xFF), fd_uid = (0, []), fd_page_write = pw\<rparr>"

lemma demo_cfg: "flash_config ! 15 =
   mk_config 0xEB6015 2 0x200000 2 14 2 0x1F 0x1F 0x00 0x0D 0x101 9 1 0xA0 0x01"
  by (simp add: flash_config_def)

end
