(* ===== verification/FlashProtect.thy ===== *)
theory FlashProtect
  imports Flash
begin

text \<open>
  The protection field of the status register: what \<open>set_flash_protect\<close> writes is what
  \<open>get_flash_protect\<close> reads, worked out bit by bit for the layouts that occur in
  \<open>flash_config\<close>, with the one part of the table for which it is not.
\<close>

subsection \<open>Status register transfers\<close>

lemma masks:
  "(0x00FF :: u16) = mask 8" "(0xFF00 :: u16) = NOT (mask 8)" "(0x00FFFF :: u32) = mask 16"
  "(0xFF :: u16) = mask 8"
  by (simp_all add: mask_eq_decr_exp)

lemma wrsr_put [simp]: "wrsr_data (fd_conf (put_wrsr_data d v)) = v"
  unfolding wrsr_data_def put_wrsr_data_def masks
  by (rule bit_word_eqI) (auto simp: bit_simps)

lemma put_wrsr_select [simp]:
  "fd_sr (put_wrsr_data d v) = fd_sr d" "fd_mem (put_wrsr_data d v) = fd_mem d"
  "fd_cfg (put_wrsr_data d v) = fd_cfg d" "fd_locked (put_wrsr_data d v) = fd_locked d"
  by (simp_all add: put_wrsr_data_def)

definition sr_masked :: "u8 \<Rightarrow> u16 \<Rightarrow> u16" where
  "sr_masked w v = (if w = 2 then v else v AND 0x00FF)"

lemma flash_read_sr_eq: "flash_read_sr d w = sr_masked w (fd_sr d)"
  unfolding flash_read_sr_def sr_masked_def Let_def masks
  by (rule bit_word_eqI) (auto simp: bit_simps)

lemma flash_write_sr_read:
  "w = 1 \<or> w = 2 \<Longrightarrow> flash_read_sr (flash_write_sr d w v) w = sr_masked w v"
  unfolding flash_read_sr_eq sr_masked_def flash_write_sr_def Let_def
    chip_wrsr_def masks
  by (rule bit_word_eqI) (auto simp: bit_simps chip_wrsr2_def)

text \<open>The words of the table fit the protection field and the complement bit.\<close>

definition protect_fits :: "flash_config_t \<Rightarrow> bool" where
  "protect_fits c \<longleftrightarrow>
     (sr_size c = 1 \<and> cmp_post c = 0 \<or> sr_size c = 2 \<and> cmp_post c \<in> {0, 14}) \<and>
     protect_post c = 2 \<and> protect_mask c \<in> {0x0F, 0x1F} \<and>
     (\<forall>t \<in> {FLASH_PROTECT_NONE, FLASH_PROTECT_ALL, FLASH_PROTECT_HALF, FLASH_UNPROTECT_LAST_BLOCK}.
        protect_word c t AND NOT (if cmp_post c = 0 then ucast (protect_mask c) else 0x100 OR ucast (protect_mask c)) = 0)"

lemma table_protect_fits: "c \<in> set flash_config \<Longrightarrow> flash_id c \<noteq> 0x854215 \<Longrightarrow> protect_fits c"
  by (auto simp: flash_config_def mk_config_def protect_fits_def protect_word_def)


lemma protect_fits_bits:
  assumes "protect_fits c" and "t \<noteq> PROTECT_UNKNOWN"
  obtains k where "protect_mask c = mask k" "k = 4 \<or> k = 5" "k \<le> 5"
    "\<And>n. bit (protect_word c t) n \<Longrightarrow> n < k \<or> n = 8 \<and> cmp_post c = 14"
proof -
  let ?m = "(if cmp_post c = 0 then ucast (protect_mask c) else 0x100 OR ucast (protect_mask c)) :: u16"
  have z: "protect_word c t AND NOT ?m = 0"
    using assms by (cases t) (auto simp: protect_fits_def)
  have nb: "bit (protect_word c t) n \<Longrightarrow> bit ?m n" for n
    using arg_cong [OF z, of "\<lambda>x. bit x n"] bit_imp_le_length [of "protect_word c t" n]
    by (auto simp: bit_and_iff bit_not_iff)
  have m: "(0x0F :: u8) = mask 4" "(0x1F :: u8) = mask 5" "(0x100 :: u16) = push_bit 8 1"
    by (simp_all add: mask_eq_decr_exp)
  have c: "cmp_post c = 0 \<or> cmp_post c = 14" using assms by (auto simp: protect_fits_def)
  have lo: "bit (ucast (mask k :: u8) :: u16) n \<Longrightarrow> n < k" for k n by (simp add: bit_simps)
  have hi: "bit (push_bit 8 1 :: u16) n \<Longrightarrow> n = 8" for n by (simp only: bit_simps) simp
  have pm: "protect_mask c = mask 4 \<or> protect_mask c = mask 5"
    using assms(1) unfolding protect_fits_def m by blast
  have bits: "n < k \<or> n = 8 \<and> cmp_post c = 14" if "protect_mask c = mask k" "bit (protect_word c t) n" for k n
    using nb [OF that(2)] c lo [of k n] hi [of n] unfolding that(1) m(3)
    by (auto simp only: bit_or_iff split: if_splits)
  from pm show thesis
    using that [of 4] that [of 5] bits [of 4] bits [of 5] by auto
qed

definition get_field :: "nat \<Rightarrow> nat \<Rightarrow> u16 \<Rightarrow> u16" where
  "get_field c k sr =
     push_bit 8 (drop_bit c sr AND 1) OR (drop_bit 2 sr AND ucast (mask k :: u8))"

lemma bit_get_field:
  assumes "k \<le> 5" "n < 16"
  shows "bit (get_field c k sr) n \<longleftrightarrow> n = 8 \<and> bit sr c \<or> n < k \<and> bit sr (n + 2)"
proof -
  have "bit (push_bit 8 (drop_bit c sr AND 1)) n \<longleftrightarrow> n = 8 \<and> bit sr c"
    using assms(2) by (simp only: bit_simps) auto
  moreover have "bit (drop_bit 2 sr AND ucast (mask k :: u8)) n \<longleftrightarrow> n < k \<and> bit sr (n + 2)"
    using assms by (auto simp: bit_simps add.commute)
  ultimately show ?thesis by (simp add: get_field_def bit_or_iff)
qed

definition set_field :: "nat \<Rightarrow> nat \<Rightarrow> u16 \<Rightarrow> u16 \<Rightarrow> u32" where
  "set_field c k pw sr =
     ((ucast sr AND NOT (push_bit 2 (ucast (mask k :: u8)))) OR push_bit 2 (ucast (pw AND mask 8)))
       AND NOT (push_bit c 1) OR push_bit c (ucast (drop_bit 8 pw AND mask 8) AND 1)"

lemma bit_set_field:
  assumes "\<And>n. bit pw n \<Longrightarrow> n < k \<or> n = 8" "k \<le> 5" "m < 16" "c < 16"
  shows "bit (ucast (set_field c k pw sr) :: u16) m \<longleftrightarrow>
    (if m = c then bit pw 8 else if 2 \<le> m \<and> m < k + 2 then bit pw (m - 2) else bit sr m)"
proof -
  have a: "bit (push_bit c (ucast (drop_bit 8 pw AND mask 8) AND 1) :: u32) m \<longleftrightarrow> m = c \<and> bit pw 8"
    using assms(3,4) by (auto simp: bit_simps)
  have b: "bit (push_bit c 1 :: u32) m \<longleftrightarrow> m = c"
    using assms(3,4) by (auto simp: bit_simps)
  have d: "bit (push_bit 2 (ucast (pw AND mask 8)) :: u32) m \<longleftrightarrow> 2 \<le> m \<and> m < 10 \<and> bit pw (m - 2)"
    using assms(3) by (auto simp: bit_simps)
  have e: "bit (push_bit 2 (ucast (mask k :: u8)) :: u32) m \<longleftrightarrow> 2 \<le> m \<and> m < k + 2"
    using assms(2,3) by (auto simp: bit_simps)
  have f: "bit (ucast sr :: u32) m = bit sr m" using assms(3) by (simp add: bit_simps)
  have m: "m < 32" using assms(3) by simp
  have g: "2 \<le> m \<Longrightarrow> m < 10 \<Longrightarrow> bit pw (m - 2) \<Longrightarrow> m < k + 2"
    using assms(1) [of "m - 2"] by auto
  have "bit (ucast (set_field c k pw sr) :: u16) m = bit (set_field c k pw sr) m"
    using assms(3) by (simp add: bit_simps)
  also have "\<dots> \<longleftrightarrow> (bit sr m \<and> \<not> (2 \<le> m \<and> m < k + 2) \<or> 2 \<le> m \<and> m < 10 \<and> bit pw (m - 2)) \<and> m \<noteq> c
      \<or> m = c \<and> bit pw 8"
    using m by (simp only: set_field_def bit_or_iff bit_and_iff bit_not_iff a b d e f) auto
  finally show ?thesis using g assms(2) by auto
qed

lemma get_set_field:
  assumes "\<And>n. bit pw n \<Longrightarrow> n < k \<or> n = 8" "k \<le> 5" "c = 0 \<or> c = 14"
  shows "get_field c k (ucast (set_field c k pw sr)) = pw"
proof (rule bit_word_eqI)
  fix n assume n: "n < LENGTH(16)"
  have "bit (ucast (set_field c k pw sr) :: u16) c = bit pw 8"
    using assms by (subst bit_set_field) auto
  moreover have "n < k \<Longrightarrow> bit (ucast (set_field c k pw sr) :: u16) (n + 2) = bit pw n"
    using assms by (subst bit_set_field) auto
  ultimately show "bit (get_field c k (ucast (set_field c k pw sr))) n = bit pw n"
    using n assms(1) [of n] assms(2) by (subst bit_get_field) auto
qed

lemma get_field_low: "k \<le> 5 \<Longrightarrow> get_field 0 k (sr AND mask 8) = get_field 0 k sr"
  by (rule bit_word_eqI) (auto simp: bit_get_field bit_and_iff bit_mask_iff)

lemma get_field_same:
  assumes pw: "\<And>n. bit pw n \<Longrightarrow> n < k \<or> n = 8" "k \<le> 5" and c: "c = 0 \<or> c = 14"
    and p: "push_bit 2 (ucast (pw AND mask 8)) = (ucast sr :: u32) AND push_bit 2 (ucast (mask k :: u8))"
    and q: "push_bit c (ucast (drop_bit 8 pw AND mask 8)) = (ucast sr :: u32) AND push_bit c 1"
  shows "get_field c k sr = pw"
proof (rule bit_word_eqI)
  fix n assume n: "n < LENGTH(16)"
  have "bit (push_bit c (ucast (drop_bit 8 pw AND mask 8)) :: u32) c = bit pw 8"
    using c by (auto simp: bit_simps)
  moreover have "bit ((ucast sr :: u32) AND push_bit c 1) c = bit sr c"
    using c by (auto simp: bit_simps)
  ultimately have hi: "bit sr c = bit pw 8" using q by simp
  have "bit (push_bit 2 (ucast (pw AND mask 8)) :: u32) (n + 2) = bit pw n" if "n < k"
    using that pw(2) by (auto simp: bit_simps)
  moreover have "bit ((ucast sr :: u32) AND push_bit 2 (ucast (mask k :: u8))) (n + 2) = bit sr (n + 2)" if "n < k"
    using that pw(2) by (auto simp: bit_simps)
  ultimately have lo: "n < k \<Longrightarrow> bit sr (n + 2) = bit pw n" using p by simp
  show "bit (get_field c k sr) n = bit pw n"
    using n pw(1) [of n] pw(2) hi lo by (subst bit_get_field) auto
qed

definition protect_value :: "flash_config_t \<Rightarrow> u16 \<Rightarrow> u16" where
  "protect_value c sr =
     push_bit 8 (drop_bit (unat (cmp_post c)) sr AND 0x01)
       OR (drop_bit (unat (protect_post c)) sr AND ucast (protect_mask c))"

lemma get_flash_protect_value:
  assumes "protect_value (fd_cfg d) (flash_read_sr d (sr_size (fd_cfg d))) = protect_word (fd_cfg d) t"
    and "t \<noteq> PROTECT_UNKNOWN"
  shows "protect_word (fd_cfg d) (get_flash_protect d) = protect_word (fd_cfg d) t"
  using assms
  by (cases t) (auto simp: get_flash_protect_def Let_def protect_value_def protect_word_def)

lemma set_flash_protect_cfg [simp]:
  "fd_cfg (set_flash_protect d t) = fd_cfg d" "fd_mem (set_flash_protect d t) = fd_mem d"
  "fd_locked (set_flash_protect d t) = fd_locked d"
  by (simp_all add: set_flash_protect_def Let_def flash_write_sr_def chip_wrsr_def chip_wrsr2_def)

lemma set_flash_protect_sr:
  assumes post: "unat (protect_post c) = 2" and sz: "sr_size c = 1 \<or> sr_size c = 2"
    and cfg: "fd_cfg d = c" and "protect_mask c = mask k"
  shows "flash_read_sr (set_flash_protect d t) (sr_size c) =
    (let sr = flash_read_sr d (sr_size c); pw = protect_word c t; p = unat (cmp_post c) in
     if push_bit 2 (ucast (pw AND mask 8)) = (ucast sr :: u32) AND push_bit 2 (ucast (mask k :: u8)) \<and>
        push_bit p (ucast (drop_bit 8 pw AND mask 8)) = (ucast sr :: u32) AND push_bit p 1
     then sr else sr_masked (sr_size c) (ucast (set_field p k pw sr)))"
proof -
  have m8: "(0xff :: u16) = mask 8" by (simp add: mask_eq_decr_exp)
  show ?thesis
    unfolding set_flash_protect_def Let_def cfg m8 post assms(4) set_field_def
    by (simp only: flash_write_sr_read [OF sz] if_distrib [of "\<lambda>x. flash_read_sr x (sr_size c)"]
        de_Morgan_conj [symmetric] if_not_P if_P not_not split: if_split) auto
qed

lemma set_flash_protect_value:
  assumes fits: "protect_fits c" and t: "t \<noteq> PROTECT_UNKNOWN" and cfg: "fd_cfg d = c"
  shows "protect_value c (flash_read_sr (set_flash_protect d t) (sr_size c)) = protect_word c t"
proof -
  obtain k where k: "protect_mask c = mask k" "k \<le> 5"
    and pb: "\<And>n. bit (protect_word c t) n \<Longrightarrow> n < k \<or> n = 8 \<and> cmp_post c = 14"
    using protect_fits_bits [OF fits t] by blast
  then have pw: "\<And>n. bit (protect_word c t) n \<Longrightarrow> n < k \<or> n = 8" by blast
  let ?p = "unat (cmp_post c)"
  have post: "unat (protect_post c) = 2" and cc: "?p = 0 \<or> ?p = 14"
    and w: "sr_size c = 2 \<or> ?p = 0" and sz: "sr_size c = 1 \<or> sr_size c = 2"
    using fits by (auto simp: protect_fits_def)
  have val: "protect_value c sr = get_field ?p k sr" for sr
    by (simp only: protect_value_def get_field_def post k)
  have m: "get_field ?p k (sr_masked (sr_size c) x) = get_field ?p k x" for x
    using w get_field_low [OF k(2)] by (auto simp: sr_masked_def masks)
  show ?thesis
    unfolding set_flash_protect_sr [OF post sz cfg k(1)] val Let_def
    using get_field_same [OF pw k(2) cc] get_set_field [OF pw k(2) cc] m
    by (auto split: if_splits)
qed

text \<open>C20. Protection round trip: for every part of the table but 0x854215, setting a protection
  level and reading it back gives the same protection word, whatever the status register held,
  and the array is not touched.\<close>

theorem protect_roundtrip:
  assumes "fd_cfg d \<in> set flash_config" and "flash_id (fd_cfg d) \<noteq> 0x854215"
    and "t \<noteq> PROTECT_UNKNOWN"
  shows "protect_word (fd_cfg d) (get_flash_protect (set_flash_protect d t)) = protect_word (fd_cfg d) t
    \<and> fd_mem (set_flash_protect d t) = fd_mem d"
  using get_flash_protect_value [of "set_flash_protect d t" t] assms
    set_flash_protect_value [OF table_protect_fits [OF assms(1,2)] assms(3) refl] by simp

lemma get_field_cut:
  assumes "\<And>n. bit pw n \<Longrightarrow> n < k \<or> n = 8" "k \<le> 5"
  shows "get_field 14 k (ucast (set_field 14 k pw sr) AND mask 8) = pw AND mask k"
proof (rule bit_word_eqI)
  fix n assume n: "n < LENGTH(16)"
  have "n < k \<Longrightarrow> bit (ucast (set_field 14 k pw sr) AND mask 8 :: u16) (n + 2) = bit pw n"
    using assms by (simp only: bit_and_iff, subst bit_set_field) (auto simp: bit_mask_iff)
  then show "bit (get_field 14 k (ucast (set_field 14 k pw sr) AND mask 8)) n = bit (pw AND mask k) n"
    using n assms(2) by (subst bit_get_field) (auto simp: bit_and_iff bit_mask_iff)
qed

text \<open>C7. For the part 0x854215 the complement bit lies beyond the one status byte that the table
  says it has: after asking for \<open>FLASH_UNPROTECT_LAST_BLOCK\<close> (as \<open>flash_init\<close> does) the level
  always reads back as unknown, so what a later write ``restores'' is not what was set.\<close>

theorem protect_last_block_lost:
  assumes "fd_cfg d = flash_config ! 17"
  shows "get_flash_protect (set_flash_protect d FLASH_UNPROTECT_LAST_BLOCK) = PROTECT_UNKNOWN"
proof -
  let ?c = "mk_config 0x854215 1 0x200000 2 14 2 0x1F 0x1F 0x00 0x0C 0x101 9 1 0xA0 0x01"
  let ?pw = "0x101 :: u16" and ?d = "set_flash_protect d FLASH_UNPROTECT_LAST_BLOCK"
  have c: "fd_cfg d = ?c" using assms by (simp add: flash_config_def)
  have pwm: "?pw = 1 OR push_bit 8 1" by simp
  have pw: "bit ?pw n \<Longrightarrow> n < 5 \<or> n = 8" for n
    unfolding pwm by (simp only: bit_simps) auto
  have f: "unat (protect_post ?c) = 2" "sr_size ?c = 1 \<or> sr_size ?c = 2" "protect_mask ?c = mask 5"
    "unat (cmp_post ?c) = 14" "sr_size ?c = 1" "protect_word ?c FLASH_UNPROTECT_LAST_BLOCK = ?pw"
    by (simp_all add: mk_config_def protect_word_def mask_eq_decr_exp)
  define sr where "sr = flash_read_sr d 1"
  have lo: "\<not> bit sr 14"
    unfolding sr_def flash_read_sr_eq sr_masked_def masks by (simp add: bit_and_iff bit_mask_iff)
  have "bit (push_bit 14 (ucast (drop_bit 8 ?pw AND mask 8)) :: u32) 14"
    unfolding pwm by (simp only: bit_simps) simp
  moreover have "\<not> bit ((ucast sr :: u32) AND push_bit 14 1) 14"
    using lo by (auto simp: bit_simps)
  ultimately have ne: "push_bit 14 (ucast (drop_bit 8 ?pw AND mask 8)) \<noteq> (ucast sr :: u32) AND push_bit 14 1"
    by metis
  have "flash_read_sr ?d 1 = ucast (set_field 14 5 ?pw sr) AND mask 8"
    using set_flash_protect_sr [OF f(1,2) c f(3), of FLASH_UNPROTECT_LAST_BLOCK] ne
    by (simp only: f(4-6) Let_def sr_def [symmetric] f(5) sr_masked_def masks) simp
  moreover have "protect_value ?c x = get_field 14 5 x" for x
    by (simp only: protect_value_def get_field_def f(1,3,4))
  moreover have "get_field 14 5 (ucast (set_field 14 5 ?pw sr) AND mask 8) = ?pw AND mask 5"
    by (rule get_field_cut [OF pw]) simp_all
  ultimately have "protect_value ?c (flash_read_sr ?d 1) = ?pw AND mask 5" by simp
  also have "?pw AND mask 5 = 1" by (simp add: mask_eq_decr_exp)
  finally show ?thesis
    by (simp add: get_flash_protect_def c protect_value_def Let_def) (simp add: mk_config_def)
qed

theorem protect_roundtrip_witness:
  "protect_word (flash_config ! 15)
     (get_flash_protect (set_flash_protect (demo_dev True) FLASH_UNPROTECT_LAST_BLOCK)) = 0x101"
  using protect_roundtrip [of "demo_dev True" FLASH_UNPROTECT_LAST_BLOCK]
  by (auto simp: demo_dev_def demo_cfg mk_config_def protect_word_def flash_config_def)

theorem protect_last_block_lost_witness:
  "get_flash_protect (set_flash_protect ((demo_dev True)\<lparr>fd_cfg := flash_config ! 17\<rparr>)
     FLASH_UNPROTECT_LAST_BLOCK) = PROTECT_UNKNOWN"
  by (rule protect_last_block_lost) simp

end
