(* ===== verification/FlashOps.thy ===== *)
theory FlashOps
  imports FlashProtect
begin

text \<open>
  The entry points of the flash driver: \<open>flash_read\<close>, \<open>flash_write\<close> with its page write path,
  \<open>flash_ctrl\<close>, and what they guarantee.  \<open>flash_view\<close> forgets the two controller registers, so
  that an equation between views is an equation between chips.
\<close>

subsection \<open>Page programming\<close>

fun pw_loop :: "flash_dev \<Rightarrow> u8 list \<Rightarrow> nat \<Rightarrow> nat \<Rightarrow> flash_dev option" where
  "pw_loop d buffer addr 0 = Some d"
| "pw_loop d buffer addr (Suc n) =
     (if length buffer < 256 then None
      else pw_loop (chip_pp d addr (take 256 buffer)) (drop 256 buffer) (addr + 256) n)"

definition page_write_en :: u32 where "page_write_en = push_bit 30 1"

definition flash_page_write_data :: "flash_dev \<Rightarrow> u8 list \<Rightarrow> u32 \<Rightarrow> u32 \<Rightarrow> flash_dev option" where
  "flash_page_write_data d buffer addr len =
     (let fs = flash_size (fd_cfg d) in
      if fs \<le> addr \<or> fs < len \<or> fs < addr + len then Some d
      else do {
        (d1, buffer1, addr1, len1) \<leftarrow>
          (if addr mod 256 \<noteq> 0
           then (let cnt = 256 - addr mod 256 in
                 map_option (\<lambda>d'. (d', drop (unat cnt) buffer, addr + cnt, len - cnt))
                   (flash_write_data d buffer addr cnt))
           else Some (d, buffer, addr, len));
        let cnt = len1 div 256;
        let md = len1 mod 256;
        d3 \<leftarrow>
          (if cnt \<noteq> 0
           then do {
             let d2 = d1\<lparr>fd_crc_cnt := fd_crc_cnt d1 OR page_write_en\<rparr>;
             d' \<leftarrow> pw_loop d2 buffer1 (unat addr1) (unat cnt);
             Some (d'\<lparr>fd_crc_cnt := fd_crc_cnt d' AND NOT page_write_en\<rparr>) }
           else Some d1);
        (if md \<noteq> 0
         then flash_write_data d3 (drop (256 * unat cnt) buffer1) (addr1 + 256 * cnt) md
         else Some d3) })"

definition flash_write :: "flash_dev \<Rightarrow> u8 list \<Rightarrow> u32 \<Rightarrow> u32 \<Rightarrow> flash_dev option" where
  "flash_write d user_buf cnt addr =
     (let four = (line_mode (fd_cfg d) = 4);
          d1 = (if four then flash_set_line_mode d 2 else d) in
      do {
        d2 \<leftarrow> (if fd_page_write d \<and> 256 < cnt then flash_page_write_data d1 user_buf addr cnt
              else flash_write_data d1 user_buf addr cnt);
        Some (if four then flash_set_line_mode d2 4 else d2) })"

definition flash_read :: "flash_dev \<Rightarrow> u32 \<Rightarrow> u32 \<Rightarrow> u8 list" where
  "flash_read d cnt addr = flash_read_data d addr cnt"

subsection \<open>Control commands\<close>

datatype flash_cmd =
    CMD_FLASH_SET_CLK u8
  | CMD_FLASH_SET_DCO bool  \<comment> \<open>\<open>get_ate_mode_state\<close>\<close>
  | CMD_FLASH_SET_DPLL
  | CMD_FLASH_WRITE_ENABLE
  | CMD_FLASH_WRITE_DISABLE
  | CMD_FLASH_READ_SR
  | CMD_FLASH_WRITE_SR u32
  | CMD_FLASH_READ_QE
  | CMD_FLASH_SET_QE
  | CMD_FLASH_READ_OTP flash_otp_t
  | CMD_FLASH_SET_QWFR
  | CMD_FLASH_CLR_QWFR
  | CMD_FLASH_SET_WSR u16
  | CMD_FLASH_GET_ID
  | CMD_FLASH_GET_SIZE
  | CMD_FLASH_READ_MID
  | CMD_FLASH_ERASE_SECTOR u32
  | CMD_FLASH_SET_HPM
  | CMD_FLASH_GET_PROTECT
  | CMD_FLASH_SET_PROTECT PROTECT_TYPE
  | CMD_FLASH_GET_UID u32
  | CMD_FLASH_OTHER

datatype flash_out = OutNone | OutWord u32 | OutProtect PROTECT_TYPE | OutBytes "u8 list"

definition FLASH_SUCCESS :: u32 where "FLASH_SUCCESS = 0"
definition FLASH_FAILURE :: u32 where "FLASH_FAILURE = 1"

definition set_clk_field :: "flash_dev \<Rightarrow> u32 \<Rightarrow> flash_dev" where
  "set_clk_field d v = d\<lparr>fd_conf := (fd_conf d AND NOT 0x0F) OR v\<rparr>"

text \<open>
  One branch of the switch: the new state, the return value and what is stored through
  \<open>parm\<close>.  The write-enable, write-disable and high-performance commands only start an
  operation of the controller.
\<close>

fun flash_ctrl_cmd :: "flash_dev \<Rightarrow> flash_cmd \<Rightarrow> (flash_dev \<times> u32 \<times> flash_out) option" where
  "flash_ctrl_cmd d (CMD_FLASH_SET_CLK clk) = Some (flash_set_clk d clk, FLASH_SUCCESS, OutNone)"
| "flash_ctrl_cmd d CMD_FLASH_SET_DPLL = Some (set_clk_field d 5, FLASH_SUCCESS, OutNone)"
| "flash_ctrl_cmd d (CMD_FLASH_SET_DCO ate) =
     Some (set_clk_field d (if ate \<and> \<not> fd_page_write d then 0xB else 9), FLASH_SUCCESS, OutNone)"
| "flash_ctrl_cmd d CMD_FLASH_WRITE_ENABLE = Some (d, FLASH_SUCCESS, OutNone)"
| "flash_ctrl_cmd d CMD_FLASH_WRITE_DISABLE = Some (d, FLASH_SUCCESS, OutNone)"
| "flash_ctrl_cmd d CMD_FLASH_READ_SR = Some (d, FLASH_SUCCESS, OutWord (ucast (flash_read_sr d 2)))"
| "flash_ctrl_cmd d (CMD_FLASH_WRITE_SR p) =
     Some (flash_write_sr d (ucast (p AND 0x00FF)) (ucast (drop_bit 8 p AND 0x00FFFF)),
           FLASH_SUCCESS, OutNone)"
| "flash_ctrl_cmd d CMD_FLASH_READ_QE = Some (d, FLASH_SUCCESS, OutWord (ucast (flash_read_qe d)))"
| "flash_ctrl_cmd d CMD_FLASH_SET_QE =
     Some (if qe_bit (fd_cfg d) \<noteq> 0 then flash_set_qe d else d, FLASH_SUCCESS, OutNone)"
| "flash_ctrl_cmd d CMD_FLASH_SET_QWFR = Some (flash_set_qwfr d, FLASH_SUCCESS, OutNone)"
| "flash_ctrl_cmd d CMD_FLASH_CLR_QWFR = Some (flash_clr_qwfr d, FLASH_SUCCESS, OutNone)"
| "flash_ctrl_cmd d (CMD_FLASH_SET_WSR w) = Some (flash_set_wsr d w, FLASH_SUCCESS, OutNone)"
| "flash_ctrl_cmd d CMD_FLASH_GET_ID =
     (let d1 = flash_get_id d in Some (d1, FLASH_SUCCESS, OutWord (fd_id d1)))"
| "flash_ctrl_cmd d CMD_FLASH_GET_SIZE = Some (d, FLASH_SUCCESS, OutWord (flash_size (fd_cfg d)))"
| "flash_ctrl_cmd d CMD_FLASH_READ_MID = Some (d, FLASH_SUCCESS, OutWord (fd_chip_id d))"
| "flash_ctrl_cmd d CMD_FLASH_GET_PROTECT = Some (d, FLASH_SUCCESS, OutProtect (get_flash_protect d))"
| "flash_ctrl_cmd d (CMD_FLASH_ERASE_SECTOR addr) =
     Some (flash_erase_sector d addr, FLASH_SUCCESS, OutNone)"
| "flash_ctrl_cmd d CMD_FLASH_SET_HPM = Some (d, FLASH_SUCCESS, OutNone)"
| "flash_ctrl_cmd d (CMD_FLASH_SET_PROTECT type) =
     Some (set_flash_protect d type, FLASH_SUCCESS, OutNone)"
| "flash_ctrl_cmd d (CMD_FLASH_READ_OTP otp) =
     (if fd_page_write d
      then (let bs = flash_read_otp d otp in Some (d, of_nat (length bs), OutBytes bs))
      else Some (d, FLASH_FAILURE, OutNone))"
| "flash_ctrl_cmd d (CMD_FLASH_GET_UID len) =
     (if fd_page_write d
      then map_option (\<lambda>(ret, bs). (d, word_of_int ret, OutBytes bs)) (flash_read_uid d len)
      else Some (d, FLASH_FAILURE, OutNone))"
| "flash_ctrl_cmd d CMD_FLASH_OTHER = Some (d, FLASH_FAILURE, OutNone)"

definition flash_ctrl :: "flash_dev \<Rightarrow> flash_cmd \<Rightarrow> (flash_dev \<times> u32 \<times> flash_out) option" where
  "flash_ctrl d cmd =
     (let d1 = (if line_mode (fd_cfg d) = 4 then flash_set_line_mode d 2 else d) in
      map_option (\<lambda>(d2, ret, out).
          (if line_mode (fd_cfg d2) = 4 then flash_set_line_mode d2 4 else d2, ret, out))
        (flash_ctrl_cmd d1 cmd))"

subsection \<open>The chip behind the registers\<close>

definition flash_view :: "flash_dev \<Rightarrow> flash_dev" where
  "flash_view d = d\<lparr>fd_conf := 0, fd_crc_cnt := 0\<rparr>"

named_theorems view_simps

lemma flash_view_select [simp]:
  "fd_mem (flash_view d) = fd_mem d" "fd_sr (flash_view d) = fd_sr d"
  "fd_cfg (flash_view d) = fd_cfg d" "fd_locked (flash_view d) = fd_locked d"
  "fd_page_write (flash_view d) = fd_page_write d" "fd_id (flash_view d) = fd_id d"
  by (simp_all add: flash_view_def)

lemma flash_view_update [simp]:
  "flash_view (d\<lparr>fd_conf := x\<rparr>) = flash_view d"
  "flash_view (d\<lparr>fd_crc_cnt := y\<rparr>) = flash_view d"
  "flash_view (flash_view d) = flash_view d"
  by (simp_all add: flash_view_def)

lemma flash_view_keep: "flash_view (chip_keep d m) = chip_keep (flash_view d) m"
  by (simp add: flash_view_def chip_keep_def cong: if_cong)

lemma flash_view_pp [view_simps]: "flash_view (chip_pp d a bs) = chip_pp (flash_view d) a bs"
  by (simp add: chip_pp_def flash_view_keep)

lemma flash_view_se [view_simps]: "flash_view (chip_se d a) = chip_se (flash_view d) a"
  by (simp add: chip_se_def flash_view_keep)

lemma chip_pp_select [simp]:
  "fd_sr (chip_pp d a bs) = fd_sr d" "fd_cfg (chip_pp d a bs) = fd_cfg d"
  "fd_locked (chip_pp d a bs) = fd_locked d" "fd_page_write (chip_pp d a bs) = fd_page_write d"
  by (simp_all add: chip_pp_def chip_keep_def)

lemma chip_se_select [simp]:
  "fd_sr (chip_se d a) = fd_sr d" "fd_cfg (chip_se d a) = fd_cfg d"
  "fd_locked (chip_se d a) = fd_locked d"
  by (simp_all add: chip_se_def chip_keep_def)

definition table_config :: "flash_dev \<Rightarrow> bool" where
  "table_config d \<longleftrightarrow> fd_cfg d \<in> set flash_config"

lemma flash_config_facts:
  "c \<in> set flash_config \<Longrightarrow>
     line_mode c = 2 \<and> flash_size c \<in> {0x100000, 0x200000, 0x400000, 0x800000}"
  by (auto simp: flash_config_def mk_config_def)

lemma table_config_line [simp]: "table_config d \<Longrightarrow> line_mode (fd_cfg d) = 2"
  using flash_config_facts by (simp add: table_config_def)

lemma table_config_size: "table_config d \<Longrightarrow> unat (flash_size (fd_cfg d)) \<le> 0x800000"
  using flash_config_facts [of "fd_cfg d"] by (auto simp: table_config_def)

subsection \<open>Writing is programming\<close>

lemma flash_write_data_ok:
  assumes len: "unat len \<le> length buffer"
    and fit: "unat addr + unat len \<le> unat (flash_size (fd_cfg d))"
  shows "flash_write_data d buffer addr len = Some (chip_pp d (unat addr) (take (unat len) buffer))"
proof (cases "len = 0")
  case True
  then show ?thesis by (simp add: flash_write_data_def Let_def wr_loop.simps)
next
  case False
  let ?a = "addr AND - 32"
  have a: "unat ?a = unat addr - unat addr mod 32" by simp
  have "unat ?a + unat len \<le> unat addr + unat len" by simp
  then have b: "unat ?a + unat len \<le> unat (flash_size (fd_cfg d))" using fit by linarith
  have sum: "unat (?a + len) = unat ?a + unat len"
    using b unat_lt_2p32 [of "flash_size (fd_cfg d)"] by (intro unat_add_no_wrap) simp
  have lpos: "0 < unat len" using False by (simp add: unat_gt_0)
  have guard: "\<not> (flash_size (fd_cfg d) \<le> ?a \<or> flash_size (fd_cfg d) < len \<or>
      flash_size (fd_cfg d) < ?a + len)"
    using b lpos sum by (simp only: word_le_nat_alt word_less_nat_alt) linarith
  have m: "neutral d (unat ?a) (if addr mod 32 \<noteq> 0 then flash_read_data d ?a 32 else replicate 32 255)"
    using neutral_read [of d "unat ?a"] by (auto simp: flash_read_data_eq chip_read32_def)
  show ?thesis
    using guard len wr_loop_eq [OF a m len]
    by (auto simp: flash_write_data_def Let_def)
qed

lemma pw_loop_ok:
  "256 * n \<le> length buffer \<Longrightarrow> pw_loop d buffer addr n = Some (chip_pp d addr (take (256 * n) buffer))"
proof (induction n arbitrary: d buffer addr)
  case (Suc n)
  have "pw_loop d buffer addr (Suc n) =
      Some (chip_pp (chip_pp d addr (take 256 buffer)) (addr + 256) (take (256 * n) (drop 256 buffer)))"
    using Suc.prems by (simp add: Suc.IH)
  moreover have "take 256 buffer @ take (256 * n) (drop 256 buffer) = take (256 * Suc n) buffer"
    using take_add [of 256 "256 * n" buffer] by simp
  ultimately show ?case
    using chip_pp_append [of d addr "take 256 buffer"] Suc.prems by (simp add: min_absorb1)
qed simp

lemma chip_pp_take:
  assumes "k + n \<le> length buffer"
  shows "chip_pp (chip_pp d a (take k buffer)) (a + k) (take n (drop k buffer)) =
    chip_pp d a (take (k + n) buffer)"
proof -
  have "length (take k buffer) = k" using assms by simp
  then show ?thesis by (metis chip_pp_append take_add)
qed

lemma chip_pp_crc:
  "chip_pp (d\<lparr>fd_crc_cnt := x\<rparr>) a bs = (chip_pp d a bs)\<lparr>fd_crc_cnt := x\<rparr>"
  by (simp add: chip_pp_def chip_keep_def cong: if_cong)

lemma page_prefix:
  assumes len: "unat len \<le> length buffer" and big: "256 < unat len"
    and fit: "unat addr + unat len \<le> unat (flash_size (fd_cfg d))"
  defines "k \<equiv> (if addr mod 256 \<noteq> 0 then 256 - unat addr mod 256 else 0)"
  shows "(if addr mod 256 \<noteq> 0
       then (let cnt = 256 - addr mod 256 in
             map_option (\<lambda>d'. (d', drop (unat cnt) buffer, addr + cnt, len - cnt))
               (flash_write_data d buffer addr cnt))
       else Some (d, buffer, addr, len))
     = Some (chip_pp d (unat addr) (take k buffer), drop k buffer, addr + of_nat k, len - of_nat k)"
proof (cases "addr mod 256 = 0")
  case True
  then show ?thesis by (simp add: k_def)
next
  case False
  let ?cnt = "256 - addr mod 256"
  have m256: "unat (addr mod 256) = unat addr mod 256" by (simp add: unat_mod)
  have cnt: "unat ?cnt = 256 - unat addr mod 256"
    by (subst unat_sub_no_wrap) (simp_all add: m256 word_le_nat_alt less_imp_le)
  then have kcnt: "unat ?cnt = k" using False by (simp add: k_def)
  then have w: "(of_nat k :: u32) = ?cnt" by (simp only: kcnt [symmetric] of_nat_unat ucast_id)
  have "flash_write_data d buffer addr ?cnt = Some (chip_pp d (unat addr) (take (unat ?cnt) buffer))"
    using len big fit cnt by (intro flash_write_data_ok) linarith+
  then show ?thesis using False by (simp add: kcnt w Let_def)
qed

lemma flash_page_write_data_ok:
  assumes len: "unat len \<le> length buffer" and big: "256 < len"
    and fit: "unat addr + unat len \<le> unat (flash_size (fd_cfg d))"
  shows "\<exists>d'. flash_page_write_data d buffer addr len = Some d' \<and>
    flash_view d' = flash_view (chip_pp d (unat addr) (take (unat len) buffer))"
proof -
  let ?fs = "flash_size (fd_cfg d)"
  have fs32: "unat ?fs < 4294967296" by (rule unat_lt_2p32)
  have big': "256 < unat len" using big by (simp add: word_less_nat_alt)
  have sum: "unat (addr + len) = unat addr + unat len"
    using fit fs32 by (intro unat_add_no_wrap) simp
  have guard: "\<not> (?fs \<le> addr \<or> ?fs < len \<or> ?fs < addr + len)"
    using fit big' by (simp only: word_le_nat_alt word_less_nat_alt sum) linarith
  define k where "k = (if addr mod 256 \<noteq> 0 then 256 - unat addr mod 256 else 0)"
  have k: "k \<le> 256" by (simp add: k_def)
  have kw: "unat (of_nat k :: u32) = k" using k by (simp add: unat_of_nat)
  define addr1 len1 d1 where "addr1 = addr + of_nat k" and "len1 = len - of_nat k"
    and "d1 = chip_pp d (unat addr) (take k buffer)"
  have a1: "unat addr1 = unat addr + k"
    unfolding addr1_def by (subst unat_add_no_wrap) (use kw fit fs32 big' k in simp_all)
  have l1: "unat len1 = unat len - k"
    unfolding len1_def by (subst unat_sub_no_wrap) (use kw big' k in \<open>simp_all add: word_le_nat_alt\<close>)
  have pre: "(if addr mod 256 \<noteq> 0
       then (let cnt = 256 - addr mod 256 in
             map_option (\<lambda>d'. (d', drop (unat cnt) buffer, addr + cnt, len - cnt))
               (flash_write_data d buffer addr cnt))
       else Some (d, buffer, addr, len)) = Some (d1, drop k buffer, addr1, len1)"
    by (rule page_prefix [OF len big' fit, folded k_def addr1_def len1_def d1_def])
  define cnt md where "cnt = unat (len1 div 256)" and "md = unat (len1 mod 256)"
  have split: "k + 256 * cnt + md = unat len" and md: "md < 256"
    using l1 big' k by (simp_all add: cnt_def md_def unat_div unat_mod)
  have a2: "unat (addr1 + 256 * (len1 div 256)) = unat addr1 + 256 * cnt"
  proof -
    have "unat (256 * (len1 div 256)) = 256 * cnt"
      using split unat_lt_2p32 [of len] by (simp add: cnt_def unat_word_ariths)
    then show ?thesis
      using a1 split fit fs32 by (subst unat_add_no_wrap) simp_all
  qed
  let ?d3 = "chip_pp d (unat addr) (take (k + 256 * cnt) buffer)"
  have join: "chip_pp d1 (unat addr1) (take (256 * cnt) (drop k buffer)) = ?d3"
    unfolding d1_def a1 using split len by (intro chip_pp_take) simp
  obtain d3 where d3: "(if len1 div 256 \<noteq> 0
      then do {
        let d2 = d1\<lparr>fd_crc_cnt := fd_crc_cnt d1 OR page_write_en\<rparr>;
        d' \<leftarrow> pw_loop d2 (drop k buffer) (unat addr1) cnt;
        Some (d'\<lparr>fd_crc_cnt := fd_crc_cnt d' AND NOT page_write_en\<rparr>) }
      else Some d1) = Some d3" and v3: "flash_view d3 = flash_view ?d3"
  proof (cases "len1 div 256 = 0")
    case True
    then have "cnt = 0" by (simp add: cnt_def)
    with True that [of d1] show ?thesis by (simp add: d1_def)
  next
    case False
    have "256 * cnt \<le> length (drop k buffer)" using split len by simp
    then have "pw_loop (d1\<lparr>fd_crc_cnt := x\<rparr>) (drop k buffer) (unat addr1) cnt
        = Some (?d3\<lparr>fd_crc_cnt := x\<rparr>)" for x
      by (simp add: pw_loop_ok chip_pp_crc join)
    with False that [of "?d3\<lparr>fd_crc_cnt := (fd_crc_cnt d1 OR page_write_en) AND NOT page_write_en\<rparr>"]
    show ?thesis by (simp add: Let_def)
  qed
  have c3: "fd_cfg d3 = fd_cfg d"
    using arg_cong [OF v3, of fd_cfg] by simp
  have red: "flash_page_write_data d buffer addr len =
      (if len1 mod 256 \<noteq> 0
       then flash_write_data d3 (drop (256 * cnt) (drop k buffer)) (addr1 + 256 * (len1 div 256)) (len1 mod 256)
       else Some d3)"
    by (simp only: flash_page_write_data_def Let_def guard if_False pre [unfolded Let_def]
        Option.bind.simps prod.case cnt_def [symmetric] d3 [unfolded Let_def])
  show ?thesis
  proof (cases "len1 mod 256 = 0")
    case True
    then have "k + 256 * cnt = unat len" using split by (simp add: md_def)
    then show ?thesis using v3 True red by simp
  next
    case False
    have "flash_write_data d3 (drop (256 * cnt) (drop k buffer)) (addr1 + 256 * (len1 div 256)) (len1 mod 256)
      = Some (chip_pp d3 (unat (addr1 + 256 * (len1 div 256))) (take md (drop (256 * cnt) (drop k buffer))))"
      unfolding md_def
      by (rule flash_write_data_ok) (use split len fit a1 a2 c3 in \<open>simp_all add: md_def [symmetric]\<close>)
    moreover have "chip_pp (chip_pp (flash_view d) (unat addr) (take (k + 256 * cnt) buffer))
          (k + (unat addr + 256 * cnt)) (take md (drop (k + 256 * cnt) buffer))
        = chip_pp (flash_view d) (unat addr) (take (unat len) buffer)"
      using chip_pp_take [of "k + 256 * cnt" md buffer "flash_view d" "unat addr"] split len
      by (simp add: ac_simps)
    ultimately show ?thesis
      using False red v3 by (simp add: a1 a2 flash_view_pp add.assoc add.commute)
  qed
qed


lemma flash_write_ok:
  assumes cfg: "table_config d" and len: "unat cnt \<le> length user_buf"
    and fit: "unat addr + unat cnt \<le> unat (flash_size (fd_cfg d))"
  shows "\<exists>d'. flash_write d user_buf cnt addr = Some d' \<and>
    flash_view d' = flash_view (chip_pp d (unat addr) (take (unat cnt) user_buf))"
  using flash_page_write_data_ok [OF len _ fit] flash_write_data_ok [OF len fit] cfg
  by (auto simp: flash_write_def Let_def not_less)

text \<open>C7. Writing is programming, on every chip of the family: for a request inside the part,
  \<open>flash_write\<close> reads only the caller's \<open>cnt\<close> bytes, and the array afterwards is the old one
  with exactly these bytes programmed (ANDed) at \<open>addr\<close>, cells the status register protects
  excepted; the status register and the selected configuration are untouched.  The 32 byte
  read-modify-write path and the 256 byte page path give the same array.\<close>

theorem flash_write_programs:
  assumes "table_config d" and "unat cnt \<le> length user_buf"
    and "unat addr + unat cnt \<le> unat (flash_size (fd_cfg d))"
  shows "\<exists>d'. flash_write d user_buf cnt addr = Some d' \<and>
    (\<forall>x. fd_mem d' x =
       (if \<not> fd_locked d (fd_sr d) x \<and> unat addr \<le> x \<and> x < unat addr + unat cnt
        then fd_mem d x AND user_buf ! (x - unat addr) else fd_mem d x)) \<and>
    fd_sr d' = fd_sr d \<and> fd_cfg d' = fd_cfg d"
proof -
  obtain d' where w: "flash_write d user_buf cnt addr = Some d'"
    and v: "flash_view d' = flash_view (chip_pp d (unat addr) (take (unat cnt) user_buf))"
    using flash_write_ok [OF assms] by blast
  show ?thesis
    using arg_cong [OF v, of fd_mem] arg_cong [OF v, of fd_sr] arg_cong [OF v, of fd_cfg] assms(2)
    by (intro exI [of _ d'] conjI w allI)
      (auto simp: chip_pp_def chip_keep_def nor_write_def)
qed

lemma demo_dev_facts [simp]:
  "table_config (demo_dev pw)" "flash_size (fd_cfg (demo_dev pw)) = 0x200000"
  "fd_mem (demo_dev pw) x = 0xFF" "fd_sr (demo_dev pw) = 0" "\<not> fd_locked (demo_dev pw) s x"
  by (simp_all add: demo_dev_def table_config_def demo_cfg mk_config_def nth_mem
      del: in_set_conv_nth) (simp_all add: flash_config_def mk_config_def)

theorem flash_write_programs_witness:
  "\<exists>d'. flash_write (demo_dev True) (replicate 300 7) 300 0x1E1010 = Some d' \<and>
     fd_mem d' 0x1E1010 = 7 \<and> fd_mem d' 0x1E100F = 0xFF"
  using flash_write_programs [where d = "demo_dev True" and cnt = 300 and user_buf = "replicate 300 7" and addr = "0x1E1010"] by auto


text \<open>C16. The bounds check, exactly: \<open>flash_write_data\<close> tests the address rounded down to 32, so
  it accepts a request iff the rounded address is inside the part and the length fits from
  there.  An accepted request programs all its bytes (or reads past the caller's buffer when
  that is shorter than \<open>len\<close>), a refused one leaves the device as it was.\<close>

theorem flash_write_data_exact:
  assumes "table_config d"
  shows "flash_write_data d buffer addr len =
    (let a = unat addr - unat addr mod 32; fs = unat (flash_size (fd_cfg d)) in
     if a < fs \<and> a + unat len \<le> fs
     then (if unat len \<le> length buffer
           then Some (chip_pp d (unat addr) (take (unat len) buffer)) else None)
     else Some d)"
proof -
  let ?a = "addr AND - 32" and ?fs = "flash_size (fd_cfg d)"
  have a: "unat ?a = unat addr - unat addr mod 32" by simp
  have fs: "unat ?fs \<le> 0x800000" using assms by (rule table_config_size)
  have guard: "(?fs \<le> ?a \<or> ?fs < len \<or> ?fs < ?a + len) \<longleftrightarrow>
      \<not> (unat addr - unat addr mod 32 < unat ?fs \<and>
         unat addr - unat addr mod 32 + unat len \<le> unat ?fs)"
  proof (cases "?fs \<le> ?a \<or> ?fs < len")
    case True
    then show ?thesis by (auto simp: word_le_nat_alt word_less_nat_alt)
  next
    case False
    then have "unat ?a < unat ?fs" "unat len \<le> unat ?fs"
      by (simp_all only: word_le_nat_alt word_less_nat_alt de_Morgan_disj not_le not_less)
    then have "unat ?a + unat len < 4294967296" using fs by linarith
    then have "unat (?a + len) = unat ?a + unat len" by (rule unat_add_32)
    then show ?thesis using False
      by (simp only: word_le_nat_alt word_less_nat_alt a de_Morgan_conj not_le not_less) blast
  qed
  have nf: "NOT (0x1F :: u32) = - 32" by simp
  have m: "neutral d (unat ?a) (if addr mod 32 \<noteq> 0 then flash_read_data d ?a 32 else replicate 32 255)"
    using neutral_read [of d "unat ?a"] by (auto simp: flash_read_data_eq chip_read32_def)
  have loop: "unat len \<le> length buffer \<Longrightarrow>
      wr_loop d (if addr mod 32 \<noteq> 0 then flash_read_data d ?a 32 else replicate 32 255)
        buffer (unat ?a) (unat addr) (unat len) = chip_pp d (unat addr) (take (unat len) buffer)"
    using wr_loop_eq [OF a m] .
  show ?thesis
    unfolding flash_write_data_def Let_def
    by (simp only: nf guard) (auto simp: loop [simplified] not_le)
qed

theorem flash_write_data_exact_witness:
  "flash_write_data (demo_dev True) (replicate 32 0) 0x1FFFFF 32 =
     Some (chip_pp (demo_dev True) 0x1FFFFF (replicate 32 0))"
  using flash_write_data_exact [of "demo_dev True" "replicate 32 0" "0x1FFFFF" 32] by simp

end
