(* ===== verification/FlashPart.thy ===== *)
theory FlashPart
  imports FlashOps
begin

text \<open>
  The partition layer (\<open>func/user_driver/BkDriverFlash.c\<close>): the four partition tables, the
  operations on absolute addresses that lift the protection around a write or an erase, and the
  operations on partitions.  The locale \<open>nor_store\<close> is the contract that the users of these
  operations rely on; it is interpreted on the model at the end.  The buffer of \<open>bk_flash_read\<close>
  is its result: the call with a null buffer, which the code refuses, is not among those modelled.
\<close>

subsection \<open>Partition tables\<close>

text \<open>\<open>BK_PARTITION_BAD\<close> stands for the numbers that \<open>BkFlashPartitionIsValid\<close> refuses.\<close>

datatype bk_partition_t =
    BK_PARTITION_BOOTLOADER | BK_PARTITION_APPLICATION | BK_PARTITION_OTA
  | BK_PARTITION_RF_FIRMWARE | BK_PARTITION_NET_PARAM | BK_PARTITION_USR_CONFIG
  | BK_PARTITION_MATTER_FLASH | BK_PARTITION_MATTER_FACTORY_FLASH
  | BK_PARTITION_BLE_SVR_CONFIG | BK_PARTITION_BLE_BONDING_FLASH | BK_PARTITION_BAD

text \<open>The partitions in the order of the C enumeration, so that statements over all of them compute.\<close>

instantiation bk_partition_t :: enum
begin

definition enum_bk_partition_t :: "bk_partition_t list" where
  "enum_bk_partition_t = [BK_PARTITION_BOOTLOADER, BK_PARTITION_APPLICATION, BK_PARTITION_OTA,
     BK_PARTITION_RF_FIRMWARE, BK_PARTITION_NET_PARAM, BK_PARTITION_USR_CONFIG,
     BK_PARTITION_MATTER_FLASH, BK_PARTITION_MATTER_FACTORY_FLASH,
     BK_PARTITION_BLE_SVR_CONFIG, BK_PARTITION_BLE_BONDING_FLASH, BK_PARTITION_BAD]"

definition enum_all_bk_partition_t :: "(bk_partition_t \<Rightarrow> bool) \<Rightarrow> bool" where
  "enum_all_bk_partition_t P = list_all P enum_class.enum"

definition enum_ex_bk_partition_t :: "(bk_partition_t \<Rightarrow> bool) \<Rightarrow> bool" where
  "enum_ex_bk_partition_t P = list_ex P enum_class.enum"

lemma all_partitions: "p \<in> set (enum_class.enum :: bk_partition_t list)"
  by (cases p) (simp_all add: enum_bk_partition_t_def)

instance
  by standard
    (use all_partitions in \<open>auto simp: enum_all_bk_partition_t_def enum_ex_bk_partition_t_def list_all_iff list_ex_iff\<close>,
      simp add: enum_bk_partition_t_def)

end

record bk_logic_partition_t =
  partition_description :: string
  partition_start_addr :: u32
  partition_length :: u32
  partition_options :: u32

text \<open>The switches of the configuration header that the tables depend on.\<close>

record build_cfg =
  CFG_SUPPORT_MATTER :: bool
  AT_SERVICE_CFG :: bool
  SOC_BK7221U :: bool

definition PAR_OPT_READ_EN :: u32 where "PAR_OPT_READ_EN = 1"
definition PAR_OPT_WRITE_DIS :: u32 where "PAR_OPT_WRITE_DIS = 0"

definition mk_part :: "string \<Rightarrow> u32 \<Rightarrow> u32 \<Rightarrow> bk_logic_partition_t" where
  "mk_part desc start len =
     \<lparr>partition_description = desc, partition_start_addr = start, partition_length = len,
      partition_options = PAR_OPT_READ_EN OR PAR_OPT_WRITE_DIS\<rparr>"

text \<open>An entry that the initialiser does not name is all zero.\<close>

definition zero_part :: bk_logic_partition_t where
  "zero_part = \<lparr>partition_description = [], partition_start_addr = 0, partition_length = 0,
     partition_options = 0\<rparr>"

type_synonym part_table = "bk_partition_t \<Rightarrow> bk_logic_partition_t"

fun bk7231_partitions_1M :: part_table where
  "bk7231_partitions_1M BK_PARTITION_BOOTLOADER = mk_part ''Bootloader'' 0x00000000 0x0F000"
| "bk7231_partitions_1M BK_PARTITION_APPLICATION = mk_part ''Application'' 0x11000 0xC2000"
| "bk7231_partitions_1M BK_PARTITION_OTA = mk_part ''ota'' 0xD3000 0x1C000"
| "bk7231_partitions_1M BK_PARTITION_RF_FIRMWARE = mk_part ''RF Firmware'' 0xEF000 0x1000"
| "bk7231_partitions_1M BK_PARTITION_NET_PARAM = mk_part ''NET info'' 0xF0000 0x1000"
| "bk7231_partitions_1M _ = zero_part"

fun bk7231_partitions_2M :: "build_cfg \<Rightarrow> part_table" where
  "bk7231_partitions_2M b BK_PARTITION_BOOTLOADER = mk_part ''Bootloader'' 0x00000000 0x0F000"
| "bk7231_partitions_2M b BK_PARTITION_APPLICATION = mk_part ''Application'' 0x11000 0x121000"
| "bk7231_partitions_2M b BK_PARTITION_OTA = mk_part ''ota'' 0x132000 0xAE000"
| "bk7231_partitions_2M b BK_PARTITION_RF_FIRMWARE = mk_part ''RF Firmware'' 0x1e0000 0x1000"
| "bk7231_partitions_2M b BK_PARTITION_NET_PARAM =
     mk_part ''NET info'' (if SOC_BK7221U b then 0x1FF000 else 0x1e1000) 0x1000"
| "bk7231_partitions_2M b BK_PARTITION_MATTER_FLASH =
     (if CFG_SUPPORT_MATTER b then mk_part ''matter info'' 0x1e2000 0x9000 else zero_part)"
| "bk7231_partitions_2M b BK_PARTITION_MATTER_FACTORY_FLASH =
     (if CFG_SUPPORT_MATTER b then mk_part ''matter factory info'' 0x1eb000 0x3000 else zero_part)"
| "bk7231_partitions_2M b BK_PARTITION_USR_CONFIG =
     (if AT_SERVICE_CFG b then mk_part ''USER info'' 0x1ee000 0x1000 else zero_part)"
| "bk7231_partitions_2M b BK_PARTITION_BLE_SVR_CONFIG =
     (if AT_SERVICE_CFG b then mk_part ''BLE SERVER'' 0x1ef000 0x1000 else zero_part)"
| "bk7231_partitions_2M b BK_PARTITION_BLE_BONDING_FLASH = mk_part ''ble bonding info'' 0x1f0000 0x1000"
| "bk7231_partitions_2M b BK_PARTITION_BAD = zero_part"

fun bk7231_partitions_4M :: "build_cfg \<Rightarrow> part_table" where
  "bk7231_partitions_4M b BK_PARTITION_BOOTLOADER = mk_part ''Bootloader'' 0x00000000 0x0F000"
| "bk7231_partitions_4M b BK_PARTITION_APPLICATION = mk_part ''Application'' 0x11000 0x275000"
| "bk7231_partitions_4M b BK_PARTITION_OTA = mk_part ''ota'' 0x286000 0x15A000"
| "bk7231_partitions_4M b BK_PARTITION_RF_FIRMWARE = mk_part ''RF Firmware'' 0x3e0000 0x1000"
| "bk7231_partitions_4M b BK_PARTITION_NET_PARAM = mk_part ''NET info'' 0x3e1000 0x1000"
| "bk7231_partitions_4M b BK_PARTITION_MATTER_FLASH =
     (if CFG_SUPPORT_MATTER b then mk_part ''matter info'' 0x3e2000 0x9000 else zero_part)"
| "bk7231_partitions_4M b BK_PARTITION_MATTER_FACTORY_FLASH =
     (if CFG_SUPPORT_MATTER b then mk_part ''matter factory info'' 0x3eb000 0x3000 else zero_part)"
| "bk7231_partitions_4M b BK_PARTITION_USR_CONFIG =
     (if AT_SERVICE_CFG b then mk_part ''USER info'' 0x3ee000 0x1000 else zero_part)"
| "bk7231_partitions_4M b BK_PARTITION_BLE_SVR_CONFIG =
     (if AT_SERVICE_CFG b then mk_part ''BLE SERVER'' 0x3ef000 0x1000 else zero_part)"
| "bk7231_partitions_4M b _ = zero_part"

fun bk7231_partitions_8M :: part_table where
  "bk7231_partitions_8M BK_PARTITION_BOOTLOADER = mk_part ''Bootloader'' 0x00000000 0x0F000"
| "bk7231_partitions_8M BK_PARTITION_APPLICATION = mk_part ''Application'' 0x11000 0x121000"
| "bk7231_partitions_8M BK_PARTITION_OTA = mk_part ''ota'' 0x132000 0xAE000"
| "bk7231_partitions_8M BK_PARTITION_RF_FIRMWARE = mk_part ''RF Firmware'' 0x709000 0x1000"
| "bk7231_partitions_8M BK_PARTITION_NET_PARAM = mk_part ''NET info'' 0x70A000 0x1000"
| "bk7231_partitions_8M _ = zero_part"

text \<open>The choice that \<open>hal_flash_init\<close> makes when the table is selected at run time.\<close>

definition hal_flash_init :: "build_cfg \<Rightarrow> flash_dev \<Rightarrow> part_table" where
  "hal_flash_init b d =
     (let status = flash_size (fd_cfg d) in
      if 0x800000 \<le> status then bk7231_partitions_8M
      else if 0x400000 \<le> status then bk7231_partitions_4M b
      else if 0x200000 \<le> status then bk7231_partitions_2M b
      else if 0x100000 \<le> status then bk7231_partitions_1M
      else bk7231_partitions_2M b)"

definition bk_flash_get_info :: "part_table \<Rightarrow> bk_partition_t \<Rightarrow> bk_logic_partition_t option" where
  "bk_flash_get_info pt p = (if p = BK_PARTITION_BAD then None else Some (pt p))"

subsection \<open>Absolute addresses\<close>

datatype OSStatus = kNoErr | kGeneralErr | kParamErr | kNotFoundErr

definition bk_flash_enable_security :: "flash_dev \<Rightarrow> PROTECT_TYPE \<Rightarrow> flash_dev option" where
  "bk_flash_enable_security d type = map_option fst (flash_ctrl d (CMD_FLASH_SET_PROTECT type))"

definition bk_flash_get_security :: "flash_dev \<Rightarrow> (flash_dev \<times> PROTECT_TYPE) option" where
  "bk_flash_get_security d =
     (case flash_ctrl d CMD_FLASH_GET_PROTECT of
        Some (d', _, OutProtect t) \<Rightarrow> Some (d', t)
      | _ \<Rightarrow> None)"

definition bk_flash_abs_addr_read :: "flash_dev \<Rightarrow> u32 \<Rightarrow> u32 \<Rightarrow> u8 list" where
  "bk_flash_abs_addr_read d off_set sz = flash_read d sz off_set"

function erase_loop :: "flash_dev \<Rightarrow> nat \<Rightarrow> nat \<Rightarrow> flash_dev option" where
  "erase_loop d i end_sector =
     (if i \<le> end_sector
      then do {
        (d', _, _) \<leftarrow> flash_ctrl d (CMD_FLASH_ERASE_SECTOR (push_bit 12 (of_nat i)));
        erase_loop d' (i + 1) end_sector }
      else Some d)"
  by pat_completeness auto
termination by (relation "measure (\<lambda>(d, i, e). Suc e - i)") auto

declare erase_loop.simps [simp del]

definition bk_flash_abs_addr_erase :: "flash_dev \<Rightarrow> u32 \<Rightarrow> u32 \<Rightarrow> flash_dev option" where
  "bk_flash_abs_addr_erase d flashOffset sz =
     do {
       (d0, flag) \<leftarrow> bk_flash_get_security d;
       let start_sector = drop_bit 12 flashOffset;
       let end_sector = drop_bit 12 (flashOffset + sz - 1);
       d1 \<leftarrow> bk_flash_enable_security d0 FLASH_PROTECT_NONE;
       d2 \<leftarrow> erase_loop d1 (unat start_sector) (unat end_sector);
       bk_flash_enable_security d2 flag }"

definition bk_flash_abs_addr_write ::
  "flash_dev \<Rightarrow> u32 \<Rightarrow> u8 list \<Rightarrow> u32 \<Rightarrow> bool \<Rightarrow> flash_dev option" where
  "bk_flash_abs_addr_write d off_set inBuffer sz eraseflag =
     do {
       (d0, flag) \<leftarrow> bk_flash_get_security d;
       d1 \<leftarrow> (if eraseflag then bk_flash_abs_addr_erase d0 off_set sz else Some d0);
       d2 \<leftarrow> bk_flash_enable_security d1 FLASH_PROTECT_NONE;
       d3 \<leftarrow> flash_write d2 inBuffer sz off_set;
       bk_flash_enable_security d3 flag }"

subsection \<open>Partitions\<close>

text \<open>A buffer argument is \<open>None\<close> when the caller passes \<open>NULL\<close>.\<close>

definition bk_flash_erase ::
  "part_table \<Rightarrow> flash_dev \<Rightarrow> bk_partition_t \<Rightarrow> u32 \<Rightarrow> u32 \<Rightarrow> (flash_dev \<times> OSStatus) option" where
  "bk_flash_erase pt d p off_set sz =
     (case bk_flash_get_info pt p of
        None \<Rightarrow> Some (d, kNotFoundErr)
      | Some info \<Rightarrow>
          map_option (\<lambda>d'. (d', kNoErr))
            (bk_flash_abs_addr_erase d (partition_start_addr info + off_set) sz))"

definition bk_flash_write ::
  "part_table \<Rightarrow> flash_dev \<Rightarrow> bk_partition_t \<Rightarrow> u32 \<Rightarrow> u8 list option \<Rightarrow> u32
     \<Rightarrow> (flash_dev \<times> OSStatus) option" where
  "bk_flash_write pt d p off_set inBuffer inBufferLength =
     (case inBuffer of
        None \<Rightarrow> Some (d, kParamErr)
      | Some bs \<Rightarrow>
          (case bk_flash_get_info pt p of
             None \<Rightarrow> Some (d, kNotFoundErr)
           | Some info \<Rightarrow>
               map_option (\<lambda>d'. (d', kNoErr))
                 (bk_flash_abs_addr_write d (partition_start_addr info + off_set) bs inBufferLength False)))"

definition bk_flash_read ::
  "part_table \<Rightarrow> flash_dev \<Rightarrow> bk_partition_t \<Rightarrow> u32 \<Rightarrow> u32 \<Rightarrow> u8 list \<times> OSStatus" where
  "bk_flash_read pt d p off_set n =
     (case bk_flash_get_info pt p of
        None \<Rightarrow> ([], kNotFoundErr)
      | Some info \<Rightarrow> (bk_flash_abs_addr_read d (partition_start_addr info + off_set) n, kNoErr))"


subsection \<open>What the operations do\<close>

text \<open>
  \<open>flash_ok\<close>: the part is one of the table (not the one whose protection field is misdescribed),
  and, the data sheet's part, the status values whose protection field reads as
  ``none'' leave every cell writable.
\<close>

definition none_unlocks :: "flash_dev \<Rightarrow> bool" where
  "none_unlocks d \<longleftrightarrow>
     (\<forall>sr x. protect_value (fd_cfg d) (sr_masked (sr_size (fd_cfg d)) sr) = protect_none (fd_cfg d)
        \<longrightarrow> \<not> fd_locked d sr x)"

definition flash_ok :: "flash_dev \<Rightarrow> bool" where
  "flash_ok d \<longleftrightarrow> table_config d \<and> flash_id (fd_cfg d) \<noteq> 0x854215 \<and> none_unlocks d"

lemma flash_ok_table [simp]: "flash_ok d \<Longrightarrow> table_config d"
  by (simp add: flash_ok_def)

lemma flash_ok_cong:
  "fd_cfg d' = fd_cfg d \<Longrightarrow> fd_locked d' = fd_locked d \<Longrightarrow> flash_ok d' = flash_ok d"
  by (simp add: flash_ok_def none_unlocks_def table_config_def)

lemma table_config_cong: "fd_cfg d' = fd_cfg d \<Longrightarrow> table_config d' = table_config d"
  by (simp add: table_config_def)

definition unlocked :: "flash_dev \<Rightarrow> bool" where
  "unlocked d \<longleftrightarrow> (\<forall>x. \<not> fd_locked d (fd_sr d) x)"

lemma set_none_unlocked: "flash_ok d \<Longrightarrow> unlocked (set_flash_protect d FLASH_PROTECT_NONE)"
proof -
  assume ok: "flash_ok d"
  then have "protect_fits (fd_cfg d)"
    by (intro table_protect_fits) (simp_all add: flash_ok_def table_config_def)
  then have "protect_value (fd_cfg d)
      (flash_read_sr (set_flash_protect d FLASH_PROTECT_NONE) (sr_size (fd_cfg d))) = protect_none (fd_cfg d)"
    by (subst set_flash_protect_value) (simp_all add: protect_word_def)
  then show ?thesis using ok
    by (simp add: unlocked_def flash_ok_def none_unlocks_def flash_read_sr_eq)
qed

lemma unlocked_pp: "unlocked d \<Longrightarrow> chip_pp d a bs = d\<lparr>fd_mem := nor_write (fd_mem d) a bs\<rparr>"
  by (simp add: unlocked_def chip_pp_def chip_keep_def)

lemma unlocked_se: "unlocked d \<Longrightarrow> chip_se d a = d\<lparr>fd_mem := nor_erase (fd_mem d) a 4096\<rparr>"
  by (simp add: unlocked_def chip_se_def chip_keep_def)

lemma enable_security_eq: "table_config d \<Longrightarrow> bk_flash_enable_security d t = Some (set_flash_protect d t)"
  by (simp add: bk_flash_enable_security_def flash_ctrl_def)

lemma get_security_eq: "table_config d \<Longrightarrow> bk_flash_get_security d = Some (d, get_flash_protect d)"
  by (simp add: bk_flash_get_security_def flash_ctrl_def)

lemma erase_ctrl_eq:
  "table_config d \<Longrightarrow>
     flash_ctrl d (CMD_FLASH_ERASE_SECTOR a) = Some (flash_erase_sector d a, FLASH_SUCCESS, OutNone)"
  by (simp add: flash_ctrl_def flash_erase_sector_def Let_def)

lemma nor_erase_append: "nor_erase (nor_erase m a k) (a + k) n = nor_erase m a (k + n)"
  by (auto simp: nor_erase_def fun_eq_iff)

lemma nor_erase_0 [simp]: "nor_erase m a 0 = m"
  by (auto simp: nor_erase_def fun_eq_iff)

lemma sector_addr:
  assumes "i < 4096"
  shows "unat ((push_bit 12 (of_nat i) :: u32) AND 0xFFF000) = i * 4096"
proof -
  have m: "(0xFFF000 :: u32) = push_bit 12 (mask 12)" by (simp add: mask_eq_decr_exp)
  have "(push_bit 12 (of_nat i) :: u32) AND 0xFFF000 = push_bit 12 (take_bit 12 (of_nat i))"
    unfolding m by (rule bit_word_eqI) (auto simp: bit_simps)
  also have "take_bit 12 (of_nat i :: u32) = of_nat i"
    using assms by (subst take_bit_of_nat) (simp add: take_bit_nat_eq_self)
  also have "push_bit 12 (of_nat i :: u32) = of_nat (i * 4096)"
    by (simp add: push_bit_eq_mult)
  finally have e: "(push_bit 12 (of_nat i) :: u32) AND 0xFFF000 = of_nat (i * 4096)" .
  show ?thesis unfolding e unat_of_nat using assms by simp
qed

lemma erase_sector_unlocked:
  assumes "table_config d" "unlocked d" "(i + 1) * 4096 \<le> unat (flash_size (fd_cfg d))"
  shows "flash_erase_sector d (push_bit 12 (of_nat i)) = d\<lparr>fd_mem := nor_erase (fd_mem d) (i * 4096) 4096\<rparr>"
proof -
  have "(i + 1) * 4096 \<le> 0x800000" by (rule order_trans [OF assms(3) table_config_size [OF assms(1)]])
  then have "i < 4096" by simp
  then show ?thesis
    using assms(2,3) sector_addr [of i]
    by (simp add: flash_erase_sector_def Let_def unlocked_se word_le_nat_alt)
qed

lemma erase_loop_unlocked:
  assumes "table_config d" "unlocked d" "(e + 1) * 4096 \<le> unat (flash_size (fd_cfg d))" "i \<le> e + 1"
  shows "erase_loop d i e = Some (d\<lparr>fd_mem := nor_erase (fd_mem d) (i * 4096) ((e + 1 - i) * 4096)\<rparr>)"
  using assms
proof (induction "e + 1 - i" arbitrary: d i)
  case 0
  then show ?case by (simp add: erase_loop.simps)
next
  case (Suc n)
  let ?d = "d\<lparr>fd_mem := nor_erase (fd_mem d) (i * 4096) 4096\<rparr>"
  have i: "i \<le> e" using Suc.hyps(2) by simp
  have "flash_erase_sector d (push_bit 12 (of_nat i)) = ?d"
    using Suc.prems i by (intro erase_sector_unlocked) auto
  then have "erase_loop d i e = erase_loop ?d (i + 1) e"
    using i Suc.prems(1) by (simp add: erase_loop.simps [of d] erase_ctrl_eq)
  also have "\<dots> = Some (?d\<lparr>fd_mem := nor_erase (fd_mem ?d) ((i + 1) * 4096) ((e + 1 - (i + 1)) * 4096)\<rparr>)"
    using Suc.prems Suc.hyps(2) i
    by (intro Suc.hyps(1)) (auto simp: table_config_def unlocked_def)
  also have "nor_erase (fd_mem ?d) ((i + 1) * 4096) ((e + 1 - (i + 1)) * 4096)
      = nor_erase (fd_mem d) (i * 4096) ((e + 1 - i) * 4096)"
    using nor_erase_append [of "fd_mem d" "i * 4096" 4096 "(e - i) * 4096"] i
    by (simp add: algebra_simps Suc_diff_le)
  finally show ?case by simp
qed


lemma set_protect_mem:
  "(set_flash_protect (d\<lparr>fd_mem := m\<rparr>) t) = (set_flash_protect d t)\<lparr>fd_mem := m\<rparr>"
  by (simp add: set_flash_protect_def flash_read_sr_def flash_write_sr_def put_wrsr_data_def
      chip_wrsr_def chip_wrsr2_def Let_def)

lemma abs_addr_erase_ok:
  assumes ok: "flash_ok d" and "0 < n" and "unat off = 4096 * s" and "unat n = 4096 * k"
    and fit: "unat off + unat n \<le> unat (flash_size (fd_cfg d))"
  shows "bk_flash_abs_addr_erase d off n =
    Some (set_flash_protect ((set_flash_protect d FLASH_PROTECT_NONE)
            \<lparr>fd_mem := nor_erase (fd_mem d) (unat off) (unat n)\<rparr>) (get_flash_protect d))"
proof -
  let ?d1 = "set_flash_protect d FLASH_PROTECT_NONE"
  have fs: "unat (flash_size (fd_cfg d)) \<le> 0x800000" using ok by (simp add: table_config_size)
  have k: "0 < k" using assms(2,4) by (cases k) (auto simp: unat_eq_0)
  have sum: "unat (off + n) = 4096 * (s + k)"
    using fit fs assms(3,4) by (subst unat_add_32) auto
  have one: "(1 :: u32) \<le> off + n" using sum k by (simp add: word_le_nat_alt)
  have e: "unat (drop_bit 12 (off + n - 1)) = s + k - 1"
  proof -
    have "unat (off + n - 1) = 4096 * (s + k) - 1"
      using one sum by (subst unat_sub_no_wrap) simp_all
    also have "\<dots> = 4096 * (s + k - 1) + 4095" using k by (simp add: algebra_simps)
    finally show ?thesis by (simp only: unat_drop_bit_eq) (simp add: drop_bit_eq_div)
  qed
  have b: "unat (drop_bit 12 off) = s" using assms(3) by (simp only: unat_drop_bit_eq) (simp add: drop_bit_eq_div)
  have t1: "table_config ?d1" using ok table_config_cong [of ?d1 d] by simp
  have "erase_loop ?d1 s (s + k - 1) =
      Some (?d1\<lparr>fd_mem := nor_erase (fd_mem ?d1) (s * 4096) ((s + k - 1 + 1 - s) * 4096)\<rparr>)"
    using t1 set_none_unlocked [OF ok] fit assms(3,4) k by (intro erase_loop_unlocked) auto
  also have "nor_erase (fd_mem ?d1) (s * 4096) ((s + k - 1 + 1 - s) * 4096)
      = nor_erase (fd_mem d) (unat off) (unat n)"
    using assms(3,4) k by (simp add: mult.commute)
  finally have loop: "erase_loop ?d1 s (s + k - 1) =
      Some (?d1\<lparr>fd_mem := nor_erase (fd_mem d) (unat off) (unat n)\<rparr>)" .
  show ?thesis
    using ok t1 loop
    by (simp add: bk_flash_abs_addr_erase_def get_security_eq enable_security_eq Let_def b e
        table_config_cong [of "?d1\<lparr>fd_mem := x\<rparr>" d for x])
qed

lemma flash_view_ok: "flash_view d' = flash_view d \<Longrightarrow> flash_ok d' = flash_ok d"
  by (rule flash_ok_cong) (metis flash_view_select)+

lemma set_protect_sr_cong:
  "fd_sr a = fd_sr b \<Longrightarrow> fd_cfg a = fd_cfg b \<Longrightarrow>
     fd_sr (set_flash_protect a t) = fd_sr (set_flash_protect b t)"
  by (simp add: set_flash_protect_def flash_read_sr_def flash_write_sr_def chip_wrsr_def
      chip_wrsr2_def Let_def)

lemma abs_addr_write_ok:
  assumes ok: "flash_ok d" and len: "unat n = length bs"
    and fit: "unat off + length bs \<le> unat (flash_size (fd_cfg d))"
  shows "\<exists>d'. bk_flash_abs_addr_write d off bs n False = Some d' \<and> flash_ok d' \<and>
    fd_cfg d' = fd_cfg d \<and> fd_mem d' = nor_write (fd_mem d) (unat off) bs \<and>
    fd_sr d' = fd_sr (set_flash_protect (set_flash_protect d FLASH_PROTECT_NONE) (get_flash_protect d))"
proof -
  let ?d1 = "set_flash_protect d FLASH_PROTECT_NONE"
  have t1: "table_config ?d1" using ok table_config_cong [of ?d1 d] by simp
  obtain d2 where w: "flash_write ?d1 bs n off = Some d2"
    and v: "flash_view d2 = flash_view (chip_pp ?d1 (unat off) bs)"
    using flash_write_ok [OF t1, of n bs off] len fit by auto
  have c2: "fd_cfg d2 = fd_cfg d" "fd_locked d2 = fd_locked d" "fd_mem d2 = nor_write (fd_mem d) (unat off) bs"
    "fd_sr d2 = fd_sr ?d1"
    using arg_cong [OF v, of fd_cfg] arg_cong [OF v, of fd_locked] arg_cong [OF v, of fd_mem]
      arg_cong [OF v, of fd_sr]
    by (simp_all add: unlocked_pp [OF set_none_unlocked [OF ok]])
  have t2: "table_config d2" using c2 ok table_config_cong [of d2 d] by simp
  have sr: "fd_sr (set_flash_protect d2 t) = fd_sr (set_flash_protect ?d1 t)" for t
    by (rule set_protect_sr_cong) (simp_all add: c2)
  have "bk_flash_abs_addr_write d off bs n False = Some (set_flash_protect d2 (get_flash_protect d))"
    using ok t1 t2 w by (simp add: bk_flash_abs_addr_write_def get_security_eq enable_security_eq)
  then show ?thesis
    using c2 ok sr flash_ok_cong [of "set_flash_protect d2 (get_flash_protect d)" d] by simp
qed

lemma abs_addr_read_eq [simp]:
  "bk_flash_abs_addr_read d off n = slice (fd_mem d) (unat off) (unat n)"
  by (simp add: bk_flash_abs_addr_read_def flash_read_def flash_read_data_eq)

end
