(* ===== verification/NorStore.thy ===== *)
theory NorStore
  imports FlashPart
begin

text \<open>
  The contract between the flash layer and its users: the locale \<open>nor_store\<close>, its
  consequences, its interpretation on \<open>bk_flash_abs_addr_read\<close>, \<open>bk_flash_abs_addr_write\<close> and
  \<open>bk_flash_abs_addr_erase\<close>, and the properties of the partition operations.
\<close>

subsection \<open>The contract\<close>

locale nor_store =
  fixes ok :: "'s \<Rightarrow> bool"
    and img :: "'s \<Rightarrow> nat \<Rightarrow> u8"
    and cap :: "'s \<Rightarrow> nat"
    and rd :: "'s \<Rightarrow> nat \<Rightarrow> nat \<Rightarrow> u8 list"
    and wr :: "'s \<Rightarrow> nat \<Rightarrow> u8 list \<Rightarrow> 's option"
    and er :: "'s \<Rightarrow> nat \<Rightarrow> nat \<Rightarrow> 's option"
  assumes rd_law: "ok s \<Longrightarrow> a + n \<le> cap s \<Longrightarrow> rd s a n = slice (img s) a n"
    and wr_law: "ok s \<Longrightarrow> a + length bs \<le> cap s \<Longrightarrow>
      \<exists>s'. wr s a bs = Some s' \<and> ok s' \<and> cap s' = cap s \<and> img s' = nor_write (img s) a bs"
    and er_law: "ok s \<Longrightarrow> 0 < n \<Longrightarrow> 4096 dvd a \<Longrightarrow> 4096 dvd n \<Longrightarrow> a + n \<le> cap s \<Longrightarrow>
      \<exists>s'. er s a n = Some s' \<and> ok s' \<and> cap s' = cap s \<and> img s' = nor_erase (img s) a n"
begin

lemma wr_img:
  "ok s \<Longrightarrow> a + length bs \<le> cap s \<Longrightarrow> wr s a bs = Some s' \<Longrightarrow>
     ok s' \<and> cap s' = cap s \<and> img s' = nor_write (img s) a bs"
  using wr_law [of s a bs] by auto

lemma er_img:
  "ok s \<Longrightarrow> 0 < n \<Longrightarrow> 4096 dvd a \<Longrightarrow> 4096 dvd n \<Longrightarrow> a + n \<le> cap s \<Longrightarrow> er s a n = Some s' \<Longrightarrow>
     ok s' \<and> cap s' = cap s \<and> img s' = nor_erase (img s) a n"
  using er_law [of s n a] by auto

lemma rd_write:
  assumes "ok s" "a + length bs \<le> cap s" "wr s a bs = Some s'" "slice (img s) a (length bs) = replicate (length bs) 0xFF"
  shows "rd s' a (length bs) = bs"
proof -
  have i: "ok s'" "cap s' = cap s" "img s' = nor_write (img s) a bs" using wr_img assms by blast+
  have "img s (a + i) = 0xFF" if "i < length bs" for i
    using assms(4) that by (simp add: slice_eq_list_iff)
  then have "slice (img s') a (length bs) = bs"
    unfolding i(3) by (simp add: slice_eq_list_iff nor_write_def and.commute)
  then show ?thesis using rd_law [of s' a "length bs"] i assms(2) by simp
qed

lemma rd_elsewhere:
  assumes "ok s" "a + length bs \<le> cap s" "wr s a bs = Some s'"
    and "b + n \<le> a \<or> a + length bs \<le> b" "b + n \<le> cap s"
  shows "rd s' b n = rd s b n"
proof -
  have i: "ok s'" "cap s' = cap s" "img s' = nor_write (img s) a bs" using wr_img assms(1-3) by blast+
  have "slice (img s') b n = slice (img s) b n"
    unfolding i(3) using assms(4) by (intro slice_cong) (auto simp: nor_write_def)
  then show ?thesis using rd_law assms i by simp
qed

lemma erase_write_read:
  assumes "ok s" "0 < n" "4096 dvd a" "4096 dvd n" "a + n \<le> cap s"
    and "er s a n = Some s1" "wr s1 (a + off) bs = Some s2" "off + length bs \<le> n"
  shows "rd s2 (a + off) (length bs) = bs"
proof -
  have i: "ok s1" "cap s1 = cap s" "img s1 = nor_erase (img s) a n" using er_img assms by blast+
  have "slice (img s1) (a + off) (length bs) = replicate (length bs) 0xFF"
    unfolding i(3) using assms(8) by (simp add: slice_eq_list_iff nor_erase_def)
  then show ?thesis using rd_write [of s1 "a + off" bs s2] i assms by simp
qed

end

subsection \<open>The model provides it\<close>

definition flash_cap :: "flash_dev \<Rightarrow> nat" where "flash_cap d = unat (flash_size (fd_cfg d))"

definition abs_rd :: "flash_dev \<Rightarrow> nat \<Rightarrow> nat \<Rightarrow> u8 list" where
  "abs_rd d a n = bk_flash_abs_addr_read d (of_nat a) (of_nat n)"

definition abs_wr :: "flash_dev \<Rightarrow> nat \<Rightarrow> u8 list \<Rightarrow> flash_dev option" where
  "abs_wr d a bs = bk_flash_abs_addr_write d (of_nat a) bs (of_nat (length bs)) False"

definition abs_er :: "flash_dev \<Rightarrow> nat \<Rightarrow> nat \<Rightarrow> flash_dev option" where
  "abs_er d a n = bk_flash_abs_addr_erase d (of_nat a) (of_nat n)"

lemma flash_cap_le: "flash_ok d \<Longrightarrow> flash_cap d \<le> 0x800000"
  by (simp add: flash_cap_def table_config_size)

lemma unat_of_nat_cap: "flash_ok d \<Longrightarrow> n \<le> flash_cap d \<Longrightarrow> unat (of_nat n :: u32) = n"
  using flash_cap_le [of d] by (simp add: unat_of_nat)

lemma abs_er_ok:
  assumes "flash_ok d" "0 < n" "4096 dvd a" "4096 dvd n" "a + n \<le> flash_cap d"
  shows "\<exists>d'. abs_er d a n = Some d' \<and> flash_ok d' \<and> fd_cfg d' = fd_cfg d \<and>
    fd_mem d' = nor_erase (fd_mem d) a n"
proof -
  have u: "unat (of_nat a :: u32) = a" "unat (of_nat n :: u32) = n"
    using assms unat_of_nat_cap [OF assms(1)] by simp_all
  obtain s k where sk: "a = 4096 * s" "n = 4096 * k" using assms by (auto simp: dvd_def)
  have pos: "(0 :: u32) < of_nat n" using u(2) assms(2) by (simp add: word_less_nat_alt)
  let ?d1 = "set_flash_protect d FLASH_PROTECT_NONE"
  let ?d2 = "set_flash_protect (?d1\<lparr>fd_mem := nor_erase (fd_mem d) a n\<rparr>) (get_flash_protect d)"
  have "abs_er d a n = Some ?d2"
    unfolding abs_er_def using abs_addr_erase_ok [OF assms(1) pos, of "of_nat a" s k] sk u assms(5)
    by (simp add: flash_cap_def)
  moreover have "flash_ok ?d2 = flash_ok d" by (rule flash_ok_cong) simp_all
  ultimately show ?thesis using assms(1) by simp
qed

lemma abs_wr_ok:
  assumes "flash_ok d" "a + length bs \<le> flash_cap d"
  shows "\<exists>d'. abs_wr d a bs = Some d' \<and> flash_ok d' \<and> fd_cfg d' = fd_cfg d \<and>
    fd_mem d' = nor_write (fd_mem d) a bs"
proof -
  have u: "unat (of_nat a :: u32) = a" "unat (of_nat (length bs) :: u32) = length bs"
    using assms unat_of_nat_cap [OF assms(1)] by simp_all
  then show ?thesis
    unfolding abs_wr_def
    using abs_addr_write_ok [OF assms(1) u(2), of "of_nat a"] assms(2) by (auto simp: flash_cap_def)
qed

interpretation nor: nor_store flash_ok fd_mem flash_cap abs_rd abs_wr abs_er
proof
  fix s a n assume "flash_ok s" "a + n \<le> flash_cap s"
  then show "abs_rd s a n = slice (fd_mem s) a n"
    using unat_of_nat_cap [of s a] unat_of_nat_cap [of s n] by (simp add: abs_rd_def)
next
  fix s a bs assume "flash_ok s" "a + length (bs :: u8 list) \<le> flash_cap s"
  then show "\<exists>s'. abs_wr s a bs = Some s' \<and> flash_ok s' \<and> flash_cap s' = flash_cap s \<and>
      fd_mem s' = nor_write (fd_mem s) a bs"
    using abs_wr_ok [of s a bs] by (auto simp: flash_cap_def)
next
  fix s n a assume "flash_ok s" "0 < n" "4096 dvd a" "4096 dvd n" "a + n \<le> flash_cap s"
  then show "\<exists>s'. abs_er s a n = Some s' \<and> flash_ok s' \<and> flash_cap s' = flash_cap s \<and>
      fd_mem s' = nor_erase (fd_mem s) a n"
    using abs_er_ok [of s n a] by (auto simp: flash_cap_def)
qed


subsection \<open>Partitions through the contract\<close>

lemma part_addr:
  assumes "flash_ok d" "unat (st :: u32) + unat off + n \<le> flash_cap d"
  shows "unat (st + off) = unat st + unat off" "st + off = of_nat (unat st + unat off)"
proof -
  show u: "unat (st + off) = unat st + unat off"
    using assms(2) flash_cap_le [OF assms(1)] by (intro unat_add_32) linarith
  show "st + off = of_nat (unat st + unat off)"
    by (simp only: u [symmetric] of_nat_unat ucast_id)
qed

lemma part_write_abs:
  assumes "flash_ok d" "p \<noteq> BK_PARTITION_BAD"
    and "unat (partition_start_addr (pt p)) + unat off + length bs \<le> flash_cap d"
  shows "bk_flash_write pt d p off (Some bs) (of_nat (length bs)) =
    map_option (\<lambda>d'. (d', kNoErr)) (abs_wr d (unat (partition_start_addr (pt p)) + unat off) bs)"
  unfolding abs_wr_def part_addr(2) [OF assms(1,3), symmetric]
  using assms(2) by (simp add: bk_flash_write_def bk_flash_get_info_def)

lemma part_read_abs:
  assumes "flash_ok d" "p \<noteq> BK_PARTITION_BAD"
    and "unat (partition_start_addr (pt p)) + unat off + n \<le> flash_cap d"
  shows "bk_flash_read pt d p off (of_nat n) = (abs_rd d (unat (partition_start_addr (pt p)) + unat off) n, kNoErr)"
  unfolding abs_rd_def part_addr(2) [OF assms(1,3), symmetric]
  using assms(2) by (simp add: bk_flash_read_def bk_flash_get_info_def)

lemma part_erase_abs:
  assumes "flash_ok d" "p \<noteq> BK_PARTITION_BAD"
    and "unat (partition_start_addr (pt p)) + unat off + n \<le> flash_cap d"
  shows "bk_flash_erase pt d p off (of_nat n) =
    map_option (\<lambda>d'. (d', kNoErr)) (abs_er d (unat (partition_start_addr (pt p)) + unat off) n)"
  unfolding abs_er_def part_addr(2) [OF assms(1,3), symmetric]
  using assms(2) by (simp add: bk_flash_erase_def bk_flash_get_info_def)

text \<open>C19. What is written to an erased part of a partition is read back: the write succeeds,
  lifts the protection only for its duration, changes no byte outside the range, and the
  following read of the same range returns the bytes.\<close>

theorem partition_write_read:
  assumes "flash_ok d" and "p \<noteq> BK_PARTITION_BAD"
    and "unat (partition_start_addr (pt p)) + unat off + length bs \<le> flash_cap d"
    and "\<forall>i<length bs. fd_mem d (unat (partition_start_addr (pt p)) + unat off + i) = 0xFF"
  shows "\<exists>d'. bk_flash_write pt d p off (Some bs) (of_nat (length bs)) = Some (d', kNoErr) \<and>
    bk_flash_read pt d' p off (of_nat (length bs)) = (bs, kNoErr) \<and>
    (\<forall>x. \<not> (unat (partition_start_addr (pt p)) + unat off \<le> x \<and>
             x < unat (partition_start_addr (pt p)) + unat off + length bs) \<longrightarrow> fd_mem d' x = fd_mem d x)"
proof -
  let ?a = "unat (partition_start_addr (pt p)) + unat off"
  obtain d' where w: "abs_wr d ?a bs = Some d'" and d': "flash_ok d'" "flash_cap d' = flash_cap d"
    "fd_mem d' = nor_write (fd_mem d) ?a bs"
    using nor.wr_law [OF assms(1,3)] by blast
  have "slice (fd_mem d) ?a (length bs) = replicate (length bs) 0xFF"
    using assms(4) by (simp add: slice_eq_list_iff)
  then have "abs_rd d' ?a (length bs) = bs" by (rule nor.rd_write [OF assms(1,3) w])
  then show ?thesis
    using part_write_abs [where pt = pt and p = p and off = off, OF assms(1-3)] part_read_abs [where pt = pt and p = p and off = off, OF d'(1) assms(2)]
      assms(3) w d' by (auto simp: nor_write_def)
qed

lemma partition_erase_lemma:
  assumes "flash_ok d" and "p \<noteq> BK_PARTITION_BAD" and "0 < n" and "4096 dvd n"
    and "4096 dvd unat (partition_start_addr (pt p)) + unat off"
    and "unat (partition_start_addr (pt p)) + unat off + n \<le> flash_cap d"
  obtains d' where "bk_flash_erase pt d p off (of_nat n) = Some (d', kNoErr)"
    "bk_flash_read pt d' p off (of_nat n) = (replicate n 0xFF, kNoErr)"
    "fd_mem d' = nor_erase (fd_mem d) (unat (partition_start_addr (pt p)) + unat off) n"
proof -
  let ?a = "unat (partition_start_addr (pt p)) + unat off"
  obtain d' where w: "abs_er d ?a n = Some d'" and d': "flash_ok d'" "flash_cap d' = flash_cap d"
    "fd_mem d' = nor_erase (fd_mem d) ?a n"
    using nor.er_law [OF assms(1,3,5,4,6)] by blast
  have "abs_rd d' ?a n = replicate n 0xFF"
    using nor.rd_law [OF d'(1), of ?a n] assms(6) d' by (simp add: slice_eq_list_iff nor_erase_def)
  then show thesis
    using part_erase_abs [where pt = pt and p = p and off = off, OF assms(1,2,6)] part_read_abs [where pt = pt and p = p and off = off, OF d'(1) assms(2)]
      assms(6) w d' by (intro that [of d']) auto
qed

text \<open>C14. Erasing whole sectors of a partition makes them read as 0xFF and touches nothing else.\<close>

theorem partition_erase_exact:
  assumes "flash_ok d" and "p \<noteq> BK_PARTITION_BAD" and "0 < n" and "4096 dvd n"
    and "4096 dvd unat (partition_start_addr (pt p)) + unat off"
    and "unat (partition_start_addr (pt p)) + unat off + n \<le> flash_cap d"
  shows "\<exists>d'. bk_flash_erase pt d p off (of_nat n) = Some (d', kNoErr) \<and>
    bk_flash_read pt d' p off (of_nat n) = (replicate n 0xFF, kNoErr) \<and>
    (\<forall>x. \<not> (unat (partition_start_addr (pt p)) + unat off \<le> x \<and>
             x < unat (partition_start_addr (pt p)) + unat off + n) \<longrightarrow> fd_mem d' x = fd_mem d x)"
proof -
  obtain d' where "bk_flash_erase pt d p off (of_nat n) = Some (d', kNoErr)"
    "bk_flash_read pt d' p off (of_nat n) = (replicate n 0xFF, kNoErr)"
    "fd_mem d' = nor_erase (fd_mem d) (unat (partition_start_addr (pt p)) + unat off) n"
    using partition_erase_lemma [where pt = pt and p = p and off = off, OF assms] by blast
  then show ?thesis by (auto simp: nor_erase_def)
qed

definition part_end :: "bk_logic_partition_t \<Rightarrow> nat" where
  "part_end i = unat (partition_start_addr i) + unat (partition_length i)"

definition part_table_ok :: "nat \<Rightarrow> part_table \<Rightarrow> bool" where
  "part_table_ok n pt \<longleftrightarrow>
     (\<forall>p. partition_length (pt p) \<noteq> 0 \<longrightarrow>
        part_end (pt p) \<le> n \<and> 4096 dvd unat (partition_start_addr (pt p)) \<and>
        4096 dvd unat (partition_length (pt p)) \<and>
        (\<forall>q. q \<noteq> p \<and> partition_length (pt q) \<noteq> 0 \<longrightarrow>
           part_end (pt p) \<le> unat (partition_start_addr (pt q)) \<or>
           part_end (pt q) \<le> unat (partition_start_addr (pt p))))"

lemma part_table_ok_code:
  "part_table_ok n pt \<longleftrightarrow>
     list_all (\<lambda>p. partition_length (pt p) \<noteq> 0 \<longrightarrow>
        part_end (pt p) \<le> n \<and> 4096 dvd unat (partition_start_addr (pt p)) \<and>
        4096 dvd unat (partition_length (pt p)) \<and>
        list_all (\<lambda>q. q \<noteq> p \<and> partition_length (pt q) \<noteq> 0 \<longrightarrow>
           part_end (pt p) \<le> unat (partition_start_addr (pt q)) \<or>
           part_end (pt q) \<le> unat (partition_start_addr (pt p))) enum_class.enum) enum_class.enum"
  using all_partitions by (auto simp: part_table_ok_def list_all_iff)

lemma parts_1M: "part_table_ok 0x100000 bk7231_partitions_1M"
  unfolding part_table_ok_code enum_bk_partition_t_def
  by (simp add: mk_part_def zero_part_def part_end_def)

lemma parts_2M: "part_table_ok 0x200000 (bk7231_partitions_2M b)"
  unfolding part_table_ok_code enum_bk_partition_t_def
  by (cases "SOC_BK7221U b"; cases "CFG_SUPPORT_MATTER b"; cases "AT_SERVICE_CFG b")
    (simp_all add: mk_part_def zero_part_def part_end_def)

lemma parts_4M: "part_table_ok 0x400000 (bk7231_partitions_4M b)"
  unfolding part_table_ok_code enum_bk_partition_t_def
  by (cases "CFG_SUPPORT_MATTER b"; cases "AT_SERVICE_CFG b")
    (simp_all add: mk_part_def zero_part_def part_end_def)

lemma parts_8M: "part_table_ok 0x800000 bk7231_partitions_8M"
  unfolding part_table_ok_code enum_bk_partition_t_def
  by (simp add: mk_part_def zero_part_def part_end_def)

text \<open>C21. The partition layout is sound: for every part of \<open>flash_config\<close> and every configuration,
  in the table that \<open>hal_flash_init\<close> selects two different listed partitions do not overlap,
  and every listed partition is made of whole sectors and ends within the part.\<close>

theorem partition_tables_sound:
  assumes "table_config d"
  shows "part_table_ok (flash_cap d) (hal_flash_init b d)"
  using flash_config_facts [of "fd_cfg d"] assms parts_1M parts_2M [of b] parts_4M [of b] parts_8M
  by (auto simp: table_config_def hal_flash_init_def flash_cap_def Let_def)

text \<open>C9. A partition that the selected table does not list resolves to address zero: on an 8 MB
  part, erasing ``the user configuration'' reports success and erases the first sectors of
  the boot loader.\<close>

theorem unlisted_partition_erases_bootloader:
  assumes "flash_ok d" and "flash_size (fd_cfg d) = 0x800000"
  shows "\<exists>d'. bk_flash_erase (hal_flash_init b d) d BK_PARTITION_USR_CONFIG 0 0x1000 = Some (d', kNoErr) \<and>
    bk_flash_read (hal_flash_init b d) d' BK_PARTITION_BOOTLOADER 0 0x1000 = (replicate 4096 0xFF, kNoErr)"
proof -
  let ?pt = "hal_flash_init b d"
  have z: "partition_start_addr (?pt BK_PARTITION_USR_CONFIG) = 0" "partition_start_addr (?pt BK_PARTITION_BOOTLOADER) = 0"
    using assms(2) by (simp_all add: hal_flash_init_def Let_def zero_part_def mk_part_def)
  have "\<exists>d'. bk_flash_erase ?pt d BK_PARTITION_USR_CONFIG 0 (of_nat 4096) = Some (d', kNoErr) \<and>
    bk_flash_read ?pt d' BK_PARTITION_USR_CONFIG 0 (of_nat 4096) = (replicate 4096 0xFF, kNoErr)"
    using assms z partition_erase_lemma [of d BK_PARTITION_USR_CONFIG 4096 ?pt 0]
    by (auto simp: flash_cap_def)
  then show ?thesis
    by (simp add: bk_flash_read_def bk_flash_get_info_def z)
qed

subsection \<open>Concrete instances\<close>

lemma demo_dev_ok: "flash_ok (demo_dev pw)"
  by (simp add: flash_ok_def none_unlocks_def) (simp add: demo_dev_def demo_cfg mk_config_def)

definition demo_build :: build_cfg where
  "demo_build = \<lparr>CFG_SUPPORT_MATTER = True, AT_SERVICE_CFG = False, SOC_BK7221U = False\<rparr>"

theorem partition_write_read_witness:
  "\<exists>d'. bk_flash_write (bk7231_partitions_2M demo_build) (demo_dev True) BK_PARTITION_NET_PARAM 8
      (Some [1, 2, 3]) (of_nat (length [1, 2, 3 :: u8])) = Some (d', kNoErr) \<and>
    bk_flash_read (bk7231_partitions_2M demo_build) d' BK_PARTITION_NET_PARAM 8
      (of_nat (length [1, 2, 3 :: u8])) = ([1, 2, 3], kNoErr)"
  using partition_write_read [where d = "demo_dev True" and p = BK_PARTITION_NET_PARAM
      and pt = "bk7231_partitions_2M demo_build" and off = 8 and bs = "[1, 2, 3]"]
  by (auto simp: demo_dev_ok demo_build_def mk_part_def flash_cap_def)

theorem partition_erase_exact_witness:
  "\<exists>d'. bk_flash_erase (bk7231_partitions_2M demo_build) (demo_dev True) BK_PARTITION_NET_PARAM 0
      (of_nat 4096) = Some (d', kNoErr) \<and> fd_mem d' 5 = 0xFF"
  using partition_erase_exact [where d = "demo_dev True" and p = BK_PARTITION_NET_PARAM
      and pt = "bk7231_partitions_2M demo_build" and off = 0 and n = 4096]
  by (auto simp: demo_dev_ok demo_build_def mk_part_def flash_cap_def)

theorem partition_tables_sound_witness:
  "part_table_ok (flash_cap (demo_dev True)) (hal_flash_init demo_build (demo_dev True))"
  by (rule partition_tables_sound) simp

theorem unlisted_partition_erases_bootloader_witness:
  "let d = (demo_dev True)\<lparr>fd_cfg := flash_config ! 7\<rparr> in
   \<exists>d'. bk_flash_erase (hal_flash_init demo_build d) d BK_PARTITION_USR_CONFIG 0 0x1000 = Some (d', kNoErr) \<and>
     bk_flash_read (hal_flash_init demo_build d) d' BK_PARTITION_BOOTLOADER 0 0x1000 = (replicate 4096 0xFF, kNoErr)"
  unfolding Let_def
  by (rule unlisted_partition_erases_bootloader)
    (simp_all add: flash_ok_def none_unlocks_def table_config_def flash_config_def mk_config_def demo_dev_def)

end
