(* ===== verification/KeyValue.thy ===== *)
theory KeyValue
  imports NorStore
begin

text \<open>
  The key-value store of \<open>func/key_value_flash/flash_namespace_value.c\<close> (\<open>func/key_value_flash\<close>):
  a sector of namespace entries, a sector of 64 name entries for every namespace and a data
  sector for every namespace, in the partition of the Matter data.

  Every operation takes the partition table, the allocator's behaviour \<open>mal\<close> (whether an
  allocation of that many bytes succeeds) and the flash device, and returns its result and
  the device, or \<open>None\<close> where the C code leaves its buffers.  Pointers that the code checks for
  \<open>NULL\<close> are options; strings are their bytes without the terminator.
\<close>

subsection \<open>Data\<close>

record namespace_flash_t =
  ns_dwUsingFlag :: u32
  ns_dwOffsetByByte :: u32
  ucNamespace :: "u8 list"

record name_flash_t =
  dwUsingFlag :: u32
  dwOffsetByByte :: u32
  dwlength :: u32
  ucName :: "u8 list"

definition FLASH_NAME_MAX_ARRAY :: nat where "FLASH_NAME_MAX_ARRAY = 64"
definition NAME_SPACE_FLASH_TOTAL_SIZE :: u32 where "NAME_SPACE_FLASH_TOTAL_SIZE = 0x1000"
definition PER_NAME_FLASH_SIZE :: u32 where "PER_NAME_FLASH_SIZE = 64"
definition PER_NAME_SPACE_FLASH_SIZE :: u32 where "PER_NAME_SPACE_FLASH_SIZE = 64"
definition NAME_FLASH_TOTAL_SIZE :: u32 where "NAME_FLASH_TOTAL_SIZE = 64 * 64"
definition FLASH_SECTOR_SIZE :: u32 where "FLASH_SECTOR_SIZE = 0x1000"
definition FLASH_SPACE_USING :: u32 where "FLASH_SPACE_USING = 0xFFFFFF55"
definition FLASH_SPACE_MASK :: u32 where "FLASH_SPACE_MASK = 0xFFFF5555"

lemmas kv_consts = FLASH_NAME_MAX_ARRAY_def NAME_SPACE_FLASH_TOTAL_SIZE_def PER_NAME_FLASH_SIZE_def
  PER_NAME_SPACE_FLASH_SIZE_def NAME_FLASH_TOTAL_SIZE_def FLASH_SECTOR_SIZE_def

text \<open>The in-memory images of the two packed structures.\<close>

definition name_bytes :: "name_flash_t \<Rightarrow> u8 list" where
  "name_bytes e = le32 (dwUsingFlag e) @ le32 (dwOffsetByByte e) @ le32 (dwlength e) @ ucName e"

definition name_of_bytes :: "u8 list \<Rightarrow> name_flash_t" where
  "name_of_bytes bs =
     \<lparr>dwUsingFlag = get32 bs 0, dwOffsetByByte = get32 bs 4, dwlength = get32 bs 8,
      ucName = take 52 (drop 12 bs)\<rparr>"

definition namespace_bytes :: "namespace_flash_t \<Rightarrow> u8 list" where
  "namespace_bytes e = le32 (ns_dwUsingFlag e) @ le32 (ns_dwOffsetByByte e) @ ucNamespace e"

definition namespace_of_bytes :: "u8 list \<Rightarrow> namespace_flash_t" where
  "namespace_of_bytes bs =
     \<lparr>ns_dwUsingFlag = get32 bs 0, ns_dwOffsetByByte = get32 bs 4, ucNamespace = take 56 (drop 8 bs)\<rparr>"

text \<open>The \<open>i\<close>-th structure of an array of 64 byte structures.\<close>

definition nth_name :: "u8 list \<Rightarrow> nat \<Rightarrow> name_flash_t" where
  "nth_name bs i = name_of_bytes (take 64 (drop (64 * i) bs))"

definition nth_namespace :: "u8 list \<Rightarrow> nat \<Rightarrow> namespace_flash_t" where
  "nth_namespace bs i = namespace_of_bytes (take 64 (drop (64 * i) bs))"

definition bk_strnlen :: "u8 list \<Rightarrow> nat \<Rightarrow> nat" where
  "bk_strnlen s n = (if n \<le> length s then n else length s)"

text \<open>A name written into a field of \<open>n\<close> bytes: cleared, then the first \<open>n - 1\<close> bytes at most.\<close>

definition put_name :: "nat \<Rightarrow> u8 list \<Rightarrow> u8 list" where
  "put_name n s = take (bk_strnlen s (n - 1)) s @ replicate (n - bk_strnlen s (n - 1)) 0"

subsection \<open>Flash access\<close>

text \<open>
  Every function brackets its flash accesses with the same calls: read the protection level,
  set \<open>FLASH_PROTECT_NONE\<close>, work, put the level back.
\<close>

definition unprotected :: "flash_dev \<Rightarrow> (flash_dev \<Rightarrow> ('a \<times> flash_dev) option) \<Rightarrow> ('a \<times> flash_dev) option" where
  "unprotected d body =
     do {
       (d0, protect_flag) \<leftarrow> bk_flash_get_security d;
       d1 \<leftarrow> bk_flash_enable_security d0 FLASH_PROTECT_NONE;
       (r, d2) \<leftarrow> body d1;
       d3 \<leftarrow> bk_flash_enable_security d2 protect_flag;
       Some (r, d3) }"

definition dd_erase_sector :: "flash_dev \<Rightarrow> u32 \<Rightarrow> flash_dev option" where
  "dd_erase_sector d a = map_option fst (flash_ctrl d (CMD_FLASH_ERASE_SECTOR a))"

subsection \<open>Layout\<close>

definition chip_factory :: "u8 list" where "chip_factory = cstr ''chip-factory''"
definition chip_config :: "u8 list" where "chip_config = cstr ''chip-config''"
definition chip_counters :: "u8 list" where "chip_counters = cstr ''chip-counters''"

definition matter_partition :: "u8 list \<Rightarrow> bk_partition_t" where
  "matter_partition ucnamespace =
     (if ucnamespace = chip_factory then BK_PARTITION_MATTER_FACTORY_FLASH else BK_PARTITION_MATTER_FLASH)"

definition get_matter_flash_base_addr :: "part_table \<Rightarrow> u8 list \<Rightarrow> u32 option" where
  "get_matter_flash_base_addr pt ucnamespace =
     map_option partition_start_addr (bk_flash_get_info pt (matter_partition ucnamespace))"

text \<open>The error value \<open>-1\<close> is returned as an 8 bit count.\<close>

definition get_falsh_name_space_max_array :: "part_table \<Rightarrow> u8 list \<Rightarrow> u8" where
  "get_falsh_name_space_max_array pt ucnamespace =
     (case bk_flash_get_info pt (matter_partition ucnamespace) of
        None \<Rightarrow> 0xFF
      | Some partition_info \<Rightarrow> ucast (partition_length partition_info div FLASH_SECTOR_SIZE div 2))"

abbreviation ns_max :: "part_table \<Rightarrow> u8 list \<Rightarrow> nat" where
  "ns_max pt ucnamespace \<equiv> unat (get_falsh_name_space_max_array pt ucnamespace)"

definition NAME_SPACE_FLASH_ACTUAL_USE_SIZE :: "part_table \<Rightarrow> u8 list \<Rightarrow> u32" where
  "NAME_SPACE_FLASH_ACTUAL_USE_SIZE pt ns = 64 * ucast (get_falsh_name_space_max_array pt ns)"

definition NAME_FLASH_TOTAL_HEADER :: "part_table \<Rightarrow> u8 list \<Rightarrow> u32" where
  "NAME_FLASH_TOTAL_HEADER pt ns =
     NAME_SPACE_FLASH_TOTAL_SIZE + NAME_FLASH_TOTAL_SIZE * ucast (get_falsh_name_space_max_array pt ns)"

definition NAME_FLASH_DATA_BASE_ADDR :: "part_table \<Rightarrow> u8 list \<Rightarrow> u32" where
  "NAME_FLASH_DATA_BASE_ADDR pt ns =
     (if NAME_FLASH_TOTAL_HEADER pt ns AND 0xFFF \<noteq> 0
      then (NAME_FLASH_TOTAL_HEADER pt ns AND NOT 0xFFF) + 0x1000
      else NAME_FLASH_TOTAL_HEADER pt ns AND NOT 0xFFF)"

text \<open>
  \<open>change_namespace_to_beken\<close> returns its status and the two strings; \<open>None\<close> when it
  dereferences the missing name or when the concatenation does not fit the 64 byte buffer.
\<close>

definition change_namespace_to_beken ::
  "u8 list \<Rightarrow> u8 list option \<Rightarrow> nat \<Rightarrow> (OSStatus \<times> u8 list \<times> u8 list option) option" where
  "change_namespace_to_beken ns name buf_len =
     (if ns = chip_config \<or> ns = chip_counters
      then (case name of
              None \<Rightarrow> None
            | Some nm \<Rightarrow>
                if buf_len < length ns + length nm then Some (kGeneralErr, ns, name)
                else if buf_len < length ns + 1 + length nm + 1 then None
                else Some (kNoErr, cstr (if ns = chip_config then ''BEKEN0'' else ''BEKEN1''),
                           Some (ns @ cstr ''.'' @ nm)))
      else Some (kNoErr, ns, name))"

subsection \<open>Lookup\<close>

definition namespace_match :: "u8 list \<Rightarrow> u8 list \<Rightarrow> nat \<Rightarrow> bool" where
  "namespace_match arr ucnamespace i \<longleftrightarrow>
     ns_dwUsingFlag (nth_namespace arr i) = FLASH_SPACE_USING \<and>
     (let n = bk_strnlen ucnamespace 55 in
      take n (ucNamespace (nth_namespace arr i)) = take n ucnamespace) \<and>
     c_strlen (drop (64 * i + 8) arr) = length ucnamespace"

definition get_namespace_addr ::
  "part_table \<Rightarrow> (nat \<Rightarrow> bool) \<Rightarrow> flash_dev \<Rightarrow> u8 list \<Rightarrow> u32
     \<Rightarrow> ((u32 \<times> u32) option \<times> flash_dev) option" where
  "get_namespace_addr pt mal d ucnamespace np_base_addr =
     (let sz = NAME_SPACE_FLASH_ACTUAL_USE_SIZE pt ucnamespace in
      if \<not> mal (unat sz) then Some (None, d)
      else do {
        (arr, d1) \<leftarrow> unprotected d (\<lambda>d. Some (flash_read d sz np_base_addr, d));
        Some (map_option (\<lambda>i. (ns_dwOffsetByByte (nth_namespace arr i), of_nat i))
                (find (namespace_match arr ucnamespace) [0..<ns_max pt ucnamespace]), d1) })"

definition name_match :: "u8 list \<Rightarrow> u8 list \<Rightarrow> nat \<Rightarrow> bool" where
  "name_match arr ucname i \<longleftrightarrow>
     dwUsingFlag (nth_name arr i) = FLASH_SPACE_USING \<and>
     (let n = bk_strnlen ucname 51 in take n (ucName (nth_name arr i)) = take n ucname) \<and>
     c_strlen (drop (64 * i + 12) arr) = length ucname"

definition get_name_addr ::
  "(nat \<Rightarrow> bool) \<Rightarrow> flash_dev \<Rightarrow> u8 list \<Rightarrow> u32 \<Rightarrow> ((u32 \<times> u32) option \<times> flash_dev) option" where
  "get_name_addr mal d ucname base_addr =
     (if \<not> mal (unat NAME_FLASH_TOTAL_SIZE) then Some (None, d)
      else do {
        (arr, d1) \<leftarrow> unprotected d (\<lambda>d. Some (flash_read d NAME_FLASH_TOTAL_SIZE base_addr, d));
        Some (map_option (\<lambda>i. (of_nat i * PER_NAME_FLASH_SIZE, dwOffsetByByte (nth_name arr i)))
                (find (name_match arr ucname) [0..<FLASH_NAME_MAX_ARRAY]), d1) })"

subsection \<open>Writing a value\<close>

text \<open>
  The copy loop of \<open>bk_reorganize_name_data\<close>: it writes back the live entries of \<open>name_temp\<close> and
  their data, from entry \<open>i\<close> on; \<open>off\<close> is the data written so far, \<open>k\<close> the entries written.
\<close>

function reorganize_loop ::
  "flash_dev \<Rightarrow> u8 list \<Rightarrow> u8 list \<Rightarrow> nat \<Rightarrow> u32 \<Rightarrow> u32 \<Rightarrow> u32
     \<Rightarrow> (flash_dev \<times> u32 \<times> u32 \<times> u32) option" where
  "reorganize_loop d name_temp databuf i dw_data_addr dw_name_addr dw_offset =
     (if i < FLASH_NAME_MAX_ARRAY
      then (let e = nth_name name_temp i in
            if dwUsingFlag e = FLASH_SPACE_USING
            then do {
              d1 \<leftarrow> flash_write d (drop (unat (dwOffsetByByte e)) databuf) (dwlength e) dw_data_addr;
              d2 \<leftarrow> flash_write d1 (name_bytes (e\<lparr>dwOffsetByByte := dw_offset\<rparr>)) PER_NAME_FLASH_SIZE dw_name_addr;
              reorganize_loop d2 name_temp databuf (i + 1)
                (dw_data_addr + dwlength e) (dw_name_addr + PER_NAME_FLASH_SIZE) (dw_offset + dwlength e) }
            else reorganize_loop d name_temp databuf (i + 1)
                   dw_data_addr dw_name_addr dw_offset)
      else Some (d, dw_data_addr, dw_name_addr, dw_offset))"
  by pat_completeness auto
termination
  by (relation "measure (\<lambda>(d, nt, db, i, da, na, off). FLASH_NAME_MAX_ARRAY - i)") auto

declare reorganize_loop.simps [simp del]

definition bk_reorganize_name_data ::
  "flash_dev \<Rightarrow> u32 \<Rightarrow> u8 list \<Rightarrow> u8 list \<Rightarrow> u32 \<Rightarrow> u8 list \<Rightarrow> u32 \<Rightarrow> name_flash_t
     \<Rightarrow> (OSStatus \<times> flash_dev) option" where
  "bk_reorganize_name_data d n_base_addr name_temp databuf data_sector_addr indata dw_data_len name_data =
     unprotected d (\<lambda>d. do {
       d1 \<leftarrow> dd_erase_sector d n_base_addr;
       d2 \<leftarrow> dd_erase_sector d1 data_sector_addr;
       (d3, dw_data_addr, dw_name_addr, dw_offset) \<leftarrow>
         reorganize_loop d2 name_temp databuf 0 data_sector_addr n_base_addr 0;
       if FLASH_SECTOR_SIZE \<le> dw_offset + dw_data_len then Some (kGeneralErr, d3)
       else do {
         d4 \<leftarrow> flash_write d3 indata dw_data_len dw_data_addr;
         d5 \<leftarrow> flash_write d4
                (name_bytes (name_data\<lparr>dwlength := dw_data_len, dwOffsetByByte := dw_offset,
                                       dwUsingFlag := FLASH_SPACE_USING\<rparr>))
                PER_NAME_FLASH_SIZE dw_name_addr;
         Some (kNoErr, d5) } })"

text \<open>
  The search of \<open>bk_set_name_data_new_addr\<close> for the first entry that is neither in use nor
  masked: the index (64 if there is none), the end of the data of the entries before it, and
  the number of masked entries.
\<close>

function slot_loop :: "u8 list \<Rightarrow> nat \<Rightarrow> u32 \<Rightarrow> nat \<Rightarrow> nat \<times> u32 \<times> nat" where
  "slot_loop name_temp i data_offset_addr dw_mask_count =
     (if i < FLASH_NAME_MAX_ARRAY
      then (let e = nth_name name_temp i in
            if dwUsingFlag e \<noteq> FLASH_SPACE_USING \<and> dwUsingFlag e \<noteq> FLASH_SPACE_MASK
            then (i, data_offset_addr, dw_mask_count)
            else slot_loop name_temp (i + 1) (dwOffsetByByte e + dwlength e)
                   (if dwUsingFlag e = FLASH_SPACE_MASK then dw_mask_count + 1 else dw_mask_count))
      else (i, data_offset_addr, dw_mask_count))"
  by pat_completeness auto
termination by (relation "measure (\<lambda>(nt, i, off, n). FLASH_NAME_MAX_ARRAY - i)") auto

declare slot_loop.simps [simp del]

definition bk_set_name_data_new_addr ::
  "(nat \<Rightarrow> bool) \<Rightarrow> flash_dev \<Rightarrow> u32 \<Rightarrow> u32 \<Rightarrow> u8 list \<Rightarrow> u32 \<Rightarrow> name_flash_t
     \<Rightarrow> (OSStatus \<times> flash_dev) option" where
  "bk_set_name_data_new_addr mal d data_sector_addr base_addr indata dw_data_len name_data =
     (if \<not> (mal (unat NAME_FLASH_TOTAL_SIZE) \<and> mal (unat FLASH_SECTOR_SIZE)) then Some (kGeneralErr, d)
      else unprotected d (\<lambda>d.
        let name_temp = flash_read d NAME_FLASH_TOTAL_SIZE base_addr;
            (dw_loop, data_offset_addr, dw_mask_count) = slot_loop name_temp 0 0 0;
            data_buff = flash_read d FLASH_SECTOR_SIZE data_sector_addr in
        if dw_loop < FLASH_NAME_MAX_ARRAY then
          (if FLASH_SECTOR_SIZE \<le> data_offset_addr + dw_data_len
           then bk_reorganize_name_data d base_addr name_temp data_buff data_sector_addr indata dw_data_len name_data
           else do {
             d1 \<leftarrow> flash_write d indata dw_data_len (data_sector_addr + data_offset_addr);
             d2 \<leftarrow> flash_write d1
                    (name_bytes (name_data\<lparr>dwlength := dw_data_len, dwOffsetByByte := data_offset_addr,
                                           dwUsingFlag := FLASH_SPACE_USING\<rparr>))
                    PER_NAME_FLASH_SIZE (base_addr + of_nat dw_loop * PER_NAME_FLASH_SIZE);
             Some (kNoErr, d2) })
        else if 0 < dw_mask_count
        then bk_reorganize_name_data d base_addr name_temp data_buff data_sector_addr indata dw_data_len name_data
        else Some (kGeneralErr, d)))"

definition bk_set_namespace ::
  "part_table \<Rightarrow> (nat \<Rightarrow> bool) \<Rightarrow> flash_dev \<Rightarrow> u8 list \<Rightarrow> u32
     \<Rightarrow> ((u32 \<times> u32) option \<times> flash_dev) option" where
  "bk_set_namespace pt mal d ucnamespace np_base_addr =
     (let sz = NAME_SPACE_FLASH_ACTUAL_USE_SIZE pt ucnamespace in
      if \<not> mal (unat sz) then Some (None, d)
      else unprotected d (\<lambda>d.
        let arr = flash_read d sz np_base_addr in
        case find (\<lambda>i. ns_dwUsingFlag (nth_namespace arr i) \<noteq> FLASH_SPACE_USING)
               [0..<ns_max pt ucnamespace] of
          None \<Rightarrow> Some (None, d)
        | Some i \<Rightarrow>
            (let e = \<lparr>ns_dwUsingFlag = FLASH_SPACE_USING,
                      ns_dwOffsetByByte = of_nat i * NAME_FLASH_TOTAL_SIZE + NAME_SPACE_FLASH_TOTAL_SIZE,
                      ucNamespace = put_name 56 ucnamespace\<rparr> in
             map_option (\<lambda>d1. (Some (ns_dwOffsetByByte e, of_nat i), d1))
               (flash_write d (namespace_bytes e) PER_NAME_SPACE_FLASH_SIZE
                  (np_base_addr + of_nat i * PER_NAME_SPACE_FLASH_SIZE)))))"

text \<open>The stored value is read into a buffer of 2048 bytes on the stack.\<close>

definition bk_set_name_data ::
  "part_table \<Rightarrow> (nat \<Rightarrow> bool) \<Rightarrow> flash_dev \<Rightarrow> u8 list \<Rightarrow> u8 list \<Rightarrow> u32 \<Rightarrow> u8 list \<Rightarrow> u32 \<Rightarrow> u32 \<Rightarrow> u32
     \<Rightarrow> (OSStatus \<times> flash_dev) option" where
  "bk_set_name_data pt mal d ucnamespace ucname np_base_addr indata dw_data_len dw_n_offset_addr dw_offset_block =
     (let dw_sec_addr = np_base_addr + dw_n_offset_addr;
          data_sector = np_base_addr + dw_offset_block * FLASH_SECTOR_SIZE
                          + NAME_FLASH_DATA_BASE_ADDR pt ucnamespace in
      do {
        (found, d1) \<leftarrow> get_name_addr mal d ucname dw_sec_addr;
        (case found of
           Some (dw_offset_addr, dw_data_offset_addr) \<Rightarrow>
             unprotected d1 (\<lambda>d.
               let name_temp = name_of_bytes (flash_read d 64 (dw_sec_addr + dw_offset_addr));
                   dw_actual_addr = data_sector + dw_data_offset_addr;
                   data_buf = flash_read d (dwlength name_temp) dw_actual_addr;
                   rewrite = (do {
                     d1 \<leftarrow> flash_write d (name_bytes (name_temp\<lparr>dwUsingFlag := FLASH_SPACE_MASK\<rparr>)) 64
                            (dw_sec_addr + dw_offset_addr);
                     bk_set_name_data_new_addr mal d1 (dw_actual_addr - dw_data_offset_addr) dw_sec_addr
                       indata dw_data_len (name_of_bytes (flash_read d1 64 (dw_sec_addr + dw_offset_addr))) }) in
               if 2048 < dwlength name_temp then None
               else if dwlength name_temp \<noteq> dw_data_len then rewrite
               else if length indata < unat dw_data_len then None
               else if data_buf \<noteq> take (unat dw_data_len) indata then rewrite
               else Some (kNoErr, d))
         | None \<Rightarrow>
             bk_set_name_data_new_addr mal d1 data_sector dw_sec_addr indata dw_data_len
               \<lparr>dwUsingFlag = FLASH_SPACE_USING, dwOffsetByByte = 0, dwlength = dw_data_len,
                ucName = put_name 52 ucname\<rparr>) })"

subsection \<open>The interface\<close>

definition bk_write_data ::
  "part_table \<Rightarrow> (nat \<Rightarrow> bool) \<Rightarrow> flash_dev \<Rightarrow> u8 list option \<Rightarrow> u8 list option \<Rightarrow> u8 list option \<Rightarrow> u32
     \<Rightarrow> (OSStatus \<times> flash_dev) option" where
  "bk_write_data pt mal d ucnamespace ucname indata data_size =
     (case ucnamespace of None \<Rightarrow> Some (kGeneralErr, d) | Some ns0 \<Rightarrow>
      if ns0 = chip_factory then Some (kGeneralErr, d) else
      case ucname of None \<Rightarrow> Some (kGeneralErr, d) | Some name0 \<Rightarrow>
      case indata of None \<Rightarrow> Some (kGeneralErr, d) | Some bs \<Rightarrow>
      do {
        (_, ns, name) \<leftarrow> change_namespace_to_beken ns0 (Some name0) 64;
        (case get_matter_flash_base_addr pt ns of
           None \<Rightarrow> Some (kGeneralErr, d)
         | Some np_base_addr \<Rightarrow>
             do {
               (found, d1) \<leftarrow> get_namespace_addr pt mal d ns np_base_addr;
               (place, d2) \<leftarrow> (case found of
                   Some x \<Rightarrow> Some (Some x, d1)
                 | None \<Rightarrow> bk_set_namespace pt mal d1 ns np_base_addr);
               (case place of
                  None \<Rightarrow> Some (kGeneralErr, d2)
                | Some (dw_offset_addr, dw_off_block) \<Rightarrow>
                    bk_set_name_data pt mal d2 ns (the name) np_base_addr bs data_size
                      dw_offset_addr dw_off_block) }) })"

definition bk_read_data ::
  "part_table \<Rightarrow> (nat \<Rightarrow> bool) \<Rightarrow> flash_dev \<Rightarrow> u8 list option \<Rightarrow> u8 list option \<Rightarrow> u32
     \<Rightarrow> ((OSStatus \<times> u8 list) \<times> flash_dev) option" where
  "bk_read_data pt mal d ucnamespace ucname dw_read_len =
     (case ucnamespace of None \<Rightarrow> Some ((kGeneralErr, []), d) | Some ns0 \<Rightarrow>
      case ucname of None \<Rightarrow> Some ((kGeneralErr, []), d) | Some name0 \<Rightarrow>
      do {
        (_, ns, name) \<leftarrow> change_namespace_to_beken ns0 (Some name0) 64;
        (case get_matter_flash_base_addr pt ns of
           None \<Rightarrow> Some ((kGeneralErr, []), d)
         | Some np_base_addr \<Rightarrow>
             do {
               (found, d1) \<leftarrow> get_namespace_addr pt mal d ns np_base_addr;
               (case found of
                  None \<Rightarrow> Some ((kGeneralErr, []), d1)
                | Some (dw_offset_addr, dw_off_block) \<Rightarrow>
                    (let dw_sec_base_addr = np_base_addr + dw_offset_addr in
                     do {
                       (found2, d2) \<leftarrow> get_name_addr mal d1 (the name) dw_sec_base_addr;
                       (case found2 of
                          None \<Rightarrow> Some ((kGeneralErr, []), d2)
                        | Some (off, dw_data_offset_addr) \<Rightarrow>
                            unprotected d2 (\<lambda>d.
                              let name_temp = name_of_bytes (flash_read d 64 (dw_sec_base_addr + off));
                                  dw_actual_len = (if dwlength name_temp < dw_read_len
                                                   then dwlength name_temp else dw_read_len);
                                  dw_data_addr = np_base_addr + dw_off_block * FLASH_SECTOR_SIZE
                                    + NAME_FLASH_DATA_BASE_ADDR pt ns + dw_data_offset_addr in
                              Some ((kNoErr, flash_read d dw_actual_len dw_data_addr), d))) })) }) })"

text \<open>
  \<open>bk_clean_data\<close> puts back a protection level that it has only read when the name was found:
  otherwise it sets the level 0, \<open>FLASH_PROTECT_NONE\<close>.
\<close>

definition bk_clean_data ::
  "part_table \<Rightarrow> (nat \<Rightarrow> bool) \<Rightarrow> flash_dev \<Rightarrow> u8 list option \<Rightarrow> u8 list option
     \<Rightarrow> (OSStatus \<times> flash_dev) option" where
  "bk_clean_data pt mal d ucnamespace ucname =
     (case ucnamespace of None \<Rightarrow> Some (kGeneralErr, d) | Some ns0 \<Rightarrow>
      if ns0 = chip_factory then Some (kGeneralErr, d) else
      case ucname of None \<Rightarrow> Some (kGeneralErr, d) | Some name0 \<Rightarrow>
      do {
        (_, ns, name) \<leftarrow> change_namespace_to_beken ns0 (Some name0) 64;
        (case get_matter_flash_base_addr pt ns of
           None \<Rightarrow> Some (kGeneralErr, d)
         | Some np_base_addr \<Rightarrow>
             do {
               (found, d1) \<leftarrow> get_namespace_addr pt mal d ns np_base_addr;
               (case found of
                  None \<Rightarrow> map_option (\<lambda>d'. (kGeneralErr, d')) (bk_flash_enable_security d1 FLASH_PROTECT_NONE)
                | Some (dw_offset_addr, dw_off_block) \<Rightarrow>
                    do {
                      (found2, d2) \<leftarrow> get_name_addr mal d1 (the name) (np_base_addr + dw_offset_addr);
                      (case found2 of
                         None \<Rightarrow>
                           map_option (\<lambda>d'. (kGeneralErr, d')) (bk_flash_enable_security d2 FLASH_PROTECT_NONE)
                       | Some (dw_name_offset, dw_data_offset_addr) \<Rightarrow>
                           unprotected d2 (\<lambda>d.
                             map_option (\<lambda>d'. (kNoErr, d'))
                               (flash_write d (le32 FLASH_SPACE_MASK) 4
                                  (np_base_addr + dw_offset_addr + dw_name_offset)))) }) }) })"

definition bk_erase_name_data :: "flash_dev \<Rightarrow> u32 \<Rightarrow> u32 \<Rightarrow> (OSStatus \<times> flash_dev) option" where
  "bk_erase_name_data d n_base_addr data_sector_addr =
     unprotected d (\<lambda>d. do {
       d1 \<leftarrow> dd_erase_sector d n_base_addr;
       d2 \<leftarrow> dd_erase_sector d1 data_sector_addr;
       Some (kNoErr, d2) })"

fun restore_loop :: "flash_dev \<Rightarrow> u8 list \<Rightarrow> nat \<Rightarrow> u32 \<Rightarrow> nat list \<Rightarrow> flash_dev option" where
  "restore_loop d arr skip np_base_addr [] = Some d"
| "restore_loop d arr skip np_base_addr (i # is) =
     (if i \<noteq> skip \<and> ns_dwUsingFlag (nth_namespace arr i) = FLASH_SPACE_USING
      then do {
        d1 \<leftarrow> flash_write d (namespace_bytes (nth_namespace arr i)) PER_NAME_SPACE_FLASH_SIZE
               (np_base_addr + of_nat i * PER_NAME_SPACE_FLASH_SIZE);
        restore_loop d1 arr skip np_base_addr is }
      else restore_loop d arr skip np_base_addr is)"

definition bK_clear_namespace ::
  "part_table \<Rightarrow> (nat \<Rightarrow> bool) \<Rightarrow> flash_dev \<Rightarrow> u8 list option \<Rightarrow> (OSStatus \<times> flash_dev) option" where
  "bK_clear_namespace pt mal d ucnamespace =
     (case ucnamespace of None \<Rightarrow> Some (kGeneralErr, d) | Some ns \<Rightarrow>
      if ns = chip_factory \<or> ns = chip_config \<or> ns = chip_counters then Some (kGeneralErr, d) else
      case get_matter_flash_base_addr pt ns of None \<Rightarrow> Some (kGeneralErr, d) | Some np_base_addr \<Rightarrow>
      let sz = NAME_SPACE_FLASH_ACTUAL_USE_SIZE pt ns in
      if \<not> mal (unat sz) then Some (kGeneralErr, d) else
      do {
        (found, d1) \<leftarrow> get_namespace_addr pt mal d ns np_base_addr;
        (case found of
           None \<Rightarrow> Some (kGeneralErr, d1)
         | Some (_, dw_off_block) \<Rightarrow>
             unprotected d1 (\<lambda>d.
               let arr = flash_read d sz np_base_addr;
                   dw_start_addr = np_base_addr + NAME_SPACE_FLASH_TOTAL_SIZE + dw_off_block * NAME_FLASH_TOTAL_SIZE;
                   data_sector_addr = np_base_addr + dw_off_block * FLASH_SECTOR_SIZE + NAME_FLASH_DATA_BASE_ADDR pt ns in
               do {
                 (_, d2) \<leftarrow> bk_erase_name_data d dw_start_addr data_sector_addr;
                 d3 \<leftarrow> dd_erase_sector d2 np_base_addr;
                 d4 \<leftarrow> restore_loop d3 arr (unat dw_off_block) np_base_addr [0..<ns_max pt ns];
                 Some (kNoErr, d4) })) })"

definition bk_ensure_namespace ::
  "part_table \<Rightarrow> (nat \<Rightarrow> bool) \<Rightarrow> flash_dev \<Rightarrow> u8 list option \<Rightarrow> (OSStatus \<times> flash_dev) option" where
  "bk_ensure_namespace pt mal d ucnamespace =
     (case ucnamespace of None \<Rightarrow> Some (kGeneralErr, d) | Some ns0 \<Rightarrow>
      do {
        (_, ns, _) \<leftarrow> change_namespace_to_beken ns0 None 64;
        (case get_matter_flash_base_addr pt ns of
           None \<Rightarrow> Some (kGeneralErr, d)
         | Some np_base_addr \<Rightarrow>
             do {
               (found, d1) \<leftarrow> get_namespace_addr pt mal d ns np_base_addr;
               (case found of
                  Some _ \<Rightarrow> Some (kNoErr, d1)
                | None \<Rightarrow>
                    map_option (\<lambda>(place, d2). (if place = None then kGeneralErr else kNoErr, d2))
                      (bk_set_namespace pt mal d1 ns np_base_addr)) }) })"

definition bk_ensure_name_data ::
  "part_table \<Rightarrow> (nat \<Rightarrow> bool) \<Rightarrow> flash_dev \<Rightarrow> u8 list option \<Rightarrow> u8 list option
     \<Rightarrow> (OSStatus \<times> flash_dev) option" where
  "bk_ensure_name_data pt mal d ucnamespace ucname =
     (case ucnamespace of None \<Rightarrow> Some (kGeneralErr, d) | Some ns0 \<Rightarrow>
      do {
        (_, ns, name) \<leftarrow> change_namespace_to_beken ns0 ucname 64;
        (case get_matter_flash_base_addr pt ns of
           None \<Rightarrow> Some (kGeneralErr, d)
         | Some np_base_addr \<Rightarrow>
             do {
               (found, d1) \<leftarrow> get_namespace_addr pt mal d ns np_base_addr;
               (case (found, name) of
                  (Some (dw_offset_addr, _), Some nm) \<Rightarrow>
                    map_option (\<lambda>(r, d2). (if r = None then kGeneralErr else kNoErr, d2))
                      (get_name_addr mal d1 nm (np_base_addr + dw_offset_addr))
                | _ \<Rightarrow> Some (kGeneralErr, d1)) }) })"

primrec erase_sectors :: "nat \<Rightarrow> flash_dev \<Rightarrow> u32 \<Rightarrow> flash_dev option" where
  "erase_sectors 0 d operation_addr = Some d"
| "erase_sectors (Suc n) d operation_addr =
     do { d1 \<leftarrow> dd_erase_sector d operation_addr;
          erase_sectors n d1 (operation_addr + NAME_SPACE_FLASH_TOTAL_SIZE) }"

definition bk_erase_all :: "part_table \<Rightarrow> flash_dev \<Rightarrow> bk_partition_t \<Rightarrow> (OSStatus \<times> flash_dev) option" where
  "bk_erase_all pt d type =
     (case bk_flash_get_info pt type of
        None \<Rightarrow> Some (kGeneralErr, d)
      | Some info \<Rightarrow>
          unprotected d (\<lambda>d. map_option (\<lambda>d'. (kNoErr, d'))
            (erase_sectors (unat (partition_length info div NAME_SPACE_FLASH_TOTAL_SIZE)) d
               (partition_start_addr info))))"

subsection \<open>Over-the-air image\<close>

definition bk_write_ota_data_to_flash ::
  "part_table \<Rightarrow> flash_dev \<Rightarrow> u8 list option \<Rightarrow> u32 \<Rightarrow> u32 \<Rightarrow> (OSStatus \<times> flash_dev) option" where
  "bk_write_ota_data_to_flash pt d indata data_offset_addr data_length =
     (case indata of None \<Rightarrow> Some (kGeneralErr, d) | Some bs \<Rightarrow>
      case bk_flash_get_info pt BK_PARTITION_OTA of None \<Rightarrow> Some (kGeneralErr, d) | Some info \<Rightarrow>
      unprotected d (\<lambda>d. map_option (\<lambda>d'. (kNoErr, d'))
        (flash_write d bs data_length (partition_start_addr info + data_offset_addr))))"

definition bk_read_ota_data_in_flash :: "part_table \<Rightarrow> flash_dev \<Rightarrow> u32 \<Rightarrow> u32 \<Rightarrow> u8 list \<times> OSStatus" where
  "bk_read_ota_data_in_flash pt d data_offset_addr data_length =
     bk_flash_read pt d BK_PARTITION_OTA data_offset_addr data_length"

definition bk_erase_ota_data_in_flash :: "part_table \<Rightarrow> flash_dev \<Rightarrow> (OSStatus \<times> flash_dev) option" where
  "bk_erase_ota_data_in_flash pt d = bk_erase_all pt d BK_PARTITION_OTA"

definition bk_erase_ota_data_in_flash_per_sector ::
  "part_table \<Rightarrow> flash_dev \<Rightarrow> u32 \<Rightarrow> (OSStatus \<times> flash_dev) option" where
  "bk_erase_ota_data_in_flash_per_sector pt d dw_offaddr =
     (case bk_flash_get_info pt BK_PARTITION_OTA of
        None \<Rightarrow> Some (kGeneralErr, d)
      | Some info \<Rightarrow>
          unprotected d (\<lambda>d. map_option (\<lambda>d'. (kNoErr, d'))
            (dd_erase_sector d (partition_start_addr info + dw_offaddr))))"

end
