(* ===== verification/KvRep.thy ===== *)
theory KvRep
  imports KeyValue
begin

text \<open>
  The logical content of a namespace block and its representation in the flash array: the list
  of the entries written since the last reorganisation, live or masked, in order.  The lemmas
  show how the lookups and the three ways of writing (append, mask, erase) act on it.
\<close>

subsection \<open>Entries\<close>

type_synonym entry = "bool \<times> u8 list \<times> u8 list"

abbreviation live :: "entry \<Rightarrow> bool" where "live e \<equiv> fst e"
abbreviation nm_of :: "entry \<Rightarrow> u8 list" where "nm_of e \<equiv> fst (snd e)"
abbreviation val_of :: "entry \<Rightarrow> u8 list" where "val_of e \<equiv> snd (snd e)"

definition data_of :: "entry list \<Rightarrow> u8 list" where "data_of es = concat (map val_of es)"

definition entry_rec :: "nat \<Rightarrow> entry \<Rightarrow> name_flash_t" where
  "entry_rec off e =
     \<lparr>dwUsingFlag = (if live e then FLASH_SPACE_USING else FLASH_SPACE_MASK),
      dwOffsetByByte = of_nat off, dwlength = of_nat (length (val_of e)),
      ucName = put_name 52 (nm_of e)\<rparr>"

definition enc_entry :: "nat \<Rightarrow> entry \<Rightarrow> u8 list" where
  "enc_entry off e = name_bytes (entry_rec off e)"

fun enc_table :: "nat \<Rightarrow> entry list \<Rightarrow> u8 list" where
  "enc_table off [] = []"
| "enc_table off (e # es) = enc_entry off e @ enc_table (off + length (val_of e)) es"

definition good_name :: "u8 list \<Rightarrow> bool" where
  "good_name s \<longleftrightarrow> length s \<le> 51 \<and> 0 \<notin> set s"

lemma data_of_simps [simp]:
  "data_of [] = []" "data_of (e # es) = val_of e @ data_of es" "data_of (xs @ ys) = data_of xs @ data_of ys"
  by (simp_all add: data_of_def)

lemma length_put_name: "0 < n \<Longrightarrow> length (put_name n s) = n"
  by (auto simp: put_name_def bk_strnlen_def)

lemma length_enc_entry [simp]: "length (enc_entry off e) = 64"
  by (simp add: enc_entry_def name_bytes_def entry_rec_def length_put_name)

lemma length_enc_table [simp]: "length (enc_table off es) = 64 * length es"
  by (induction es arbitrary: off) auto

lemma enc_table_append:
  "enc_table off (xs @ ys) = enc_table off xs @ enc_table (off + length (data_of xs)) ys"
  by (induction xs arbitrary: off) (auto simp: add.assoc)

lemma name_of_name_bytes: "length (ucName e) = 52 \<Longrightarrow> name_of_bytes (name_bytes e @ r) = e"
proof -
  assume l: "length (ucName e) = 52"
  have g4: "get32 (le32 a @ xs) 4 = get32 xs 0" for a xs
    using get32_append_right [of "le32 a" 4 xs 0] by simp
  have g8: "get32 (le32 a @ le32 b @ xs) 8 = get32 xs 0" for a b xs
    using get32_append_right [of "le32 a @ le32 b" 8 xs 0] by simp
  show ?thesis
    using l by (simp add: name_of_bytes_def name_bytes_def g4 g8)
qed

lemma nth_name_table:
  assumes "i < length es"
  shows "nth_name (enc_table off es @ r) i = entry_rec (off + length (data_of (take i es))) (es ! i)"
proof -
  have es: "es = take i es @ es ! i # drop (Suc i) es" using assms by (rule id_take_nth_drop)
  let ?o = "off + length (data_of (take i es))"
  have "enc_table off es = enc_table off (take i es) @ enc_entry ?o (es ! i) @
      enc_table (?o + length (val_of (es ! i))) (drop (Suc i) es)"
    by (subst es, subst enc_table_append) simp
  then have "take 64 (drop (64 * i) (enc_table off es @ r)) = enc_entry ?o (es ! i)"
    using assms by simp
  then show ?thesis
    using name_of_name_bytes [of "entry_rec ?o (es ! i)" "[]"]
    by (simp add: nth_name_def enc_entry_def entry_rec_def length_put_name)
qed

lemma get32_FF: "i + 4 \<le> n \<Longrightarrow> get32 (replicate n 0xFF) i = 0xFFFFFFFF"
  by (simp add: get32_def)

lemma nth_name_erased:
  assumes "length es \<le> i" "i < 64" "length t = 64 * length es"
  shows "dwUsingFlag (nth_name (t @ replicate (4096 - 64 * length es) 0xFF) i) = 0xFFFFFFFF"
proof -
  have "take 64 (drop (64 * i) (t @ replicate (4096 - 64 * length es) 0xFF)) = replicate 64 (0xFF :: u8)"
    using assms by simp
  then show ?thesis by (simp add: nth_name_def name_of_bytes_def get32_FF)
qed

lemma flags [simp]:
  "FLASH_SPACE_USING \<noteq> FLASH_SPACE_MASK" "FLASH_SPACE_MASK \<noteq> FLASH_SPACE_USING"
  "FLASH_SPACE_USING \<noteq> 0xFFFFFFFF" "FLASH_SPACE_MASK \<noteq> 0xFFFFFFFF"
  "0xFFFFFFFF \<noteq> FLASH_SPACE_USING" "0xFFFFFFFF \<noteq> FLASH_SPACE_MASK"
  by (simp_all add: FLASH_SPACE_USING_def FLASH_SPACE_MASK_def)

lemma entry_rec_select [simp]:
  "dwUsingFlag (entry_rec off e) = FLASH_SPACE_USING \<longleftrightarrow> live e"
  "dwUsingFlag (entry_rec off e) = FLASH_SPACE_MASK \<longleftrightarrow> \<not> live e"
  "dwOffsetByByte (entry_rec off e) = of_nat off"
  "dwlength (entry_rec off e) = of_nat (length (val_of e))"
  "ucName (entry_rec off e) = put_name 52 (nm_of e)"
  by (simp_all add: entry_rec_def)

subsection \<open>Matching a name\<close>

lemma put_name_good: "length s < n \<Longrightarrow> put_name n s = s @ replicate (n - length s) 0"
proof -
  assume "length s < n"
  moreover have "n \<le> length s + 1 \<Longrightarrow> length s < n \<Longrightarrow> n - length s = 1" by linarith
  ultimately show ?thesis
    by (cases "n - 1 \<le> length s") (simp_all add: put_name_def bk_strnlen_def)
qed

lemma strlen_table:
  assumes "i < length es" "good_name (nm_of (es ! i))"
  shows "c_strlen (drop (64 * i + 12) (enc_table off es @ r)) = length (nm_of (es ! i))"
proof -
  have es: "es = take i es @ es ! i # drop (Suc i) es" using assms(1) by (rule id_take_nth_drop)
  let ?o = "off + length (data_of (take i es))"
  have "enc_table off es = enc_table off (take i es) @ enc_entry ?o (es ! i) @
      enc_table (?o + length (val_of (es ! i))) (drop (Suc i) es)"
    by (subst es, subst enc_table_append) simp
  then have "drop (64 * i + 12) (enc_table off es @ r) =
      drop 12 (enc_entry ?o (es ! i)) @ enc_table (?o + length (val_of (es ! i))) (drop (Suc i) es) @ r"
    using assms(1) by simp
  also have "drop 12 (enc_entry ?o (es ! i)) = put_name 52 (nm_of (es ! i))"
    by (simp add: enc_entry_def name_bytes_def)
  also have "\<dots> = nm_of (es ! i) @ replicate (Suc (51 - length (nm_of (es ! i)))) 0"
  proof -
    have "52 - length (nm_of (es ! i)) = Suc (51 - length (nm_of (es ! i)))"
      using assms(2) by (simp only: good_name_def) linarith
    then show ?thesis using assms(2) by (simp only: put_name_good good_name_def)
  qed
  finally show ?thesis
    using assms(2) by (simp add: c_strlen_padded good_name_def del: replicate_Suc)
qed

lemma name_match_table:
  assumes good: "\<forall>e \<in> set es. good_name (nm_of e)" "good_name nm" and i: "i < 64" and es: "length es \<le> 64"
  shows "name_match (enc_table off es @ replicate (4096 - 64 * length es) 0xFF) nm i \<longleftrightarrow>
    i < length es \<and> live (es ! i) \<and> nm_of (es ! i) = nm"
proof (cases "i < length es")
  case True
  have g: "good_name (nm_of (es ! i))" using good(1) True by simp
  have n: "bk_strnlen nm 51 = length nm" using good(2) by (simp add: bk_strnlen_def good_name_def)
  have "take (length nm) (put_name 52 (nm_of (es ! i))) = nm \<and> length (nm_of (es ! i)) = length nm
      \<longleftrightarrow> nm_of (es ! i) = nm"
    using g by (auto simp: put_name_good good_name_def)
  moreover have "c_strlen (drop (64 * i + 12) (enc_table off es @ replicate (4096 - 64 * length es) 0xFF))
      = length (nm_of (es ! i))"
    by (rule strlen_table [OF True g])
  ultimately show ?thesis
    using True by (simp only: name_match_def nth_name_table n Let_def entry_rec_select) auto
next
  case False
  then show ?thesis
    using nth_name_erased [of es i "enc_table off es"] i es by (simp add: name_match_def)
qed


subsection \<open>Programming a slice\<close>

lemma slice_write_outside:
  "a + length bs \<le> b \<or> b + n \<le> a \<Longrightarrow> slice (nor_write m a bs) b n = slice m b n"
  by (intro slice_cong) (auto simp: nor_write_def)

lemma slice_erase_outside:
  "a + k \<le> b \<or> b + n \<le> a \<Longrightarrow> slice (nor_erase m a k) b n = slice m b n"
  by (intro slice_cong) (auto simp: nor_erase_def)

lemma slice_erase: "slice (nor_erase m a n) a n = replicate n 0xFF"
  by (simp add: slice_eq_list_iff nor_erase_def)

lemma slice_write_at:
  assumes "slice m A n = xs @ ys @ zs" "length bs = length ys"
  shows "slice (nor_write m (A + length xs) bs) A n = xs @ map2 (AND) ys bs @ zs"
proof (rule nth_equalityI)
  have n: "n = length xs + length ys + length zs"
    using arg_cong [OF assms(1), of length] by simp
  then show "length (slice (nor_write m (A + length xs) bs) A n) = length (xs @ map2 (AND) ys bs @ zs)"
    using assms(2) by simp
  fix i assume "i < length (slice (nor_write m (A + length xs) bs) A n)"
  then have i: "i < n" by simp
  have "m (A + i) = (xs @ ys @ zs) ! i" using nth_slice [OF i, of m A] assms(1) by simp
  then show "slice (nor_write m (A + length xs) bs) A n ! i = (xs @ map2 (AND) ys bs @ zs) ! i"
    using i n assms(2) by (auto simp: nor_write_def nth_append diff_diff_left)
qed

lemma map2_and_FF: "map2 (AND) (replicate (length bs) 0xFF) bs = (bs :: u8 list)"
  by (rule nth_equalityI) (simp_all add: and.commute)

lemma slice_write_erased:
  assumes "slice m A n = xs @ replicate j 0xFF" "length bs \<le> j"
  shows "slice (nor_write m (A + length xs) bs) A n = xs @ bs @ replicate (j - length bs) 0xFF"
proof -
  have "replicate j (0xFF :: u8) = replicate (length bs) 0xFF @ replicate (j - length bs) 0xFF"
    using assms(2) by (simp add: replicate_add [symmetric])
  then show ?thesis
    using slice_write_at [of m A n xs "replicate (length bs) 0xFF" "replicate (j - length bs) 0xFF" bs]
      assms(1) by (simp add: map2_and_FF)
qed

subsection \<open>Blocks\<close>

definition live_names :: "entry list \<Rightarrow> u8 list list" where
  "live_names es = map nm_of (filter live es)"

definition block_rep :: "(nat \<Rightarrow> u8) \<Rightarrow> nat \<Rightarrow> nat \<Rightarrow> entry list \<Rightarrow> bool" where
  "block_rep m T D es \<longleftrightarrow>
     length es \<le> 64 \<and> length (data_of es) < 4096 \<and> (\<forall>e \<in> set es. good_name (nm_of e)) \<and>
     distinct (live_names es) \<and>
     slice m T 4096 = enc_table 0 es @ replicate (4096 - 64 * length es) 0xFF \<and>
     slice m D 4096 = data_of es @ replicate (4096 - length (data_of es)) 0xFF"

definition block_get :: "entry list \<Rightarrow> u8 list \<Rightarrow> u8 list option" where
  "block_get es nm = map_option val_of (find (\<lambda>e. live e \<and> nm_of e = nm) es)"

definition append_entry :: "nat \<Rightarrow> nat \<Rightarrow> entry list \<Rightarrow> u8 list \<Rightarrow> u8 list \<Rightarrow> (nat \<Rightarrow> u8) \<Rightarrow> (nat \<Rightarrow> u8)" where
  "append_entry T D es nm v m =
     nor_write (nor_write m (D + length (data_of es)) v) (T + 64 * length es)
       (enc_entry (length (data_of es)) (True, nm, v))"

lemma block_rep_append:
  assumes rep: "block_rep m T D es" and disj: "T + 4096 \<le> D \<or> D + 4096 \<le> T"
    and "length es < 64" "length (data_of es) + length v < 4096" "good_name nm" "nm \<notin> set (live_names es)"
  shows "block_rep (append_entry T D es nm v m) T D (es @ [(True, nm, v)])"
proof -
  let ?o = "length (data_of es)"
  let ?m1 = "nor_write m (D + ?o) v" and ?e = "enc_entry ?o (True, nm, v)"
  have t: "slice m T 4096 = enc_table 0 es @ replicate (4096 - 64 * length es) 0xFF"
    and d: "slice m D 4096 = data_of es @ replicate (4096 - ?o) 0xFF"
    using rep by (simp_all add: block_rep_def)
  have "slice ?m1 D 4096 = data_of es @ v @ replicate (4096 - ?o - length v) 0xFF"
    using assms(4) by (intro slice_write_erased [OF d]) simp
  moreover have "slice ?m1 T 4096 = slice m T 4096"
    using disj assms(4) by (intro slice_write_outside) auto
  ultimately have m1: "slice ?m1 D 4096 = data_of es @ v @ replicate (4096 - ?o - length v) 0xFF"
    "slice ?m1 T 4096 = enc_table 0 es @ replicate (4096 - 64 * length es) 0xFF"
    using t by simp_all
  have "slice (nor_write ?m1 (T + length (enc_table 0 es)) ?e) T 4096 =
      enc_table 0 es @ ?e @ replicate (4096 - 64 * length es - length ?e) 0xFF"
    using assms(3) by (intro slice_write_erased [OF m1(2)]) simp
  moreover have "slice (nor_write ?m1 (T + 64 * length es) ?e) D 4096 = slice ?m1 D 4096"
    using disj assms(3) by (intro slice_write_outside) auto
  ultimately show ?thesis
    using rep assms m1 by (auto simp: block_rep_def append_entry_def enc_table_append live_names_def)
qed

lemma block_get_append:
  "nm \<notin> set (live_names es) \<Longrightarrow>
     block_get (es @ [(True, nm, v)]) n = (if n = nm then Some v else block_get es n)"
  by (induction es) (auto simp: block_get_def live_names_def split: if_splits)

text \<open>Masking the entry at an index.\<close>

definition mask_entry :: "entry \<Rightarrow> entry" where "mask_entry e = (False, snd e)"

lemma and_le32: "map2 (AND) (le32 a) (le32 b) = le32 (a AND b)"
  unfolding le32_def by (auto intro!: bit_word_eqI simp: bit_simps)

lemma and_self: "map2 (AND) xs xs = (xs :: u8 list)"
  by (rule nth_equalityI) simp_all

lemma flag_and: "FLASH_SPACE_USING AND FLASH_SPACE_MASK = FLASH_SPACE_MASK"
  by (simp add: FLASH_SPACE_USING_def FLASH_SPACE_MASK_def)

lemma and_enc_entry:
  "map2 (AND) (enc_entry off (True, x)) (name_bytes ((entry_rec off (True, x))\<lparr>dwUsingFlag := FLASH_SPACE_MASK\<rparr>))
     = enc_entry off (False, x)"
  by (simp add: enc_entry_def name_bytes_def entry_rec_def and_le32 and_self flag_and)

lemma data_of_mask: "data_of (es[i := mask_entry (es ! i)]) = data_of es"
  by (induction es arbitrary: i) (auto simp: mask_entry_def split: nat.splits)

lemma length_drop_enc: "length (drop 4 (enc_entry off e)) = 60" by simp

lemma distinct_mask:
  "distinct (live_names (xs @ e # ys)) \<Longrightarrow> distinct (live_names (xs @ mask_entry e # ys))"
  by (auto simp: live_names_def mask_entry_def split: if_splits)

lemma block_rep_mask:
  assumes rep: "block_rep m T D es" and disj: "T + 4096 \<le> D \<or> D + 4096 \<le> T"
    and i: "i < length es" "live (es ! i)"
    and bs: "map2 (AND) (enc_entry (length (data_of (take i es))) (es ! i))
        (bs @ r) = enc_entry (length (data_of (take i es))) (mask_entry (es ! i))"
      "length (bs @ r) = 64" "r = drop (length bs) (enc_entry (length (data_of (take i es))) (es ! i))"
  shows "block_rep (nor_write m (T + 64 * i) bs) T D (es[i := mask_entry (es ! i)])"
proof -
  let ?o = "length (data_of (take i es))"
  let ?post = "enc_table (?o + length (val_of (es ! i))) (drop (Suc i) es) @ replicate (4096 - 64 * length es) 0xFF"
  have es: "es = take i es @ es ! i # drop (Suc i) es" using i(1) by (rule id_take_nth_drop)
  have sp: "enc_table 0 es = enc_table 0 (take i es) @ enc_entry ?o (es ! i) @
      enc_table (?o + length (val_of (es ! i))) (drop (Suc i) es)"
    by (subst es, subst enc_table_append) simp
  have up: "es[i := mask_entry (es ! i)] = take i es @ mask_entry (es ! i) # drop (Suc i) es"
    using i(1) by (rule upd_conv_take_nth_drop)
  have spu: "enc_table 0 (es[i := mask_entry (es ! i)]) = enc_table 0 (take i es) @
      enc_entry ?o (mask_entry (es ! i)) @ enc_table (?o + length (val_of (es ! i))) (drop (Suc i) es)"
    unfolding up by (simp add: enc_table_append mask_entry_def)
  have t: "slice m T 4096 = enc_table 0 (take i es) @ take (length bs) (enc_entry ?o (es ! i)) @ (r @ ?post)"
    using rep sp unfolding bs(3) by (simp add: block_rep_def)
  have lb: "length bs = length (take (length bs) (enc_entry ?o (es ! i)))"
    using bs(2) by simp
  have cut: "map2 (AND) (take (length bs) (enc_entry ?o (es ! i))) bs @ r = enc_entry ?o (mask_entry (es ! i))"
  proof -
    have "enc_entry ?o (es ! i) = take (length bs) (enc_entry ?o (es ! i)) @ r" by (simp add: bs(3))
    then have "map2 (AND) (enc_entry ?o (es ! i)) (bs @ r) =
        map2 (AND) (take (length bs) (enc_entry ?o (es ! i))) bs @ map2 (AND) r r"
      using lb by (metis (no_types, lifting) map_append zip_append)
    then show ?thesis using bs(1) by (simp add: and_self)
  qed
  have "T + 64 * i = T + length (enc_table 0 (take i es))" using i(1) by simp
  then have "slice (nor_write m (T + 64 * i) bs) T 4096 =
      enc_table 0 (take i es) @ map2 (AND) (take (length bs) (enc_entry ?o (es ! i))) bs @ (r @ ?post)"
    using slice_write_at [OF t lb] by simp
  then have T: "slice (nor_write m (T + 64 * i) bs) T 4096 =
      enc_table 0 (es[i := mask_entry (es ! i)]) @ replicate (4096 - 64 * length es) 0xFF"
    using cut spu by (metis append.assoc)
  have "length bs \<le> 64" "64 * i + 64 \<le> 4096" using bs(2) i(1) rep by (auto simp: block_rep_def)
  then have "slice (nor_write m (T + 64 * i) bs) D 4096 = slice m D 4096"
    using disj by (intro slice_write_outside) auto
  moreover have "distinct (live_names (es[i := mask_entry (es ! i)]))"
    using distinct_mask [of "take i es" "es ! i" "drop (Suc i) es"] rep es
    unfolding up block_rep_def by metis
  moreover have "\<forall>e \<in> set (es[i := mask_entry (es ! i)]). good_name (nm_of e)"
    using rep i(1) set_update_subset_insert [of es i "mask_entry (es ! i)"]
    by (auto simp: block_rep_def mask_entry_def)
  ultimately show ?thesis
    using rep T by (simp add: block_rep_def data_of_mask)
qed


lemma in_live_names: "nm \<in> set (live_names es) \<longleftrightarrow> (\<exists>e \<in> set es. live e \<and> nm_of e = nm)"
  unfolding live_names_def set_map set_filter by blast

lemma live_names_Cons:
  "live_names (e # es) = (if live e then nm_of e # live_names es else live_names es)"
  by (simp add: live_names_def)

lemma block_get_Cons:
  "block_get (e # es) n = (if live e \<and> nm_of e = n then Some (val_of e) else block_get es n)"
  by (simp add: block_get_def)

lemma block_get_Some:
  "distinct (live_names es) \<Longrightarrow> i < length es \<Longrightarrow> live (es ! i) \<Longrightarrow>
     block_get es (nm_of (es ! i)) = Some (val_of (es ! i))"
proof (induction es arbitrary: i)
  case (Cons e es)
  show ?case
  proof (cases i)
    case 0
    then show ?thesis using Cons.prems by (simp add: block_get_def)
  next
    case (Suc j)
    have "nm_of (es ! j) \<in> set (live_names es)"
      using Cons.prems Suc unfolding in_live_names by (intro bexI [of _ "es ! j"]) auto
    then have "\<not> (live e \<and> nm_of e = nm_of (es ! j))"
      using Cons.prems(1) by (simp only: live_names_Cons split: if_splits) auto
    then show ?thesis
      using Cons.IH [of j] Cons.prems Suc
      by (simp only: block_get_Cons live_names_Cons nth_Cons_Suc length_Cons Suc_less_eq split: if_splits) auto
  qed
qed simp

lemma block_get_None: "block_get es nm = None \<longleftrightarrow> nm \<notin> set (live_names es)"
proof (induction es)
  case Nil
  then show ?case by (simp add: block_get_def live_names_def)
next
  case (Cons e es)
  then show ?case unfolding block_get_Cons live_names_Cons by simp
qed

lemma mask_split:
  assumes "i < length es"
  obtains xs ys where "es = xs @ es ! i # ys" "es[i := mask_entry (es ! i)] = xs @ mask_entry (es ! i) # ys"
  using id_take_nth_drop [OF assms] upd_conv_take_nth_drop [OF assms] by blast

lemma find_append: "find P (xs @ ys) = (case find P xs of None \<Rightarrow> find P ys | Some x \<Rightarrow> Some x)"
  by (induction xs) auto

lemma block_get_mask:
  assumes "distinct (live_names es)" "i < length es" "live (es ! i)"
  shows "block_get (es[i := mask_entry (es ! i)]) n = (if n = nm_of (es ! i) then None else block_get es n)"
proof -
  obtain xs ys where es: "es = xs @ es ! i # ys"
    and up: "es[i := mask_entry (es ! i)] = xs @ mask_entry (es ! i) # ys"
    using mask_split [OF assms(2)] by blast
  have "distinct (live_names (xs @ es ! i # ys))" using assms(1) es by simp
  then have no: "nm_of (es ! i) \<notin> set (live_names (xs @ mask_entry (es ! i) # ys))"
    using assms(3) by (auto simp: live_names_def mask_entry_def split: if_splits)
  have "n \<noteq> nm_of (es ! i) \<Longrightarrow> block_get (xs @ mask_entry (es ! i) # ys) n = block_get (xs @ es ! i # ys) n"
    by (simp add: block_get_def find_append mask_entry_def split: option.split)
  then show ?thesis
    using no up es block_get_None [of "xs @ mask_entry (es ! i) # ys" "nm_of (es ! i)"] by auto
qed

lemma live_names_mask:
  assumes "distinct (live_names es)" "i < length es" "live (es ! i)"
  shows "set (live_names (es[i := mask_entry (es ! i)])) = set (live_names es) - {nm_of (es ! i)}"
  using block_get_mask [OF assms] block_get_None by (auto split: if_splits) (metis)+

lemma filter_live_block_get: "block_get (filter live es) n = block_get es n"
  by (induction es) (auto simp: block_get_def)

lemma live_names_filter [simp]: "live_names (filter live es) = live_names es"
  by (simp add: live_names_def)

lemma length_data_filter: "length (data_of (filter live es)) \<le> length (data_of es)"
  by (induction es) auto

subsection \<open>Searching a table\<close>

lemma data_take_Suc: "i < length es \<Longrightarrow>
   length (data_of (take (Suc i) es)) = length (data_of (take i es)) + length (val_of (es ! i))"
  by (simp add: take_Suc_conv_app_nth)

lemma slot_loop_table:
  assumes es: "length es \<le> 64" and "i \<le> length es"
  shows "slot_loop (enc_table 0 es @ replicate (4096 - 64 * length es) 0xFF) i
      (of_nat (length (data_of (take i es)))) k
    = (length es, of_nat (length (data_of es)), k + length (filter (\<lambda>e. \<not> live e) (drop i es)))"
  using assms(2)
proof (induction "length es - i" arbitrary: i k)
  case 0
  then have i: "i = length es" by simp
  show ?case
  proof (cases "length es < 64")
    case True
    then show ?thesis
      using nth_name_erased [of es i "enc_table 0 es"] i
      by (subst slot_loop.simps) (simp add: FLASH_NAME_MAX_ARRAY_def Let_def)
  next
    case False
    then show ?thesis using es i by (subst slot_loop.simps) (simp add: FLASH_NAME_MAX_ARRAY_def)
  qed
next
  case (Suc n)
  then have i: "i < length es" by simp
  let ?k = "if live (es ! i) then k else k + 1"
  have d: "drop i es = es ! i # drop (Suc i) es" using i by (simp add: Cons_nth_drop_Suc)
  have s: "(of_nat (length (data_of (take i es))) :: u32) + of_nat (length (val_of (es ! i)))
      = of_nat (length (data_of (take (Suc i) es)))"
    using data_take_Suc [OF i] by simp
  have "slot_loop (enc_table 0 es @ replicate (4096 - 64 * length es) 0xFF) i
      (of_nat (length (data_of (take i es)))) k
    = slot_loop (enc_table 0 es @ replicate (4096 - 64 * length es) 0xFF) (Suc i)
      (of_nat (length (data_of (take (Suc i) es)))) ?k"
    using i es s
    by (subst slot_loop.simps)
      (simp add: FLASH_NAME_MAX_ARRAY_def nth_name_table Let_def)
  also have "\<dots> = (length es, of_nat (length (data_of es)), ?k + length (filter (\<lambda>e. \<not> live e) (drop (Suc i) es)))"
    using Suc.hyps(2) i by (intro Suc.hyps(1)) auto
  finally show ?case by (simp add: d)
qed

lemma find_name_table:
  assumes "\<forall>e \<in> set es. good_name (nm_of e)" "good_name nm" "length es \<le> 64"
  shows "find (name_match (enc_table 0 es @ replicate (4096 - 64 * length es) 0xFF) nm) [0..<64] =
    find (\<lambda>i. live (es ! i) \<and> nm_of (es ! i) = nm) [0..<length es]"
proof -
  let ?P = "\<lambda>i. i < length es \<and> live (es ! i) \<and> nm_of (es ! i) = nm"
  have "find (name_match (enc_table 0 es @ replicate (4096 - 64 * length es) 0xFF) nm) [0..<64] = find ?P [0..<64]"
    by (rule find_cong [OF refl]) (use name_match_table [OF assms(1,2)] assms(3) in auto)
  also have "\<dots> = find ?P ([0..<length es] @ [length es..<64])"
    using assms(3) upt_add_eq_append [of 0 "length es" "64 - length es"] by simp
  also have "\<dots> = find ?P [0..<length es]"
  proof -
    have "find ?P [length es..<64] = None" by (simp add: find_None_iff)
    then show ?thesis by (simp only: find_append split: option.split) simp
  qed
  also have "\<dots> = find (\<lambda>i. live (es ! i) \<and> nm_of (es ! i) = nm) [0..<length es]"
    by (rule find_cong) auto
  finally show ?thesis .
qed

lemma find_index_Some:
  assumes "distinct (live_names es)" "find (\<lambda>i. live (es ! i) \<and> nm_of (es ! i) = nm) [0..<length es] = Some i"
  shows "i < length es \<and> live (es ! i) \<and> nm_of (es ! i) = nm \<and> block_get es nm = Some (val_of (es ! i))"
  using assms block_get_Some [of es i] by (auto simp: find_Some_iff)

lemma find_index_None:
  "find (\<lambda>i. live (es ! i) \<and> nm_of (es ! i) = nm) [0..<length es] = None \<longleftrightarrow> block_get es nm = None"
proof -
  have "(\<exists>e \<in> set es. live e \<and> nm_of e = nm) \<longleftrightarrow> (\<exists>i < length es. live (es ! i) \<and> nm_of (es ! i) = nm)"
    by (metis in_set_conv_nth)
  then show ?thesis unfolding block_get_None in_live_names find_None_iff by simp
qed

end
