(* ===== verification/KvProof.thy ===== *)
theory KvProof
  imports KvRep
begin

text \<open>
  The operations of the store on a device that is ready for writing, first on a flash array,
  then on the blocks of \<open>KvRep\<close>.
\<close>

subsection \<open>Running with the protection lifted\<close>

definition ready :: "flash_dev \<Rightarrow> bool" where
  "ready d \<longleftrightarrow> flash_ok d \<and>
     protect_value (fd_cfg d) (flash_read_sr d (sr_size (fd_cfg d))) = protect_none (fd_cfg d)"

lemma ready_ok [simp]: "ready d \<Longrightarrow> flash_ok d"
  by (simp add: ready_def)

lemma ready_unlocked: "ready d \<Longrightarrow> unlocked d"
  by (simp add: ready_def flash_ok_def none_unlocks_def unlocked_def flash_read_sr_eq)

lemma set_value:
  assumes "flash_ok d" "t \<noteq> PROTECT_UNKNOWN"
  shows "protect_value (fd_cfg d) (flash_read_sr (set_flash_protect d t) (sr_size (fd_cfg d))) = protect_word (fd_cfg d) t"
  by (rule set_flash_protect_value [OF table_protect_fits assms(2) refl])
    (use assms in \<open>auto simp: flash_ok_def table_config_def\<close>)

lemma ok_set [simp]: "flash_ok (set_flash_protect d t) = flash_ok d"
  by (rule flash_ok_cong) simp_all

lemma ready_set_none: "flash_ok d \<Longrightarrow> ready (set_flash_protect d FLASH_PROTECT_NONE)"
  by (simp add: ready_def set_value protect_word_def)

lemma ready_get:
  assumes "ready d"
  shows "get_flash_protect d \<noteq> PROTECT_UNKNOWN \<and> protect_word (fd_cfg d) (get_flash_protect d) = protect_none (fd_cfg d)"
  using assms by (auto simp: ready_def get_flash_protect_def protect_value_def Let_def protect_word_def)

definition runs :: "(flash_dev \<Rightarrow> ('a \<times> flash_dev) option) \<Rightarrow> flash_dev \<Rightarrow> 'a \<Rightarrow> (nat \<Rightarrow> u8) \<Rightarrow> bool" where
  "runs f d r m \<longleftrightarrow>
     (\<exists>d'. f d = Some (r, d') \<and> fd_mem d' = m \<and> flash_ok d' \<and> fd_cfg d' = fd_cfg d \<and> (ready d \<longrightarrow> ready d'))"

lemma runsE:
  assumes "runs f d r m"
  obtains d' where "f d = Some (r, d')" "fd_mem d' = m" "flash_ok d'" "fd_cfg d' = fd_cfg d"
    "ready d \<longrightarrow> ready d'"
  using assms by (auto simp: runs_def)

lemma runs_unprotected:
  assumes ok: "flash_ok d"
    and body: "\<And>d1. ready d1 \<Longrightarrow> fd_mem d1 = fd_mem d \<Longrightarrow> fd_cfg d1 = fd_cfg d \<Longrightarrow> runs body d1 r m"
  shows "runs (\<lambda>d. unprotected d body) d r m"
proof -
  let ?t = "get_flash_protect d" and ?d1 = "set_flash_protect d FLASH_PROTECT_NONE"
  obtain d2 where d2: "body ?d1 = Some (r, d2)" "fd_mem d2 = m" "flash_ok d2" "fd_cfg d2 = fd_cfg d"
    using body [of ?d1] ready_set_none [OF ok] by (auto simp: runs_def)
  have "unprotected d body = Some (r, set_flash_protect d2 ?t)"
    using ok d2 flash_ok_table [OF ok] by (simp add: unprotected_def get_security_eq enable_security_eq)
  moreover have "ready (set_flash_protect d2 ?t)" if "ready d"
    using ready_get [OF that] set_value [OF d2(3), of ?t] d2(3,4) by (simp add: ready_def)
  ultimately show ?thesis using d2 by (simp add: runs_def)
qed

lemma ready_cong:
  "fd_cfg d' = fd_cfg d \<Longrightarrow> fd_locked d' = fd_locked d \<Longrightarrow> fd_sr d' = fd_sr d \<Longrightarrow> ready d' = ready d"
  using flash_ok_cong [of d' d] by (simp add: ready_def flash_read_sr_eq)

lemma ready_write:
  assumes "ready d" "unat n \<le> length bs" "unat a + unat n \<le> flash_cap d"
  obtains d' where "flash_write d bs n a = Some d'" "ready d'" "fd_cfg d' = fd_cfg d"
    "fd_mem d' = nor_write (fd_mem d) (unat a) (take (unat n) bs)"
proof -
  obtain d' where w: "flash_write d bs n a = Some d'"
    and v: "flash_view d' = flash_view (chip_pp d (unat a) (take (unat n) bs))"
    using flash_write_ok [of d n bs a] assms by (auto simp: flash_cap_def)
  have pp: "chip_pp d (unat a) (take (unat n) bs) = d\<lparr>fd_mem := nor_write (fd_mem d) (unat a) (take (unat n) bs)\<rparr>"
    by (rule unlocked_pp [OF ready_unlocked [OF assms(1)]])
  have "fd_cfg d' = fd_cfg d" "fd_locked d' = fd_locked d" "fd_sr d' = fd_sr d"
    "fd_mem d' = nor_write (fd_mem d) (unat a) (take (unat n) bs)"
    using arg_cong [OF v, of fd_cfg] arg_cong [OF v, of fd_locked] arg_cong [OF v, of fd_sr]
      arg_cong [OF v, of fd_mem] by (simp_all add: pp)
  then show thesis using that [OF w] assms(1) ready_cong [of d' d] by simp
qed

lemma cap_cfg: "fd_cfg d' = fd_cfg d \<Longrightarrow> flash_cap d' = flash_cap d"
  by (simp add: flash_cap_def)

lemma erase_addr_mask:
  assumes "4096 dvd unat (a :: u32)" "unat a < 16777216"
  shows "unat (a AND 0xFFF000) = unat a"
proof -
  obtain s where s: "unat a = 4096 * s" using assms(1) by (auto simp: dvd_def)
  have "a = of_nat (unat a)" by simp
  also have "\<dots> = of_nat (s * 4096)" by (simp only: s mult.commute)
  also have "\<dots> = push_bit 12 (of_nat s)" by (simp add: push_bit_eq_mult)
  finally have "a = push_bit 12 (of_nat s)" .
  then show ?thesis using sector_addr [of s] s assms(2) by simp
qed


lemma ready_erase:
  assumes "ready d" "4096 dvd unat a" "unat a + 4096 \<le> flash_cap d"
  obtains d' where "dd_erase_sector d a = Some d'" "ready d'" "fd_cfg d' = fd_cfg d"
    "fd_mem d' = nor_erase (fd_mem d) (unat a) 4096"
proof -
  have ok: "table_config d" using assms(1) by simp
  have lt: "unat a < 16777216" using assms(1,3) flash_cap_le [of d] by simp
  let ?d = "d\<lparr>fd_mem := nor_erase (fd_mem d) (unat a) 4096\<rparr>"
  have "\<not> flash_size (fd_cfg d) \<le> a AND 0xFFF000"
    using erase_addr_mask [OF assms(2) lt] assms(3) by (simp add: word_le_nat_alt flash_cap_def)
  then have "flash_erase_sector d a = ?d"
    using unlocked_se [OF ready_unlocked [OF assms(1)]] erase_addr_mask [OF assms(2) lt]
    by (simp add: flash_erase_sector_def Let_def)
  then have "dd_erase_sector d a = Some ?d"
    by (simp add: dd_erase_sector_def erase_ctrl_eq [OF ok])
  moreover have "ready ?d = ready d" by (rule ready_cong) simp_all
  ultimately show thesis using that [of ?d] assms(1) by simp
qed

lemma read_eq: "flash_read d n a = slice (fd_mem d) (unat a) (unat n)"
  by (simp add: flash_read_def flash_read_data_eq)

subsection \<open>Lookup of a name\<close>

lemma runs_pure: "flash_ok d \<Longrightarrow> runs (\<lambda>d. Some (f d, d)) d (f d) (fd_mem d)"
  by (simp add: runs_def)

lemma table_size: "unat NAME_FLASH_TOTAL_SIZE = 4096"
  by (simp add: NAME_FLASH_TOTAL_SIZE_def)

lemma get_name_addr_runs:
  assumes ok: "flash_ok d" and mal: "mal 4096" and rep: "block_rep (fd_mem d) (unat base) D es"
    and nm: "good_name nm"
  shows "runs (\<lambda>d. get_name_addr mal d nm base) d
    (map_option (\<lambda>i. (of_nat (64 * i), of_nat (length (data_of (take i es)))))
       (find (\<lambda>i. live (es ! i) \<and> nm_of (es ! i) = nm) [0..<length es])) (fd_mem d)"
proof -
  let ?t = "enc_table 0 es @ replicate (4096 - 64 * length es) 0xFF"
  let ?f = "find (\<lambda>i. live (es ! i) \<and> nm_of (es ! i) = nm) [0..<length es]"
  have arr: "slice (fd_mem d) (unat base) 4096 = ?t" and good: "\<forall>e \<in> set es. good_name (nm_of e)"
    and len: "length es \<le> 64"
    using rep by (simp_all add: block_rep_def)
  have find: "find (name_match ?t nm) [0..<FLASH_NAME_MAX_ARRAY] = ?f"
    unfolding FLASH_NAME_MAX_ARRAY_def by (rule find_name_table [OF good nm len])
  have "runs (\<lambda>d. unprotected d (\<lambda>d. Some (flash_read d NAME_FLASH_TOTAL_SIZE base, d))) d ?t (fd_mem d)"
  proof (rule runs_unprotected [OF ok])
    fix d1 assume "ready d1" "fd_mem d1 = fd_mem d"
    then show "runs (\<lambda>d. Some (flash_read d NAME_FLASH_TOTAL_SIZE base, d)) d1 ?t (fd_mem d)"
      by (simp add: runs_def read_eq table_size arr)
  qed
  then obtain d1 where d1: "unprotected d (\<lambda>d. Some (flash_read d NAME_FLASH_TOTAL_SIZE base, d)) = Some (?t, d1)"
    "fd_mem d1 = fd_mem d" "flash_ok d1" "fd_cfg d1 = fd_cfg d" "ready d \<longrightarrow> ready d1"
    by (rule runsE)
  have idx: "map_option (\<lambda>i. (of_nat i * PER_NAME_FLASH_SIZE, dwOffsetByByte (nth_name ?t i))) ?f
      = map_option (\<lambda>i. (of_nat (64 * i), of_nat (length (data_of (take i es))))) ?f"
  proof (cases ?f)
    case (Some i)
    then have "i < length es" by (auto simp: find_Some_iff)
    then show ?thesis using Some by (simp add: PER_NAME_FLASH_SIZE_def nth_name_table mult.commute)
  qed simp
  show ?thesis
    using mal d1 by (simp add: runs_def get_name_addr_def table_size find idx)
qed


subsection \<open>Writing an entry\<close>

text \<open>A block sits in the part at \<open>T\<close> and \<open>D\<close>: two different sectors.\<close>

definition block_at :: "flash_dev \<Rightarrow> u32 \<Rightarrow> u32 \<Rightarrow> bool" where
  "block_at d T D \<longleftrightarrow>
     4096 dvd unat T \<and> 4096 dvd unat D \<and> unat T + 4096 \<le> flash_cap d \<and> unat D + 4096 \<le> flash_cap d \<and>
     (unat T + 4096 \<le> unat D \<or> unat D + 4096 \<le> unat T)"

lemma block_at_cfg: "fd_cfg d' = fd_cfg d \<Longrightarrow> block_at d' T D = block_at d T D"
  using cap_cfg [of d' d] by (simp add: block_at_def)

lemma addr_add:
  assumes "ready d" "unat a + k \<le> flash_cap d"
  shows "unat (a + of_nat k :: u32) = unat a + k"
proof -
  have le: "flash_cap d \<le> 8388608" using flash_cap_le [OF ready_ok [OF assms(1)]] by simp
  have k: "unat (of_nat k :: u32) = k"
    by (rule unat_of_nat_cap [OF ready_ok [OF assms(1)]]) (use assms(2) in linarith)
  have "unat a + unat (of_nat k :: u32) < 4294967296"
    unfolding k using assms(2) le by linarith
  then show ?thesis by (simp only: unat_add_32 k)
qed

lemma ready_append:
  assumes rdy: "ready d" and at: "block_at d T D" and rep: "block_rep (fd_mem d) (unat T) (unat D) es"
    and len: "length es < 64" and fit: "length (data_of es) + length v < 4096" and v: "take (length v) buf = v"
  obtains d1 d2 where
    "flash_write d buf (of_nat (length v)) (D + of_nat (length (data_of es))) = Some d1"
    "flash_write d1 (enc_entry (length (data_of es)) (True, nm, v)) 64 (T + of_nat (64 * length es)) = Some d2"
    "ready d2" "fd_cfg d2 = fd_cfg d"
    "fd_mem d2 = append_entry (unat T) (unat D) es nm v (fd_mem d)"
proof -
  let ?o = "length (data_of es)"
  have capD: "unat D + 4096 \<le> flash_cap d" and capT: "unat T + 4096 \<le> flash_cap d"
    using at by (simp_all add: block_at_def)
  have a: "unat (D + of_nat ?o) = unat D + ?o"
    by (rule addr_add [OF rdy]) (use fit capD in linarith)
  have b: "unat (T + of_nat (64 * length es)) = unat T + 64 * length es"
    by (rule addr_add [OF rdy]) (use len capT in linarith)
  have lv: "unat (of_nat (length v) :: u32) = length v"
    by (rule unat_of_nat_cap [OF ready_ok [OF rdy]]) (use fit capD in linarith)
  have lb: "length v \<le> length buf" using v by (metis length_take min.cobounded1)
  obtain d1 where d1: "flash_write d buf (of_nat (length v)) (D + of_nat ?o) = Some d1" "ready d1"
    "fd_cfg d1 = fd_cfg d" "fd_mem d1 = nor_write (fd_mem d) (unat D + ?o) v"
    by (rule ready_write [OF rdy, of "of_nat (length v)" buf "D + of_nat ?o"])
      (use lv lb a fit capD v in auto)
  obtain d2 where d2: "flash_write d1 (enc_entry ?o (True, nm, v)) 64 (T + of_nat (64 * length es)) = Some d2"
    "ready d2" "fd_cfg d2 = fd_cfg d1"
    "fd_mem d2 = nor_write (fd_mem d1) (unat T + 64 * length es) (enc_entry ?o (True, nm, v))"
    by (rule ready_write [OF d1(2), of 64 "enc_entry ?o (True, nm, v)" "T + of_nat (64 * length es)"])
      (use b len capT cap_cfg [OF d1(3)] in auto)
  show thesis
    by (rule that [OF d1(1) d2(1)]) (use d1 d2 in \<open>simp_all add: append_entry_def\<close>)
qed

text \<open>Nothing outside the two sectors of a block changes.\<close>

definition same_outside :: "nat \<Rightarrow> nat \<Rightarrow> (nat \<Rightarrow> u8) \<Rightarrow> (nat \<Rightarrow> u8) \<Rightarrow> bool" where
  "same_outside T D m m' \<longleftrightarrow>
     (\<forall>x. \<not> (T \<le> x \<and> x < T + 4096) \<and> \<not> (D \<le> x \<and> x < D + 4096) \<longrightarrow> m' x = m x)"

lemma same_outside_refl [simp]: "same_outside T D m m"
  by (simp add: same_outside_def)

lemma same_outside_trans:
  "same_outside T D m m' \<Longrightarrow> same_outside T D m' m'' \<Longrightarrow> same_outside T D m m''"
  by (simp add: same_outside_def)

lemma same_outside_append:
  "length es < 64 \<Longrightarrow> length (data_of es) + length v < 4096 \<Longrightarrow>
     same_outside T D m (append_entry T D es nm v m)"
  by (auto simp: same_outside_def append_entry_def nor_write_def)

lemma same_outside_erase:
  "same_outside T D m (nor_erase (nor_erase m T 4096) D 4096)"
  by (auto simp: same_outside_def nor_erase_def)

lemma same_outside_table:
  "k + length bs \<le> 4096 \<Longrightarrow> same_outside T D m (nor_write m (T + k) bs)"
  by (auto simp: same_outside_def nor_write_def)

subsection \<open>Reorganisation\<close>

lemma block_rep_erased:
  "T + 4096 \<le> D \<or> D + 4096 \<le> T \<Longrightarrow> block_rep (nor_erase (nor_erase m T 4096) D 4096) T D []"
  by (auto simp: block_rep_def live_names_def slice_erase slice_erase_outside)

lemma entry_update:
  "name_bytes ((entry_rec off e)\<lparr>dwOffsetByByte := of_nat o2\<rparr>) = enc_entry o2 e"
  by (simp add: enc_entry_def entry_rec_def)

lemma take_val:
  assumes "i < length es"
  shows "take (length (val_of (es ! i))) (drop (length (data_of (take i es))) (data_of es @ r)) = val_of (es ! i)"
proof -
  have es: "es = take i es @ es ! i # drop (Suc i) es" using assms by (rule id_take_nth_drop)
  have "data_of es = data_of (take i es) @ val_of (es ! i) @ data_of (drop (Suc i) es)"
    by (subst es) simp
  then show ?thesis by simp
qed

lemma length_data_le: "length (data_of (take i es)) \<le> length (data_of es)"
  by (induction es arbitrary: i) (auto simp: take_Cons' split: nat.splits)

lemma fresh_prefix:
  assumes "i < length es" "live (es ! i)" "distinct (live_names es)"
  shows "nm_of (es ! i) \<notin> set (live_names (take i es))"
proof -
  obtain xs ys where xs: "xs = take i es" and es: "es = xs @ es ! i # ys"
    using id_take_nth_drop [OF assms(1)] by blast
  have "distinct (live_names (xs @ es ! i # ys))" using assms(3) es by simp
  then show ?thesis unfolding xs [symmetric] using assms(2) by (auto simp: live_names_def)
qed

lemma reorganize_loop_ok:
  assumes "ready d" "block_at d T D" "block_rep (fd_mem d) (unat T) (unat D) (filter live (take i es))"
    and es: "length es \<le> 64" "length (data_of es) < 4096" "\<forall>e \<in> set es. good_name (nm_of e)" "distinct (live_names es)"
    and i: "i \<le> 64"
    and nt: "nt = enc_table 0 es @ replicate (4096 - 64 * length es) 0xFF"
    and db: "db = data_of es @ r"
  shows "\<exists>d'. reorganize_loop d nt db i (D + of_nat (length (data_of (filter live (take i es)))))
      (T + of_nat (64 * length (filter live (take i es)))) (of_nat (length (data_of (filter live (take i es)))))
    = Some (d', D + of_nat (length (data_of (filter live es))), T + of_nat (64 * length (filter live es)),
        of_nat (length (data_of (filter live es)))) \<and>
    ready d' \<and> fd_cfg d' = fd_cfg d \<and> block_rep (fd_mem d') (unat T) (unat D) (filter live es) \<and>
    same_outside (unat T) (unat D) (fd_mem d) (fd_mem d')"
  using assms(1-3) i
proof (induction "64 - i" arbitrary: d i)
  case 0
  then have "take i es = es" using es(1) by simp
  then show ?case
    using "0.prems" "0.hyps" by (subst reorganize_loop.simps) (simp add: FLASH_NAME_MAX_ARRAY_def)
next
  case (Suc n)
  let ?w = "filter live (take i es)" and ?w' = "filter live (take (Suc i) es)"
  have i: "i < 64" and n: "n = 64 - Suc i" using Suc.hyps(2) by simp_all
  note IH = Suc.hyps(1) [OF n]
  show ?case
  proof (cases "i < length es \<and> live (es ! i)")
    case True
    let ?v = "val_of (es ! i)" and ?off = "length (data_of (take i es))"
    have w': "?w' = ?w @ [es ! i]" using True by (simp add: take_Suc_conv_app_nth)
    have eq: "es ! i = (True, nm_of (es ! i), ?v)" using True by (cases "es ! i") auto
    have ent: "nth_name nt i = entry_rec ?off (es ! i)"
      unfolding nt using nth_name_table [of i es 0] True by simp
    have sub: "length (data_of ?w) + length ?v \<le> length (data_of es)"
    proof -
      have "length (data_of ?w) \<le> ?off" by (rule length_data_filter)
      moreover have "?off + length ?v \<le> length (data_of es)"
        using True by (subst (2) id_take_nth_drop [of i es]) auto
      ultimately show ?thesis by linarith
    qed
    have lw: "length ?w < 64"
      using True i es(1) length_filter_le [of live "take i es"] by simp
    have off: "unat (of_nat ?off :: u32) = ?off"
    proof -
      have "?off < 4096" using es(2) length_data_le [of i es] by linarith
      then show ?thesis by (simp add: unat_of_nat)
    qed
    have tk: "take (length ?v) (drop ?off db) = ?v" unfolding db by (rule take_val) (use True in simp)
    obtain d1 d2 where d12:
      "flash_write d (drop ?off db) (of_nat (length ?v)) (D + of_nat (length (data_of ?w))) = Some d1"
      "flash_write d1 (enc_entry (length (data_of ?w)) (es ! i)) 64 (T + of_nat (64 * length ?w)) = Some d2"
      "ready d2" "fd_cfg d2 = fd_cfg d"
      "fd_mem d2 = append_entry (unat T) (unat D) ?w (nm_of (es ! i)) ?v (fd_mem d)"
      using ready_append [OF Suc.prems(1-3) lw _ tk, of "nm_of (es ! i)"] sub es(2) eq by auto
    have fit: "length (data_of ?w) + length ?v < 4096" using sub es(2) by linarith
    have "nm_of (es ! i) \<notin> set (live_names ?w)"
      using es(4) True fresh_prefix [of i es] by simp
    then have rep2: "block_rep (fd_mem d2) (unat T) (unat D) ?w'"
      unfolding w' d12(5) using block_rep_append [OF Suc.prems(3) _ lw fit, of "nm_of (es ! i)"]
        Suc.prems(2) es(3) True eq by (simp add: block_at_def)
    have at2: "block_at d2 T D" using block_at_cfg [OF d12(4)] Suc.prems(2) by simp
    have so: "same_outside (unat T) (unat D) (fd_mem d) (fd_mem d2)"
      unfolding d12(5) by (rule same_outside_append [OF lw fit])
    define a0 a1 b0 b1 c0 c1 where ab:
      "a0 = D + of_nat (length (data_of ?w))" "a1 = D + of_nat (length (data_of ?w'))"
      "b0 = T + of_nat (64 * length ?w)" "b1 = T + of_nat (64 * length ?w')"
      "c0 = (of_nat (length (data_of ?w)) :: u32)" "c1 = (of_nat (length (data_of ?w')) :: u32)"
    have adv: "a0 + of_nat (length ?v) = a1" "b0 + 64 = b1" "c0 + of_nat (length ?v) = c1"
      by (simp_all add: ab w')
    have ec: "name_bytes ((entry_rec ?off (es ! i))\<lparr>dwOffsetByByte := c0\<rparr>) = enc_entry (length (data_of ?w)) (es ! i)"
      unfolding ab by (rule entry_update)
    have "reorganize_loop d nt db i a0 b0 c0 = reorganize_loop d2 nt db (Suc i) a1 b1 c1"
      using i True d12(1,2) [folded ab] adv ec
      by (subst reorganize_loop.simps)
        (simp add: FLASH_NAME_MAX_ARRAY_def ent off Let_def PER_NAME_FLASH_SIZE_def)
    then show ?thesis
      using IH [OF d12(3) at2 rep2] i d12(4) so unfolding ab by (auto intro: same_outside_trans)
  next
    case False
    have w': "?w' = ?w"
      using False by (cases "i < length es") (auto simp: take_Suc_conv_app_nth)
    have "dwUsingFlag (nth_name nt i) \<noteq> FLASH_SPACE_USING"
    proof (cases "i < length es")
      case True
      then show ?thesis using False unfolding nt by (simp add: nth_name_table)
    next
      case no: False
      then show ?thesis
        unfolding nt using nth_name_erased [of es i "enc_table 0 es"] i by simp
    qed
    then have "reorganize_loop d nt db i x y z = reorganize_loop d nt db (Suc i) x y z" for x y z
      using i by (subst reorganize_loop.simps) (simp add: FLASH_NAME_MAX_ARRAY_def Let_def)
    then show ?thesis
      using IH [of d] Suc.prems i w' by simp
  qed
qed


text \<open>Room for a value in a block, counting the live entries only.\<close>

definition block_room :: "entry list \<Rightarrow> u8 list \<Rightarrow> bool" where
  "block_room es v \<longleftrightarrow>
     length (filter live es) < 64 \<and> length (data_of (filter live es)) + length v < 4096"

lemma sector_wrap:
  assumes "n < 4096" "l < 2147483648"
  shows "FLASH_SECTOR_SIZE \<le> of_nat n + of_nat l \<longleftrightarrow> 4096 \<le> n + l"
proof -
  have "unat (of_nat n + of_nat l :: u32) = n + l"
    using assms by (simp add: unat_word_ariths unat_of_nat)
  then show ?thesis by (simp add: word_le_nat_alt FLASH_SECTOR_SIZE_def)
qed

lemma entry_final:
  "ucName nd = put_name 52 nm \<Longrightarrow>
     name_bytes (nd\<lparr>dwlength := of_nat (length v), dwOffsetByByte := of_nat off, dwUsingFlag := FLASH_SPACE_USING\<rparr>)
       = enc_entry off (True, nm, v)"
  by (simp add: enc_entry_def entry_rec_def name_bytes_def)

lemma block_get_filter_append:
  "nm \<notin> set (live_names es) \<Longrightarrow>
     block_get (filter live es @ [(True, nm, v)]) n = (if n = nm then Some v else block_get es n)"
  using block_get_append [of nm "filter live es" v n] by (simp add: filter_live_block_get)

definition runsP :: "(flash_dev \<Rightarrow> ('a \<times> flash_dev) option) \<Rightarrow> flash_dev \<Rightarrow> 'a \<Rightarrow> ((nat \<Rightarrow> u8) \<Rightarrow> bool) \<Rightarrow> bool" where
  "runsP f d r P \<longleftrightarrow>
     (\<exists>d'. f d = Some (r, d') \<and> P (fd_mem d') \<and> flash_ok d' \<and> fd_cfg d' = fd_cfg d \<and> (ready d \<longrightarrow> ready d'))"

lemma runsPE:
  assumes "runsP f d r P"
  obtains d' where "f d = Some (r, d')" "P (fd_mem d')" "flash_ok d'" "fd_cfg d' = fd_cfg d"
    "ready d \<longrightarrow> ready d'"
  using assms by (auto simp: runsP_def)

lemma runsP_mono: "runsP f d r P \<Longrightarrow> (\<And>m. P m \<Longrightarrow> Q m) \<Longrightarrow> runsP f d r Q"
  by (auto simp: runsP_def)

lemma runsP_unprotected:
  assumes ok: "flash_ok d"
    and body: "\<And>d1. ready d1 \<Longrightarrow> fd_mem d1 = fd_mem d \<Longrightarrow> fd_cfg d1 = fd_cfg d \<Longrightarrow> runsP body d1 r P"
  shows "runsP (\<lambda>d. unprotected d body) d r P"
proof -
  let ?d1 = "set_flash_protect d FLASH_PROTECT_NONE"
  obtain m where "P m" and m: "runs body ?d1 r m"
    using body [of ?d1] ready_set_none [OF ok] by (auto simp: runsP_def runs_def)
  have "runs (\<lambda>d. unprotected d (\<lambda>d1. if d1 = ?d1 then body d1 else Some (r, d1\<lparr>fd_mem := m\<rparr>))) d r m"
  proof (rule runs_unprotected [OF ok])
    fix d1 assume "ready d1" "fd_mem d1 = fd_mem d" "fd_cfg d1 = fd_cfg d"
    moreover have "ready (d1\<lparr>fd_mem := m\<rparr>) = ready d1" "flash_ok (d1\<lparr>fd_mem := m\<rparr>) = flash_ok d1"
      by (rule ready_cong flash_ok_cong; simp)+
    ultimately show "runs (\<lambda>d1. if d1 = ?d1 then body d1 else Some (r, d1\<lparr>fd_mem := m\<rparr>)) d1 r m"
      using m by (auto simp: runs_def)
  qed
  moreover have "unprotected d (\<lambda>d1. if d1 = ?d1 then body d1 else Some (r, d1\<lparr>fd_mem := m\<rparr>)) = unprotected d body"
    using flash_ok_table [OF ok] by (simp add: unprotected_def get_security_eq enable_security_eq)
  ultimately show ?thesis using \<open>P m\<close> by (auto simp: runs_def runsP_def)
qed

lemma reorganize_ok:
  assumes ok: "flash_ok d" and at: "block_at d T D" and rep: "block_rep (fd_mem d) (unat T) (unat D) es"
    and nm: "good_name nm" "nm \<notin> set (live_names es)" "ucName nd = put_name 52 nm"
    and len: "length (filter live es) < 64" and big: "length v < 2147483648" and v: "take (length v) buf = v"
  shows "runsP (\<lambda>d. bk_reorganize_name_data d T (slice (fd_mem d) (unat T) 4096) (slice (fd_mem d) (unat D) 4096)
        D buf (of_nat (length v)) nd) d (if block_room es v then kNoErr else kGeneralErr)
      (\<lambda>m'. block_rep m' (unat T) (unat D)
              (if block_room es v then filter live es @ [(True, nm, v)] else filter live es) \<and>
            same_outside (unat T) (unat D) (fd_mem d) m')"
proof -
  let ?fs = "filter live es" and ?m = "fd_mem d"
  let ?P = "\<lambda>m'. block_rep m' (unat T) (unat D) (if block_room es v then ?fs @ [(True, nm, v)] else ?fs)
      \<and> same_outside (unat T) (unat D) ?m m'"
  let ?nt = "slice ?m (unat T) 4096" and ?db = "slice ?m (unat D) 4096"
  have t: "?nt = enc_table 0 es @ replicate (4096 - 64 * length es) 0xFF"
    and dd: "?db = data_of es @ replicate (4096 - length (data_of es)) 0xFF"
    and es: "length es \<le> 64" "length (data_of es) < 4096" "\<forall>e \<in> set es. good_name (nm_of e)"
      "distinct (live_names es)"
    using rep by (simp_all add: block_rep_def)
  have disj: "unat T + 4096 \<le> unat D \<or> unat D + 4096 \<le> unat T" using at by (simp add: block_at_def)
  have lf: "length (data_of ?fs) < 4096" using length_data_filter [of es] es(2) by linarith
  have room: "block_room es v \<longleftrightarrow> length (data_of ?fs) + length v < 4096"
    using len by (simp add: block_room_def)
  have "runsP (\<lambda>d. bk_reorganize_name_data d T ?nt ?db D buf (of_nat (length v)) nd) d
      (if block_room es v then kNoErr else kGeneralErr) ?P"
    unfolding bk_reorganize_name_data_def
  proof (rule runsP_unprotected [OF ok])
    fix d0 assume d0: "ready d0" "fd_mem d0 = fd_mem d" "fd_cfg d0 = fd_cfg d"
    have at0: "block_at d0 T D" using at block_at_cfg [OF d0(3)] by simp
    obtain d1 where d1: "dd_erase_sector d0 T = Some d1" "ready d1" "fd_cfg d1 = fd_cfg d0"
      "fd_mem d1 = nor_erase (fd_mem d0) (unat T) 4096"
      using ready_erase [OF d0(1), of T] at0 by (auto simp: block_at_def)
    obtain d2 where d2: "dd_erase_sector d1 D = Some d2" "ready d2" "fd_cfg d2 = fd_cfg d1"
      "fd_mem d2 = nor_erase (fd_mem d1) (unat D) 4096"
      using ready_erase [OF d1(2), of D] at0 cap_cfg [OF d1(3)] by (auto simp: block_at_def)
    have at2: "block_at d2 T D" using at block_at_cfg [of d2 d] d0 d1 d2 by simp
    have rep2: "block_rep (fd_mem d2) (unat T) (unat D) (filter live (take 0 es))"
      using block_rep_erased [OF disj] d1(4) d2(4) by simp
    obtain d3 where d3: "reorganize_loop d2 ?nt ?db 0 D T 0 =
        Some (d3, D + of_nat (length (data_of ?fs)), T + of_nat (64 * length ?fs), of_nat (length (data_of ?fs)))"
      "ready d3" "fd_cfg d3 = fd_cfg d2" "block_rep (fd_mem d3) (unat T) (unat D) ?fs"
      "same_outside (unat T) (unat D) (fd_mem d2) (fd_mem d3)"
      using reorganize_loop_ok [OF d2(2) at2 rep2 es _ t dd] by auto
    have so3: "same_outside (unat T) (unat D) ?m (fd_mem d3)"
      using d3(5) same_outside_erase [of "unat T" "unat D" ?m] d2(4) d1(4) d0(2)
      by (auto intro: same_outside_trans)
    have full: "FLASH_SECTOR_SIZE \<le> of_nat (length (data_of ?fs)) + of_nat (length v) \<longleftrightarrow> \<not> block_room es v"
      using sector_wrap [OF lf big] room by auto
    show "runsP (\<lambda>d. do {
         d1 \<leftarrow> dd_erase_sector d T;
         d2 \<leftarrow> dd_erase_sector d1 D;
         (d3, dw_data_addr, dw_name_addr, dw_offset) \<leftarrow> reorganize_loop d2 ?nt ?db 0 D T 0;
         if FLASH_SECTOR_SIZE \<le> dw_offset + of_nat (length v) then Some (kGeneralErr, d3)
         else do {
           d4 \<leftarrow> flash_write d3 buf (of_nat (length v)) dw_data_addr;
           d5 \<leftarrow> flash_write d4
                  (name_bytes (nd\<lparr>dwlength := of_nat (length v), dwOffsetByByte := dw_offset,
                                         dwUsingFlag := FLASH_SPACE_USING\<rparr>))
                  PER_NAME_FLASH_SIZE dw_name_addr;
           Some (kNoErr, d5) } }) d0 (if block_room es v then kNoErr else kGeneralErr) ?P"
    proof (cases "block_room es v")
      case False
      then show ?thesis
        using d0 d1 d2 d3 full so3 by (simp add: runsP_def)
    next
      case True
      have at3: "block_at d3 T D" using at2 block_at_cfg [OF d3(3)] by simp
      have fit: "length (data_of ?fs) + length v < 4096" using True room by simp
      obtain d4 d5 where d45:
        "flash_write d3 buf (of_nat (length v)) (D + of_nat (length (data_of ?fs))) = Some d4"
        "flash_write d4 (enc_entry (length (data_of ?fs)) (True, nm, v)) 64 (T + of_nat (64 * length ?fs)) = Some d5"
        "ready d5" "fd_cfg d5 = fd_cfg d3"
        "fd_mem d5 = append_entry (unat T) (unat D) ?fs nm v (fd_mem d3)"
        using ready_append [OF d3(2) at3 d3(4) len fit v, of nm] by blast
      have "block_rep (fd_mem d5) (unat T) (unat D) (?fs @ [(True, nm, v)])"
        unfolding d45(5) using block_rep_append [OF d3(4) disj len fit nm(1)] nm(2) by simp
      moreover have "same_outside (unat T) (unat D) ?m (fd_mem d5)"
        unfolding d45(5) using so3 same_outside_append [OF len fit] by (blast intro: same_outside_trans)
      ultimately show ?thesis
        using True d0 d1 d2 d3 d45 full nm(3)
        by (simp add: runsP_def entry_final PER_NAME_FLASH_SIZE_def)
    qed
  qed
  then show ?thesis by (simp add: runsP_def)
qed


subsection \<open>Storing a new entry\<close>

definition put_post ::
  "nat \<Rightarrow> nat \<Rightarrow> (nat \<Rightarrow> u8) \<Rightarrow> (u8 list \<Rightarrow> u8 list option) \<Rightarrow> (nat \<Rightarrow> u8) \<Rightarrow> bool" where
  "put_post T D m g m' \<longleftrightarrow>
     (\<exists>es'. block_rep m' T D es' \<and> (\<forall>n. block_get es' n = g n)) \<and> same_outside T D m m'"

lemma masked_count:
  "length es = 64 \<Longrightarrow> 0 < length (filter (\<lambda>e. \<not> live e) es) \<longleftrightarrow> length (filter live es) < 64"
  using sum_length_filter_compl [of live es] by linarith

lemma set_new_addr_ok:
  assumes ok: "flash_ok d" and at: "block_at d T D" and rep: "block_rep (fd_mem d) (unat T) (unat D) es"
    and nm: "good_name nm" "nm \<notin> set (live_names es)" "ucName nd = put_name 52 nm"
    and big: "length v < 2147483648" and v: "take (length v) buf = v" and mal: "mal 4096"
  shows "runsP (\<lambda>d. bk_set_name_data_new_addr mal d D T buf (of_nat (length v)) nd) d
      (if block_room es v then kNoErr else kGeneralErr)
      (put_post (unat T) (unat D) (fd_mem d)
         (\<lambda>n. if block_room es v \<and> n = nm then Some v else block_get es n))"
proof -
  let ?m = "fd_mem d" and ?r = "block_room es v"
  let ?P = "put_post (unat T) (unat D) ?m (\<lambda>n. if ?r \<and> n = nm then Some v else block_get es n)"
  have t: "slice ?m (unat T) 4096 = enc_table 0 es @ replicate (4096 - 64 * length es) 0xFF"
    and es: "length es \<le> 64" "length (data_of es) < 4096"
    using rep by (simp_all add: block_rep_def)
  have disj: "unat T + 4096 \<le> unat D \<or> unat D + 4096 \<le> unat T" using at by (simp add: block_at_def)
  have slot: "slot_loop (slice ?m (unat T) 4096) 0 0 0 =
      (length es, of_nat (length (data_of es)), length (filter (\<lambda>e. \<not> live e) es))"
    using slot_loop_table [OF es(1), of 0 0] t by simp
  have sz: "unat FLASH_SECTOR_SIZE = 4096" by (simp add: FLASH_SECTOR_SIZE_def)
  have reorg: "runsP (\<lambda>d. bk_reorganize_name_data d T (flash_read d NAME_FLASH_TOTAL_SIZE T)
       (flash_read d FLASH_SECTOR_SIZE D) D buf (of_nat (length v)) nd) d0 (if ?r then kNoErr else kGeneralErr) ?P"
    if "ready d0" "fd_mem d0 = ?m" "fd_cfg d0 = fd_cfg d" "length (filter live es) < 64" for d0
  proof -
    have "block_at d0 T D" using at block_at_cfg [OF that(3)] by simp
    then have "runsP (\<lambda>d. bk_reorganize_name_data d T (slice (fd_mem d0) (unat T) 4096)
         (slice (fd_mem d0) (unat D) 4096) D buf (of_nat (length v)) nd) d0 (if ?r then kNoErr else kGeneralErr)
        (\<lambda>m'. block_rep m' (unat T) (unat D) (if ?r then filter live es @ [(True, nm, v)] else filter live es) \<and>
            same_outside (unat T) (unat D) (fd_mem d0) m')"
      using reorganize_ok [OF _ _ _ nm that(4) big v, of d0 T D] that rep
      unfolding runsP_def by simp
    moreover have "block_get (if ?r then filter live es @ [(True, nm, v)] else filter live es) n =
        (if ?r \<and> n = nm then Some v else block_get es n)" for n
      using block_get_filter_append [OF nm(2)] by (simp add: filter_live_block_get)
    ultimately have "runsP (\<lambda>d. bk_reorganize_name_data d T (slice (fd_mem d0) (unat T) 4096)
         (slice (fd_mem d0) (unat D) 4096) D buf (of_nat (length v)) nd) d0 (if ?r then kNoErr else kGeneralErr) ?P"
      unfolding put_post_def that(2) [symmetric] by (blast intro: runsP_mono)
    then show ?thesis unfolding runsP_def by (simp add: read_eq table_size sz)
  qed
  show ?thesis
  proof -
    let ?body = "\<lambda>d. let name_temp = flash_read d NAME_FLASH_TOTAL_SIZE T;
            (dw_loop, data_offset_addr, dw_mask_count) = slot_loop name_temp 0 0 0;
            data_buff = flash_read d FLASH_SECTOR_SIZE D in
        if dw_loop < FLASH_NAME_MAX_ARRAY then
          (if FLASH_SECTOR_SIZE \<le> data_offset_addr + of_nat (length v)
           then bk_reorganize_name_data d T name_temp data_buff D buf (of_nat (length v)) nd
           else do {
             d1 \<leftarrow> flash_write d buf (of_nat (length v)) (D + data_offset_addr);
             d2 \<leftarrow> flash_write d1
                    (name_bytes (nd\<lparr>dwlength := of_nat (length v), dwOffsetByByte := data_offset_addr,
                                           dwUsingFlag := FLASH_SPACE_USING\<rparr>))
                    PER_NAME_FLASH_SIZE (T + of_nat dw_loop * PER_NAME_FLASH_SIZE);
             Some (kNoErr, d2) })
        else if 0 < dw_mask_count
        then bk_reorganize_name_data d T name_temp data_buff D buf (of_nat (length v)) nd
        else Some (kGeneralErr, d)"
    have "runsP (\<lambda>d. unprotected d ?body) d (if ?r then kNoErr else kGeneralErr) ?P"
    proof (rule runsP_unprotected [OF ok])
      fix d0 assume d0: "ready d0" "fd_mem d0 = ?m" "fd_cfg d0 = fd_cfg d"
      note reorg = reorg [OF d0]
      have full: "FLASH_SECTOR_SIZE \<le> of_nat (length (data_of es)) + of_nat (length v) \<longleftrightarrow>
          4096 \<le> length (data_of es) + length v"
        by (rule sector_wrap [OF es(2) big])
      have eval: "?body d0 =
          (if length es < 64 then
             (if 4096 \<le> length (data_of es) + length v
              then bk_reorganize_name_data d0 T (flash_read d0 NAME_FLASH_TOTAL_SIZE T)
                     (flash_read d0 FLASH_SECTOR_SIZE D) D buf (of_nat (length v)) nd
              else do {
                d1 \<leftarrow> flash_write d0 buf (of_nat (length v)) (D + of_nat (length (data_of es)));
                d2 \<leftarrow> flash_write d1 (enc_entry (length (data_of es)) (True, nm, v)) 64 (T + of_nat (64 * length es));
                Some (kNoErr, d2) })
           else if 0 < length (filter (\<lambda>e. \<not> live e) es)
           then bk_reorganize_name_data d0 T (flash_read d0 NAME_FLASH_TOTAL_SIZE T)
                     (flash_read d0 FLASH_SECTOR_SIZE D) D buf (of_nat (length v)) nd
           else Some (kGeneralErr, d0))"
        using full nm(3)
        by (simp add: read_eq table_size slot d0(2) Let_def FLASH_NAME_MAX_ARRAY_def entry_final
            PER_NAME_FLASH_SIZE_def mult.commute)
      consider (append) "length es < 64" "length (data_of es) + length v < 4096"
        | (reorg) "length (filter live es) < 64" "length es < 64 \<Longrightarrow> 4096 \<le> length (data_of es) + length v"
            "\<not> length es < 64 \<Longrightarrow> 0 < length (filter (\<lambda>e. \<not> live e) es)"
        | (full) "\<not> length es < 64" "length (filter live es) = 64" "\<not> 0 < length (filter (\<lambda>e. \<not> live e) es)"
        using es(1) masked_count [of es] length_filter_le [of live es] by linarith
      then show "runsP ?body d0 (if ?r then kNoErr else kGeneralErr) ?P"
      proof cases
        case append
        have r: "?r"
          using append length_filter_le [of live es] length_data_filter [of es]
          unfolding block_room_def by linarith
        have at0: "block_at d0 T D" using at block_at_cfg [OF d0(3)] by simp
        obtain d1 d2 where d12:
          "flash_write d0 buf (of_nat (length v)) (D + of_nat (length (data_of es))) = Some d1"
          "flash_write d1 (enc_entry (length (data_of es)) (True, nm, v)) 64 (T + of_nat (64 * length es)) = Some d2"
          "ready d2" "fd_cfg d2 = fd_cfg d0"
          "fd_mem d2 = append_entry (unat T) (unat D) es nm v (fd_mem d0)"
          using ready_append [OF d0(1) at0 _ append v, of nm] rep d0(2) by auto
        have "?P (fd_mem d2)"
          unfolding d12(5) d0(2) put_post_def
          using block_rep_append [OF rep disj append nm(1,2)] block_get_append [OF nm(2)]
            same_outside_append [OF append] r
          by (intro conjI exI [of _ "es @ [(True, nm, v)]"]) auto
        then show ?thesis
          unfolding runsP_def eval using append r d12 by simp
      next
        case reorg
        then show ?thesis
          using reorg(1) \<open>length (filter live es) < 64 \<Longrightarrow> _\<close>
          unfolding runsP_def eval by (cases "length es < 64") simp_all
      next
        case full
        have "?P ?m" unfolding put_post_def
          using rep full by (intro conjI exI [of _ es]) (auto simp: block_room_def)
        then show ?thesis
          unfolding runsP_def eval using full d0 by (simp add: block_room_def)
      qed
    qed
    then show ?thesis
      using mal unfolding runsP_def bk_set_name_data_new_addr_def by (simp add: table_size sz)
  qed
qed


subsection \<open>Reading an entry\<close>

lemma entry_read:
  assumes "block_rep m T D es" "i < length es"
  shows "name_of_bytes (slice m (T + 64 * i) 64) = entry_rec (length (data_of (take i es))) (es ! i)"
proof -
  have t: "slice m T 4096 = enc_table 0 es @ replicate (4096 - 64 * length es) 0xFF" and l: "length es \<le> 64"
    using assms(1) by (simp_all add: block_rep_def)
  have "slice m (T + 64 * i) 64 = take 64 (drop (64 * i) (slice m T 4096))"
    using assms(2) l by (simp add: slice_simps)
  then show ?thesis
    unfolding t using nth_name_table [OF assms(2), of 0] by (simp only: nth_name_def add_0)
qed

lemma value_read:
  assumes "block_rep m T D es" "i < length es"
  shows "slice m (D + length (data_of (take i es))) (length (val_of (es ! i))) = val_of (es ! i)"
proof -
  let ?o = "length (data_of (take i es))" and ?l = "length (val_of (es ! i))"
  have d: "slice m D 4096 = data_of es @ replicate (4096 - length (data_of es)) 0xFF"
    and lt: "length (data_of es) < 4096"
    using assms(1) by (simp_all add: block_rep_def)
  have "?o + ?l \<le> length (data_of es)"
    using length_data_le [of "Suc i" es] data_take_Suc [OF assms(2)] by simp
  then have "slice m (D + ?o) ?l = take ?l (drop ?o (slice m D 4096))"
    using lt by (simp add: slice_simps min_absorb1)
  then show ?thesis unfolding d by (simp only: take_val [OF assms(2)])
qed

definition room_for :: "entry list \<Rightarrow> u8 list \<Rightarrow> u8 list \<Rightarrow> bool" where
  "room_for es nm v \<longleftrightarrow>
     (let fs = filter (\<lambda>e. live e \<and> nm_of e \<noteq> nm) es in
      length fs < 64 \<and> length (data_of fs) + length v < 4096)"

lemma filter_absent:
  "nm \<notin> set (live_names es) \<Longrightarrow> filter (\<lambda>e. live e \<and> nm_of e \<noteq> nm) es = filter live es"
  by (rule filter_cong [OF refl]) (auto simp only: in_live_names)

lemma room_absent: "nm \<notin> set (live_names es) \<Longrightarrow> block_room es v = room_for es nm v"
  by (simp add: room_for_def block_room_def filter_absent Let_def)

lemma room_mask:
  assumes "distinct (live_names es)" "i < length es" "live (es ! i)"
  shows "block_room (es[i := mask_entry (es ! i)]) v = room_for es (nm_of (es ! i)) v"
proof -
  obtain xs ys where es: "es = xs @ es ! i # ys"
    and up: "es[i := mask_entry (es ! i)] = xs @ mask_entry (es ! i) # ys"
    using mask_split [OF assms(2)] by blast
  let ?nm = "nm_of (es ! i)"
  have "distinct (live_names (xs @ es ! i # ys))" using assms(1) es by simp
  then have no: "?nm \<notin> set (live_names xs)" "?nm \<notin> set (live_names ys)"
    using assms(3) by (auto simp: live_names_def)
  have "filter (\<lambda>e. live e \<and> nm_of e \<noteq> ?nm) (xs @ es ! i # ys) = filter live (xs @ mask_entry (es ! i) # ys)"
    using no by (simp add: filter_absent mask_entry_def)
  then show ?thesis using es up by (simp add: room_for_def block_room_def Let_def)
qed

lemma put_post_cong:
  "put_post T D m g m' \<Longrightarrow> (\<And>n. g n = h n) \<Longrightarrow> put_post T D m h m'"
  by (auto simp: put_post_def)

lemma put_post_trans: "same_outside T D m m1 \<Longrightarrow> put_post T D m1 g m' \<Longrightarrow> put_post T D m g m'"
  by (auto simp: put_post_def intro: same_outside_trans)

lemma of_nat_less_2048: "n < 4096 \<Longrightarrow> n \<le> 2048 \<Longrightarrow> \<not> (2048 :: u32) < of_nat n"
  by (simp add: word_less_nat_alt unat_of_nat)

lemma of_nat_eq_u32: "a < 4294967296 \<Longrightarrow> b < 4294967296 \<Longrightarrow> (of_nat a :: u32) = of_nat b \<longleftrightarrow> a = b"
  by (simp add: word_of_nat_eq_iff take_bit_nat_eq_self)


subsection \<open>Setting a value\<close>

definition put_status :: "entry list \<Rightarrow> u8 list \<Rightarrow> u8 list \<Rightarrow> OSStatus" where
  "put_status es nm v = (if block_get es nm = Some v \<or> room_for es nm v then kNoErr else kGeneralErr)"

definition put_get :: "entry list \<Rightarrow> u8 list \<Rightarrow> u8 list \<Rightarrow> u8 list \<Rightarrow> u8 list option" where
  "put_get es nm v n =
     (if n = nm then (if block_get es nm = Some v \<or> room_for es nm v then Some v else None)
      else block_get es n)"

lemma mask_new_ok:
  assumes rdy: "ready d" and at: "block_at d T D" and rep: "block_rep (fd_mem d) (unat T) (unat D) es"
    and i: "i < length es" "live (es ! i)"
    and big: "length v < 2147483648" and v: "take (length v) buf = v" and mal: "mal 4096"
  shows "runsP (\<lambda>d. do {
      d1 \<leftarrow> flash_write d (name_bytes ((entry_rec (length (data_of (take i es))) (es ! i))
               \<lparr>dwUsingFlag := FLASH_SPACE_MASK\<rparr>)) 64 (T + of_nat (64 * i));
      bk_set_name_data_new_addr mal d1 D T buf (of_nat (length v))
        (name_of_bytes (flash_read d1 64 (T + of_nat (64 * i)))) }) d
    (if room_for es (nm_of (es ! i)) v then kNoErr else kGeneralErr)
    (put_post (unat T) (unat D) (fd_mem d)
       (\<lambda>n. if n = nm_of (es ! i) then (if room_for es (nm_of (es ! i)) v then Some v else None)
            else block_get es n))"
proof -
  let ?o = "length (data_of (take i es))" and ?nm = "nm_of (es ! i)"
  let ?es = "es[i := mask_entry (es ! i)]"
  let ?bs = "name_bytes ((entry_rec ?o (es ! i))\<lparr>dwUsingFlag := FLASH_SPACE_MASK\<rparr>)"
  have eq: "es ! i = (True, snd (es ! i))" using i(2) by (cases "es ! i") auto
  have dist: "distinct (live_names es)" and l64: "length es \<le> 64"
    and gn: "good_name ?nm" using rep i(1) by (simp_all add: block_rep_def)
  have disj: "unat T + 4096 \<le> unat D \<or> unat D + 4096 \<le> unat T" using at by (simp add: block_at_def)
  have lb: "length ?bs = 64" by (simp add: name_bytes_def entry_rec_def length_put_name)
  have a: "unat (T + of_nat (64 * i)) = unat T + 64 * i"
    by (rule addr_add [OF rdy]) (use at i(1) l64 in \<open>simp add: block_at_def\<close>)
  have capT: "unat (T + of_nat (64 * i)) + unat (64 :: u32) \<le> flash_cap d"
    using at i(1) l64 a by (simp add: block_at_def)
  obtain d1 where d1: "flash_write d ?bs 64 (T + of_nat (64 * i)) = Some d1" "ready d1" "fd_cfg d1 = fd_cfg d"
    "fd_mem d1 = nor_write (fd_mem d) (unat (T + of_nat (64 * i))) (take (unat (64 :: u32)) ?bs)"
    by (rule ready_write [OF rdy _ capT, of ?bs]) (use lb in auto)
  have m1: "fd_mem d1 = nor_write (fd_mem d) (unat T + 64 * i) ?bs"
    using d1(4) lb a by simp
  have rep1: "block_rep (fd_mem d1) (unat T) (unat D) ?es"
    unfolding m1
  proof (rule block_rep_mask [OF rep disj i, of ?bs "[]"])
    show "map2 (AND) (enc_entry ?o (es ! i)) (?bs @ []) = enc_entry ?o (mask_entry (es ! i))"
      using and_enc_entry [of ?o "snd (es ! i)"] by (subst (1 2) eq) (simp add: mask_entry_def)
  qed (use lb in simp_all)
  have so1: "same_outside (unat T) (unat D) (fd_mem d) (fd_mem d1)"
    unfolding m1 using lb i(1) l64 by (intro same_outside_table) simp
  have rd: "name_of_bytes (flash_read d1 64 (T + of_nat (64 * i))) = entry_rec (length (data_of (take i ?es))) (?es ! i)"
    using entry_read [OF rep1, of i] i(1) a by (simp add: read_eq)
  have fresh: "?nm \<notin> set (live_names ?es)"
    using live_names_mask [OF dist i] by simp
  have uc: "ucName (entry_rec (length (data_of (take i ?es))) (?es ! i)) = put_name 52 ?nm"
    using i(1) by (simp add: mask_entry_def)
  have at1: "block_at d1 T D" using at block_at_cfg [OF d1(3)] by simp
  have "runsP (\<lambda>d. bk_set_name_data_new_addr mal d D T buf (of_nat (length v))
        (entry_rec (length (data_of (take i ?es))) (?es ! i))) d1
      (if block_room ?es v then kNoErr else kGeneralErr)
      (put_post (unat T) (unat D) (fd_mem d1) (\<lambda>n. if block_room ?es v \<and> n = ?nm then Some v else block_get ?es n))"
    by (rule set_new_addr_ok [where mal = mal, OF ready_ok [OF d1(2)] at1 rep1 gn fresh uc big v mal])
  then obtain d2 where d2: "bk_set_name_data_new_addr mal d1 D T buf (of_nat (length v))
        (entry_rec (length (data_of (take i ?es))) (?es ! i)) = Some (if block_room ?es v then kNoErr else kGeneralErr, d2)"
    "put_post (unat T) (unat D) (fd_mem d1) (\<lambda>n. if block_room ?es v \<and> n = ?nm then Some v else block_get ?es n) (fd_mem d2)"
    "flash_ok d2" "fd_cfg d2 = fd_cfg d1" "ready d1 \<longrightarrow> ready d2"
    by (rule runsPE)
  have room: "block_room ?es v = room_for es ?nm v" by (rule room_mask [OF dist i])
  have "put_post (unat T) (unat D) (fd_mem d)
       (\<lambda>n. if n = ?nm then (if room_for es ?nm v then Some v else None) else block_get es n) (fd_mem d2)"
    using put_post_trans [OF so1 d2(2)] unfolding room
    by (rule put_post_cong) (use block_get_mask [OF dist i] in auto)
  then show ?thesis
    unfolding runsP_def using d1 d2 rd room by simp
qed

lemma set_name_data_ok:
  assumes ok: "flash_ok d" and at: "block_at d T D" and rep: "block_rep (fd_mem d) (unat T) (unat D) es"
    and T: "T = base + n_off" and D: "D = base + blk * FLASH_SECTOR_SIZE + NAME_FLASH_DATA_BASE_ADDR pt ns"
    and nm: "good_name nm" and small: "\<And>v0. block_get es nm = Some v0 \<Longrightarrow> length v0 \<le> 2048"
    and big: "length v < 2147483648" and v: "take (length v) buf = v" and mal: "mal 4096"
  shows "runsP (\<lambda>d. bk_set_name_data pt mal d ns nm base buf (of_nat (length v)) n_off blk) d
    (put_status es nm v) (put_post (unat T) (unat D) (fd_mem d) (put_get es nm v))"
proof -
  let ?f = "find (\<lambda>i. live (es ! i) \<and> nm_of (es ! i) = nm) [0..<length es]"
  have dist: "distinct (live_names es)" using rep by (simp add: block_rep_def)
  obtain d1 where d1: "get_name_addr mal d nm T =
      Some (map_option (\<lambda>i. (of_nat (64 * i), of_nat (length (data_of (take i es))))) ?f, d1)"
    "fd_mem d1 = fd_mem d" "flash_ok d1" "fd_cfg d1 = fd_cfg d" "ready d \<longrightarrow> ready d1"
    using get_name_addr_runs [where mal = mal and d = d and nm = nm and base = T, OF ok mal rep nm] by (rule runsE)
  have at1: "block_at d1 T D" using at block_at_cfg [OF d1(4)] by simp
  have rep1: "block_rep (fd_mem d1) (unat T) (unat D) es" using rep d1(2) by simp
  show ?thesis
  proof (cases ?f)
    case None
    then have g: "block_get es nm = None" using find_index_None by blast
    then have fresh: "nm \<notin> set (live_names es)" using block_get_None by blast
    let ?nd = "\<lparr>dwUsingFlag = FLASH_SPACE_USING, dwOffsetByByte = 0, dwlength = of_nat (length v),
        ucName = put_name 52 nm\<rparr>"
    have "runsP (\<lambda>d. bk_set_name_data_new_addr mal d D T buf (of_nat (length v)) ?nd) d1
      (if block_room es v then kNoErr else kGeneralErr)
      (put_post (unat T) (unat D) (fd_mem d1) (\<lambda>n. if block_room es v \<and> n = nm then Some v else block_get es n))"
      by (rule set_new_addr_ok [where mal = mal, OF d1(3) at1 rep1 nm fresh _ big v mal]) simp
    then have "runsP (\<lambda>d. bk_set_name_data_new_addr mal d D T buf (of_nat (length v)) ?nd) d1
      (put_status es nm v) (put_post (unat T) (unat D) (fd_mem d) (put_get es nm v))"
      using room_absent [OF fresh] g d1(2) unfolding put_status_def
      by (auto elim!: runsP_mono put_post_cong simp: put_get_def)
    then show ?thesis
      using d1 None unfolding runsP_def bk_set_name_data_def T D by (auto simp: Let_def)
  next
    case (Some i)
    have i: "i < length es" "live (es ! i)" "nm_of (es ! i) = nm" "block_get es nm = Some (val_of (es ! i))"
      using find_index_Some [OF dist Some] by auto
    let ?o = "length (data_of (take i es))" and ?l = "length (val_of (es ! i))"
    let ?body = "\<lambda>d.
         let name_temp = name_of_bytes (flash_read d 64 (T + of_nat (64 * i)));
             dw_actual_addr = D + of_nat ?o;
             data_buf = flash_read d (dwlength name_temp) dw_actual_addr;
             rewrite = (do {
               d1 \<leftarrow> flash_write d (name_bytes (name_temp\<lparr>dwUsingFlag := FLASH_SPACE_MASK\<rparr>)) 64
                      (T + of_nat (64 * i));
               bk_set_name_data_new_addr mal d1 (dw_actual_addr - of_nat ?o) T
                 buf (of_nat (length v)) (name_of_bytes (flash_read d1 64 (T + of_nat (64 * i)))) }) in
         if 2048 < dwlength name_temp then None
         else if dwlength name_temp \<noteq> of_nat (length v) then rewrite
         else if length buf < unat (of_nat (length v) :: u32) then None
         else if data_buf \<noteq> take (unat (of_nat (length v) :: u32)) buf then rewrite
         else Some (kNoErr, d)"
    have es: "length es \<le> 64" "length (data_of es) < 4096" using rep by (simp_all add: block_rep_def)
    have ol: "?o + ?l \<le> length (data_of es)"
      using length_data_le [of "Suc i" es] data_take_Suc [OF i(1)] by simp
    have l2048: "?l \<le> 2048" using small [OF i(4)] .
    have lv: "unat (of_nat (length v) :: u32) = length v" using big by (simp add: unat_of_nat)
    have ll: "unat (of_nat ?l :: u32) = ?l" using l2048 by (simp add: unat_of_nat)
    have lb: "length v \<le> length buf" using v by (metis length_take min.cobounded1)
    have "runsP (\<lambda>d. unprotected d ?body) d1 (put_status es nm v) (put_post (unat T) (unat D) (fd_mem d) (put_get es nm v))"
    proof (rule runsP_unprotected [OF d1(3)])
      fix d0 assume d0: "ready d0" "fd_mem d0 = fd_mem d1" "fd_cfg d0 = fd_cfg d1"
      have at0: "block_at d0 T D" using at1 block_at_cfg [OF d0(3)] by simp
      have rep0: "block_rep (fd_mem d0) (unat T) (unat D) es" using rep1 d0(2) by simp
      have a: "unat (T + of_nat (64 * i)) = unat T + 64 * i"
        by (rule addr_add [OF d0(1)]) (use at0 i(1) es(1) in \<open>simp add: block_at_def\<close>)
      have b: "unat (D + of_nat ?o) = unat D + ?o"
        by (rule addr_add [OF d0(1)]) (use at0 ol es(2) in \<open>simp add: block_at_def\<close>)
      have hdr: "name_of_bytes (flash_read d0 64 (T + of_nat (64 * i))) = entry_rec ?o (es ! i)"
        using entry_read [OF rep0 i(1)] a by (simp add: read_eq)
      have dat: "flash_read d0 (of_nat ?l) (D + of_nat ?o) = val_of (es ! i)"
        using value_read [OF rep0 i(1)] b ll by (simp add: read_eq)
      have bck: "D + of_nat ?o - of_nat ?o = D" by simp
      have small32: "\<not> (2048 :: u32) < of_nat ?l" using l2048 of_nat_less_2048 [of ?l] by simp
      have leq: "(of_nat ?l :: u32) = of_nat (length v) \<longleftrightarrow> ?l = length v"
        using l2048 big by (intro of_nat_eq_u32) simp_all
      let ?rw = "do {
          d1 \<leftarrow> flash_write d0 (name_bytes ((entry_rec ?o (es ! i))\<lparr>dwUsingFlag := FLASH_SPACE_MASK\<rparr>)) 64
                 (T + of_nat (64 * i));
          bk_set_name_data_new_addr mal d1 D T buf (of_nat (length v))
            (name_of_bytes (flash_read d1 64 (T + of_nat (64 * i)))) }"
      have eval: "?body d0 = (if val_of (es ! i) = v then Some (kNoErr, d0) else ?rw)"
      proof -
        have "?body d0 = (if (2048 :: u32) < of_nat ?l then None
            else if (of_nat ?l :: u32) \<noteq> of_nat (length v) then ?rw
            else if length buf < unat (of_nat (length v) :: u32) then None
            else if val_of (es ! i) \<noteq> take (unat (of_nat (length v) :: u32)) buf then ?rw
            else Some (kNoErr, d0))"
          by (simp only: Let_def hdr entry_rec_select bck dat)
        moreover have "(if (2048 :: u32) < of_nat ?l then None
            else if (of_nat ?l :: u32) \<noteq> of_nat (length v) then rw
            else if length buf < unat (of_nat (length v) :: u32) then None
            else if val_of (es ! i) \<noteq> take (unat (of_nat (length v) :: u32)) buf then rw
            else x) = (if val_of (es ! i) = v then x else rw)" for rw x :: "(OSStatus \<times> flash_dev) option"
          using small32 leq lb v unfolding lv by auto
        ultimately show ?thesis by (simp only:)
      qed
      show "runsP ?body d0 (put_status es nm v) (put_post (unat T) (unat D) (fd_mem d) (put_get es nm v))"
      proof (cases "val_of (es ! i) = v")
        case True
        have "put_get es nm v n = block_get es n" for n using True i(4) by (simp add: put_get_def)
        then have "put_post (unat T) (unat D) (fd_mem d) (put_get es nm v) (fd_mem d)"
          using rep unfolding put_post_def by auto
        then show ?thesis
          using True i(4) d0 d1 unfolding runsP_def eval put_status_def by simp
      next
        case False
        have "runsP (\<lambda>d. do {
            d1 \<leftarrow> flash_write d (name_bytes ((entry_rec ?o (es ! i))\<lparr>dwUsingFlag := FLASH_SPACE_MASK\<rparr>)) 64
                   (T + of_nat (64 * i));
            bk_set_name_data_new_addr mal d1 D T buf (of_nat (length v))
              (name_of_bytes (flash_read d1 64 (T + of_nat (64 * i)))) }) d0
          (if room_for es (nm_of (es ! i)) v then kNoErr else kGeneralErr)
          (put_post (unat T) (unat D) (fd_mem d0)
             (\<lambda>n. if n = nm_of (es ! i) then (if room_for es (nm_of (es ! i)) v then Some v else None)
                  else block_get es n))"
          by (rule mask_new_ok [where mal = mal, OF d0(1) at0 rep0 i(1,2) big v mal])
        moreover have "(\<lambda>n. if n = nm_of (es ! i) then (if room_for es (nm_of (es ! i)) v then Some v else None)
            else block_get es n) = put_get es nm v"
          using False i(3,4) by (auto simp: put_get_def fun_eq_iff)
        moreover have "put_status es nm v = (if room_for es (nm_of (es ! i)) v then kNoErr else kGeneralErr)"
          using False i(3,4) by (simp add: put_status_def)
        ultimately show ?thesis
          using False d0(2) d1(2) unfolding runsP_def eval by simp
      qed
    qed
    moreover have "bk_set_name_data pt mal d ns nm base buf (of_nat (length v)) n_off blk = unprotected d1 ?body"
      unfolding bk_set_name_data_def Let_def T [symmetric] D [symmetric] d1(1) Some
      by (simp only: option.map Option.bind.simps prod.case option.case)
    ultimately show ?thesis
      using d1(4,5) unfolding runsP_def by (simp only:) blast
  qed
qed

end
