(* ===== verification/KvStore.thy ===== *)
theory KvStore
  imports KvProof
begin

text \<open>
  The whole store: the namespace table, the blocks of all namespaces, and what the interface
  functions \<open>bk_write_data\<close>, \<open>bk_read_data\<close>, \<open>bk_clean_data\<close>, \<open>bk_ensure_namespace\<close>,
  \<open>bk_ensure_name_data\<close> and \<open>bK_clear_namespace\<close> do to the map it represents.
\<close>

subsection \<open>Namespace table\<close>

definition ns_rec :: "nat \<Rightarrow> u8 list \<Rightarrow> namespace_flash_t" where
  "ns_rec i s =
     \<lparr>ns_dwUsingFlag = FLASH_SPACE_USING,
      ns_dwOffsetByByte = of_nat i * NAME_FLASH_TOTAL_SIZE + NAME_SPACE_FLASH_TOTAL_SIZE,
      ucNamespace = put_name 56 s\<rparr>"

definition enc_slot :: "nat \<Rightarrow> u8 list option \<Rightarrow> u8 list" where
  "enc_slot i s = (case s of None \<Rightarrow> replicate 64 0xFF | Some x \<Rightarrow> namespace_bytes (ns_rec i x))"

definition good_ns :: "u8 list \<Rightarrow> bool" where
  "good_ns s \<longleftrightarrow> length s \<le> 55 \<and> 0 \<notin> set s"

definition ns_rep :: "(nat \<Rightarrow> u8) \<Rightarrow> nat \<Rightarrow> u8 list option list \<Rightarrow> bool" where
  "ns_rep m B slots \<longleftrightarrow>
     (\<forall>i < length slots. slice m (B + 64 * i) 64 = enc_slot i (slots ! i)) \<and>
     (\<forall>s. Some s \<in> set slots \<longrightarrow> good_ns s) \<and>
     (\<forall>i j. i < length slots \<longrightarrow> j < length slots \<longrightarrow> slots ! i \<noteq> None \<longrightarrow> slots ! i = slots ! j \<longrightarrow> i = j)"

lemma length_enc_slot [simp]: "length (enc_slot i s) = 64"
  by (cases s) (simp_all add: enc_slot_def namespace_bytes_def ns_rec_def length_put_name)

lemma namespace_of_ns_bytes: "length (ucNamespace e) = 56 \<Longrightarrow> namespace_of_bytes (namespace_bytes e) = e"
proof -
  assume l: "length (ucNamespace e) = 56"
  have g4: "get32 (le32 a @ xs) 4 = get32 xs 0" for a xs
    using get32_append_right [of "le32 a" 4 xs 0] by simp
  show ?thesis
    using l by (simp add: namespace_of_bytes_def namespace_bytes_def g4)
qed

lemma nth_namespace_rep:
  assumes "ns_rep m B slots" "i < length slots" "n = 64 * length slots"
  shows "nth_namespace (slice m B n) i = namespace_of_bytes (enc_slot i (slots ! i))"
proof -
  have "take 64 (drop (64 * i) (slice m B n)) = slice m (B + 64 * i) 64"
    using assms(2,3) by (simp add: slice_simps)
  then show ?thesis
    using assms(1,2) by (simp add: nth_namespace_def ns_rep_def)
qed

lemma nth_namespace_flag:
  assumes "ns_rep m B slots" "i < length slots" "n = 64 * length slots"
  shows "ns_dwUsingFlag (nth_namespace (slice m B n) i) = FLASH_SPACE_USING \<longleftrightarrow> slots ! i \<noteq> None"
  unfolding nth_namespace_rep [OF assms]
  by (cases "slots ! i")
    (simp_all add: enc_slot_def namespace_of_ns_bytes ns_rec_def length_put_name,
     simp add: namespace_of_bytes_def get32_FF)

lemma namespace_match_rep:
  assumes rep: "ns_rep m B slots" and i: "i < length slots" and n: "n = 64 * length slots" and g: "good_ns ns"
  shows "namespace_match (slice m B n) ns i \<longleftrightarrow> slots ! i = Some ns"
proof (cases "slots ! i")
  case None
  then show ?thesis using nth_namespace_flag [OF rep i n] by (simp add: namespace_match_def)
next
  case (Some s)
  have gs: "good_ns s" using rep i Some nth_mem [OF i] by (auto simp: ns_rep_def)
  have e: "nth_namespace (slice m B n) i = ns_rec i s"
    unfolding nth_namespace_rep [OF rep i n] Some enc_slot_def
    by (simp add: namespace_of_ns_bytes ns_rec_def length_put_name)
  have put: "put_name 56 s = s @ replicate (Suc (55 - length s)) 0"
  proof -
    have "56 - length s = Suc (55 - length s)" using gs by (simp only: good_ns_def) linarith
    then show ?thesis using gs put_name_good [of s 56] by (simp only: good_ns_def)
  qed
  have "drop (64 * i + 8) (slice m B n) = slice m (B + 64 * i + 8) 56 @ drop (64 * i + 64) (slice m B n)"
  proof -
    have k: "n - (64 * i + 8) = 56 + (n - (64 * i + 64))" using i n by linarith
    have "slice m (B + (64 * i + 8)) (n - (64 * i + 8)) =
        slice m (B + (64 * i + 8)) 56 @ slice m (B + (64 * i + 8) + 56) (n - (64 * i + 64))"
      unfolding k by (rule slice_append [symmetric])
    then show ?thesis by (simp add: slice_simps add.assoc)
  qed
  also have "slice m (B + 64 * i + 8) 56 = drop 8 (slice m (B + 64 * i) 64)"
    by (simp add: slice_simps)
  also have "slice m (B + 64 * i) 64 = namespace_bytes (ns_rec i s)"
    using rep i Some by (simp add: ns_rep_def enc_slot_def)
  also have "drop 8 (namespace_bytes (ns_rec i s)) = s @ replicate (Suc (55 - length s)) 0"
    by (simp add: namespace_bytes_def ns_rec_def put)
  finally have len: "c_strlen (drop (64 * i + 8) (slice m B n)) = length s"
    using gs by (simp add: good_ns_def c_strlen_padded del: replicate_Suc)
  have nn: "bk_strnlen ns 55 = length ns" using g by (simp add: bk_strnlen_def good_ns_def)
  have "take (length ns) (put_name 56 s) = ns \<and> length s = length ns \<longleftrightarrow> s = ns"
    unfolding put by (auto simp del: replicate_Suc)
  then show ?thesis
    unfolding namespace_match_def e len nn Let_def Some by (auto simp: ns_rec_def)
qed


definition slot_of :: "u8 list option list \<Rightarrow> u8 list \<Rightarrow> nat option" where
  "slot_of slots ns = find (\<lambda>i. slots ! i = Some ns) [0..<length slots]"

definition free_slot :: "u8 list option list \<Rightarrow> nat option" where
  "free_slot slots = find (\<lambda>i. slots ! i = None) [0..<length slots]"

lemma slot_of_Some: "slot_of slots ns = Some i \<Longrightarrow> i < length slots \<and> slots ! i = Some ns"
  by (auto simp: slot_of_def find_Some_iff)

lemma slot_of_None: "slot_of slots ns = None \<longleftrightarrow> Some ns \<notin> set slots"
  by (auto simp: slot_of_def find_None_iff in_set_conv_nth)

lemma free_slot_Some: "free_slot slots = Some i \<Longrightarrow> i < length slots \<and> slots ! i = None"
  by (auto simp: free_slot_def find_Some_iff)

lemma slot_of_eq:
  "ns_rep m B slots \<Longrightarrow> i < length slots \<Longrightarrow> slots ! i = Some ns \<Longrightarrow> slot_of slots ns = Some i"
proof -
  assume rep: "ns_rep m B slots" and i: "i < length slots" "slots ! i = Some ns"
  then have "slot_of slots ns \<noteq> None" using slot_of_None by (metis nth_mem)
  then obtain j where j: "slot_of slots ns = Some j" by blast
  then show ?thesis using slot_of_Some [OF j] rep i unfolding ns_rep_def by (metis option.distinct(1))
qed

subsection \<open>Placement\<close>

text \<open>
  The partition of a namespace holds \<open>n\<close> namespaces: one sector of namespace entries, \<open>n\<close>
  sectors of name entries and \<open>n\<close> data sectors, so \<open>2 n + 1\<close> sectors in all.
\<close>

definition kv_fits :: "part_table \<Rightarrow> u8 list \<Rightarrow> flash_dev \<Rightarrow> u32 \<Rightarrow> nat \<Rightarrow> bool" where
  "kv_fits pt ns d base n \<longleftrightarrow>
     get_matter_flash_base_addr pt ns = Some base \<and> ns_max pt ns = n \<and> n \<le> 64 \<and>
     4096 dvd unat base \<and> unat base + 4096 * (2 * n + 1) \<le> flash_cap d"

definition tbl_addr :: "nat \<Rightarrow> nat \<Rightarrow> nat" where "tbl_addr B i = B + 4096 * (i + 1)"
definition dat_addr :: "nat \<Rightarrow> nat \<Rightarrow> nat \<Rightarrow> nat" where "dat_addr B n i = B + 4096 * (n + 1 + i)"

lemma data_base:
  assumes "ns_max pt ns = n" "n \<le> 64"
  shows "NAME_FLASH_DATA_BASE_ADDR pt ns = of_nat (4096 * (n + 1))"
proof -
  have u: "(ucast (get_falsh_name_space_max_array pt ns) :: u32) = of_nat n"
  proof -
    have "(of_nat (ns_max pt ns) :: u32) = ucast (get_falsh_name_space_max_array pt ns)" by simp
    then show ?thesis by (simp only: assms(1))
  qed
  have h: "NAME_FLASH_TOTAL_HEADER pt ns = push_bit 12 (of_nat (n + 1))"
    unfolding NAME_FLASH_TOTAL_HEADER_def u
    by (simp add: NAME_FLASH_TOTAL_SIZE_def NAME_SPACE_FLASH_TOTAL_SIZE_def push_bit_eq_mult algebra_simps)
  have m: "(0xFFF :: u32) = mask 12" by (simp add: mask_eq_decr_exp)
  have "(push_bit 12 (of_nat (n + 1)) :: u32) AND mask 12 = 0"
    by (rule bit_word_eqI) (auto simp: bit_simps)
  moreover have "(push_bit 12 (of_nat (n + 1)) :: u32) AND NOT (mask 12) = push_bit 12 (of_nat (n + 1))"
    by (rule bit_word_eqI) (auto simp: bit_simps)
  ultimately show ?thesis
    unfolding NAME_FLASH_DATA_BASE_ADDR_def h m by (simp add: push_bit_eq_mult)
qed


lemma unat_small: "k < 4294967296 \<Longrightarrow> unat (of_nat k :: u32) = k"
  unfolding unat_of_nat by simp

lemma use_size:
  assumes "ns_max pt ns = n" "n \<le> 64"
  shows "unat (NAME_SPACE_FLASH_ACTUAL_USE_SIZE pt ns) = 64 * n"
proof -
  have "(of_nat (ns_max pt ns) :: u32) = ucast (get_falsh_name_space_max_array pt ns)" by simp
  then have "NAME_SPACE_FLASH_ACTUAL_USE_SIZE pt ns = of_nat (64 * n)"
    by (simp add: NAME_SPACE_FLASH_ACTUAL_USE_SIZE_def assms(1))
  then show ?thesis using assms(2) unat_small [of "64 * n"] by (simp only:)
qed

lemma slot_offset: "(of_nat i * NAME_FLASH_TOTAL_SIZE + NAME_SPACE_FLASH_TOTAL_SIZE :: u32) = of_nat (4096 * (i + 1))"
  by (simp add: NAME_FLASH_TOTAL_SIZE_def NAME_SPACE_FLASH_TOTAL_SIZE_def algebra_simps)

lemma ns_rec_offset: "ns_dwOffsetByByte (ns_rec i s) = of_nat (4096 * (i + 1))"
  unfolding ns_rec_def by (simp only: namespace_flash_t.simps slot_offset)

lemma find_namespace_rep:
  assumes "ns_rep m B slots" "good_ns ns" "n = 64 * length slots"
  shows "find (namespace_match (slice m B n) ns) [0..<length slots] = slot_of slots ns"
  unfolding slot_of_def
  by (rule find_cong [OF refl]) (use namespace_match_rep [OF assms(1) _ assms(3,2)] in auto)

lemma get_namespace_addr_ok:
  assumes ok: "flash_ok d" and mal: "\<And>k. mal k" and fits: "kv_fits pt ns d base n"
    and rep: "ns_rep (fd_mem d) (unat base) slots" and len: "length slots = n" and g: "good_ns ns"
  shows "runsP (\<lambda>d. get_namespace_addr pt mal d ns base) d
    (map_option (\<lambda>i. (of_nat (4096 * (i + 1)), of_nat i)) (slot_of slots ns)) (\<lambda>m'. m' = fd_mem d)"
proof -
  let ?arr = "slice (fd_mem d) (unat base) (64 * n)"
  let ?sz = "NAME_SPACE_FLASH_ACTUAL_USE_SIZE pt ns"
  have n: "ns_max pt ns = n" "n \<le> 64" using fits by (simp_all add: kv_fits_def)
  have sz: "unat ?sz = 64 * n" by (rule use_size [OF n])
  have "runsP (\<lambda>d. unprotected d (\<lambda>d. Some (flash_read d ?sz base, d))) d ?arr (\<lambda>m'. m' = fd_mem d)"
  proof (rule runsP_unprotected [OF ok])
    fix d1 assume "ready d1" "fd_mem d1 = fd_mem d"
    then show "runsP (\<lambda>d. Some (flash_read d ?sz base, d)) d1 ?arr (\<lambda>m'. m' = fd_mem d)"
      by (simp add: runsP_def read_eq sz)
  qed
  then obtain d1 where d1: "unprotected d (\<lambda>d. Some (flash_read d ?sz base, d)) = Some (?arr, d1)"
    "fd_mem d1 = fd_mem d" "flash_ok d1" "fd_cfg d1 = fd_cfg d" "ready d \<longrightarrow> ready d1"
    by (rule runsPE)
  have f: "find (namespace_match ?arr ns) [0..<ns_max pt ns] = slot_of slots ns"
    using find_namespace_rep [OF rep g, of "64 * n"] len n by simp
  have o: "map_option (\<lambda>i. (ns_dwOffsetByByte (nth_namespace ?arr i), of_nat i)) (slot_of slots ns)
      = map_option (\<lambda>i. (of_nat (4096 * (i + 1)), of_nat i)) (slot_of slots ns)"
  proof (cases "slot_of slots ns")
    case (Some i)
    then have i: "i < length slots" "slots ! i = Some ns" using slot_of_Some by auto
    have "nth_namespace ?arr i = ns_rec i ns"
      using nth_namespace_rep [OF rep i(1), of "64 * n"] len i(2)
      by (simp add: enc_slot_def namespace_of_ns_bytes ns_rec_def length_put_name)
    then show ?thesis using Some ns_rec_offset [of i ns] by simp
  qed simp
  have "get_namespace_addr pt mal d ns base =
      Some (map_option (\<lambda>i. (of_nat (4096 * (i + 1)), of_nat i)) (slot_of slots ns), d1)"
    unfolding get_namespace_addr_def Let_def d1(1) o [symmetric]
    by (simp only: mal not_True_eq_False if_False Option.bind.simps prod.case f)
  then show ?thesis using d1 by (simp add: runsP_def)
qed

lemma slice_write_other:
  "i \<noteq> j \<Longrightarrow> length bs = 64 \<Longrightarrow> slice (nor_write m (B + 64 * i) bs) (B + 64 * j) 64 = slice m (B + 64 * j) 64"
proof -
  assume ij: "i \<noteq> j" and l: "length bs = 64"
  have "B + 64 * i + 64 \<le> B + 64 * j \<or> B + 64 * j + 64 \<le> B + 64 * i"
  proof (cases "i < j")
    case True
    then have "64 * (i + 1) \<le> 64 * j" by (intro mult_le_mono2) simp
    then show ?thesis by simp
  next
    case False
    then have "64 * (j + 1) \<le> 64 * i" using ij by (intro mult_le_mono2) simp
    then show ?thesis by simp
  qed
  then show ?thesis by (intro slice_write_outside) (simp only: l)
qed

lemma ns_rep_write:
  assumes rep: "ns_rep m B slots" and i: "i < length slots" "slots ! i = None" and g: "good_ns ns"
    and fresh: "Some ns \<notin> set slots"
  shows "ns_rep (nor_write m (B + 64 * i) (namespace_bytes (ns_rec i ns))) B (slots[i := Some ns])"
proof -
  let ?bs = "namespace_bytes (ns_rec i ns)"
  have lb: "length ?bs = 64" using length_enc_slot [of i "Some ns"] by (simp add: enc_slot_def)
  have "slice m (B + 64 * i) 64 = [] @ replicate 64 0xFF"
    using rep i by (simp add: ns_rep_def enc_slot_def)
  then have w: "slice (nor_write m (B + 64 * i) ?bs) (B + 64 * i) 64 = ?bs"
    using slice_write_erased [of m "B + 64 * i" 64 "[]" 64 ?bs] lb by simp
  have "slice (nor_write m (B + 64 * i) ?bs) (B + 64 * j) 64 = enc_slot j (slots[i := Some ns] ! j)"
    if "j < length slots" for j
    using that w rep i lb slice_write_other [of i j ?bs m B]
    by (cases "j = i") (auto simp: ns_rep_def enc_slot_def)
  moreover have "good_ns s" if "Some s \<in> set (slots[i := Some ns])" for s
    using that g rep set_update_subset_insert [of slots i "Some ns"] by (auto simp: ns_rep_def)
  moreover have "j = k" if "j < length slots" "k < length slots" "slots[i := Some ns] ! j \<noteq> None"
    "slots[i := Some ns] ! j = slots[i := Some ns] ! k" for j k
  proof (cases "j = i \<or> k = i")
    case True
    have "slots ! j \<noteq> Some ns" "slots ! k \<noteq> Some ns"
      using fresh nth_mem [OF that(1)] nth_mem [OF that(2)] by auto
    then show ?thesis using True that i(1) by (auto simp: nth_list_update split: if_splits)
  next
    case False
    then have "slots ! j \<noteq> None" "slots ! j = slots ! k" using that by simp_all
    then show ?thesis using rep that(1,2) unfolding ns_rep_def by blast
  qed
  ultimately show ?thesis unfolding ns_rep_def length_list_update by blast
qed

lemma set_namespace_ok:
  assumes ok: "flash_ok d" and mal: "\<And>k. mal k" and fits: "kv_fits pt ns d base n"
    and rep: "ns_rep (fd_mem d) (unat base) slots" and len: "length slots = n"
  shows "runsP (\<lambda>d. bk_set_namespace pt mal d ns base) d
    (map_option (\<lambda>i. (of_nat (4096 * (i + 1)), of_nat i)) (free_slot slots))
    (\<lambda>m'. m' = (case free_slot slots of None \<Rightarrow> fd_mem d
      | Some i \<Rightarrow> nor_write (fd_mem d) (unat base + 64 * i) (namespace_bytes (ns_rec i ns))))"
proof -
  let ?sz = "NAME_SPACE_FLASH_ACTUAL_USE_SIZE pt ns"
  let ?r = "map_option (\<lambda>i. (of_nat (4096 * (i + 1)), of_nat i)) (free_slot slots)"
  let ?P = "\<lambda>m'. m' = (case free_slot slots of None \<Rightarrow> fd_mem d
      | Some i \<Rightarrow> nor_write (fd_mem d) (unat base + 64 * i) (namespace_bytes (ns_rec i ns)))"
  have n: "ns_max pt ns = n" "n \<le> 64" and capB: "unat base + 4096 \<le> flash_cap d"
    using fits by (simp_all add: kv_fits_def)
  have sz: "unat ?sz = 64 * n" by (rule use_size [OF n])
  have f: "find (\<lambda>i. ns_dwUsingFlag (nth_namespace (slice (fd_mem d) (unat base) (64 * n)) i) \<noteq> FLASH_SPACE_USING)
      [0..<ns_max pt ns] = free_slot slots"
    unfolding free_slot_def n(1) len
    by (rule find_cong [OF refl]) (use nth_namespace_flag [OF rep, of _ "64 * n"] len in auto)
  have "runsP (\<lambda>d. unprotected d (\<lambda>d.
        let arr = flash_read d ?sz base in
        case find (\<lambda>i. ns_dwUsingFlag (nth_namespace arr i) \<noteq> FLASH_SPACE_USING) [0..<ns_max pt ns] of
          None \<Rightarrow> Some (None, d)
        | Some i \<Rightarrow>
            (let e = \<lparr>ns_dwUsingFlag = FLASH_SPACE_USING,
                      ns_dwOffsetByByte = of_nat i * NAME_FLASH_TOTAL_SIZE + NAME_SPACE_FLASH_TOTAL_SIZE,
                      ucNamespace = put_name 56 ns\<rparr> in
             map_option (\<lambda>d1. (Some (ns_dwOffsetByByte e, of_nat i), d1))
               (flash_write d (namespace_bytes e) PER_NAME_SPACE_FLASH_SIZE
                  (base + of_nat i * PER_NAME_SPACE_FLASH_SIZE))))) d ?r ?P"
  proof (rule runsP_unprotected [OF ok])
    fix d0 assume d0: "ready d0" "fd_mem d0 = fd_mem d" "fd_cfg d0 = fd_cfg d"
    show "runsP (\<lambda>d.
        let arr = flash_read d ?sz base in
        case find (\<lambda>i. ns_dwUsingFlag (nth_namespace arr i) \<noteq> FLASH_SPACE_USING) [0..<ns_max pt ns] of
          None \<Rightarrow> Some (None, d)
        | Some i \<Rightarrow>
            (let e = \<lparr>ns_dwUsingFlag = FLASH_SPACE_USING,
                      ns_dwOffsetByByte = of_nat i * NAME_FLASH_TOTAL_SIZE + NAME_SPACE_FLASH_TOTAL_SIZE,
                      ucNamespace = put_name 56 ns\<rparr> in
             map_option (\<lambda>d1. (Some (ns_dwOffsetByByte e, of_nat i), d1))
               (flash_write d (namespace_bytes e) PER_NAME_SPACE_FLASH_SIZE
                  (base + of_nat i * PER_NAME_SPACE_FLASH_SIZE)))) d0 ?r ?P"
    proof (cases "free_slot slots")
      case None
      then show ?thesis using d0 by (simp add: runsP_def read_eq sz f Let_def)
    next
      case (Some i)
      let ?bs = "namespace_bytes (ns_rec i ns)"
      have i: "i < n" using free_slot_Some [OF Some] len by simp
      have lb: "length ?bs = 64" using length_enc_slot [of i "Some ns"] by (simp add: enc_slot_def)
      have a: "unat (base + of_nat (64 * i)) = unat base + 64 * i"
        by (rule addr_add [OF d0(1)]) (use capB i n(2) cap_cfg [OF d0(3)] in simp)
      obtain d1 where d1: "flash_write d0 ?bs 64 (base + of_nat (64 * i)) = Some d1" "ready d1" "fd_cfg d1 = fd_cfg d0"
        "fd_mem d1 = nor_write (fd_mem d0) (unat (base + of_nat (64 * i))) (take (unat (64 :: u32)) ?bs)"
        by (rule ready_write [OF d0(1), of 64 ?bs "base + of_nat (64 * i)"])
          (use lb a capB i n(2) cap_cfg [OF d0(3)] in auto)
      have m1: "fd_mem d1 = nor_write (fd_mem d) (unat base + 64 * i) ?bs"
        using d1(4) lb a d0(2) by simp
      have p64: "of_nat i * PER_NAME_SPACE_FLASH_SIZE = of_nat (64 * i)" "PER_NAME_SPACE_FLASH_SIZE = 64"
        by (simp_all add: PER_NAME_SPACE_FLASH_SIZE_def mult.commute)
      show ?thesis
        unfolding runsP_def Let_def read_eq sz d0(2) f Some option.case ns_rec_def [symmetric] p64(1)
        unfolding p64(2) d1(1) using d1(2,3) d0(3) m1 ns_rec_offset [of i ns] by simp
    qed
  qed
  then show ?thesis
    using mal unfolding runsP_def bk_set_namespace_def Let_def by simp
qed


subsection \<open>The store as a map\<close>

definition kv_rep :: "(nat \<Rightarrow> u8) \<Rightarrow> nat \<Rightarrow> u8 list option list \<Rightarrow> entry list list \<Rightarrow> bool" where
  "kv_rep m B slots blks \<longleftrightarrow>
     ns_rep m B slots \<and> length blks = length slots \<and>
     (\<forall>i < length slots.
        block_rep m (tbl_addr B i) (dat_addr B (length slots) i) (blks ! i) \<and>
        (slots ! i = None \<longrightarrow> blks ! i = []))"

definition kv_get :: "u8 list option list \<Rightarrow> entry list list \<Rightarrow> u8 list \<Rightarrow> u8 list \<Rightarrow> u8 list option" where
  "kv_get slots blks ns nm =
     (case slot_of slots ns of None \<Rightarrow> None | Some i \<Rightarrow> block_get (blks ! i) nm)"

lemma block_rep_cong:
  "slice m T 4096 = slice m' T 4096 \<Longrightarrow> slice m D 4096 = slice m' D 4096 \<Longrightarrow> block_rep m T D es = block_rep m' T D es"
  by (simp add: block_rep_def)

lemma same_outside_slice:
  "same_outside T D m m' \<Longrightarrow> a + n \<le> T \<or> T + 4096 \<le> a \<Longrightarrow> a + n \<le> D \<or> D + 4096 \<le> a \<Longrightarrow> slice m' a n = slice m a n"
  by (intro slice_cong) (auto simp: same_outside_def)

lemma addr_apart:
  assumes "i < n" "j < n"
  shows "i \<noteq> j \<Longrightarrow> tbl_addr B i + 4096 \<le> tbl_addr B j \<or> tbl_addr B j + 4096 \<le> tbl_addr B i"
    and "i \<noteq> j \<Longrightarrow> dat_addr B n i + 4096 \<le> dat_addr B n j \<or> dat_addr B n j + 4096 \<le> dat_addr B n i"
    and "tbl_addr B i + 4096 \<le> dat_addr B n j"
    and "B + 4096 \<le> tbl_addr B i" and "B + 4096 \<le> dat_addr B n i"
proof -
  have lt: "4096 * x + 4096 \<le> 4096 * y" if "x < y" for x y :: nat using that by linarith
  show "tbl_addr B i + 4096 \<le> dat_addr B n j"
    using lt [of "i + 1" "n + 1 + j"] assms by (simp add: tbl_addr_def dat_addr_def)
  show "B + 4096 \<le> tbl_addr B i" "B + 4096 \<le> dat_addr B n i"
    by (simp_all add: tbl_addr_def dat_addr_def)
  assume ne: "i \<noteq> j"
  show "tbl_addr B i + 4096 \<le> tbl_addr B j \<or> tbl_addr B j + 4096 \<le> tbl_addr B i"
    using lt [of i j] lt [of j i] ne by (cases "i < j") (simp_all add: tbl_addr_def)
  show "dat_addr B n i + 4096 \<le> dat_addr B n j \<or> dat_addr B n j + 4096 \<le> dat_addr B n i"
    using lt [of i j] lt [of j i] ne by (cases "i < j") (simp_all add: dat_addr_def)
qed

lemma kv_rep_update_block:
  assumes rep: "kv_rep m B slots blks" and n: "length slots \<le> 64" and i: "i < length slots" "slots ! i \<noteq> None"
    and so: "same_outside (tbl_addr B i) (dat_addr B (length slots) i) m m'"
    and b: "block_rep m' (tbl_addr B i) (dat_addr B (length slots) i) es"
  shows "kv_rep m' B slots (blks[i := es])"
proof -
  let ?n = "length slots"
  have ns: "slice m' (B + 64 * j) 64 = slice m (B + 64 * j) 64" if j: "j < ?n" for j
  proof (rule same_outside_slice [OF so])
    have "B + 64 * j + 64 \<le> B + 4096" using j n by simp
    then show "B + 64 * j + 64 \<le> tbl_addr B i \<or> tbl_addr B i + 4096 \<le> B + 64 * j"
      "B + 64 * j + 64 \<le> dat_addr B ?n i \<or> dat_addr B ?n i + 4096 \<le> B + 64 * j"
      using addr_apart(4,5) [OF i(1) j, of B] by linarith+
  qed
  have blk: "block_rep m' (tbl_addr B j) (dat_addr B ?n j) (blks[i := es] ! j) \<and>
      (slots ! j = None \<longrightarrow> blks[i := es] ! j = [])" if j: "j < ?n" for j
  proof (cases "j = i")
    case True
    then show ?thesis using b i rep by (auto simp: kv_rep_def)
  next
    case False
    have "slice m' (tbl_addr B j) 4096 = slice m (tbl_addr B j) 4096"
      using addr_apart [OF j i(1), of B] addr_apart(3) [OF j i(1), of B] False by (intro same_outside_slice [OF so]) auto
    moreover have "slice m' (dat_addr B ?n j) 4096 = slice m (dat_addr B ?n j) 4096"
      using addr_apart [OF j i(1), of B] addr_apart(3) [OF i(1) j, of B] False by (intro same_outside_slice [OF so]) auto
    ultimately show ?thesis
      using rep j False block_rep_cong [of m' _ m] by (simp add: kv_rep_def)
  qed
  have "(\<forall>j < ?n. slice m' (B + 64 * j) 64 = enc_slot j (slots ! j)) =
      (\<forall>j < ?n. slice m (B + 64 * j) 64 = enc_slot j (slots ! j))"
    using ns by auto
  then have "ns_rep m' B slots = ns_rep m B slots" by (simp only: ns_rep_def)
  then show ?thesis
    using rep blk by (simp add: kv_rep_def)
qed

lemma kv_rep_new_slot:
  assumes rep: "kv_rep m B slots blks" and n: "length slots \<le> 64" and i: "i < length slots" "slots ! i = None"
    and g: "good_ns ns" and fresh: "Some ns \<notin> set slots"
  shows "kv_rep (nor_write m (B + 64 * i) (namespace_bytes (ns_rec i ns))) B (slots[i := Some ns]) blks"
proof -
  let ?n = "length slots" and ?bs = "namespace_bytes (ns_rec i ns)"
  let ?m' = "nor_write m (B + 64 * i) ?bs"
  have lb: "length ?bs = 64" using length_enc_slot [of i "Some ns"] by (simp add: enc_slot_def)
  have lim: "B + 64 * i + 64 \<le> B + 4096" using i n by simp
  have blk: "block_rep ?m' (tbl_addr B j) (dat_addr B ?n j) (blks ! j)" if j: "j < ?n" for j
  proof -
    have "slice ?m' (tbl_addr B j) 4096 = slice m (tbl_addr B j) 4096"
      "slice ?m' (dat_addr B ?n j) 4096 = slice m (dat_addr B ?n j) 4096"
      using addr_apart(4,5) [OF j i(1), of B] lim lb by (intro slice_write_outside; simp)+
    then show ?thesis using rep j block_rep_cong [of ?m' _ m] by (simp add: kv_rep_def)
  qed
  have "ns_rep m B slots" using rep by (simp add: kv_rep_def)
  then show ?thesis
    using rep blk ns_rep_write [OF _ i g fresh] i by (auto simp: kv_rep_def nth_list_update)
qed

lemma kv_addr:
  assumes fits: "kv_fits pt ns d base n" and ok: "flash_ok d" and i: "i < n"
  shows "unat (base + of_nat (4096 * (i + 1))) = tbl_addr (unat base) i"
    and "unat (base + of_nat i * FLASH_SECTOR_SIZE + NAME_FLASH_DATA_BASE_ADDR pt ns) = dat_addr (unat base) n i"
    and "block_at d (base + of_nat (4096 * (i + 1))) (base + of_nat i * FLASH_SECTOR_SIZE + NAME_FLASH_DATA_BASE_ADDR pt ns)"
proof -
  have n: "ns_max pt ns = n" "n \<le> 64" and al: "4096 dvd unat base"
    and cap: "unat base + 4096 * (2 * n + 1) \<le> flash_cap d"
    using fits by (simp_all add: kv_fits_def)
  have le: "flash_cap d \<le> 8388608" using flash_cap_le [OF ok] by simp
  have add: "unat (base + of_nat k) = unat base + k" if "k \<le> 4096 * (2 * n + 1)" for k
  proof -
    have "k < 4294967296" "unat base + k < 4294967296" using that cap le by linarith+
    then show ?thesis using unat_small [of k] unat_add_32 [of base "of_nat k"] by simp
  qed
  show t: "unat (base + of_nat (4096 * (i + 1))) = tbl_addr (unat base) i"
    unfolding tbl_addr_def by (rule add) (use i in simp)
  have da: "base + of_nat i * FLASH_SECTOR_SIZE + NAME_FLASH_DATA_BASE_ADDR pt ns = base + of_nat (4096 * (n + 1 + i))"
    unfolding data_base [OF n] by (simp add: FLASH_SECTOR_SIZE_def algebra_simps)
  show dd: "unat (base + of_nat i * FLASH_SECTOR_SIZE + NAME_FLASH_DATA_BASE_ADDR pt ns) = dat_addr (unat base) n i"
    unfolding dat_addr_def da by (rule add) (use i in simp)
  have "tbl_addr (unat base) i + 4096 \<le> flash_cap d" "dat_addr (unat base) n i + 4096 \<le> flash_cap d"
    using cap i by (simp_all add: tbl_addr_def dat_addr_def)
  moreover have "4096 dvd tbl_addr (unat base) i" "4096 dvd dat_addr (unat base) n i"
    using al by (simp_all only: tbl_addr_def dat_addr_def dvd_add_left_iff dvd_triv_left)
  ultimately show "block_at d (base + of_nat (4096 * (i + 1))) (base + of_nat i * FLASH_SECTOR_SIZE + NAME_FLASH_DATA_BASE_ADDR pt ns)"
    unfolding block_at_def t dd using addr_apart(3) [OF i i, of "unat base"] by simp
qed


subsection \<open>Writing and reading a value\<close>

definition good_key :: "u8 list \<Rightarrow> u8 list \<Rightarrow> u8 list \<Rightarrow> u8 list \<Rightarrow> bool" where
  "good_key ns0 nm0 ns nm \<longleftrightarrow>
     (\<exists>st. change_namespace_to_beken ns0 (Some nm0) 64 = Some (st, ns, Some nm)) \<and>
     good_ns ns \<and> good_name nm"

definition read_len :: "u8 list \<Rightarrow> u32 \<Rightarrow> u8 list" where
  "read_len v n = take (unat n) v"

lemma read_data_ok:
  assumes ok: "flash_ok d" and mal: "\<And>k. mal k" and key: "good_key ns0 nm0 ns nm"
    and fits: "kv_fits pt ns d base n"
    and rep: "kv_rep (fd_mem d) (unat base) slots blks" and len: "length slots = n"
  shows "runsP (\<lambda>d. bk_read_data pt mal d (Some ns0) (Some nm0) k) d
    (case kv_get slots blks ns nm of None \<Rightarrow> (kGeneralErr, []) | Some v \<Rightarrow> (kNoErr, take (unat k) v))
    (\<lambda>m'. m' = fd_mem d)"
proof -
  obtain st where ch: "change_namespace_to_beken ns0 (Some nm0) 64 = Some (st, ns, Some nm)"
    and g: "good_ns ns" "good_name nm"
    using key by (auto simp: good_key_def)
  have base: "get_matter_flash_base_addr pt ns = Some base" using fits by (simp add: kv_fits_def)
  have nsr: "ns_rep (fd_mem d) (unat base) slots" using rep by (simp add: kv_rep_def)
  obtain d1 where d1: "get_namespace_addr pt mal d ns base =
      Some (map_option (\<lambda>i. (of_nat (4096 * (i + 1)), of_nat i)) (slot_of slots ns), d1)"
    "fd_mem d1 = fd_mem d" "flash_ok d1" "fd_cfg d1 = fd_cfg d" "ready d \<longrightarrow> ready d1"
    using get_namespace_addr_ok [where mal = mal, OF ok mal fits nsr len g(1)] by (rule runsPE)
  show ?thesis
  proof (cases "slot_of slots ns")
    case None
    then have "bk_read_data pt mal d (Some ns0) (Some nm0) k = Some ((kGeneralErr, []), d1)"
      unfolding bk_read_data_def by (simp add: ch base d1(1))
    then show ?thesis using None d1 by (simp add: runsP_def kv_get_def)
  next
    case (Some i)
    have i: "i < length slots" "slots ! i = Some ns" using slot_of_Some [OF Some] by auto
    have i': "i < n" using i len by simp
    let ?es = "blks ! i" and ?T = "base + of_nat (4096 * (i + 1))"
    let ?D = "base + of_nat i * FLASH_SECTOR_SIZE + NAME_FLASH_DATA_BASE_ADDR pt ns"
    note addr = kv_addr [OF fits ok i']
    have b: "block_rep (fd_mem d) (unat ?T) (unat ?D) ?es"
      using rep i(1) len by (simp only: addr(1,2)) (simp add: kv_rep_def)
    then have b1: "block_rep (fd_mem d1) (unat ?T) (unat ?D) ?es" by (simp only: d1(2))
    let ?f = "find (\<lambda>j. live (?es ! j) \<and> nm_of (?es ! j) = nm) [0..<length ?es]"
    obtain d2 where d2: "get_name_addr mal d1 nm ?T =
        Some (map_option (\<lambda>j. (of_nat (64 * j), of_nat (length (data_of (take j ?es))))) ?f, d2)"
      "fd_mem d2 = fd_mem d1" "flash_ok d2" "fd_cfg d2 = fd_cfg d1" "ready d1 \<longrightarrow> ready d2"
      using get_name_addr_runs [where mal = mal and d = d1 and nm = nm and base = ?T, OF d1(3) mal b1 g(2)]
      by (auto simp only: runs_def)
    have kg: "kv_get slots blks ns nm = block_get ?es nm" using Some by (simp add: kv_get_def)
    show ?thesis
    proof (cases ?f)
      case None
      then have "block_get ?es nm = None" using find_index_None by blast
      moreover have "bk_read_data pt mal d (Some ns0) (Some nm0) k = Some ((kGeneralErr, []), d2)"
        unfolding bk_read_data_def Let_def
        by (simp only: ch base d1(1) Some option.map option.case Option.bind.simps prod.case option.sel d2(1) None)
      ultimately show ?thesis using d1 d2 kg by (simp add: runsP_def)
    next
      case (Some j)
      have dist: "distinct (live_names ?es)" using b by (simp add: block_rep_def)
      have j: "j < length ?es" "live (?es ! j)" "nm_of (?es ! j) = nm" "block_get ?es nm = Some (val_of (?es ! j))"
        using find_index_Some [OF dist Some] by auto
      let ?o = "length (data_of (take j ?es))" and ?v = "val_of (?es ! j)"
      let ?body = "\<lambda>d. let name_temp = name_of_bytes (flash_read d 64 (?T + of_nat (64 * j)));
                    dw_actual_len = (if dwlength name_temp < k then dwlength name_temp else k);
                    dw_data_addr = ?D + of_nat ?o in
                Some ((kNoErr, flash_read d dw_actual_len dw_data_addr), d)"
      have es: "length ?es \<le> 64" "length (data_of ?es) < 4096" using b by (simp_all add: block_rep_def)
      have ol: "?o + length ?v \<le> length (data_of ?es)"
        using length_data_le [of "Suc j" ?es] data_take_Suc [OF j(1)] by simp
      have R: "runsP (\<lambda>d. unprotected d ?body) d2 (kNoErr, take (unat k) ?v) (\<lambda>m'. m' = fd_mem d)"
      proof (rule runsP_unprotected [OF d2(3)])
        fix d0 assume d0: "ready d0" "fd_mem d0 = fd_mem d2" "fd_cfg d0 = fd_cfg d2"
        have at0: "block_at d0 ?T ?D" using addr(3) block_at_cfg [of d0 d] d0 d1 d2 by simp
        have b0: "block_rep (fd_mem d0) (unat ?T) (unat ?D) ?es" using b d0 d1 d2 by simp
        have a: "unat (?T + of_nat (64 * j)) = unat ?T + 64 * j"
          by (rule addr_add [OF d0(1)]) (use at0 j(1) es(1) in \<open>simp add: block_at_def\<close>)
        have c: "unat (?D + of_nat ?o) = unat ?D + ?o"
          by (rule addr_add [OF d0(1)]) (use at0 ol es(2) in \<open>simp add: block_at_def\<close>)
        have hdr: "name_of_bytes (flash_read d0 64 (?T + of_nat (64 * j))) = entry_rec ?o (?es ! j)"
          using entry_read [OF b0 j(1)] a by (simp add: read_eq)
        have lv: "unat (of_nat (length ?v) :: u32) = length ?v" using ol es(2) by (intro unat_small) simp
        have mn: "unat (if of_nat (length ?v) < k then of_nat (length ?v) else k) = min (unat k) (length ?v)"
          using lv by (simp add: word_less_nat_alt min_def)
        have "take (unat k) ?v = slice (fd_mem d0) (unat ?D + ?o) (min (unat k) (length ?v))"
          using value_read [OF b0 j(1)] by (metis take_slice)
        then show "runsP ?body d0 (kNoErr, take (unat k) ?v) (\<lambda>m'. m' = fd_mem d)"
          using d0(1) d0(2,3) d1(2) d2(2) ready_ok [OF d0(1)]
          unfolding runsP_def Let_def hdr entry_rec_select unfolding read_eq c mn by simp
      qed
      have step: "bk_read_data pt mal d (Some ns0) (Some nm0) k = unprotected d2 ?body"
        unfolding bk_read_data_def Let_def
        by (simp only: ch base d1(1) \<open>slot_of slots ns = Some i\<close> option.map option.case Option.bind.simps
            prod.case option.sel d2(1) Some)
      obtain d3 where d3: "unprotected d2 ?body = Some ((kNoErr, take (unat k) ?v), d3)"
        "fd_mem d3 = fd_mem d" "flash_ok d3" "fd_cfg d3 = fd_cfg d2" "ready d2 \<longrightarrow> ready d3"
        using R by (rule runsPE)
      show ?thesis
        unfolding runsP_def step d3(1) kg j(4) option.case
        using d3(2-5) d1(4,5) d2(4,5) by auto
    qed
  qed
qed


lemma write_in_slot:
  assumes ok: "flash_ok d" and mal: "\<And>k. mal k" and g: "good_name nm"
    and fits: "kv_fits pt ns d base n"
    and rep: "kv_rep (fd_mem d) (unat base) slots blks" and len: "length slots = n" and i: "slot_of slots ns = Some i"
    and small: "\<And>v0. block_get (blks ! i) nm = Some v0 \<Longrightarrow> length v0 \<le> 2048"
    and big: "length v < 2147483648"
  shows "runsP (\<lambda>d. bk_set_name_data pt mal d ns nm base v (of_nat (length v)) (of_nat (4096 * (i + 1))) (of_nat i)) d
    (put_status (blks ! i) nm v)
    (\<lambda>m'. \<exists>es'. kv_rep m' (unat base) slots (blks[i := es']) \<and> (\<forall>x. block_get es' x = put_get (blks ! i) nm v x))"
proof -
  have il: "i < length slots" "slots ! i = Some ns" using slot_of_Some [OF i] by auto
  have i': "i < n" and n64: "length slots \<le> 64" using il len fits by (simp_all add: kv_fits_def)
  let ?T = "base + of_nat (4096 * (i + 1))"
  let ?D = "base + of_nat i * FLASH_SECTOR_SIZE + NAME_FLASH_DATA_BASE_ADDR pt ns"
  note addr = kv_addr [OF fits ok i']
  have b: "block_rep (fd_mem d) (unat ?T) (unat ?D) (blks ! i)"
    using rep il(1) len by (simp only: addr(1,2)) (simp add: kv_rep_def)
  have "runsP (\<lambda>d. bk_set_name_data pt mal d ns nm base v (of_nat (length v)) (of_nat (4096 * (i + 1))) (of_nat i)) d
      (put_status (blks ! i) nm v) (put_post (unat ?T) (unat ?D) (fd_mem d) (put_get (blks ! i) nm v))"
    by (rule set_name_data_ok [where mal = mal, OF ok addr(3) b refl refl g small big _ mal]) simp_all
  then show ?thesis
  proof (rule runsP_mono)
    fix m assume "put_post (unat ?T) (unat ?D) (fd_mem d) (put_get (blks ! i) nm v) m"
    then obtain es' where e: "block_rep m (unat ?T) (unat ?D) es'" "\<forall>x. block_get es' x = put_get (blks ! i) nm v x"
      "same_outside (unat ?T) (unat ?D) (fd_mem d) m"
      unfolding put_post_def by blast
    have "kv_rep m (unat base) slots (blks[i := es'])"
      by (rule kv_rep_update_block [OF rep n64 il(1)]) (use e(1,3) [unfolded addr(1,2)] il(2) len in simp_all)
    then show "\<exists>es'. kv_rep m (unat base) slots (blks[i := es']) \<and> (\<forall>x. block_get es' x = put_get (blks ! i) nm v x)"
      using e(2) by blast
  qed
qed

text \<open>Whether the store has room for a value, and the map after writing it.\<close>

definition kv_room :: "u8 list option list \<Rightarrow> entry list list \<Rightarrow> u8 list \<Rightarrow> u8 list \<Rightarrow> u8 list \<Rightarrow> bool" where
  "kv_room slots blks ns nm v =
     (case slot_of slots ns of
        Some i \<Rightarrow> block_get (blks ! i) nm = Some v \<or> room_for (blks ! i) nm v
      | None \<Rightarrow> free_slot slots \<noteq> None \<and> length v < 4096)"

definition kv_written ::
  "(u8 list \<Rightarrow> u8 list \<Rightarrow> u8 list option) \<Rightarrow> u8 list \<Rightarrow> u8 list \<Rightarrow> u8 list option \<Rightarrow>
   (u8 list \<Rightarrow> u8 list \<Rightarrow> u8 list option)" where
  "kv_written g ns nm v = (\<lambda>ns' nm'. if ns' = ns \<and> nm' = nm then v else g ns' nm')"

lemma kv_get_update:
  assumes rep: "ns_rep m B slots" and i: "slot_of slots ns = Some i" and l: "length blks = length slots"
    and g: "\<forall>x. block_get es' x = put_get (blks ! i) nm v x"
  shows "kv_get slots (blks[i := es']) = kv_written (kv_get slots blks) ns nm
    (if block_get (blks ! i) nm = Some v \<or> room_for (blks ! i) nm v then Some v else None)"
proof (intro ext)
  fix ns' nm'
  have il: "i < length slots" "slots ! i = Some ns" using slot_of_Some [OF i] by auto
  have "j \<noteq> i" if "slot_of slots ns' = Some j" "ns' \<noteq> ns" for j
    using slot_of_Some [OF that(1)] il that(2) by auto
  then show "kv_get slots (blks[i := es']) ns' nm' = kv_written (kv_get slots blks) ns nm
      (if block_get (blks ! i) nm = Some v \<or> room_for (blks ! i) nm v then Some v else None) ns' nm'"
    using i il l g
    by (cases "ns' = ns") (auto simp: kv_get_def kv_written_def put_get_def split: option.split)
qed

lemma kv_get_new_slot:
  assumes rep: "ns_rep m B (slots[i := Some ns])" and i: "i < length slots" "slots ! i = None"
    and fresh: "Some ns \<notin> set slots" and rep0: "ns_rep m0 B slots" and e: "blks ! i = []"
  shows "kv_get (slots[i := Some ns]) blks = kv_get slots blks"
proof (intro ext)
  fix ns' nm'
  show "kv_get (slots[i := Some ns]) blks ns' nm' = kv_get slots blks ns' nm'"
  proof (cases "ns' = ns")
    case True
    have "slot_of (slots[i := Some ns]) ns = Some i" using i by (intro slot_of_eq [OF rep]) simp_all
    moreover have "slot_of slots ns = None" using fresh slot_of_None by blast
    ultimately show ?thesis using True e by (simp add: kv_get_def block_get_def)
  next
    case False
    have "slot_of (slots[i := Some ns]) ns' = slot_of slots ns'"
      unfolding slot_of_def using False i by (auto intro!: find_cong simp: nth_list_update)
    then show ?thesis by (simp add: kv_get_def)
  qed
qed

lemma write_data_ok:
  assumes ok: "flash_ok d" and mal: "\<And>k. mal k" and key: "good_key ns0 nm0 ns nm" and nf: "ns0 \<noteq> chip_factory"
    and fits: "kv_fits pt ns d base n"
    and rep: "kv_rep (fd_mem d) (unat base) slots blks" and len: "length slots = n"
    and small: "\<And>v0. kv_get slots blks ns nm = Some v0 \<Longrightarrow> length v0 \<le> 2048"
    and big: "length v < 2147483648"
  shows "runsP (\<lambda>d. bk_write_data pt mal d (Some ns0) (Some nm0) (Some v) (of_nat (length v))) d
    (if kv_room slots blks ns nm v then kNoErr else kGeneralErr)
    (\<lambda>m'. \<exists>slots' blks'. kv_rep m' (unat base) slots' blks' \<and> length slots' = n \<and>
       kv_get slots' blks' = kv_written (kv_get slots blks) ns nm
         (if kv_room slots blks ns nm v then Some v else None))"
proof -
  obtain st where ch: "change_namespace_to_beken ns0 (Some nm0) 64 = Some (st, ns, Some nm)"
    and g: "good_ns ns" "good_name nm"
    using key by (auto simp: good_key_def)
  have base: "get_matter_flash_base_addr pt ns = Some base" using fits by (simp add: kv_fits_def)
  have nsr: "ns_rep (fd_mem d) (unat base) slots" and lb: "length blks = length slots" using rep by (simp_all add: kv_rep_def)
  obtain d1 where d1: "get_namespace_addr pt mal d ns base =
      Some (map_option (\<lambda>i. (of_nat (4096 * (i + 1)), of_nat i)) (slot_of slots ns), d1)"
    "fd_mem d1 = fd_mem d" "flash_ok d1" "fd_cfg d1 = fd_cfg d" "ready d \<longrightarrow> ready d1"
    using get_namespace_addr_ok [where mal = mal, OF ok mal fits nsr len g(1)] by (rule runsPE)
  have fits1: "kv_fits pt ns d1 base n" using fits cap_cfg [OF d1(4)] by (simp add: kv_fits_def)
  show ?thesis
  proof (cases "slot_of slots ns")
    case (Some i)
    have s: "length v0 \<le> 2048" if "block_get (blks ! i) nm = Some v0" for v0
      using small that Some by (simp add: kv_get_def)
    have rep1: "kv_rep (fd_mem d1) (unat base) slots blks" using rep d1(2) by simp
    obtain d2 where d2: "bk_set_name_data pt mal d1 ns nm base v (of_nat (length v)) (of_nat (4096 * (i + 1))) (of_nat i)
        = Some (put_status (blks ! i) nm v, d2)"
      "\<exists>es'. kv_rep (fd_mem d2) (unat base) slots (blks[i := es']) \<and> (\<forall>x. block_get es' x = put_get (blks ! i) nm v x)"
      "flash_ok d2" "fd_cfg d2 = fd_cfg d1" "ready d1 \<longrightarrow> ready d2"
      using write_in_slot [where mal = mal, OF d1(3) mal g(2) fits1 rep1 len Some s big] by (rule runsPE)
    obtain es' where e: "kv_rep (fd_mem d2) (unat base) slots (blks[i := es'])" "\<forall>x. block_get es' x = put_get (blks ! i) nm v x"
      using d2(2) by blast
    have room: "kv_room slots blks ns nm v = (block_get (blks ! i) nm = Some v \<or> room_for (blks ! i) nm v)"
      using Some by (simp add: kv_room_def)
    have post: "\<exists>slots' blks'. kv_rep (fd_mem d2) (unat base) slots' blks' \<and> length slots' = n \<and>
       kv_get slots' blks' = kv_written (kv_get slots blks) ns nm (if kv_room slots blks ns nm v then Some v else None)"
      using e(1) len kv_get_update [OF nsr Some lb e(2)] unfolding room by blast
    have step: "bk_write_data pt mal d (Some ns0) (Some nm0) (Some v) (of_nat (length v)) =
        Some (put_status (blks ! i) nm v, d2)"
      unfolding bk_write_data_def
      by (simp only: nf ch base d1(1) Some option.map option.case Option.bind.simps prod.case option.sel d2(1) if_False)
    show ?thesis
      unfolding runsP_def step put_status_def room [symmetric] using post d1(4,5) d2(3-5) by simp
  next
    case None
    then have fresh: "Some ns \<notin> set slots" using slot_of_None by blast
    have nsr1: "ns_rep (fd_mem d1) (unat base) slots" using nsr d1(2) by simp
    have c: "get_namespace_addr pt mal d ns base = Some (None, d1)" using d1(1) None by simp
    obtain d2 where d2: "bk_set_namespace pt mal d1 ns base =
        Some (map_option (\<lambda>i. (of_nat (4096 * (i + 1)), of_nat i)) (free_slot slots), d2)"
      "fd_mem d2 = (case free_slot slots of None \<Rightarrow> fd_mem d1
        | Some i \<Rightarrow> nor_write (fd_mem d1) (unat base + 64 * i) (namespace_bytes (ns_rec i ns)))"
      "flash_ok d2" "fd_cfg d2 = fd_cfg d1" "ready d1 \<longrightarrow> ready d2"
      using set_namespace_ok [where mal = mal, OF d1(3) mal fits1 nsr1 len] by (rule runsPE)
    show ?thesis
    proof (cases "free_slot slots")
      case none: None
      have room: "\<not> kv_room slots blks ns nm v" using None none by (simp add: kv_room_def)
      have "kv_get slots blks ns nm = None" using None by (simp add: kv_get_def)
      then have id: "kv_written (kv_get slots blks) ns nm None = kv_get slots blks"
        by (auto simp: kv_written_def fun_eq_iff)
      have step: "bk_write_data pt mal d (Some ns0) (Some nm0) (Some v) (of_nat (length v)) = Some (kGeneralErr, d2)"
        unfolding bk_write_data_def
        by (simp only: nf ch base c none option.map option.case Option.bind.simps prod.case d2(1) if_False)
      have "\<exists>slots' blks'. kv_rep (fd_mem d2) (unat base) slots' blks' \<and> length slots' = n \<and>
          kv_get slots' blks' = kv_get slots blks"
        using rep d2(2) d1(2) none len by (intro exI [of _ slots] exI [of _ blks]) simp
      then show ?thesis
        unfolding runsP_def step using room id d1(4,5) d2(3-5) by simp
    next
      case (Some i)
      have i: "i < length slots" "slots ! i = None" using free_slot_Some [OF Some] by auto
      have n64: "length slots \<le> 64" using len fits by (simp add: kv_fits_def)
      let ?slots = "slots[i := Some ns]"
      have m2: "fd_mem d2 = nor_write (fd_mem d) (unat base + 64 * i) (namespace_bytes (ns_rec i ns))"
        using d2(2) Some d1(2) by simp
      have rep2: "kv_rep (fd_mem d2) (unat base) ?slots blks"
        unfolding m2 by (rule kv_rep_new_slot [OF rep n64 i g(1) fresh])
      have nsr2: "ns_rep (fd_mem d2) (unat base) ?slots" and lb2: "length blks = length ?slots"
        using rep2 by (simp_all add: kv_rep_def)
      have slot: "slot_of ?slots ns = Some i" using i by (intro slot_of_eq [OF nsr2]) simp_all
      have empty: "blks ! i = []" using rep i by (simp add: kv_rep_def)
      have fits2: "kv_fits pt ns d2 base n" using fits1 cap_cfg [OF d2(4)] by (simp add: kv_fits_def)
      obtain d3 where d3: "bk_set_name_data pt mal d2 ns nm base v (of_nat (length v)) (of_nat (4096 * (i + 1))) (of_nat i)
          = Some (put_status (blks ! i) nm v, d3)"
        "\<exists>es'. kv_rep (fd_mem d3) (unat base) ?slots (blks[i := es']) \<and> (\<forall>x. block_get es' x = put_get (blks ! i) nm v x)"
        "flash_ok d3" "fd_cfg d3 = fd_cfg d2" "ready d2 \<longrightarrow> ready d3"
        using write_in_slot [where mal = mal, OF d2(3) mal g(2) fits2 rep2 _ slot _ big] len empty
        by (auto simp: block_get_def runsP_def)
      obtain es' where e: "kv_rep (fd_mem d3) (unat base) ?slots (blks[i := es'])" "\<forall>x. block_get es' x = put_get (blks ! i) nm v x"
        using d3(2) by blast
      have room: "kv_room slots blks ns nm v = (block_get (blks ! i) nm = Some v \<or> room_for (blks ! i) nm v)"
        using None Some empty by (simp add: kv_room_def block_get_def room_for_def)
      have "kv_get ?slots blks = kv_get slots blks"
        by (rule kv_get_new_slot [OF nsr2 i fresh nsr empty])
      then have post: "\<exists>slots' blks'. kv_rep (fd_mem d3) (unat base) slots' blks' \<and> length slots' = n \<and>
         kv_get slots' blks' = kv_written (kv_get slots blks) ns nm (if kv_room slots blks ns nm v then Some v else None)"
        using e(1) len kv_get_update [OF nsr2 slot lb2 e(2)] unfolding room
        by (intro exI [of _ ?slots] exI [of _ "blks[i := es']"]) simp
      have step: "bk_write_data pt mal d (Some ns0) (Some nm0) (Some v) (of_nat (length v)) =
          Some (put_status (blks ! i) nm v, d3)"
        unfolding bk_write_data_def
        by (simp only: nf ch base c Some option.map option.case Option.bind.simps prod.case option.sel d2(1) d3(1) if_False)
      show ?thesis
        unfolding runsP_def step put_status_def room [symmetric] using post d1(4,5) d2(3-5) d3(3-5) by simp
    qed
  qed
qed

end
