(* ===== verification/KvMore.thy ===== *)
theory KvMore
  imports KvStore
begin

text \<open>
  Deleting values, erasing the store, and the properties of the key-value store.
\<close>

subsection \<open>Deleting a value\<close>

lemma and_flag_only:
  "map2 (AND) (enc_entry off (True, x)) (le32 FLASH_SPACE_MASK @ drop 4 (enc_entry off (True, x)))
     = enc_entry off (False, x)"
  by (simp add: enc_entry_def name_bytes_def entry_rec_def and_le32 and_self flag_and)

lemma clean_data_found:
  assumes rdy: "ready d" and at: "block_at d T D" and rep: "block_rep (fd_mem d) (unat T) (unat D) es"
    and i: "i < length es" "live (es ! i)"
  obtains d' where "flash_write d (le32 FLASH_SPACE_MASK) 4 (T + of_nat (64 * i)) = Some d'" "ready d'"
    "fd_cfg d' = fd_cfg d" "block_rep (fd_mem d') (unat T) (unat D) (es[i := mask_entry (es ! i)])"
    "same_outside (unat T) (unat D) (fd_mem d) (fd_mem d')"
proof -
  let ?o = "length (data_of (take i es))" and ?bs = "le32 FLASH_SPACE_MASK"
  have eq: "es ! i = (True, snd (es ! i))" using i(2) by (cases "es ! i") auto
  have l64: "length es \<le> 64" using rep by (simp add: block_rep_def)
  have disj: "unat T + 4096 \<le> unat D \<or> unat D + 4096 \<le> unat T" using at by (simp add: block_at_def)
  have a: "unat (T + of_nat (64 * i)) = unat T + 64 * i"
    by (rule addr_add [OF rdy]) (use at i(1) l64 in \<open>simp add: block_at_def\<close>)
  obtain d' where d': "flash_write d ?bs 4 (T + of_nat (64 * i)) = Some d'" "ready d'" "fd_cfg d' = fd_cfg d"
    "fd_mem d' = nor_write (fd_mem d) (unat (T + of_nat (64 * i))) (take (unat (4 :: u32)) ?bs)"
    by (rule ready_write [OF rdy, of 4 ?bs "T + of_nat (64 * i)"])
      (use a at i(1) l64 in \<open>auto simp: block_at_def\<close>)
  have m: "fd_mem d' = nor_write (fd_mem d) (unat T + 64 * i) ?bs" using d'(4) a by simp
  have "map2 (AND) (enc_entry ?o (es ! i)) (?bs @ drop (length ?bs) (enc_entry ?o (es ! i)))
      = enc_entry ?o (mask_entry (es ! i))"
    using and_flag_only [of ?o "snd (es ! i)"] by (subst (1 2 3) eq) (simp add: mask_entry_def)
  then have "block_rep (fd_mem d') (unat T) (unat D) (es[i := mask_entry (es ! i)])"
    unfolding m by (rule block_rep_mask [OF rep disj i]) simp_all
  moreover have "same_outside (unat T) (unat D) (fd_mem d) (fd_mem d')"
    unfolding m using i(1) l64 by (intro same_outside_table) simp
  ultimately show thesis using that [OF d'(1-3)] by blast
qed

lemma clean_data_ok:
  assumes ok: "flash_ok d" and mal: "\<And>k. mal k" and key: "good_key ns0 nm0 ns nm" and nf: "ns0 \<noteq> chip_factory"
    and fits: "kv_fits pt ns d base n"
    and rep: "kv_rep (fd_mem d) (unat base) slots blks" and len: "length slots = n"
  shows "\<exists>d' blks'. bk_clean_data pt mal d (Some ns0) (Some nm0) =
      Some (if kv_get slots blks ns nm = None then kGeneralErr else kNoErr, d') \<and>
    flash_ok d' \<and> fd_cfg d' = fd_cfg d \<and> kv_rep (fd_mem d') (unat base) slots blks' \<and>
    kv_get slots blks' = kv_written (kv_get slots blks) ns nm None \<and>
    (kv_get slots blks ns nm = None \<longrightarrow> ready d')"
proof -
  obtain st where ch: "change_namespace_to_beken ns0 (Some nm0) 64 = Some (st, ns, Some nm)"
    and g: "good_ns ns" "good_name nm"
    using key by (auto simp: good_key_def)
  have base: "get_matter_flash_base_addr pt ns = Some base" using fits by (simp add: kv_fits_def)
  have nsr: "ns_rep (fd_mem d) (unat base) slots" and lb: "length blks = length slots" using rep by (simp_all add: kv_rep_def)
  have tbl: "flash_ok x \<Longrightarrow> bk_flash_enable_security x t = Some (set_flash_protect x t)" for x t
    by (simp add: enable_security_eq)
  have id: "kv_get slots blks ns nm = None \<Longrightarrow> kv_written (kv_get slots blks) ns nm None = kv_get slots blks"
    by (auto simp: kv_written_def fun_eq_iff)
  obtain d1 where d1: "get_namespace_addr pt mal d ns base =
      Some (map_option (\<lambda>i. (of_nat (4096 * (i + 1)), of_nat i)) (slot_of slots ns), d1)"
    "fd_mem d1 = fd_mem d" "flash_ok d1" "fd_cfg d1 = fd_cfg d" "ready d \<longrightarrow> ready d1"
    using get_namespace_addr_ok [where mal = mal, OF ok mal fits nsr len g(1)] by (rule runsPE)
  show ?thesis
  proof (cases "slot_of slots ns")
    case None
    let ?d' = "set_flash_protect d1 FLASH_PROTECT_NONE"
    have k: "kv_get slots blks ns nm = None" using None by (simp add: kv_get_def)
    have "bk_clean_data pt mal d (Some ns0) (Some nm0) = Some (kGeneralErr, ?d')"
      unfolding bk_clean_data_def
      by (simp only: nf ch base d1(1) None option.map option.case Option.bind.simps prod.case option.sel if_False tbl [OF d1(3)])
    then show ?thesis
      using rep d1(2-4) k id [OF k] ready_set_none [OF d1(3)] by (intro exI [of _ ?d'] exI [of _ blks]) simp
  next
    case (Some i)
    have i: "i < length slots" "slots ! i = Some ns" using slot_of_Some [OF Some] by auto
    have i': "i < n" and n64: "length slots \<le> 64" using i len fits by (simp_all add: kv_fits_def)
    let ?es = "blks ! i" and ?T = "base + of_nat (4096 * (i + 1))"
    let ?D = "base + of_nat i * FLASH_SECTOR_SIZE + NAME_FLASH_DATA_BASE_ADDR pt ns"
    note addr = kv_addr [OF fits ok i']
    have b: "block_rep (fd_mem d) (unat ?T) (unat ?D) ?es"
      using rep i(1) len by (simp only: addr(1,2)) (simp add: kv_rep_def)
    then have b1: "block_rep (fd_mem d1) (unat ?T) (unat ?D) ?es" by (simp only: d1(2))
    let ?f = "find (\<lambda>j. live (?es ! j) \<and> nm_of (?es ! j) = nm) [0..<length ?es]"
    obtain d2 where d2: "get_name_addr mal d1 nm ?T =
        Some (map_option (\<lambda>j. (of_nat (64 * j), of_nat (length (data_of (take j ?es))))) ?f, d2)"
      "fd_mem d2 = fd_mem d1" "flash_ok d2" "fd_cfg d2 = fd_cfg d1" "ready d1 \<longrightarrow> ready d2"
      using get_name_addr_runs [where mal = mal and d = d1 and nm = nm and base = ?T, OF d1(3) mal b1 g(2)]
      by (auto simp only: runs_def)
    have kg: "kv_get slots blks ns nm = block_get ?es nm" using Some by (simp add: kv_get_def)
    show ?thesis
    proof (cases ?f)
      case None
      then have k: "kv_get slots blks ns nm = None" using find_index_None kg by simp
      let ?d' = "set_flash_protect d2 FLASH_PROTECT_NONE"
      have "bk_clean_data pt mal d (Some ns0) (Some nm0) = Some (kGeneralErr, ?d')"
        unfolding bk_clean_data_def
        by (simp only: nf ch base d1(1) \<open>slot_of slots ns = Some i\<close> None option.map option.case Option.bind.simps
            prod.case option.sel if_False d2(1) tbl [OF d2(3)])
      then show ?thesis
        using rep d1(2-4) d2(2-4) k id [OF k] ready_set_none [OF d2(3)] by (intro exI [of _ ?d'] exI [of _ blks]) simp
    next
      case (Some j)
      have dist: "distinct (live_names ?es)" using b by (simp add: block_rep_def)
      have j: "j < length ?es" "live (?es ! j)" "nm_of (?es ! j) = nm" "block_get ?es nm = Some (val_of (?es ! j))"
        using find_index_Some [OF dist Some] by auto
      let ?es' = "?es[j := mask_entry (?es ! j)]"
      let ?body = "\<lambda>d. map_option (\<lambda>d'. (kNoErr, d')) (flash_write d (le32 FLASH_SPACE_MASK) 4 (?T + of_nat (64 * j)))"
      have R: "runsP (\<lambda>d. unprotected d ?body) d2 kNoErr
          (\<lambda>m'. block_rep m' (unat ?T) (unat ?D) ?es' \<and> same_outside (unat ?T) (unat ?D) (fd_mem d) m')"
      proof (rule runsP_unprotected [OF d2(3)])
        fix d0 assume d0: "ready d0" "fd_mem d0 = fd_mem d2" "fd_cfg d0 = fd_cfg d2"
        have at0: "block_at d0 ?T ?D" using addr(3) block_at_cfg [of d0 d] d0 d1 d2 by simp
        have b0: "block_rep (fd_mem d0) (unat ?T) (unat ?D) ?es" using b d0 d1 d2 by simp
        obtain d' where d': "flash_write d0 (le32 FLASH_SPACE_MASK) 4 (?T + of_nat (64 * j)) = Some d'" "ready d'"
          "fd_cfg d' = fd_cfg d0" "block_rep (fd_mem d') (unat ?T) (unat ?D) ?es'"
          "same_outside (unat ?T) (unat ?D) (fd_mem d0) (fd_mem d')"
          by (rule clean_data_found [OF d0(1) at0 b0 j(1,2)])
        then show "runsP ?body d0 kNoErr
            (\<lambda>m'. block_rep m' (unat ?T) (unat ?D) ?es' \<and> same_outside (unat ?T) (unat ?D) (fd_mem d) m')"
          unfolding runsP_def using d0(2) d1(2) d2(2) by simp
      qed
      obtain d3 where d3: "unprotected d2 ?body = Some (kNoErr, d3)"
        "block_rep (fd_mem d3) (unat ?T) (unat ?D) ?es' \<and> same_outside (unat ?T) (unat ?D) (fd_mem d) (fd_mem d3)"
        "flash_ok d3" "fd_cfg d3 = fd_cfg d2" "ready d2 \<longrightarrow> ready d3"
        using R by (rule runsPE)
      have step: "bk_clean_data pt mal d (Some ns0) (Some nm0) = Some (kNoErr, d3)"
        unfolding bk_clean_data_def
        by (simp only: nf ch base d1(1) \<open>slot_of slots ns = Some i\<close> Some option.map option.case Option.bind.simps
            prod.case option.sel if_False d2(1) d3(1))
      have rep3: "kv_rep (fd_mem d3) (unat base) slots (blks[i := ?es'])"
        by (rule kv_rep_update_block [OF rep n64 i(1)]) (use d3(2) [unfolded addr(1,2)] i(2) len in simp_all)
      have "kv_get slots (blks[i := ?es']) ns' nm' = kv_written (kv_get slots blks) ns nm None ns' nm'" for ns' nm'
      proof -
        have "k \<noteq> i" if "slot_of slots ns' = Some k" "ns' \<noteq> ns" for k
          using slot_of_Some [OF that(1)] i that(2) by auto
        then show ?thesis
          using \<open>slot_of slots ns = Some i\<close> i lb block_get_mask [OF dist j(1,2)] j(3)
          by (cases "ns' = ns") (auto simp: kv_get_def kv_written_def split: option.split)
      qed
      then show ?thesis
        using step rep3 d3(3,4) d1(4) d2(4) kg j(4)
        by (intro exI [of _ d3] exI [of _ "blks[i := ?es']"]) (auto simp: fun_eq_iff)
    qed
  qed
qed

end
