(* ===== verification/KvProps.thy ===== *)
theory KvProps
  imports KvMore
begin

text \<open>
  The key-value store as a map.  \<open>kv_state\<close> relates a device to the finite map it stores; the
  locale \<open>kv_map\<close> is the contract of a store whose writes may fail, interpreted on
  \<open>bk_write_data\<close>, \<open>bk_read_data\<close> and \<open>bk_clean_data\<close>; the properties follow from it.
\<close>

subsection \<open>The contract\<close>

datatype ('u, 'v) kv_op = KPut 'u 'v | KGet 'u | KDel 'u
datatype 'v kv_out = Stored bool | Found "'v option" | Removed bool

text \<open>
  What a run may return: a write is accepted, or refused and then the key has no value any more;
  a read returns the value of the key; a removal says whether there was one.
\<close>

inductive kv_trace :: "('u \<Rightarrow> 'k) \<Rightarrow> ('k \<Rightarrow> 'v option) \<Rightarrow> ('u, 'v) kv_op list \<Rightarrow> 'v kv_out list \<Rightarrow> ('k \<Rightarrow> 'v option) \<Rightarrow> bool"
  for key :: "'u \<Rightarrow> 'k" where
  nil: "kv_trace key g [] [] g"
| put: "kv_trace key (g(key u := if b then Some v else None)) ops outs h \<Longrightarrow>
    kv_trace key g (KPut u v # ops) (Stored b # outs) h"
| get: "kv_trace key g ops outs h \<Longrightarrow> kv_trace key g (KGet u # ops) (Found (g (key u)) # outs) h"
| del: "kv_trace key (g(key u := None)) ops outs h \<Longrightarrow>
    kv_trace key g (KDel u # ops) (Removed (g (key u) \<noteq> None) # outs) h"

inductive_cases kv_trace_putE: "kv_trace key g (KPut u v # ops) outs h"
inductive_cases kv_trace_getE: "kv_trace key g (KGet u # ops) outs h"
inductive_cases kv_trace_delE: "kv_trace key g (KDel u # ops) outs h"

fun kv_run :: "('s \<Rightarrow> 'u \<Rightarrow> 'v \<Rightarrow> (bool \<times> 's) option) \<Rightarrow> ('s \<Rightarrow> 'u \<Rightarrow> ('v option \<times> 's) option) \<Rightarrow>
    ('s \<Rightarrow> 'u \<Rightarrow> (bool \<times> 's) option) \<Rightarrow> 's \<Rightarrow> ('u, 'v) kv_op list \<Rightarrow> ('v kv_out list \<times> 's) option" where
  "kv_run p q r s [] = Some ([], s)"
| "kv_run p q r s (KPut u v # ops) =
     do { (b, s1) \<leftarrow> p s u v; (outs, s2) \<leftarrow> kv_run p q r s1 ops; Some (Stored b # outs, s2) }"
| "kv_run p q r s (KGet u # ops) =
     do { (x, s1) \<leftarrow> q s u; (outs, s2) \<leftarrow> kv_run p q r s1 ops; Some (Found x # outs, s2) }"
| "kv_run p q r s (KDel u # ops) =
     do { (b, s1) \<leftarrow> r s u; (outs, s2) \<leftarrow> kv_run p q r s1 ops; Some (Removed b # outs, s2) }"

fun op_ok :: "('u \<Rightarrow> bool) \<Rightarrow> ('v \<Rightarrow> bool) \<Rightarrow> ('u, 'v) kv_op \<Rightarrow> bool" where
  "op_ok ku kv (KPut u v) = (ku u \<and> kv v)"
| "op_ok ku kv (KGet u) = ku u"
| "op_ok ku kv (KDel u) = ku u"

locale kv_map =
  fixes rep :: "'s \<Rightarrow> ('k \<Rightarrow> 'v option) \<Rightarrow> bool"
    and key :: "'u \<Rightarrow> 'k" and ku :: "'u \<Rightarrow> bool" and kv :: "'v \<Rightarrow> bool"
    and put :: "'s \<Rightarrow> 'u \<Rightarrow> 'v \<Rightarrow> (bool \<times> 's) option"
    and get :: "'s \<Rightarrow> 'u \<Rightarrow> ('v option \<times> 's) option"
    and del :: "'s \<Rightarrow> 'u \<Rightarrow> (bool \<times> 's) option"
  assumes put_law: "rep s g \<Longrightarrow> ku u \<Longrightarrow> kv v \<Longrightarrow>
      \<exists>b s'. put s u v = Some (b, s') \<and> rep s' (g(key u := if b then Some v else None))"
    and get_law: "rep s g \<Longrightarrow> ku u \<Longrightarrow> \<exists>s'. get s u = Some (g (key u), s') \<and> rep s' g"
    and del_law: "rep s g \<Longrightarrow> ku u \<Longrightarrow>
      \<exists>s'. del s u = Some (g (key u) \<noteq> None, s') \<and> rep s' (g(key u := None))"
begin

lemma run_traces:
  "rep s g \<Longrightarrow> \<forall>x \<in> set ops. op_ok ku kv x \<Longrightarrow>
     \<exists>outs s' h. kv_run put get del s ops = Some (outs, s') \<and> rep s' h \<and> kv_trace key g ops outs h"
proof (induction ops arbitrary: s g)
  case Nil
  then show ?case by (auto intro: kv_trace.nil)
next
  case (Cons x ops)
  show ?case
  proof (cases x)
    case (KPut u v)
    then obtain b s1 where 1: "put s u v = Some (b, s1)" "rep s1 (g(key u := if b then Some v else None))"
      using put_law [OF Cons.prems(1), of u v] Cons.prems(2) by auto
    obtain outs s2 h where 2: "kv_run put get del s1 ops = Some (outs, s2)" "rep s2 h"
      "kv_trace key (g(key u := if b then Some v else None)) ops outs h" using Cons.IH [OF 1(2)] Cons.prems(2) by (metis list.set_intros(2))
    show ?thesis unfolding KPut
      by (intro exI [of _ "Stored b # outs"] exI [of _ s2] exI [of _ h] conjI kv_trace.put 2(2,3))
        (simp add: 1(1) 2(1))
  next
    case (KGet u)
    then obtain s1 where 1: "get s u = Some (g (key u), s1)" "rep s1 g"
      using get_law [OF Cons.prems(1), of u] Cons.prems(2) by auto
    obtain outs s2 h where 2: "kv_run put get del s1 ops = Some (outs, s2)" "rep s2 h"
      "kv_trace key g ops outs h" using Cons.IH [OF 1(2)] Cons.prems(2) by auto
    show ?thesis unfolding KGet using 1(1) 2(1,2) kv_trace.get [OF 2(3)] by auto
  next
    case (KDel u)
    then obtain s1 where 1: "del s u = Some (g (key u) \<noteq> None, s1)" "rep s1 (g(key u := None))"
      using del_law [OF Cons.prems(1), of u] Cons.prems(2) by auto
    obtain outs s2 h where 2: "kv_run put get del s1 ops = Some (outs, s2)" "rep s2 h"
      "kv_trace key (g(key u := None)) ops outs h" using Cons.IH [OF 1(2)] Cons.prems(2) by (metis list.set_intros(2))
    show ?thesis unfolding KDel using 1(1) 2(1,2) kv_trace.del [OF 2(3)] by auto
  qed
qed

lemma get_after_put:
  assumes "rep s g" "ku u" "kv v" "put s u v = Some (b, s1)" "ku w"
  shows "\<exists>s2. get s1 w = Some ((if key w = key u then if b then Some v else None else g (key w)), s2)"
  using put_law [OF assms(1-3)] assms(4) get_law [of s1 _ w] assms(5) by fastforce

end

subsection \<open>The device and its map\<close>

definition beken_key :: "u8 list \<times> u8 list \<Rightarrow> u8 list \<times> u8 list" where
  "beken_key u = (case change_namespace_to_beken (fst u) (Some (snd u)) 64 of
     Some (_, ns, Some nm) \<Rightarrow> (ns, nm) | _ \<Rightarrow> ([], []))"

definition kv_key_ok :: "u8 list \<times> u8 list \<Rightarrow> bool" where
  "kv_key_ok u \<longleftrightarrow> fst u \<noteq> chip_factory \<and> good_ns (fst (beken_key u)) \<and> good_name (snd (beken_key u)) \<and>
     (case change_namespace_to_beken (fst u) (Some (snd u)) 64 of Some (_, _, Some _) \<Rightarrow> True | _ \<Rightarrow> False)"

definition kv_value_ok :: "u8 list \<Rightarrow> bool" where "kv_value_ok v \<longleftrightarrow> length v \<le> 2048"

definition kv_state :: "part_table \<Rightarrow> flash_dev \<Rightarrow> (u8 list \<times> u8 list \<Rightarrow> u8 list option) \<Rightarrow> bool" where
  "kv_state pt d g \<longleftrightarrow> flash_ok d \<and>
     (\<exists>base slots blks. kv_fits pt [] d base (length slots) \<and> kv_rep (fd_mem d) (unat base) slots blks \<and>
        g = (\<lambda>(ns, nm). kv_get slots blks ns nm)) \<and>
     (\<forall>k v. g k = Some v \<longrightarrow> kv_value_ok v)"

definition kv_put :: "part_table \<Rightarrow> flash_dev \<Rightarrow> u8 list \<times> u8 list \<Rightarrow> u8 list \<Rightarrow> (bool \<times> flash_dev) option" where
  "kv_put pt d u v = map_option (\<lambda>(r, d'). (r = kNoErr, d'))
     (bk_write_data pt (\<lambda>_. True) d (Some (fst u)) (Some (snd u)) (Some v) (of_nat (length v)))"

definition kv_read :: "part_table \<Rightarrow> flash_dev \<Rightarrow> u8 list \<times> u8 list \<Rightarrow> (u8 list option \<times> flash_dev) option" where
  "kv_read pt d u = map_option (\<lambda>((r, bs), d'). (if r = kNoErr then Some bs else None, d'))
     (bk_read_data pt (\<lambda>_. True) d (Some (fst u)) (Some (snd u)) 2048)"

definition kv_del :: "part_table \<Rightarrow> flash_dev \<Rightarrow> u8 list \<times> u8 list \<Rightarrow> (bool \<times> flash_dev) option" where
  "kv_del pt d u = map_option (\<lambda>(r, d'). (r = kNoErr, d'))
     (bk_clean_data pt (\<lambda>_. True) d (Some (fst u)) (Some (snd u)))"

lemma kv_key_good:
  assumes "kv_key_ok u"
  shows "good_key (fst u) (snd u) (fst (beken_key u)) (snd (beken_key u))" "fst u \<noteq> chip_factory"
    "fst (beken_key u) \<noteq> chip_factory"
proof -
  show "fst u \<noteq> chip_factory" using assms by (simp add: kv_key_ok_def)
  obtain st ns nm where ch: "change_namespace_to_beken (fst u) (Some (snd u)) 64 = Some (st, ns, Some nm)"
    using assms by (auto simp: kv_key_ok_def split: option.splits prod.splits)
  then have k: "beken_key u = (ns, nm)" by (simp add: beken_key_def)
  show "good_key (fst u) (snd u) (fst (beken_key u)) (snd (beken_key u))"
    using assms ch k by (auto simp: kv_key_ok_def good_key_def)
  have "ns = fst u \<or> ns = cstr ''BEKEN0'' \<or> ns = cstr ''BEKEN1''"
    using ch by (auto simp: change_namespace_to_beken_def split: if_splits)
  moreover have "cstr ''BEKEN0'' \<noteq> chip_factory" "cstr ''BEKEN1'' \<noteq> chip_factory"
    by (simp_all add: cstr_def chip_factory_def)
  ultimately show "fst (beken_key u) \<noteq> chip_factory" using k \<open>fst u \<noteq> chip_factory\<close> by auto
qed

lemma kv_fits_any: "ns \<noteq> chip_factory \<Longrightarrow> kv_fits pt ns d base n = kv_fits pt [] d base n"
  by (simp add: kv_fits_def get_matter_flash_base_addr_def get_falsh_name_space_max_array_def matter_partition_def
      chip_factory_def cstr_def)

lemma kv_fits_cfg: "fd_cfg d' = fd_cfg d \<Longrightarrow> kv_fits pt ns d' base n = kv_fits pt ns d base n"
  by (simp add: kv_fits_def flash_cap_def)

lemma unat_numeral_2048: "unat (2048 :: u32) = 2048" by simp

lemma kv_stateE:
  assumes "kv_state pt d g" "kv_key_ok u"
  obtains base slots blks where "flash_ok d" "kv_fits pt (fst (beken_key u)) d base (length slots)"
    "kv_rep (fd_mem d) (unat base) slots blks" "g = (\<lambda>(ns, nm). kv_get slots blks ns nm)"
    "kv_fits pt [] d base (length slots)" "\<forall>k v. g k = Some v \<longrightarrow> kv_value_ok v"
  using assms kv_key_good(3) [OF assms(2)] kv_fits_any by (auto simp: kv_state_def)

lemma kv_stateI:
  assumes "flash_ok d" "kv_fits pt [] d base (length slots)" "kv_rep (fd_mem d) (unat base) slots blks"
    and "\<And>ns nm. g (ns, nm) = kv_get slots blks ns nm" and "\<And>k v. g k = Some v \<Longrightarrow> kv_value_ok v"
  shows "kv_state pt d g"
proof -
  have "g = (\<lambda>(ns, nm). kv_get slots blks ns nm)" using assms(4) by auto
  then show ?thesis using assms(1-3,5) unfolding kv_state_def by blast
qed

lemma kv_write_step:
  assumes st: "kv_state pt d g" and u: "kv_key_ok u" and v: "kv_value_ok v" and mal: "\<And>k. mal k"
  shows "\<exists>r d'. bk_write_data pt mal d (Some (fst u)) (Some (snd u)) (Some v) (of_nat (length v)) = Some (r, d') \<and>
    (r = kNoErr \<or> r = kGeneralErr) \<and>
    kv_state pt d' (g(beken_key u := if r = kNoErr then Some v else None))"
proof -
  obtain base slots blks where ok: "flash_ok d" and fits: "kv_fits pt (fst (beken_key u)) d base (length slots)"
    and rep: "kv_rep (fd_mem d) (unat base) slots blks" and g: "g = (\<lambda>(ns, nm). kv_get slots blks ns nm)"
    and fits0: "kv_fits pt [] d base (length slots)" and gv: "\<forall>k v. g k = Some v \<longrightarrow> kv_value_ok v"
    by (rule kv_stateE [OF st u])
  have small: "kv_get slots blks (fst (beken_key u)) (snd (beken_key u)) = Some v0 \<Longrightarrow> length v0 \<le> 2048" for v0
    using gv [rule_format, of "beken_key u" v0] by (simp add: g kv_value_ok_def case_prod_unfold)
  have big: "length v < 2147483648" using v by (simp add: kv_value_ok_def)
  let ?room = "kv_room slots blks (fst (beken_key u)) (snd (beken_key u)) v"
  obtain d' where d': "bk_write_data pt mal d (Some (fst u)) (Some (snd u)) (Some v) (of_nat (length v)) =
      Some (if ?room then kNoErr else kGeneralErr, d')"
    and m: "\<exists>slots' blks'. kv_rep (fd_mem d') (unat base) slots' blks' \<and> length slots' = length slots \<and>
       kv_get slots' blks' = kv_written (kv_get slots blks) (fst (beken_key u)) (snd (beken_key u)) (if ?room then Some v else None)"
    and ok': "flash_ok d'" and cfg: "fd_cfg d' = fd_cfg d"
    using write_data_ok [where mal = mal, OF ok mal kv_key_good(1,2) [OF u] fits rep refl small big] by (rule runsPE)
  have "kv_state pt d' (g(beken_key u := if ?room then Some v else None))"
  proof -
    obtain slots' blks' where m': "kv_rep (fd_mem d') (unat base) slots' blks'" "length slots' = length slots"
      "kv_get slots' blks' = kv_written (kv_get slots blks) (fst (beken_key u)) (snd (beken_key u)) (if ?room then Some v else None)"
      using m by blast
    have f: "kv_fits pt [] d' base (length slots')" using fits0 kv_fits_cfg [OF cfg] m'(2) by simp
    show ?thesis
      by (rule kv_stateI [OF ok' f m'(1)])
        (use gv v in \<open>auto simp: prod_eq_iff m'(3) g kv_written_def kv_value_ok_def split: if_splits\<close>)
  qed
  then show ?thesis using d' by auto
qed

lemma kv_read_step:
  assumes st: "kv_state pt d g" and u: "kv_key_ok u" and mal: "\<And>k. mal k"
  shows "\<exists>d'. bk_read_data pt mal d (Some (fst u)) (Some (snd u)) k =
      Some (case g (beken_key u) of None \<Rightarrow> (kGeneralErr, []) | Some v \<Rightarrow> (kNoErr, take (unat k) v), d') \<and>
    kv_state pt d' g"
proof -
  obtain base slots blks where ok: "flash_ok d" and fits: "kv_fits pt (fst (beken_key u)) d base (length slots)"
    and rep: "kv_rep (fd_mem d) (unat base) slots blks" and g: "g = (\<lambda>(ns, nm). kv_get slots blks ns nm)"
    and fits0: "kv_fits pt [] d base (length slots)" and gv: "\<forall>k v. g k = Some v \<longrightarrow> kv_value_ok v"
    by (rule kv_stateE [OF st u])
  obtain d' where d': "bk_read_data pt mal d (Some (fst u)) (Some (snd u)) k =
      Some (case kv_get slots blks (fst (beken_key u)) (snd (beken_key u)) of
        None \<Rightarrow> (kGeneralErr, []) | Some v \<Rightarrow> (kNoErr, take (unat k) v), d')"
    and m: "fd_mem d' = fd_mem d" and ok': "flash_ok d'" and cfg: "fd_cfg d' = fd_cfg d"
    using read_data_ok [where mal = mal, OF ok mal kv_key_good(1) [OF u] fits rep refl, of k] by (rule runsPE)
  have "kv_state pt d' g"
    using m ok' fits0 kv_fits_cfg [OF cfg] gv rep unfolding kv_state_def g by auto
  then show ?thesis using d' by (auto simp: g case_prod_unfold)
qed

lemma kv_clean_step:
  assumes st: "kv_state pt d g" and u: "kv_key_ok u" and mal: "\<And>k. mal k"
  shows "\<exists>d'. bk_clean_data pt mal d (Some (fst u)) (Some (snd u)) =
      Some (if g (beken_key u) = None then kGeneralErr else kNoErr, d') \<and>
    kv_state pt d' (g(beken_key u := None)) \<and> (g (beken_key u) = None \<longrightarrow> ready d')"
proof -
  obtain base slots blks where ok: "flash_ok d" and fits: "kv_fits pt (fst (beken_key u)) d base (length slots)"
    and rep: "kv_rep (fd_mem d) (unat base) slots blks" and g: "g = (\<lambda>(ns, nm). kv_get slots blks ns nm)"
    and fits0: "kv_fits pt [] d base (length slots)" and gv: "\<forall>k v. g k = Some v \<longrightarrow> kv_value_ok v"
    by (rule kv_stateE [OF st u])
  have gk: "g (beken_key u) = kv_get slots blks (fst (beken_key u)) (snd (beken_key u))"
    by (simp add: g case_prod_unfold)
  obtain d' blks' where d': "bk_clean_data pt mal d (Some (fst u)) (Some (snd u)) =
      Some (if g (beken_key u) = None then kGeneralErr else kNoErr, d')"
    and d2: "flash_ok d'" "fd_cfg d' = fd_cfg d" "kv_rep (fd_mem d') (unat base) slots blks'"
      "kv_get slots blks' = kv_written (kv_get slots blks) (fst (beken_key u)) (snd (beken_key u)) None"
      "g (beken_key u) = None \<longrightarrow> ready d'"
    using clean_data_ok [where mal = mal, OF ok mal kv_key_good(1,2) [OF u] fits rep refl] unfolding gk by metis
  have "kv_state pt d' (g(beken_key u := None))"
  proof (rule kv_stateI [OF d2(1) _ d2(3)])
    show "kv_fits pt [] d' base (length slots)" using fits0 kv_fits_cfg [OF d2(2)] by simp
  qed (use gv in \<open>auto simp: prod_eq_iff d2(4) g kv_written_def split: if_splits\<close>)
  then show ?thesis using d' d2(5) by auto
qed

subsection \<open>Capacity in terms of the map\<close>

definition other_names :: "(u8 list \<Rightarrow> u8 list option) \<Rightarrow> u8 list \<Rightarrow> u8 list set" where
  "other_names f nm = {n. n \<noteq> nm \<and> f n \<noteq> None}"

lemma room_for_get:
  assumes d: "distinct (live_names es)"
  shows "room_for es nm v \<longleftrightarrow> card (other_names (block_get es) nm) < 64 \<and>
    (\<Sum>n \<in> other_names (block_get es) nm. length (the (block_get es n))) + length v < 4096"
proof -
  let ?fs = "filter (\<lambda>e. live e \<and> nm_of e \<noteq> nm) es"
  have dn: "distinct (map nm_of ?fs)"
  proof -
    have "map nm_of ?fs = filter (\<lambda>n. n \<noteq> nm) (live_names es)"
      unfolding live_names_def filter_map filter_filter by (rule arg_cong [where f = "map nm_of"], rule filter_cong) auto
    then show ?thesis using distinct_filter [OF d] by simp
  qed
  have v: "block_get es (nm_of e) = Some (val_of e)" if "e \<in> set ?fs" for e
    using that d by (auto simp: in_set_conv_nth intro: block_get_Some)
  have S: "other_names (block_get es) nm = set (map nm_of ?fs)"
    by (auto simp: other_names_def block_get_None in_live_names)
  have c: "card (other_names (block_get es) nm) = length ?fs"
    unfolding S using distinct_card [OF dn] by simp
  have "(\<Sum>n \<in> set (map nm_of ?fs). length (the (block_get es n))) = (\<Sum>n \<leftarrow> map nm_of ?fs. length (the (block_get es n)))"
    by (rule sum.distinct_set_conv_list [OF dn])
  also have "\<dots> = (\<Sum>e \<leftarrow> ?fs. length (val_of e))"
    unfolding map_map by (rule arg_cong [where f = sum_list], rule map_cong [OF refl]) (simp add: v)
  also have "\<dots> = length (data_of ?fs)"
    by (simp add: data_of_def length_concat comp_def)
  finally show ?thesis unfolding room_for_def Let_def c unfolding S by (simp only:)
qed

interpretation kvm: kv_map "kv_state pt" beken_key kv_key_ok kv_value_ok "kv_put pt" "kv_read pt" "kv_del pt"
  for pt
proof
  fix s g u v assume "kv_state pt s g" "kv_key_ok u" "kv_value_ok v"
  then obtain r d' where "bk_write_data pt (\<lambda>_. True) s (Some (fst u)) (Some (snd u)) (Some v) (of_nat (length v)) = Some (r, d')"
    "kv_state pt d' (g(beken_key u := if r = kNoErr then Some v else None))"
    using kv_write_step [where mal = "\<lambda>_. True"] by blast
  then show "\<exists>b s'. kv_put pt s u v = Some (b, s') \<and> kv_state pt s' (g(beken_key u := if b then Some v else None))"
    by (simp add: kv_put_def)
next
  fix s g u assume st: "kv_state pt s g" "kv_key_ok u"
  then have "take (unat (2048 :: u32)) v = v" if "g (beken_key u) = Some v" for v
    using that st(1) unfolding kv_state_def kv_value_ok_def by (metis take_all unat_numeral_2048)
  then show "\<exists>s'. kv_read pt s u = Some (g (beken_key u), s') \<and> kv_state pt s' g"
    using kv_read_step [OF st, where mal = "\<lambda>_. True" and k = 2048] unfolding kv_read_def
    by (auto split: option.splits)
next
  fix s g u assume "kv_state pt s g" "kv_key_ok u"
  then obtain d' where "bk_clean_data pt (\<lambda>_. True) s (Some (fst u)) (Some (snd u)) =
      Some (if g (beken_key u) = None then kGeneralErr else kNoErr, d')" "kv_state pt d' (g(beken_key u := None))"
    using kv_clean_step [where mal = "\<lambda>_. True"] by blast
  then show "\<exists>s'. kv_del pt s u = Some (g (beken_key u) \<noteq> None, s') \<and> kv_state pt s' (g(beken_key u := None))"
    by (simp add: kv_del_def)
qed

subsection \<open>Erasing the store\<close>

lemma erase_sectors_ok:
  "ready d \<Longrightarrow> 4096 dvd unat a \<Longrightarrow> unat a + 4096 * k \<le> flash_cap d \<Longrightarrow>
   \<exists>d'. erase_sectors k d a = Some d' \<and> ready d' \<and> fd_cfg d' = fd_cfg d \<and>
     fd_mem d' = nor_erase (fd_mem d) (unat a) (4096 * k)"
proof (induction k arbitrary: d a)
  case 0
  have "nor_erase (fd_mem d) (unat a) 0 = fd_mem d" by (auto simp: nor_erase_def fun_eq_iff)
  then show ?case using 0 by simp
next
  case (Suc k)
  have fit: "unat a + 4096 \<le> flash_cap d" using Suc.prems(3) by simp
  obtain d1 where d1: "dd_erase_sector d a = Some d1" "ready d1" "fd_cfg d1 = fd_cfg d"
    "fd_mem d1 = nor_erase (fd_mem d) (unat a) 4096"
    using ready_erase [OF Suc.prems(1,2) fit] .
  have u: "unat (a + NAME_SPACE_FLASH_TOTAL_SIZE) = unat a + 4096" if "k \<noteq> 0"
    using fit flash_cap_le [of d] Suc.prems(1) by (subst unat_add_32) (simp_all add: NAME_SPACE_FLASH_TOTAL_SIZE_def)
  show ?case
  proof (cases "k = 0")
    case True
    then show ?thesis using d1 by auto
  next
    case False
    have "\<exists>d'. erase_sectors k d1 (a + NAME_SPACE_FLASH_TOTAL_SIZE) = Some d' \<and> ready d' \<and> fd_cfg d' = fd_cfg d1 \<and>
        fd_mem d' = nor_erase (fd_mem d1) (unat a + 4096) (4096 * k)"
      using Suc.IH [OF d1(2), of "a + NAME_SPACE_FLASH_TOTAL_SIZE"] Suc.prems(2,3) cap_cfg [OF d1(3)] u [OF False]
      by simp
    then show ?thesis using d1 nor_erase_append [of "fd_mem d" "unat a" 4096 "4096 * k"] by auto
  qed
qed

lemma kv_rep_erased:
  assumes "\<And>x. B \<le> x \<Longrightarrow> x < B + 4096 * (2 * n + 1) \<Longrightarrow> m x = 0xFF" and "n \<le> 64"
  shows "kv_rep m B (replicate n None) (replicate n [])"
proof -
  have sl: "slice m a k = replicate k 0xFF" if "B \<le> a" "a + k \<le> B + 4096 * (2 * n + 1)" for a k
    using assms(1) that by (simp add: slice_eq_list_iff)
  have "ns_rep m B (replicate n None)"
    using sl assms(2) by (auto simp: ns_rep_def enc_slot_def)
  moreover have "block_rep m (tbl_addr B i) (dat_addr B n i) []" if "i < n" for i
    using that sl by (simp add: block_rep_def live_names_def tbl_addr_def dat_addr_def)
  ultimately show ?thesis by (simp add: kv_rep_def)
qed

lemma kv_state_erased:
  assumes "flash_ok d" "kv_fits pt [] d base n"
    and "\<And>x. unat base \<le> x \<Longrightarrow> x < unat base + 4096 * (2 * n + 1) \<Longrightarrow> fd_mem d x = 0xFF"
  shows "kv_state pt d (\<lambda>_. None)"
proof (rule kv_stateI [OF assms(1)])
  show "kv_fits pt [] d base (length (replicate n None))" using assms(2) by simp
  show "kv_rep (fd_mem d) (unat base) (replicate n None) (replicate n [])"
    using assms(2,3) by (intro kv_rep_erased) (simp_all add: kv_fits_def)
  show "None = kv_get (replicate n None) (replicate n []) ns nm" for ns nm
    by (auto simp: kv_get_def block_get_def split: option.split dest: slot_of_Some)
qed simp

definition kv_partition :: "part_table \<Rightarrow> flash_dev \<Rightarrow> bool" where
  "kv_partition pt d \<longleftrightarrow>
     (let info = pt BK_PARTITION_MATTER_FLASH; s = unat (partition_length info) div 4096 in
      4096 dvd unat (partition_length info) \<and> odd s \<and> s \<le> 129 \<and> 4096 dvd unat (partition_start_addr info) \<and>
      unat (partition_start_addr info) + 4096 * s \<le> flash_cap d)"

lemma kv_partition_fits:
  assumes "kv_partition pt d"
  defines "s \<equiv> unat (partition_length (pt BK_PARTITION_MATTER_FLASH)) div 4096"
  shows "kv_fits pt [] d (partition_start_addr (pt BK_PARTITION_MATTER_FLASH)) (s div 2)" "2 * (s div 2) + 1 = s"
proof -
  have s: "odd s" "s \<le> 129" using assms by (simp_all add: kv_partition_def Let_def)
  then show o: "2 * (s div 2) + 1 = s" by presburger
  have "ns_max pt [] = s div 2"
    using s(2) by (simp add: get_falsh_name_space_max_array_def matter_partition_def chip_factory_def cstr_def
        bk_flash_get_info_def FLASH_SECTOR_SIZE_def s_def unsigned_ucast_eq unat_div take_bit_eq_mod)
  moreover have "4096 dvd unat (partition_start_addr (pt BK_PARTITION_MATTER_FLASH))"
    "unat (partition_start_addr (pt BK_PARTITION_MATTER_FLASH)) + 4096 * s \<le> flash_cap d"
    using assms(1) unfolding kv_partition_def Let_def s_def by blast+
  moreover have "s div 2 \<le> 64" using s(2) by simp
  ultimately show "kv_fits pt [] d (partition_start_addr (pt BK_PARTITION_MATTER_FLASH)) (s div 2)"
    unfolding kv_fits_def o
    by (simp add: get_matter_flash_base_addr_def matter_partition_def chip_factory_def cstr_def bk_flash_get_info_def)
qed

lemma erase_all_ok:
  assumes ok: "flash_ok d" and p: "kv_partition pt d"
  shows "\<exists>d'. bk_erase_all pt d BK_PARTITION_MATTER_FLASH = Some (kNoErr, d') \<and> kv_state pt d' (\<lambda>_. None)"
proof -
  let ?info = "pt BK_PARTITION_MATTER_FLASH"
  let ?base = "partition_start_addr ?info" and ?s = "unat (partition_length ?info) div 4096"
  let ?body = "\<lambda>d. map_option (\<lambda>d'. (kNoErr, d')) (erase_sectors ?s d ?base)"
  have al: "4096 dvd unat ?base" "unat ?base + 4096 * ?s \<le> flash_cap d" using p unfolding kv_partition_def Let_def by blast+
  have "runsP (\<lambda>d. unprotected d ?body) d kNoErr (\<lambda>m'. m' = nor_erase (fd_mem d) (unat ?base) (4096 * ?s))"
  proof (rule runsP_unprotected [OF ok])
    fix d1 assume d1: "ready d1" "fd_mem d1 = fd_mem d" "fd_cfg d1 = fd_cfg d"
    then obtain d' where "erase_sectors ?s d1 ?base = Some d'" "ready d'" "fd_cfg d' = fd_cfg d1"
      "fd_mem d' = nor_erase (fd_mem d1) (unat ?base) (4096 * ?s)"
      using erase_sectors_ok [OF d1(1) al(1), of ?s] al(2) cap_cfg [OF d1(3)] by auto
    then show "runsP ?body d1 kNoErr (\<lambda>m'. m' = nor_erase (fd_mem d) (unat ?base) (4096 * ?s))"
      using d1(2) by (simp add: runsP_def)
  qed
  then obtain d' where d': "unprotected d ?body = Some (kNoErr, d')"
    "fd_mem d' = nor_erase (fd_mem d) (unat ?base) (4096 * ?s)" "flash_ok d'" "fd_cfg d' = fd_cfg d"
    by (rule runsPE)
  have "kv_state pt d' (\<lambda>_. None)"
    by (rule kv_state_erased [OF d'(3), of pt ?base "?s div 2"])
      (use kv_partition_fits [OF p] kv_fits_cfg [OF d'(4)] in \<open>simp_all add: d'(2) nor_erase_def\<close>)
  then show ?thesis
    using d'(1) by (simp add: bk_erase_all_def bk_flash_get_info_def NAME_SPACE_FLASH_TOTAL_SIZE_def unat_div)
qed

lemma write_capacity:
  assumes st: "kv_state pt d g" and u: "kv_key_ok u" and v: "kv_value_ok v" and mal: "\<And>k. mal k"
    and nz: "g (fst (beken_key u), n0) \<noteq> None"
  defines "f \<equiv> \<lambda>n. g (fst (beken_key u), n)" and "nm \<equiv> snd (beken_key u)"
  shows "\<exists>d'. bk_write_data pt mal d (Some (fst u)) (Some (snd u)) (Some v) (of_nat (length v)) =
    Some (if f nm = Some v \<or> card (other_names f nm) < 64 \<and>
             (\<Sum>n \<in> other_names f nm. length (the (f n))) + length v < 4096
          then kNoErr else kGeneralErr, d')"
proof -
  obtain base slots blks where ok: "flash_ok d" and fits: "kv_fits pt (fst (beken_key u)) d base (length slots)"
    and rep: "kv_rep (fd_mem d) (unat base) slots blks" and g: "g = (\<lambda>(ns, nm). kv_get slots blks ns nm)"
    and fits0: "kv_fits pt [] d base (length slots)" and gv: "\<forall>k v. g k = Some v \<longrightarrow> kv_value_ok v"
    by (rule kv_stateE [OF st u])
  have small: "kv_get slots blks (fst (beken_key u)) (snd (beken_key u)) = Some v0 \<Longrightarrow> length v0 \<le> 2048" for v0
    using gv [rule_format, of "beken_key u" v0] by (simp add: g kv_value_ok_def case_prod_unfold)
  have big: "length v < 2147483648" using v by (simp add: kv_value_ok_def)
  obtain i where i: "slot_of slots (fst (beken_key u)) = Some i"
    using nz by (auto simp: g kv_get_def split: option.splits)
  have f: "f = block_get (blks ! i)" by (simp add: f_def g kv_get_def i fun_eq_iff)
  have "distinct (live_names (blks ! i))"
    using rep slot_of_Some [OF i] by (simp add: kv_rep_def block_rep_def)
  then have "kv_room slots blks (fst (beken_key u)) nm v \<longleftrightarrow> f nm = Some v \<or> card (other_names f nm) < 64 \<and>
             (\<Sum>n \<in> other_names f nm. length (the (f n))) + length v < 4096"
    by (simp only: kv_room_def i option.case f room_for_get)
  then show ?thesis
    using write_data_ok [where mal = mal, OF ok mal kv_key_good(1,2) [OF u] fits rep refl small big]
    unfolding nm_def by (simp only: runsP_def) blast
qed

subsection \<open>Properties\<close>

text \<open>C1. The store is a map: any sequence of writes, reads and removals with well-formed keys and
  values of at most 2048 bytes runs to its end on the device, and its results are those of a map
  in which a refused write leaves the key without a value and every other key untouched.\<close>

theorem kv_run_refines_map:
  assumes "kv_state pt d g" and "\<forall>x \<in> set ops. op_ok kv_key_ok kv_value_ok x"
  shows "\<exists>outs d' h. kv_run (kv_put pt) (kv_read pt) (kv_del pt) d ops = Some (outs, d') \<and>
    kv_state pt d' h \<and> kv_trace beken_key g ops outs h"
  by (rule kvm.run_traces [OF assms])

text \<open>C20. Read after write: when \<open>bk_write_data\<close> reports success, reading any key afterwards gives
  the written bytes for this key and the former value for every other one, cut to the length
  the reader asks for.\<close>

theorem kv_write_then_read:
  assumes "kv_state pt d g" and "kv_key_ok u" and "kv_key_ok w" and "kv_value_ok v" and "\<forall>n. mal n"
    and "bk_write_data pt mal d (Some (fst u)) (Some (snd u)) (Some v) (of_nat (length v)) = Some (kNoErr, d')"
  shows "\<exists>d''. bk_read_data pt mal d' (Some (fst w)) (Some (snd w)) k =
    Some (case (g(beken_key u \<mapsto> v)) (beken_key w) of
            None \<Rightarrow> (kGeneralErr, []) | Some x \<Rightarrow> (kNoErr, take (unat k) x), d'')"
proof -
  have "kv_state pt d' (g(beken_key u \<mapsto> v))"
    using kv_write_step [where mal = mal, OF assms(1,2,4)] assms(5,6) by auto
  then show ?thesis using kv_read_step [where mal = mal] assms(3,5) by blast
qed

text \<open>C12. A write that is refused has destroyed the value it was to replace: reading the key
  afterwards reports an error, whatever was stored before.\<close>

theorem kv_refused_write_loses_value:
  assumes "kv_state pt d g" and "kv_key_ok u" and "kv_value_ok v" and "\<forall>n. mal n"
    and "bk_write_data pt mal d (Some (fst u)) (Some (snd u)) (Some v) (of_nat (length v)) = Some (r, d')"
    and "r \<noteq> kNoErr"
  shows "\<exists>d''. bk_read_data pt mal d' (Some (fst u)) (Some (snd u)) k = Some ((kGeneralErr, []), d'')"
proof -
  have "kv_state pt d' (g(beken_key u := None))"
    using kv_write_step [where mal = mal, OF assms(1,2,3)] assms(4-6) by auto
  then show ?thesis using kv_read_step [where mal = mal, of pt d' _ u] assms(2,4) by force
qed

text \<open>C21. Removal: \<open>bk_clean_data\<close> succeeds exactly when the key has a value; afterwards the key
  has none and every other key its old one.  When the key had no value the function sets a
  protection level it never read, and the device stays fully writable.\<close>

theorem kv_clean_exact:
  assumes "kv_state pt d g" and "kv_key_ok u" and "\<forall>n. mal n"
  shows "\<exists>d'. bk_clean_data pt mal d (Some (fst u)) (Some (snd u)) =
      Some (if g (beken_key u) = None then kGeneralErr else kNoErr, d') \<and>
    kv_state pt d' (g(beken_key u := None)) \<and>
    (g (beken_key u) = None \<longrightarrow> (\<forall>x. \<not> fd_locked d' (fd_sr d') x))"
proof -
  have m: "\<And>n. mal n" using assms(3) by simp
  show ?thesis using kv_clean_step [where mal = mal, OF assms(1,2) m] ready_unlocked unfolding unlocked_def by metis
qed

text \<open>C22. Capacity: in a namespace that holds a value, a write succeeds exactly when the value is
  already there, or the other keys of the namespace are fewer than 64 and their values and the
  new one fit below 4096 bytes.  Masked entries and their data never cost room.\<close>

theorem kv_capacity:
  assumes "kv_state pt d g" and "kv_key_ok u" and "kv_value_ok v" and "\<forall>n. mal n"
    and "g (fst (beken_key u), n0) \<noteq> None"
    and "f = (\<lambda>n. g (fst (beken_key u), n))" and "nm = snd (beken_key u)"
  shows "\<exists>d'. bk_write_data pt mal d (Some (fst u)) (Some (snd u)) (Some v) (of_nat (length v)) =
    Some (if f nm = Some v \<or> card (other_names f nm) < 64 \<and>
             (\<Sum>n \<in> other_names f nm. length (the (f n))) + length v < 4096
          then kNoErr else kGeneralErr, d')"
  unfolding assms(6,7) using assms(4) by (intro write_capacity [OF assms(1-3) _ assms(5)]) simp

text \<open>C23. Erasing the partition gives the empty store, from any contents of the flash.\<close>

theorem kv_erase_all_empties:
  assumes "flash_ok d" and "kv_partition pt d"
  shows "\<exists>d'. bk_erase_all pt d BK_PARTITION_MATTER_FLASH = Some (kNoErr, d') \<and> kv_state pt d' (\<lambda>_. None)"
  by (rule erase_all_ok [OF assms])

subsection \<open>Concrete instances\<close>

abbreviation demo_pt :: part_table where "demo_pt \<equiv> bk7231_partitions_2M demo_build"

lemma demo_partition: "kv_partition demo_pt (demo_dev pw)"
  by (simp add: kv_partition_def Let_def demo_build_def mk_part_def flash_cap_def)

lemma demo_state: "kv_state demo_pt (demo_dev pw) (\<lambda>_. None)"
  by (rule kv_state_erased [OF demo_dev_ok kv_partition_fits(1) [OF demo_partition]]) simp

definition demo_key :: "u8 list \<times> u8 list" where "demo_key = (cstr ''wifi'', cstr ''ssid'')"
definition demo_key2 :: "u8 list \<times> u8 list" where "demo_key2 = (cstr ''chip-config'', cstr ''pin'')"

lemma demo_key_ok [simp]: "kv_key_ok demo_key" "kv_key_ok demo_key2"
  by (simp_all add: kv_key_ok_def demo_key_def demo_key2_def beken_key_def change_namespace_to_beken_def cstr_def chip_factory_def
      chip_config_def chip_counters_def good_ns_def good_name_def)

theorem kv_run_refines_map_witness:
  "\<exists>outs d' h. kv_run (kv_put demo_pt) (kv_read demo_pt) (kv_del demo_pt) (demo_dev True)
      [KPut demo_key [1, 2], KGet demo_key2, KDel demo_key] = Some (outs, d') \<and>
    kv_state demo_pt d' h \<and>
    kv_trace beken_key (\<lambda>_. None) [KPut demo_key [1, 2], KGet demo_key2, KDel demo_key] outs h"
  by (rule kv_run_refines_map [OF demo_state]) (simp add: kv_value_ok_def)

lemma demo_write:
  assumes "kv_value_ok v"
  obtains d' where "bk_write_data demo_pt (\<lambda>_. True) (demo_dev True) (Some (fst demo_key)) (Some (snd demo_key)) (Some v)
      (of_nat (length v)) = Some (kNoErr, d')" "kv_state demo_pt d' ((\<lambda>_. None)(beken_key demo_key \<mapsto> v))"
proof -
  let ?base = "partition_start_addr (demo_pt BK_PARTITION_MATTER_FLASH)"
  have ns: "fst (beken_key demo_key) \<noteq> chip_factory" by (rule kv_key_good) simp
  have n4: "unat (partition_length (demo_pt BK_PARTITION_MATTER_FLASH)) div 4096 div 2 = 4"
    by (simp add: demo_build_def mk_part_def)
  have fits: "kv_fits demo_pt (fst (beken_key demo_key)) (demo_dev True) ?base 4"
    using kv_partition_fits(1) [OF demo_partition, of True] kv_fits_any [OF ns] n4 by simp
  have e: "kv_rep (fd_mem (demo_dev True)) (unat ?base) (replicate 4 None) (replicate 4 [])"
    by (rule kv_rep_erased) simp_all
  have free: "slot_of (replicate 4 None) (fst (beken_key demo_key)) = None" "free_slot (replicate 4 None) \<noteq> None"
    by (simp add: slot_of_None, simp add: free_slot_def upt_rec)
  have big: "length v < 2147483648" and room: "kv_room (replicate 4 None) (replicate 4 []) (fst (beken_key demo_key)) (snd (beken_key demo_key)) v"
    using assms free by (simp_all add: kv_value_ok_def kv_room_def)
  have none: "kv_get (replicate 4 None) (replicate 4 []) (fst (beken_key demo_key)) (snd (beken_key demo_key)) = Some v0
      \<Longrightarrow> length v0 \<le> 2048" for v0
    using free by (simp add: kv_get_def)
  obtain d' where d': "bk_write_data demo_pt (\<lambda>_. True) (demo_dev True) (Some (fst demo_key)) (Some (snd demo_key)) (Some v)
      (of_nat (length v)) = Some (kNoErr, d')"
    using write_data_ok [where mal = "\<lambda>_. True", OF demo_dev_ok TrueI kv_key_good(1,2) [OF demo_key_ok(1)] fits e _ none big]
      room by (auto simp: runsP_def)
  moreover have "kv_state demo_pt d' ((\<lambda>_. None)(beken_key demo_key \<mapsto> v))"
    using kv_write_step [where mal = "\<lambda>_. True", OF demo_state [of True] demo_key_ok(1) assms] d' by auto
  ultimately show thesis using that by blast
qed

definition demo_key3 :: "u8 list \<times> u8 list" where "demo_key3 = (cstr ''wifi'', cstr ''key'')"

lemma demo_key3_ok [simp]: "kv_key_ok demo_key3" "beken_key demo_key3 = (cstr ''wifi'', cstr ''key'')"
  "beken_key demo_key = (cstr ''wifi'', cstr ''ssid'')"
  by (simp_all add: kv_key_ok_def demo_key_def demo_key3_def beken_key_def change_namespace_to_beken_def cstr_def chip_factory_def
      chip_config_def chip_counters_def good_ns_def good_name_def)

lemma demo_full:
  obtains d d' where "kv_state demo_pt d ((\<lambda>_. None)(beken_key demo_key \<mapsto> replicate 2048 7))"
    "bk_write_data demo_pt (\<lambda>_. True) d (Some (fst demo_key3)) (Some (snd demo_key3)) (Some (replicate 2048 9))
       (of_nat (length (replicate 2048 (9 :: u8)))) = Some (kGeneralErr, d')"
proof -
  obtain d where d: "kv_state demo_pt d ((\<lambda>_. None)(beken_key demo_key \<mapsto> replicate 2048 7))"
    by (rule demo_write [of "replicate 2048 7"]) (simp add: kv_value_ok_def)
  have o: "other_names (\<lambda>n. ((\<lambda>_. None)(beken_key demo_key \<mapsto> replicate 2048 7)) (fst (beken_key demo_key3), n)) (snd (beken_key demo_key3))
      = {cstr ''ssid''}"
    by (auto simp: other_names_def cstr_def split: if_splits)
  show thesis
    using write_capacity [where mal = "\<lambda>_. True", OF d demo_key3_ok(1), of "replicate 2048 9" "cstr ''ssid''"] that [OF d]
    unfolding o by (auto simp: kv_value_ok_def cstr_def)
qed

theorem kv_write_then_read_witness:
  "\<exists>d' d''. bk_write_data demo_pt (\<lambda>_. True) (demo_dev True) (Some (fst demo_key)) (Some (snd demo_key)) (Some [1, 2, 3])
      (of_nat (length [1, 2, 3 :: u8])) = Some (kNoErr, d') \<and>
    bk_read_data demo_pt (\<lambda>_. True) d' (Some (fst demo_key)) (Some (snd demo_key)) 2 = Some ((kNoErr, [1, 2]), d'')"
proof -
  have v: "kv_value_ok [1, 2, 3]" by (simp add: kv_value_ok_def)
  obtain d' where d': "bk_write_data demo_pt (\<lambda>_. True) (demo_dev True) (Some (fst demo_key)) (Some (snd demo_key)) (Some [1, 2, 3])
      (of_nat (length [1, 2, 3 :: u8])) = Some (kNoErr, d')"
    by (rule demo_write [OF v])
  then show ?thesis
    using kv_write_then_read [where mal = "\<lambda>_. True", OF demo_state demo_key_ok(1) demo_key_ok(1) v _ d', of 2] by auto
qed

theorem kv_refused_write_loses_value_witness:
  "\<exists>d d' d''. bk_write_data demo_pt (\<lambda>_. True) d (Some (fst demo_key3)) (Some (snd demo_key3)) (Some (replicate 2048 9))
       (of_nat (length (replicate 2048 (9 :: u8)))) = Some (kGeneralErr, d') \<and>
    bk_read_data demo_pt (\<lambda>_. True) d' (Some (fst demo_key3)) (Some (snd demo_key3)) 2048 = Some ((kGeneralErr, []), d'')"
proof -
  obtain d d' where d: "kv_state demo_pt d ((\<lambda>_. None)(beken_key demo_key \<mapsto> replicate 2048 7))"
    "bk_write_data demo_pt (\<lambda>_. True) d (Some (fst demo_key3)) (Some (snd demo_key3)) (Some (replicate 2048 9))
       (of_nat (length (replicate 2048 (9 :: u8)))) = Some (kGeneralErr, d')"
    by (rule demo_full)
  have "kv_value_ok (replicate 2048 9)" by (simp add: kv_value_ok_def)
  then show ?thesis
    using kv_refused_write_loses_value [where mal = "\<lambda>_. True", OF d(1) demo_key3_ok(1) _ _ d(2), of 2048] d(2) by blast
qed

theorem kv_clean_exact_witness:
  "\<exists>d'. bk_clean_data demo_pt (\<lambda>_. True) (demo_dev True) (Some (fst demo_key)) (Some (snd demo_key)) = Some (kGeneralErr, d') \<and>
    (\<forall>x. \<not> fd_locked d' (fd_sr d') x)"
  using kv_clean_exact [OF demo_state [of True] demo_key_ok(1), of "\<lambda>_. True"] by auto

theorem kv_capacity_witness:
  "\<exists>d d'. bk_write_data demo_pt (\<lambda>_. True) d (Some (fst demo_key3)) (Some (snd demo_key3)) (Some (replicate 2047 9))
       (of_nat (length (replicate 2047 (9 :: u8)))) = Some (kNoErr, d')"
proof -
  let ?g = "(\<lambda>_. None)(beken_key demo_key \<mapsto> replicate 2048 7)"
  obtain d where d: "kv_state demo_pt d ?g"
    by (rule demo_write [of "replicate 2048 7"]) (simp add: kv_value_ok_def)
  have o: "other_names (\<lambda>n. ?g (fst (beken_key demo_key3), n)) (snd (beken_key demo_key3)) = {cstr ''ssid''}"
    by (auto simp: other_names_def cstr_def split: if_splits)
  show ?thesis
    using kv_capacity [where mal = "\<lambda>_. True", OF d demo_key3_ok(1), of "replicate 2047 9" "cstr ''ssid''", OF _ _ _ refl refl]
    unfolding o by (auto simp: kv_value_ok_def)
qed

theorem kv_erase_all_empties_witness:
  "\<exists>d'. bk_erase_all demo_pt (demo_dev True) BK_PARTITION_MATTER_FLASH = Some (kNoErr, d') \<and> kv_state demo_pt d' (\<lambda>_. None)"
  by (rule kv_erase_all_empties [OF demo_dev_ok demo_partition])

end
