(* ===== verification/Simulation.thy ===== *)
theory Simulation
  imports Prelude "HOL-Library.Monad_Syntax"
begin

text \<open>
  Forward simulation of a component by its specification: operations that may fail run on the
  state of the code, total operations run on the abstract value, and the operations' contract says
  when a caller may use them.  The components that state such a contract interpret the locale and
  get the statement on sequences of operations from it.
\<close>

fun run_ops :: "('op \<Rightarrow> 's \<Rightarrow> ('out \<times> 's) option) \<Rightarrow> 'op list \<Rightarrow> 's \<Rightarrow> ('out list \<times> 's) option" where
  "run_ops step [] s = Some ([], s)"
| "run_ops step (x # xs) s = do { (o1, s1) \<leftarrow> step x s; (os, s2) \<leftarrow> run_ops step xs s1; Some (o1 # os, s2) }"

fun spec_ops :: "('op \<Rightarrow> 'a \<Rightarrow> 'out \<times> 'a) \<Rightarrow> 'op list \<Rightarrow> 'a \<Rightarrow> 'out list \<times> 'a" where
  "spec_ops spec [] a = ([], a)"
| "spec_ops spec (x # xs) a = (let (o1, a1) = spec x a; (os, a2) = spec_ops spec xs a1 in (o1 # os, a2))"

fun ops_ok :: "('op \<Rightarrow> 'a \<Rightarrow> bool) \<Rightarrow> ('op \<Rightarrow> 'a \<Rightarrow> 'out \<times> 'a) \<Rightarrow> 'op list \<Rightarrow> 'a \<Rightarrow> bool" where
  "ops_ok ok spec [] a \<longleftrightarrow> True"
| "ops_ok ok spec (x # xs) a \<longleftrightarrow> ok x a \<and> ops_ok ok spec xs (snd (spec x a))"

lemma ops_ok_append:
  "ops_ok ok spec (xs @ ys) a \<longleftrightarrow> ops_ok ok spec xs a \<and> ops_ok ok spec ys (snd (spec_ops spec xs a))"
  by (induction xs arbitrary: a) (auto simp: split_beta Let_def)

lemma ops_ok_const: "ops_ok (\<lambda>x _. P x) spec xs a \<longleftrightarrow> (\<forall>x \<in> set xs. P x)"
  by (induction xs arbitrary: a) auto

locale simulation =
  fixes rep :: "'s \<Rightarrow> 'a \<Rightarrow> bool"
    and step :: "'op \<Rightarrow> 's \<Rightarrow> ('out \<times> 's) option"
    and spec :: "'op \<Rightarrow> 'a \<Rightarrow> 'out \<times> 'a"
    and ok :: "'op \<Rightarrow> 'a \<Rightarrow> bool"
  assumes step_law: "rep s a \<Longrightarrow> ok x a \<Longrightarrow> \<exists>s'. step x s = Some (fst (spec x a), s') \<and> rep s' (snd (spec x a))"
begin

lemma run_refines:
  "rep s a \<Longrightarrow> ops_ok ok spec xs a \<Longrightarrow>
     \<exists>s'. run_ops step xs s = Some (fst (spec_ops spec xs a), s') \<and> rep s' (snd (spec_ops spec xs a))"
proof (induction xs arbitrary: s a)
  case (Cons x xs)
  obtain s1 where s1: "step x s = Some (fst (spec x a), s1)" "rep s1 (snd (spec x a))"
    using step_law [OF Cons.prems(1), of x] Cons.prems(2) by auto
  then obtain s2 where "run_ops step xs s1 = Some (fst (spec_ops spec xs (snd (spec x a))), s2)"
    "rep s2 (snd (spec_ops spec xs (snd (spec x a))))" using Cons.IH Cons.prems(2) by fastforce
  then show ?case using s1 by (simp add: split_beta Let_def)
qed simp

end

end
