(* ===== verification/NetParam.thy ===== *)
theory NetParam
  imports NorStore Simulation
begin

text \<open>
  The network parameters of \<open>func/net_param_intf/net_param.c\<close>: a type-length-value table in the
  partition \<open>BK_PARTITION_NET_PARAM\<close>.  \<open>get_info_item\<close> looks an item up in the flash,
  \<open>save_info_item\<close> rebuilds the table in memory, erases the sector and writes it back.

  A pointer argument of \<open>get_info_item\<close> is whether it is not \<open>NULL\<close>, and the result gives the
  bytes written through each pointer.  A pointer argument of \<open>save_info_item\<close> is the bytes behind
  it.  The result \<open>None\<close> is a dereferenced \<open>NULL\<close>, an access outside the allocated buffer, or the
  search loop not ending.  \<open>mal\<close> says whether an allocation of a size succeeds.
\<close>

subsection \<open>Items\<close>

definition INFO_TLV_HEADER :: u32 where "INFO_TLV_HEADER = 0x00564c54"

definition AUTO_CONNECT_ITEM :: u32 where "AUTO_CONNECT_ITEM = 0x11111111"
definition WIFI_MODE_ITEM :: u32 where "WIFI_MODE_ITEM = 0x22222222"
definition DHCP_MODE_ITEM :: u32 where "DHCP_MODE_ITEM = 0x33333333"
definition WIFI_MAC_ITEM :: u32 where "WIFI_MAC_ITEM = 0x44444444"
definition SSID_KEY_ITEM :: u32 where "SSID_KEY_ITEM = 0x55555555"
definition IP_CONFIG_ITEM :: u32 where "IP_CONFIG_ITEM = 0x66666666"
definition RF_CFG_TSSI_ITEM :: u32 where "RF_CFG_TSSI_ITEM = 0x77777777"
definition RF_CFG_DIST_ITEM :: u32 where "RF_CFG_DIST_ITEM = 0x88888888"
definition RF_CFG_MODE_ITEM :: u32 where "RF_CFG_MODE_ITEM = 0x99999999"
definition CHARGE_CONFIG_ITEM :: u32 where "CHARGE_CONFIG_ITEM = 0xaaaaaaaa"
definition RF_CFG_TSSI_B_ITEM :: u32 where "RF_CFG_TSSI_B_ITEM = 0xbbbbbbbb"
definition RF_CFG_TSSI_N20_ITEM :: u32 where "RF_CFG_TSSI_N20_ITEM = 0xcccccccc"
definition RF_CFG_TSSI_N40_ITEM :: u32 where "RF_CFG_TSSI_N40_ITEM = 0xdddddddd"

lemmas net_item_defs = AUTO_CONNECT_ITEM_def WIFI_MODE_ITEM_def DHCP_MODE_ITEM_def WIFI_MAC_ITEM_def SSID_KEY_ITEM_def
  IP_CONFIG_ITEM_def RF_CFG_TSSI_ITEM_def RF_CFG_DIST_ITEM_def RF_CFG_MODE_ITEM_def CHARGE_CONFIG_ITEM_def
  RF_CFG_TSSI_B_ITEM_def RF_CFG_TSSI_N20_ITEM_def RF_CFG_TSSI_N40_ITEM_def

definition common_items :: "u32 list" where
  "common_items = [AUTO_CONNECT_ITEM, WIFI_MODE_ITEM, DHCP_MODE_ITEM, RF_CFG_TSSI_ITEM, RF_CFG_DIST_ITEM,
     RF_CFG_MODE_ITEM, RF_CFG_TSSI_B_ITEM, RF_CFG_TSSI_N20_ITEM, RF_CFG_TSSI_N40_ITEM]"

record info_item_st =
  it_type :: u32
  it_len :: u32

definition info_item_len :: "u32 \<Rightarrow> u32" where
  "info_item_len item =
     (if item \<in> set common_items then 12
      else if item = WIFI_MAC_ITEM then 16
      else if item = CHARGE_CONFIG_ITEM then 12
      else if item = SSID_KEY_ITEM then 104
      else if item = IP_CONFIG_ITEM then 56
      else 12)"

subsection \<open>Lookup\<close>

definition read_head :: "flash_dev \<Rightarrow> u32 \<Rightarrow> info_item_st" where
  "read_head d addr =
     (let bs = flash_read d 8 addr in \<lparr>it_type = get32 bs 0, it_len = get32 bs 4\<rparr>)"

definition net_start :: "part_table \<Rightarrow> u32" where
  "net_start pt = partition_start_addr (pt BK_PARTITION_NET_PARAM)"

definition search_info_tbl :: "part_table \<Rightarrow> flash_dev \<Rightarrow> bool \<times> u32 \<times> u8 list" where
  "search_info_tbl pt d =
     (let head = read_head d (net_start pt) in
      if it_type head = INFO_TLV_HEADER
      then (let cfg_len = it_len head + 8 in (True, cfg_len, flash_read d cfg_len (net_start pt)))
      else (False, 0, []))"

partial_function (option) item_loop :: "flash_dev \<Rightarrow> u32 \<Rightarrow> u32 \<Rightarrow> u32 \<Rightarrow> u32 option" where
  "item_loop d type addr end_addr =
     (if addr < end_addr
      then (let head = read_head d addr in
            if type \<noteq> it_type head then item_loop d type (addr + 8 + it_len head) end_addr
            else Some addr)
      else Some addr)"

definition search_info_item :: "flash_dev \<Rightarrow> u32 \<Rightarrow> u32 \<Rightarrow> u32 option" where
  "search_info_item d type start_addr =
     (let head = read_head d start_addr; addr = start_addr + 8; end_addr = addr + it_len head in
      map_option (\<lambda>a. if end_addr \<le> a then 0 else a) (item_loop d type addr end_addr))"

definition get_info_item ::
  "part_table \<Rightarrow> flash_dev \<Rightarrow> u32 \<Rightarrow> bool \<Rightarrow> bool \<Rightarrow> bool
     \<Rightarrow> (u32 \<times> u8 list \<times> u8 list \<times> u8 list) option" where
  "get_info_item pt d item ptr0 ptr1 ptr2 =
     (if \<not> fst (search_info_tbl pt d) then Some (0, [], [], [])
      else do {
        addr_start \<leftarrow> search_info_item d item (net_start pt);
        if addr_start = 0 then Some (0, [], [], [])
        else (let head = read_head d addr_start; a = addr_start + 8 in
          if item \<in> set common_items \<or> item = WIFI_MAC_ITEM \<or> item = CHARGE_CONFIG_ITEM
          then (if ptr0 then Some (1, flash_read d (it_len head) a, [], []) else Some (0, [], [], []))
          else if item = SSID_KEY_ITEM
          then (if ptr0 \<and> ptr1 then Some (1, flash_read d 32 a, flash_read d 64 (a + 32), [])
                else Some (0, [], [], []))
          else if item = IP_CONFIG_ITEM
          then (if ptr0 \<and> ptr1 \<and> ptr2
                then Some (1, flash_read d 16 a, flash_read d 16 (a + 16), flash_read d 16 (a + 32))
                else Some (0, [], [], []))
          else Some (0, [], [], [])) })"

subsection \<open>Update\<close>

definition bytes_at :: "u8 list option \<Rightarrow> nat \<Rightarrow> u8 list option" where
  "bytes_at ptr n = (case ptr of None \<Rightarrow> None | Some bs \<Rightarrow> if n \<le> length bs then Some (take n bs) else None)"

definition item_args ::
  "build_cfg \<Rightarrow> u32 \<Rightarrow> u8 list option \<Rightarrow> u8 list option \<Rightarrow> u8 list option \<Rightarrow> u8 list option" where
  "item_args b item ptr0 ptr1 ptr2 =
     (if item \<in> set common_items then bytes_at ptr0 4
      else if item = WIFI_MAC_ITEM then bytes_at ptr0 6
      else if item = SSID_KEY_ITEM
      then do { x \<leftarrow> bytes_at ptr0 32; y \<leftarrow> bytes_at ptr1 64; Some (x @ y) }
      else if item = IP_CONFIG_ITEM
      then do { x \<leftarrow> bytes_at ptr0 16; y \<leftarrow> bytes_at ptr1 16; z \<leftarrow> bytes_at ptr2 16; Some (x @ y @ z) }
      else if item = CHARGE_CONFIG_ITEM then bytes_at ptr0 (if SOC_BK7221U b then 4 else 3)
      else bytes_at ptr0 4)"

definition fill_item :: "u8 list \<Rightarrow> nat \<Rightarrow> u32 \<Rightarrow> u32 \<Rightarrow> u32 \<Rightarrow> u8 list \<Rightarrow> u8 list option" where
  "fill_item buf off item item_len head_len args =
     do {
       b1 \<leftarrow> mem_store buf (off + 8) args;
       b2 \<leftarrow> mem_store b1 off (le32 item @ le32 (item_len - 8));
       mem_store b2 0 (le32 INFO_TLV_HEADER @ le32 head_len) }"

definition save_info_item ::
  "build_cfg \<Rightarrow> part_table \<Rightarrow> (nat \<Rightarrow> bool) \<Rightarrow> flash_dev \<Rightarrow> u32 \<Rightarrow> u8 list option \<Rightarrow> u8 list option \<Rightarrow> u8 list option
     \<Rightarrow> (u32 \<times> flash_dev) option" where
  "save_info_item b pt mal d item ptr0 ptr1 ptr2 =
     (let item_len = info_item_len item; (found, tbl_len, tbl) = search_info_tbl pt d in
      do {
        (addr_offset, cfg_tbl_len, head_len) \<leftarrow>
          (if \<not> found then Some (8, 8 + item_len, item_len)
           else do {
             a \<leftarrow> search_info_item d item (net_start pt);
             (let (off, len) = (if a = 0 then (tbl_len, tbl_len + item_len) else (a - net_start pt, tbl_len)) in
              Some (off, len, len - 8)) });
        if \<not> mal (unat cfg_tbl_len) then Some (0, d)
        else do {
          wrbuf \<leftarrow> mem_store (replicate (unat cfg_tbl_len) 0) 0 tbl;
          args \<leftarrow> item_args b item ptr0 ptr1 ptr2;
          tmpptr \<leftarrow> fill_item wrbuf (unat addr_offset) item item_len head_len args;
          d1 \<leftarrow> bk_flash_enable_security d FLASH_PROTECT_NONE;
          (d2, _) \<leftarrow> bk_flash_erase pt d1 BK_PARTITION_NET_PARAM 0 cfg_tbl_len;
          (d3, _) \<leftarrow> bk_flash_write pt d2 BK_PARTITION_NET_PARAM 0 (Some tmpptr) cfg_tbl_len;
          d4 \<leftarrow> bk_flash_enable_security d3 FLASH_UNPROTECT_LAST_BLOCK;
          Some (1, d4) } })"

definition test_get_whole_tbl :: "part_table \<Rightarrow> flash_dev \<Rightarrow> bool \<times> u8 list" where
  "test_get_whole_tbl pt d = (let (ret, _, bs) = search_info_tbl pt d in (ret, bs))"

subsection \<open>The table as a list\<close>

type_synonym net_item = "u32 \<times> u8 list"

definition enc_item :: "net_item \<Rightarrow> u8 list" where
  "enc_item e = le32 (fst e) @ le32 (of_nat (length (snd e))) @ snd e"

definition body :: "net_item list \<Rightarrow> u8 list" where "body es = concat (map enc_item es)"

definition enc_tbl :: "net_item list \<Rightarrow> u8 list" where
  "enc_tbl es = le32 INFO_TLV_HEADER @ le32 (of_nat (length (body es))) @ body es"

definition net_items :: "u32 list" where
  "net_items = common_items @ [WIFI_MAC_ITEM, CHARGE_CONFIG_ITEM, SSID_KEY_ITEM, IP_CONFIG_ITEM]"

definition payload_len :: "u32 \<Rightarrow> nat" where "payload_len t = unat (info_item_len t) - 8"

definition net_list :: "net_item list \<Rightarrow> bool" where
  "net_list es \<longleftrightarrow> distinct (map fst es) \<and> (\<forall>e \<in> set es. fst e \<in> set net_items \<and> length (snd e) = payload_len (fst e))"

definition net_rep :: "(nat \<Rightarrow> u8) \<Rightarrow> nat \<Rightarrow> net_item list \<Rightarrow> bool" where
  "net_rep m B es \<longleftrightarrow> slice m B (length (enc_tbl es)) = enc_tbl es \<and> net_list es"

lemma length_enc_item [simp]: "length (enc_item e) = 8 + length (snd e)"
  by (simp add: enc_item_def)

lemma body_simps [simp]: "body [] = []" "body (e # es) = enc_item e @ body es" "body (xs @ ys) = body xs @ body ys"
  by (simp_all add: body_def)

lemma length_enc_tbl [simp]: "length (enc_tbl es) = 8 + length (body es)"
  by (simp add: enc_tbl_def)

lemma net_items_distinct: "distinct net_items"
  by (simp add: net_items_def common_items_def net_item_defs)

lemma payload_sum: "(\<Sum>t \<leftarrow> net_items. 8 + payload_len t) = 296"
  by (simp add: net_items_def common_items_def payload_len_def info_item_len_def net_item_defs)

lemma body_small:
  assumes "net_list es"
  shows "length (body es) \<le> 296"
proof -
  have l: "length (body es) = (\<Sum>t \<leftarrow> map fst es. 8 + payload_len t)"
    using assms by (induction es) (auto simp: net_list_def)
  also have "\<dots> = (\<Sum>t \<in> set (map fst es). 8 + payload_len t)"
    by (rule sum.distinct_set_conv_list [symmetric]) (use assms in \<open>simp add: net_list_def\<close>)
  also have "\<dots> \<le> (\<Sum>t \<in> set net_items. 8 + payload_len t)"
    using assms by (intro sum_mono2) (auto simp: net_list_def)
  also have "\<dots> = 296"
    using payload_sum by (simp add: sum.distinct_set_conv_list [OF net_items_distinct])
  finally show ?thesis .
qed

subsection \<open>Reading the table\<close>

definition net_part :: "part_table \<Rightarrow> flash_dev \<Rightarrow> bool" where
  "net_part pt d \<longleftrightarrow> 4096 dvd unat (net_start pt) \<and> 0 < unat (net_start pt) \<and> unat (net_start pt) + 4096 \<le> flash_cap d"

lemma flash_read_slice: "flash_read d n a = slice (fd_mem d) (unat a) (unat n)"
  by (simp add: flash_read_def flash_read_data_eq)

lemma get32_second: "get32 (le32 a @ le32 b @ bs) 4 = b"
  using get32_append_right [of "le32 a" 4 "le32 b @ bs" 0] by simp

lemma read_head_enc:
  assumes "slice (fd_mem d) (unat a) (length (le32 x @ le32 y @ bs)) = le32 x @ le32 y @ bs"
  shows "read_head d a = \<lparr>it_type = x, it_len = y\<rparr>"
proof -
  have "slice (fd_mem d) (unat a) 8 = take 8 (slice (fd_mem d) (unat a) (length (le32 x @ le32 y @ bs)))"
    by (simp add: take_slice)
  then have "slice (fd_mem d) (unat a) 8 = le32 x @ le32 y" unfolding assms by simp
  then show ?thesis
    using get32_second [of x y "[]"] by (simp add: read_head_def flash_read_slice)
qed

fun off_of :: "u32 \<Rightarrow> net_item list \<Rightarrow> nat" where
  "off_of t [] = 0"
| "off_of t (e # es) = (if fst e = t then 0 else 8 + length (snd e) + off_of t es)"

lemma off_of_absent: "t \<notin> fst ` set es \<Longrightarrow> off_of t es = length (body es)"
  by (induction es) auto

lemma off_of_split: "t \<notin> fst ` set xs \<Longrightarrow> off_of t (xs @ (t, v) # ys) = length (body xs)"
  by (induction xs) auto

lemma off_of_lt: "t \<in> fst ` set es \<Longrightarrow> off_of t es < length (body es)"
  by (induction es) auto

lemma unat_of_nat_u32: "n < 4294967296 \<Longrightarrow> unat (of_nat n :: u32) = n"
  by (simp add: unsigned_of_nat take_bit_nat_def)

lemma item_loop_body:
  assumes "slice (fd_mem d) (unat a) (length (body es)) = body es" and "unat a + length (body es) < 4294967296"
    and "unat e = unat a + length (body es)" "\<forall>x \<in> set es. length (snd x) < 4294967296"
  shows "item_loop d t a e = Some (a + of_nat (off_of t es))"
  using assms
proof (induction es arbitrary: a)
  case Nil
  then show ?case by (subst item_loop.simps) (simp add: word_less_nat_alt)
next
  case (Cons x es)
  let ?l = "8 + length (snd x)"
  let ?a = "a + of_nat ?l"
  have ua: "unat ?a = unat a + ?l"
  proof -
    have l: "unat (of_nat ?l :: u32) = ?l" using Cons.prems(2) by (intro unat_of_nat_u32) simp
    have "unat a + ?l < 4294967296" using Cons.prems(2) by simp
    then show ?thesis by (rule unat_add_32 [of a "of_nat ?l", unfolded l])
  qed
  have sp: "slice (fd_mem d) (unat a) (?l + length (body es)) = enc_item x @ body es"
    using Cons.prems(1) by simp
  have h: "slice (fd_mem d) (unat a) ?l = enc_item x"
    using arg_cong [OF sp, of "take ?l"] by (simp add: take_slice)
  have r: "slice (fd_mem d) (unat ?a) (length (body es)) = body es"
    using arg_cong [OF sp, of "drop ?l"] ua by (simp add: drop_slice)
  have hd: "read_head d a = \<lparr>it_type = fst x, it_len = of_nat (length (snd x))\<rparr>"
    by (rule read_head_enc [of _ _ _ _ "snd x"]) (use h in \<open>simp add: enc_item_def add.commute\<close>)
  have lt: "a < e" using Cons.prems(3) by (simp add: word_less_nat_alt)
  have IH: "item_loop d t ?a e = Some (?a + of_nat (off_of t es))"
  proof (rule Cons.IH)
    show "unat ?a + length (body es) < 4294967296" unfolding ua using Cons.prems(2) by simp
    show "unat e = unat ?a + length (body es)" unfolding ua using Cons.prems(3) by simp
  qed (use r Cons.prems(4) in auto)
  show ?case
    by (subst item_loop.simps) (use lt hd IH in \<open>auto simp: Let_def ac_simps\<close>)
qed

lemma net_rep_parts:
  assumes "net_rep m B es"
  shows "slice m B (8 + length (body es)) = enc_tbl es" "net_list es" "length (body es) \<le> 296"
    "slice m (B + 8) (length (body es)) = body es"
proof -
  show s: "slice m B (8 + length (body es)) = enc_tbl es" and n: "net_list es" using assms by (simp_all add: net_rep_def)
  show "length (body es) \<le> 296" by (rule body_small [OF n])
  show "slice m (B + 8) (length (body es)) = body es"
    using arg_cong [OF s, of "drop 8"] by (simp add: drop_slice enc_tbl_def)
qed

lemma start_addr:
  assumes ok: "flash_ok d" and p: "net_part pt d" and n: "n \<le> 4096"
  shows "unat (net_start pt + of_nat n) = unat (net_start pt) + n"
proof -
  have u: "unat (of_nat n :: u32) = n" using n by (intro unat_of_nat_u32) simp
  show ?thesis
    using p flash_cap_le [OF ok] u n by (subst unat_add_32) (simp_all add: net_part_def)
qed

lemma tbl_found:
  assumes ok: "flash_ok d" and p: "net_part pt d" and rep: "net_rep (fd_mem d) (unat (net_start pt)) es"
  shows "search_info_tbl pt d = (True, of_nat (8 + length (body es)), enc_tbl es)"
    "search_info_item d t (net_start pt) =
       Some (if t \<in> fst ` set es then net_start pt + of_nat (8 + off_of t es) else 0)"
proof -
  let ?B = "net_start pt" and ?L = "length (body es)"
  note r = net_rep_parts [OF rep]
  have h: "read_head d ?B = \<lparr>it_type = INFO_TLV_HEADER, it_len = of_nat ?L\<rparr>"
    by (rule read_head_enc [of _ _ _ _ "body es"]) (use r(1) in \<open>simp add: enc_tbl_def\<close>)
  have u: "unat (of_nat (8 + ?L) :: u32) = 8 + ?L" using r(3) by (intro unat_of_nat_u32) simp
  have a: "of_nat ?L + 8 = (of_nat (8 + ?L) :: u32)" by simp
  show "search_info_tbl pt d = (True, of_nat (8 + length (body es)), enc_tbl es)"
    unfolding search_info_tbl_def h Let_def info_item_st.select_convs a
    by (simp only: simp_thms if_True flash_read_slice u r(1))
  have u8: "unat (?B + 8) = unat ?B + 8" using start_addr [OF ok p, of 8] by simp
  have ue: "unat (?B + 8 + of_nat ?L) = unat ?B + 8 + ?L"
    using start_addr [OF ok p, of "8 + ?L"] r(3) by (simp add: add.assoc)
  have cap: "unat ?B + 4096 \<le> 0x800000" using p flash_cap_le [OF ok] by (simp add: net_part_def)
  have pl: "length (snd x) < 4294967296" if "x \<in> set es" for x
  proof -
    have "length (enc_item x) \<le> length (body es)" using that by (induction es) auto
    then show ?thesis using r(3) by simp
  qed
  have loop: "item_loop d t (?B + 8) (?B + 8 + of_nat ?L) = Some (?B + 8 + of_nat (off_of t es))"
    by (rule item_loop_body) (use r(3,4) u8 ue cap pl in simp_all)
  have uo: "unat (?B + 8 + of_nat (off_of t es)) = unat ?B + 8 + off_of t es" if "off_of t es \<le> ?L"
    using start_addr [OF ok p, of "8 + off_of t es"] r(3) that by (simp add: add.assoc)
  show "search_info_item d t ?B = Some (if t \<in> fst ` set es then ?B + of_nat (8 + off_of t es) else 0)"
  proof (cases "t \<in> fst ` set es")
    case True
    then have "\<not> ?B + 8 + of_nat ?L \<le> ?B + 8 + of_nat (off_of t es)"
      using off_of_lt [OF True] uo ue by (simp add: word_le_nat_alt)
    then show ?thesis using True loop by (simp add: search_info_item_def h Let_def add.assoc)
  next
    case False
    then show ?thesis using loop by (simp add: search_info_item_def h Let_def off_of_absent)
  qed
qed

lemma tbl_absent:
  "get32 (slice (fd_mem d) (unat (net_start pt)) 8) 0 \<noteq> INFO_TLV_HEADER \<Longrightarrow> search_info_tbl pt d = (False, 0, [])"
  by (simp add: search_info_tbl_def read_head_def flash_read_slice Let_def)

subsection \<open>Writing the table\<close>

lemma erase_one_sector:
  assumes "unat off = 4096 * s" "0 < unat n" "unat n \<le> 4096" "unat off + 4096 < 4294967296"
  shows "bk_flash_abs_addr_erase d off n = bk_flash_abs_addr_erase d off 4096"
proof -
  have e: "unat (drop_bit 12 (off + k - 1)) = s" if "0 < unat k" "unat k \<le> 4096" for k :: u32
  proof -
    have s: "unat (off + k) = 4096 * s + unat k" using assms(1,4) that by (subst unat_add_32) auto
    then have "(1 :: u32) \<le> off + k" using that by (simp add: word_le_nat_alt)
    then have "unat (off + k - 1) = 4096 * s + (unat k - 1)" using s that by (subst unat_sub_no_wrap) auto
    then show ?thesis using that by (simp only: unat_drop_bit_eq) (simp add: drop_bit_eq_div)
  qed
  have "drop_bit 12 (off + n - 1) = drop_bit 12 (off + 4096 - 1)"
    using e [of n] e [of 4096] assms(2,3) by (simp add: word_unat_eq_iff)
  then show ?thesis unfolding bk_flash_abs_addr_erase_def Let_def by (simp only:)
qed

lemma nor_rewrite:
  assumes "length bs \<le> 4096"
  shows "slice (nor_write (nor_erase m B 4096) B bs) B (length bs) = bs"
  using assms by (auto simp: slice_eq_list_iff nor_write_def nor_erase_def and.commute)

lemma write_table:
  assumes ok: "flash_ok d" and p: "net_part pt d" and n: "unat n = length bs" "0 < length bs" "length bs \<le> 4096"
  shows "\<exists>d'. do {
      d1 \<leftarrow> bk_flash_enable_security d FLASH_PROTECT_NONE;
      (d2, _) \<leftarrow> bk_flash_erase pt d1 BK_PARTITION_NET_PARAM 0 n;
      (d3, _) \<leftarrow> bk_flash_write pt d2 BK_PARTITION_NET_PARAM 0 (Some bs) n;
      d4 \<leftarrow> bk_flash_enable_security d3 FLASH_UNPROTECT_LAST_BLOCK;
      Some (1 :: u32, d4) } = Some (1, d') \<and> flash_ok d' \<and> fd_cfg d' = fd_cfg d \<and>
    fd_mem d' = nor_write (nor_erase (fd_mem d) (unat (net_start pt)) 4096) (unat (net_start pt)) bs \<and>
    (\<exists>d3. d' = set_flash_protect d3 FLASH_UNPROTECT_LAST_BLOCK \<and> flash_ok d3)"
proof -
  let ?B = "net_start pt"
  obtain s where s: "unat ?B = 4096 * s" using p by (auto simp: net_part_def)
  have cap: "unat ?B + 4096 \<le> flash_cap d" "flash_cap d \<le> 0x800000"
    using p flash_cap_le [OF ok] by (simp_all add: net_part_def)
  let ?d1 = "set_flash_protect d FLASH_PROTECT_NONE"
  have ok1: "flash_ok ?d1" using ok flash_ok_cong [of ?d1 d] by simp
  have cap1: "flash_cap ?d1 = flash_cap d" by (simp add: flash_cap_def)
  obtain d2 where d2: "abs_er ?d1 (unat ?B) 4096 = Some d2" "flash_ok d2" "fd_cfg d2 = fd_cfg d"
    "fd_mem d2 = nor_erase (fd_mem d) (unat ?B) 4096"
    using abs_er_ok [OF ok1, of 4096 "unat ?B"] s cap(1) cap1 by auto
  have cap2: "flash_cap d2 = flash_cap d" using d2(3) by (simp add: flash_cap_def)
  have er: "bk_flash_erase pt ?d1 BK_PARTITION_NET_PARAM 0 n = Some (d2, kNoErr)"
    using d2(1) erase_one_sector [OF s, of n ?d1] n cap
    by (simp add: bk_flash_erase_def bk_flash_get_info_def abs_er_def net_start_def)
  obtain d3 where d3: "abs_wr d2 (unat ?B) bs = Some d3" "flash_ok d3" "fd_cfg d3 = fd_cfg d2"
    "fd_mem d3 = nor_write (fd_mem d2) (unat ?B) bs"
    using abs_wr_ok [OF d2(2), of "unat ?B" bs] cap cap2 n(3) by auto
  have nn: "n = of_nat (length bs)" by (simp add: n(1) [symmetric])
  have wr: "bk_flash_write pt d2 BK_PARTITION_NET_PARAM 0 (Some bs) n = Some (d3, kNoErr)"
    using part_write_abs [OF d2(2), of BK_PARTITION_NET_PARAM pt 0 bs] d3(1) cap cap2 n(3)
    by (simp add: nn net_start_def)
  have en: "flash_ok x \<Longrightarrow> bk_flash_enable_security x t = Some (set_flash_protect x t)" for x t
    by (simp add: enable_security_eq)
  let ?d4 = "set_flash_protect d3 FLASH_UNPROTECT_LAST_BLOCK"
  have "flash_ok ?d4" using d3(2) flash_ok_cong [of ?d4 d3] by simp
  then show ?thesis
    using er wr d2 d3 en [OF ok] en [OF d3(2)] by (intro exI [of _ ?d4]) auto
qed

lemma fill_item_ok:
  assumes "length P = off" "8 \<le> off" "length H = 8" "length args \<le> length V"
  shows "fill_item (P @ H @ V @ Q) off item il hl args =
    Some (le32 INFO_TLV_HEADER @ le32 hl @ drop 8 P @ le32 item @ le32 (il - 8) @ args @ drop (length args) V @ Q)"
proof -
  have 1: "mem_store (P @ H @ V @ Q) (off + 8) args = Some (P @ H @ args @ drop (length args) V @ Q)"
    using assms by (simp add: mem_store_def)
  have 2: "mem_store (P @ H @ args @ drop (length args) V @ Q) off (le32 item @ le32 (il - 8)) =
      Some (P @ le32 item @ le32 (il - 8) @ args @ drop (length args) V @ Q)"
    using assms by (simp add: mem_store_def)
  have 3: "mem_store (P @ le32 item @ le32 (il - 8) @ args @ drop (length args) V @ Q) 0 (le32 INFO_TLV_HEADER @ le32 hl) =
      Some (le32 INFO_TLV_HEADER @ le32 hl @ drop 8 P @ le32 item @ le32 (il - 8) @ args @ drop (length args) V @ Q)"
    using assms by (simp add: mem_store_def)
  show ?thesis unfolding fill_item_def by (simp only: 1 2 3 Option.bind.simps)
qed

lemma item_len_facts:
  assumes "item \<in> set net_items"
  shows "unat (info_item_len item) = payload_len item + 8" "info_item_len item - 8 = of_nat (payload_len item)"
    "payload_len item \<le> 96"
  using assms by (auto simp: net_items_def common_items_def payload_len_def info_item_len_def)

lemma payload_len_eq:
  "payload_len t = (if t \<in> set common_items then 4 else if t = WIFI_MAC_ITEM then 8 else if t = CHARGE_CONFIG_ITEM then 4
     else if t = SSID_KEY_ITEM then 96 else if t = IP_CONFIG_ITEM then 48 else 4)"
  by (simp add: payload_len_def info_item_len_def)

lemma bytes_at_len: "bytes_at p n = Some a \<Longrightarrow> length a = n"
  by (auto simp: bytes_at_def split: option.splits if_splits)

lemma args_len:
  assumes "item_args b item p0 p1 p2 = Some a"
  shows "length a \<le> payload_len item"
proof -
  have d: "SSID_KEY_ITEM \<noteq> CHARGE_CONFIG_ITEM" "IP_CONFIG_ITEM \<noteq> CHARGE_CONFIG_ITEM" "SSID_KEY_ITEM \<noteq> IP_CONFIG_ITEM"
    "WIFI_MAC_ITEM \<noteq> CHARGE_CONFIG_ITEM" by (simp_all add: net_item_defs)
  show ?thesis
    using assms d unfolding item_args_def payload_len_eq
    by (auto split: if_splits bind_splits dest!: bytes_at_len)
qed

definition net_state :: "part_table \<Rightarrow> flash_dev \<Rightarrow> (u32 \<Rightarrow> u8 list option) \<Rightarrow> bool" where
  "net_state pt d g \<longleftrightarrow> flash_ok d \<and> net_part pt d \<and>
     (get32 (slice (fd_mem d) (unat (net_start pt)) 8) 0 \<noteq> INFO_TLV_HEADER \<and> g = (\<lambda>_. None) \<or>
      (\<exists>es. net_rep (fd_mem d) (unat (net_start pt)) es \<and> g = map_of es))"

definition overlay :: "u8 list \<Rightarrow> nat \<Rightarrow> u8 list option \<Rightarrow> u8 list" where
  "overlay a n old = a @ drop (length a) (case old of Some v \<Rightarrow> v | None \<Rightarrow> replicate n 0)"

lemma length_overlay: "length a \<le> n \<Longrightarrow> (\<And>v. old = Some v \<Longrightarrow> length v = n) \<Longrightarrow> length (overlay a n old) = n"
  by (auto simp: overlay_def split: option.split)

text \<open>The part of \<open>save_info_item\<close> that builds the new table, against the list.\<close>

definition new_list :: "net_item list \<Rightarrow> u32 \<Rightarrow> u8 list \<Rightarrow> net_item list" where
  "new_list es item v = (if item \<in> fst ` set es then map (\<lambda>e. if fst e = item then (item, v) else e) es else es @ [(item, v)])"

lemma map_of_new_list: "map_of (new_list es item v) = (map_of es)(item \<mapsto> v)"
proof -
  have "map_of (map (\<lambda>e. if fst e = item then (item, v) else e) es) x = (if x = item \<and> item \<in> fst ` set es then Some v else map_of es x)" for x
    by (induction es) (auto split: if_splits)
  moreover have "item \<notin> fst ` set es \<Longrightarrow> map_of es item = None" by (simp add: map_of_eq_None_iff)
  ultimately show ?thesis by (auto simp: new_list_def fun_eq_iff map_add_def split: option.splits)
qed

lemma item_split:
  assumes "net_list es" "item \<in> fst ` set es"
  obtains xs w ys where "es = xs @ (item, w) # ys" "item \<notin> fst ` set xs" "item \<notin> fst ` set ys"
    "length w = payload_len item" "\<And>v. new_list es item v = xs @ (item, v) # ys"
proof -
  obtain w where "(item, w) \<in> set es" using assms(2) by auto
  then obtain xs ys where es: "es = xs @ (item, w) # ys" by (auto simp: in_set_conv_decomp)
  have d: "item \<notin> fst ` set xs" "item \<notin> fst ` set ys" using assms(1) by (auto simp: es net_list_def)
  have m: "map (\<lambda>e. if fst e = item then (item, v) else e) zs = zs" if "item \<notin> fst ` set zs" for zs v
    using that by (induction zs) auto
  have n: "new_list es item v = xs @ (item, v) # ys" for v
    using assms(2) m [OF d(1)] m [OF d(2)] by (simp add: new_list_def es)
  have "length w = payload_len item" using assms(1) by (simp add: es net_list_def)
  then show thesis using that es d n by blast
qed

lemma net_list_new:
  assumes "net_list es" "item \<in> set net_items" "length v = payload_len item"
  shows "net_list (new_list es item v)"
proof (cases "item \<in> fst ` set es")
  case True
  then obtain xs w ys where "es = xs @ (item, w) # ys" "new_list es item v = xs @ (item, v) # ys"
    using item_split [OF assms(1)] by metis
  then show ?thesis using assms by (auto simp: net_list_def)
next
  case False
  then show ?thesis using assms by (auto simp: net_list_def new_list_def)
qed


lemma image_first:
  assumes "item \<in> set net_items" "length a \<le> payload_len item"
  shows "fill_item (replicate (16 + payload_len item) 0) 8 item (info_item_len item) (of_nat (8 + payload_len item)) a =
    Some (enc_tbl [(item, overlay a (payload_len item) None)])"
proof -
  have b: "replicate (16 + payload_len item) 0 = replicate 8 0 @ replicate 8 0 @ replicate (payload_len item) (0 :: u8) @ []"
    by (simp add: replicate_add [symmetric])
  have l: "length (overlay a (payload_len item) None) = payload_len item"
    using assms(2) by (simp add: overlay_def)
  show ?thesis
    unfolding b using assms
    by (subst fill_item_ok) (simp_all add: enc_tbl_def enc_item_def l item_len_facts overlay_def)
qed

lemma image_absent:
  assumes "item \<in> set net_items" "length a \<le> payload_len item" "item \<notin> fst ` set es"
  shows "fill_item (enc_tbl es @ replicate (8 + payload_len item) 0) (8 + length (body es)) item (info_item_len item)
      (of_nat (length (body es) + (8 + payload_len item))) a =
    Some (enc_tbl (new_list es item (overlay a (payload_len item) None)))"
proof -
  have b: "enc_tbl es @ replicate (8 + payload_len item) 0 = enc_tbl es @ replicate 8 0 @ replicate (payload_len item) 0 @ []"
    by (simp add: replicate_add)
  have l: "length (overlay a (payload_len item) None) = payload_len item"
    using assms(2) by (simp add: overlay_def)
  have d: "drop 8 (enc_tbl es) = body es" by (simp add: enc_tbl_def)
  show ?thesis
    unfolding b using assms
    by (subst fill_item_ok) (simp_all add: new_list_def enc_tbl_def d [unfolded enc_tbl_def] enc_item_def l item_len_facts overlay_def)
qed

lemma image_present:
  assumes "net_list es" "item \<in> set net_items" "length a \<le> payload_len item" "item \<in> fst ` set es"
  shows "fill_item (enc_tbl es) (8 + off_of item es) item (info_item_len item) (of_nat (length (body es))) a =
    Some (enc_tbl (new_list es item (overlay a (payload_len item) (map_of es item))))"
proof -
  let ?v = "overlay a (payload_len item) (map_of es item)"
  obtain xs w ys where es: "es = xs @ (item, w) # ys" "item \<notin> fst ` set xs"
    and w: "length w = payload_len item" and n: "new_list es item ?v = xs @ (item, ?v) # ys"
    using item_split [OF assms(1,4)] by metis
  have m: "map_of es item = Some w"
    using es by (simp add: map_of_eq_None_iff [THEN iffD2] map_add_def)
  have v: "?v = a @ drop (length a) w" and lv: "length ?v = length w" using assms(3) w by (simp_all add: overlay_def m)
  have off: "off_of item es = length (body xs)" using es by (simp add: off_of_split)
  let ?P = "le32 INFO_TLV_HEADER @ le32 (of_nat (length (body es))) @ body xs"
  have b: "enc_tbl es = ?P @ (le32 item @ le32 (of_nat (length w))) @ w @ body ys"
    by (simp add: enc_tbl_def es enc_item_def)
  have f: "fill_item (?P @ (le32 item @ le32 (of_nat (length w))) @ w @ body ys) (8 + off_of item es) item (info_item_len item)
      (of_nat (length (body es))) a =
    Some (le32 INFO_TLV_HEADER @ le32 (of_nat (length (body es))) @ drop 8 ?P @ le32 item @ le32 (info_item_len item - 8) @ a @
      drop (length a) w @ body ys)"
    by (rule fill_item_ok) (use assms(3) w off in simp_all)
  have lb: "length (body (xs @ (item, ?v) # ys)) = length (body es)" using es lv by simp
  have l8: "info_item_len item - 8 = of_nat (length ?v)" using item_len_facts(2) [OF assms(2)] lv w by simp
  have "enc_tbl (new_list es item ?v) = le32 INFO_TLV_HEADER @ le32 (of_nat (length (body es))) @ body xs @
      (le32 item @ le32 (of_nat (length ?v)) @ ?v) @ body ys"
    unfolding n enc_tbl_def lb by (simp add: enc_item_def)
  then show ?thesis unfolding b f l8 v by simp
qed


lemma save_by_plan:
  assumes ok: "flash_ok d" and p: "net_part pt d" and found: "search_info_tbl pt d = (found, n0, tbl)"
    and plan: "(if \<not> found then Some (8, 8 + info_item_len item, info_item_len item)
       else do {
         a \<leftarrow> search_info_item d item (net_start pt);
         (let (off, len) = (if a = 0 then (n0, n0 + info_item_len item) else (a - net_start pt, n0)) in
          Some (off, len, len - 8)) }) = Some (off, of_nat (length img), hl)"
    and mal: "mal (length img)"
    and buf: "mem_store (replicate (length img) 0) 0 tbl = Some buf"
    and args: "item_args b item p0 p1 p2 = Some a"
    and img: "fill_item buf (unat off) item (info_item_len item) hl a = Some img"
    and len: "0 < length img" "length img \<le> 4096"
  shows "\<exists>d'. save_info_item b pt mal d item p0 p1 p2 = Some (1, d') \<and> flash_ok d' \<and> fd_cfg d' = fd_cfg d \<and>
    fd_mem d' = nor_write (nor_erase (fd_mem d) (unat (net_start pt)) 4096) (unat (net_start pt)) img \<and>
    (\<exists>d3. d' = set_flash_protect d3 FLASH_UNPROTECT_LAST_BLOCK \<and> flash_ok d3)"
proof -
  let ?n = "of_nat (length img) :: u32"
  have u: "unat ?n = length img" using len by (intro unat_of_nat_u32) simp
  obtain d' where d': "do {
      d1 \<leftarrow> bk_flash_enable_security d FLASH_PROTECT_NONE;
      (d2, _) \<leftarrow> bk_flash_erase pt d1 BK_PARTITION_NET_PARAM 0 ?n;
      (d3, _) \<leftarrow> bk_flash_write pt d2 BK_PARTITION_NET_PARAM 0 (Some img) ?n;
      d4 \<leftarrow> bk_flash_enable_security d3 FLASH_UNPROTECT_LAST_BLOCK;
      Some (1 :: u32, d4) } = Some (1, d')" "flash_ok d'" "fd_cfg d' = fd_cfg d"
    "fd_mem d' = nor_write (nor_erase (fd_mem d) (unat (net_start pt)) 4096) (unat (net_start pt)) img"
    "\<exists>d3. d' = set_flash_protect d3 FLASH_UNPROTECT_LAST_BLOCK \<and> flash_ok d3"
    using write_table [OF ok p u len] by blast
  have "save_info_item b pt mal d item p0 p1 p2 = Some (1, d')"
    unfolding save_info_item_def Let_def found split_conv
    using plan [unfolded Let_def]
    by (simp only: Option.bind.simps split_conv u mal buf args img d'(1) simp_thms if_False)
  then show ?thesis using d'(2-) by blast
qed

lemma net_rep_image:
  assumes "net_list es" "fd_mem d' = nor_write (nor_erase m B 4096) B (enc_tbl es)"
  shows "net_rep (fd_mem d') B es"
proof -
  have "length (enc_tbl es) \<le> 4096" using body_small [OF assms(1)] by simp
  then show ?thesis using nor_rewrite [of "enc_tbl es" m B] assms by (simp add: net_rep_def)
qed

lemma mem_store_zeros:
  "length tbl \<le> n \<Longrightarrow> mem_store (replicate n 0) 0 tbl = Some (tbl @ replicate (n - length tbl) 0)"
  by (simp add: mem_store_def)

lemma save_image:
  assumes st: "net_state pt d g" and it: "item \<in> set net_items" and args: "item_args b item p0 p1 p2 = Some a"
    and mal: "\<And>n. n \<le> 304 \<Longrightarrow> mal n"
  shows "\<exists>d' es. save_info_item b pt mal d item p0 p1 p2 = Some (1, d') \<and> flash_ok d' \<and> fd_cfg d' = fd_cfg d \<and>
    net_list es \<and> map_of es = g(item \<mapsto> overlay a (payload_len item) (g item)) \<and>
    fd_mem d' = nor_write (nor_erase (fd_mem d) (unat (net_start pt)) 4096) (unat (net_start pt)) (enc_tbl es) \<and>
    (\<exists>d3. d' = set_flash_protect d3 FLASH_UNPROTECT_LAST_BLOCK \<and> flash_ok d3)"
proof -
  let ?n = "payload_len item" and ?v = "overlay a (payload_len item) (g item)"
  have ok: "flash_ok d" and p: "net_part pt d" using st by (simp_all add: net_state_def)
  have la: "length a \<le> ?n" by (rule args_len [OF args])
  note il = item_len_facts [OF it]
  have iln: "info_item_len item = of_nat (8 + ?n)"
    using arg_cong [OF il(1), of "of_nat :: nat \<Rightarrow> u32"] by (simp add: add.commute)
  consider (none) "search_info_tbl pt d = (False, 0, [])" "g = (\<lambda>_. None)"
    | (some) es where "net_rep (fd_mem d) (unat (net_start pt)) es" "g = map_of es"
    using st tbl_absent by (auto simp: net_state_def)
  then show ?thesis
  proof cases
    case none
    let ?es = "[(item, ?v)]"
    have lv: "length ?v = ?n" using la none(2) by (simp add: overlay_def)
    have nl: "net_list ?es" using it lv by (simp add: net_list_def)
    have len: "length (enc_tbl ?es) = 16 + ?n" using lv by simp
    have "\<exists>d'. save_info_item b pt mal d item p0 p1 p2 = Some (1, d') \<and> flash_ok d' \<and> fd_cfg d' = fd_cfg d \<and>
      fd_mem d' = nor_write (nor_erase (fd_mem d) (unat (net_start pt)) 4096) (unat (net_start pt)) (enc_tbl ?es) \<and>
      (\<exists>d3. d' = set_flash_protect d3 FLASH_UNPROTECT_LAST_BLOCK \<and> flash_ok d3)"
    proof (rule save_by_plan [OF ok p none(1) _ _ _ args, where off = 8 and hl = "of_nat (8 + ?n)" and buf = "replicate (16 + ?n) 0"])
      show "fill_item (replicate (16 + ?n) 0) (unat (8 :: u32)) item (info_item_len item) (of_nat (8 + ?n)) a = Some (enc_tbl ?es)"
        using image_first [OF it la] none(2) by simp
    qed (use len il mal body_small [OF nl] in \<open>simp_all add: iln mem_store_zeros\<close>)
    then show ?thesis using nl none(2) by (fastforce simp: fun_upd_def)
  next
    case (some es)
    note r = net_rep_parts [OF some(1)] and f = tbl_found [OF ok p some(1)]
    let ?L = "length (body es)" and ?es = "new_list es item ?v"
    have lo: "length w = ?n" if "g item = Some w" for w
      using that r(2) some(2) map_of_SomeD [of es item w] by (auto simp: net_list_def)
    have lv: "length ?v = ?n" by (rule length_overlay [OF la lo])
    have nl: "net_list ?es" by (rule net_list_new [OF r(2) it lv])
    have mo: "map_of ?es = g(item \<mapsto> ?v)" by (simp add: map_of_new_list some(2))
    have sm: "length (enc_tbl ?es) \<le> 304" using body_small [OF nl] by simp
    have "\<exists>d'. save_info_item b pt mal d item p0 p1 p2 = Some (1, d') \<and> flash_ok d' \<and> fd_cfg d' = fd_cfg d \<and>
      fd_mem d' = nor_write (nor_erase (fd_mem d) (unat (net_start pt)) 4096) (unat (net_start pt)) (enc_tbl ?es) \<and>
      (\<exists>d3. d' = set_flash_protect d3 FLASH_UNPROTECT_LAST_BLOCK \<and> flash_ok d3)"
    proof (cases "item \<in> fst ` set es")
      case True
      have len: "length (enc_tbl ?es) = 8 + ?L"
      proof -
        obtain xs w ys where "es = xs @ (item, w) # ys" "length w = ?n" "?es = xs @ (item, ?v) # ys"
          using item_split [OF r(2) True] by metis
        then show ?thesis using lv by simp
      qed
      have lt: "off_of item es < ?L" by (rule off_of_lt [OF True])
      have uo: "unat (of_nat (8 + off_of item es) :: u32) = 8 + off_of item es" using lt r(3) by (intro unat_of_nat_u32) simp
      have "unat (net_start pt + of_nat (8 + off_of item es)) \<noteq> 0"
        using start_addr [OF ok p, of "8 + off_of item es"] lt r(3) by simp
      then have nz: "net_start pt + of_nat (8 + off_of item es) \<noteq> 0" by (metis unat_0)
      show ?thesis
      proof (rule save_by_plan [OF ok p f(1) _ _ _ args, where off = "of_nat (8 + off_of item es)" and hl = "of_nat ?L" and buf = "enc_tbl es"])
        show "fill_item (enc_tbl es) (unat (of_nat (8 + off_of item es) :: u32)) item (info_item_len item) (of_nat ?L) a = Some (enc_tbl ?es)"
          unfolding uo using image_present [OF r(2) it la True] by (simp add: some(2))
        show "(if \<not> True then Some (8, 8 + info_item_len item, info_item_len item)
           else do {
             a \<leftarrow> search_info_item d item (net_start pt);
             (let (off, len) = (if a = 0 then (of_nat (8 + ?L), of_nat (8 + ?L) + info_item_len item)
                                else (a - net_start pt, of_nat (8 + ?L))) in
              Some (off, len, len - 8)) }) = Some (of_nat (8 + off_of item es), of_nat (length (enc_tbl ?es)), of_nat ?L)"
          unfolding f(2) len using True nz by (simp add: Let_def)
        show "mem_store (replicate (length (enc_tbl ?es)) 0) 0 (enc_tbl es) = Some (enc_tbl es)"
          unfolding len by (subst mem_store_zeros) simp_all
      qed (use sm mal len in simp_all)
    next
      case False
      have len: "length (enc_tbl ?es) = 8 + ?L + (8 + ?n)" using False lv by (simp add: new_list_def)
      have gN: "g item = None" using False by (simp add: some(2) map_of_eq_None_iff)
      have uo: "unat (of_nat (8 + ?L) :: u32) = 8 + ?L" using r(3) by (intro unat_of_nat_u32) simp
      show ?thesis
      proof (rule save_by_plan [OF ok p f(1) _ _ _ args, where off = "of_nat (8 + ?L)" and hl = "of_nat (?L + (8 + ?n))"
            and buf = "enc_tbl es @ replicate (8 + ?n) 0"])
        show "fill_item (enc_tbl es @ replicate (8 + ?n) 0) (unat (of_nat (8 + ?L) :: u32)) item (info_item_len item)
            (of_nat (?L + (8 + ?n))) a = Some (enc_tbl ?es)"
          unfolding uo using image_absent [OF it la False] by (simp add: gN)
        show "(if \<not> True then Some (8, 8 + info_item_len item, info_item_len item)
           else do {
             a \<leftarrow> search_info_item d item (net_start pt);
             (let (off, len) = (if a = 0 then (of_nat (8 + ?L), of_nat (8 + ?L) + info_item_len item)
                                else (a - net_start pt, of_nat (8 + ?L))) in
              Some (off, len, len - 8)) }) = Some (of_nat (8 + ?L), of_nat (length (enc_tbl ?es)), of_nat (?L + (8 + ?n)))"
          unfolding f(2) len using False by (simp add: Let_def iln)
        show "mem_store (replicate (length (enc_tbl ?es)) 0) 0 (enc_tbl es) = Some (enc_tbl es @ replicate (8 + ?n) 0)"
          unfolding len by (subst mem_store_zeros) simp_all
      qed (use sm mal len in simp_all)
    qed
    then show ?thesis using nl mo by blast
  qed
qed


subsection \<open>Reading an item\<close>

definition get_spec :: "u32 \<Rightarrow> u8 list option \<Rightarrow> bool \<Rightarrow> bool \<Rightarrow> bool \<Rightarrow> u32 \<times> u8 list \<times> u8 list \<times> u8 list" where
  "get_spec item val ptr0 ptr1 ptr2 =
     (case val of
        None \<Rightarrow> (0, [], [], [])
      | Some v \<Rightarrow>
          if item = SSID_KEY_ITEM
          then (if ptr0 \<and> ptr1 then (1, take 32 v, drop 32 v, []) else (0, [], [], []))
          else if item = IP_CONFIG_ITEM
          then (if ptr0 \<and> ptr1 \<and> ptr2 then (1, take 16 v, take 16 (drop 16 v), drop 32 v) else (0, [], [], []))
          else (if ptr0 then (1, v, [], []) else (0, [], [], [])))"

lemma item_at:
  assumes rep: "net_rep (fd_mem d) (unat (net_start pt)) es" and ok: "flash_ok d" and p: "net_part pt d"
    and w: "map_of es item = Some w"
  shows "read_head d (net_start pt + of_nat (8 + off_of item es)) = \<lparr>it_type = item, it_len = of_nat (length w)\<rparr>"
    "unat (net_start pt + of_nat (8 + off_of item es)) = unat (net_start pt) + 8 + off_of item es"
    "slice (fd_mem d) (unat (net_start pt) + 16 + off_of item es) (length w) = w" "length w = payload_len item"
    "off_of item es + 8 + length w \<le> 296"
proof -
  note r = net_rep_parts [OF rep]
  have mem: "(item, w) \<in> set es" by (rule map_of_SomeD [OF w])
  then have "item \<in> fst ` set es" by force
  then obtain xs w' ys where "es = xs @ (item, w') # ys" "item \<notin> fst ` set xs" "length w' = payload_len item"
    using item_split [OF r(2)] by metis
  moreover from this have "w' = w" using w by (simp add: map_of_eq_None_iff [THEN iffD2] map_add_def)
  ultimately have es: "es = xs @ (item, w) # ys" "item \<notin> fst ` set xs" and l: "length w = payload_len item" by simp_all
  have off: "off_of item es = length (body xs)" using es by (simp add: off_of_split)
  have sm: "length (body xs) + 8 + length w \<le> 296" using r(3) es by simp
  show u: "unat (net_start pt + of_nat (8 + off_of item es)) = unat (net_start pt) + 8 + off_of item es"
    using start_addr [OF ok p, of "8 + off_of item es"] off sm by simp
  have b: "slice (fd_mem d) (unat (net_start pt) + 8) (length (body xs) + (8 + length w) + length (body ys)) =
      body xs @ enc_item (item, w) @ body ys"
    using r(4) es by (simp add: add.assoc)
  have e: "slice (fd_mem d) (unat (net_start pt) + 8 + length (body xs)) (8 + length w) = enc_item (item, w)"
    using arg_cong [OF b, of "\<lambda>s. take (8 + length w) (drop (length (body xs)) s)"]
    by (simp add: drop_slice take_slice)
  show "read_head d (net_start pt + of_nat (8 + off_of item es)) = \<lparr>it_type = item, it_len = of_nat (length w)\<rparr>"
    by (rule read_head_enc [of _ _ _ _ w]) (use u off e in \<open>simp add: enc_item_def add.assoc\<close>)
  show "slice (fd_mem d) (unat (net_start pt) + 16 + off_of item es) (length w) = w"
    using arg_cong [OF e, of "drop 8"] off by (simp add: drop_slice enc_item_def ac_simps)
  show "length w = payload_len item" by (rule l)
  show "off_of item es + 8 + length w \<le> 296" using sm off by simp
qed

lemma get_info_item_ok:
  assumes st: "net_state pt d g" and it: "item \<in> set net_items"
  shows "get_info_item pt d item ptr0 ptr1 ptr2 = Some (get_spec item (g item) ptr0 ptr1 ptr2)"
proof -
  have ok: "flash_ok d" and p: "net_part pt d" using st by (simp_all add: net_state_def)
  consider (none) "search_info_tbl pt d = (False, 0, [])" "g = (\<lambda>_. None)"
    | (some) es where "net_rep (fd_mem d) (unat (net_start pt)) es" "g = map_of es"
    using st tbl_absent by (auto simp: net_state_def)
  then show ?thesis
  proof cases
    case none
    then show ?thesis by (simp add: get_info_item_def get_spec_def)
  next
    case (some es)
    note f = tbl_found [OF ok p some(1)]
    show ?thesis
    proof (cases "g item")
      case None
      then have "item \<notin> fst ` set es" by (simp add: some(2) map_of_eq_None_iff)
      then show ?thesis using None by (simp add: get_info_item_def f get_spec_def)
    next
      case (Some w)
      let ?o = "8 + off_of item es" and ?B = "net_start pt"
      let ?a = "?B + of_nat ?o"
      note i = item_at [OF some(1) ok p Some [unfolded some(2)]]
      have "(item, w) \<in> set es" using Some some(2) by (simp add: map_of_SomeD)
      then have mem: "item \<in> fst ` set es" by force
      have nz: "?a \<noteq> 0" using i(2) by (metis add_eq_0_iff_both_eq_0 unat_0 zero_neq_numeral)
      have ua: "unat (?a + 8 + k) = unat ?B + 16 + off_of item es + unat k" if "unat k \<le> 96" for k
      proof -
        have e: "?a + 8 + k = ?B + of_nat (?o + 8 + unat k)" by (simp add: ac_simps)
        show ?thesis unfolding e by (subst start_addr [OF ok p]) (use i(5) that in simp_all)
      qed
      have rd: "flash_read d n (?a + 8 + k) = take (unat n) (drop (unat k) w)"
        if "unat k + unat n \<le> length w" "unat k \<le> 96" for n k
      proof -
        have "slice (fd_mem d) (unat ?B + 16 + off_of item es + unat k) (unat n) =
            take (unat n) (drop (unat k) (slice (fd_mem d) (unat ?B + 16 + off_of item es) (length w)))"
          using that(1) by (simp add: drop_slice take_slice)
        then show ?thesis by (simp only: flash_read_slice ua [OF that(2)] i(3))
      qed
      have un: "unat (of_nat (length w) :: u32) = length w" using i(5) by (intro unat_of_nat_u32) simp
      have rd0: "flash_read d n (?a + 8) = take (unat n) w" if "unat n \<le> length w" for n
        using rd [of 0 n] that by simp
      have d: "SSID_KEY_ITEM \<notin> set common_items" "IP_CONFIG_ITEM \<notin> set common_items" "SSID_KEY_ITEM \<noteq> WIFI_MAC_ITEM"
        "SSID_KEY_ITEM \<noteq> CHARGE_CONFIG_ITEM" "IP_CONFIG_ITEM \<noteq> WIFI_MAC_ITEM" "IP_CONFIG_ITEM \<noteq> CHARGE_CONFIG_ITEM"
        "SSID_KEY_ITEM \<noteq> IP_CONFIG_ITEM"
        by (simp_all add: common_items_def net_item_defs)
      have S: "?thesis" if s: "item = SSID_KEY_ITEM"
      proof -
        have "length w = 96" using i(4) s d by (simp add: payload_len_eq)
        then show ?thesis
          using mem nz Some s d rd0 [of 32] rd [of 32 64] i(1)
          by (simp add: get_info_item_def f get_spec_def Let_def)
      qed
      have I: "?thesis" if s: "item = IP_CONFIG_ITEM"
      proof -
        have "length w = 48" using i(4) s d by (simp add: payload_len_eq)
        then show ?thesis
          using mem nz Some s d rd0 [of 16] rd [of 16 16] rd [of 32 16] i(1)
          by (simp add: get_info_item_def f get_spec_def Let_def)
      qed
      have C: "?thesis" if s: "item \<in> set common_items \<or> item = WIFI_MAC_ITEM \<or> item = CHARGE_CONFIG_ITEM"
      proof -
        have "item \<noteq> SSID_KEY_ITEM" "item \<noteq> IP_CONFIG_ITEM" using s d by auto
        moreover have "flash_read d (of_nat (length w)) (?a + 8) = w" using rd0 [of "of_nat (length w)"] un by simp
        ultimately show ?thesis
          using mem nz Some s i(1) by (simp add: get_info_item_def f get_spec_def Let_def)
      qed
      show ?thesis using it S I C by (auto simp: net_items_def)
    qed
  qed
qed

lemma item_loop_stuck:
  assumes "addr < end_addr" "type \<noteq> it_type (read_head d addr)" "it_len (read_head d addr) = 0xFFFFFFF8"
  shows "item_loop d type addr end_addr = None"
proof (rule ccontr)
  have z: "addr + 8 + 0xFFFFFFF8 = addr"
    by (rule word_unat_eq_iff [THEN iffD2]) (use unat_lt_2p32 [of addr] in \<open>simp add: unat_word_ariths\<close>)
  assume "item_loop d type addr end_addr \<noteq> None"
  then obtain r where r: "item_loop d type addr end_addr = Some r" by auto
  have "\<not> (d = d \<and> type = type \<and> addr = addr \<and> end_addr = end_addr)"
  proof (rule item_loop.raw_induct [where P = "\<lambda>d' t' a' e' _. \<not> (d' = d \<and> t' = type \<and> a' = addr \<and> e' = end_addr)", OF _ r], goal_cases)
    case (1 f d' t' a' e' r)
    show ?case
    proof (rule notI, elim conjE)
      assume "d' = d" "t' = type" "a' = addr" "e' = end_addr"
      then have "f d type addr end_addr = Some r" using 1(2) assms by (simp only: Let_def simp_thms if_True z)
      then show False using 1(1) [of d type addr end_addr r] by blast
    qed
  qed
  then show False by simp
qed


subsection \<open>Sequences of operations\<close>

datatype net_op = Save u32 "u8 list option" "u8 list option" "u8 list option" | Load u32 bool bool bool

type_synonym net_out = "u32 \<times> u8 list \<times> u8 list \<times> u8 list"

fun net_step :: "build_cfg \<Rightarrow> part_table \<Rightarrow> (nat \<Rightarrow> bool) \<Rightarrow> net_op \<Rightarrow> flash_dev \<Rightarrow> (net_out \<times> flash_dev) option" where
  "net_step b pt mal (Save item p0 p1 p2) d =
     map_option (\<lambda>(r, d1). ((r, [], [], []), d1)) (save_info_item b pt mal d item p0 p1 p2)"
| "net_step b pt mal (Load item q0 q1 q2) d = map_option (\<lambda>out. (out, d)) (get_info_item pt d item q0 q1 q2)"

definition net_run :: "build_cfg \<Rightarrow> part_table \<Rightarrow> (nat \<Rightarrow> bool) \<Rightarrow> flash_dev \<Rightarrow> net_op list \<Rightarrow> (net_out list \<times> flash_dev) option" where
  "net_run b pt mal d ops = run_ops (net_step b pt mal) ops d"

text \<open>What the operations do to a map from items to their payloads.\<close>

fun net_spec_step :: "build_cfg \<Rightarrow> net_op \<Rightarrow> (u32 \<Rightarrow> u8 list option) \<Rightarrow> net_out \<times> (u32 \<Rightarrow> u8 list option)" where
  "net_spec_step b (Save item p0 p1 p2) g =
     ((1, [], [], []), g(item \<mapsto> overlay (the (item_args b item p0 p1 p2)) (payload_len item) (g item)))"
| "net_spec_step b (Load item q0 q1 q2) g = (get_spec item (g item) q0 q1 q2, g)"

definition net_spec :: "build_cfg \<Rightarrow> (u32 \<Rightarrow> u8 list option) \<Rightarrow> net_op list \<Rightarrow> net_out list \<times> (u32 \<Rightarrow> u8 list option)" where
  "net_spec b g ops = spec_ops (net_spec_step b) ops g"

fun net_op_ok :: "build_cfg \<Rightarrow> net_op \<Rightarrow> bool" where
  "net_op_ok b (Save item p0 p1 p2) \<longleftrightarrow> item \<in> set net_items \<and> item_args b item p0 p1 p2 \<noteq> None"
| "net_op_ok b (Load item q0 q1 q2) \<longleftrightarrow> item \<in> set net_items"

definition net_alloc :: "(nat \<Rightarrow> bool) \<Rightarrow> bool" where "net_alloc mal \<longleftrightarrow> (\<forall>n. n \<le> 304 \<longrightarrow> mal n)"

lemma net_cap: "fd_cfg d' = fd_cfg d \<Longrightarrow> net_part pt d' = net_part pt d"
  by (simp add: net_part_def flash_cap_def)

lemma net_stateI: "flash_ok d \<Longrightarrow> net_part pt d \<Longrightarrow> net_rep (fd_mem d) (unat (net_start pt)) es \<Longrightarrow> net_state pt d (map_of es)"
  by (auto simp: net_state_def)

lemma save_info_item_ok:
  assumes "net_state pt d g" "item \<in> set net_items" "item_args b item p0 p1 p2 = Some a" "net_alloc mal"
  shows "\<exists>d'. save_info_item b pt mal d item p0 p1 p2 = Some (1, d') \<and>
    net_state pt d' (g(item \<mapsto> overlay a (payload_len item) (g item))) \<and>
    (\<forall>x. \<not> (unat (net_start pt) \<le> x \<and> x < unat (net_start pt) + 4096) \<longrightarrow> fd_mem d' x = fd_mem d x) \<and>
    (\<exists>d3. d' = set_flash_protect d3 FLASH_UNPROTECT_LAST_BLOCK)"
proof -
  obtain d' es where d': "save_info_item b pt mal d item p0 p1 p2 = Some (1, d')" "flash_ok d'" "fd_cfg d' = fd_cfg d"
    "net_list es" "map_of es = g(item \<mapsto> overlay a (payload_len item) (g item))"
    "fd_mem d' = nor_write (nor_erase (fd_mem d) (unat (net_start pt)) 4096) (unat (net_start pt)) (enc_tbl es)"
    "\<exists>d3. d' = set_flash_protect d3 FLASH_UNPROTECT_LAST_BLOCK"
    using save_image [of pt d g item b p0 p1 p2 a mal] assms by (auto simp: net_alloc_def)
  have "net_part pt d'" using assms(1) net_cap [OF d'(3)] by (simp add: net_state_def)
  moreover have "net_rep (fd_mem d') (unat (net_start pt)) es" by (rule net_rep_image [OF d'(4,6)])
  ultimately have "net_state pt d' (g(item \<mapsto> overlay a (payload_len item) (g item)))"
    unfolding d'(5) [symmetric] by (intro net_stateI d'(2))
  moreover have "fd_mem d' x = fd_mem d x" if "\<not> (unat (net_start pt) \<le> x \<and> x < unat (net_start pt) + 4096)" for x
    using that body_small [OF d'(4)] unfolding d'(6) nor_write_def nor_erase_def by auto
  ultimately show ?thesis using d'(1,7) by blast
qed

interpretation net: simulation "net_state pt" "net_step b pt mal" "net_spec_step b" "\<lambda>op _. net_op_ok b op \<and> net_alloc mal"
  for b pt mal
proof
  fix d g op
  assume st: "net_state pt d g" and ok: "net_op_ok b op \<and> net_alloc mal"
  show "\<exists>d'. net_step b pt mal op d = Some (fst (net_spec_step b op g), d') \<and> net_state pt d' (snd (net_spec_step b op g))"
  proof (cases op)
    case (Save item p0 p1 p2)
    then show ?thesis using save_info_item_ok [OF st, of item b p0 p1 p2 _ mal] ok by fastforce
  next
    case (Load item q0 q1 q2)
    then show ?thesis using get_info_item_ok [OF st, of item] st ok by simp
  qed
qed

subsection \<open>Properties\<close>

text \<open>C10. The table is a map: from any device whose NET_PARAM sector holds a table or none, any
  sequence of saves and lookups of the 13 known items runs to its end, and returns what a map from
  items to payloads returns; every save answers 1, and the table stays well formed.\<close>

theorem net_run_refines_map:
  assumes "net_state pt d g" and "\<forall>op \<in> set ops. net_op_ok b op" and "net_alloc mal"
  shows "\<exists>d'. net_run b pt mal d ops = Some (fst (net_spec b g ops), d') \<and> net_state pt d' (snd (net_spec b g ops))"
  using net.run_refines [OF assms(1), of b mal ops] assms(2,3) by (simp add: ops_ok_const net_run_def net_spec_def)

text \<open>C30. After \<open>save_info_item\<close> of an item of the plain kind with four bytes, \<open>get_info_item\<close>
  returns these bytes for it, and for every other item what it returned before; only cells of the
  first sector of the partition change.\<close>

theorem net_save_then_get:
  assumes st: "net_state pt d g" and it: "item \<in> set common_items" and bs: "length bs = 4" and mal: "net_alloc mal"
  shows "\<exists>d'. save_info_item b pt mal d item (Some bs) None None = Some (1, d') \<and>
    get_info_item pt d' item True q1 q2 = Some (1, bs, [], []) \<and>
    (\<forall>other \<in> set net_items - {item}. get_info_item pt d' other r0 r1 r2 = get_info_item pt d other r0 r1 r2) \<and>
    (\<forall>x. \<not> (unat (net_start pt) \<le> x \<and> x < unat (net_start pt) + 4096) \<longrightarrow> fd_mem d' x = fd_mem d x)"
proof -
  have it': "item \<in> set net_items" using it by (simp add: net_items_def)
  have a: "item_args b item (Some bs) None None = Some bs" using it bs by (simp add: item_args_def bytes_at_def)
  have n: "item \<noteq> SSID_KEY_ITEM" "item \<noteq> IP_CONFIG_ITEM" using it by (auto simp: common_items_def net_item_defs)
  have l: "length v = 4" if "g item = Some v" for v
    using st that it' it by (auto simp: net_state_def net_rep_def net_list_def payload_len_eq dest!: map_of_SomeD)
  have o: "overlay bs (payload_len item) (g item) = bs"
    using l it bs by (auto simp: overlay_def payload_len_eq split: option.split)
  obtain d' where d': "save_info_item b pt mal d item (Some bs) None None = Some (1, d')" "net_state pt d' (g(item \<mapsto> bs))"
    "\<forall>x. \<not> (unat (net_start pt) \<le> x \<and> x < unat (net_start pt) + 4096) \<longrightarrow> fd_mem d' x = fd_mem d x"
    using save_info_item_ok [OF st it' a mal] unfolding o by blast
  have "get_info_item pt d' item True q1 q2 = Some (1, bs, [], [])"
    using get_info_item_ok [OF d'(2) it'] n by (simp add: get_spec_def)
  moreover have "get_info_item pt d' other r0 r1 r2 = get_info_item pt d other r0 r1 r2" if "other \<in> set net_items - {item}" for other
    using get_info_item_ok [OF d'(2), of other] get_info_item_ok [OF st, of other] that by simp
  ultimately show ?thesis using d'(1,3) by blast
qed

text \<open>C31. \<open>save_info_item\<close> takes the six bytes of a MAC address, but \<open>get_info_item\<close> writes eight
  bytes through its pointer: the address and the two pad bytes of the item, so a caller with a six
  byte array loses the two bytes behind it.\<close>

theorem net_mac_read_writes_eight:
  assumes st: "net_state pt d g" and bs: "length mac = 6" and mal: "net_alloc mal"
  shows "\<exists>d' pad. save_info_item b pt mal d WIFI_MAC_ITEM (Some mac) None None = Some (1, d') \<and>
    get_info_item pt d' WIFI_MAC_ITEM True q1 q2 = Some (1, mac @ pad, [], []) \<and> length pad = 2"
proof -
  have it: "WIFI_MAC_ITEM \<in> set net_items" by (simp add: net_items_def)
  have k: "WIFI_MAC_ITEM \<notin> set common_items" "WIFI_MAC_ITEM \<noteq> SSID_KEY_ITEM" "WIFI_MAC_ITEM \<noteq> IP_CONFIG_ITEM"
    by (simp_all add: common_items_def net_item_defs)
  have a: "item_args b WIFI_MAC_ITEM (Some mac) None None = Some mac" using k bs by (simp add: item_args_def bytes_at_def)
  define v where "v = overlay mac (payload_len WIFI_MAC_ITEM) (g WIFI_MAC_ITEM)"
  have l: "length w = 8" if "g WIFI_MAC_ITEM = Some w" for w
    using st that k by (auto simp: net_state_def net_rep_def net_list_def payload_len_eq dest!: map_of_SomeD)
  obtain pad where v: "v = mac @ pad" "length pad = 2"
    using l k bs by (auto simp: v_def overlay_def payload_len_eq split: option.split)
  obtain d' where d': "save_info_item b pt mal d WIFI_MAC_ITEM (Some mac) None None = Some (1, d')"
    "net_state pt d' (g(WIFI_MAC_ITEM \<mapsto> v))"
    using save_info_item_ok [OF st it a mal] unfolding v_def by blast
  have "get_info_item pt d' WIFI_MAC_ITEM True q1 q2 = Some (1, v, [], [])"
    using get_info_item_ok [OF d'(2) it] k by (simp add: get_spec_def)
  then show ?thesis using d'(1) v by blast
qed

text \<open>C31. A damaged item length of \<open>0xFFFFFFF8\<close> makes the search step by \<open>8 + 0xFFFFFFF8 = 0\<close>
  bytes: when the first item of a table is so damaged, no lookup of another item ever returns.\<close>

theorem net_damaged_length_never_returns:
  assumes "read_head d (net_start pt) = \<lparr>it_type = INFO_TLV_HEADER, it_len = n\<rparr>"
    and "net_start pt + 8 < net_start pt + 8 + n"
    and "read_head d (net_start pt + 8) = \<lparr>it_type = t, it_len = 0xFFFFFFF8\<rparr>" and "item \<noteq> t"
  shows "get_info_item pt d item p0 p1 p2 = None"
proof -
  have "item_loop d item (net_start pt + 8) (net_start pt + 8 + n) = None"
    using assms by (intro item_loop_stuck) simp_all
  then show ?thesis
    using assms(1) by (simp add: get_info_item_def search_info_tbl_def search_info_item_def Let_def)
qed

subsection \<open>Concrete instances\<close>

abbreviation net_pt :: part_table where "net_pt \<equiv> bk7231_partitions_2M demo_build"

lemma net_pt_start: "net_start net_pt = 0x1E1000"
  by (simp add: net_start_def demo_build_def mk_part_def)

lemma demo_net_state: "net_state net_pt (demo_dev pw) (\<lambda>_. None)"
proof -
  have "slice (fd_mem (demo_dev pw)) n 8 = replicate 8 0xFF" for n by (simp add: slice_eq_list_iff)
  moreover have "get32 (replicate 8 0xFF) 0 = 0xFFFFFFFF" by (simp add: get32_def)
  ultimately have "get32 (slice (fd_mem (demo_dev pw)) n 8) 0 \<noteq> INFO_TLV_HEADER" for n
    by (simp add: INFO_TLV_HEADER_def)
  then show ?thesis by (simp add: net_state_def demo_dev_ok net_part_def net_pt_start flash_cap_def)
qed

theorem net_run_refines_map_witness:
  "\<exists>d'. net_run demo_build net_pt (\<lambda>_. True) (demo_dev True)
      [Save WIFI_MODE_ITEM (Some [1, 0, 0, 0]) None None, Load WIFI_MODE_ITEM True False False] =
    Some ([(1, [], [], []), (1, [1, 0, 0, 0], [], [])], d')"
  using net_run_refines_map [OF demo_net_state [of True],
      of "[Save WIFI_MODE_ITEM (Some [1, 0, 0, 0]) None None, Load WIFI_MODE_ITEM True False False]" demo_build "\<lambda>_. True"]
  by (auto simp: net_spec_def net_alloc_def net_items_def item_args_def bytes_at_def common_items_def overlay_def get_spec_def net_item_defs payload_len_eq Let_def)

theorem net_save_then_get_witness:
  "\<exists>d'. save_info_item demo_build net_pt (\<lambda>_. True) (demo_dev True) DHCP_MODE_ITEM (Some [2, 0, 0, 0]) None None = Some (1, d') \<and>
    get_info_item net_pt d' DHCP_MODE_ITEM True False False = Some (1, [2, 0, 0, 0], [], [])"
  using net_save_then_get [OF demo_net_state [of True], of DHCP_MODE_ITEM "[2, 0, 0, 0]" "\<lambda>_. True" demo_build False False False False False]
  by (auto simp: net_alloc_def common_items_def)

theorem net_mac_read_writes_eight_witness:
  "\<exists>d' pad. save_info_item demo_build net_pt (\<lambda>_. True) (demo_dev True) WIFI_MAC_ITEM (Some [1, 2, 3, 4, 5, 6]) None None = Some (1, d') \<and>
    get_info_item net_pt d' WIFI_MAC_ITEM True False False = Some (1, [1, 2, 3, 4, 5, 6] @ pad, [], []) \<and> length pad = 2"
  by (rule net_mac_read_writes_eight [OF demo_net_state]) (simp_all add: net_alloc_def)

definition demo_damaged :: flash_dev where
  "demo_damaged = (demo_dev True)\<lparr>fd_mem :=
     nor_write (\<lambda>_. 0xFF) 0x1E1000 (le32 INFO_TLV_HEADER @ le32 12 @ le32 WIFI_MODE_ITEM @ le32 0xFFFFFFF8)\<rparr>"

theorem net_damaged_length_never_returns_witness:
  "get_info_item net_pt demo_damaged DHCP_MODE_ITEM True False False = None"
proof (rule net_damaged_length_never_returns [where t = WIFI_MODE_ITEM and n = 12])
  let ?bs = "le32 INFO_TLV_HEADER @ le32 12 @ le32 WIFI_MODE_ITEM @ le32 0xFFFFFFF8"
  have s: "slice (fd_mem demo_damaged) 0x1E1000 (length ?bs) = ?bs"
    by (simp only: slice_eq_list_iff demo_damaged_def flash_dev.select_convs flash_dev.simps) (simp add: nor_write_def and_FF and.commute [of 255])
  have s8: "slice (fd_mem demo_damaged) 0x1E1008 8 = le32 WIFI_MODE_ITEM @ le32 0xFFFFFFF8"
    using arg_cong [OF s, of "drop 8"] by (simp add: drop_slice)
  show "read_head demo_damaged (net_start net_pt) = \<lparr>it_type = INFO_TLV_HEADER, it_len = 12\<rparr>"
    by (rule read_head_enc [of _ _ _ _ "le32 WIFI_MODE_ITEM @ le32 0xFFFFFFF8"]) (use s in \<open>simp add: net_pt_start\<close>)
  show "read_head demo_damaged (net_start net_pt + 8) = \<lparr>it_type = WIFI_MODE_ITEM, it_len = 0xFFFFFFF8\<rparr>"
    by (rule read_head_enc [of _ _ _ _ "[]"]) (use s8 in \<open>simp add: net_pt_start\<close>)
qed (simp_all add: net_pt_start net_item_defs)

end
