(* ===== verification/RoleLaunch.thy ===== *)
theory RoleLaunch
  imports Prelude "HOL-Library.Monad_Syntax"
begin

text \<open>
  The role launcher of \<open>func/joint_up/role_launch.c\<close>: it queues the requests to start or stop the
  station and the access point, launches one at a time from two one-shot timers, and keeps the
  progress the Wi-Fi code reports.

  The launch entities live in a store: a pointer is a number, 0 is \<open>NULL\<close>, and an allocation takes
  an address never used before, so that a dereference or a release of a freed entity is \<open>None\<close>.
  A descriptor of a network is the bytes of the structure by offset.  The Wi-Fi calls
  (\<open>bk_wlan_start_sta\<close> and the others) are code of other modules: \<open>w\<close> gives, for a call and the
  state it is made in, the exported setters of this file that it runs before it returns, and the
  ghost field \<open>rl_calls\<close> lists the calls.  The entity allocator does not fail (the code asserts it);
  the timer commands succeed on an initialised timer and are \<open>None\<close> on another.
\<close>

subsection \<open>Constants and data\<close>

definition RET_RL_SUCCESS :: u32 where "RET_RL_SUCCESS = 0"
definition RET_RL_FAILURE :: u32 where "RET_RL_FAILURE = 1"

definition LAUNCH_REQ_STA :: u32 where "LAUNCH_REQ_STA = 1"
definition LAUNCH_REQ_AP :: u32 where "LAUNCH_REQ_AP = 2"
definition LAUNCH_REQ_PURE_STA_SCAN :: u32 where "LAUNCH_REQ_PURE_STA_SCAN = 3"
definition LAUNCH_REQ_DELIF_STA :: u32 where "LAUNCH_REQ_DELIF_STA = 4"
definition LAUNCH_REQ_DELIF_AP :: u32 where "LAUNCH_REQ_DELIF_AP = 5"

definition LAUNCH_TYPE_ASAP :: u32 where "LAUNCH_TYPE_ASAP = 1"
definition LAUNCH_STATUS_OVER :: u32 where "LAUNCH_STATUS_OVER = 0"
definition LAUNCH_STATUS_CONT :: u32 where "LAUNCH_STATUS_CONT = 1"

definition RL_STATUS_CANCEL :: u32 where "RL_STATUS_CANCEL = 0x8000"

definition RL_STATUS_UNKNOWN :: u32 where "RL_STATUS_UNKNOWN = 0"
definition RL_STATUS_STA_INITING :: u32 where "RL_STATUS_STA_INITING = 1"
definition RL_STATUS_STA_SCANNING :: u32 where "RL_STATUS_STA_SCANNING = 2"
definition RL_STATUS_STA_SCAN_OVER :: u32 where "RL_STATUS_STA_SCAN_OVER = 3"
definition RL_STATUS_STA_CONNECTING :: u32 where "RL_STATUS_STA_CONNECTING = 4"
definition RL_STATUS_STA_DHCPING :: u32 where "RL_STATUS_STA_DHCPING = 5"
definition RL_STATUS_MROLE_CHANNEL_SWITCHING :: u32 where "RL_STATUS_MROLE_CHANNEL_SWITCHING = 6"
definition RL_STATUS_MROLE_CHANNEL_SWITCHED :: u32 where "RL_STATUS_MROLE_CHANNEL_SWITCHED = 7"
definition RL_STATUS_STA_LAUNCHED :: u32 where "RL_STATUS_STA_LAUNCHED = 9"
definition RL_STATUS_STA_LAUNCH_FAILED :: u32 where "RL_STATUS_STA_LAUNCH_FAILED = 10"
definition RL_STATUS_AP_TRANSMITTED_BCN :: u32 where "RL_STATUS_AP_TRANSMITTED_BCN = 0x14"
definition RL_STATUS_AP_LAUNCHED :: u32 where "RL_STATUS_AP_LAUNCHED = 0x15"

definition RL_TIMER_UNINIT :: u32 where "RL_TIMER_UNINIT = 0"
definition RL_TIMER_INIT :: u32 where "RL_TIMER_INIT = 1"
definition RL_TIMER_START :: u32 where "RL_TIMER_START = 2"
definition RL_TIMER_STOP :: u32 where "RL_TIMER_STOP = 3"

definition PRE_ENTITY_IDLE :: u32 where "PRE_ENTITY_IDLE = 0"
definition PRE_ENTITY_STA :: u32 where "PRE_ENTITY_STA = 1"
definition PRE_ENTITY_AP :: u32 where "PRE_ENTITY_AP = 2"

definition RL_PRIV_STATUS_MASK :: u32 where "RL_PRIV_STATUS_MASK = 0x00FF0000"
definition RL_PRIV_STATUS_STA_ADV :: u32 where "RL_PRIV_STATUS_STA_ADV = 0x10000"
definition RL_PRIV_STATUS_STA_ADV_RDY :: u32 where "RL_PRIV_STATUS_STA_ADV_RDY = 0x20000"
definition RL_ST_STATUS_MASK :: u32 where "RL_ST_STATUS_MASK = 0xFF000000"
definition RL_ST_STATUS_RESTART_HOLD :: u32 where "RL_ST_STATUS_RESTART_HOLD = 0x1000000"
definition RL_ST_STATUS_RESTART_ST :: u32 where "RL_ST_STATUS_RESTART_ST = 0x2000000"
definition RL_STA_STATE_MASK :: u32 where "RL_STA_STATE_MASK = 0x3000000"
definition RL_STA_STATE_HOLD :: u32 where "RL_STA_STATE_HOLD = 0x1000000"
definition RL_STATUS_BIT_MASK :: u32 where "RL_STATUS_BIT_MASK = 0x0000FFFF"
definition RL_STATUS_IDLE :: u32 where "RL_STATUS_IDLE = 0"
definition RL_STATUS_PENDING :: u32 where "RL_STATUS_PENDING = 1"
definition RL_STATUS_DOING :: u32 where "RL_STATUS_DOING = 2"
definition RL_STATUS_PAUSE :: u32 where "RL_STATUS_PAUSE = 0x80"
definition RL_STATUS_MASK :: u32 where "RL_STATUS_MASK = RL_STATUS_PAUSE"

type_synonym LAUNCH_DESCR = "nat \<Rightarrow> u8"
type_synonym FUNC_1PARAM_PTR = "nat"
type_synonym rl_ptr = nat

record LAUNCH_REQ =
  descr :: LAUNCH_DESCR
  req_type :: u32

definition zero_req :: LAUNCH_REQ where "zero_req = \<lparr>descr = (\<lambda>_. 0), req_type = 0\<rparr>"

record RL_ENTITY_T =
  launch_type :: u32
  relaunch_limit :: u32
  launch_count :: u32
  rlaunch :: LAUNCH_REQ
  completion_cb :: FUNC_1PARAM_PTR

record RL_SOCKET_T =
  sta_req_flag :: u32
  sta_param :: LAUNCH_REQ
  sta_completion :: FUNC_1PARAM_PTR
  ap_req_flag :: u32
  ap_param :: LAUNCH_REQ
  ap_completion :: FUNC_1PARAM_PTR

definition zero_socket :: RL_SOCKET_T where
  "zero_socket = \<lparr>sta_req_flag = 0, sta_param = zero_req, sta_completion = 0,
     ap_req_flag = 0, ap_param = zero_req, ap_completion = 0\<rparr>"

record RL_SOCKET_CACHE_T =
  cache_req_flag :: u32
  cache_param :: LAUNCH_REQ
  cache_completion :: FUNC_1PARAM_PTR

definition zero_cache :: RL_SOCKET_CACHE_T where
  "zero_cache = \<lparr>cache_req_flag = 0, cache_param = zero_req, cache_completion = 0\<rparr>"

datatype beken2_timer_t = T_none | T_stopped | T_running

record RL_T =
  enter_timer :: beken2_timer_t
  rl_timer :: beken2_timer_t
  rl_timer_flag :: u32
  rl_status :: u32
  pre_entity_type :: u32
  pre_sta_cancel :: u32
  pre_sta_status :: u32
  pre_ap_cancel :: u32
  pre_ap_status :: u32
  jl_previous_sta :: rl_ptr
  jl_following_sta :: rl_ptr
  jl_previous_ap :: rl_ptr
  jl_following_ap :: rl_ptr

datatype wlan_call = Start_sta LAUNCH_DESCR | Start_ap LAUNCH_DESCR | Stop_sta | Stop_ap | Scan_app_init | Hw_ap_disable

record rl_sys =
  g_role_launch :: RL_T
  g_rl_socket :: RL_SOCKET_T
  g_mrole_csa_flag :: u32
  g_sta_cache :: RL_SOCKET_CACHE_T
  rl_heap :: "rl_ptr \<Rightarrow> RL_ENTITY_T option"
  rl_brk :: nat
  rl_calls :: "wlan_call list"

definition rl_boot :: rl_sys where
  "rl_boot = \<lparr>
     g_role_launch = \<lparr>enter_timer = T_none, rl_timer = T_none, rl_timer_flag = 0, rl_status = 0, pre_entity_type = 0,
       pre_sta_cancel = 0, pre_sta_status = 0, pre_ap_cancel = 0, pre_ap_status = 0,
       jl_previous_sta = 0, jl_following_sta = 0, jl_previous_ap = 0, jl_following_ap = 0\<rparr>,
     g_rl_socket = zero_socket, g_mrole_csa_flag = 0, g_sta_cache = zero_cache,
     rl_heap = (\<lambda>_. None), rl_brk = 1, rl_calls = []\<rparr>"

definition on_rl :: "(RL_T \<Rightarrow> RL_T) \<Rightarrow> rl_sys \<Rightarrow> rl_sys" where
  "on_rl f s = s\<lparr>g_role_launch := f (g_role_launch s)\<rparr>"

subsection \<open>Status of the roles\<close>

definition rl_pre_sta_get_status :: "rl_sys \<Rightarrow> u32" where
  "rl_pre_sta_get_status s = pre_sta_status (g_role_launch s)"

definition rl_pre_ap_get_status :: "rl_sys \<Rightarrow> u32" where
  "rl_pre_ap_get_status s = pre_ap_status (g_role_launch s)"

definition rl_init_csa_status :: "rl_sys \<Rightarrow> rl_sys" where
  "rl_init_csa_status s = s\<lparr>g_mrole_csa_flag := 0\<rparr>"

definition rl_set_csa_switching :: "rl_sys \<Rightarrow> u32 \<times> rl_sys" where
  "rl_set_csa_switching s =
     (if pre_sta_cancel (g_role_launch s) \<noteq> 0 \<or> pre_ap_cancel (g_role_launch s) \<noteq> 0
      then (RET_RL_FAILURE, s)
      else (RET_RL_SUCCESS, s\<lparr>g_mrole_csa_flag := RL_STATUS_MROLE_CHANNEL_SWITCHING\<rparr>))"

definition rl_set_csa_switched :: "rl_sys \<Rightarrow> u32 \<times> rl_sys" where
  "rl_set_csa_switched s = (RET_RL_SUCCESS, s\<lparr>g_mrole_csa_flag := RL_STATUS_MROLE_CHANNEL_SWITCHED\<rparr>)"

definition rl_pre_sta_set_status :: "u32 \<Rightarrow> rl_sys \<Rightarrow> u32 \<times> rl_sys" where
  "rl_pre_sta_set_status status s =
     (let g = g_role_launch s in
      if status = RL_STATUS_STA_SCANNING
         \<and> pre_sta_status g \<noteq> RL_STATUS_STA_INITING \<and> pre_sta_status g \<noteq> RL_STATUS_STA_SCAN_OVER
      then (6, s)
      else if status = RL_STATUS_STA_SCANNING \<and> pre_sta_cancel g \<noteq> 0 then (8, s)
      else (pre_sta_cancel g, on_rl (pre_sta_status_update (\<lambda>_. status)) s))"

definition rl_pre_ap_set_status :: "u32 \<Rightarrow> rl_sys \<Rightarrow> u32 \<times> rl_sys" where
  "rl_pre_ap_set_status status s =
     (let cancel = pre_ap_cancel (g_role_launch s);
          s1 = on_rl (pre_ap_status_update (\<lambda>_. status)) s
      in (cancel, if cancel \<noteq> 0 then on_rl (pre_ap_status_update (\<lambda>st. st + RL_STATUS_CANCEL)) s1 else s1))"

definition rl_pre_sta_set_cancel :: "rl_sys \<Rightarrow> rl_sys" where
  "rl_pre_sta_set_cancel = on_rl (pre_sta_cancel_update (\<lambda>_. 1))"

definition rl_pre_sta_clear_cancel :: "rl_sys \<Rightarrow> rl_sys" where
  "rl_pre_sta_clear_cancel = on_rl (pre_sta_cancel_update (\<lambda>_. 0))"

definition fl_get_pre_sta_cancel_status :: "rl_sys \<Rightarrow> u32" where
  "fl_get_pre_sta_cancel_status s = pre_sta_cancel (g_role_launch s)"

definition rl_pre_ap_set_cancel :: "rl_sys \<Rightarrow> rl_sys" where
  "rl_pre_ap_set_cancel = on_rl (pre_ap_cancel_update (\<lambda>_. 1))"

definition rl_pre_ap_clear_cancel :: "rl_sys \<Rightarrow> rl_sys" where
  "rl_pre_ap_clear_cancel = on_rl (pre_ap_cancel_update (\<lambda>_. 0))"

definition fl_get_pre_ap_cancel_status :: "rl_sys \<Rightarrow> u32" where
  "fl_get_pre_ap_cancel_status s = pre_ap_cancel (g_role_launch s)"

definition rl_pre_ap_init :: "rl_sys \<Rightarrow> rl_sys" where
  "rl_pre_ap_init = on_rl (\<lambda>g. g\<lparr>pre_ap_cancel := 0, pre_ap_status := 0\<rparr>)"

definition rl_pre_sta_init :: "rl_sys \<Rightarrow> rl_sys" where
  "rl_pre_sta_init = on_rl (\<lambda>g. g\<lparr>pre_sta_cancel := 0, pre_sta_status := 0\<rparr>)"

definition rl_status_is_idle :: "rl_sys \<Rightarrow> bool" where
  "rl_status_is_idle s \<longleftrightarrow> (rl_status (g_role_launch s) AND RL_STATUS_BIT_MASK) AND NOT RL_STATUS_MASK = RL_STATUS_IDLE"

definition rl_status_set_pause :: "int \<Rightarrow> rl_sys \<Rightarrow> rl_sys" where
  "rl_status_set_pause en =
     (if en \<noteq> 0 then on_rl (rl_status_update (\<lambda>st. st OR RL_STATUS_PAUSE))
      else on_rl (rl_status_update (\<lambda>st. st AND NOT RL_STATUS_PAUSE)))"

definition rl_status_set_private_state :: "u32 \<Rightarrow> rl_sys \<Rightarrow> rl_sys" where
  "rl_status_set_private_state st = on_rl (rl_status_update (\<lambda>x. x OR (st AND RL_PRIV_STATUS_MASK)))"

definition rl_status_reset_private_state :: "u32 \<Rightarrow> rl_sys \<Rightarrow> rl_sys" where
  "rl_status_reset_private_state st = on_rl (rl_status_update (\<lambda>x. x AND NOT (st AND RL_PRIV_STATUS_MASK)))"

definition rl_status_set_st_state :: "u32 \<Rightarrow> rl_sys \<Rightarrow> rl_sys" where
  "rl_status_set_st_state st = on_rl (rl_status_update (\<lambda>x. x OR (st AND RL_ST_STATUS_MASK)))"

definition rl_status_reset_st_state :: "u32 \<Rightarrow> rl_sys \<Rightarrow> rl_sys" where
  "rl_status_reset_st_state st = on_rl (rl_status_update (\<lambda>x. x AND NOT (st AND RL_ST_STATUS_MASK)))"

definition rl_sta_adv_register_cache_station :: "LAUNCH_REQ \<Rightarrow> rl_sys \<Rightarrow> rl_sys" where
  "rl_sta_adv_register_cache_station lreq s =
     s\<lparr>g_sta_cache := \<lparr>cache_req_flag = 1, cache_param = lreq, cache_completion = 0\<rparr>\<rparr>"

definition rl_sta_is_launched :: "rl_sys \<Rightarrow> bool" where
  "rl_sta_is_launched s \<longleftrightarrow> RL_STATUS_MROLE_CHANNEL_SWITCHED = g_mrole_csa_flag s \<or> RL_STATUS_STA_LAUNCHED = rl_pre_sta_get_status s"

definition rl_sta_may_next_launch :: "rl_sys \<Rightarrow> u32" where
  "rl_sta_may_next_launch s =
     (let st = rl_pre_sta_get_status s;
          yes = (if g_mrole_csa_flag s = RL_STATUS_MROLE_CHANNEL_SWITCHED then 1
                 else if pre_sta_cancel (g_role_launch s) \<noteq> 0
                         \<and> st \<in> {RL_STATUS_STA_DHCPING, RL_STATUS_STA_INITING, RL_STATUS_STA_SCAN_OVER, RL_STATUS_STA_CONNECTING} then 2
                 else if st = RL_STATUS_STA_LAUNCH_FAILED then 3
                 else if st = RL_STATUS_STA_LAUNCHED then 4
                 else 0)
      in if g_mrole_csa_flag s = RL_STATUS_MROLE_CHANNEL_SWITCHING then 0 else yes)"

definition rl_ap_may_next_launch :: "u32 \<Rightarrow> rl_sys \<Rightarrow> u32" where
  "rl_ap_may_next_launch pre_cancel s =
     (if pre_cancel = 0 then 1
      else let st = rl_pre_ap_get_status s;
               yes = (if st = RL_STATUS_AP_TRANSMITTED_BCN + RL_STATUS_CANCEL
                         \<or> st AND NOT RL_STATUS_CANCEL = RL_STATUS_AP_LAUNCHED then 1 else 0)
           in if g_mrole_csa_flag s = RL_STATUS_MROLE_CHANNEL_SWITCHING then 0 else yes)"

definition rl_sta_req_is_null :: "rl_sys \<Rightarrow> bool" where
  "rl_sta_req_is_null s \<longleftrightarrow> jl_previous_sta (g_role_launch s) = 0 \<and> jl_following_sta (g_role_launch s) = 0"

subsection \<open>The setters other modules call\<close>

datatype rl_setter =
    Sta_status u32 | Ap_status u32 | Sta_set_cancel | Sta_clear_cancel | Ap_set_cancel | Ap_clear_cancel
  | Sta_init | Ap_init | Csa_init | Csa_switching | Csa_switched
  | Set_st u32 | Reset_st u32 | Set_priv u32 | Reset_priv u32

fun rl_note :: "rl_setter \<Rightarrow> rl_sys \<Rightarrow> rl_sys" where
  "rl_note (Sta_status st) s = snd (rl_pre_sta_set_status st s)"
| "rl_note (Ap_status st) s = snd (rl_pre_ap_set_status st s)"
| "rl_note Sta_set_cancel s = rl_pre_sta_set_cancel s"
| "rl_note Sta_clear_cancel s = rl_pre_sta_clear_cancel s"
| "rl_note Ap_set_cancel s = rl_pre_ap_set_cancel s"
| "rl_note Ap_clear_cancel s = rl_pre_ap_clear_cancel s"
| "rl_note Sta_init s = rl_pre_sta_init s"
| "rl_note Ap_init s = rl_pre_ap_init s"
| "rl_note Csa_init s = rl_init_csa_status s"
| "rl_note Csa_switching s = snd (rl_set_csa_switching s)"
| "rl_note Csa_switched s = snd (rl_set_csa_switched s)"
| "rl_note (Set_st st) s = rl_status_set_st_state st s"
| "rl_note (Reset_st st) s = rl_status_reset_st_state st s"
| "rl_note (Set_priv st) s = rl_status_set_private_state st s"
| "rl_note (Reset_priv st) s = rl_status_reset_private_state st s"

type_synonym wlan = "wlan_call \<Rightarrow> rl_sys \<Rightarrow> rl_setter list"

definition rl_call :: "wlan \<Rightarrow> wlan_call \<Rightarrow> rl_sys \<Rightarrow> rl_sys" where
  "rl_call w c s = fold rl_note (w c s) (s\<lparr>rl_calls := rl_calls s @ [c]\<rparr>)"

definition rl_pre_ap_disable_autobcn :: "wlan \<Rightarrow> rl_sys \<Rightarrow> u32 \<times> rl_sys" where
  "rl_pre_ap_disable_autobcn w s =
     (let s1 = (if pre_ap_cancel (g_role_launch s) \<noteq> 0 then rl_call w Hw_ap_disable s else s)
      in (pre_ap_cancel (g_role_launch s1), s1))"

subsection \<open>Timers\<close>

definition rtos_init_oneshot_timer :: "beken2_timer_t \<Rightarrow> beken2_timer_t" where
  "rtos_init_oneshot_timer t = T_stopped"

definition rtos_deinit_oneshot_timer :: "beken2_timer_t \<Rightarrow> beken2_timer_t option" where
  "rtos_deinit_oneshot_timer t = (if t = T_none then None else Some T_none)"

definition rtos_stop_oneshot_timer :: "beken2_timer_t \<Rightarrow> beken2_timer_t option" where
  "rtos_stop_oneshot_timer t = (if t = T_none then None else Some T_stopped)"

definition rtos_start_oneshot_timer :: "beken2_timer_t \<Rightarrow> beken2_timer_t option" where
  "rtos_start_oneshot_timer t = (if t = T_none then None else Some T_running)"

definition rl_relaunch_chance :: "rl_sys \<Rightarrow> rl_sys option" where
  "rl_relaunch_chance s =
     do { t \<leftarrow> rtos_start_oneshot_timer (rl_timer (g_role_launch s));
          Some (on_rl (rl_timer_update (\<lambda>_. t)) s) }"

definition rl_init :: "rl_sys \<Rightarrow> rl_sys" where
  "rl_init = on_rl (\<lambda>g. g\<lparr>rl_timer := rtos_init_oneshot_timer (rl_timer g),
     enter_timer := rtos_init_oneshot_timer (enter_timer g), rl_timer_flag := RL_TIMER_INIT\<rparr>)"

definition rl_stop :: "rl_sys \<Rightarrow> rl_sys option" where
  "rl_stop s =
     do { t \<leftarrow> rtos_stop_oneshot_timer (rl_timer (g_role_launch s));
          e \<leftarrow> rtos_stop_oneshot_timer (enter_timer (g_role_launch s));
          Some (on_rl (\<lambda>g. g\<lparr>rl_timer := t, enter_timer := e, rl_timer_flag := RL_TIMER_STOP\<rparr>) s) }"

definition rl_uninit :: "rl_sys \<Rightarrow> rl_sys option" where
  "rl_uninit s =
     do { s1 \<leftarrow> (if rl_timer_flag (g_role_launch s) = RL_TIMER_START then rl_stop s else Some s);
          t \<leftarrow> rtos_deinit_oneshot_timer (rl_timer (g_role_launch s1));
          e \<leftarrow> rtos_deinit_oneshot_timer (enter_timer (g_role_launch s1));
          Some (on_rl (\<lambda>g. g\<lparr>rl_timer := t, enter_timer := e, rl_timer_flag := RL_TIMER_UNINIT\<rparr>) s1) }"

definition rl_start :: "rl_sys \<Rightarrow> rl_sys option" where
  "rl_start s =
     do { t \<leftarrow> rtos_stop_oneshot_timer (rl_timer (g_role_launch s));
          t' \<leftarrow> rtos_start_oneshot_timer t;
          Some (on_rl (\<lambda>g. g\<lparr>rl_timer := t', rl_timer_flag := RL_TIMER_START\<rparr>) s) }"

subsection \<open>Entities\<close>

definition rl_alloc_entity :: "LAUNCH_REQ \<Rightarrow> FUNC_1PARAM_PTR \<Rightarrow> rl_sys \<Rightarrow> rl_ptr \<times> rl_sys" where
  "rl_alloc_entity param completion s =
     (rl_brk s,
      s\<lparr>rl_heap := (rl_heap s)(rl_brk s \<mapsto>
           \<lparr>launch_type = LAUNCH_TYPE_ASAP, relaunch_limit = 0, launch_count = 0, rlaunch = param, completion_cb = completion\<rparr>),
        rl_brk := rl_brk s + 1\<rparr>)"

definition rl_free_entity :: "rl_ptr \<Rightarrow> rl_sys \<Rightarrow> rl_sys option" where
  "rl_free_entity d s =
     (if d = 0 then Some s
      else case rl_heap s d of None \<Rightarrow> None | Some _ \<Rightarrow> Some (s\<lparr>rl_heap := (rl_heap s)(d := None)\<rparr>))"

definition rl_pre_sta_stop_launch :: "rl_sys \<Rightarrow> rl_sys" where "rl_pre_sta_stop_launch s = s"
definition rl_pre_ap_stop_launch :: "rl_sys \<Rightarrow> rl_sys" where "rl_pre_ap_stop_launch s = s"

definition rl_sta_request_start :: "wlan \<Rightarrow> LAUNCH_REQ \<Rightarrow> rl_sys \<Rightarrow> rl_sys" where
  "rl_sta_request_start w req s =
     (if req_type req = LAUNCH_REQ_STA then rl_call w (Start_sta (descr req)) (rl_pre_sta_init s)
      else if req_type req = LAUNCH_REQ_PURE_STA_SCAN then rl_call w Scan_app_init (rl_pre_sta_init s)
      else if req_type req = LAUNCH_REQ_DELIF_STA then rl_call w Stop_sta s
      else s)"

definition rl_ap_request_start :: "wlan \<Rightarrow> LAUNCH_REQ \<Rightarrow> rl_sys \<Rightarrow> rl_sys" where
  "rl_ap_request_start w req s =
     (if req_type req = LAUNCH_REQ_AP then rl_call w (Start_ap (descr req)) (rl_pre_ap_init s)
      else if req_type req = LAUNCH_REQ_DELIF_AP then rl_call w Stop_ap s
      else s)"

subsection \<open>Launching\<close>

definition sta_open :: "rl_sys \<Rightarrow> bool" where
  "sta_open s \<longleftrightarrow> rl_status (g_role_launch s) AND RL_STATUS_MASK = 0
     \<and> rl_status (g_role_launch s) AND RL_STA_STATE_MASK \<noteq> RL_STA_STATE_HOLD"

definition ap_open :: "rl_sys \<Rightarrow> bool" where
  "ap_open s \<longleftrightarrow> rl_status (g_role_launch s) AND RL_STATUS_MASK = 0"

definition set_doing :: "rl_sys \<Rightarrow> rl_sys" where
  "set_doing = on_rl (rl_status_update (\<lambda>st. st OR RL_STATUS_DOING))"

definition clear_doing :: "rl_sys \<Rightarrow> rl_sys" where
  "clear_doing = on_rl (rl_status_update (\<lambda>st. st AND NOT RL_STATUS_DOING))"

definition rl_launch_sta :: "wlan \<Rightarrow> rl_sys \<Rightarrow> (u32 \<times> rl_sys) option" where
  "rl_launch_sta w s =
     (if jl_previous_sta (g_role_launch s) = 0 then
        (if jl_following_sta (g_role_launch s) \<noteq> 0 then
           (let pre_entity = jl_following_sta (g_role_launch s);
                s1 = on_rl (jl_following_sta_update (\<lambda>_. 0)) s in
            if sta_open s1 then
              do { let s2 = on_rl (jl_previous_sta_update (\<lambda>_. pre_entity)) (set_doing s1);
                   e \<leftarrow> rl_heap s2 pre_entity;
                   Some (LAUNCH_STATUS_CONT, clear_doing (rl_sta_request_start w (rlaunch e) s2)) }
            else
              do { s2 \<leftarrow> (if pre_entity \<noteq> 0 then rl_free_entity pre_entity s1 else Some s1);
                   Some (LAUNCH_STATUS_OVER, s2) })
         else Some (LAUNCH_STATUS_OVER, s))
      else
        do {
          s1 \<leftarrow> (if jl_following_sta (g_role_launch s) \<noteq> 0 then
                   do { entity \<leftarrow> rl_heap s (jl_following_sta (g_role_launch s));
                        Some (if launch_type entity = LAUNCH_TYPE_ASAP then rl_pre_sta_set_cancel s else s) }
                 else Some s);
          pre \<leftarrow> rl_heap s1 (jl_previous_sta (g_role_launch s1));
          let s2 = (if relaunch_limit pre \<noteq> 0 \<and> relaunch_limit pre \<le> launch_count pre then rl_pre_sta_set_cancel s1 else s1);
          if rl_sta_may_next_launch s2 \<noteq> 0 then
            do {
              s3 \<leftarrow> rl_free_entity (jl_previous_sta (g_role_launch s2)) (rl_pre_sta_stop_launch s2);
              let pre_entity = jl_following_sta (g_role_launch s3);
              let s4 = on_rl (jl_following_sta_update (\<lambda>_. 0)) s3;
              if sta_open s4 then
                do { let s5 = on_rl (jl_previous_sta_update (\<lambda>_. pre_entity)) (set_doing s4);
                     (ret, s6) \<leftarrow>
                       (if pre_entity \<noteq> 0
                        then do { e \<leftarrow> rl_heap s5 pre_entity; Some (LAUNCH_STATUS_CONT, rl_sta_request_start w (rlaunch e) s5) }
                        else Some (LAUNCH_STATUS_OVER, s5));
                     Some (ret, clear_doing s6) }
              else
                do { s5 \<leftarrow> (if pre_entity \<noteq> 0 then rl_free_entity pre_entity s4 else Some s4);
                     Some (LAUNCH_STATUS_OVER, on_rl (jl_previous_sta_update (\<lambda>_. 0)) s5) } }
          else Some (LAUNCH_STATUS_CONT, s2) })"

definition rl_launch_ap :: "wlan \<Rightarrow> rl_sys \<Rightarrow> (u32 \<times> rl_sys) option" where
  "rl_launch_ap w s =
     (if jl_previous_ap (g_role_launch s) = 0 then
        (if jl_following_ap (g_role_launch s) \<noteq> 0 then
           (let pre_entity = jl_following_ap (g_role_launch s);
                s1 = on_rl (jl_following_ap_update (\<lambda>_. 0)) s in
            if ap_open s1 then
              do { let s2 = on_rl (jl_previous_ap_update (\<lambda>_. pre_entity)) (set_doing s1);
                   let s3 = rl_pre_ap_init s2;
                   e \<leftarrow> rl_heap s3 pre_entity;
                   Some (LAUNCH_STATUS_CONT, clear_doing (rl_ap_request_start w (rlaunch e) s3)) }
            else do { s2 \<leftarrow> rl_free_entity pre_entity s1; Some (LAUNCH_STATUS_OVER, s2) })
         else Some (LAUNCH_STATUS_OVER, s))
      else
        do {
          (c1, s1) \<leftarrow> (if jl_following_ap (g_role_launch s) \<noteq> 0 then
                   do { entity \<leftarrow> rl_heap s (jl_following_ap (g_role_launch s));
                        Some (if launch_type entity = LAUNCH_TYPE_ASAP then (1, rl_pre_ap_set_cancel s) else (0 :: u32, s)) }
                 else Some (0, s));
          pre \<leftarrow> rl_heap s1 (jl_previous_ap (g_role_launch s1));
          let (c2, s2) = (if relaunch_limit pre \<noteq> 0 \<and> relaunch_limit pre \<le> launch_count pre then (1, rl_pre_ap_set_cancel s1) else (c1, s1));
          if rl_ap_may_next_launch c2 s2 \<noteq> 0 then
            do {
              s3 \<leftarrow> rl_free_entity (jl_previous_ap (g_role_launch s2)) (rl_pre_ap_stop_launch s2);
              let pre_entity = jl_following_ap (g_role_launch s3);
              let s4 = on_rl (jl_following_ap_update (\<lambda>_. 0)) s3;
              if ap_open s4 then
                do { let s5 = on_rl (jl_previous_ap_update (\<lambda>_. pre_entity)) (set_doing s4);
                     (ret, s6) \<leftarrow>
                       (if pre_entity \<noteq> 0
                        then do { let s5' = rl_pre_ap_init s5; e \<leftarrow> rl_heap s5' pre_entity;
                                  Some (LAUNCH_STATUS_CONT, rl_ap_request_start w (rlaunch e) s5') }
                        else Some (LAUNCH_STATUS_OVER, s5));
                     Some (ret, clear_doing s6) }
              else
                do { s5 \<leftarrow> (if pre_entity \<noteq> 0 then rl_free_entity pre_entity s4 else Some s4);
                     Some (LAUNCH_STATUS_OVER, on_rl (jl_previous_ap_update (\<lambda>_. 0)) s5) } }
          else Some (LAUNCH_STATUS_CONT, s2) })"

definition rl_launch_handler :: "wlan \<Rightarrow> rl_sys \<Rightarrow> rl_sys option" where
  "rl_launch_handler w s =
     do {
       (sta_ret, ap_ret, s1) \<leftarrow>
         (if pre_entity_type (g_role_launch s) = PRE_ENTITY_AP then
            do { (ap_ret, s1) \<leftarrow> rl_launch_ap w s;
                 if ap_ret = LAUNCH_STATUS_OVER
                 then do { (sta_ret, s2) \<leftarrow> rl_launch_sta w (on_rl (pre_entity_type_update (\<lambda>_. PRE_ENTITY_STA)) s1);
                           Some (sta_ret, ap_ret, s2) }
                 else Some (LAUNCH_STATUS_OVER, ap_ret, s1) }
          else if pre_entity_type (g_role_launch s) = PRE_ENTITY_STA then
            do { (sta_ret, s1) \<leftarrow> rl_launch_sta w s;
                 if sta_ret = LAUNCH_STATUS_OVER
                 then do { (ap_ret, s2) \<leftarrow> rl_launch_ap w (on_rl (pre_entity_type_update (\<lambda>_. PRE_ENTITY_AP)) s1);
                           Some (sta_ret, ap_ret, s2) }
                 else Some (sta_ret, LAUNCH_STATUS_OVER, s1) }
          else Some (LAUNCH_STATUS_OVER, LAUNCH_STATUS_OVER, s));
       if \<not> (sta_ret = LAUNCH_STATUS_OVER \<and> ap_ret = LAUNCH_STATUS_OVER) then rl_relaunch_chance s1 else Some s1 }"

subsection \<open>Requests\<close>

definition st_hold :: "rl_sys \<Rightarrow> bool" where
  "st_hold s \<longleftrightarrow> rl_status (g_role_launch s) AND RL_STA_STATE_MASK = RL_STA_STATE_HOLD"

definition type_if_idle :: "rl_ptr \<Rightarrow> u32 \<Rightarrow> rl_sys \<Rightarrow> rl_sys" where
  "type_if_idle entity t s =
     (if entity \<noteq> 0 \<and> pre_entity_type (g_role_launch s) = PRE_ENTITY_IDLE
      then on_rl (pre_entity_type_update (\<lambda>_. t)) s else s)"

definition sta_request_enter :: "wlan \<Rightarrow> LAUNCH_REQ \<Rightarrow> FUNC_1PARAM_PTR \<Rightarrow> rl_sys \<Rightarrow> (u32 \<times> rl_sys) option" where
  "sta_request_enter w param completion s =
     do {
       let s1 = set_doing s;
       (ret, entity, s2) \<leftarrow>
         (if jl_previous_ap (g_role_launch s1) = 0 \<and> jl_previous_sta (g_role_launch s1) = 0 \<and> \<not> st_hold s1 then
            (let (entity, s2) = rl_alloc_entity param completion s1;
                 s3 = on_rl (jl_previous_sta_update (\<lambda>_. entity)) s2
             in Some (1, entity, rl_sta_request_start w param s3))
          else if jl_following_sta (g_role_launch s1) = 0 \<and> \<not> st_hold s1 then
            (let (entity, s2) = rl_alloc_entity param completion s1 in
             do { s3 \<leftarrow> rl_start (on_rl (jl_following_sta_update (\<lambda>_. entity)) s2);
                  Some (2, entity, s3) })
          else do { s2 \<leftarrow> rl_start s1; Some (0, 0, s2) });
       Some (ret, clear_doing (type_if_idle entity PRE_ENTITY_STA s2)) }"

definition ap_request_enter :: "wlan \<Rightarrow> LAUNCH_REQ \<Rightarrow> FUNC_1PARAM_PTR \<Rightarrow> rl_sys \<Rightarrow> (u32 \<times> rl_sys) option" where
  "ap_request_enter w param completion s =
     do {
       (ret, entity, s2) \<leftarrow>
         (if jl_previous_ap (g_role_launch s) = 0 \<and> jl_previous_sta (g_role_launch s) = 0 then
            (let (entity, s2) = rl_alloc_entity param completion s;
                 s3 = on_rl (jl_previous_ap_update (\<lambda>_. entity)) s2
             in Some (1, entity, rl_ap_request_start w param s3))
          else if jl_following_ap (g_role_launch s) = 0 then
            (let (entity, s2) = rl_alloc_entity param completion s in
             do { s3 \<leftarrow> rl_start (on_rl (jl_following_ap_update (\<lambda>_. entity)) s2);
                  Some (2, entity, s3) })
          else do { s2 \<leftarrow> rl_start s; Some (0, 0, s2) });
       Some (ret, type_if_idle entity PRE_ENTITY_AP s2) }"

definition rl_enter_handler :: "wlan \<Rightarrow> bool \<Rightarrow> rl_sys \<Rightarrow> rl_sys option" where
  "rl_enter_handler w malloc_ok s =
     (if \<not> malloc_ok then Some s
      else
        (let k = g_rl_socket s; s1 = s\<lparr>g_rl_socket := zero_socket\<rparr> in
         if rl_status (g_role_launch s1) AND RL_STATUS_MASK = 0 then
           do {
             let s2 = on_rl (rl_status_update (\<lambda>st. st OR RL_STATUS_PENDING)) s1;
             s3 \<leftarrow> (if sta_req_flag k \<noteq> 0 then
                do { (ret, s') \<leftarrow> sta_request_enter w (sta_param k) (sta_completion k) s2;
                     Some (if ret \<noteq> 0 \<and> req_type (sta_param k) = LAUNCH_REQ_STA
                           then s'\<lparr>g_sta_cache := \<lparr>cache_req_flag = 1, cache_param = sta_param k, cache_completion = sta_completion k\<rparr>\<rparr>
                           else s') }
              else Some s2);
             s4 \<leftarrow> (if ap_req_flag k \<noteq> 0
                then do { (_, s') \<leftarrow> ap_request_enter w (ap_param k) (ap_completion k) s3; Some s' }
                else Some s3);
             Some (on_rl (rl_status_update (\<lambda>st. st AND NOT RL_STATUS_PENDING)) s4) }
         else Some s1))"

definition restart_enter_timer :: "rl_sys \<Rightarrow> rl_sys option" where
  "restart_enter_timer s =
     do { t \<leftarrow> rtos_stop_oneshot_timer (enter_timer (g_role_launch s));
          t' \<leftarrow> rtos_start_oneshot_timer t;
          Some (on_rl (enter_timer_update (\<lambda>_. t')) s) }"

definition rl_sta_request_enter_handle :: "LAUNCH_REQ \<Rightarrow> FUNC_1PARAM_PTR \<Rightarrow> rl_sys \<Rightarrow> rl_sys option" where
  "rl_sta_request_enter_handle param completion s =
     restart_enter_timer (s\<lparr>g_rl_socket := (g_rl_socket s)\<lparr>sta_completion := completion, sta_param := param, sta_req_flag := 1\<rparr>\<rparr>)"

definition rl_sta_request_enter :: "LAUNCH_REQ \<Rightarrow> FUNC_1PARAM_PTR \<Rightarrow> rl_sys \<Rightarrow> rl_sys option" where
  "rl_sta_request_enter param completion s =
     rl_sta_request_enter_handle param completion (rl_status_reset_st_state RL_ST_STATUS_RESTART_HOLD s)"

definition rl_ap_request_enter :: "LAUNCH_REQ \<Rightarrow> FUNC_1PARAM_PTR \<Rightarrow> rl_sys \<Rightarrow> rl_sys option" where
  "rl_ap_request_enter param completion s =
     restart_enter_timer (s\<lparr>g_rl_socket := (g_rl_socket s)\<lparr>ap_completion := completion, ap_param := param, ap_req_flag := 1\<rparr>\<rparr>)"

definition rl_sta_cache_request_enter :: "bool \<Rightarrow> rl_sys \<Rightarrow> (u32 \<times> rl_sys) option" where
  "rl_sta_cache_request_enter monitor_mode s =
     (let st = rl_status (g_role_launch s) in
      do {
        (ret, s1) \<leftarrow>
          (if cache_req_flag (g_sta_cache s) \<noteq> 0 \<and> \<not> monitor_mode
              \<and> st AND RL_PRIV_STATUS_STA_ADV_RDY = 0 \<and> \<not> st_hold s then
             do { let s1 = (if st AND RL_PRIV_STATUS_STA_ADV \<noteq> 0
                            then rl_status_reset_private_state RL_PRIV_STATUS_STA_ADV s else s);
                  s2 \<leftarrow> rl_sta_request_enter_handle (cache_param (g_sta_cache s1)) (cache_completion (g_sta_cache s1)) s1;
                  Some (1, s2) }
           else if st AND RL_PRIV_STATUS_STA_ADV \<noteq> 0 \<and> st AND RL_PRIV_STATUS_STA_ADV_RDY = 0 then
             do { s2 \<leftarrow> rl_sta_request_enter (zero_req\<lparr>req_type := LAUNCH_REQ_DELIF_STA\<rparr>) 0
                         (rl_status_reset_private_state RL_PRIV_STATUS_STA_ADV s);
                  Some (0, s2) }
           else Some (0, s));
        Some (ret, s1\<lparr>g_sta_cache := zero_cache\<rparr>) })"

end
