(* ===== verification/RoleProps.thy ===== *)
theory RoleProps
  imports RoleLaunch
begin

text \<open>
  What holds of the role launcher.  The system is the launcher after \<open>rl_init\<close>, under any sequence of
  requests, setter calls of other modules, and firings of its two timers; a handler runs without
  another of these steps in between (the handlers and the requests run in one timer task and with
  interrupts masked).
\<close>

subsection \<open>Steps\<close>

datatype rl_action =
    A_note rl_setter | A_sta LAUNCH_REQ FUNC_1PARAM_PTR | A_ap LAUNCH_REQ FUNC_1PARAM_PTR | A_cache bool
  | A_register LAUNCH_REQ | A_pause int | A_autobcn | A_enter bool | A_launch

fun rl_act :: "wlan \<Rightarrow> rl_action \<Rightarrow> rl_sys \<Rightarrow> rl_sys option" where
  "rl_act w (A_note n) s = Some (rl_note n s)"
| "rl_act w (A_sta p c) s = rl_sta_request_enter p c s"
| "rl_act w (A_ap p c) s = rl_ap_request_enter p c s"
| "rl_act w (A_cache monitor) s = map_option snd (rl_sta_cache_request_enter monitor s)"
| "rl_act w (A_register p) s = Some (rl_sta_adv_register_cache_station p s)"
| "rl_act w (A_pause en) s = Some (rl_status_set_pause en s)"
| "rl_act w A_autobcn s = Some (snd (rl_pre_ap_disable_autobcn w s))"
| "rl_act w (A_enter malloc_ok) s =
     (if enter_timer (g_role_launch s) = T_running
      then rl_enter_handler w malloc_ok (on_rl (enter_timer_update (\<lambda>_. T_stopped)) s) else Some s)"
| "rl_act w A_launch s =
     (if rl_timer (g_role_launch s) = T_running
      then rl_launch_handler w (on_rl (rl_timer_update (\<lambda>_. T_stopped)) s) else Some s)"

inductive rl_reach :: "wlan \<Rightarrow> rl_sys \<Rightarrow> bool" for w where
  start: "rl_reach w (rl_init rl_boot)"
| step: "rl_reach w s \<Longrightarrow> rl_act w a s = Some s' \<Longrightarrow> rl_reach w s'"

subsection \<open>What the setters keep\<close>

named_theorems rl_defs \<open>definitions of the setters\<close>

lemmas rl_setter_defs [rl_defs] = rl_pre_sta_set_status_def rl_pre_ap_set_status_def rl_pre_sta_set_cancel_def
  rl_pre_sta_clear_cancel_def rl_pre_ap_set_cancel_def rl_pre_ap_clear_cancel_def rl_pre_sta_init_def rl_pre_ap_init_def
  rl_init_csa_status_def rl_set_csa_switching_def rl_set_csa_switched_def rl_status_set_st_state_def
  rl_status_reset_st_state_def rl_status_set_private_state_def rl_status_reset_private_state_def

lemma on_rl_simps [simp]:
  "g_role_launch (on_rl f s) = f (g_role_launch s)" "rl_heap (on_rl f s) = rl_heap s" "rl_brk (on_rl f s) = rl_brk s"
  "rl_calls (on_rl f s) = rl_calls s" "g_rl_socket (on_rl f s) = g_rl_socket s" "g_sta_cache (on_rl f s) = g_sta_cache s"
  "g_mrole_csa_flag (on_rl f s) = g_mrole_csa_flag s"
  by (simp_all add: on_rl_def)

definition low :: "rl_sys \<Rightarrow> u32" where "low s = rl_status (g_role_launch s) AND RL_STATUS_BIT_MASK"

lemma not_and_disjoint: "(a :: u32) AND b = 0 \<Longrightarrow> NOT a AND b = b"
  by (auto simp: bit_eq_iff bit_simps)

lemma low_masks:
  "(x OR (st AND RL_ST_STATUS_MASK)) AND RL_STATUS_BIT_MASK = x AND RL_STATUS_BIT_MASK"
  "(x OR (st AND RL_PRIV_STATUS_MASK)) AND RL_STATUS_BIT_MASK = x AND RL_STATUS_BIT_MASK"
  "(x AND NOT (st AND RL_ST_STATUS_MASK)) AND RL_STATUS_BIT_MASK = x AND RL_STATUS_BIT_MASK"
  "(x AND NOT (st AND RL_PRIV_STATUS_MASK)) AND RL_STATUS_BIT_MASK = x AND RL_STATUS_BIT_MASK"
proof -
  have z: "(st AND RL_ST_STATUS_MASK) AND RL_STATUS_BIT_MASK = 0" "(st AND RL_PRIV_STATUS_MASK) AND RL_STATUS_BIT_MASK = 0"
    by (simp_all add: RL_ST_STATUS_MASK_def RL_PRIV_STATUS_MASK_def RL_STATUS_BIT_MASK_def and.assoc)
  note n = z [THEN not_and_disjoint]
  show "(x OR (st AND RL_ST_STATUS_MASK)) AND RL_STATUS_BIT_MASK = x AND RL_STATUS_BIT_MASK"
    "(x OR (st AND RL_PRIV_STATUS_MASK)) AND RL_STATUS_BIT_MASK = x AND RL_STATUS_BIT_MASK"
    by (simp_all add: bit.conj_disj_distrib2 z)
  show "(x AND NOT (st AND RL_ST_STATUS_MASK)) AND RL_STATUS_BIT_MASK = x AND RL_STATUS_BIT_MASK"
    "(x AND NOT (st AND RL_PRIV_STATUS_MASK)) AND RL_STATUS_BIT_MASK = x AND RL_STATUS_BIT_MASK"
    by (simp_all only: and.assoc n)
qed

definition rl_core where
  "rl_core s =
     (enter_timer (g_role_launch s), rl_timer (g_role_launch s), pre_entity_type (g_role_launch s),
      jl_previous_sta (g_role_launch s), jl_following_sta (g_role_launch s),
      jl_previous_ap (g_role_launch s), jl_following_ap (g_role_launch s), rl_heap s, rl_brk s, low s)"

lemma note_core: "rl_core (rl_note n s) = rl_core s"
proof -
  show "rl_core (rl_note n s) = rl_core s"
  proof (cases n)
    case (Sta_status st) then show ?thesis by (simp add: rl_core_def low_def rl_pre_sta_set_status_def Let_def)
  next case (Ap_status st) then show ?thesis by (simp add: rl_core_def low_def rl_pre_ap_set_status_def Let_def)
  qed (simp_all add: rl_core_def low_def low_masks rl_defs del: bit.de_Morgan_conj)
qed

lemma note_calls: "rl_calls (rl_note n s) = rl_calls s"
  by (cases n) (simp_all add: rl_defs Let_def)

lemma notes_core: "rl_core (fold rl_note ns s) = rl_core s" "rl_calls (fold rl_note ns s) = rl_calls s"
  by (induction ns arbitrary: s) (simp_all add: note_core note_calls)

lemma call_core: "rl_core (rl_call w c s) = rl_core s" "rl_calls (rl_call w c s) = rl_calls s @ [c]"
  by (simp_all add: rl_call_def notes_core) (simp add: rl_core_def low_def)

lemma init_core: "rl_core (rl_pre_sta_init s) = rl_core s" "rl_core (rl_pre_ap_init s) = rl_core s"
  "rl_calls (rl_pre_sta_init s) = rl_calls s" "rl_calls (rl_pre_ap_init s) = rl_calls s"
  using note_core [of Sta_init s] note_core [of Ap_init s] note_calls [of Sta_init s] note_calls [of Ap_init s] by simp_all

text \<open>The Wi-Fi calls a request leads to.\<close>

definition sta_calls :: "LAUNCH_REQ \<Rightarrow> wlan_call list" where
  "sta_calls r = (if req_type r = LAUNCH_REQ_STA then [Start_sta (descr r)]
     else if req_type r = LAUNCH_REQ_PURE_STA_SCAN then [Scan_app_init]
     else if req_type r = LAUNCH_REQ_DELIF_STA then [Stop_sta] else [])"

definition ap_calls :: "LAUNCH_REQ \<Rightarrow> wlan_call list" where
  "ap_calls r = (if req_type r = LAUNCH_REQ_AP then [Start_ap (descr r)]
     else if req_type r = LAUNCH_REQ_DELIF_AP then [Stop_ap] else [])"

lemma request_core:
  "rl_core (rl_sta_request_start w r s) = rl_core s" "rl_calls (rl_sta_request_start w r s) = rl_calls s @ sta_calls r"
  "rl_core (rl_ap_request_start w r s) = rl_core s" "rl_calls (rl_ap_request_start w r s) = rl_calls s @ ap_calls r"
  by (simp_all add: rl_sta_request_start_def rl_ap_request_start_def sta_calls_def ap_calls_def call_core init_core)

lemma core_fields:
  assumes "rl_core s' = rl_core s"
  shows "enter_timer (g_role_launch s') = enter_timer (g_role_launch s)" "rl_timer (g_role_launch s') = rl_timer (g_role_launch s)"
    "pre_entity_type (g_role_launch s') = pre_entity_type (g_role_launch s)"
    "jl_previous_sta (g_role_launch s') = jl_previous_sta (g_role_launch s)"
    "jl_following_sta (g_role_launch s') = jl_following_sta (g_role_launch s)"
    "jl_previous_ap (g_role_launch s') = jl_previous_ap (g_role_launch s)"
    "jl_following_ap (g_role_launch s') = jl_following_ap (g_role_launch s)"
    "rl_heap s' = rl_heap s" "rl_brk s' = rl_brk s" "low s' = low s"
  using assms by (simp_all add: rl_core_def Let_def)

lemmas note_fields [simp] = note_calls core_fields [OF note_core]
lemmas call_fields [simp] = call_core(2) core_fields [OF call_core(1)]
lemmas init_fields [simp] = init_core(3,4) core_fields [OF init_core(1)] core_fields [OF init_core(2)]
lemmas request_fields [simp] = request_core(2,4) core_fields [OF request_core(1)] core_fields [OF request_core(3)]

lemma cancel_fields [simp]:
  "rl_core (rl_pre_sta_set_cancel s) = rl_core s" "rl_core (rl_pre_ap_set_cancel s) = rl_core s"
  "rl_calls (rl_pre_sta_set_cancel s) = rl_calls s" "rl_calls (rl_pre_ap_set_cancel s) = rl_calls s"
  using note_core [of Sta_set_cancel s] note_core [of Ap_set_cancel s] note_calls [of Sta_set_cancel s] note_calls [of Ap_set_cancel s] by simp_all

lemmas cancel_core_fields [simp] = core_fields [OF cancel_fields(1)] core_fields [OF cancel_fields(2)]

subsection \<open>Ownership of the entities\<close>

definition own4 :: "rl_ptr \<Rightarrow> rl_ptr \<Rightarrow> rl_ptr \<Rightarrow> rl_ptr \<Rightarrow> (rl_ptr \<Rightarrow> RL_ENTITY_T option) \<Rightarrow> nat \<Rightarrow> bool" where
  "own4 p q r s h b \<longleftrightarrow> distinct (filter ((\<noteq>) 0) [p, q, r, s]) \<and> dom h = set (filter ((\<noteq>) 0) [p, q, r, s]) \<and>
     (\<forall>x \<in> dom h. x < b) \<and> 0 < b"

lemma own_swap: "own4 p q r s h b \<Longrightarrow> own4 r s p q h b" "own4 p q r s h b \<Longrightarrow> own4 q p r s h b"
  by (auto simp: own4_def split: if_splits)

lemma own_free: "own4 p q r s h b \<Longrightarrow> p \<noteq> 0 \<Longrightarrow> own4 0 q r s (h(p := None)) b"
  by (auto simp: own4_def split: if_splits)

lemma own_alloc: "own4 0 q r s h b \<Longrightarrow> own4 b q r s (h(b \<mapsto> e)) (Suc b)"
  unfolding own4_def by (auto split: if_splits simp: less_Suc_eq)

lemma own_deref: "own4 p q r s h b \<Longrightarrow> p \<noteq> 0 \<Longrightarrow> \<exists>e. h p = Some e"
  by (auto simp: own4_def split: if_splits)

definition rl_own :: "rl_sys \<Rightarrow> bool" where
  "rl_own s \<longleftrightarrow> own4 (jl_previous_sta (g_role_launch s)) (jl_following_sta (g_role_launch s))
       (jl_previous_ap (g_role_launch s)) (jl_following_ap (g_role_launch s)) (rl_heap s) (rl_brk s)"

lemma rl_own_core:
  assumes "rl_core s' = rl_core s"
  shows "rl_own s' = rl_own s"
  unfolding rl_own_def core_fields [OF assms] ..

subsection \<open>The busy bits\<close>

definition busy :: "rl_sys \<Rightarrow> u32" where "busy s = low s AND NOT RL_STATUS_MASK"

lemma is_idle_busy: "rl_status_is_idle s \<longleftrightarrow> busy s = 0"
  by (simp add: rl_status_is_idle_def busy_def low_def RL_STATUS_IDLE_def)

lemma low_or: "b AND RL_STATUS_BIT_MASK = b \<Longrightarrow> low (on_rl (rl_status_update (\<lambda>st. st OR b)) s) = low s OR b"
  by (simp add: low_def bit.conj_disj_distrib2)

lemma low_and: "low (on_rl (rl_status_update (\<lambda>st. st AND b)) s) = low s AND b"
  by (simp add: low_def ac_simps)

lemma busy_bits:
  "busy (set_doing s) = busy s OR 2" "busy (clear_doing s) = busy s AND NOT 2"
  "busy (on_rl (rl_status_update (\<lambda>st. st OR RL_STATUS_PENDING)) s) = busy s OR 1"
  "busy (on_rl (rl_status_update (\<lambda>st. st AND NOT RL_STATUS_PENDING)) s) = busy s AND NOT 1"
  "busy (on_rl (rl_status_update (\<lambda>st. st OR RL_STATUS_PAUSE)) s) = busy s"
  "busy (on_rl (rl_status_update (\<lambda>st. st AND NOT RL_STATUS_PAUSE)) s) = busy s"
  by (simp_all add: busy_def set_doing_def clear_doing_def low_or low_and RL_STATUS_DOING_def RL_STATUS_PENDING_def
      RL_STATUS_MASK_def RL_STATUS_PAUSE_def RL_STATUS_BIT_MASK_def bit.conj_disj_distrib bit.conj_disj_distrib2 ac_simps)


lemma busy_on_rl [simp]: "rl_status (f (g_role_launch s)) = rl_status (g_role_launch s) \<Longrightarrow> busy (on_rl f s) = busy s"
  by (simp add: busy_def low_def)

lemma busy_other [simp]:
  "busy (s\<lparr>rl_heap := h\<rparr>) = busy s" "busy (s\<lparr>rl_brk := b\<rparr>) = busy s" "busy (s\<lparr>g_rl_socket := k\<rparr>) = busy s"
  "busy (s\<lparr>g_sta_cache := c\<rparr>) = busy s"
  by (simp_all add: busy_def low_def)

lemma busy_core:
  assumes "rl_core s' = rl_core s"
  shows "busy s' = busy s"
  unfolding busy_def core_fields [OF assms] ..

lemmas busy_request [simp] = busy_core [OF request_core(1)] busy_core [OF request_core(3)]
lemmas busy_init [simp] = busy_core [OF init_core(1)] busy_core [OF init_core(2)]
lemmas busy_cancel [simp] = busy_core [OF cancel_fields(1)] busy_core [OF cancel_fields(2)]
lemmas busy_note [simp] = busy_core [OF note_core]
lemmas busy_call [simp] = busy_core [OF call_core(1)]

lemma doing_fields [simp]:
  "rl_heap (set_doing s) = rl_heap s" "rl_brk (set_doing s) = rl_brk s" "rl_calls (set_doing s) = rl_calls s"
  "rl_heap (clear_doing s) = rl_heap s" "rl_brk (clear_doing s) = rl_brk s" "rl_calls (clear_doing s) = rl_calls s"
  "g_role_launch (set_doing s) = rl_status_update (\<lambda>st. st OR RL_STATUS_DOING) (g_role_launch s)"
  "g_role_launch (clear_doing s) = rl_status_update (\<lambda>st. st AND NOT RL_STATUS_DOING) (g_role_launch s)"
  by (simp_all add: set_doing_def clear_doing_def)

abbreviation prev_sta where "prev_sta s \<equiv> jl_previous_sta (g_role_launch s)"
abbreviation fol_sta where "fol_sta s \<equiv> jl_following_sta (g_role_launch s)"
abbreviation prev_ap where "prev_ap s \<equiv> jl_previous_ap (g_role_launch s)"
abbreviation fol_ap where "fol_ap s \<equiv> jl_following_ap (g_role_launch s)"

definition same_timers :: "rl_sys \<Rightarrow> rl_sys \<Rightarrow> bool" where
  "same_timers s' s \<longleftrightarrow> rl_timer (g_role_launch s') = rl_timer (g_role_launch s) \<and>
     enter_timer (g_role_launch s') = enter_timer (g_role_launch s) \<and>
     pre_entity_type (g_role_launch s') = pre_entity_type (g_role_launch s)"

text \<open>What one pass over a role does: the role is left empty and nothing is called, or an entity
  stays launched and at most one call has been made.\<close>

definition launched where
  "launched w s r s' prev fol \<longleftrightarrow> rl_own s' \<and> busy s' = 0 \<and> same_timers s' s \<and>
     (r = LAUNCH_STATUS_OVER \<and> prev s' = 0 \<and> fol s' = 0 \<and> rl_calls s' = rl_calls s \<or>
      r = LAUNCH_STATUS_CONT \<and> prev s' \<noteq> (0 :: nat) \<and> length (rl_calls s') \<le> Suc (length (rl_calls s)))"

lemma sta_calls_le: "length (sta_calls r) \<le> 1" "length (ap_calls r) \<le> 1"
  by (simp_all add: sta_calls_def ap_calls_def)

lemma free_entity_ok:
  "own4 p q r t (rl_heap s) b \<Longrightarrow> p \<noteq> 0 \<Longrightarrow> rl_free_entity p s = Some (s\<lparr>rl_heap := (rl_heap s)(p := None)\<rparr>)"
  using own_deref by (fastforce simp: rl_free_entity_def)

lemma own_deref_fol: "own4 p q r s h b \<Longrightarrow> q \<noteq> 0 \<Longrightarrow> \<exists>e. h q = Some e"
  by (rule own_deref [OF own_swap(2)])

text \<open>The second half of a pass: the previous entity has gone, the following one moves up.\<close>

lemma sta_moves_up:
  assumes own: "own4 0 (fol_sta s) (prev_ap s) (fol_ap s) (rl_heap s) (rl_brk s)" and b: "busy s = 0"
  shows "\<exists>r s'. (let pre_entity = fol_sta s; s4 = on_rl (jl_following_sta_update (\<lambda>_. 0)) s in
      if sta_open s4 then
        do { let s5 = on_rl (jl_previous_sta_update (\<lambda>_. pre_entity)) (set_doing s4);
             (ret, s6) \<leftarrow>
               (if pre_entity \<noteq> 0
                then do { e \<leftarrow> rl_heap s5 pre_entity; Some (LAUNCH_STATUS_CONT, rl_sta_request_start w (rlaunch e) s5) }
                else Some (LAUNCH_STATUS_OVER, s5));
             Some (ret, clear_doing s6) }
      else
        do { s5 \<leftarrow> (if pre_entity \<noteq> 0 then rl_free_entity pre_entity s4 else Some s4);
             Some (LAUNCH_STATUS_OVER, on_rl (jl_previous_sta_update (\<lambda>_. 0)) s5) }) = Some (r, s') \<and>
    launched w s r s' prev_sta fol_sta \<and> prev_ap s' = prev_ap s \<and> fol_ap s' = fol_ap s"
proof (cases "fol_sta s = 0")
  case True
  then show ?thesis
    using own b sta_calls_le
    by (auto simp: Let_def launched_def same_timers_def rl_own_def busy_bits sta_open_def)
next
  case False
  then obtain e where e: "rl_heap s (fol_sta s) = Some e" using own_deref_fol [OF own] by blast
  have up: "own4 (fol_sta s) 0 (prev_ap s) (fol_ap s) (rl_heap s) (rl_brk s)" by (rule own_swap(2) [OF own])
  show ?thesis
    using False e b up own_free [OF up False] sta_calls_le(1) [of "rlaunch e"] free_entity_ok [OF up False]
    by (auto simp: Let_def launched_def same_timers_def rl_own_def busy_bits rl_free_entity_def)
qed

lemma launch_sta_ok:
  assumes own: "rl_own s" and b: "busy s = 0"
  shows "\<exists>r s'. rl_launch_sta w s = Some (r, s') \<and> launched w s r s' prev_sta fol_sta \<and> prev_ap s' = prev_ap s \<and> fol_ap s' = fol_ap s"
proof (cases "prev_sta s = 0")
  case True
  have o: "own4 0 (fol_sta s) (prev_ap s) (fol_ap s) (rl_heap s) (rl_brk s)" using own True by (simp add: rl_own_def)
  show ?thesis
  proof (cases "fol_sta s = 0")
    case True
    then show ?thesis using \<open>prev_sta s = 0\<close> own b by (simp add: rl_launch_sta_def launched_def same_timers_def)
  next
    case False
    then obtain e where e: "rl_heap s (fol_sta s) = Some e" using own_deref_fol [OF o] by blast
    have up: "own4 (fol_sta s) 0 (prev_ap s) (fol_ap s) (rl_heap s) (rl_brk s)" by (rule own_swap(2) [OF o])
    show ?thesis
      using False True e b up own_free [OF up False] sta_calls_le(1) [of "rlaunch e"]
      by (auto simp: rl_launch_sta_def Let_def launched_def same_timers_def rl_own_def busy_bits rl_free_entity_def)
  qed
next
  case False
  obtain p where p: "rl_heap s (prev_sta s) = Some p" using own_deref False own by (fastforce simp: rl_own_def)
  obtain s1 where s1: "(if fol_sta s \<noteq> 0 then
        do { entity \<leftarrow> rl_heap s (fol_sta s);
             Some (if launch_type entity = LAUNCH_TYPE_ASAP then rl_pre_sta_set_cancel s else s) }
      else Some s) = Some s1" and c1: "rl_core s1 = rl_core s" "rl_calls s1 = rl_calls s"
  proof (cases "fol_sta s = 0")
    case True with that show ?thesis by simp
  next
    case f: False
    obtain e where "rl_heap s (fol_sta s) = Some e" using own_deref_fol f own by (fastforce simp: rl_own_def)
    with f that show ?thesis by (cases "launch_type e = LAUNCH_TYPE_ASAP") auto
  qed
  define s2 where "s2 = (if relaunch_limit p \<noteq> 0 \<and> relaunch_limit p \<le> launch_count p then rl_pre_sta_set_cancel s1 else s1)"
  have c2: "rl_core s2 = rl_core s" "rl_calls s2 = rl_calls s" using c1 by (simp_all add: s2_def)
  note f1 = core_fields [OF c1(1)] and f2 = core_fields [OF c2(1)]
  define s3 where "s3 = s2\<lparr>rl_heap := (rl_heap s2)(prev_sta s2 := None)\<rparr>"
  have o2: "own4 (prev_sta s2) (fol_sta s2) (prev_ap s2) (fol_ap s2) (rl_heap s2) (rl_brk s2)"
    using own f2 by (simp add: rl_own_def)
  have n2: "prev_sta s2 \<noteq> 0" using False f2 by simp
  have fr: "rl_free_entity (prev_sta s2) s2 = Some s3" unfolding s3_def by (rule free_entity_ok [OF o2 n2])
  have o3: "own4 0 (fol_sta s3) (prev_ap s3) (fol_ap s3) (rl_heap s3) (rl_brk s3)"
    using own_free [OF o2 n2] by (simp add: s3_def)
  have b3: "busy s3 = 0" using b busy_core [OF c2(1)] by (simp add: s3_def)
  obtain r s' where up: "(let pre_entity = fol_sta s3; s4 = on_rl (jl_following_sta_update (\<lambda>_. 0)) s3 in
      if sta_open s4 then
        do { let s5 = on_rl (jl_previous_sta_update (\<lambda>_. pre_entity)) (set_doing s4);
             (ret, s6) \<leftarrow>
               (if pre_entity \<noteq> 0
                then do { e \<leftarrow> rl_heap s5 pre_entity; Some (LAUNCH_STATUS_CONT, rl_sta_request_start w (rlaunch e) s5) }
                else Some (LAUNCH_STATUS_OVER, s5));
             Some (ret, clear_doing s6) }
      else
        do { s5 \<leftarrow> (if pre_entity \<noteq> 0 then rl_free_entity pre_entity s4 else Some s4);
             Some (LAUNCH_STATUS_OVER, on_rl (jl_previous_sta_update (\<lambda>_. 0)) s5) }) = Some (r, s')"
    "launched w s3 r s' prev_sta fol_sta" "prev_ap s' = prev_ap s3" "fol_ap s' = fol_ap s3"
    using sta_moves_up [OF o3 b3, of w] by blast
  have l3: "launched w s r s' prev_sta fol_sta"
    using up(2) c2 f2 by (simp add: launched_def same_timers_def s3_def)
  have l2: "launched w s LAUNCH_STATUS_CONT s2 prev_sta fol_sta"
    using own b False c2 f2 rl_own_core [OF c2(1)] busy_core [OF c2(1)] by (simp add: launched_def same_timers_def)
  have pp: "rl_heap s1 (prev_sta s1) = Some p" using p f1 by simp
  have e: "rl_launch_sta w s = (if rl_sta_may_next_launch s2 \<noteq> 0 then Some (r, s') else Some (LAUNCH_STATUS_CONT, s2))"
    unfolding rl_launch_sta_def
    using False up(1) by (simp only: if_False s1 pp Option.bind.simps Let_def s2_def [symmetric] rl_pre_sta_stop_launch_def fr)
  show ?thesis
    using e l2 l3 up(3,4) f2 by (cases "rl_sta_may_next_launch s2 = 0") (simp_all add: s3_def)
qed


lemma ap_moves_up:
  assumes own: "own4 0 (fol_ap s) (prev_sta s) (fol_sta s) (rl_heap s) (rl_brk s)" and b: "busy s = 0"
  shows "\<exists>r s'. (let pre_entity = fol_ap s; s4 = on_rl (jl_following_ap_update (\<lambda>_. 0)) s in
      if ap_open s4 then
        do { let s5 = on_rl (jl_previous_ap_update (\<lambda>_. pre_entity)) (set_doing s4);
             (ret, s6) \<leftarrow>
               (if pre_entity \<noteq> 0
                then do { let s5' = rl_pre_ap_init s5; e \<leftarrow> rl_heap s5' pre_entity;
                          Some (LAUNCH_STATUS_CONT, rl_ap_request_start w (rlaunch e) s5') }
                else Some (LAUNCH_STATUS_OVER, s5));
             Some (ret, clear_doing s6) }
      else
        do { s5 \<leftarrow> (if pre_entity \<noteq> 0 then rl_free_entity pre_entity s4 else Some s4);
             Some (LAUNCH_STATUS_OVER, on_rl (jl_previous_ap_update (\<lambda>_. 0)) s5) }) = Some (r, s') \<and>
    launched w s r s' prev_ap fol_ap \<and> prev_sta s' = prev_sta s \<and> fol_sta s' = fol_sta s"
proof (cases "fol_ap s = 0")
  case True
  then show ?thesis
    using own_swap(1) [OF own] b
    by (auto simp: Let_def launched_def same_timers_def rl_own_def busy_bits)
next
  case False
  then obtain e where e: "rl_heap s (fol_ap s) = Some e" using own_deref_fol [OF own] by blast
  have up: "own4 (fol_ap s) 0 (prev_sta s) (fol_sta s) (rl_heap s) (rl_brk s)" by (rule own_swap(2) [OF own])
  show ?thesis
    using False e b own_swap(1) [OF up] own_swap(1) [OF own_free [OF up False]] sta_calls_le(2) [of "rlaunch e"]
    by (auto simp: Let_def launched_def same_timers_def rl_own_def busy_bits rl_free_entity_def)
qed

lemma launch_ap_ok:
  assumes own: "rl_own s" and b: "busy s = 0"
  shows "\<exists>r s'. rl_launch_ap w s = Some (r, s') \<and> launched w s r s' prev_ap fol_ap \<and> prev_sta s' = prev_sta s \<and> fol_sta s' = fol_sta s"
proof (cases "prev_ap s = 0")
  case True
  have o: "own4 0 (fol_ap s) (prev_sta s) (fol_sta s) (rl_heap s) (rl_brk s)" using own True own_swap(1) by (fastforce simp: rl_own_def)
  show ?thesis
  proof (cases "fol_ap s = 0")
    case True
    then show ?thesis using \<open>prev_ap s = 0\<close> own b by (simp add: rl_launch_ap_def launched_def same_timers_def)
  next
    case False
    then obtain e where e: "rl_heap s (fol_ap s) = Some e" using own_deref_fol [OF o] by blast
    have up: "own4 (fol_ap s) 0 (prev_sta s) (fol_sta s) (rl_heap s) (rl_brk s)" by (rule own_swap(2) [OF o])
    show ?thesis
      using False True e b own_swap(1) [OF up] own_swap(1) [OF own_free [OF up False]] sta_calls_le(2) [of "rlaunch e"]
      by (auto simp: rl_launch_ap_def Let_def launched_def same_timers_def rl_own_def busy_bits rl_free_entity_def)
  qed
next
  case False
  have o: "own4 (prev_ap s) (fol_ap s) (prev_sta s) (fol_sta s) (rl_heap s) (rl_brk s)" using own own_swap(1) by (simp add: rl_own_def)
  obtain p where p: "rl_heap s (prev_ap s) = Some p" using own_deref [OF o False] by blast
  obtain k s1 where s1: "(if fol_ap s \<noteq> 0 then
        do { entity \<leftarrow> rl_heap s (fol_ap s);
             Some (if launch_type entity = LAUNCH_TYPE_ASAP then (1, rl_pre_ap_set_cancel s) else (0 :: u32, s)) }
      else Some (0, s)) = Some (k, s1)" and c1: "rl_core s1 = rl_core s" "rl_calls s1 = rl_calls s"
  proof (cases "fol_ap s = 0")
    case True with that show ?thesis by simp
  next
    case f: False
    obtain e where "rl_heap s (fol_ap s) = Some e" using own_deref_fol [OF o f] by blast
    with f that show ?thesis by (cases "launch_type e = LAUNCH_TYPE_ASAP") auto
  qed
  define k2 where "k2 = (if relaunch_limit p \<noteq> 0 \<and> relaunch_limit p \<le> launch_count p then 1 else k)"
  define s2 where "s2 = (if relaunch_limit p \<noteq> 0 \<and> relaunch_limit p \<le> launch_count p then rl_pre_ap_set_cancel s1 else s1)"
  have ks: "(if relaunch_limit p \<noteq> 0 \<and> relaunch_limit p \<le> launch_count p then (1, rl_pre_ap_set_cancel s1) else (k, s1)) = (k2, s2)"
    by (simp add: k2_def s2_def)
  have c2: "rl_core s2 = rl_core s" "rl_calls s2 = rl_calls s" using c1 by (simp_all add: s2_def)
  note f1 = core_fields [OF c1(1)] and f2 = core_fields [OF c2(1)]
  define s3 where "s3 = s2\<lparr>rl_heap := (rl_heap s2)(prev_ap s2 := None)\<rparr>"
  have o2: "own4 (prev_ap s2) (fol_ap s2) (prev_sta s2) (fol_sta s2) (rl_heap s2) (rl_brk s2)"
    using o f2 by simp
  have n2: "prev_ap s2 \<noteq> 0" using False f2 by simp
  have fr: "rl_free_entity (prev_ap s2) s2 = Some s3" unfolding s3_def by (rule free_entity_ok [OF o2 n2])
  have o3: "own4 0 (fol_ap s3) (prev_sta s3) (fol_sta s3) (rl_heap s3) (rl_brk s3)"
    using own_free [OF o2 n2] by (simp add: s3_def)
  have b3: "busy s3 = 0" using b busy_core [OF c2(1)] by (simp add: s3_def)
  obtain r s' where up: "(let pre_entity = fol_ap s3; s4 = on_rl (jl_following_ap_update (\<lambda>_. 0)) s3 in
      if ap_open s4 then
        do { let s5 = on_rl (jl_previous_ap_update (\<lambda>_. pre_entity)) (set_doing s4);
             (ret, s6) \<leftarrow>
               (if pre_entity \<noteq> 0
                then do { let s5' = rl_pre_ap_init s5; e \<leftarrow> rl_heap s5' pre_entity;
                          Some (LAUNCH_STATUS_CONT, rl_ap_request_start w (rlaunch e) s5') }
                else Some (LAUNCH_STATUS_OVER, s5));
             Some (ret, clear_doing s6) }
      else
        do { s5 \<leftarrow> (if pre_entity \<noteq> 0 then rl_free_entity pre_entity s4 else Some s4);
             Some (LAUNCH_STATUS_OVER, on_rl (jl_previous_ap_update (\<lambda>_. 0)) s5) }) = Some (r, s')"
    "launched w s3 r s' prev_ap fol_ap" "prev_sta s' = prev_sta s3" "fol_sta s' = fol_sta s3"
    using ap_moves_up [OF o3 b3, of w] by blast
  have l3: "launched w s r s' prev_ap fol_ap"
    using up(2) c2 f2 by (simp add: launched_def same_timers_def s3_def)
  have l2: "launched w s LAUNCH_STATUS_CONT s2 prev_ap fol_ap"
    using own b False c2 f2 rl_own_core [OF c2(1)] busy_core [OF c2(1)] by (simp add: launched_def same_timers_def)
  have pp: "rl_heap s1 (prev_ap s1) = Some p" using p f1 by simp
  have e: "rl_launch_ap w s = (if rl_ap_may_next_launch k2 s2 \<noteq> 0 then Some (r, s') else Some (LAUNCH_STATUS_CONT, s2))"
    unfolding rl_launch_ap_def
    using False up(1) by (simp only: if_False s1 pp Option.bind.simps split_conv Let_def ks rl_pre_ap_stop_launch_def fr)
  show ?thesis
    using e l2 l3 up(3,4) f2 by (cases "rl_ap_may_next_launch k2 s2 = 0") (simp_all add: s3_def)
qed

subsection \<open>The invariant\<close>

definition rl_inv :: "rl_sys \<Rightarrow> bool" where
  "rl_inv s \<longleftrightarrow> rl_own s \<and> busy s = 0 \<and>
     rl_timer (g_role_launch s) \<noteq> T_none \<and> enter_timer (g_role_launch s) \<noteq> T_none \<and>
     (prev_sta s \<noteq> 0 \<or> fol_sta s \<noteq> 0 \<or> prev_ap s \<noteq> 0 \<or> fol_ap s \<noteq> 0 \<longrightarrow>
        pre_entity_type (g_role_launch s) = PRE_ENTITY_STA \<or> pre_entity_type (g_role_launch s) = PRE_ENTITY_AP) \<and>
     (fol_sta s \<noteq> 0 \<or> fol_ap s \<noteq> 0 \<longrightarrow> rl_timer (g_role_launch s) = T_running)"

lemma rl_inv_core:
  assumes "rl_core s' = rl_core s"
  shows "rl_inv s' = rl_inv s"
  unfolding rl_inv_def rl_own_core [OF assms] busy_core [OF assms] core_fields [OF assms] ..

lemma types_differ [simp]: "PRE_ENTITY_STA \<noteq> PRE_ENTITY_AP" "PRE_ENTITY_AP \<noteq> PRE_ENTITY_STA"
  "PRE_ENTITY_STA \<noteq> PRE_ENTITY_IDLE" "PRE_ENTITY_AP \<noteq> PRE_ENTITY_IDLE" "LAUNCH_STATUS_OVER \<noteq> LAUNCH_STATUS_CONT"
  "LAUNCH_STATUS_CONT \<noteq> LAUNCH_STATUS_OVER"
  by (simp_all add: PRE_ENTITY_STA_def PRE_ENTITY_AP_def PRE_ENTITY_IDLE_def LAUNCH_STATUS_OVER_def LAUNCH_STATUS_CONT_def)

lemma own_type [simp]: "rl_own (on_rl (pre_entity_type_update f) s) = rl_own s" "rl_own (on_rl (rl_timer_update h) s) = rl_own s"
  "rl_own (on_rl (enter_timer_update h) s) = rl_own s" "rl_own (on_rl (rl_status_update k) s) = rl_own s"
  by (simp_all add: rl_own_def)

definition typed :: "rl_sys \<Rightarrow> bool" where
  "typed s \<longleftrightarrow> pre_entity_type (g_role_launch s) \<in> {PRE_ENTITY_IDLE, PRE_ENTITY_STA, PRE_ENTITY_AP}"

lemma launch_handler_ok:
  assumes own: "rl_own s" and b: "busy s = 0" and tm: "rl_timer (g_role_launch s) \<noteq> T_none" "enter_timer (g_role_launch s) \<noteq> T_none"
    and ty: "prev_sta s \<noteq> 0 \<or> fol_sta s \<noteq> 0 \<or> prev_ap s \<noteq> 0 \<or> fol_ap s \<noteq> 0 \<Longrightarrow>
        pre_entity_type (g_role_launch s) = PRE_ENTITY_STA \<or> pre_entity_type (g_role_launch s) = PRE_ENTITY_AP"
    and td: "typed s"
  shows "\<exists>s'. rl_launch_handler w s = Some s' \<and> rl_inv s' \<and> typed s' \<and> length (rl_calls s') \<le> Suc (length (rl_calls s))"
proof -
  consider (ap) "pre_entity_type (g_role_launch s) = PRE_ENTITY_AP" | (sta) "pre_entity_type (g_role_launch s) = PRE_ENTITY_STA"
    | (idle) "prev_sta s = 0" "fol_sta s = 0" "prev_ap s = 0" "fol_ap s = 0"
      "pre_entity_type (g_role_launch s) \<noteq> PRE_ENTITY_STA" "pre_entity_type (g_role_launch s) \<noteq> PRE_ENTITY_AP"
    using ty by blast
  then show ?thesis
  proof cases
    case ap
    obtain r s1 where 1: "rl_launch_ap w s = Some (r, s1)" "launched w s r s1 prev_ap fol_ap" "prev_sta s1 = prev_sta s" "fol_sta s1 = fol_sta s"
      using launch_ap_ok [OF own b] by blast
    let ?t = "on_rl (pre_entity_type_update (\<lambda>_. PRE_ENTITY_STA)) s1"
    obtain q s2 where 2: "rl_launch_sta w ?t = Some (q, s2)" "launched w ?t q s2 prev_sta fol_sta" "prev_ap s2 = prev_ap ?t" "fol_ap s2 = fol_ap ?t"
      using launch_sta_ok [of ?t w] 1(2) by (auto simp: launched_def)
    show ?thesis
      using ap 1 2 tm
      by (auto simp: rl_launch_handler_def launched_def same_timers_def rl_inv_def typed_def rl_relaunch_chance_def rtos_start_oneshot_timer_def)
  next
    case sta
    obtain r s1 where 1: "rl_launch_sta w s = Some (r, s1)" "launched w s r s1 prev_sta fol_sta" "prev_ap s1 = prev_ap s" "fol_ap s1 = fol_ap s"
      using launch_sta_ok [OF own b] by blast
    let ?t = "on_rl (pre_entity_type_update (\<lambda>_. PRE_ENTITY_AP)) s1"
    obtain q s2 where 2: "rl_launch_ap w ?t = Some (q, s2)" "launched w ?t q s2 prev_ap fol_ap" "prev_sta s2 = prev_sta ?t" "fol_sta s2 = fol_sta ?t"
      using launch_ap_ok [of ?t w] 1(2) by (auto simp: launched_def)
    show ?thesis
      using sta 1 2 tm
      by (auto simp: rl_launch_handler_def launched_def same_timers_def rl_inv_def typed_def rl_relaunch_chance_def rtos_start_oneshot_timer_def)
  next
    case idle
    then show ?thesis using own b tm td by (simp add: rl_launch_handler_def rl_inv_def)
  qed
qed


definition rl_mid :: "rl_sys \<Rightarrow> bool" where
  "rl_mid s \<longleftrightarrow> rl_own s \<and> busy s = 1 \<and>
     rl_timer (g_role_launch s) \<noteq> T_none \<and> enter_timer (g_role_launch s) \<noteq> T_none \<and>
     (prev_sta s \<noteq> 0 \<or> fol_sta s \<noteq> 0 \<or> prev_ap s \<noteq> 0 \<or> fol_ap s \<noteq> 0 \<longrightarrow>
        pre_entity_type (g_role_launch s) = PRE_ENTITY_STA \<or> pre_entity_type (g_role_launch s) = PRE_ENTITY_AP) \<and>
     (fol_sta s \<noteq> 0 \<or> fol_ap s \<noteq> 0 \<longrightarrow> rl_timer (g_role_launch s) = T_running) \<and>
     pre_entity_type (g_role_launch s) \<in> {PRE_ENTITY_IDLE, PRE_ENTITY_STA, PRE_ENTITY_AP}"

lemma own_alloc_at:
  assumes "own4 p q r t h b"
  shows "p = 0 \<Longrightarrow> own4 b q r t (h(b \<mapsto> e)) (Suc b)" "q = 0 \<Longrightarrow> own4 p b r t (h(b \<mapsto> e)) (Suc b)"
    "r = 0 \<Longrightarrow> own4 p q b t (h(b \<mapsto> e)) (Suc b)" "t = 0 \<Longrightarrow> own4 p q r b (h(b \<mapsto> e)) (Suc b)" "0 < b"
proof -
  note sw = own_swap(1) and sx = own_swap(2)
  show "p = 0 \<Longrightarrow> own4 b q r t (h(b \<mapsto> e)) (Suc b)" using own_alloc assms by blast
  show "q = 0 \<Longrightarrow> own4 p b r t (h(b \<mapsto> e)) (Suc b)" by (rule sx, rule own_alloc) (use sx [OF assms] in simp)
  show "r = 0 \<Longrightarrow> own4 p q b t (h(b \<mapsto> e)) (Suc b)" by (rule sw, rule own_alloc) (use sw [OF assms] in simp)
  show "t = 0 \<Longrightarrow> own4 p q r b (h(b \<mapsto> e)) (Suc b)"
    by (rule sw, rule sx, rule own_alloc) (use sx [OF sw [OF assms]] in simp)
  show "0 < b" using assms by (simp add: own4_def)
qed

lemma sta_request_ok:
  assumes m: "rl_mid s"
  shows "\<exists>ret s'. sta_request_enter w p c s = Some (ret, s') \<and> rl_mid s' \<and>
    (rl_calls s' = rl_calls s \<or> prev_sta s' \<noteq> 0 \<and> length (rl_calls s') \<le> Suc (length (rl_calls s)))"
proof -
  have o: "own4 (prev_sta s) (fol_sta s) (prev_ap s) (fol_ap s) (rl_heap s) (rl_brk s)" and b: "busy s = 1"
    using m by (simp_all add: rl_mid_def rl_own_def)
  note a = own_alloc_at [OF o]
  consider (direct) "prev_ap s = 0" "prev_sta s = 0" "\<not> st_hold (set_doing s)"
    | (queue) "\<not> (prev_ap s = 0 \<and> prev_sta s = 0 \<and> \<not> st_hold (set_doing s))" "fol_sta s = 0" "\<not> st_hold (set_doing s)"
    | (full) "\<not> (prev_ap s = 0 \<and> prev_sta s = 0 \<and> \<not> st_hold (set_doing s))" "\<not> (fol_sta s = 0 \<and> \<not> st_hold (set_doing s))"
    by metis
  then show ?thesis
  proof cases
    case direct
    then show ?thesis
      using m a(1) [OF direct(2)] a(5) sta_calls_le(1) [of p]
      by (simp add: sta_request_enter_def rl_alloc_entity_def Let_def rl_mid_def rl_own_def busy_bits b type_if_idle_def) blast
  next
    case queue
    then have n: "\<not> (prev_ap s = 0 \<and> prev_sta s = 0)" by simp
    show ?thesis
      using m a(2) [OF queue(2)] a(5) queue(3)
      by (simp add: n queue(2) sta_request_enter_def rl_alloc_entity_def Let_def rl_mid_def rl_own_def busy_bits b type_if_idle_def
          rl_start_def rtos_stop_oneshot_timer_def rtos_start_oneshot_timer_def) blast
  next
    case full
    have "sta_request_enter w p c s = do { s2 \<leftarrow> rl_start (set_doing s); Some (0, clear_doing (type_if_idle 0 PRE_ENTITY_STA s2)) }"
      using full by (auto simp: sta_request_enter_def Let_def)
    then show ?thesis
      using m o
      by (simp add: rl_mid_def rl_own_def busy_bits b type_if_idle_def
          rl_start_def rtos_stop_oneshot_timer_def rtos_start_oneshot_timer_def)
  qed
qed

lemma ap_request_ok:
  assumes m: "rl_mid s"
  shows "\<exists>ret s'. ap_request_enter w p c s = Some (ret, s') \<and> rl_mid s' \<and>
    (rl_calls s' = rl_calls s \<or> prev_sta s = 0 \<and> length (rl_calls s') \<le> Suc (length (rl_calls s)))"
proof -
  have o: "own4 (prev_sta s) (fol_sta s) (prev_ap s) (fol_ap s) (rl_heap s) (rl_brk s)" and b: "busy s = 1"
    using m by (simp_all add: rl_mid_def rl_own_def)
  note a = own_alloc_at [OF o]
  consider (direct) "prev_ap s = 0" "prev_sta s = 0"
    | (queue) "\<not> (prev_ap s = 0 \<and> prev_sta s = 0)" "fol_ap s = 0"
    | (full) "\<not> (prev_ap s = 0 \<and> prev_sta s = 0)" "fol_ap s \<noteq> 0"
    by metis
  then show ?thesis
  proof cases
    case direct
    then show ?thesis
      using m a(3) [OF direct(1)] a(5) sta_calls_le(2) [of p]
      by (simp add: ap_request_enter_def rl_alloc_entity_def Let_def rl_mid_def rl_own_def b type_if_idle_def) blast
  next
    case queue
    then have n: "\<not> (prev_ap s = 0 \<and> prev_sta s = 0)" by simp
    show ?thesis
      using m a(4) [OF queue(2)] a(5)
      by (simp add: n queue(2) ap_request_enter_def rl_alloc_entity_def Let_def rl_mid_def rl_own_def b type_if_idle_def
          rl_start_def rtos_stop_oneshot_timer_def rtos_start_oneshot_timer_def) blast
  next
    case full
    then show ?thesis
      using m o
      by (auto simp: ap_request_enter_def Let_def rl_mid_def rl_own_def b type_if_idle_def
          rl_start_def rtos_stop_oneshot_timer_def rtos_start_oneshot_timer_def)
  qed
qed

lemma mid_of_inv:
  assumes "rl_inv s" "typed s"
  shows "rl_mid (on_rl (rl_status_update (\<lambda>st. st OR RL_STATUS_PENDING)) s)"
  using assms by (simp add: rl_inv_def rl_mid_def busy_bits typed_def)

lemma inv_of_mid:
  assumes "rl_mid s"
  shows "rl_inv (on_rl (rl_status_update (\<lambda>st. st AND NOT RL_STATUS_PENDING)) s)"
    "typed (on_rl (rl_status_update (\<lambda>st. st AND NOT RL_STATUS_PENDING)) s)"
proof -
  have b: "busy (on_rl (rl_status_update (\<lambda>st. st AND NOT RL_STATUS_PENDING)) s) = 0"
    using assms by (simp only: busy_bits rl_mid_def) simp
  show "rl_inv (on_rl (rl_status_update (\<lambda>st. st AND NOT RL_STATUS_PENDING)) s)"
    using assms b by (simp add: rl_inv_def rl_mid_def)
  show "typed (on_rl (rl_status_update (\<lambda>st. st AND NOT RL_STATUS_PENDING)) s)"
    using assms by (simp add: typed_def rl_mid_def)
qed

lemma other_core [simp]: "rl_core (s\<lparr>g_rl_socket := k\<rparr>) = rl_core s" "rl_core (s\<lparr>g_sta_cache := c\<rparr>) = rl_core s"
  by (simp_all add: rl_core_def low_def)

lemma typed_core:
  assumes "rl_core s' = rl_core s"
  shows "typed s' = typed s"
  unfolding typed_def core_fields [OF assms] ..

lemma rl_mid_core:
  assumes "rl_core s' = rl_core s"
  shows "rl_mid s' = rl_mid s"
  unfolding rl_mid_def rl_own_core [OF assms] busy_core [OF assms] core_fields [OF assms] ..

lemma enter_handler_ok:
  assumes i: "rl_inv s" and t: "typed s"
  shows "\<exists>s'. rl_enter_handler w malloc_ok s = Some s' \<and> rl_inv s' \<and> typed s' \<and> length (rl_calls s') \<le> Suc (length (rl_calls s))"
proof -
  let ?k = "g_rl_socket s" and ?s1 = "s\<lparr>g_rl_socket := zero_socket\<rparr>"
  let ?s2 = "on_rl (rl_status_update (\<lambda>st. st OR RL_STATUS_PENDING)) ?s1"
  have i1: "rl_inv ?s1" "typed ?s1" using i t by (simp_all add: rl_inv_core [OF other_core(1)] typed_core [OF other_core(1)])
  have m2: "rl_mid ?s2" by (rule mid_of_inv [OF i1])
  obtain s3 where s3: "(if sta_req_flag ?k \<noteq> 0 then
        do { (ret, s') \<leftarrow> sta_request_enter w (sta_param ?k) (sta_completion ?k) ?s2;
             Some (if ret \<noteq> 0 \<and> req_type (sta_param ?k) = LAUNCH_REQ_STA
                   then s'\<lparr>g_sta_cache := \<lparr>cache_req_flag = 1, cache_param = sta_param ?k, cache_completion = sta_completion ?k\<rparr>\<rparr>
                   else s') }
      else Some ?s2) = Some s3" and m3: "rl_mid s3"
    and c3: "rl_calls s3 = rl_calls s \<or> prev_sta s3 \<noteq> 0 \<and> length (rl_calls s3) \<le> Suc (length (rl_calls s))"
  proof (cases "sta_req_flag ?k = 0")
    case True with that m2 show ?thesis by simp
  next
    case False
    obtain ret s' where "sta_request_enter w (sta_param ?k) (sta_completion ?k) ?s2 = Some (ret, s')" "rl_mid s'"
      "rl_calls s' = rl_calls ?s2 \<or> prev_sta s' \<noteq> 0 \<and> length (rl_calls s') \<le> Suc (length (rl_calls ?s2))"
      using sta_request_ok [OF m2] by blast
    with False that show ?thesis
      by (cases "ret \<noteq> 0 \<and> req_type (sta_param ?k) = LAUNCH_REQ_STA") (simp_all add: rl_mid_core [OF other_core(2)])
  qed
  obtain s4 where s4: "(if ap_req_flag ?k \<noteq> 0
      then do { (_, s') \<leftarrow> ap_request_enter w (ap_param ?k) (ap_completion ?k) s3; Some s' } else Some s3) = Some s4"
    and m4: "rl_mid s4" and c4: "rl_calls s4 = rl_calls s3 \<or> prev_sta s3 = 0 \<and> length (rl_calls s4) \<le> Suc (length (rl_calls s3))"
  proof (cases "ap_req_flag ?k = 0")
    case True with that m3 show ?thesis by simp
  next
    case False
    obtain ret s' where "ap_request_enter w (ap_param ?k) (ap_completion ?k) s3 = Some (ret, s')" "rl_mid s'"
      "rl_calls s' = rl_calls s3 \<or> prev_sta s3 = 0 \<and> length (rl_calls s') \<le> Suc (length (rl_calls s3))"
      using ap_request_ok [OF m3] by blast
    with False that show ?thesis by simp
  qed
  have "length (rl_calls s4) \<le> Suc (length (rl_calls s))" using c3 c4 by auto
  then show ?thesis
    using inv_of_mid [OF m4] i1 i t
    unfolding rl_enter_handler_def Let_def by (simp only: s3 s4 Option.bind.simps) simp
qed

lemma enter_timer_inv:
  assumes "rl_inv s" "t \<noteq> T_none"
  shows "rl_inv (on_rl (enter_timer_update (\<lambda>_. t)) s)"
  using assms by (simp add: rl_inv_def)

lemma restart_ok:
  assumes "rl_inv s" "typed s"
  shows "\<exists>s'. restart_enter_timer s = Some s' \<and> rl_inv s' \<and> typed s' \<and> rl_calls s' = rl_calls s \<and>
    enter_timer (g_role_launch s') = T_running \<and> g_rl_socket s' = g_rl_socket s"
  using assms enter_timer_inv [OF assms(1), of T_running]
  by (simp add: restart_enter_timer_def rtos_stop_oneshot_timer_def rtos_start_oneshot_timer_def rl_inv_def typed_def)

lemma request_enter_ok:
  assumes "rl_inv s" "typed s"
  shows "\<exists>s'. rl_sta_request_enter_handle p c s = Some s' \<and> rl_inv s' \<and> typed s' \<and> rl_calls s' = rl_calls s"
    "\<exists>s'. rl_sta_request_enter p c s = Some s' \<and> rl_inv s' \<and> typed s' \<and> rl_calls s' = rl_calls s"
    "\<exists>s'. rl_ap_request_enter p c s = Some s' \<and> rl_inv s' \<and> typed s' \<and> rl_calls s' = rl_calls s"
proof -
  have sk: "rl_inv (z\<lparr>g_rl_socket := k\<rparr>)" "typed (z\<lparr>g_rl_socket := k\<rparr>)" if "rl_inv z" "typed z" for z k
    using that by (simp_all add: rl_inv_core [OF other_core(1)] typed_core [OF other_core(1)])
  have h: "\<exists>s'. rl_sta_request_enter_handle p c z = Some s' \<and> rl_inv s' \<and> typed s' \<and> rl_calls s' = rl_calls z"
    if "rl_inv z" "typed z" for z
    using restart_ok [OF sk [OF that]] by (fastforce simp: rl_sta_request_enter_handle_def)
  show "\<exists>s'. rl_sta_request_enter_handle p c s = Some s' \<and> rl_inv s' \<and> typed s' \<and> rl_calls s' = rl_calls s"
    by (rule h [OF assms])
  have r: "rl_core (rl_status_reset_st_state x s) = rl_core s" "rl_calls (rl_status_reset_st_state x s) = rl_calls s" for x
    using note_core [of "Reset_st x"] note_calls [of "Reset_st x"] by simp_all
  show "\<exists>s'. rl_sta_request_enter p c s = Some s' \<and> rl_inv s' \<and> typed s' \<and> rl_calls s' = rl_calls s"
    using h [of "rl_status_reset_st_state RL_ST_STATUS_RESTART_HOLD s"] assms
    by (simp add: rl_sta_request_enter_def r rl_inv_core [OF r(1)] typed_core [OF r(1)])
  show "\<exists>s'. rl_ap_request_enter p c s = Some s' \<and> rl_inv s' \<and> typed s' \<and> rl_calls s' = rl_calls s"
    using restart_ok [OF sk [OF assms]] by (fastforce simp: rl_ap_request_enter_def)
qed

lemma cache_enter_ok:
  assumes i: "rl_inv s" "typed s"
  shows "\<exists>r s'. rl_sta_cache_request_enter m s = Some (r, s') \<and> rl_inv s' \<and> typed s' \<and> rl_calls s' = rl_calls s"
proof -
  have r: "rl_core (rl_status_reset_private_state x s) = rl_core s" "rl_calls (rl_status_reset_private_state x s) = rl_calls s" for x
    using note_core [of "Reset_priv x"] note_calls [of "Reset_priv x"] by simp_all
  have p: "rl_inv (rl_status_reset_private_state x s)" "typed (rl_status_reset_private_state x s)" for x
    using i by (simp_all add: rl_inv_core [OF r(1)] typed_core [OF r(1)])
  have k: "rl_inv (z\<lparr>g_sta_cache := zero_cache\<rparr>)" "typed (z\<lparr>g_sta_cache := zero_cache\<rparr>)" if "rl_inv z" "typed z" for z
    using that by (simp_all add: rl_inv_core [OF other_core(2)] typed_core [OF other_core(2)])
  let ?z = "if rl_status (g_role_launch s) AND RL_PRIV_STATUS_STA_ADV \<noteq> 0 then rl_status_reset_private_state RL_PRIV_STATUS_STA_ADV s else s"
  have z: "rl_inv ?z" "typed ?z" "rl_calls ?z = rl_calls s" using i p r by simp_all
  show ?thesis
    using request_enter_ok(1) [OF z(1,2), of "cache_param (g_sta_cache ?z)" "cache_completion (g_sta_cache ?z)"]
      request_enter_ok(2) [OF p, of "zero_req\<lparr>req_type := LAUNCH_REQ_DELIF_STA\<rparr>" 0 RL_PRIV_STATUS_STA_ADV] z i r(2)
    by (auto simp: rl_sta_cache_request_enter_def Let_def k)
qed


lemma rl_act_ok:
  assumes i: "rl_inv s" and t: "typed s"
  shows "\<exists>s'. rl_act w a s = Some s' \<and> rl_inv s' \<and> typed s' \<and> length (rl_calls s') \<le> Suc (length (rl_calls s))"
proof (cases a)
  case (A_note n)
  then show ?thesis using i t by (simp add: rl_inv_core [OF note_core] typed_core [OF note_core])
next
  case (A_sta p c)
  then show ?thesis using request_enter_ok(2) [OF i t, of p c] by auto
next
  case (A_ap p c)
  then show ?thesis using request_enter_ok(3) [OF i t, of p c] by auto
next
  case (A_cache m)
  then show ?thesis using cache_enter_ok [OF i t, of m] by auto
next
  case (A_register p)
  then show ?thesis
    using i t by (simp add: rl_sta_adv_register_cache_station_def rl_inv_core [OF other_core(2)] typed_core [OF other_core(2)])
next
  case (A_pause en)
  then show ?thesis using i t by (simp add: rl_status_set_pause_def rl_inv_def typed_def busy_bits)
next
  case A_autobcn
  then show ?thesis
    using i t by (simp add: rl_pre_ap_disable_autobcn_def Let_def rl_inv_core [OF call_core(1)] typed_core [OF call_core(1)])
next
  case (A_enter malloc_ok)
  let ?s = "on_rl (enter_timer_update (\<lambda>_. T_stopped)) s"
  have "rl_inv ?s" "typed ?s" using enter_timer_inv [OF i, of T_stopped] t by (simp_all add: typed_def)
  from enter_handler_ok [OF this, of w malloc_ok] show ?thesis using A_enter i t by auto
next
  case A_launch
  let ?s = "on_rl (rl_timer_update (\<lambda>_. T_stopped)) s"
  have "\<exists>s'. rl_launch_handler w ?s = Some s' \<and> rl_inv s' \<and> typed s' \<and> length (rl_calls s') \<le> Suc (length (rl_calls ?s))"
    by (rule launch_handler_ok) (use i t in \<open>simp_all add: rl_inv_def typed_def\<close>)
  then show ?thesis using A_launch i t by auto
qed

lemma rl_start_inv: "rl_inv (rl_init rl_boot)" "typed (rl_init rl_boot)"
  by (simp_all add: rl_init_def rl_boot_def rl_inv_def rl_own_def own4_def busy_def low_def typed_def PRE_ENTITY_IDLE_def
      rtos_init_oneshot_timer_def)

lemma rl_reach_inv: "rl_reach w s \<Longrightarrow> rl_inv s \<and> typed s"
proof (induction rule: rl_reach.induct)
  case start
  then show ?case by (simp add: rl_start_inv)
next
  case (step s a s')
  then show ?case using rl_act_ok [of s w a] by auto
qed

subsection \<open>The station is served\<close>

lemma sta_may:
  assumes "pre_sta_cancel (g_role_launch s) \<noteq> 0" "g_mrole_csa_flag s \<noteq> RL_STATUS_MROLE_CHANNEL_SWITCHING"
    "pre_sta_status (g_role_launch s) \<in> {RL_STATUS_STA_INITING, RL_STATUS_STA_SCAN_OVER, RL_STATUS_STA_CONNECTING,
       RL_STATUS_STA_DHCPING, RL_STATUS_STA_LAUNCHED, RL_STATUS_STA_LAUNCH_FAILED}"
  shows "rl_sta_may_next_launch s \<noteq> 0"
  using assms by (auto simp: rl_sta_may_next_launch_def Let_def rl_pre_sta_get_status_def)

lemma launch_sta_serves:
  assumes own: "rl_own s" and pq: "prev_sta s \<noteq> 0" "fol_sta s \<noteq> 0"
    and e: "rl_heap s (fol_sta s) = Some e" "launch_type e = LAUNCH_TYPE_ASAP"
    and csa: "g_mrole_csa_flag s \<noteq> RL_STATUS_MROLE_CHANNEL_SWITCHING" and op: "sta_open s"
    and st: "pre_sta_status (g_role_launch s) \<in> {RL_STATUS_STA_INITING, RL_STATUS_STA_SCAN_OVER, RL_STATUS_STA_CONNECTING,
       RL_STATUS_STA_DHCPING, RL_STATUS_STA_LAUNCHED, RL_STATUS_STA_LAUNCH_FAILED}"
  shows "\<exists>s'. rl_launch_sta w s = Some (LAUNCH_STATUS_CONT, s') \<and> prev_sta s' = fol_sta s \<and> fol_sta s' = 0 \<and>
    rl_calls s' = rl_calls s @ sta_calls (rlaunch e) \<and> rl_heap s' (prev_sta s) = None"
proof -
  have o: "own4 (prev_sta s) (fol_sta s) (prev_ap s) (fol_ap s) (rl_heap s) (rl_brk s)" using own by (simp add: rl_own_def)
  obtain p where p: "rl_heap s (prev_sta s) = Some p" using own_deref [OF o pq(1)] by blast
  have ne: "fol_sta s \<noteq> prev_sta s" using o pq by (auto simp: own4_def)
  let ?s1 = "rl_pre_sta_set_cancel s"
  have m: "rl_sta_may_next_launch ?s1 \<noteq> 0" "rl_sta_may_next_launch (rl_pre_sta_set_cancel ?s1) \<noteq> 0"
    by (rule sta_may; use csa st in \<open>simp add: rl_pre_sta_set_cancel_def\<close>)+
  have op1: "sta_open (on_rl (jl_following_sta_update f) (z\<lparr>rl_heap := h\<rparr>)) = sta_open z" for f z h
    by (simp add: sta_open_def)
  have op2: "sta_open (rl_pre_sta_set_cancel z) = sta_open z" for z
    by (simp add: sta_open_def rl_pre_sta_set_cancel_def)
  show ?thesis
    using pq e p ne m op
    by (simp add: rl_launch_sta_def Let_def rl_free_entity_def rl_pre_sta_stop_launch_def op1 op2)
qed

subsection \<open>Properties\<close>

text \<open>C3. From \<open>rl_init\<close> on, whatever the other modules request, report and answer, and in
  whatever order the timers fire, no step dereferences or releases a missing entity and none needs an
  uninitialised timer; the live entities are exactly those in the four slots, each in one slot (no leak,
  no double use); and between steps the launcher is idle, so the wait for \<open>rl_status_is_idle\<close>
  after a pause ends.\<close>

theorem rl_reachable_safe:
  assumes "rl_reach w s"
  shows "(\<exists>s'. rl_act w a s = Some s') \<and> rl_status_is_idle s \<and>
    dom (rl_heap s) = {prev_sta s, fol_sta s, prev_ap s, fol_ap s} - {0} \<and>
    distinct (filter ((\<noteq>) 0) [prev_sta s, fol_sta s, prev_ap s, fol_ap s])"
proof -
  have i: "rl_inv s" "typed s" using rl_reach_inv [OF assms] by simp_all
  have o: "own4 (prev_sta s) (fol_sta s) (prev_ap s) (fol_ap s) (rl_heap s) (rl_brk s)" "busy s = 0"
    using i(1) by (simp_all add: rl_inv_def rl_own_def)
  have "dom (rl_heap s) = {prev_sta s, fol_sta s, prev_ap s, fol_ap s} - {0}"
    using o(1) unfolding own4_def by (simp only: set_filter) auto
  then show ?thesis
    using rl_act_ok [OF i, of w a] o is_idle_busy [of s] unfolding own4_def by blast
qed

text \<open>C26. A queued request is never forgotten: in every reachable state in which the station or
  the access point has a following request, the launch timer runs and the role to look at is set.\<close>

theorem rl_queued_request_has_timer:
  assumes "rl_reach w s" and "fol_sta s \<noteq> 0 \<or> fol_ap s \<noteq> 0"
  shows "rl_timer (g_role_launch s) = T_running \<and>
    (pre_entity_type (g_role_launch s) = PRE_ENTITY_STA \<or> pre_entity_type (g_role_launch s) = PRE_ENTITY_AP)"
  using rl_reach_inv [OF assms(1)] assms(2) by (auto simp: rl_inv_def)

text \<open>C27: A queued station request that asks to be launched as soon as possible is launched by the next firing of the
  launch timer when the station before it is in a state that can be left (initialising, scan over,
  connecting, waiting for DHCP, launched or failed), no channel switch is under way, the launcher is
  neither paused nor held, and it is the station's turn or there are no access point entities: the old
  entity is released, the request moves up, and exactly its Wi-Fi call is made.\<close>

theorem rl_station_request_served:
  assumes r: "rl_reach w s" and pq: "prev_sta s \<noteq> 0" "fol_sta s \<noteq> 0"
    and e: "rl_heap s (fol_sta s) = Some e" "launch_type e = LAUNCH_TYPE_ASAP"
    and csa: "g_mrole_csa_flag s \<noteq> RL_STATUS_MROLE_CHANNEL_SWITCHING" and op: "sta_open s"
    and st: "pre_sta_status (g_role_launch s) \<in> {RL_STATUS_STA_INITING, RL_STATUS_STA_SCAN_OVER, RL_STATUS_STA_CONNECTING,
       RL_STATUS_STA_DHCPING, RL_STATUS_STA_LAUNCHED, RL_STATUS_STA_LAUNCH_FAILED}"
    and turn: "pre_entity_type (g_role_launch s) = PRE_ENTITY_STA \<or> prev_ap s = 0 \<and> fol_ap s = 0"
  shows "\<exists>s'. rl_act w A_launch s = Some s' \<and> prev_sta s' = fol_sta s \<and> fol_sta s' = 0 \<and>
    rl_calls s' = rl_calls s @ sta_calls (rlaunch e) \<and> rl_heap s' (prev_sta s) = None"
proof -
  have i: "rl_inv s" using rl_reach_inv [OF r] by simp
  have run: "rl_timer (g_role_launch s) = T_running" using i pq(2) by (simp add: rl_inv_def)
  have ty: "pre_entity_type (g_role_launch s) = PRE_ENTITY_STA \<or> pre_entity_type (g_role_launch s) = PRE_ENTITY_AP"
    using i pq(2) by (simp add: rl_inv_def)
  let ?s = "on_rl (rl_timer_update (\<lambda>_. T_stopped)) s"
  have serve: "\<exists>s'. rl_launch_sta w z = Some (LAUNCH_STATUS_CONT, s') \<and> prev_sta s' = fol_sta s \<and> fol_sta s' = 0 \<and>
      rl_calls s' = rl_calls s @ sta_calls (rlaunch e) \<and> rl_heap s' (prev_sta s) = None \<and> rl_timer (g_role_launch s') \<noteq> T_none"
    if z: "z = ?s \<or> z = on_rl (pre_entity_type_update (\<lambda>_. PRE_ENTITY_STA)) ?s" for z
  proof -
    have oz: "rl_own z" "busy z = 0" using z i by (elim disjE; simp add: rl_inv_def)+
    have fz: "prev_sta z = prev_sta s" "fol_sta z = fol_sta s" "rl_heap z = rl_heap s" "rl_calls z = rl_calls s"
      "g_mrole_csa_flag z = g_mrole_csa_flag s" "sta_open z = sta_open s" "rl_timer (g_role_launch z) = T_stopped"
      "pre_sta_status (g_role_launch z) = pre_sta_status (g_role_launch s)"
      using z by (elim disjE; simp add: sta_open_def)+
    obtain s' where s': "rl_launch_sta w z = Some (LAUNCH_STATUS_CONT, s')" "prev_sta s' = fol_sta s" "fol_sta s' = 0"
      "rl_calls s' = rl_calls s @ sta_calls (rlaunch e)" "rl_heap s' (prev_sta s) = None"
      using launch_sta_serves [of z e w, unfolded fz] oz(1) pq e csa op st by blast
    moreover have "rl_timer (g_role_launch s') \<noteq> T_none"
      using launch_sta_ok [OF oz, of w] s'(1) fz(7) by (simp add: launched_def same_timers_def)
    ultimately show ?thesis by blast
  qed
  have ap: "rl_launch_ap w ?s = Some (LAUNCH_STATUS_OVER, ?s)" if "prev_ap s = 0" "fol_ap s = 0"
    using that by (simp add: rl_launch_ap_def)
  show ?thesis
  proof (cases "pre_entity_type (g_role_launch s) = PRE_ENTITY_STA")
    case True
    then show ?thesis
      using serve [of ?s] run
      by (auto simp: rl_launch_handler_def rl_relaunch_chance_def rtos_start_oneshot_timer_def)
  next
    case False
    then show ?thesis
      using serve [of "on_rl (pre_entity_type_update (\<lambda>_. PRE_ENTITY_STA)) ?s"] run ap turn ty
      by (auto simp: rl_launch_handler_def rl_relaunch_chance_def rtos_start_oneshot_timer_def)
  qed
qed

text \<open>C34. The requests are serialised: no step, a firing of either timer included, makes more than one
  call into the Wi-Fi code.\<close>

theorem rl_one_call_per_step:
  assumes "rl_reach w s" and "rl_act w a s = Some s'"
  shows "length (rl_calls s') \<le> Suc (length (rl_calls s))"
  using rl_act_ok [of s w a] rl_reach_inv [OF assms(1)] assms(2) by auto

text \<open>C31. When \<open>rl_enter_handler\<close> cannot allocate its buffer it returns without restarting its
  timer: there is a reachable state with a request in the socket, nothing launched or queued, and no
  timer running, so no firing of a timer ever changes it.\<close>

theorem rl_malloc_failure_strands_request:
  "\<exists>s. rl_reach w s \<and> sta_req_flag (g_rl_socket s) = 1 \<and> prev_sta s = 0 \<and> fol_sta s = 0 \<and>
     rl_act w A_launch s = Some s \<and> (\<forall>malloc_ok. rl_act w (A_enter malloc_ok) s = Some s)"
proof -
  let ?p = "zero_req\<lparr>req_type := LAUNCH_REQ_STA\<rparr>"
  obtain s1 where s1: "rl_act w (A_sta ?p 0) (rl_init rl_boot) = Some s1" "sta_req_flag (g_rl_socket s1) = 1"
    "enter_timer (g_role_launch s1) = T_running" "rl_timer (g_role_launch s1) = T_stopped" "prev_sta s1 = 0" "fol_sta s1 = 0"
    by (simp add: rl_sta_request_enter_def rl_sta_request_enter_handle_def restart_enter_timer_def rl_init_def rl_boot_def
        rtos_init_oneshot_timer_def rtos_stop_oneshot_timer_def rtos_start_oneshot_timer_def rl_status_reset_st_state_def)
  have "rl_reach w s1" by (rule rl_reach.step [OF rl_reach.start s1(1)])
  moreover obtain s2 where s2: "rl_act w (A_enter False) s1 = Some s2" "s2 = on_rl (enter_timer_update (\<lambda>_. T_stopped)) s1"
    using s1(3) by (simp add: rl_enter_handler_def)
  ultimately have "rl_reach w s2" using rl_reach.step by blast
  then show ?thesis using s1 s2(2) by (intro exI [of _ s2]) simp
qed

subsection \<open>Concrete instances\<close>

text \<open>A Wi-Fi module that reports a started station as initialising, and a stopped one as launched.\<close>

fun demo_wlan :: wlan where
  "demo_wlan (Start_sta d) s = [Reset_st 0x3000000, Csa_init, Sta_status RL_STATUS_STA_INITING]"
| "demo_wlan Stop_sta s = [Sta_status RL_STATUS_UNKNOWN, Set_st RL_ST_STATUS_RESTART_HOLD, Sta_clear_cancel, Sta_status RL_STATUS_STA_LAUNCHED]"
| "demo_wlan (Start_ap d) s = [Ap_status 0x11]"
| "demo_wlan Stop_ap s = [Ap_status RL_STATUS_AP_LAUNCHED]"
| "demo_wlan _ s = []"

definition demo_req :: LAUNCH_REQ where "demo_req = zero_req\<lparr>req_type := LAUNCH_REQ_STA\<rparr>"

definition demo_acts :: "rl_action list" where
  "demo_acts = [A_sta demo_req 0, A_enter True, A_sta demo_req 0, A_enter True]"

fun rl_run :: "wlan \<Rightarrow> rl_action list \<Rightarrow> rl_sys \<Rightarrow> rl_sys option" where
  "rl_run w [] s = Some s"
| "rl_run w (a # as) s = do { s1 \<leftarrow> rl_act w a s; rl_run w as s1 }"

lemma rl_run_reach: "rl_reach w s \<Longrightarrow> rl_run w as s = Some s' \<Longrightarrow> rl_reach w s'"
  by (induction as arbitrary: s) (auto split: bind_splits intro: rl_reach.step)


definition demo_view where
  "demo_view s = (prev_sta s, fol_sta s, prev_ap s, fol_ap s, map_option launch_type (rl_heap s 2), g_mrole_csa_flag s,
     sta_open s, pre_sta_status (g_role_launch s), pre_entity_type (g_role_launch s), length (rl_calls s))"

lemma demo_run_view: "map_option demo_view (rl_run demo_wlan demo_acts (rl_init rl_boot)) =
  Some (1, 2, 0, 0, Some LAUNCH_TYPE_ASAP, 0, True, RL_STATUS_STA_INITING, PRE_ENTITY_STA, 1)"
  by code_simp

lemma demo_run:
  obtains s e where "rl_reach demo_wlan s" "prev_sta s = 1" "fol_sta s = 2" "prev_ap s = 0" "fol_ap s = 0"
    "rl_heap s 2 = Some e" "launch_type e = LAUNCH_TYPE_ASAP" "g_mrole_csa_flag s = 0" "sta_open s"
    "pre_sta_status (g_role_launch s) = RL_STATUS_STA_INITING" "pre_entity_type (g_role_launch s) = PRE_ENTITY_STA"
proof -
  obtain s where s: "rl_run demo_wlan demo_acts (rl_init rl_boot) = Some s"
    "demo_view s = (1, 2, 0, 0, Some LAUNCH_TYPE_ASAP, 0, True, RL_STATUS_STA_INITING, PRE_ENTITY_STA, 1)"
    using demo_run_view by auto
  show thesis
    using that [of s] rl_run_reach [OF rl_reach.start s(1)] s(2) by (auto simp: demo_view_def)
qed

theorem rl_reachable_safe_witness:
  "\<exists>s s'. rl_reach demo_wlan s \<and> fol_sta s = 2 \<and> rl_act demo_wlan A_launch s = Some s' \<and> dom (rl_heap s) = {1, 2}"
proof -
  obtain s e where s: "rl_reach demo_wlan s" "prev_sta s = 1" "fol_sta s = 2" "prev_ap s = 0" "fol_ap s = 0"
    by (rule demo_run)
  obtain s' where "rl_act demo_wlan A_launch s = Some s'" "dom (rl_heap s) = {1, 2, 0, 0} - {0}"
    using rl_reachable_safe [OF s(1), of A_launch] s(2-) by metis
  moreover have "{1, 2, 0, 0} - {0} = {1, 2 :: nat}" by auto
  ultimately show ?thesis using s by metis
qed

theorem rl_queued_request_has_timer_witness:
  "\<exists>s. rl_reach demo_wlan s \<and> fol_sta s = 2 \<and> rl_timer (g_role_launch s) = T_running"
proof -
  obtain s e where s: "rl_reach demo_wlan s" "prev_sta s = 1" "fol_sta s = 2" "prev_ap s = 0" "fol_ap s = 0"
    by (rule demo_run)
  then show ?thesis using rl_queued_request_has_timer [OF s(1)] by auto
qed

theorem rl_station_request_served_witness:
  "\<exists>s s' e. rl_reach demo_wlan s \<and> rl_heap s 2 = Some e \<and> rl_act demo_wlan A_launch s = Some s' \<and> prev_sta s' = 2 \<and> fol_sta s' = 0 \<and>
     rl_calls s' = rl_calls s @ sta_calls (rlaunch e)"
proof -
  obtain s e where s: "rl_reach demo_wlan s" "prev_sta s = 1" "fol_sta s = 2" "prev_ap s = 0" "fol_ap s = 0"
    "rl_heap s 2 = Some e" "launch_type e = LAUNCH_TYPE_ASAP" "g_mrole_csa_flag s = 0" "sta_open s"
    "pre_sta_status (g_role_launch s) = RL_STATUS_STA_INITING" "pre_entity_type (g_role_launch s) = PRE_ENTITY_STA"
    by (rule demo_run)
  have "0 \<noteq> RL_STATUS_MROLE_CHANNEL_SWITCHING" by (simp add: RL_STATUS_MROLE_CHANNEL_SWITCHING_def)
  then have "\<exists>s'. rl_act demo_wlan A_launch s = Some s' \<and> prev_sta s' = fol_sta s \<and> fol_sta s' = 0 \<and>
      rl_calls s' = rl_calls s @ sta_calls (rlaunch e) \<and> rl_heap s' (prev_sta s) = None"
    using s by (intro rl_station_request_served) simp_all
  then obtain s' where "rl_act demo_wlan A_launch s = Some s'" "prev_sta s' = 2" "fol_sta s' = 0"
    "rl_calls s' = rl_calls s @ sta_calls (rlaunch e)" unfolding s(3) by blast
  then show ?thesis using s(1,6) by blast
qed

theorem rl_one_call_per_step_witness:
  "\<exists>s s'. rl_reach demo_wlan s \<and> rl_act demo_wlan A_launch s = Some s' \<and> length (rl_calls s') \<le> Suc (length (rl_calls s))"
proof -
  obtain s where s: "rl_reach demo_wlan s" by (rule demo_run)
  obtain s' where s': "rl_act demo_wlan A_launch s = Some s'"
    using rl_reach_inv [OF s] rl_act_ok [of s demo_wlan A_launch] by blast
  show ?thesis using rl_one_call_per_step [OF s s'] s s' by blast
qed

end
