(* ===== verification/Intc.thy ===== *)
theory Intc
  imports Simulation
begin

text \<open>
  The interrupt service list of \<open>driver/intc/intc.c\<close> on the doubly linked lists of
  \<open>common/doubly_list.h\<close>: a static table of service entries, threaded in the order of their
  priorities, and the mask of the registered interrupts.

  The links are kept by address, the head of the list at \<open>Hdr\<close> and the links of entry \<open>i\<close> at
  \<open>Isr i\<close>; \<open>Null\<close> is a null pointer, and reading or writing through it is \<open>None\<close>.  A handler is the
  number of its function, 0 for \<open>NULL\<close>; the result of a dispatch lists the handlers it calls, which
  are taken to leave this list alone.  An interrupt number past the table is \<open>None\<close>.  A dispatch that never
  returns is \<open>None\<close> too; \<open>hdl_steps\<close> counts its iterations and tells the two apart.
\<close>

subsection \<open>Doubly linked lists\<close>

datatype lptr = Null | Hdr | Isr nat

record LIST_HEADER_T =
  list_next :: lptr
  list_prev :: lptr

type_synonym links = "lptr \<Rightarrow> LIST_HEADER_T"

definition nxt :: "links \<Rightarrow> lptr \<Rightarrow> lptr option" where
  "nxt L p = (if p = Null then None else Some (list_next (L p)))"

definition prv :: "links \<Rightarrow> lptr \<Rightarrow> lptr option" where
  "prv L p = (if p = Null then None else Some (list_prev (L p)))"

definition set_nxt :: "lptr \<Rightarrow> lptr \<Rightarrow> links \<Rightarrow> links option" where
  "set_nxt p q L = (if p = Null then None else Some (L(p := (L p)\<lparr>list_next := q\<rparr>)))"

definition set_prv :: "lptr \<Rightarrow> lptr \<Rightarrow> links \<Rightarrow> links option" where
  "set_prv p q L = (if p = Null then None else Some (L(p := (L p)\<lparr>list_prev := q\<rparr>)))"

definition list_add_between :: "lptr \<Rightarrow> lptr \<Rightarrow> lptr \<Rightarrow> links \<Rightarrow> links option" where
  "list_add_between new_node prev next L =
     do { L1 \<leftarrow> set_prv next new_node L; L2 \<leftarrow> set_nxt new_node next L1;
          L3 \<leftarrow> set_prv new_node prev L2; set_nxt prev new_node L3 }"

definition list_add_head :: "lptr \<Rightarrow> lptr \<Rightarrow> links \<Rightarrow> links option" where
  "list_add_head new_node head L = do { next \<leftarrow> nxt L head; list_add_between new_node head next L }"

definition list_add_tail :: "lptr \<Rightarrow> lptr \<Rightarrow> links \<Rightarrow> links option" where
  "list_add_tail new_node head L = do { prev \<leftarrow> prv L head; list_add_between new_node prev head L }"

definition list_del_between :: "lptr \<Rightarrow> lptr \<Rightarrow> links \<Rightarrow> links option" where
  "list_del_between prev next L = do { L1 \<leftarrow> set_prv next prev L; set_nxt prev next L1 }"

definition list_del :: "lptr \<Rightarrow> links \<Rightarrow> links option" where
  "list_del entry L = do { p \<leftarrow> prv L entry; n \<leftarrow> nxt L entry; list_del_between p n L }"

definition list_empty :: "lptr \<Rightarrow> links \<Rightarrow> bool" where
  "list_empty head L \<longleftrightarrow> list_next (L head) = head"

subsection \<open>The service table\<close>

definition INTC_MAX_COUNT :: nat where "INTC_MAX_COUNT = 32"
definition INTC_SUCCESS :: u32 where "INTC_SUCCESS = 0"
definition INTC_FAILURE :: u32 where "INTC_FAILURE = 1"

definition BIT :: "nat \<Rightarrow> u32" where "BIT i = push_bit i 1"

record ISR_T =
  isr_func :: nat
  pri :: u8
  int_num :: u8

definition zero_isr :: ISR_T where "zero_isr = \<lparr>isr_func = 0, pri = 0, int_num = 0\<rparr>"

record intc_st =
  links :: links
  isrs :: "nat \<Rightarrow> ISR_T"
  isrs_mask :: u32

definition intc_boot :: intc_st where
  "intc_boot = \<lparr>links = (\<lambda>p. if p = Hdr then \<lparr>list_next = Hdr, list_prev = Hdr\<rparr> else \<lparr>list_next = Null, list_prev = Null\<rparr>),
     isrs = (\<lambda>_. zero_isr), isrs_mask = 0\<rparr>"

text \<open>\<open>list_entry\<close> of a link in the list: the entry the link lies in.\<close>

definition isr_at :: "intc_st \<Rightarrow> lptr \<Rightarrow> ISR_T option" where
  "isr_at s p = (case p of Isr i \<Rightarrow> Some (isrs s i) | _ \<Rightarrow> None)"

subsection \<open>Dispatch\<close>

partial_function (option) hdl_loop :: "intc_st \<Rightarrow> lptr \<Rightarrow> lptr \<Rightarrow> u32 \<Rightarrow> nat list option" where
  "hdl_loop s pos n status =
     (if pos = Hdr then Some []
      else do {
        f \<leftarrow> isr_at s pos;
        let i = unat (int_num f);
        let hit = ((BIT i) AND status \<noteq> 0);
        if hit \<and> isr_func f = 0 then None
        else do {
          let calls = (if hit then [isr_func f] else []);
          let status' = (if hit then status AND NOT (BIT i) else status);
          if status' = 0 then Some calls
          else do { n' \<leftarrow> nxt (links s) n; rest \<leftarrow> hdl_loop s n n' status'; Some (calls @ rest) } } })"

definition intc_hdl_entry :: "u32 \<Rightarrow> intc_st \<Rightarrow> nat list option" where
  "intc_hdl_entry int_status s =
     (let status = int_status AND isrs_mask s in
      do { pos \<leftarrow> nxt (links s) Hdr; n \<leftarrow> nxt (links s) pos; hdl_loop s pos n status })"

text \<open>The same loop for a number of iterations, which tells a loop that still runs from a null access.\<close>

datatype hdl_result = Running "nat list" | Returned "nat list" | Fault

fun hdl_after :: "nat list \<Rightarrow> hdl_result \<Rightarrow> hdl_result" where
  "hdl_after calls (Running r) = Running (calls @ r)"
| "hdl_after calls (Returned r) = Returned (calls @ r)"
| "hdl_after calls Fault = Fault"

fun hdl_steps :: "nat \<Rightarrow> intc_st \<Rightarrow> lptr \<Rightarrow> lptr \<Rightarrow> u32 \<Rightarrow> hdl_result" where
  "hdl_steps 0 s pos n status = Running []"
| "hdl_steps (Suc k) s pos n status =
     (if pos = Hdr then Returned []
      else case isr_at s pos of None \<Rightarrow> Fault
      | Some f \<Rightarrow>
          (let i = unat (int_num f); hit = ((BIT i) AND status \<noteq> 0) in
           if hit \<and> isr_func f = 0 then Fault
           else
             (let calls = (if hit then [isr_func f] else []); status' = (if hit then status AND NOT (BIT i) else status) in
              if status' = 0 then Returned calls
              else case nxt (links s) n of None \<Rightarrow> Fault | Some n' \<Rightarrow> hdl_after calls (hdl_steps k s n n' status'))))"

definition hdl_entry_steps :: "nat \<Rightarrow> u32 \<Rightarrow> intc_st \<Rightarrow> hdl_result" where
  "hdl_entry_steps k int_status s =
     (case nxt (links s) Hdr of None \<Rightarrow> Fault
      | Some pos \<Rightarrow> (case nxt (links s) pos of None \<Rightarrow> Fault | Some n \<Rightarrow> hdl_steps k s pos n (int_status AND isrs_mask s)))"

definition intc_irq :: "u32 \<Rightarrow> intc_st \<Rightarrow> nat list option" where
  "intc_irq irq_status s = intc_hdl_entry (irq_status AND 0xFFFF) s"

definition intc_fiq :: "u32 \<Rightarrow> intc_st \<Rightarrow> nat list option" where
  "intc_fiq fiq_status s = intc_hdl_entry (fiq_status AND 0xFFFF0000) s"

definition intc_service_trigger :: "u8 \<Rightarrow> intc_st \<Rightarrow> u32 \<times> nat list" where
  "intc_service_trigger n s =
     (if INTC_MAX_COUNT \<le> unat n then (INTC_FAILURE, [])
      else (INTC_SUCCESS, if isr_func (isrs s (unat n)) \<noteq> 0 then [isr_func (isrs s (unat n))] else []))"

subsection \<open>Registration\<close>

definition intc_service_unregister :: "u8 \<Rightarrow> intc_st \<Rightarrow> (u32 \<times> intc_st) option" where
  "intc_service_unregister n s =
     (if INTC_MAX_COUNT \<le> unat n then None
      else do {
        s1 \<leftarrow> (if list_empty Hdr (links s) then Some s
               else do { L \<leftarrow> list_del (Isr (unat n)) (links s); Some (s\<lparr>links := L\<rparr>) });
        Some (INTC_SUCCESS,
          s1\<lparr>isrs_mask := isrs_mask s1 AND NOT (BIT (unat n)),
             isrs := (isrs s1)(unat n := zero_isr),
             links := (links s1)(Isr (unat n) := \<lparr>list_next = Null, list_prev = Null\<rparr>)\<rparr>) })"

text \<open>Where \<open>intc_service_register\<close> stops in the list: before a link, or at an equal priority.\<close>

datatype reg_place = Before lptr | Same_pri

partial_function (option) reg_loop :: "intc_st \<Rightarrow> u8 \<Rightarrow> lptr \<Rightarrow> lptr \<Rightarrow> reg_place option" where
  "reg_loop s int_pri pos n =
     (if pos = Hdr then Some (Before Hdr)
      else do {
        tmp \<leftarrow> isr_at s pos;
        if int_pri < pri tmp then Some (Before pos)
        else if int_pri = pri tmp then Some Same_pri
        else do { n' \<leftarrow> nxt (links s) n; reg_loop s int_pri n n' } })"

definition intc_service_register :: "u8 \<Rightarrow> u8 \<Rightarrow> nat \<Rightarrow> intc_st \<Rightarrow> intc_st option" where
  "intc_service_register n int_pri isr s =
     (if INTC_MAX_COUNT \<le> unat n then None
      else
        (let buf_ele = isrs s (unat n); buf_list = links s (Isr (unat n));
             s1 = s\<lparr>isrs := (isrs s)(unat n := \<lparr>isr_func = isr, pri = int_pri, int_num = n\<rparr>)\<rparr>;
             ok = (\<lambda>L. s1\<lparr>links := L, isrs_mask := isrs_mask s1 OR (BIT (unat n))\<rparr>) in
         if list_empty Hdr (links s1)
         then do { L \<leftarrow> list_add_head (Isr (unat n)) Hdr (links s1); Some (ok L) }
         else do {
           pos \<leftarrow> nxt (links s1) Hdr; n' \<leftarrow> nxt (links s1) pos;
           place \<leftarrow> reg_loop s1 int_pri pos n';
           (case place of
              Before p \<Rightarrow> do { L \<leftarrow> list_add_tail (Isr (unat n)) p (links s1); Some (ok L) }
            | Same_pri \<Rightarrow> Some (s1\<lparr>isrs := (isrs s1)(unat n := buf_ele), links := (links s1)(Isr (unat n) := buf_list)\<rparr>)) }))"

text \<open>The search of \<open>intc_service_change_handler\<close>: whether a listed entry has the priority.\<close>

partial_function (option) pri_loop :: "intc_st \<Rightarrow> u8 \<Rightarrow> lptr \<Rightarrow> lptr \<Rightarrow> bool option" where
  "pri_loop s int_pri pos n =
     (if pos = Hdr then Some False
      else do {
        tmp \<leftarrow> isr_at s pos;
        if int_pri = pri tmp then Some True
        else do { n' \<leftarrow> nxt (links s) n; pri_loop s int_pri n n' } })"

definition intc_service_change_handler :: "u8 \<Rightarrow> nat \<Rightarrow> intc_st \<Rightarrow> intc_st option" where
  "intc_service_change_handler n isr s =
     (if INTC_MAX_COUNT \<le> unat n then None
      else
        (let buf_ele = isrs s (unat n); int_pri = pri buf_ele in
         if isr_func buf_ele = 0 then Some s
         else do {
           buf \<leftarrow> (if list_empty Hdr (links s) then Some buf_ele
                  else do {
                    pos \<leftarrow> nxt (links s) Hdr; n' \<leftarrow> nxt (links s) pos;
                    found \<leftarrow> pri_loop s int_pri pos n';
                    Some (if found then buf_ele\<lparr>isr_func := isr\<rparr> else buf_ele) });
           Some (s\<lparr>isrs := (isrs s)(unat n := buf)\<rparr>) }))"

subsection \<open>The list of registered interrupts\<close>

fun seg :: "links \<Rightarrow> lptr \<Rightarrow> nat list \<Rightarrow> lptr \<Rightarrow> bool" where
  "seg L p [] q \<longleftrightarrow> list_next (L p) = q \<and> list_prev (L q) = p"
| "seg L p (x # xs) q \<longleftrightarrow> list_next (L p) = Isr x \<and> list_prev (L (Isr x)) = p \<and> seg L (Isr x) xs q"

lemma seg_append: "seg L p (xs @ y # ys) q \<longleftrightarrow> seg L p xs (Isr y) \<and> seg L (Isr y) ys q"
  by (induction xs arbitrary: p) auto

lemma seg_cong:
  assumes "seg L p xs q" "\<And>z. z \<in> {p} \<union> Isr ` set xs \<Longrightarrow> list_next (L' z) = list_next (L z)"
    "\<And>z. z \<in> {q} \<union> Isr ` set xs \<Longrightarrow> list_prev (L' z) = list_prev (L z)"
  shows "seg L' p xs q"
  using assms by (induction xs arbitrary: p) auto

fun last_ptr :: "lptr \<Rightarrow> nat list \<Rightarrow> lptr" where
  "last_ptr p [] = p"
| "last_ptr p (x # xs) = last_ptr (Isr x) xs"

lemma seg_last: "seg L p xs q \<Longrightarrow> list_prev (L q) = last_ptr p xs"
  by (induction xs arbitrary: p) auto

lemma last_ptr_in: "last_ptr p xs \<in> {p} \<union> Isr ` set xs"
  by (induction xs arbitrary: p) auto

definition linked :: "links \<Rightarrow> lptr \<Rightarrow> lptr \<Rightarrow> lptr \<Rightarrow> links" where
  "linked L c p q = (let L1 = L(q := (L q)\<lparr>list_prev := c\<rparr>); L2 = L1(c := (L1 c)\<lparr>list_next := q\<rparr>);
     L3 = L2(c := (L2 c)\<lparr>list_prev := p\<rparr>) in L3(p := (L3 p)\<lparr>list_next := c\<rparr>))"

lemma add_between: "c \<noteq> Null \<Longrightarrow> p \<noteq> Null \<Longrightarrow> q \<noteq> Null \<Longrightarrow> list_add_between c p q L = Some (linked L c p q)"
  by (simp add: list_add_between_def set_prv_def set_nxt_def linked_def Let_def)

lemma linked_fields:
  assumes "c \<noteq> p" "c \<noteq> q"
  shows "list_next (linked L c p q z) = (if z = p then c else if z = c then q else list_next (L z))"
    "list_prev (linked L c p q z) = (if z = q then c else if z = c then p else list_prev (L z))"
  using assms by (auto simp: linked_def Let_def)

lemma seg_insert_aux:
  assumes "seg L p xs q" "distinct xs" "p \<notin> Isr ` set xs" "Isr c \<noteq> p" "c \<notin> set xs" "Isr c \<noteq> q" "q \<notin> Isr ` set xs"
    and "l = last_ptr p xs" "\<And>z. list_next (L' z) = (if z = l then Isr c else if z = Isr c then q else list_next (L z))"
    "\<And>z. list_prev (L' z) = (if z = q then Isr c else if z = Isr c then l else list_prev (L z))"
  shows "seg L' p (xs @ [c]) q"
  using assms(1-8)
proof (induction xs arbitrary: p)
  case Nil
  then show ?case by (simp add: assms(9,10))
next
  case (Cons x xs)
  have "l \<noteq> p" using last_ptr_in [of "Isr x" xs] Cons.prems(3,8) by auto
  moreover have "seg L' (Isr x) (xs @ [c]) q" by (rule Cons.IH) (use Cons.prems in auto)
  ultimately show ?case using Cons.prems by (auto simp: assms(9,10))
qed

lemma seg_insert:
  assumes "seg L p xs q" "distinct xs" "p \<notin> Isr ` set xs" "Isr c \<noteq> p" "c \<notin> set xs" "Isr c \<noteq> q" "q \<notin> Isr ` set xs"
  shows "seg (linked L (Isr c) (last_ptr p xs) q) p (xs @ [c]) q"
proof (rule seg_insert_aux [OF assms refl])
  have "last_ptr p xs \<noteq> Isr c" using last_ptr_in [of p xs] assms by auto
  then show "list_next (linked L (Isr c) (last_ptr p xs) q z) = (if z = last_ptr p xs then Isr c else if z = Isr c then q else list_next (L z))"
    "list_prev (linked L (Isr c) (last_ptr p xs) q z) = (if z = q then Isr c else if z = Isr c then last_ptr p xs else list_prev (L z))" for z
    using linked_fields [of "Isr c" "last_ptr p xs" q] assms(6) by simp_all
qed


definition first_ptr :: "nat list \<Rightarrow> lptr" where
  "first_ptr xs = (case xs of [] \<Rightarrow> Hdr | x # _ \<Rightarrow> Isr x)"

lemma first_ptr_simps [simp]: "first_ptr [] = Hdr" "first_ptr (x # xs) = Isr x"
  by (simp_all add: first_ptr_def)

lemma seg_first: "seg L p xs Hdr \<Longrightarrow> list_next (L p) = first_ptr xs"
  by (cases xs) simp_all

lemma ring_insert:
  assumes ring: "seg L Hdr (as @ bs) Hdr" and d: "distinct (as @ bs)" "c \<notin> set (as @ bs)"
  shows "list_prev (L (first_ptr bs)) = last_ptr Hdr as"
    "seg (linked L (Isr c) (last_ptr Hdr as) (first_ptr bs)) Hdr (as @ c # bs) Hdr"
proof -
  have l: "last_ptr Hdr as \<in> {Hdr} \<union> Isr ` set as" by (rule last_ptr_in)
  have "seg L Hdr as (first_ptr bs) \<and> seg (linked L (Isr c) (last_ptr Hdr as) (first_ptr bs)) Hdr (as @ c # bs) Hdr"
  proof (cases bs)
    case Nil
    then show ?thesis using ring d seg_insert [of L Hdr as Hdr c] by auto
  next
    case (Cons b bs')
    let ?L = "linked L (Isr c) (last_ptr Hdr as) (Isr b)"
    have r: "seg L Hdr as (Isr b)" "seg L (Isr b) bs' Hdr" using ring Cons by (simp_all add: seg_append)
    have "seg ?L Hdr (as @ [c]) (Isr b)" using seg_insert [OF r(1), of c] d Cons by auto
    moreover have "seg ?L (Isr b) bs' Hdr"
    proof (rule seg_cong [OF r(2)])
      have c: "Isr c \<noteq> last_ptr Hdr as" "Isr c \<noteq> Isr b" using l d Cons by auto
      show "list_next (?L z) = list_next (L z)" if "z \<in> {Isr b} \<union> Isr ` set bs'" for z
        using that l d Cons by (auto simp: linked_fields [OF c])
      show "list_prev (?L z) = list_prev (L z)" if "z \<in> {Hdr} \<union> Isr ` set bs'" for z
        using that l d Cons by (auto simp: linked_fields [OF c])
    qed
    ultimately have "seg ?L Hdr ((as @ [c]) @ b # bs') Hdr" unfolding seg_append by blast
    then show ?thesis using r(1) Cons by simp
  qed
  then show "list_prev (L (first_ptr bs)) = last_ptr Hdr as"
    "seg (linked L (Isr c) (last_ptr Hdr as) (first_ptr bs)) Hdr (as @ c # bs) Hdr"
    using seg_last by blast+
qed

definition unlinked :: "links \<Rightarrow> lptr \<Rightarrow> lptr \<Rightarrow> links" where
  "unlinked L p n = (let L1 = L(n := (L n)\<lparr>list_prev := p\<rparr>) in L1(p := (L1 p)\<lparr>list_next := n\<rparr>))"

lemma unlinked_fields:
  "list_next (unlinked L p n z) = (if z = p then n else list_next (L z))"
  "list_prev (unlinked L p n z) = (if z = n then p else list_prev (L z))"
  by (auto simp: unlinked_def Let_def)

lemma del_ok:
  "list_prev (L c) \<noteq> Null \<Longrightarrow> list_next (L c) \<noteq> Null \<Longrightarrow> c \<noteq> Null \<Longrightarrow>
     list_del c L = Some (unlinked L (list_prev (L c)) (list_next (L c)))"
  by (simp add: list_del_def prv_def nxt_def list_del_between_def set_prv_def set_nxt_def unlinked_def Let_def)

lemma seg_replace_end:
  assumes "seg L p xs (Isr c)" "distinct xs" "p \<notin> Isr ` set xs" "q \<notin> Isr ` set xs" "l = last_ptr p xs"
    "\<And>z. z \<noteq> l \<Longrightarrow> list_next (L' z) = list_next (L z)" "\<And>z. z \<noteq> q \<Longrightarrow> list_prev (L' z) = list_prev (L z)"
    "list_next (L' l) = q" "list_prev (L' q) = l"
  shows "seg L' p xs q"
  using assms(1-5)
proof (induction xs arbitrary: p)
  case Nil
  then show ?case using assms(8,9) by simp
next
  case (Cons x xs)
  have "l \<noteq> p" using last_ptr_in [of "Isr x" xs] Cons.prems(3,5) by auto
  moreover have "seg L' (Isr x) xs q" by (rule Cons.IH) (use Cons.prems in auto)
  ultimately show ?case using Cons.prems assms(6,7) by auto
qed

lemma ring_delete:
  assumes ring: "seg L Hdr (as @ c # bs) Hdr" and d: "distinct (as @ c # bs)"
  shows "\<exists>L'. list_del (Isr c) L = Some L' \<and> seg L' Hdr (as @ bs) Hdr \<and> (\<forall>z. z \<notin> {Hdr} \<union> Isr ` set (as @ bs) \<longrightarrow> L' z = L z)"
proof -
  have r: "seg L Hdr as (Isr c)" "seg L (Isr c) bs Hdr" using ring by (simp_all add: seg_append)
  have pn: "list_prev (L (Isr c)) = last_ptr Hdr as" "list_next (L (Isr c)) = first_ptr bs"
    using seg_last [OF r(1)] seg_first [OF r(2)] by simp_all
  have l: "last_ptr Hdr as \<in> {Hdr} \<union> Isr ` set as" by (rule last_ptr_in)
  let ?L = "unlinked L (last_ptr Hdr as) (first_ptr bs)"
  have nn: "last_ptr Hdr as \<noteq> Null" "first_ptr bs \<noteq> Null" using l by (auto simp: first_ptr_def split: list.split)
  have del: "list_del (Isr c) L = Some ?L" using del_ok [of L "Isr c"] nn pn by simp
  have a: "seg ?L Hdr as (first_ptr bs)"
    by (rule seg_replace_end [OF r(1) _ _ _ refl]) (use d in \<open>auto simp: unlinked_fields first_ptr_def split: list.split\<close>)
  have "seg ?L Hdr (as @ bs) Hdr"
  proof (cases bs)
    case Nil
    then show ?thesis using a by simp
  next
    case (Cons b bs')
    have "seg L (Isr b) bs' Hdr" using r(2) Cons by simp
    then have "seg ?L (Isr b) bs' Hdr"
      by (rule seg_cong) (use l d Cons in \<open>auto simp: unlinked_fields\<close>)
    then show ?thesis using a Cons by (simp add: seg_append)
  qed
  moreover have "?L z = L z" if "z \<notin> {Hdr} \<union> Isr ` set (as @ bs)" for z
    using that l by (auto simp: unlinked_def Let_def first_ptr_def split: list.split)
  ultimately show ?thesis using del by blast
qed

subsection \<open>The table of registered interrupts\<close>

type_synonym tbl = "(nat \<times> u8 \<times> nat) list"

abbreviation t_pri :: "nat \<times> u8 \<times> nat \<Rightarrow> u8" where "t_pri e \<equiv> fst (snd e)"
abbreviation t_func :: "nat \<times> u8 \<times> nat \<Rightarrow> nat" where "t_func e \<equiv> snd (snd e)"

definition entry_of :: "nat \<times> u8 \<times> nat \<Rightarrow> ISR_T" where
  "entry_of e = \<lparr>isr_func = t_func e, pri = t_pri e, int_num = of_nat (fst e)\<rparr>"

definition intc_tbl :: "intc_st \<Rightarrow> tbl \<Rightarrow> bool" where
  "intc_tbl s t \<longleftrightarrow> seg (links s) Hdr (map fst t) Hdr \<and> sorted_wrt (\<lambda>a b. t_pri a < t_pri b) t \<and> distinct (map fst t) \<and>
     (\<forall>e \<in> set t. fst e < 32 \<and> isrs s (fst e) = entry_of e \<and> t_func e \<noteq> 0) \<and>
     (\<forall>i < 32. bit (isrs_mask s) i \<longleftrightarrow> i \<in> fst ` set t) \<and>
     (\<forall>i < 32. i \<notin> fst ` set t \<longrightarrow> isrs s i = zero_isr \<and> links s (Isr i) = \<lparr>list_next = Null, list_prev = Null\<rparr>)"

lemma boot_tbl: "intc_tbl intc_boot []"
  by (simp add: intc_tbl_def intc_boot_def)

lemma bit_BIT: "i < 32 \<Longrightarrow> bit (BIT i) j \<longleftrightarrow> j = i"
  by (auto simp: BIT_def bit_simps bit_1_iff)

lemma BIT_hit: "i < 32 \<Longrightarrow> (BIT i AND st) \<noteq> 0 \<longleftrightarrow> bit (st :: u32) i"
  using bit_eq_iff [of "BIT i AND st" 0] by (auto simp: bit_and_iff bit_BIT)

lemma unat_of_nat_u8: "n < 32 \<Longrightarrow> unat (of_nat n :: u8) = n"
  by (simp add: unsigned_of_nat take_bit_nat_def)

lemma hdl_loop_ok:
  assumes "seg (links s) p (map fst t) Hdr" "distinct (map fst t)"
    "\<forall>e \<in> set t. fst e < 32 \<and> isrs s (fst e) = entry_of e \<and> t_func e \<noteq> 0"
    "t \<noteq> [] \<Longrightarrow> n = list_next (links s (Isr (fst (hd t))))"
  shows "hdl_loop s (first_ptr (map fst t)) n st = Some (map t_func (filter (\<lambda>e. bit st (fst e)) t))"
  using assms
proof (induction t arbitrary: p n st)
  case Nil
  then show ?case by (simp add: hdl_loop.simps)
next
  case (Cons e t)
  let ?i = "fst e"
  have e: "isrs s ?i = entry_of e" "?i < 32" "t_func e \<noteq> 0" using Cons.prems(3) by simp_all
  have u: "unat (int_num (isrs s ?i)) = ?i" using e by (simp add: entry_of_def unat_of_nat_u8)
  have sg: "seg (links s) (Isr ?i) (map fst t) Hdr" using Cons.prems(1) by simp
  have n: "n = first_ptr (map fst t)" using Cons.prems(4) seg_first [OF sg] by simp
  have nn: "n \<noteq> Null" unfolding n by (simp add: first_ptr_def split: list.split)
  define st' where "st' = (if bit st ?i then st AND NOT (BIT ?i) else st)"
  have bit': "bit st' j \<longleftrightarrow> bit st j \<and> j \<noteq> ?i" for j
    by (auto simp: st'_def bit_simps bit_BIT [OF e(2)] dest: bit_imp_le_length)
  have f: "filter (\<lambda>x. bit st' (fst x)) t = filter (\<lambda>x. bit st (fst x)) t"
  proof (rule filter_cong [OF refl])
    fix x
    assume x: "x \<in> set t"
    then have "fst x \<noteq> ?i" using Cons.prems(2) by (auto simp: image_iff)
    then show "bit st' (fst x) = bit st (fst x)" by (simp add: bit')
  qed
  have IH: "hdl_loop s n (list_next (links s n)) st' = Some (map t_func (filter (\<lambda>x. bit st (fst x)) t))"
    unfolding n f [symmetric]
    by (rule Cons.IH [OF sg]) (use Cons.prems(2,3) in \<open>auto simp: first_ptr_def split: list.split\<close>)
  have z: "filter (\<lambda>x. bit st (fst x)) t = []" if "st' = 0"
    using that f by (simp add: filter_empty_conv)
  have at: "isr_at s (Isr ?i) = Some (entry_of e)" by (simp add: isr_at_def e(1))
  have w: "unat (int_num (entry_of e)) = ?i" "isr_func (entry_of e) \<noteq> 0" "isr_func (entry_of e) = t_func e"
    using u e by (simp_all add: entry_of_def)
  have "hdl_loop s (Isr ?i) n st =
      (if st' = 0 then Some (if bit st ?i then [t_func e] else [])
       else Some ((if bit st ?i then [t_func e] else []) @ map t_func (filter (\<lambda>x. bit st (fst x)) t)))"
    unfolding hdl_loop.simps [of s "Isr ?i" n st] at Option.bind.simps Let_def w(1) BIT_hit [OF e(2)] st'_def [symmetric]
    using nn w(2) IH by (simp add: nxt_def w(3))
  then show ?case using z by simp
qed

lemma hdl_entry_ok:
  assumes "intc_tbl s t"
  shows "intc_hdl_entry st s = Some (map t_func (filter (\<lambda>e. bit st (fst e)) t))"
proof -
  have sg: "seg (links s) Hdr (map fst t) Hdr" using assms by (simp add: intc_tbl_def)
  have n: "list_next (links s Hdr) = first_ptr (map fst t)" by (rule seg_first [OF sg])
  have nn: "first_ptr (map fst t) \<noteq> Null" by (simp add: first_ptr_def split: list.split)
  have h: "hdl_loop s (first_ptr (map fst t)) (list_next (links s (first_ptr (map fst t)))) (st AND isrs_mask s) =
      Some (map t_func (filter (\<lambda>e. bit (st AND isrs_mask s) (fst e)) t))"
    by (rule hdl_loop_ok [OF sg]) (use assms in \<open>auto simp: intc_tbl_def first_ptr_def split: list.split\<close>)
  have "filter (\<lambda>e. bit (st AND isrs_mask s) (fst e)) t = filter (\<lambda>e. bit st (fst e)) t"
    by (rule filter_cong) (use assms in \<open>auto simp: intc_tbl_def bit_simps\<close>)
  then show ?thesis using h nn by (simp add: intc_hdl_entry_def Let_def nxt_def n)
qed


subsection \<open>Registering\<close>

lemma reg_loop_ok:
  assumes "seg (links s) p xs Hdr" "xs \<noteq> [] \<longrightarrow> n = list_next (links s (Isr (hd xs)))"
  shows "\<exists>as bs. xs = as @ bs \<and> (\<forall>a \<in> set as. pri (isrs s a) < pr) \<and>
    reg_loop s pr (first_ptr xs) n =
      Some (if bs \<noteq> [] \<and> pri (isrs s (hd bs)) = pr then Same_pri else Before (first_ptr bs)) \<and>
    (bs \<noteq> [] \<longrightarrow> pr \<le> pri (isrs s (hd bs)))"
  using assms
proof (induction xs arbitrary: p n)
  case Nil
  then show ?case by (simp add: reg_loop.simps)
next
  case (Cons x xs)
  have sg: "seg (links s) (Isr x) xs Hdr" using Cons.prems(1) by simp
  have n: "n = first_ptr xs" using Cons.prems(2) seg_first [OF sg] by simp
  have nn: "n \<noteq> Null" unfolding n by (simp add: first_ptr_def split: list.split)
  show ?case
  proof (cases "pri (isrs s x) < pr")
    case True
    have IH: "\<exists>as bs. xs = as @ bs \<and> (\<forall>a \<in> set as. pri (isrs s a) < pr) \<and>
        reg_loop s pr (first_ptr xs) (list_next (links s (first_ptr xs))) =
          Some (if bs \<noteq> [] \<and> pri (isrs s (hd bs)) = pr then Same_pri else Before (first_ptr bs)) \<and>
        (bs \<noteq> [] \<longrightarrow> pr \<le> pri (isrs s (hd bs)))"
      by (rule Cons.IH [OF sg]) (simp add: first_ptr_def split: list.split)
    then obtain as bs where ih: "xs = as @ bs" "\<forall>a \<in> set as. pri (isrs s a) < pr"
      "reg_loop s pr (first_ptr xs) (list_next (links s (first_ptr xs))) =
         Some (if bs \<noteq> [] \<and> pri (isrs s (hd bs)) = pr then Same_pri else Before (first_ptr bs))"
      "bs \<noteq> [] \<longrightarrow> pr \<le> pri (isrs s (hd bs))" by blast
    have "reg_loop s pr (first_ptr (x # xs)) n = reg_loop s pr (first_ptr xs) (list_next (links s (first_ptr xs)))"
      using True nn order.asym [OF True] less_imp_neq [OF True] unfolding n
      by (subst reg_loop.simps) (auto simp: isr_at_def nxt_def)
    then show ?thesis using ih True by (intro exI [of _ "x # as"] exI [of _ bs]) auto
  next
    case False
    then show ?thesis
      by (intro exI [of _ "[]"] exI [of _ "x # xs"]) (auto simp: reg_loop.simps [of s pr "Isr x" n] isr_at_def)
  qed
qed

lemma insort_split:
  assumes "\<forall>a \<in> set as. t_pri a < t_pri e" "bs \<noteq> [] \<longrightarrow> t_pri e < t_pri (hd bs)"
  shows "insort_key t_pri e (as @ bs) = as @ e # bs"
  using assms by (induction as) (cases bs; auto)+

lemma sorted_insert:
  assumes "sorted_wrt (\<lambda>a b. t_pri a < t_pri b) (as @ bs)" "\<forall>a \<in> set as. t_pri a < t_pri e" "bs \<noteq> [] \<longrightarrow> t_pri e < t_pri (hd bs)"
  shows "sorted_wrt (\<lambda>a b. t_pri a < t_pri b) (as @ e # bs)"
  using assms by (cases bs) (auto simp: sorted_wrt_append)

text \<open>What the operations do to the table.\<close>

definition t_register :: "nat \<Rightarrow> u8 \<Rightarrow> nat \<Rightarrow> tbl \<Rightarrow> tbl" where
  "t_register i p f t = (if p \<in> t_pri ` set t then t else insort_key t_pri (i, p, f) t)"

definition t_unregister :: "nat \<Rightarrow> tbl \<Rightarrow> tbl" where
  "t_unregister i t = filter (\<lambda>e. fst e \<noteq> i) t"

definition t_change :: "nat \<Rightarrow> nat \<Rightarrow> tbl \<Rightarrow> tbl" where
  "t_change i f t = map (\<lambda>e. if fst e = i then (i, t_pri e, f) else e) t"

lemma bit_or_BIT: "i < 32 \<Longrightarrow> bit (m OR BIT i) j \<longleftrightarrow> bit m j \<or> j = i"
  by (simp add: bit_or_iff bit_BIT)

lemma intc_register_ok:
  assumes tb: "intc_tbl s t" and n: "unat n < 32" "unat n \<notin> fst ` set t" and f: "f \<noteq> 0"
  shows "\<exists>s'. intc_service_register n p f s = Some s' \<and> intc_tbl s' (t_register (unat n) p f t)"
proof -
  let ?n = "unat n"
  let ?e = "(?n, p, f)"
  let ?s = "s\<lparr>isrs := (isrs s)(?n := \<lparr>isr_func = f, pri = p, int_num = n\<rparr>)\<rparr>"
  have sg: "seg (links s) Hdr (map fst t) Hdr" and d: "distinct (map fst t)" and so: "sorted_wrt (\<lambda>a b. t_pri a < t_pri b) t"
    and en: "\<And>e. e \<in> set t \<Longrightarrow> fst e < 32 \<and> isrs s (fst e) = entry_of e \<and> t_func e \<noteq> 0"
    and mk: "\<And>i. i < 32 \<Longrightarrow> bit (isrs_mask s) i \<longleftrightarrow> i \<in> fst ` set t"
    and zr: "\<And>i. i < 32 \<Longrightarrow> i \<notin> fst ` set t \<Longrightarrow> isrs s i = zero_isr \<and> links s (Isr i) = \<lparr>list_next = Null, list_prev = Null\<rparr>"
    using tb by (simp_all add: intc_tbl_def)
  have num: "n = of_nat ?n" by simp
  have ne: "fst e \<noteq> ?n" if "e \<in> set t" for e using that n(2) by (auto simp: image_iff)
  have pr: "pri (isrs ?s (fst e)) = t_pri e" if "e \<in> set t" for e
    using en [OF that] ne [OF that] by (simp add: entry_of_def)
  have new: "intc_tbl (?s\<lparr>links := linked (links s) (Isr ?n) (last_ptr Hdr (map fst as)) (first_ptr (map fst bs)),
      isrs_mask := isrs_mask s OR BIT ?n\<rparr>) (as @ ?e # bs)"
    if ab: "t = as @ bs" and lt: "\<forall>a \<in> set as. t_pri a < p" "bs \<noteq> [] \<longrightarrow> p < t_pri (hd bs)" for as bs
  proof -
    let ?L = "linked (links s) (Isr ?n) (last_ptr Hdr (map fst as)) (first_ptr (map fst bs))"
    have c: "?n \<notin> set (map fst as @ map fst bs)" using n(2) ab by auto
    have sg': "seg ?L Hdr (map fst as @ ?n # map fst bs) Hdr"
      by (rule ring_insert(2)) (use sg d c ab in simp_all)
    have l: "last_ptr Hdr (map fst as) \<in> {Hdr} \<union> Isr ` set (map fst as)" by (rule last_ptr_in)
    have same: "?L (Isr i) = links s (Isr i)" if "i \<noteq> ?n" "i \<notin> fst ` set t" for i
    proof -
      have "Isr i \<notin> {Hdr} \<union> Isr ` set (map fst as)" using that(2) ab by (auto simp: image_iff)
      then have "Isr i \<noteq> last_ptr Hdr (map fst as)" using l by metis
      moreover have "Isr i \<noteq> first_ptr (map fst bs)" using that(2) ab by (auto simp: first_ptr_def split: list.split)
      ultimately show ?thesis using that(1) by (simp add: linked_def Let_def)
    qed
    have so': "sorted_wrt (\<lambda>a b. t_pri a < t_pri b) (as @ ?e # bs)"
      by (rule sorted_insert) (use so lt ab in simp_all)
    show ?thesis
      unfolding intc_tbl_def
      using sg' so' d n f c en ne mk zr same ab num
      by (auto simp: bit_or_BIT entry_of_def)
  qed
  have nn: "first_ptr xs \<noteq> Null" for xs by (simp add: first_ptr_def split: list.split)
  have nx: "list_next (links s Hdr) = first_ptr (map fst t)" by (rule seg_first [OF sg])
  show ?thesis
  proof (cases t)
    case Nil
    have lk: "list_next (links s Hdr) = Hdr" "list_prev (links s Hdr) = Hdr" using sg Nil by simp_all
    have "list_add_head (Isr ?n) Hdr (links s) = Some (linked (links s) (Isr ?n) Hdr Hdr)"
      by (simp add: list_add_head_def nxt_def lk add_between)
    then show ?thesis
      using new [of "[]" "[]"] Nil n lk
      by (simp add: intc_service_register_def INTC_MAX_COUNT_def Let_def list_empty_def t_register_def)
  next
    case (Cons e0 t')
    have sgs: "seg (links ?s) Hdr (map fst t) Hdr" using sg by simp
    have nxs: "map fst t \<noteq> [] \<longrightarrow> list_next (links s (first_ptr (map fst t))) = list_next (links ?s (Isr (hd (map fst t))))"
      by (simp add: first_ptr_def split: list.split)
    obtain xs ys where xy: "map fst t = xs @ ys" "\<forall>a \<in> set xs. pri (isrs ?s a) < p"
      "reg_loop ?s p (first_ptr (map fst t)) (list_next (links s (first_ptr (map fst t)))) =
        Some (if ys \<noteq> [] \<and> pri (isrs ?s (hd ys)) = p then Same_pri else Before (first_ptr ys))"
      "ys \<noteq> [] \<longrightarrow> p \<le> pri (isrs ?s (hd ys))"
      using reg_loop_ok [OF sgs nxs, where pr = p] by (elim exE conjE) (rule that)
    obtain as bs where ab: "t = as @ bs" "xs = map fst as" "ys = map fst bs"
      using xy(1) by (metis append_eq_map_conv)
    have la: "\<forall>a \<in> set as. t_pri a < p" using xy(2) pr ab by auto
    have hb: "bs \<noteq> [] \<Longrightarrow> pri (isrs ?s (hd ys)) = t_pri (hd bs)" using pr [of "hd bs"] ab by (simp add: hd_map)
    have ne0: "\<not> list_empty Hdr (links s)" using nx Cons by (simp add: list_empty_def)
    show ?thesis
    proof (cases "bs \<noteq> [] \<and> t_pri (hd bs) = p")
      case True
      then have "p \<in> t_pri ` set t" using ab by (auto intro!: image_eqI [of _ _ "hd bs"])
      moreover have "intc_service_register n p f s = Some s"
        using n(1) ne0 xy(3) nn True hb ab zr
        by (simp add: intc_service_register_def INTC_MAX_COUNT_def Let_def nxt_def nx)
      ultimately show ?thesis using tb by (simp add: t_register_def)
    next
      case False
      then have lt: "bs \<noteq> [] \<longrightarrow> p < t_pri (hd bs)" using xy(4) hb ab by fastforce
      have "t_pri b > p" if "b \<in> set bs" for b
        using that lt so ab by (cases bs) (auto simp: sorted_wrt_append)
      then have np: "p \<notin> t_pri ` set t" using la ab by fastforce
      have pv: "list_prev (links s (first_ptr (map fst bs))) = last_ptr Hdr (map fst as)"
        using ring_insert(1) [of "links s" "map fst as" "map fst bs" ?n] sg d n(2) ab by auto
      have ln: "last_ptr Hdr (map fst as) \<noteq> Null" using last_ptr_in [of Hdr "map fst as"] by auto
      have "list_add_tail (Isr ?n) (first_ptr (map fst bs)) (links s) =
          Some (linked (links s) (Isr ?n) (last_ptr Hdr (map fst as)) (first_ptr (map fst bs)))"
        using nn ln by (simp add: list_add_tail_def prv_def pv add_between)
      moreover have "reg_loop ?s p (first_ptr (map fst t)) (list_next (links s (first_ptr (map fst t)))) = Some (Before (first_ptr (map fst bs)))"
      proof -
        have "(ys \<noteq> [] \<and> pri (isrs ?s (hd ys)) = p) = False" using False hb ab(3) by (metis list.map_disc_iff)
        then show ?thesis using xy(3) unfolding ab(3) [symmetric] by (simp only: if_False)
      qed
      ultimately have "intc_service_register n p f s = Some (?s\<lparr>links := linked (links s) (Isr ?n) (last_ptr Hdr (map fst as)) (first_ptr (map fst bs)),
          isrs_mask := isrs_mask s OR BIT ?n\<rparr>)"
        using n(1) ne0 nn by (simp add: intc_service_register_def INTC_MAX_COUNT_def Let_def nxt_def nx)
      moreover have "t_register ?n p f t = as @ ?e # bs"
        using np insort_split [of as ?e bs] la lt ab by (simp add: t_register_def)
      ultimately show ?thesis using new [OF ab(1) la lt] by simp
    qed
  qed
qed


lemma bit_and_not_BIT: "i < 32 \<Longrightarrow> bit (m AND NOT (BIT i)) j \<longleftrightarrow> bit m j \<and> j \<noteq> i"
  by (auto simp: bit_and_iff bit_not_iff bit_BIT dest: bit_imp_le_length)

lemma t_unregister_split: "distinct (map fst (as @ e # bs)) \<Longrightarrow> t_unregister (fst e) (as @ e # bs) = as @ bs"
proof -
  assume d: "distinct (map fst (as @ e # bs))"
  then have "filter (\<lambda>x. fst x \<noteq> fst e) as = as" "filter (\<lambda>x. fst x \<noteq> fst e) bs = bs"
    by (auto simp: filter_id_conv image_iff)
  then show ?thesis by (simp add: t_unregister_def)
qed

lemma intc_unregister_ok:
  assumes tb: "intc_tbl s t" and n: "unat n \<in> fst ` set t"
  shows "\<exists>s'. intc_service_unregister n s = Some (INTC_SUCCESS, s') \<and> intc_tbl s' (t_unregister (unat n) t)"
proof -
  let ?n = "unat n"
  obtain e where e: "e \<in> set t" "fst e = ?n" using n by auto
  then obtain as bs where t: "t = as @ e # bs" "fst e = ?n" using split_list [OF e(1)] by blast
  have sg: "seg (links s) Hdr (map fst as @ ?n # map fst bs) Hdr" and d: "distinct (map fst as @ ?n # map fst bs)"
    and so: "sorted_wrt (\<lambda>a b. t_pri a < t_pri b) (as @ bs)"
    and en: "\<And>x. x \<in> set t \<Longrightarrow> fst x < 32 \<and> isrs s (fst x) = entry_of x \<and> t_func x \<noteq> 0"
    and mk: "\<And>i. i < 32 \<Longrightarrow> bit (isrs_mask s) i \<longleftrightarrow> i \<in> fst ` set t"
    and zr: "\<And>i. i < 32 \<Longrightarrow> i \<notin> fst ` set t \<Longrightarrow> isrs s i = zero_isr \<and> links s (Isr i) = \<lparr>list_next = Null, list_prev = Null\<rparr>"
    using tb t by (auto simp: intc_tbl_def sorted_wrt_append)
  have n32: "?n < 32" using en [of e] t by simp
  obtain L where L: "list_del (Isr ?n) (links s) = Some L" "seg L Hdr (map fst as @ map fst bs) Hdr"
    "\<forall>z. z \<notin> {Hdr} \<union> Isr ` set (map fst as @ map fst bs) \<longrightarrow> L z = links s z"
    using ring_delete [OF sg d] by blast
  have ne: "\<not> list_empty Hdr (links s)" using seg_first [OF sg] by (cases "map fst as") (simp_all add: list_empty_def)
  let ?L = "L(Isr ?n := \<lparr>list_next = Null, list_prev = Null\<rparr>)"
  let ?s = "s\<lparr>links := ?L, isrs_mask := isrs_mask s AND NOT (BIT ?n), isrs := (isrs s)(?n := zero_isr)\<rparr>"
  have un: "intc_service_unregister n s = Some (INTC_SUCCESS, ?s)"
    using n32 ne L(1) by (simp add: intc_service_unregister_def INTC_MAX_COUNT_def)
  have nin: "fst x \<noteq> ?n" if "x \<in> set (as @ bs)" for x using that d by (auto simp: image_iff)
  have sg': "seg ?L Hdr (map fst (as @ bs)) Hdr"
    unfolding map_append by (rule seg_cong [OF L(2)]) (use d in \<open>auto simp: image_iff\<close>)
  have fs: "fst ` set t = insert ?n (fst ` set (as @ bs))" using t by auto
  have nn: "?n \<notin> fst ` set (as @ bs)" using d by auto
  have lz: "?L (Isr i) = \<lparr>list_next = Null, list_prev = Null\<rparr>" if "i < 32" "i \<notin> fst ` set (as @ bs)" for i
  proof (cases "i = ?n")
    case False
    then have "Isr i \<notin> {Hdr} \<union> Isr ` set (map fst as @ map fst bs)" using that(2) by (auto simp: image_iff)
    then show ?thesis using L(3) zr [OF that(1)] False that(2) fs by simp
  qed simp
  have "intc_tbl ?s (as @ bs)"
    unfolding intc_tbl_def
  proof (intro conjI ballI allI impI)
    show "seg (links ?s) Hdr (map fst (as @ bs)) Hdr" using sg' by simp
    show "sorted_wrt (\<lambda>a b. t_pri a < t_pri b) (as @ bs)" by (rule so)
    show "distinct (map fst (as @ bs))" using d by simp
    fix x
    assume x: "x \<in> set (as @ bs)"
    then have xt: "x \<in> set t" using t by auto
    show "fst x < 32" "isrs ?s (fst x) = entry_of x" "t_func x \<noteq> 0" using en [OF xt] nin [OF x] by simp_all
  next
    fix i :: nat
    assume i: "i < 32"
    show "bit (isrs_mask ?s) i = (i \<in> fst ` set (as @ bs))"
    proof -
      have "bit (isrs_mask ?s) i \<longleftrightarrow> bit (isrs_mask s) i \<and> i \<noteq> ?n" using n32 by (simp add: bit_and_not_BIT)
      then show ?thesis using mk [OF i] nn unfolding fs by (metis insert_iff)
    qed
    assume "i \<notin> fst ` set (as @ bs)"
    then show "isrs ?s i = zero_isr" "links ?s (Isr i) = \<lparr>list_next = Null, list_prev = Null\<rparr>"
      using zr [OF i] fs lz [OF i] by auto
  qed
  moreover have "t_unregister ?n t = as @ bs"
    using t_unregister_split [of as e bs] d t by simp
  ultimately show ?thesis using un by auto
qed

lemma pri_loop_ok:
  assumes "seg (links s) p xs Hdr" "xs \<noteq> [] \<longrightarrow> n = list_next (links s (Isr (hd xs)))"
  shows "pri_loop s pr (first_ptr xs) n = Some (\<exists>x \<in> set xs. pri (isrs s x) = pr)"
  using assms
proof (induction xs arbitrary: p n)
  case Nil
  then show ?case by (simp add: pri_loop.simps)
next
  case (Cons x xs)
  have sg: "seg (links s) (Isr x) xs Hdr" using Cons.prems(1) by simp
  have n: "n = first_ptr xs" using Cons.prems(2) seg_first [OF sg] by simp
  have nn: "n \<noteq> Null" unfolding n by (simp add: first_ptr_def split: list.split)
  have IH: "pri_loop s pr (first_ptr xs) (list_next (links s (first_ptr xs))) = Some (\<exists>x \<in> set xs. pri (isrs s x) = pr)"
    by (rule Cons.IH [OF sg]) (simp add: first_ptr_def split: list.split)
  show ?case
    using IH nn unfolding n by (simp add: pri_loop.simps [of s pr "Isr x" "first_ptr xs"] isr_at_def nxt_def eq_commute)
qed

lemma intc_change_ok:
  assumes tb: "intc_tbl s t" and n: "unat n < 32" and f: "f \<noteq> 0"
  shows "\<exists>s'. intc_service_change_handler n f s = Some s' \<and> intc_tbl s' (t_change (unat n) f t)"
proof -
  let ?n = "unat n"
  have sg: "seg (links s) Hdr (map fst t) Hdr" and d: "distinct (map fst t)"
    and en: "\<And>x. x \<in> set t \<Longrightarrow> fst x < 32 \<and> isrs s (fst x) = entry_of x \<and> t_func x \<noteq> 0"
    using tb by (auto simp: intc_tbl_def)
  have fsts: "map fst (t_change ?n f t) = map fst t" by (simp add: t_change_def)
  show ?thesis
  proof (cases "?n \<in> fst ` set t")
    case False
    then have "isr_func (isrs s ?n) = 0" using tb n by (simp add: intc_tbl_def zero_isr_def)
    moreover have "t_change ?n f t = t" using False by (auto simp: t_change_def image_iff intro!: map_idI)
    ultimately show ?thesis using tb n by (simp add: intc_service_change_handler_def INTC_MAX_COUNT_def Let_def)
  next
    case True
    then obtain e where e: "e \<in> set t" "fst e = ?n" by auto
    then have i: "isrs s ?n = entry_of e" "t_func e \<noteq> 0" using en [of e] by simp_all
    have ne: "map fst t \<noteq> []" using e by auto
    have nx: "list_next (links s Hdr) = first_ptr (map fst t)" by (rule seg_first [OF sg])
    have nn: "first_ptr (map fst t) \<noteq> Null" "first_ptr (map fst t) \<noteq> Hdr" using ne by (simp_all add: first_ptr_def split: list.split)
    have pl: "pri_loop s (t_pri e) (first_ptr (map fst t)) (list_next (links s (first_ptr (map fst t)))) = Some True"
    proof -
      have "\<exists>x \<in> set (map fst t). pri (isrs s x) = t_pri e" using e i by (auto simp: entry_of_def intro!: bexI [of _ e])
      then show ?thesis
        using pri_loop_ok [OF sg, of "list_next (links s (first_ptr (map fst t)))" "t_pri e"]
        by (simp add: first_ptr_def split: list.split)
    qed
    have s': "intc_service_change_handler n f s = Some (s\<lparr>isrs := (isrs s)(?n := (entry_of e)\<lparr>isr_func := f\<rparr>)\<rparr>)"
      using n i nn pl nx
      by (simp add: intc_service_change_handler_def INTC_MAX_COUNT_def Let_def list_empty_def nxt_def entry_of_def)
    have so: "sorted_wrt (\<lambda>a b. t_pri a < t_pri b) (t_change ?n f t)"
    proof -
      have "map t_pri (t_change ?n f t) = map t_pri t" by (simp add: t_change_def)
      moreover have "sorted_wrt (<) (map t_pri t)" using tb by (simp add: intc_tbl_def sorted_wrt_map)
      ultimately show ?thesis by (metis sorted_wrt_map)
    qed
    have ent: "fst x < 32 \<and> ((isrs s)(?n := (entry_of e)\<lparr>isr_func := f\<rparr>)) (fst x) = entry_of x \<and> t_func x \<noteq> 0"
      if x: "x \<in> set (t_change ?n f t)" for x
    proof -
      obtain y where y: "y \<in> set t" "x = (if fst y = ?n then (?n, t_pri y, f) else y)"
        using x unfolding t_change_def set_map by (elim imageE) blast
      show ?thesis
      proof (cases "fst y = ?n")
        case True
        then have "y = e" using y(1) e d by (metis eq_key_imp_eq_value prod.collapse)
        then show ?thesis using y(2) True f n by (simp add: entry_of_def)
      next
        case False
        then show ?thesis using y en [OF y(1)] by simp
      qed
    qed
    have fs: "fst ` set (t_change ?n f t) = fst ` set t" using arg_cong [OF fsts, of set] by simp
    have "intc_tbl (s\<lparr>isrs := (isrs s)(?n := (entry_of e)\<lparr>isr_func := f\<rparr>)\<rparr>) (t_change ?n f t)"
      using tb so ent True unfolding intc_tbl_def fsts fs by auto
    then show ?thesis using s' by blast
  qed
qed


subsection \<open>Runs of the operations\<close>

datatype intc_op = Register u8 u8 nat | Unregister u8 | Change u8 nat | Irq u32 | Fiq u32

fun intc_step :: "intc_op \<Rightarrow> intc_st \<Rightarrow> (nat list \<times> intc_st) option" where
  "intc_step (Register n p f) s = do { s' \<leftarrow> intc_service_register n p f s; Some ([], s') }"
| "intc_step (Unregister n) s = do { (r, s') \<leftarrow> intc_service_unregister n s; Some ([], s') }"
| "intc_step (Change n f) s = do { s' \<leftarrow> intc_service_change_handler n f s; Some ([], s') }"
| "intc_step (Irq st) s = do { calls \<leftarrow> intc_irq st s; Some (calls, s) }"
| "intc_step (Fiq st) s = do { calls \<leftarrow> intc_fiq st s; Some (calls, s) }"

definition intc_run :: "intc_op list \<Rightarrow> intc_st \<Rightarrow> (nat list list \<times> intc_st) option" where
  "intc_run = run_ops intc_step"

text \<open>What the operations promise, on the table of the registered interrupts alone: a dispatch calls
  the handlers of the pending interrupts in the order of their priorities, each once.\<close>

definition t_dispatch :: "u32 \<Rightarrow> tbl \<Rightarrow> nat list" where
  "t_dispatch st t = map t_func (filter (\<lambda>e. bit st (fst e)) t)"

fun t_step :: "intc_op \<Rightarrow> tbl \<Rightarrow> nat list \<times> tbl" where
  "t_step (Register n p f) t = ([], t_register (unat n) p f t)"
| "t_step (Unregister n) t = ([], t_unregister (unat n) t)"
| "t_step (Change n f) t = ([], t_change (unat n) f t)"
| "t_step (Irq st) t = (t_dispatch (st AND 0xFFFF) t, t)"
| "t_step (Fiq st) t = (t_dispatch (st AND 0xFFFF0000) t, t)"

definition t_run :: "intc_op list \<Rightarrow> tbl \<Rightarrow> nat list list \<times> tbl" where
  "t_run = spec_ops t_step"

text \<open>What the callers must keep to: numbers of the table, no null handler, no number registered
  twice, and no number unregistered that is not registered.\<close>

fun intc_op_ok :: "intc_op \<Rightarrow> tbl \<Rightarrow> bool" where
  "intc_op_ok (Register n p f) t \<longleftrightarrow> unat n < 32 \<and> f \<noteq> 0 \<and> unat n \<notin> fst ` set t"
| "intc_op_ok (Unregister n) t \<longleftrightarrow> unat n \<in> fst ` set t"
| "intc_op_ok (Change n f) t \<longleftrightarrow> unat n < 32 \<and> f \<noteq> 0"
| "intc_op_ok (Irq st) t \<longleftrightarrow> True"
| "intc_op_ok (Fiq st) t \<longleftrightarrow> True"

definition intc_ops_ok :: "intc_op list \<Rightarrow> tbl \<Rightarrow> bool" where
  "intc_ops_ok = ops_ok intc_op_ok t_step"

lemmas intc_runs = intc_run_def t_run_def intc_ops_ok_def

lemma intc_step_ok:
  assumes "intc_tbl s t" "intc_op_ok a t"
  shows "\<exists>s'. intc_step a s = Some (fst (t_step a t), s') \<and> intc_tbl s' (snd (t_step a t))"
proof (cases a)
  case (Register n p f)
  then show ?thesis using intc_register_ok [OF assms(1), of n f p] assms(2) by auto
next
  case (Unregister n)
  then show ?thesis using intc_unregister_ok [OF assms(1), of n] assms(2) by auto
next
  case (Change n f)
  then show ?thesis using intc_change_ok [OF assms(1), of n f] assms(2) by auto
next
  case (Irq st)
  then show ?thesis using hdl_entry_ok [OF assms(1)] assms(1) by (simp add: intc_irq_def t_dispatch_def)
next
  case (Fiq st)
  then show ?thesis using hdl_entry_ok [OF assms(1)] assms(1) by (simp add: intc_fiq_def t_dispatch_def)
qed

interpretation intc: simulation intc_tbl intc_step t_step intc_op_ok
  by unfold_locales (rule intc_step_ok)

lemmas intc_run_ok = intc.run_refines [folded intc_runs]

lemma seg_unlisted: "intc_tbl s t \<Longrightarrow> t \<noteq> [] \<Longrightarrow> \<not> list_empty Hdr (links s)"
  using seg_first [of "links s" Hdr "map fst t"] by (cases t) (auto simp: intc_tbl_def list_empty_def)

subsection \<open>The loop and its iterations\<close>

lemma hdl_steps_loop: "hdl_steps k s pos n st = Returned r \<Longrightarrow> hdl_loop s pos n st = Some r"
proof (induction k arbitrary: pos n st r)
  case (Suc k)
  have a: "\<exists>r'. x = Returned r' \<and> r = calls @ r'" if "hdl_after calls x = Returned r" for calls x
    using that by (cases x) auto
  show ?case using Suc.prems
    by (subst hdl_loop.simps) (auto simp: Let_def Suc.IH dest!: a split: if_splits option.splits)
qed simp

lemma hdl_loop_steps:
  assumes "hdl_loop s pos n st = Some r"
  shows "\<exists>k. hdl_steps k s pos n st = Returned r"
proof (rule hdl_loop.raw_induct [where P = "\<lambda>s p n st r. \<exists>k. hdl_steps k s p n st = Returned r", OF _ assms], goal_cases)
  case (1 h s p n st r)
  have step: "\<exists>k. hdl_steps (Suc k) s p n st = Returned r"
  proof (cases "p = Hdr")
    case False
    then obtain f where f: "isr_at s p = Some f" using 1(2) by (auto split: bind_splits)
    let ?hit = "(BIT (unat (int_num f)) AND st) \<noteq> 0"
    let ?st = "if ?hit then st AND NOT (BIT (unat (int_num f))) else st"
    let ?calls = "if ?hit then [isr_func f] else []"
    have nf: "\<not> (?hit \<and> isr_func f = 0)"
    proof
      assume "?hit \<and> isr_func f = 0"
      then show False using 1(2) False f by (simp add: Let_def)
    qed
    show ?thesis
    proof (cases "?st = 0")
      case True
      then have "r = ?calls" using 1(2) False f nf by (simp add: Let_def split: if_splits)
      then show ?thesis using True False f nf by (auto simp: Let_def)
    next
      case st: False
      then obtain n' rest where n': "nxt (links s) n = Some n'" "h s n n' ?st = Some rest" "r = ?calls @ rest"
        using 1(2) False f nf by (auto simp: Let_def split: if_splits bind_splits)
      then obtain k where "hdl_steps k s n n' ?st = Returned rest" using 1(1) by blast
      then have "hdl_steps (Suc k) s p n st = Returned r" using False f nf st n'(1,3)
        by (simp only: hdl_steps.simps if_False option.case Let_def hdl_after.simps)
      then show ?thesis by blast
    qed
  qed (use 1(2) in auto)
  then show ?case by blast
qed

lemma never_returns:
  assumes "\<And>k. \<exists>calls. hdl_steps k s pos n st = Running calls"
  shows "hdl_loop s pos n st = None"
proof (rule ccontr)
  assume "hdl_loop s pos n st \<noteq> None"
  then obtain k r where "hdl_steps k s pos n st = Returned r" using hdl_loop_steps by blast
  then show False using assms [of k] by simp
qed

text \<open>A set of entries that the links do not leave, and a pending bit of none of them: the loop runs on.\<close>

lemma hdl_steps_circle:
  assumes closed: "\<And>x. x \<in> C \<Longrightarrow> x < 32 \<and> list_next (links s (Isr x)) \<in> Isr ` C \<and> isr_func (isrs s x) \<noteq> 0 \<and> int_num (isrs s x) = of_nat x"
    and "x \<in> C" "n = list_next (links s (Isr x))" "bit st b" "b \<notin> C"
  shows "\<exists>calls. hdl_steps k s (Isr x) n st = Running calls \<and> set calls \<subseteq> (\<lambda>x. isr_func (isrs s x)) ` C"
  using assms(2-5)
proof (induction k arbitrary: x n st)
  case (Suc k)
  have x: "x < 32" "isr_func (isrs s x) \<noteq> 0" "unat (int_num (isrs s x)) = x"
    using closed [OF Suc.prems(1)] by (auto simp: unat_of_nat_u8)
  obtain y where y: "y \<in> C" "n = Isr y" using closed [OF Suc.prems(1)] Suc.prems(2) by auto
  define st' where "st' = (if (BIT x AND st) \<noteq> 0 then st AND NOT (BIT x) else st)"
  have "b \<noteq> x" using Suc.prems(1,4) by auto
  then have b: "bit st' b" using Suc.prems(3) by (auto simp: st'_def bit_simps bit_BIT [OF x(1)] dest: bit_imp_le_length)
  then have nz: "st' \<noteq> 0" by auto
  obtain calls where c: "hdl_steps k s (Isr y) (list_next (links s (Isr y))) st' = Running calls"
    "set calls \<subseteq> (\<lambda>x. isr_func (isrs s x)) ` C"
    using Suc.IH [OF y(1) refl b Suc.prems(4)] by blast
  let ?calls = "if (BIT x AND st) \<noteq> 0 then [isr_func (isrs s x)] else []"
  have "hdl_steps (Suc k) s (Isr x) n st = Running (?calls @ calls)"
    using x(2) nz c(1) by (simp add: isr_at_def x(3) nxt_def y(2) Let_def st'_def [symmetric])
  moreover have "set (?calls @ calls) \<subseteq> (\<lambda>x. isr_func (isrs s x)) ` C" using c(2) Suc.prems(1) by auto
  ultimately show ?case by blast
qed simp

subsection \<open>The links, forwards\<close>

fun path :: "links \<Rightarrow> lptr \<Rightarrow> nat list \<Rightarrow> lptr \<Rightarrow> bool" where
  "path L p [] q \<longleftrightarrow> list_next (L p) = q"
| "path L p (x # xs) q \<longleftrightarrow> list_next (L p) = Isr x \<and> path L (Isr x) xs q"

lemma seg_path: "seg L p xs q \<Longrightarrow> path L p xs q"
  by (induction xs arbitrary: p) auto

lemma path_append: "path L p (xs @ y # ys) q \<longleftrightarrow> path L p xs (Isr y) \<and> path L (Isr y) ys q"
  by (induction xs arbitrary: p) auto

lemma path_cong:
  "path L p xs q \<Longrightarrow> (\<And>z. z \<in> {p} \<union> Isr ` set xs \<Longrightarrow> list_next (L' z) = list_next (L z)) \<Longrightarrow> path L' p xs q"
  by (induction xs arbitrary: p) auto

lemma path_next: "path L p xs q \<Longrightarrow> x \<in> set xs \<Longrightarrow> list_next (L (Isr x)) \<in> insert q (Isr ` set xs)"
proof (induction xs arbitrary: p)
  case (Cons y ys)
  have "list_next (L (Isr y)) \<in> insert q (Isr ` set ys)" using Cons.prems(1) by (cases ys) auto
  then show ?case using Cons by auto
qed simp

text \<open>A dispatch along a path that has all pending bits returns, wherever the path leads.\<close>

lemma hdl_loop_path:
  assumes "path (links s) p (map fst t) q" "t \<noteq> []" "distinct (map fst t)"
    "\<forall>e \<in> set t. fst e < 32 \<and> isrs s (fst e) = entry_of e \<and> t_func e \<noteq> 0"
    "n = list_next (links s (Isr (fst (hd t))))" "\<And>j. bit st j \<Longrightarrow> j \<in> fst ` set t"
  shows "hdl_loop s (Isr (fst (hd t))) n st = Some (map t_func (filter (\<lambda>e. bit st (fst e)) t))"
  using assms
proof (induction t arbitrary: p n st)
  case (Cons e t)
  let ?i = "fst e"
  have e: "isrs s ?i = entry_of e" "?i < 32" "t_func e \<noteq> 0" using Cons.prems(4) by simp_all
  define st' where "st' = (if bit st ?i then st AND NOT (BIT ?i) else st)"
  have bit': "bit st' j \<longleftrightarrow> bit st j \<and> j \<noteq> ?i" for j
    by (auto simp: st'_def bit_simps bit_BIT [OF e(2)] dest: bit_imp_le_length)
  have f: "filter (\<lambda>x. bit st' (fst x)) t = filter (\<lambda>x. bit st (fst x)) t"
    by (rule filter_cong [OF refl]) (use Cons.prems(3) in \<open>auto simp: bit' image_iff\<close>)
  have at: "isr_at s (Isr ?i) = Some (entry_of e)" by (simp add: isr_at_def e(1))
  have w: "unat (int_num (entry_of e)) = ?i" "isr_func (entry_of e) = t_func e"
    using e by (simp_all add: entry_of_def unat_of_nat_u8)
  show ?case
  proof (cases "st' = 0")
    case True
    then have "filter (\<lambda>x. bit st (fst x)) t = []" using f by (simp add: filter_empty_conv)
    moreover have "hdl_loop s (Isr ?i) n st = Some (if bit st ?i then [t_func e] else [])"
      using True e(3) unfolding hdl_loop.simps [of s "Isr ?i" n st] at Option.bind.simps Let_def w(1) BIT_hit [OF e(2)] st'_def [symmetric]
      by (simp add: w(2))
    ultimately show ?thesis by simp
  next
    case False
    then obtain j where "bit st' j" by (metis bit_eqI bit_0_eq bot_apply bot_bool_def)
    then have j: "bit st j" "j \<noteq> ?i" by (simp_all add: bit')
    then obtain e1 t1 where t: "t = e1 # t1" using Cons.prems(6) by (cases t) auto
    have n: "n = Isr (fst e1)" using Cons.prems(1,5) t by simp
    have "path (links s) (Isr ?i) (map fst t) q" using Cons.prems(1) by simp
    moreover have "\<And>j. bit st' j \<Longrightarrow> j \<in> fst ` set t" using Cons.prems(6) bit' by fastforce
    ultimately have IH: "hdl_loop s (Isr (fst (hd t))) (list_next (links s (Isr (fst (hd t))))) st' = Some (map t_func (filter (\<lambda>x. bit st (fst x)) t))"
      unfolding f [symmetric] using Cons.IH [of "Isr ?i" _ st'] Cons.prems(3,4) t by simp
    have "hdl_loop s (Isr ?i) n st = Some ((if bit st ?i then [t_func e] else []) @ map t_func (filter (\<lambda>x. bit st (fst x)) t))"
      unfolding hdl_loop.simps [of s "Isr ?i" n st] at Option.bind.simps Let_def w(1) BIT_hit [OF e(2)] st'_def [symmetric]
      using False e(3) IH t by (simp add: nxt_def n w(2))
    then show ?thesis by simp
  qed
qed simp

subsection \<open>Registering a listed number\<close>

text \<open>The entries of the list before the number, split at the new priority.\<close>

lemma reregister_split:
  assumes tb: "intc_tbl s (as @ (unat n, q, g) # bs)" and n: "unat n < 32"
  shows "if (\<exists>e \<in> set as. p < t_pri e) \<and> p \<notin> t_pri ` set as
    then \<exists>as1 a as2. as = as1 @ a # as2 \<and> insort_key t_pri (unat n, p, f) as = as1 @ (unat n, p, f) # a # as2 \<and>
      intc_service_register n p f s = Some (s\<lparr>isrs := (isrs s)(unat n := \<lparr>isr_func = f, pri = p, int_num = n\<rparr>),
        links := linked (links s) (Isr (unat n)) (last_ptr Hdr (map fst as1)) (Isr (fst a)), isrs_mask := isrs_mask s OR BIT (unat n)\<rparr>)
    else intc_service_register n p f s = Some s"
proof -
  let ?n = "unat n"
  let ?t = "as @ (?n, q, g) # bs"
  let ?s = "s\<lparr>isrs := (isrs s)(?n := \<lparr>isr_func = f, pri = p, int_num = n\<rparr>)\<rparr>"
  have sg: "seg (links s) Hdr (map fst ?t) Hdr" and d: "distinct (map fst ?t)" and so: "sorted_wrt (\<lambda>a b. t_pri a < t_pri b) ?t"
    and en: "\<And>e. e \<in> set ?t \<Longrightarrow> isrs s (fst e) = entry_of e"
    using tb unfolding intc_tbl_def by blast+
  have pr: "pri (isrs ?s (fst e)) = t_pri e" if "e \<in> set as" for e
    using en [of e] that d by (auto simp: entry_of_def image_iff)
  have prn: "pri (isrs ?s ?n) = p" by simp
  have sgs: "seg (links ?s) Hdr (map fst ?t) Hdr" using sg by simp
  have nxs: "map fst ?t \<noteq> [] \<longrightarrow> list_next (links s (first_ptr (map fst ?t))) = list_next (links ?s (Isr (hd (map fst ?t))))"
    by (simp add: first_ptr_def split: list.split)
  obtain xs ys where xy: "map fst ?t = xs @ ys" "\<forall>a \<in> set xs. pri (isrs ?s a) < p"
    "reg_loop ?s p (first_ptr (map fst ?t)) (list_next (links s (first_ptr (map fst ?t)))) =
      Some (if ys \<noteq> [] \<and> pri (isrs ?s (hd ys)) = p then Same_pri else Before (first_ptr ys))"
    "ys \<noteq> [] \<longrightarrow> p \<le> pri (isrs ?s (hd ys))"
    using reg_loop_ok [OF sgs nxs, where pr = p] by (elim exE conjE) (rule that)
  have nx: "list_next (links s Hdr) = first_ptr (map fst ?t)" by (rule seg_first [OF sg])
  have nn: "first_ptr (map fst ?t) \<noteq> Null" by (simp add: first_ptr_def split: list.split)
  have ne0: "\<not> list_empty Hdr (links s)" using nx by (cases as) (simp_all add: list_empty_def)
  have "?n \<notin> set xs" using xy(2) prn by (metis less_irrefl)
  moreover obtain as1 t2 where t12: "?t = as1 @ t2" "xs = map fst as1" "ys = map fst t2"
    using xy(1) unfolding map_eq_append_conv by blast
  ultimately have ni: "(?n, q, g) \<notin> set as1" by force
  have "\<exists>as2. as = as1 @ as2 \<and> t2 = as2 @ (?n, q, g) # bs"
  proof -
    from t12(1) obtain us where "as = as1 @ us \<and> us @ (?n, q, g) # bs = t2 \<or> as @ us = as1 \<and> (?n, q, g) # bs = us @ t2"
      unfolding append_eq_append_conv2 by blast
    then show ?thesis using ni by (cases us) auto
  qed
  then obtain as2 where as1: "as = as1 @ as2" "xs = map fst as1" and as2: "map fst as = xs @ map fst as2" "ys = map fst as2 @ ?n # map fst bs"
    using t12 by auto
  have lt1: "\<forall>a \<in> set as1. t_pri a < p" using xy(2) pr as1 by auto
  have same: "intc_service_register n p f s = Some s" if "pri (isrs ?s (hd ys)) = p"
    using that as2(2) n ne0 xy(3) nn
    by (simp add: intc_service_register_def INTC_MAX_COUNT_def Let_def nxt_def nx)
  show ?thesis
  proof (cases as2)
    case Nil
    then show ?thesis using same lt1 as1 as2(2) by fastforce
  next
    case (Cons a as3)
    have ha: "pri (isrs ?s (hd ys)) = t_pri a" using pr [of a] as1 as2(2) Cons by simp
    show ?thesis
    proof (cases "t_pri a = p")
      case True
      then show ?thesis using same ha as1 Cons by auto
    next
      case False
      then have gt: "p < t_pri a" using xy(4) ha as2(2) by fastforce
      have gt3: "\<forall>b \<in> set as3. p < t_pri b"
      proof
        fix b assume "b \<in> set as3"
        then have "t_pri a < t_pri b" using so as1 Cons by (simp add: sorted_wrt_append)
        then show "p < t_pri b" using gt by order
      qed
      have c: "(\<exists>e \<in> set as. p < t_pri e) \<and> p \<notin> t_pri ` set as" using gt gt3 lt1 as1 Cons by force
      have ins: "insort_key t_pri (?n, p, f) as = as1 @ (?n, p, f) # a # as3"
        using insort_split [of as1 "(?n, p, f)" as2] lt1 gt as1 Cons by simp
      have pv: "list_prev (links s (Isr (fst a))) = last_ptr Hdr (map fst as1)"
        using sg seg_append [of "links s" Hdr "map fst as1" "fst a" "map fst as3 @ ?n # map fst bs" Hdr]
          seg_last [of "links s" Hdr "map fst as1" "Isr (fst a)"] as1 Cons by simp
      have ln: "last_ptr Hdr (map fst as1) \<noteq> Null" using last_ptr_in [of Hdr "map fst as1"] by auto
      have "list_add_tail (Isr ?n) (Isr (fst a)) (links s) = Some (linked (links s) (Isr ?n) (last_ptr Hdr (map fst as1)) (Isr (fst a)))"
        using ln by (simp add: list_add_tail_def prv_def pv add_between)
      moreover have "reg_loop ?s p (first_ptr (map fst ?t)) (list_next (links s (first_ptr (map fst ?t)))) = Some (Before (Isr (fst a)))"
        using xy(3) ha False as2(2) Cons by simp
      ultimately have reg: "intc_service_register n p f s = Some (s\<lparr>isrs := (isrs s)(?n := \<lparr>isr_func = f, pri = p, int_num = n\<rparr>),
          links := linked (links s) (Isr ?n) (last_ptr Hdr (map fst as1)) (Isr (fst a)), isrs_mask := isrs_mask s OR BIT ?n\<rparr>)"
        using n ne0 nn by (simp add: intc_service_register_def INTC_MAX_COUNT_def Let_def nxt_def nx)
      have "as = as1 @ a # as3" using as1 Cons by simp
      then show ?thesis unfolding if_P [OF c] using ins reg by blast
    qed
  qed
qed

text \<open>The new links: through the entries before, the number at its new place, and back to it.\<close>

lemma reregister_path:
  assumes "seg L Hdr (map fst (as1 @ a # as2 @ (n, q, g) # bs)) Hdr" "distinct (map fst (as1 @ a # as2 @ (n, q, g) # bs))"
  shows "path (linked L (Isr n) (last_ptr Hdr (map fst as1)) (Isr (fst a))) Hdr (map fst as1 @ n # map fst (a # as2)) (Isr n)"
proof -
  let ?A = "map fst as1" and ?L = "linked L (Isr n) (last_ptr Hdr (map fst as1)) (Isr (fst a))"
  have s1: "seg L Hdr ?A (Isr (fst a))" and s2: "seg L (Isr (fst a)) (map fst as2) (Isr n)"
    using assms(1) by (simp_all add: seg_append)
  have "seg ?L Hdr (?A @ [n]) (Isr (fst a))"
    by (rule seg_insert [OF s1]) (use assms(2) in auto)
  then have p1: "path ?L Hdr (?A @ [n]) (Isr (fst a))" by (rule seg_path)
  have ln: "last_ptr Hdr ?A \<in> {Hdr} \<union> Isr ` set ?A" by (rule last_ptr_in)
  moreover have "Isr n \<notin> {Hdr} \<union> Isr ` set ?A" using assms(2) by (auto simp: image_iff)
  ultimately have ne: "Isr n \<noteq> last_ptr Hdr ?A" "Isr n \<noteq> Isr (fst a)" using assms(2) by (metis, auto)
  have out: "list_next (?L z) = list_next (L z)" if "z \<in> {Isr (fst a)} \<union> Isr ` set (map fst as2)" for z
  proof -
    have "z \<notin> {Hdr} \<union> Isr ` set ?A" "z \<noteq> Isr n" using that assms(2) by (auto simp: disjoint_iff)
    then show ?thesis using ln by (metis linked_fields(1) [OF ne])
  qed
  have "path ?L (Isr (fst a)) (map fst as2) (Isr n)" by (rule path_cong [OF seg_path [OF s2] out])
  then show ?thesis using p1 by (simp add: path_append)
qed

lemma reregister_circle:
  assumes tb: "intc_tbl s (as @ (unat n, q, g) # bs)" and f: "f \<noteq> 0" and as: "as = as1 @ a # as2"
    and s'_def: "s' = s\<lparr>isrs := (isrs s)(unat n := \<lparr>isr_func = f, pri = p, int_num = n\<rparr>),
    links := linked (links s) (Isr (unat n)) (last_ptr Hdr (map fst as1)) (Isr (fst a)), isrs_mask := isrs_mask s OR BIT (unat n)\<rparr>"
  shows "if \<exists>e \<in> set bs. bit st (fst e)
    then (\<forall>k. \<exists>calls. hdl_entry_steps k st s' = Running calls) \<and> intc_hdl_entry st s' = None
    else intc_hdl_entry st s' = Some (t_dispatch st (as1 @ (unat n, p, f) # a # as2))"
proof -
  let ?n = "unat n"
  let ?cs = "as1 @ (?n, p, f) # a # as2"
  let ?t = "as1 @ a # as2 @ (?n, q, g) # bs"
  have sg: "seg (links s) Hdr (map fst ?t) Hdr" and d: "distinct (map fst ?t)"
    and en: "\<And>e. e \<in> set ?t \<Longrightarrow> fst e < 32 \<and> isrs s (fst e) = entry_of e \<and> t_func e \<noteq> 0"
    and mk: "\<And>i. i < 32 \<Longrightarrow> bit (isrs_mask s) i \<longleftrightarrow> i \<in> fst ` set ?t"
    using tb unfolding as intc_tbl_def append_assoc append_Cons by blast+
  have n: "?n < 32" using en [of "(?n, q, g)"] by simp
  have pt: "path (links s') Hdr (map fst ?cs) (Isr ?n)"
    using reregister_path [OF sg d] by (simp add: s'_def)
  have dc: "distinct (map fst ?cs)" using d by auto
  have ent: "fst e < 32 \<and> isrs s' (fst e) = entry_of e \<and> t_func e \<noteq> 0" if "e \<in> set ?cs" for e
  proof (cases "e = (?n, p, f)")
    case False
    then have e: "e \<in> set as1 \<union> {a} \<union> set as2" using that by auto
    then have "fst e \<in> fst ` (set as1 \<union> {a} \<union> set as2)" by (rule imageI)
    moreover have "?n \<notin> fst ` (set as1 \<union> {a} \<union> set as2)" using d by auto
    ultimately have "fst e \<noteq> ?n" by metis
    moreover have "e \<in> set ?t" using e by auto
    ultimately have "e \<in> set ?t" "fst e \<noteq> ?n" by simp_all
    then show ?thesis using en [of e] by (simp add: s'_def)
  qed (use n f in \<open>simp add: s'_def entry_of_def\<close>)
  let ?st = "st AND isrs_mask s'"
  have bm: "bit ?st j \<longleftrightarrow> bit st j \<and> j \<in> fst ` set ?cs \<union> fst ` set bs" for j
  proof (cases "j < 32")
    case True
    then show ?thesis using mk [OF True] n by (auto simp: s'_def bit_and_iff bit_or_BIT)
  qed (auto dest: bit_imp_le_length)
  let ?x = "fst (hd ?cs)"
  have first: "list_next (links s' Hdr) = Isr ?x" using pt by (cases as1) auto
  have x: "?x \<in> fst ` set ?cs" by (rule imageI, rule hd_in_set) simp
  have entry: "hdl_entry_steps k st s' = hdl_steps k s' (Isr ?x) (list_next (links s' (Isr ?x))) ?st"
    "intc_hdl_entry st s' = hdl_loop s' (Isr ?x) (list_next (links s' (Isr ?x))) ?st" for k
    unfolding hdl_entry_steps_def intc_hdl_entry_def nxt_def Let_def first by simp_all
  show ?thesis
  proof (cases "\<exists>e \<in> set bs. bit st (fst e)")
    case True
    then obtain b where b: "b \<in> set bs" "bit st (fst b)" by blast
    have "bit ?st (fst b)" "fst b \<notin> fst ` set ?cs" using b bm d by (auto simp: image_iff)
    moreover have "y < 32 \<and> list_next (links s' (Isr y)) \<in> Isr ` (fst ` set ?cs) \<and> isr_func (isrs s' y) \<noteq> 0 \<and> int_num (isrs s' y) = of_nat y"
      if y: "y \<in> fst ` set ?cs" for y
    proof -
      obtain e where e: "e \<in> set ?cs" "y = fst e" using y by blast
      have "list_next (links s' (Isr y)) \<in> insert (Isr ?n) (Isr ` set (map fst ?cs))"
        by (rule path_next [OF pt]) (use y in \<open>simp add: image_Un\<close>)
      then show ?thesis using ent [OF e(1)] e(2) by (auto simp: entry_of_def)
    qed
    ultimately have run: "\<exists>calls. hdl_steps k s' (Isr ?x) (list_next (links s' (Isr ?x))) ?st = Running calls" for k
      using hdl_steps_circle [of "fst ` set ?cs" s' ?x _ ?st "fst b" k] x by blast
    then show ?thesis unfolding if_P [OF True] entry using never_returns [OF run] by blast
  next
    case False
    have "hdl_loop s' (Isr ?x) (list_next (links s' (Isr ?x))) ?st = Some (map t_func (filter (\<lambda>e. bit ?st (fst e)) ?cs))"
      by (rule hdl_loop_path [OF pt _ dc]) (use ent bm False in auto)
    moreover have "filter (\<lambda>e. bit ?st (fst e)) ?cs = filter (\<lambda>e. bit st (fst e)) ?cs"
      by (rule filter_cong [OF refl]) (use bm in auto)
    ultimately show ?thesis unfolding if_not_P [OF False] entry t_dispatch_def by metis
  qed
qed

subsection \<open>Properties\<close>

text \<open>C9: Any sequence of registrations, removals, handler changes and interrupts that keeps to the
  rules of \<open>intc_ops_ok\<close> runs without reading or writing through a null pointer and without looping, and
  does what the table of the registered interrupts says: every interrupt calls the handlers of its
  pending registered bits, each once, in the strict order of their priorities; a registration at a
  priority already taken changes nothing; \<open>intc_irq\<close> serves the low half of the status and
  \<open>intc_fiq\<close> the high half.\<close>

theorem intc_run_refines_table:
  assumes "intc_ops_ok as []"
  shows "\<exists>s. intc_run as intc_boot = Some (fst (t_run as []), s) \<and> intc_tbl s (snd (t_run as []))"
  using intc_run_ok [OF boot_tbl assms] .

lemma intc_run_refines_table_witness:
  "\<exists>s. intc_run [Register 2 7 100, Register 9 3 200, Register 20 5 300, Change 2 400, Irq 0xFFFFFFFF, Fiq 0xFFFFFFFF, Unregister 9, Irq 0xFFFFFFFF] intc_boot
     = Some ([[], [], [], [], [200, 400], [300], [], [400]], s) \<and> intc_tbl s [(20, 5, 300), (2, 7, 400)]"
  using intc_run_refines_table [of "[Register 2 7 100, Register 9 3 200, Register 20 5 300, Change 2 400, Irq 0xFFFFFFFF, Fiq 0xFFFFFFFF, Unregister 9, Irq 0xFFFFFFFF]"]
  by (simp add: intc_runs t_register_def t_unregister_def t_change_def t_dispatch_def)

text \<open>Removing an interrupt number that is not registered while others are reads the entry's null
  links and writes through them, whatever the registered table: the removal has no check that the
  entry is in the list.\<close>

theorem intc_unregister_unknown_faults:
  assumes "intc_tbl s t" "t \<noteq> []" "unat n < 32" "unat n \<notin> fst ` set t"
  shows "intc_service_unregister n s = None"
proof -
  have "links s (Isr (unat n)) = \<lparr>list_next = Null, list_prev = Null\<rparr>" using assms by (simp add: intc_tbl_def)
  then have "list_del (Isr (unat n)) (links s) = None"
    by (simp add: list_del_def prv_def nxt_def list_del_between_def set_prv_def)
  then show ?thesis using assms(3) seg_unlisted [OF assms(1,2)] by (simp add: intc_service_unregister_def INTC_MAX_COUNT_def)
qed

lemma intc_unregister_unknown_faults_witness:
  "\<exists>s. intc_service_register 2 7 100 intc_boot = Some s \<and> intc_service_unregister 3 s = None"
proof -
  obtain s where "intc_service_register 2 7 100 intc_boot = Some s" "intc_tbl s [(2, 7, 100)]"
    using intc_register_ok [OF boot_tbl, of 2 100 7] by (auto simp: t_register_def)
  then show ?thesis using intc_unregister_unknown_faults [of s "[(2, 7, 100)]" 3] by simp
qed

text \<open>C28: Registering a number that is already in the list, at any place of the list: unless the new priority is below that of an entry
  standing before it, and held by no entry before it, nothing changes.  Otherwise the entry is linked a second time
  and closes the list into a circle: the entries that stood behind it are no longer reached, and a dispatch with one of their
  interrupts pending runs on for ever, iteration after iteration without a null access; a dispatch with none of them pending
  returns, with the entry at its new place.\<close>

theorem intc_reregister_hangs_dispatch:
  assumes "intc_tbl s (as @ (unat n, q, g) # bs)" "f \<noteq> 0"
  shows "if (\<exists>e \<in> set as. p < t_pri e) \<and> p \<notin> t_pri ` set as
    then \<exists>s'. intc_service_register n p f s = Some s' \<and>
      (\<forall>st. if \<exists>e \<in> set bs. bit st (fst e)
            then (\<forall>k. \<exists>calls. hdl_entry_steps k st s' = Running calls) \<and> intc_hdl_entry st s' = None
            else intc_hdl_entry st s' = Some (t_dispatch st (insort_key t_pri (unat n, p, f) as)))
    else intc_service_register n p f s = Some s"
proof (cases "(\<exists>e \<in> set as. p < t_pri e) \<and> p \<notin> t_pri ` set as")
  case True
  have n: "unat n < 32" using assms(1) by (simp add: intc_tbl_def)
  obtain as1 a as2 where s': "as = as1 @ a # as2" "insort_key t_pri (unat n, p, f) as = as1 @ (unat n, p, f) # a # as2"
    "intc_service_register n p f s = Some (s\<lparr>isrs := (isrs s)(unat n := \<lparr>isr_func = f, pri = p, int_num = n\<rparr>),
        links := linked (links s) (Isr (unat n)) (last_ptr Hdr (map fst as1)) (Isr (fst a)), isrs_mask := isrs_mask s OR BIT (unat n)\<rparr>)"
    using reregister_split [OF assms(1) n, of p f] unfolding if_P [OF True] by blast
  show ?thesis unfolding if_P [OF True] s'(2)
    by (rule exI, rule conjI [OF s'(3)], intro allI, rule reregister_circle [OF assms s'(1) refl])
next
  case False
  have "unat n < 32" using assms(1) by (simp add: intc_tbl_def)
  from reregister_split [OF assms(1) this, of p f] show ?thesis unfolding if_not_P [OF False] .
qed

lemma intc_reregister_hangs_dispatch_witness:
  "\<exists>s. intc_run [Register 9 5 100, Register 5 10 200, Register 7 20 300, Register 5 3 200] intc_boot = Some ([[], [], [], []], s)
     \<and> (\<forall>k. \<exists>calls. hdl_entry_steps k 0x80 s = Running calls) \<and> intc_hdl_entry 0x220 s = Some [200, 100]"
proof -
  let ?ops = "[Register 9 5 100, Register 5 10 200, Register 7 20 300]"
  obtain s where run: "intc_run ?ops intc_boot = Some ([[], [], []], s)" and "intc_tbl s [(9, 5, 100), (5, 10, 200), (7, 20, 300)]"
    using intc_run_ok [OF boot_tbl, of ?ops] by (auto simp: t_register_def intc_ops_ok_def t_run_def)
  then have tb: "intc_tbl s ([(9, 5, 100)] @ (unat (5::u8), 10, 200) # [(7, 20, 300)])" by simp
  have "(\<exists>e \<in> set [(9::nat, 5::u8, 100::nat)]. 3 < t_pri e) \<and> 3 \<notin> t_pri ` set [(9::nat, 5::u8, 100::nat)]" by simp
  then obtain s' where s': "intc_service_register 5 3 200 s = Some s'"
    "\<forall>st. if \<exists>e \<in> set [(7::nat, 20::u8, 300::nat)]. bit st (fst e)
       then (\<forall>k. \<exists>calls. hdl_entry_steps k st s' = Running calls) \<and> intc_hdl_entry st s' = None
       else intc_hdl_entry st s' = Some (t_dispatch st (insort_key t_pri (unat (5::u8), 3, 200) [(9, 5, 100)]))"
    using intc_reregister_hangs_dispatch [OF tb, where f = 200 and p = 3] by auto
  have "\<forall>k. \<exists>calls. hdl_entry_steps k 0x80 s' = Running calls" using s'(2) [THEN spec, of "0x80"] by simp
  moreover have "intc_hdl_entry 0x220 s' = Some [200, 100]" using s'(2) [THEN spec, of "0x220"] by (simp add: t_dispatch_def)
  moreover have "intc_run [Register 9 5 100, Register 5 10 200, Register 7 20 300, Register 5 3 200] intc_boot = Some ([[], [], [], []], s')"
    using run s'(1) by (auto simp: intc_run_def split: bind_splits)
  ultimately show ?thesis by blast
qed

end
