(* ===== verification/RtcTime.thy ===== *)
theory RtcTime
  imports Prelude "HOL-Library.Monad_Syntax"
begin

text \<open>
  Calendar time of \<open>func/rtc/rtc_time.c\<close>: broken-down time from seconds (\<open>gmtime_r_at\<close>), back
  again (\<open>mktime_at\<close>), and the textual form (\<open>asctime_r_at\<close>).

  \<open>time_t_at\<close> is a 64 bit integer, the fields of \<open>struct tm_at\<close> are \<open>int\<close>: both are integers
  here, and a conversion to \<open>int\<close> is written \<open>to_int\<close>.  The arithmetic of \<open>mktime_at\<close> on \<open>int\<close>
  fields is exact as long as no field leaves the \<open>int\<close> range (signed overflow is undefined in
  C).  Division and remainder truncate towards zero, as in C.  Reading \<open>__spm\<close>, \<open>days\<close> or
  \<open>months\<close> outside the array is the result \<open>None\<close>.
\<close>

subsection \<open>Data\<close>

record tm_at =
  tm_sec :: int
  tm_min :: int
  tm_hour :: int
  tm_mday :: int
  tm_mon :: int
  tm_year :: int
  tm_wday :: int
  tm_yday :: int
  tm_isdst :: int
  tm_gmtoff :: int

definition c_div :: "int \<Rightarrow> int \<Rightarrow> int" where
  "c_div a b = sgn a * sgn b * (\<bar>a\<bar> div \<bar>b\<bar>)"

definition c_rem :: "int \<Rightarrow> int \<Rightarrow> int" where
  "c_rem a b = a - b * c_div a b"

definition to_int :: "int \<Rightarrow> int" where "to_int n = signed_take_bit 31 n"

definition spm :: "int list" where
  "spm = [0, 31, 31+28, 31+28+31, 31+28+31+30, 31+28+31+30+31, 31+28+31+30+31+30,
     31+28+31+30+31+30+31, 31+28+31+30+31+30+31+31, 31+28+31+30+31+30+31+31+30,
     31+28+31+30+31+30+31+31+30+31, 31+28+31+30+31+30+31+31+30+31+30,
     31+28+31+30+31+30+31+31+30+31+30+31]"

definition SPD :: int where "SPD = 24 * 60 * 60"

definition isleap :: "int \<Rightarrow> bool" where
  "isleap year \<longleftrightarrow> c_rem year 4 = 0 \<and> (c_rem year 100 \<noteq> 0 \<or> c_rem year 400 = 0)"

subsection \<open>Seconds to date\<close>

function year_loop :: "int \<Rightarrow> int \<Rightarrow> int \<times> int" where
  "year_loop i work =
     (let k = (if isleap (to_int i) then 366 else 365) in
      if k \<le> work then year_loop (i + 1) (work - k) else (i, work))"
  by pat_completeness auto
termination by (relation "measure (\<lambda>(i, w). nat w)") (auto split: if_splits)

declare year_loop.simps [simp del]

fun mon_loop :: "nat \<Rightarrow> int \<Rightarrow> nat" where
  "mon_loop 0 work = 0"
| "mon_loop (Suc n) work = (if work < spm ! Suc n then mon_loop n work else Suc n)"

definition gmtime_r_at :: "int \<Rightarrow> tm_at \<Rightarrow> tm_at" where
  "gmtime_r_at timep r =
     (let w = c_rem timep SPD;
          sec = c_rem w 60; w1 = c_div w 60;
          min = c_rem w1 60; hour = c_div w1 60;
          dy = c_div timep SPD;
          wday = c_rem (4 + dy) 7;
          (i, work) = year_loop 1970 dy;
          yday = work;
          past_feb = (isleap (to_int i) \<and> 58 < work);
          mday = (if past_feb \<and> work = 59 then 2 else 1);
          work1 = (if past_feb then work - 1 else work);
          mon = mon_loop 11 work1 in
      r\<lparr>tm_sec := to_int sec, tm_min := to_int min, tm_hour := to_int hour, tm_wday := to_int wday,
        tm_year := to_int (i - 1900), tm_yday := to_int yday, tm_mon := int mon,
        tm_mday := to_int (mday + (work1 - spm ! mon))\<rparr>)"

text \<open>
  \<open>localtime_r_at\<close> passes a zeroed time zone to \<open>gettimeofday_at\<close>, which does not look at it.
\<close>

definition localtime_r_at :: "int \<Rightarrow> tm_at \<Rightarrow> tm_at" where
  "localtime_r_at t r =
     (let tz_minuteswest = 0; timezone = tz_minuteswest * 60; tmp = t + timezone in gmtime_r_at tmp r)"

subsection \<open>Date to seconds\<close>

definition spm_at :: "int \<Rightarrow> int option" where
  "spm_at i = (if 0 \<le> i \<and> i < 13 then Some (spm ! nat i) else None)"

lemma spm_nth:
  "spm ! 0 = 0" "spm ! 1 = 31" "spm ! 2 = 59" "spm ! 3 = 90" "spm ! 4 = 120" "spm ! 5 = 151" "spm ! 6 = 181"
  "spm ! 7 = 212" "spm ! 8 = 243" "spm ! 9 = 273" "spm ! 10 = 304" "spm ! 11 = 334" "spm ! 12 = 365"
  by (simp_all add: spm_def)

lemma spm_at_eq:
  "spm_at i = Some c \<Longrightarrow> 0 \<le> i \<and> i \<le> 12 \<and> 0 \<le> c \<and> (0 < i \<longrightarrow> 0 < c)"
proof -
  assume a: "spm_at i = Some c"
  then have r: "0 \<le> i" "i < 13" "c = spm ! nat i" by (simp_all add: spm_at_def split: if_splits)
  then have "i = 0 \<or> i = 1 \<or> i = 2 \<or> i = 3 \<or> i = 4 \<or> i = 5 \<or> i = 6 \<or> i = 7 \<or> i = 8 \<or> i = 9 \<or> i = 10 \<or> i = 11 \<or> i = 12"
    by presburger
  then show ?thesis using r(3) by (elim disjE) (simp_all add: spm_def)
qed

function mday_loop :: "tm_at \<Rightarrow> tm_at option" where
  "mday_loop t =
     (case (spm_at (1 + tm_mon t), spm_at (tm_mon t)) of
        (Some bound, cum) \<Rightarrow>
          if bound < tm_mday t
          then (case cum of
                  None \<Rightarrow> None
                | Some c \<Rightarrow>
                    (let t1 = (if tm_mon t = 1 \<and> isleap (tm_year t + 1900)
                               then t\<lparr>tm_mday := tm_mday t - 1\<rparr> else t);
                         t2 = t1\<lparr>tm_mday := tm_mday t1 - c\<rparr>;
                         t3 = t2\<lparr>tm_mon := tm_mon t2 + 1\<rparr>;
                         t4 = (if 11 < tm_mon t3 then t3\<lparr>tm_mon := 0, tm_year := tm_year t3 + 1\<rparr> else t3)
                     in mday_loop t4))
          else Some t
      | (None, _) \<Rightarrow> None)"
  by pat_completeness auto

termination
proof (relation "measures [\<lambda>t. nat (tm_mday t), \<lambda>t. nat (12 - tm_mon t)]", goal_cases)
  case 1
  then show ?case by simp
next
  case (2 t x1 x2 b c t1 t2 t3 t4)
  then show ?case
    using spm_at_eq [of "1 + tm_mon t" b] spm_at_eq [of "tm_mon t" c]
    by (auto split: if_splits)
qed

declare mday_loop.simps [simp del]

definition mktime_at :: "tm_at \<Rightarrow> (tm_at \<times> int) option" where
  "mktime_at t =
     (let years = tm_year t - 70;
          t1 = (if 60 < tm_sec t
                then t\<lparr>tm_min := tm_min t + c_div (tm_sec t) 60, tm_sec := c_rem (tm_sec t) 60\<rparr> else t);
          t2 = (if 60 < tm_min t1
                then t1\<lparr>tm_hour := tm_hour t1 + c_div (tm_min t1) 60, tm_min := c_rem (tm_min t1) 60\<rparr> else t1);
          t3 = (if 24 < tm_hour t2
                then t2\<lparr>tm_mday := tm_mday t2 + c_div (tm_hour t2) 24, tm_hour := c_rem (tm_hour t2) 24\<rparr> else t2);
          t4 = (if 12 < tm_mon t3
                then t3\<lparr>tm_year := tm_year t3 + c_div (tm_mon t3) 12, tm_mon := c_rem (tm_mon t3) 12\<rparr> else t3) in
      do {
        t5 \<leftarrow> mday_loop t4;
        if tm_year t5 < 70 then Some (t5, -1)
        else do {
          let day = years * 365 + c_div (years + 1) 4;
          let day1 = (if 131 \<le> years
                      then (let y1 = c_div (years - 131) 100;
                                y2 = y1 AND 3;
                                y3 = (if y2 = 3 then y2 - 1 else y2) in
                            day - (drop_bit 2 y1 * 3 + 1) - y3)
                      else day);
          c \<leftarrow> spm_at (tm_mon t5);
          let yday = c + tm_mday t5 - 1
                + (if isleap (tm_year t5 + 1900) \<and> 1 < tm_mon t5 then 1 else 0);
          let day2 = day1 + yday;
          let t6 = t5\<lparr>tm_yday := yday, tm_wday := to_int (c_rem (day2 + 4) 7)\<rparr>;
          Some (t6, ((day2 * 24 + tm_hour t6) * 60 + tm_min t6) * 60 + tm_sec t6)
        } })"

subsection \<open>Text\<close>

definition days :: "u8 list" where "days = cstr ''Sun Mon Tue Wed Thu Fri Sat ''"
definition months :: "u8 list" where
  "months = cstr ''Jan Feb Mar Apr May Jun Jul Aug Sep Oct Nov Dec ''"

definition num2str :: "int \<Rightarrow> u8 list" where
  "num2str i = [of_int (c_div i 10 + 48), of_int (c_rem i 10 + 48)]"

text \<open>Four bytes of a string constant and its terminator, at a signed offset.\<close>

definition load4 :: "u8 list \<Rightarrow> int \<Rightarrow> u8 list option" where
  "load4 s off = (if 0 \<le> off then mem_load (s @ [0]) (nat off) 4 else None)"

definition asctime_r_at :: "tm_at \<Rightarrow> u8 list \<Rightarrow> u8 list option" where
  "asctime_r_at t buf =
     do {
       d \<leftarrow> load4 days (tm_wday t * 4);
       b \<leftarrow> mem_store buf 0 d;
       m \<leftarrow> load4 months (tm_mon t * 4);
       b \<leftarrow> mem_store b 4 m;
       b \<leftarrow> mem_store b 8 (num2str (tm_mday t));
       b \<leftarrow> (if b ! 8 = 0x30 then mem_store b 8 [0x20] else Some b);
       b \<leftarrow> mem_store b 10 [0x20];
       b \<leftarrow> mem_store b 11 (num2str (tm_hour t));
       b \<leftarrow> mem_store b 13 [0x3A];
       b \<leftarrow> mem_store b 14 (num2str (tm_min t));
       b \<leftarrow> mem_store b 16 [0x3A];
       b \<leftarrow> mem_store b 17 (num2str (tm_sec t));
       b \<leftarrow> mem_store b 19 [0x20];
       b \<leftarrow> mem_store b 20 (num2str (c_div (tm_year t + 1900) 100));
       b \<leftarrow> mem_store b 22 (num2str (c_rem (tm_year t + 1900) 100));
       mem_store b 24 [0x0A] }"

subsection \<open>The calendar\<close>

text \<open>The reference: leap years and month lengths of the Gregorian calendar, days since 1970.\<close>

definition leap :: "int \<Rightarrow> bool" where
  "leap y \<longleftrightarrow> 4 dvd y \<and> (100 dvd y \<longrightarrow> 400 dvd y)"

definition month_lens :: "int \<Rightarrow> int list" where
  "month_lens y = [31, if leap y then 29 else 28, 31, 30, 31, 30, 31, 31, 30, 31, 30, 31]"

definition year_len :: "int \<Rightarrow> int" where "year_len y = (if leap y then 366 else 365)"

fun year_days :: "nat \<Rightarrow> int" where
  "year_days 0 = 0"
| "year_days (Suc n) = year_days n + year_len (1970 + int n)"

definition civil_day :: "int \<Rightarrow> int \<Rightarrow> int \<Rightarrow> int" where
  "civil_day y m d = year_days (nat (y - 1970)) + sum_list (take (nat m) (month_lens y)) + d - 1"

definition valid_date :: "int \<Rightarrow> int \<Rightarrow> int \<Rightarrow> bool" where
  "valid_date y m d \<longleftrightarrow> 1970 \<le> y \<and> 0 \<le> m \<and> m < 12 \<and> 1 \<le> d \<and> d \<le> month_lens y ! nat m"

definition valid_time :: "tm_at \<Rightarrow> bool" where
  "valid_time t \<longleftrightarrow> 0 \<le> tm_sec t \<and> tm_sec t < 60 \<and> 0 \<le> tm_min t \<and> tm_min t < 60 \<and>
     0 \<le> tm_hour t \<and> tm_hour t < 24"

lemma c_div_pos: "0 \<le> a \<Longrightarrow> 0 < b \<Longrightarrow> c_div a b = a div b"
  by (cases "a = 0") (simp_all add: c_div_def)

lemma c_rem_pos: "0 \<le> a \<Longrightarrow> 0 < b \<Longrightarrow> c_rem a b = a mod b"
  by (simp add: c_rem_def c_div_pos minus_mult_div_eq_mod)

lemma c_rem_zero: "0 < b \<Longrightarrow> c_rem a b = 0 \<longleftrightarrow> b dvd a"
proof -
  assume b: "0 < b"
  have "c_rem a b = sgn a * (\<bar>a\<bar> mod b)"
    using b by (simp add: c_rem_def c_div_def minus_mult_div_eq_mod [symmetric] right_diff_distrib sgn_mult_abs mult.left_commute)
  then show ?thesis using b by (auto simp: dvd_eq_mod_eq_0 [symmetric] sgn_eq_0_iff)
qed

lemma isleap_leap [simp]: "isleap y = leap y"
  by (auto simp: isleap_def leap_def c_rem_zero)

lemma to_int_id: "- 2147483648 \<le> n \<Longrightarrow> n < 2147483648 \<Longrightarrow> to_int n = n"
  unfolding to_int_def by (rule signed_take_bit_int_eq_self) simp_all

lemma year_loop_days:
  "0 \<le> w \<Longrightarrow> 1970 + int n + w div 365 < 2147483648 \<Longrightarrow>
   \<exists>n' w'. year_loop (1970 + int n) w = (1970 + int n', w') \<and> n \<le> n' \<and> 0 \<le> w' \<and> w' < year_len (1970 + int n') \<and>
     year_days n + w = year_days n' + w' \<and> int n' \<le> int n + w div 365"
proof (induction "nat w" arbitrary: n w rule: less_induct)
  case less
  let ?k = "year_len (1970 + int n)"
  have k: "365 \<le> ?k" by (simp add: year_len_def)
  have t: "to_int (1970 + int n) = 1970 + int n" using less.prems by (intro to_int_id) linarith+
  show ?case
  proof (cases "?k \<le> w")
    case True
    have d: "(w - ?k) div 365 + 1 \<le> w div 365"
      using k True zdiv_mono1 [of "w - ?k" "w - 365" 365] by simp
    have "\<exists>n' w'. year_loop (1970 + int (Suc n)) (w - ?k) = (1970 + int n', w') \<and> Suc n \<le> n' \<and> 0 \<le> w' \<and>
        w' < year_len (1970 + int n') \<and> year_days (Suc n) + (w - ?k) = year_days n' + w' \<and>
        int n' \<le> int (Suc n) + (w - ?k) div 365"
      using k True less.prems d by (intro less.hyps) linarith+
    moreover have "year_loop (1970 + int n) w = year_loop (1970 + int (Suc n)) (w - ?k)"
      using True t by (subst year_loop.simps) (simp add: year_len_def Let_def add.assoc add.commute)
    ultimately show ?thesis using d by fastforce
  next
    case False
    then have "year_loop (1970 + int n) w = (1970 + int n, w)"
      using t by (subst year_loop.simps) (simp add: year_len_def Let_def)
    then show ?thesis using False less.prems by (intro exI [of _ n] exI [of _ w]) auto
  qed
qed

lemma less_12_cases: "m < (12 :: nat) \<longleftrightarrow> m \<in> {0, 1, 2, 3, 4, 5, 6, 7, 8, 9, 10, 11}"
  by (auto simp: numeral_eq_Suc less_Suc_eq)

lemma mon_loop_bounds:
  assumes "0 \<le> w" "w < 365"
  shows "mon_loop 11 w < 12" "spm ! mon_loop 11 w \<le> w" "w < spm ! Suc (mon_loop 11 w)"
proof -
  have g: "mon_loop n w \<le> n \<and> spm ! mon_loop n w \<le> w \<and> (n < 12 \<longrightarrow> w < spm ! Suc n \<longrightarrow> w < spm ! Suc (mon_loop n w))" for n
    using assms(1) by (induction n) (auto simp: spm_nth)
  show "mon_loop 11 w < 12" using g [of 11] by simp
  show "spm ! mon_loop 11 w \<le> w" using g by simp
  have "w < spm ! Suc 11" using assms(2) by (simp add: spm_def)
  then show "w < spm ! Suc (mon_loop 11 w)" using g [of 11] by simp
qed

lemma date_of_day:
  fixes w y :: int
  assumes w: "0 \<le> w" "w < year_len y"
  defines "w1 \<equiv> if leap y \<and> 58 < w then w - 1 else w"
  defines "d \<equiv> (if leap y \<and> w = 59 then 2 else 1) + (w1 - spm ! mon_loop 11 w1)"
  shows "mon_loop 11 w1 < 12 \<and> 1 \<le> d \<and> d \<le> month_lens y ! mon_loop 11 w1 \<and>
    sum_list (take (mon_loop 11 w1) (month_lens y)) + d - 1 = w"
proof -
  have r: "0 \<le> w1" "w1 < 365" using w by (auto simp: w1_def year_len_def split: if_splits)
  note b = mon_loop_bounds [OF r]
  have dw: "w = (if leap y \<and> 58 < w then w1 + 1 else w1)" by (simp add: w1_def)
  have "spm ! mon_loop 11 w1 \<le> w1 \<longrightarrow> w1 < spm ! Suc (mon_loop 11 w1) \<longrightarrow>
    1 \<le> d \<and> d \<le> month_lens y ! mon_loop 11 w1 \<and> sum_list (take (mon_loop 11 w1) (month_lens y)) + d - 1 = w"
    using b(1) unfolding less_12_cases d_def
    by (elim insertE emptyE; simp add: spm_def month_lens_def) (auto simp: w1_def split: if_splits)
  then show ?thesis using b by simp
qed

lemma to_int_small: "0 \<le> n \<Longrightarrow> n < 2147483648 \<Longrightarrow> to_int n = n"
  by (rule to_int_id) simp_all

lemma day_split:
  fixes w :: int
  assumes w: "0 \<le> w" "w < 86400"
  shows "w div 60 div 60 * 3600 + w div 60 mod 60 * 60 + w mod 60 = w"
    "0 \<le> w div 60 div 60" "w div 60 div 60 < 24" "0 \<le> w div 60 mod 60" "w div 60 mod 60 < 60"
    "0 \<le> w mod 60" "w mod 60 < 60" "0 \<le> w div 60"
proof -
  have "w div 60 = w div 60 div 60 * 60 + w div 60 mod 60" "w = w div 60 * 60 + w mod 60" by simp_all
  then show "w div 60 div 60 * 3600 + w div 60 mod 60 * 60 + w mod 60 = w" by linarith
  have "w div 60 div 60 = w div 3600" by (simp add: zdiv_zmult2_eq [symmetric])
  then show "w div 60 div 60 < 24" using w by simp
  show "0 \<le> w div 60 div 60" "0 \<le> w div 60" using w(1) by (simp_all add: pos_imp_zdiv_nonneg_iff)
qed simp_all

lemma mday_bounds:
  "c \<le> x \<Longrightarrow> 0 \<le> c \<Longrightarrow> x < 365 \<Longrightarrow>
     1 \<le> (if P then 2 else 1) + (x - c) \<and> (if P then 2 else 1) + (x - c) < (2147483648 :: int)"
  by auto

lemma gmtime_fields:
  assumes t: "0 \<le> t" "t < 2 ^ 55"
  obtains n w w1 where "0 \<le> w" "w < year_len (1970 + int n)" "year_days n + w = t div 86400" "int n < 2147480000"
    "w1 = (if leap (1970 + int n) \<and> 58 < w then w - 1 else w)"
    "tm_year (gmtime_r_at t r) = int n + 70" "tm_yday (gmtime_r_at t r) = w"
    "tm_mon (gmtime_r_at t r) = int (mon_loop 11 w1)"
    "tm_mday (gmtime_r_at t r) = (if leap (1970 + int n) \<and> w = 59 then 2 else 1) + (w1 - spm ! mon_loop 11 w1)"
    "tm_hour (gmtime_r_at t r) = t mod 86400 div 60 div 60" "tm_min (gmtime_r_at t r) = t mod 86400 div 60 mod 60"
    "tm_sec (gmtime_r_at t r) = t mod 86400 mod 60" "tm_wday (gmtime_r_at t r) = (4 + t div 86400) mod 7"
proof -
  have m: "0 \<le> t mod 86400" "t mod 86400 < 86400" by simp_all
  note d = day_split [OF m]
  have dy: "0 \<le> t div 86400" "t div 86400 div 365 < 2147480000" using t by simp_all
  then obtain n w where L: "year_loop 1970 (t div 86400) = (1970 + int n, w)" "0 \<le> w" "w < year_len (1970 + int n)"
    "t div 86400 = year_days n + w" "int n \<le> t div 86400 div 365"
    using year_loop_days [of "t div 86400" 0] by auto
  have n: "int n < 2147480000" using L(5) dy by linarith
  define P where "P = (leap (1970 + int n) \<and> 58 < w)"
  define w1 where "w1 = (if P then w - 1 else w)"
  have r1: "0 \<le> w1" "w1 < 365" using L(2,3) by (auto simp: w1_def P_def year_len_def split: if_splits)
  note b = mon_loop_bounds [OF r1]
  have nn: "0 \<le> spm ! mon_loop 11 w1" using b(1) unfolding less_12_cases by (auto simp: spm_def)
  have q: "(P \<and> w = 59) = (leap (1970 + int n) \<and> w = 59)" by (auto simp: P_def)
  note md = mday_bounds [OF b(2) nn r1(2), where P = "P \<and> w = 59"]
  have y: "to_int (1970 + int n) = 1970 + int n" "to_int (1970 + int n - 1900) = int n + 70"
    using n by (simp_all add: to_int_small)
  have w: "to_int w = w" using L(2,3) by (intro to_int_small) (auto simp: year_len_def split: if_splits)
  have wd: "to_int ((4 + t div 86400) mod 7) = (4 + t div 86400) mod 7"
    using pos_mod_bound [of 7 "4 + t div 86400"] by (intro to_int_small) simp_all
  have cw: "c_rem t SPD = t mod 86400" "c_div t SPD = t div 86400" "c_rem (4 + t div 86400) 7 = (4 + t div 86400) mod 7"
    using t(1) dy(1) by (simp_all add: c_rem_pos c_div_pos SPD_def)
  have tm: "c_rem (t mod 86400) 60 = t mod 86400 mod 60" "c_div (t mod 86400) 60 = t mod 86400 div 60"
    "c_rem (t mod 86400 div 60) 60 = t mod 86400 div 60 mod 60" "c_div (t mod 86400 div 60) 60 = t mod 86400 div 60 div 60"
    using d(8) by (simp_all add: c_rem_pos c_div_pos)
  have ti: "to_int (t mod 86400 mod 60) = t mod 86400 mod 60" "to_int (t mod 86400 div 60 mod 60) = t mod 86400 div 60 mod 60"
    "to_int (t mod 86400 div 60 div 60) = t mod 86400 div 60 div 60"
    using d by (intro to_int_small; linarith)+
  have mt: "to_int ((if P \<and> w = 59 then 2 else 1) + (w1 - spm ! mon_loop 11 w1)) =
      (if P \<and> w = 59 then 2 else 1) + (w1 - spm ! mon_loop 11 w1)"
    by (rule to_int_small) (use md in linarith)+
  have g: "gmtime_r_at t r = r\<lparr>tm_sec := t mod 86400 mod 60, tm_min := t mod 86400 div 60 mod 60,
      tm_hour := t mod 86400 div 60 div 60, tm_wday := (4 + t div 86400) mod 7, tm_year := int n + 70, tm_yday := w,
      tm_mon := int (mon_loop 11 w1), tm_mday := (if P \<and> w = 59 then 2 else 1) + (w1 - spm ! mon_loop 11 w1)\<rparr>"
    unfolding gmtime_r_at_def Let_def cw L(1) prod.case tm ti y w wd isleap_leap P_def [symmetric] w1_def [symmetric] mt ..
  show thesis
    by (rule that [OF L(2,3) L(4) [symmetric] n w1_def [unfolded P_def]]) (simp_all only: g q [symmetric], simp_all)
qed

lemma gmtime_ok:
  fixes t :: int and r :: tm_at
  assumes t: "0 \<le> t" "t < 2 ^ 55"
  defines "r' \<equiv> gmtime_r_at t r"
  shows "valid_time r'" "valid_date (tm_year r' + 1900) (tm_mon r') (tm_mday r')"
    "civil_day (tm_year r' + 1900) (tm_mon r') (tm_mday r') = t div 86400"
    "tm_hour r' * 3600 + tm_min r' * 60 + tm_sec r' = t mod 86400"
    "tm_wday r' = (4 + t div 86400) mod 7"
    "tm_yday r' = t div 86400 - civil_day (tm_year r' + 1900) 0 1"
    "tm_year r' + 1900 < 2147483648"
proof -
  obtain n w w1 where f: "0 \<le> w" "w < year_len (1970 + int n)" "year_days n + w = t div 86400" "int n < 2147480000"
    "w1 = (if leap (1970 + int n) \<and> 58 < w then w - 1 else w)"
    "tm_year r' = int n + 70" "tm_yday r' = w" "tm_mon r' = int (mon_loop 11 w1)"
    "tm_mday r' = (if leap (1970 + int n) \<and> w = 59 then 2 else 1) + (w1 - spm ! mon_loop 11 w1)"
    and h: "tm_hour r' = t mod 86400 div 60 div 60" "tm_min r' = t mod 86400 div 60 mod 60"
    "tm_sec r' = t mod 86400 mod 60" "tm_wday r' = (4 + t div 86400) mod 7"
    unfolding r'_def by (rule gmtime_fields [OF t])
  have m: "0 \<le> t mod 86400" "t mod 86400 < 86400" by simp_all
  note d = day_split [OF m]
  note dd = date_of_day [OF f(1,2), folded f(5), folded f(9)]
  have y: "tm_year r' + 1900 = 1970 + int n" using f by linarith
  have n: "nat (1970 + int n - 1970) = n" by simp
  show "valid_time r'" unfolding valid_time_def h using d by blast
  show "valid_date (tm_year r' + 1900) (tm_mon r') (tm_mday r')"
    unfolding y valid_date_def f(8) using dd by simp
  show "civil_day (tm_year r' + 1900) (tm_mon r') (tm_mday r') = t div 86400"
    unfolding y civil_day_def n f(8) nat_int using f(3) dd by linarith
  show "tm_hour r' * 3600 + tm_min r' * 60 + tm_sec r' = t mod 86400" unfolding h by (rule d(1))
  show "tm_wday r' = (4 + t div 86400) mod 7" by (rule h(4))
  show "tm_yday r' = t div 86400 - civil_day (tm_year r' + 1900) 0 1"
    unfolding y civil_day_def n using f(3,7) by simp
  show "tm_year r' + 1900 < 2147483648" unfolding y using f(4) by linarith
qed

subsection \<open>The day number of \<open>mktime_at\<close>\<close>

lemma div_Suc_int: "0 < k \<Longrightarrow> (m + 1) div k = m div k + (if k dvd m + 1 then 1 else (0 :: int))"
proof -
  assume k: "0 < k"
  have r: "m + 1 = (m mod k + 1) + m div k * k" by simp
  have k0: "k \<noteq> 0" using k by simp
  note e = div_mult_self1 [OF k0, of "m mod k + 1" "m div k", folded r] mod_mult_self1 [of "m mod k + 1" "m div k" k, folded r]
  have b: "0 \<le> m mod k" "m mod k < k" using k by simp_all
  show ?thesis
  proof (cases "m mod k + 1 = k")
    case True
    then have "(m + 1) mod k = 0" "(m + 1) div k = m div k + 1" unfolding e using k by simp_all
    then show ?thesis by (simp only: dvd_eq_mod_eq_0 simp_thms if_True)
  next
    case False
    then have l: "m mod k + 1 < k" using b by linarith
    then have "(m + 1) mod k \<noteq> 0" "(m + 1) div k = m div k + 0"
      unfolding e using b mod_pos_pos_trivial [OF _ l] div_pos_pos_trivial [OF _ l] by linarith+
    then show ?thesis by (simp only: dvd_eq_mod_eq_0 simp_thms if_False)
  qed
qed

lemma count_step:
  "(p100 \<Longrightarrow> p4) \<Longrightarrow> (p400 \<Longrightarrow> p100) \<Longrightarrow>
   (x + (if p4 then 1 else 0)) - (y + (if p100 then 1 else 0)) + (z + (if p400 then 1 else 0)) =
     x - y + z + (if p4 \<and> (p100 \<longrightarrow> p400) then 1 else (0 :: int))"
  by auto

lemma leap_step:
  "(m + 1) div 4 - (m + 1) div 100 + (m + 1) div 400 =
     m div 4 - m div 100 + m div 400 + (if leap (m + 1) then 1 else (0 :: int))"
proof -
  have d: "(4 :: int) dvd 100" "(100 :: int) dvd 400" by simp_all
  have "(m + 1) div 4 = m div 4 + (if 4 dvd m + 1 then 1 else 0)"
    "(m + 1) div 100 = m div 100 + (if 100 dvd m + 1 then 1 else 0)"
    "(m + 1) div 400 = m div 400 + (if 400 dvd m + 1 then 1 else 0)"
    by (rule div_Suc_int, simp)+
  then show ?thesis
    unfolding leap_def by (simp only:) (rule count_step; erule dvd_trans [OF d(1)] dvd_trans [OF d(2)])
qed

lemma year_days_closed:
  "year_days n = 365 * int n + ((int n + 1969) div 4 - (int n + 1969) div 100 + (int n + 1969) div 400 - 477)"
proof (induction n)
  case (Suc n)
  have e: "int (Suc n) + 1969 = (int n + 1969) + 1" "1970 + int n = (int n + 1969) + 1" by simp_all
  show ?case
    unfolding e(1) leap_step year_days.simps Suc e(2) year_len_def by simp
qed simp

lemma century:
  fixes c :: int
  shows "c div 4 * 3 + 1 + (if c mod 4 = 3 then c mod 4 - 1 else c mod 4) = c + 1 - (c + 1) div 4"
proof -
  have q: "c = c div 4 * 4 + c mod 4" by simp
  have "4 dvd c + 1 \<longleftrightarrow> c mod 4 = 3" by presburger
  then have e: "(c + 1) div 4 = c div 4 + (if c mod 4 = 3 then 1 else 0)" using div_Suc_int [of 4 c] by simp
  show ?thesis unfolding e by (cases "c mod 4 = 3") (use q in simp_all, linarith?)
qed

lemma and_3: "(c :: int) AND 3 = c mod 4"
  using take_bit_eq_mask [of 2 c] by (simp add: mask_eq_exp_minus_1 take_bit_eq_mod)

text \<open>The day count of \<open>mktime_at\<close>, with the century correction, is the number of days of the years.\<close>

definition mk_days :: "int \<Rightarrow> int" where
  "mk_days years =
     (let day = years * 365 + c_div (years + 1) 4 in
      if 131 \<le> years
      then (let y1 = c_div (years - 131) 100; y2 = y1 AND 3; y3 = (if y2 = 3 then y2 - 1 else y2) in
            day - (drop_bit 2 y1 * 3 + 1) - y3)
      else day)"

lemma div_shift: "0 < k \<Longrightarrow> (x + q * k) div k = q + x div (k :: int)"
  by simp

lemma mk_days_eq: "mk_days (int n) = year_days n"
proof -
  let ?c = "(int n - 131) div 100"
  have q4: "(int n + 1969) div 4 = 492 + (int n + 1) div 4" using div_shift [of 4 "int n + 1" 492] by simp
  have cd: "c_div (int n + 1) 4 = (int n + 1) div 4" by (simp add: c_div_pos)
  show ?thesis
  proof (cases "131 \<le> int n")
    case True
    then have c: "0 \<le> ?c" "c_div (int n - 131) 100 = ?c" by (simp_all add: pos_imp_zdiv_nonneg_iff c_div_pos)
    have h: "(int n + 1969) div 100 = 21 + ?c" using div_shift [of 100 "int n - 131" 21] by simp
    have "(int n + 1969) div 400 = (int n + 1969) div 100 div 4" by (simp add: zdiv_zmult2_eq [symmetric])
    also have "\<dots> = 5 + (?c + 1) div 4" unfolding h using div_shift [of 4 "?c + 1" 5] by (simp add: add.commute)
    finally have f: "(int n + 1969) div 400 = 5 + (?c + 1) div 4" .
    have "mk_days (int n) = int n * 365 + (int n + 1) div 4 - (?c div 4 * 3 + 1) -
        (if ?c mod 4 = 3 then ?c mod 4 - 1 else ?c mod 4)"
      unfolding mk_days_def Let_def cd c(2) and_3 drop_bit_eq_div using True by simp
    then show ?thesis unfolding year_days_closed q4 h f using century [of ?c] by linarith
  next
    case False
    then have l: "0 \<le> int n" "int n < 131" by simp_all
    have "(int n + 1969) div 100 - (int n + 1969) div 400 = 15"
    proof (cases "int n < 31")
      case True
      then have "(int n + 1969) div 100 = 19" "(int n + 1969) div 400 = 4"
        using l div_shift [of 100 "int n + 69" 19] div_shift [of 400 "int n + 369" 4] by simp_all
      then show ?thesis by simp
    next
      case False
      then have "(int n + 1969) div 100 = 20" "(int n + 1969) div 400 = 5"
        using l div_shift [of 100 "int n - 31" 20] div_shift [of 400 "int n - 31" 5] by simp_all
      then show ?thesis by simp
    qed
    then show ?thesis unfolding year_days_closed q4 mk_days_def Let_def cd using False by simp
  qed
qed

lemma spm_at_nat: "m < 13 \<Longrightarrow> spm_at (int m) = Some (spm ! m)"
  by (simp add: spm_at_def)

lemma month_cum:
  assumes "m < 12"
  shows "sum_list (take m (month_lens y)) = spm ! m + (if leap y \<and> 1 < m then 1 else 0)"
    "month_lens y ! m \<le> spm ! Suc m"
  using assms unfolding less_12_cases by (elim insertE emptyE; simp add: month_lens_def spm_def)+

lemma mday_loop_stop:
  assumes "valid_date y (tm_mon t) (tm_mday t)"
  shows "mday_loop t = Some t"
proof -
  let ?m = "nat (tm_mon t)"
  have m: "tm_mon t = int ?m" "?m < 12" using assms by (auto simp: valid_date_def)
  have "spm_at (1 + tm_mon t) = Some (spm ! Suc ?m)"
    using spm_at_nat [of "Suc ?m"] m by simp
  moreover have "tm_mday t \<le> spm ! Suc ?m"
    using assms month_cum(2) [OF m(2), of y] by (simp add: valid_date_def)
  ultimately show ?thesis by (subst mday_loop.simps) simp
qed

lemma year_days_nonneg: "0 \<le> year_days n"
  by (induction n) (simp_all add: year_len_def)

lemma mktime_ok:
  assumes t: "valid_time t" and d: "valid_date (tm_year t + 1900) (tm_mon t) (tm_mday t)"
  defines "dn \<equiv> civil_day (tm_year t + 1900) (tm_mon t) (tm_mday t)"
  shows "mktime_at t = Some (t\<lparr>tm_yday := dn - civil_day (tm_year t + 1900) 0 1, tm_wday := (dn + 4) mod 7\<rparr>,
    dn * 86400 + tm_hour t * 3600 + tm_min t * 60 + tm_sec t)"
proof -
  let ?m = "nat (tm_mon t)" and ?n = "nat (tm_year t - 70)"
  have m: "tm_mon t = int ?m" "?m < 12" and n: "tm_year t - 70 = int ?n" "70 \<le> tm_year t" "1 \<le> tm_mday t"
    using d by (auto simp: valid_date_def)
  have ny: "nat (tm_year t + 1900 - 1970) = ?n" by simp
  have dd: "dn = year_days ?n + (spm ! ?m + tm_mday t - 1 + (if leap (tm_year t + 1900) \<and> 1 < tm_mon t then 1 else 0))"
    unfolding dn_def civil_day_def ny month_cum(1) [OF m(2)] using m(1) by auto
  have c0: "civil_day (tm_year t + 1900) 0 1 = year_days ?n" by (simp add: civil_day_def ny)
  have sp: "spm_at (tm_mon t) = Some (spm ! ?m)" using spm_at_nat [of ?m] m by simp
  have yd0: "0 \<le> year_days ?n" by (rule year_days_nonneg)
  have s0: "0 \<le> spm ! ?m" using m(2) unfolding less_12_cases by (elim insertE emptyE; simp add: spm_def)
  have "0 \<le> dn" using dd yd0 s0 n(3) by simp
  then have wd: "to_int (c_rem (dn + 4) 7) = (dn + 4) mod 7"
    using pos_mod_bound [of 7 "dn + 4"] by (simp add: c_rem_pos to_int_small)
  have t1: "\<not> 60 < tm_sec t" "\<not> 60 < tm_min t" "\<not> 24 < tm_hour t" "\<not> 12 < tm_mon t"
    using t m by (auto simp: valid_time_def)
  have y: "\<not> tm_year t < 70" using n by simp
  have md: "mk_days (tm_year t - 70) = year_days ?n" using mk_days_eq [of ?n] n(2) by simp
  have "mktime_at t = (let yday = spm ! ?m + tm_mday t - 1 + (if leap (tm_year t + 1900) \<and> 1 < tm_mon t then 1 else 0);
      day2 = mk_days (tm_year t - 70) + yday in
      Some (t\<lparr>tm_yday := yday, tm_wday := to_int (c_rem (day2 + 4) 7)\<rparr>,
        ((day2 * 24 + tm_hour t) * 60 + tm_min t) * 60 + tm_sec t))"
    unfolding mktime_at_def mk_days_def Let_def
    by (simp only: t1 if_False mday_loop_stop [OF d] Option.bind.simps y sp isleap_leap) simp
  also have "\<dots> = (let yday = dn - year_days ?n in
      Some (t\<lparr>tm_yday := yday, tm_wday := to_int (c_rem (dn + 4) 7)\<rparr>,
        ((dn * 24 + tm_hour t) * 60 + tm_min t) * 60 + tm_sec t))"
    by (simp add: md Let_def dd)
  finally show ?thesis unfolding Let_def wd c0 by simp
qed

lemma mktime_gmtime:
  assumes "0 \<le> t" "t < 2 ^ 55"
  shows "mktime_at (gmtime_r_at t r) = Some (gmtime_r_at t r, t)"
proof -
  note g = gmtime_ok [OF assms, of r]
  have "t div 86400 * 86400 + t mod 86400 = t" by simp
  then have num: "t div 86400 * 86400 + tm_hour (gmtime_r_at t r) * 3600 + tm_min (gmtime_r_at t r) * 60 +
      tm_sec (gmtime_r_at t r) = t" using g(4) by linarith
  have f: "t div 86400 - civil_day (tm_year (gmtime_r_at t r) + 1900) 0 1 = tm_yday (gmtime_r_at t r)"
    "(t div 86400 + 4) mod 7 = tm_wday (gmtime_r_at t r)"
    using g(5,6) by (simp_all add: add.commute)
  show ?thesis unfolding mktime_ok [OF g(1,2)] g(3) num f by simp
qed

subsection \<open>The text\<close>

lemma store_next:
  "length p = k \<Longrightarrow> k + length bs \<le> length buf \<Longrightarrow>
     mem_store (p @ drop k buf) k bs = Some ((p @ bs) @ drop (k + length bs) buf)"
  by (simp add: mem_store_def add.commute)

lemma length_num2str [simp]: "length (num2str i) = 2"
  by (simp add: num2str_def)

definition padded :: "int \<Rightarrow> u8 list" where
  "padded i = (if num2str i ! 0 = 0x30 then 0x20 # tl (num2str i) else num2str i)"

definition asc_text :: "tm_at \<Rightarrow> u8 list" where
  "asc_text t = take 4 (drop (4 * nat (tm_wday t)) days) @ take 4 (drop (4 * nat (tm_mon t)) months) @
     padded (tm_mday t) @ [0x20] @ num2str (tm_hour t) @ [0x3A] @ num2str (tm_min t) @ [0x3A] @ num2str (tm_sec t) @
     [0x20] @ num2str (c_div (tm_year t + 1900) 100) @ num2str (c_rem (tm_year t + 1900) 100) @ [0x0A]"

lemma length_names: "length days = 28" "length months = 48"
  by (simp_all add: days_def months_def cstr_def)

lemma load4_in: "0 \<le> w \<Longrightarrow> 4 * nat w + 4 \<le> length s \<Longrightarrow> load4 s (w * 4) = Some (take 4 (drop (4 * nat w) s))"
  by (simp add: load4_def nat_mult_distrib mult.commute)

lemma load4_days: "0 \<le> w \<Longrightarrow> w < 7 \<Longrightarrow> load4 days (w * 4) = Some (take 4 (drop (4 * nat w) days))"
  by (rule load4_in) (simp_all add: length_names)

lemma load4_months: "0 \<le> w \<Longrightarrow> w < 12 \<Longrightarrow> load4 months (w * 4) = Some (take 4 (drop (4 * nat w) months))"
  by (rule load4_in) (simp_all add: length_names)

lemma asctime_chain:
  assumes "length p = 10" "25 \<le> length buf" "length a = 2" "length b' = 2" "length c = 2" "length e = 2" "length f = 2"
  shows "do {
       b \<leftarrow> mem_store (p @ drop 10 buf) 10 [0x20];
       b \<leftarrow> mem_store b 11 a;
       b \<leftarrow> mem_store b 13 [0x3A];
       b \<leftarrow> mem_store b 14 b';
       b \<leftarrow> mem_store b 16 [0x3A];
       b \<leftarrow> mem_store b 17 c;
       b \<leftarrow> mem_store b 19 [0x20];
       b \<leftarrow> mem_store b 20 e;
       b \<leftarrow> mem_store b 22 f;
       mem_store b 24 [0x0A] } = Some ((p @ [0x20] @ a @ [0x3A] @ b' @ [0x3A] @ c @ [0x20] @ e @ f @ [0x0A]) @ drop 25 (buf :: u8 list))"
proof -
  note st = store_next [where buf = buf]
  let ?p1 = "p @ [0x20]" let ?p2 = "?p1 @ a" let ?p3 = "?p2 @ [0x3A]" let ?p4 = "?p3 @ b'" let ?p5 = "?p4 @ [0x3A]"
  let ?p6 = "?p5 @ c" let ?p7 = "?p6 @ [0x20]" let ?p8 = "?p7 @ e" let ?p9 = "?p8 @ f"
  have "mem_store (p @ drop 10 buf) 10 [0x20] = Some (?p1 @ drop 11 buf)"
    "mem_store (?p1 @ drop 11 buf) 11 a = Some (?p2 @ drop 13 buf)"
    "mem_store (?p2 @ drop 13 buf) 13 [0x3A] = Some (?p3 @ drop 14 buf)"
    "mem_store (?p3 @ drop 14 buf) 14 b' = Some (?p4 @ drop 16 buf)"
    "mem_store (?p4 @ drop 16 buf) 16 [0x3A] = Some (?p5 @ drop 17 buf)"
    "mem_store (?p5 @ drop 17 buf) 17 c = Some (?p6 @ drop 19 buf)"
    "mem_store (?p6 @ drop 19 buf) 19 [0x20] = Some (?p7 @ drop 20 buf)"
    "mem_store (?p7 @ drop 20 buf) 20 e = Some (?p8 @ drop 22 buf)"
    "mem_store (?p8 @ drop 22 buf) 22 f = Some (?p9 @ drop 24 buf)"
    "mem_store (?p9 @ drop 24 buf) 24 [0x0A] = Some ((?p9 @ [0x0A]) @ drop 25 buf)"
    using assms st [of p 10 "[0x20]"] st [of ?p1 11 a] st [of ?p2 13 "[0x3A]"] st [of ?p3 14 b'] st [of ?p4 16 "[0x3A]"]
      st [of ?p5 17 c] st [of ?p6 19 "[0x20]"] st [of ?p7 20 e] st [of ?p8 22 f] st [of ?p9 24 "[0x0A]"]
    by simp_all
  then show ?thesis by (simp only: Option.bind.simps) simp
qed

lemma asctime_ok:
  assumes "0 \<le> tm_wday t" "tm_wday t < 7" "0 \<le> tm_mon t" "tm_mon t < 12" "25 \<le> length buf"
  shows "asctime_r_at t buf = Some (asc_text t @ drop 25 buf)" "length (asc_text t) = 25"
proof -
  define d where "d = take 4 (drop (4 * nat (tm_wday t)) days)"
  define m where "m = take 4 (drop (4 * nat (tm_mon t)) months)"
  let ?n = "num2str (tm_mday t)"
  have l: "length d = 4" "length m = 4" using assms by (simp_all add: d_def m_def length_names)
  have p2: "length (padded (tm_mday t)) = 2" by (simp add: padded_def)
  have tx: "asc_text t = (d @ m @ padded (tm_mday t)) @ [0x20] @ num2str (tm_hour t) @ [0x3A] @ num2str (tm_min t) @ [0x3A] @
      num2str (tm_sec t) @ [0x20] @ num2str (c_div (tm_year t + 1900) 100) @ num2str (c_rem (tm_year t + 1900) 100) @ [0x0A]"
    by (simp add: asc_text_def d_def m_def)
  show "length (asc_text t) = 25" unfolding tx by (simp add: l p2)
  have fx: "(if ((d @ m) @ ?n @ drop 10 buf) ! 8 = 0x30 then mem_store ((d @ m) @ ?n @ drop 10 buf) 8 [0x20]
      else Some ((d @ m) @ ?n @ drop 10 buf)) = Some ((d @ m @ padded (tm_mday t)) @ drop 10 buf)"
    using l assms(5) by (auto simp: nth_append padded_def mem_store_def num2str_def)
  have s0: "mem_store buf 0 d = Some (d @ drop 4 buf)"
    using store_next [of "[]" 0 d buf] l assms(5) by simp
  have s4: "mem_store (d @ drop 4 buf) 4 m = Some ((d @ m) @ drop 8 buf)"
    using store_next [of d 4 m buf] l assms(5) by simp
  have s8: "mem_store ((d @ m) @ drop 8 buf) 8 ?n = Some ((d @ m) @ ?n @ drop 10 buf)"
    using store_next [of "d @ m" 8 ?n buf] l assms(5) by simp
  have p10: "length (d @ m @ padded (tm_mday t)) = 10" by (simp add: l p2)
  note ch = asctime_chain [OF p10 assms(5) length_num2str length_num2str length_num2str length_num2str  length_num2str]
  show "asctime_r_at t buf = Some (asc_text t @ drop 25 buf)"
    unfolding asctime_r_at_def tx
    by (simp only: load4_days [OF assms(1,2)] load4_months [OF assms(3,4)] Option.bind.simps d_def [symmetric] m_def [symmetric]
        s0 s4 s8 fx ch)
qed

lemma digit_nonzero: "48 \<le> x \<Longrightarrow> x < 58 \<Longrightarrow> (of_int x :: u8) \<noteq> 0"
proof -
  assume "48 \<le> x" "x < 58"
  then have "x = 48 \<or> x = 49 \<or> x = 50 \<or> x = 51 \<or> x = 52 \<or> x = 53 \<or> x = 54 \<or> x = 55 \<or> x = 56 \<or> x = 57"
    by presburger
  then show ?thesis by (elim disjE) simp_all
qed

lemma num2str_nonzero: "0 \<le> i \<Longrightarrow> i < 100 \<Longrightarrow> 0 \<notin> set (num2str i)"
  using digit_nonzero [of "i div 10 + 48"] digit_nonzero [of "i mod 10 + 48"]
  by (simp add: num2str_def c_div_pos c_rem_pos pos_imp_zdiv_nonneg_iff)

lemma padded_nonzero: "0 \<le> i \<Longrightarrow> i < 100 \<Longrightarrow> 0 \<notin> set (padded i)"
  using num2str_nonzero [of i] by (simp add: padded_def num2str_def)

lemma names_nonzero: "0 \<notin> set days" "0 \<notin> set months"
  by (simp_all add: days_def months_def cstr_def)

lemma asc_text_nonzero:
  assumes "valid_time t" "valid_date (tm_year t + 1900) (tm_mon t) (tm_mday t)" "tm_year t + 1900 < 10000"
  shows "0 \<notin> set (asc_text t)"
proof -
  have m: "nat (tm_mon t) < 12" using assms(2) by (auto simp: valid_date_def)
  then have "month_lens (tm_year t + 1900) ! nat (tm_mon t) < 100"
    unfolding less_12_cases by (elim insertE emptyE; simp add: month_lens_def)
  then have d: "0 \<le> tm_mday t" "tm_mday t < 100" using assms(2) by (auto simp: valid_date_def)
  have y: "1970 \<le> tm_year t + 1900" using assms(2) by (simp add: valid_date_def)
  have c: "c_div (tm_year t + 1900) 100 = (tm_year t + 1900) div 100" "c_rem (tm_year t + 1900) 100 = (tm_year t + 1900) mod 100"
    using y by (simp_all add: c_div_pos c_rem_pos)
  have y2: "0 \<le> (tm_year t + 1900) div 100" "(tm_year t + 1900) div 100 < 100"
    "0 \<le> (tm_year t + 1900) mod 100" "(tm_year t + 1900) mod 100 < 100"
    using y assms(3) by (simp_all add: pos_imp_zdiv_nonneg_iff)
  have "0 \<notin> set (take 4 (drop k days))" "0 \<notin> set (take 4 (drop k months))" for k
    using names_nonzero by (meson in_set_dropD in_set_takeD)+
  then show ?thesis
    using assms(1) padded_nonzero [OF d] num2str_nonzero [OF y2(1,2)] num2str_nonzero [OF y2(3,4)]
      num2str_nonzero [of "tm_hour t"] num2str_nonzero [of "tm_min t"] num2str_nonzero [of "tm_sec t"]
    by (simp add: asc_text_def valid_time_def c)
qed

subsection \<open>Properties\<close>

text \<open>C11. \<open>gmtime_r_at\<close> gives the Gregorian date: for every time from 1970 on (below \<open>2 ^ 55\<close>
  seconds, where the year still fits an \<open>int\<close>) the date is a date of the calendar, its day
  number is the number of days passed, the clock fields are the rest, and the day of the week
  and of the year belong to that day.\<close>

theorem rtc_gmtime_civil:
  assumes "0 \<le> t" and "t < 2 ^ 55" and "u = gmtime_r_at t r"
  shows "valid_time u \<and> valid_date (tm_year u + 1900) (tm_mon u) (tm_mday u) \<and>
    civil_day (tm_year u + 1900) (tm_mon u) (tm_mday u) = t div 86400 \<and>
    tm_hour u * 3600 + tm_min u * 60 + tm_sec u = t mod 86400 \<and>
    tm_wday u = (4 + t div 86400) mod 7 \<and> tm_yday u = t div 86400 - civil_day (tm_year u + 1900) 0 1"
  unfolding assms(3) using gmtime_ok [OF assms(1,2), of r] by blast

definition demo_tm :: tm_at where
  "demo_tm = \<lparr>tm_sec = 6, tm_min = 5, tm_hour = 4, tm_mday = 3, tm_mon = 0, tm_year = 70, tm_wday = 0, tm_yday = 0,
     tm_isdst = 0, tm_gmtoff = 0\<rparr>"

theorem rtc_gmtime_civil_witness:
  "civil_day (tm_year (gmtime_r_at 951782400 demo_tm) + 1900) (tm_mon (gmtime_r_at 951782400 demo_tm)) (tm_mday (gmtime_r_at 951782400 demo_tm)) = 11016"
  using rtc_gmtime_civil [of 951782400, OF _ _ refl, of demo_tm] by simp

text \<open>C23. \<open>mktime_at\<close> counts the seconds of the calendar: for a date of the calendar and a clock
  time in range it returns the day number times 86400 plus the clock, century years included,
  and fills in the day of the week and of the year, changing nothing else.\<close>

theorem rtc_mktime_civil:
  assumes "valid_time t" and "valid_date (tm_year t + 1900) (tm_mon t) (tm_mday t)"
    and "dn = civil_day (tm_year t + 1900) (tm_mon t) (tm_mday t)"
  shows "mktime_at t = Some (t\<lparr>tm_yday := dn - civil_day (tm_year t + 1900) 0 1, tm_wday := (dn + 4) mod 7\<rparr>,
    dn * 86400 + tm_hour t * 3600 + tm_min t * 60 + tm_sec t)"
  unfolding assms(3) by (rule mktime_ok [OF assms(1,2)])

lemma demo_tm_ok: "valid_time demo_tm" "valid_date (tm_year demo_tm + 1900) (tm_mon demo_tm) (tm_mday demo_tm)"
  by (simp_all add: demo_tm_def valid_time_def valid_date_def month_lens_def)

theorem rtc_mktime_civil_witness:
  "mktime_at demo_tm = Some (demo_tm\<lparr>tm_yday := 2, tm_wday := 6\<rparr>, 187506)"
  using rtc_mktime_civil [OF demo_tm_ok refl] by (simp add: demo_tm_def civil_day_def)

text \<open>C23. The two conversions are inverse: \<open>mktime_at\<close> of what \<open>gmtime_r_at\<close> computes returns
  the time it was computed from and leaves the structure as it is.\<close>

theorem rtc_roundtrip:
  assumes "0 \<le> t" and "t < 2 ^ 55"
  shows "mktime_at (gmtime_r_at t r) = Some (gmtime_r_at t r, t)"
  by (rule mktime_gmtime [OF assms])

theorem rtc_roundtrip_witness: "mktime_at (gmtime_r_at 1700000000 demo_tm) = Some (gmtime_r_at 1700000000 demo_tm, 1700000000)"
  by (rule rtc_roundtrip) simp_all

text \<open>C21. Days past the end of January are not carried over: the loop compares the day of the
  month with cumulated month lengths, so the 32nd to the 59th of January are counted as days of
  February with the same number, 31 days late.\<close>

theorem rtc_mktime_january_overflow:
  assumes "valid_time t" and "70 \<le> tm_year t" and "tm_mon t = 0" and "31 < tm_mday t" and "tm_mday t \<le> 59"
  shows "map_option snd (mktime_at t) =
    Some ((civil_day (tm_year t + 1900) 0 1 + (tm_mday t - 1) + 31) * 86400 + tm_hour t * 3600 + tm_min t * 60 + tm_sec t)"
proof -
  have s: "spm_at 0 = Some 0" "spm_at 1 = Some 31" "spm_at 2 = Some 59" by (simp_all add: spm_at_def spm_def)
  have l2: "mday_loop (t\<lparr>tm_mon := 1\<rparr>) = Some (t\<lparr>tm_mon := 1\<rparr>)"
    by (subst mday_loop.simps) (use assms(5) in \<open>simp add: s\<close>)
  have l1: "mday_loop t = Some (t\<lparr>tm_mon := 1\<rparr>)"
    by (subst mday_loop.simps) (use assms(3,4) l2 in \<open>simp add: s\<close>)
  have t1: "\<not> 60 < tm_sec t" "\<not> 60 < tm_min t" "\<not> 24 < tm_hour t" "\<not> 12 < tm_mon t" "\<not> tm_year t < 70"
    using assms by (auto simp: valid_time_def)
  have y: "tm_year t - 70 = int (nat (tm_year t - 70))" "nat (tm_year t + 1900 - 1970) = nat (tm_year t - 70)"
    using assms(2) by simp_all
  have "map_option snd (mktime_at t) =
      Some (((mk_days (tm_year t - 70) + (31 + tm_mday t - 1)) * 24 + tm_hour t) * 3600 + tm_min t * 60 + tm_sec t)"
    unfolding mktime_at_def mk_days_def Let_def
    by (simp only: t1 if_False l1 Option.bind.simps isleap_leap tm_at.simps s) (simp add: s t1)
  also have "mk_days (tm_year t - 70) = civil_day (tm_year t + 1900) 0 1"
    using mk_days_eq [of "nat (tm_year t - 70)"] assms(2) by (simp add: civil_day_def y(2))
  also have "Some (((civil_day (tm_year t + 1900) 0 1 + (31 + tm_mday t - 1)) * 24 + tm_hour t) * 3600 + tm_min t * 60 + tm_sec t) =
      Some ((civil_day (tm_year t + 1900) 0 1 + (tm_mday t - 1) + 31) * 86400 + tm_hour t * 3600 + tm_min t * 60 + tm_sec t)"
    by (simp add: algebra_simps)
  finally show ?thesis .
qed

theorem rtc_mktime_january_overflow_witness:
  "map_option snd (mktime_at (demo_tm\<lparr>tm_mday := 32\<rparr>)) = Some (62 * 86400 + 4 * 3600 + 5 * 60 + 6)"
  using rtc_mktime_january_overflow [of "demo_tm\<lparr>tm_mday := 32\<rparr>"]
  by (simp add: demo_tm_def valid_time_def civil_day_def)

text \<open>C22. The text of a date fills exactly the 25 bytes it is documented with, none of them a
  terminator: in the 25 byte buffer of \<open>asctime_at\<close> the result is not a C string.\<close>

theorem rtc_asctime_unterminated:
  assumes "0 \<le> t" and "t < 2 ^ 55" and "u = gmtime_r_at t r" and "tm_year u < 8100" and "length buf = 25"
  shows "\<exists>s. asctime_r_at u buf = Some s \<and> s = asc_text u \<and> length s = 25 \<and> 0 \<notin> set s"
proof -
  note g = gmtime_ok [OF assms(1,2), of r, folded assms(3)]
  have w: "0 \<le> tm_wday u" "tm_wday u < 7" "0 \<le> tm_mon u" "tm_mon u < 12"
    using g(2,5) pos_mod_bound [of 7 "4 + t div 86400"] by (simp_all add: valid_date_def)
  show ?thesis
    using asctime_ok [OF w, of buf] asc_text_nonzero [OF g(1,2)] assms(4,5) by simp
qed

theorem rtc_asctime_unterminated_witness:
  "\<exists>s. asctime_r_at (gmtime_r_at 0 demo_tm) (replicate 25 0) = Some s \<and> 0 \<notin> set s"
  using rtc_asctime_unterminated [of 0 "gmtime_r_at 0 demo_tm" demo_tm "replicate 25 0"]
  by (simp add: gmtime_r_at_def c_div_pos c_rem_pos SPD_def year_loop.simps leap_def to_int_def Let_def)

end
