(* ===== verification/MultiButton.thy ===== *)
theory MultiButton
  imports Prelude "HOL-Library.Monad_Syntax"
begin

text \<open>
  The push-button driver \<open>func/key/multi_button.c\<close>: the debounced state machine of one button
  (\<open>button_handler\<close>), and the list of the buttons that the 5 ms timer steps.

  The bit fields of \<open>BUTTON_S\<close> are words of their width.  The pin reader returns a byte; a call
  of \<open>button_handler\<close> gets the byte it reads as an argument and returns, with the new handle,
  the callbacks it invokes, in order (a callback is the client's code; it is taken not to write
  the handle).  Handles are addresses; \<open>next\<close> and \<open>head_handle\<close> are \<open>None\<close> for \<open>NULL\<close>.  The mutex
  makes each list operation atomic.
\<close>

subsection \<open>Data\<close>

datatype PRESS_EVT =
    PRESS_DOWN | PRESS_UP | PRESS_REPEAT | SINGLE_CLICK | DOUBLE_CLICK | LONG_PRESS_START | LONG_PRESS_HOLD
  | number_of_event | NONE_PRESS

record BUTTON_S =
  ticks :: u16
  repeat :: "4 word"
  event :: PRESS_EVT
  state :: "3 word"
  debounce_cnt :: "3 word"
  active_level :: "1 word"
  button_level :: "1 word"
  user_data :: nat
  cb :: "PRESS_EVT \<Rightarrow> bool"
  next_btn :: "nat option"

definition TICKS_INTERVAL :: u16 where "TICKS_INTERVAL = 5"
definition DEBOUNCE_TICKS :: "3 word" where "DEBOUNCE_TICKS = 6"
definition SHORT_TICKS :: u16 where "SHORT_TICKS = 400 div TICKS_INTERVAL"
definition LONG_TICKS :: u16 where "LONG_TICKS = 1000 div TICKS_INTERVAL"

definition button_init :: "u8 \<Rightarrow> u8 \<Rightarrow> nat \<Rightarrow> BUTTON_S" where
  "button_init pin_level active udata =
     \<lparr>ticks = 0, repeat = 0, event = NONE_PRESS, state = 0, debounce_cnt = 0, active_level = ucast active,
      button_level = ucast pin_level, user_data = udata, cb = (\<lambda>_. False), next_btn = None\<rparr>"

text \<open>The argument \<open>c\<close> says whether the callback that is attached is not null.\<close>

definition button_attach :: "BUTTON_S \<Rightarrow> PRESS_EVT \<Rightarrow> bool \<Rightarrow> BUTTON_S" where
  "button_attach handle ev c = handle\<lparr>cb := (cb handle)(ev := c)\<rparr>"

definition button_get_event :: "BUTTON_S \<Rightarrow> PRESS_EVT" where
  "button_get_event handle = event handle"

subsection \<open>The state machine\<close>

definition EVENT_CB :: "BUTTON_S \<Rightarrow> PRESS_EVT \<Rightarrow> PRESS_EVT list" where
  "EVENT_CB handle ev = (if cb handle ev then [ev] else [])"

definition debounce :: "u8 \<Rightarrow> BUTTON_S \<Rightarrow> BUTTON_S" where
  "debounce read_gpio_level handle =
     (if read_gpio_level \<noteq> ucast (button_level handle)
      then (let h1 = handle\<lparr>debounce_cnt := debounce_cnt handle + 1\<rparr> in
            if DEBOUNCE_TICKS \<le> debounce_cnt h1
            then h1\<lparr>button_level := ucast read_gpio_level, debounce_cnt := 0\<rparr> else h1)
      else handle\<lparr>debounce_cnt := 0\<rparr>)"

definition machine :: "BUTTON_S \<Rightarrow> BUTTON_S \<times> PRESS_EVT list" where
  "machine h =
     (let pressed = (button_level h = active_level h) in
      if state h = 0 then
        (if pressed
         then (h\<lparr>event := PRESS_DOWN, ticks := 0, repeat := 1, state := 1\<rparr>, EVENT_CB h PRESS_DOWN)
         else (h\<lparr>event := NONE_PRESS\<rparr>, []))
      else if state h = 1 then
        (if \<not> pressed
         then (h\<lparr>event := PRESS_UP, ticks := 0, state := 2\<rparr>, EVENT_CB h PRESS_UP)
         else if LONG_TICKS < ticks h
         then (h\<lparr>event := LONG_PRESS_START, state := 5\<rparr>, EVENT_CB h LONG_PRESS_START)
         else (h, []))
      else if state h = 2 then
        (if pressed
         then (h\<lparr>event := PRESS_DOWN, repeat := repeat h + 1, ticks := 0, state := 3\<rparr>,
               EVENT_CB h PRESS_DOWN @
               (if repeat h + 1 = 2 then EVENT_CB h DOUBLE_CLICK else []) @
               EVENT_CB h PRESS_REPEAT)
         else if SHORT_TICKS < ticks h
         then (if repeat h = 1 then (h\<lparr>event := SINGLE_CLICK, state := 0\<rparr>, EVENT_CB h SINGLE_CLICK)
               else if repeat h = 2 then (h\<lparr>event := DOUBLE_CLICK, state := 0\<rparr>, [])
               else (h\<lparr>state := 0\<rparr>, []))
         else (h, []))
      else if state h = 3 then
        (if \<not> pressed
         then (if ticks h < SHORT_TICKS
               then (h\<lparr>event := PRESS_UP, ticks := 0, state := 2\<rparr>, EVENT_CB h PRESS_UP)
               else (h\<lparr>event := PRESS_UP, state := 0\<rparr>, EVENT_CB h PRESS_UP))
         else (h, []))
      else if state h = 5 then
        (if pressed
         then (h\<lparr>event := LONG_PRESS_HOLD\<rparr>, EVENT_CB h LONG_PRESS_HOLD)
         else (h\<lparr>event := PRESS_UP, state := 0\<rparr>, EVENT_CB h PRESS_UP))
      else (h, []))"

definition button_handler :: "u8 \<Rightarrow> BUTTON_S \<Rightarrow> BUTTON_S \<times> PRESS_EVT list" where
  "button_handler read_gpio_level handle =
     machine (debounce read_gpio_level
       (if 0 < state handle then handle\<lparr>ticks := ticks handle + 1\<rparr> else handle))"

subsection \<open>The list of buttons\<close>

record key_state =
  head_handle :: "nat option"
  heap :: "nat \<Rightarrow> BUTTON_S"

partial_function (option) on_list :: "(nat \<Rightarrow> BUTTON_S) \<Rightarrow> nat option \<Rightarrow> nat \<Rightarrow> bool option" where
  "on_list m target handle =
     (case target of
        None \<Rightarrow> Some False
      | Some a \<Rightarrow> if a = handle then Some True else on_list m (next_btn (m a)) handle)"

definition button_start :: "key_state \<Rightarrow> nat \<Rightarrow> (int \<times> key_state) option" where
  "button_start s handle =
     do {
       found \<leftarrow> on_list (heap s) (head_handle s) handle;
       if found then Some (-1, s)
       else Some (0, s\<lparr>heap := (heap s)(handle := (heap s handle)\<lparr>next_btn := head_handle s\<rparr>),
                       head_handle := Some handle\<rparr>) }"

text \<open>The cursor of \<open>button_stop\<close> points to \<open>head_handle\<close> (\<open>None\<close>) or to the \<open>next\<close> of a handle.\<close>

definition deref :: "key_state \<Rightarrow> nat option \<Rightarrow> nat option" where
  "deref s cur = (case cur of None \<Rightarrow> head_handle s | Some a \<Rightarrow> next_btn (heap s a))"

definition assign :: "key_state \<Rightarrow> nat option \<Rightarrow> nat option \<Rightarrow> key_state" where
  "assign s cur v =
     (case cur of
        None \<Rightarrow> s\<lparr>head_handle := v\<rparr>
      | Some a \<Rightarrow> s\<lparr>heap := (heap s)(a := (heap s a)\<lparr>next_btn := v\<rparr>)\<rparr>)"

partial_function (option) stop_loop :: "key_state \<Rightarrow> nat option \<Rightarrow> nat \<Rightarrow> key_state option" where
  "stop_loop s cur handle =
     (case deref s cur of
        None \<Rightarrow> Some s
      | Some entry \<Rightarrow>
          if entry = handle then stop_loop (assign s cur (next_btn (heap s entry))) cur handle
          else stop_loop s (Some entry) handle)"

definition button_stop :: "key_state \<Rightarrow> nat \<Rightarrow> key_state option" where
  "button_stop s handle = stop_loop s None handle"

partial_function (option) find_loop :: "(nat \<Rightarrow> BUTTON_S) \<Rightarrow> nat option \<Rightarrow> nat \<Rightarrow> nat option option" where
  "find_loop m entry udata =
     (case entry of
        None \<Rightarrow> Some None
      | Some a \<Rightarrow> if user_data (m a) = udata then Some (Some a) else find_loop m (next_btn (m a)) udata)"

definition button_find_with_user_data :: "key_state \<Rightarrow> nat \<Rightarrow> nat option option" where
  "button_find_with_user_data s udata = find_loop (heap s) (head_handle s) udata"

text \<open>One timer tick: \<open>levels\<close> is what the pin reader of each handle returns.\<close>

partial_function (option) ticks_loop ::
  "(nat \<Rightarrow> u8) \<Rightarrow> (nat \<Rightarrow> BUTTON_S) \<Rightarrow> nat option \<Rightarrow> ((nat \<Rightarrow> BUTTON_S) \<times> (nat \<times> PRESS_EVT) list) option" where
  "ticks_loop levels m target =
     (case target of
        None \<Rightarrow> Some (m, [])
      | Some a \<Rightarrow>
          (let (h, evs) = button_handler (levels a) (m a); m1 = m(a := h) in
           do { (m2, rest) \<leftarrow> ticks_loop levels m1 (next_btn (m1 a));
                Some (m2, map (Pair a) evs @ rest) }))"

definition button_ticks :: "(nat \<Rightarrow> u8) \<Rightarrow> key_state \<Rightarrow> (key_state \<times> (nat \<times> PRESS_EVT) list) option" where
  "button_ticks levels s =
     map_option (\<lambda>(m, evs). (s\<lparr>heap := m\<rparr>, evs)) (ticks_loop levels (heap s) (head_handle s))"

declare on_list.simps [code] stop_loop.simps [code] find_loop.simps [code] ticks_loop.simps [code]

subsection \<open>The list as a list\<close>

fun blist :: "(nat \<Rightarrow> BUTTON_S) \<Rightarrow> nat option \<Rightarrow> nat list \<Rightarrow> bool" where
  "blist m t [] \<longleftrightarrow> t = None"
| "blist m t (a # xs) \<longleftrightarrow> t = Some a \<and> blist m (next_btn (m a)) xs"

lemma blist_unique: "blist m t xs \<Longrightarrow> blist m t ys \<Longrightarrow> xs = ys"
proof (induction xs arbitrary: t ys)
  case Nil
  then show ?case by (cases ys) auto
next
  case (Cons a xs)
  then show ?case by (cases ys) auto
qed

lemma blist_append: "blist m t (xs @ a # ys) \<Longrightarrow> blist m (Some a) (a # ys)"
  by (induction xs arbitrary: t) auto

lemma blist_distinct: "blist m t xs \<Longrightarrow> distinct xs"
proof (induction xs arbitrary: t)
  case (Cons a xs)
  have "a \<notin> set xs"
  proof
    assume "a \<in> set xs"
    then obtain ys zs where "xs = ys @ a # zs" by (auto simp: in_set_conv_decomp)
    then have "blist m (Some a) (a # zs)" "blist m (Some a) (a # xs)"
      using Cons.prems blist_append [of m "next_btn (m a)" ys a zs] by auto
    then have "a # zs = a # xs" by (rule blist_unique)
    then show False using \<open>xs = ys @ a # zs\<close> by simp
  qed
  then show ?case using Cons by auto
qed simp

lemma blist_cong: "(\<And>a. a \<in> set xs \<Longrightarrow> next_btn (m' a) = next_btn (m a)) \<Longrightarrow> blist m' t xs = blist m t xs"
  by (induction xs arbitrary: t) auto

lemma on_list_blist: "blist m t xs \<Longrightarrow> on_list m t h = Some (h \<in> set xs)"
  by (induction xs arbitrary: t) (auto simp: on_list.simps)

lemma find_loop_blist: "blist m t xs \<Longrightarrow> find_loop m t u = Some (find (\<lambda>a. user_data (m a) = u) xs)"
  by (induction xs arbitrary: t) (auto simp: find_loop.simps)

lemma deref_assign [simp]: "deref (assign s cur v) cur = v"
  by (simp add: deref_def assign_def split: option.split)

lemma heap_assign: "cur \<noteq> Some a \<Longrightarrow> heap (assign s cur v) a = heap s a"
  by (auto simp: assign_def split: option.split)

lemma relinked_assign: "\<exists>n. heap (assign s cur v) a = (heap s a)\<lparr>next_btn := n\<rparr>"
  by (cases "cur = Some a") (auto simp: assign_def split: option.split intro: exI [of _ "next_btn (heap s a)"])

lemma self_link: "\<exists>n. b = (b :: BUTTON_S)\<lparr>next_btn := n\<rparr>"
  by (rule exI [of _ "next_btn b"]) simp

lemma stop_loop_blist:
  assumes "blist (heap s) (deref s cur) xs" "\<forall>a. cur = Some a \<longrightarrow> a \<notin> set xs"
  shows "\<exists>s'. stop_loop s cur h = Some s' \<and> blist (heap s') (deref s' cur) (filter (\<lambda>a. a \<noteq> h) xs) \<and>
    (\<forall>a. a \<notin> set xs \<longrightarrow> cur \<noteq> Some a \<longrightarrow> heap s' a = heap s a) \<and>
    (cur \<noteq> None \<longrightarrow> head_handle s' = head_handle s) \<and>
    (\<forall>a. \<exists>n. heap s' a = (heap s a)\<lparr>next_btn := n\<rparr>)"
  using assms
proof (induction xs arbitrary: s cur)
  case Nil
  show ?case using Nil self_link by (simp add: stop_loop.simps)
next
  case (Cons a xs)
  have d: "deref s cur = Some a" "blist (heap s) (next_btn (heap s a)) xs" using Cons.prems by auto
  have ni: "a \<notin> set xs" using blist_distinct [OF Cons.prems(1)] by simp
  show ?case
  proof (cases "a = h")
    case True
    let ?s = "assign s cur (next_btn (heap s a))"
    have "blist (heap ?s) (deref ?s cur) xs"
      using d(2) Cons.prems(2) by (subst blist_cong [of xs "heap ?s" "heap s"]) (auto intro!: arg_cong [of _ _ next_btn] heap_assign)
    then obtain s' where s': "stop_loop ?s cur h = Some s'" "blist (heap s') (deref s' cur) (filter (\<lambda>a. a \<noteq> h) xs)"
      "\<forall>b. b \<notin> set xs \<longrightarrow> cur \<noteq> Some b \<longrightarrow> heap s' b = heap ?s b" "cur \<noteq> None \<longrightarrow> head_handle s' = head_handle ?s"
      "\<forall>b. \<exists>n. heap s' b = (heap ?s b)\<lparr>next_btn := n\<rparr>"
      using Cons.IH [of ?s cur] Cons.prems(2) by auto
    have "\<exists>n. heap s' b = (heap s b)\<lparr>next_btn := n\<rparr>" for b
    proof -
      obtain n1 where 1: "heap s' b = (heap ?s b)\<lparr>next_btn := n1\<rparr>" using s'(5) by blast
      obtain n2 where 2: "heap ?s b = (heap s b)\<lparr>next_btn := n2\<rparr>" using relinked_assign by blast
      show ?thesis unfolding 1 2 by (rule exI [of _ n1]) simp
    qed
    moreover have "stop_loop s cur h = Some s'" using s'(1) d(1) True by (subst stop_loop.simps) simp
    moreover have "cur \<noteq> None \<longrightarrow> head_handle s' = head_handle s" using s'(4) by (auto simp: assign_def)
    ultimately show ?thesis using s'(2,3) True heap_assign [of cur _ s] by (intro exI [of _ s']) auto
  next
    case False
    obtain s' where s': "stop_loop s (Some a) h = Some s'" "blist (heap s') (next_btn (heap s' a)) (filter (\<lambda>a. a \<noteq> h) xs)"
      "\<forall>b. b \<notin> set xs \<longrightarrow> Some a \<noteq> Some b \<longrightarrow> heap s' b = heap s b" "head_handle s' = head_handle s"
      "\<forall>b. \<exists>n. heap s' b = (heap s b)\<lparr>next_btn := n\<rparr>"
      using Cons.IH [of s "Some a"] d(2) ni by (auto simp: deref_def)
    have "deref s' cur = Some a"
      using d(1) s'(3,4) Cons.prems(2) by (auto simp: deref_def split: option.splits)
    moreover have "stop_loop s cur h = Some s'" using s'(1) d(1) False by (subst stop_loop.simps) simp
    ultimately show ?thesis using s' False by (intro exI [of _ s']) auto
  qed
qed

lemma machine_next [simp]: "next_btn (fst (machine h)) = next_btn h"
  by (simp add: machine_def Let_def)

lemma handler_next [simp]: "next_btn (fst (button_handler l h)) = next_btn h"
  by (simp add: button_handler_def debounce_def Let_def)

lemma ticks_loop_blist:
  "blist m t xs \<Longrightarrow>
   ticks_loop lv m t = Some (\<lambda>a. if a \<in> set xs then fst (button_handler (lv a) (m a)) else m a,
     concat (map (\<lambda>a. map (Pair a) (snd (button_handler (lv a) (m a)))) xs))"
proof (induction xs arbitrary: m t)
  case Nil
  then show ?case by (simp add: ticks_loop.simps)
next
  case (Cons a xs)
  let ?h = "fst (button_handler (lv a) (m a))" and ?e = "snd (button_handler (lv a) (m a))"
  have ni: "a \<notin> set xs" using blist_distinct [OF Cons.prems] by simp
  have "blist (m(a := ?h)) (next_btn ?h) xs"
    using Cons.prems ni by (subst blist_cong [of xs _ m]) auto
  note IH0 = Cons.IH [OF this]
  have eq: "map (\<lambda>b. map (Pair b) (snd (button_handler (lv b) ((m(a := ?h)) b)))) xs =
      map (\<lambda>b. map (Pair b) (snd (button_handler (lv b) (m b)))) xs"
    by (rule map_cong [OF refl]) (use ni in auto)
  have t: "t = Some a" using Cons.prems by simp
  have IH: "ticks_loop lv (m(a := ?h)) (next_btn (m a)) =
      Some (\<lambda>b. if b \<in> set xs then fst (button_handler (lv b) ((m(a := ?h)) b)) else (m(a := ?h)) b,
        concat (map (\<lambda>b. map (Pair b) (snd (button_handler (lv b) (m b)))) xs))"
    using IH0 unfolding eq handler_next .
  have "ticks_loop lv m t = Some (\<lambda>b. if b \<in> set xs then fst (button_handler (lv b) ((m(a := ?h)) b)) else (m(a := ?h)) b,
      map (Pair a) ?e @ concat (map (\<lambda>b. map (Pair b) (snd (button_handler (lv b) (m b)))) xs))"
    unfolding t by (subst ticks_loop.simps) (simp add: case_prod_unfold Let_def IH fun_upd_same del: fun_upd_apply)
  then show ?case using ni by (auto simp: fun_eq_iff)
qed

subsection \<open>Runs of one button\<close>

fun button_run :: "BUTTON_S \<Rightarrow> u8 list \<Rightarrow> BUTTON_S \<times> PRESS_EVT list" where
  "button_run h [] = (h, [])"
| "button_run h (l # ls) =
     (let (h1, e1) = button_handler l h; (h2, e2) = button_run h1 ls in (h2, e1 @ e2))"

definition mstep :: "BUTTON_S \<Rightarrow> BUTTON_S \<times> PRESS_EVT list" where
  "mstep h = machine (if 0 < state h then h\<lparr>ticks := ticks h + 1\<rparr> else h)"

fun msteps :: "nat \<Rightarrow> BUTTON_S \<Rightarrow> BUTTON_S \<times> PRESS_EVT list" where
  "msteps 0 h = (h, [])"
| "msteps (Suc n) h = (let (h1, e1) = mstep h; (h2, e2) = msteps n h1 in (h2, e1 @ e2))"

lemma button_run_append:
  "button_run h (xs @ ys) =
     (let (h1, e1) = button_run h xs; (h2, e2) = button_run h1 ys in (h2, e1 @ e2))"
  by (induction xs arbitrary: h) (simp_all add: case_prod_unfold Let_def)

lemma msteps_add:
  "msteps (m + n) h = (let (h1, e1) = msteps m h; (h2, e2) = msteps n h1 in (h2, e1 @ e2))"
  by (induction m arbitrary: h) (simp_all add: case_prod_unfold Let_def)

definition reading :: "1 word \<Rightarrow> u8" where "reading l = ucast l"

lemma ucast_reading [simp]: "ucast (reading l) = l"
  unfolding reading_def by (rule bit_word_eqI) (simp add: bit_simps)

lemma reading_eq [simp]: "(reading l = reading k) = (l = k)"
  by (metis ucast_reading)

text \<open>The machine neither reads nor writes the debounce counter and the levels.\<close>

lemma machine_cnt: "machine (h\<lparr>debounce_cnt := c\<rparr>) = (let (h', e) = machine h in (h'\<lparr>debounce_cnt := c\<rparr>, e))"
  by (simp add: machine_def Let_def EVENT_CB_def)

lemma machine_keeps [simp]:
  "debounce_cnt (fst (machine h)) = debounce_cnt h" "button_level (fst (machine h)) = button_level h"
  "active_level (fst (machine h)) = active_level h" "cb (fst (machine h)) = cb h"
  by (simp_all add: machine_def Let_def)

lemma mstep_keeps [simp]:
  "debounce_cnt (fst (mstep h)) = debounce_cnt h" "button_level (fst (mstep h)) = button_level h"
  "active_level (fst (mstep h)) = active_level h" "cb (fst (mstep h)) = cb h"
  by (simp_all add: mstep_def)

lemma upd_comm:
  "h\<lparr>debounce_cnt := c, ticks := t\<rparr> = h\<lparr>ticks := t, debounce_cnt := c\<rparr>"
  "h\<lparr>button_level := l, debounce_cnt := c, ticks := t\<rparr> = h\<lparr>ticks := t, button_level := l, debounce_cnt := c\<rparr>"
  "h\<lparr>button_level := l, ticks := t\<rparr> = h\<lparr>ticks := t, button_level := l\<rparr>"
  by (cases h; simp)+

lemma mstep_cnt: "mstep (h\<lparr>debounce_cnt := c\<rparr>) = (let (h', e) = mstep h in (h'\<lparr>debounce_cnt := c\<rparr>, e))"
  using machine_cnt [where h = "if 0 < state h then h\<lparr>ticks := ticks h + 1\<rparr> else h" and c = c]
  by (cases "0 < state h") (simp_all add: mstep_def upd_comm)

lemma handler_hold: "debounce_cnt h = 0 \<Longrightarrow> button_handler (reading (button_level h)) h = mstep h"
proof -
  assume z: "debounce_cnt h = 0"
  have "debounce (reading (button_level h)) g = g" if "debounce_cnt g = 0" "button_level g = button_level h" for g
    using that by (simp add: debounce_def reading_def)
  then show ?thesis using z by (simp add: button_handler_def mstep_def)
qed

lemma handler_count:
  assumes "button_level h \<noteq> l" "debounce_cnt h = of_nat k" "k < 5"
  shows "button_handler (reading l) h = (let (h', e) = mstep h in (h'\<lparr>debounce_cnt := of_nat (Suc k)\<rparr>, e))"
proof -
  have k: "k = 0 \<or> k = 1 \<or> k = 2 \<or> k = 3 \<or> k = 4" using assms(3) by auto
  have "debounce (reading l) g = g\<lparr>debounce_cnt := of_nat (Suc k)\<rparr>"
    if "debounce_cnt g = of_nat k" "button_level g = button_level h" for g
    using that assms(1) k by (elim disjE) (auto simp: debounce_def Let_def DEBOUNCE_TICKS_def word_le_nat_alt reading_def [symmetric])
  then show ?thesis
    using assms(2) by (cases "0 < state h") (simp_all add: button_handler_def mstep_def machine_cnt)
qed

lemma handler_flip:
  assumes "button_level h \<noteq> l" "debounce_cnt h = 5"
  shows "button_handler (reading l) h = mstep (h\<lparr>button_level := l, debounce_cnt := 0\<rparr>)"
proof -
  have "debounce (reading l) g = g\<lparr>button_level := l, debounce_cnt := 0\<rparr>"
    if "debounce_cnt g = 5" "button_level g = button_level h" for g
    using that assms(1) by (auto simp: debounce_def DEBOUNCE_TICKS_def reading_def [symmetric])
  then show ?thesis using assms(2) by (simp add: button_handler_def mstep_def upd_comm)
qed

lemma run_hold:
  "debounce_cnt h = 0 \<Longrightarrow> button_run h (replicate n (reading (button_level h))) = msteps n h"
proof (induction n arbitrary: h)
  case (Suc n)
  then show ?case using Suc.IH [of "fst (mstep h)"] by (simp add: handler_hold case_prod_unfold Let_def)
qed simp

lemma msteps_keeps [simp]:
  "debounce_cnt (fst (msteps n h)) = debounce_cnt h" "button_level (fst (msteps n h)) = button_level h"
  "active_level (fst (msteps n h)) = active_level h" "cb (fst (msteps n h)) = cb h"
  by (induction n arbitrary: h) (simp_all add: case_prod_unfold Let_def)

lemma run_count:
  "debounce_cnt h = 0 \<Longrightarrow> button_level h \<noteq> l \<Longrightarrow> k \<le> 5 \<Longrightarrow>
   button_run h (replicate k (reading l)) = (let (h1, e1) = msteps k h in (h1\<lparr>debounce_cnt := of_nat k\<rparr>, e1))"
proof (induction k)
  case 0
  then show ?case by (cases h) simp
next
  case (Suc k)
  let ?h = "fst (msteps k h)"
  have IH: "button_run h (replicate k (reading l)) = (?h\<lparr>debounce_cnt := of_nat k\<rparr>, snd (msteps k h))"
    using Suc by (simp add: case_prod_unfold Let_def)
  have "button_handler (reading l) (?h\<lparr>debounce_cnt := of_nat k\<rparr>) =
      ((fst (mstep ?h))\<lparr>debounce_cnt := of_nat (Suc k)\<rparr>, snd (mstep ?h))"
    using handler_count [of "?h\<lparr>debounce_cnt := of_nat k\<rparr>" l k] Suc.prems
    by (simp add: mstep_cnt case_prod_unfold Let_def)
  then show ?case
    unfolding replicate_append_same [symmetric] replicate_Suc
    using msteps_add [of k 1 h]
    by (simp add: button_run_append IH case_prod_unfold Let_def)
qed

lemma run_flip:
  assumes "debounce_cnt h = 0" "button_level h \<noteq> l"
  shows "button_run h (replicate (6 + n) (reading l)) =
    (let (h1, e1) = msteps 5 h; (h2, e2) = msteps (Suc n) (h1\<lparr>button_level := l\<rparr>) in (h2, e1 @ e2))"
proof -
  let ?h = "fst (msteps 5 h)"
  let ?g = "?h\<lparr>button_level := l\<rparr>"
  have r: "replicate (6 + n) (reading l) = replicate 5 (reading l) @ reading l # replicate n (reading l)"
    by (simp add: replicate_add [symmetric] numeral_eq_Suc)
  have 5: "button_run h (replicate 5 (reading l)) = (?h\<lparr>debounce_cnt := 5\<rparr>, snd (msteps 5 h))"
    using run_count [OF assms, of 5] by (simp add: case_prod_unfold Let_def)
  have g: "?h\<lparr>debounce_cnt := 5, button_level := l, debounce_cnt := 0\<rparr> = ?g"
    using assms(1) by (cases ?h) (use msteps_keeps(1) [of 5 h] in simp)
  have f: "button_handler (reading l) (?h\<lparr>debounce_cnt := 5\<rparr>) = mstep ?g"
    using handler_flip [of "?h\<lparr>debounce_cnt := 5\<rparr>" l] assms g by simp
  have "button_run (fst (mstep ?g)) (replicate n (reading l)) = msteps n (fst (mstep ?g))"
    using run_hold [of "fst (mstep ?g)" n] assms(1) by simp
  then show ?thesis
    unfolding r button_run_append 5 by (simp add: f case_prod_unfold Let_def)
qed

subsection \<open>Phases of a gesture\<close>

definition pressed :: "BUTTON_S \<Rightarrow> bool" where "pressed h \<longleftrightarrow> button_level h = active_level h"

lemma msteps_quiet:
  assumes "\<And>j. j < k \<Longrightarrow> mstep (h\<lparr>ticks := ticks h + of_nat j\<rparr>) = (h\<lparr>ticks := ticks h + of_nat j + 1\<rparr>, [])"
  shows "msteps k h = (h\<lparr>ticks := ticks h + of_nat k\<rparr>, [])"
  using assms
proof (induction k)
  case (Suc k)
  then show ?case using msteps_add [of k 1 h] by (simp add: case_prod_unfold Let_def ac_simps)
qed simp

lemma unat_ticks: "unat t + j \<le> n \<Longrightarrow> n < 65536 \<Longrightarrow> unat (t + of_nat j :: u16) = unat t + j"
  by (simp add: unat_word_ariths unsigned_of_nat take_bit_nat_def)

lemma tick_consts: "unat LONG_TICKS = 200" "unat SHORT_TICKS = 80"
  by (simp_all add: LONG_TICKS_def SHORT_TICKS_def TICKS_INTERVAL_def unat_div)

lemma phase_pressed:
  assumes "state h = 1" "pressed h" "unat (ticks h) + k \<le> 200"
  shows "msteps k h = (h\<lparr>ticks := ticks h + of_nat k\<rparr>, [])"
proof (rule msteps_quiet)
  fix j assume j: "j < k"
  have "unat (ticks h + of_nat (Suc j)) = unat (ticks h) + Suc j"
    using j assms(3) by (intro unat_ticks [where n = 200]) simp_all
  then have "\<not> LONG_TICKS < ticks h + of_nat j + 1"
    using j assms(3) by (simp add: tick_consts word_less_nat_alt ac_simps)
  then show "mstep (h\<lparr>ticks := ticks h + of_nat j\<rparr>) = (h\<lparr>ticks := ticks h + of_nat j + 1\<rparr>, [])"
    using assms(1,2) by (simp add: mstep_def machine_def pressed_def Let_def)
qed

lemma phase_released:
  assumes "state h = 2" "\<not> pressed h" "unat (ticks h) + k \<le> 80"
  shows "msteps k h = (h\<lparr>ticks := ticks h + of_nat k\<rparr>, [])"
proof (rule msteps_quiet)
  fix j assume j: "j < k"
  have "unat (ticks h + of_nat (Suc j)) = unat (ticks h) + Suc j"
    using j assms(3) by (intro unat_ticks [where n = 80]) simp_all
  then have "\<not> SHORT_TICKS < ticks h + of_nat j + 1"
    using j assms(3) by (simp add: tick_consts word_less_nat_alt ac_simps)
  then show "mstep (h\<lparr>ticks := ticks h + of_nat j\<rparr>) = (h\<lparr>ticks := ticks h + of_nat j + 1\<rparr>, [])"
    using assms(1,2) by (simp add: mstep_def machine_def pressed_def Let_def)
qed

lemma phase_again:
  assumes "state h = 3" "pressed h"
  shows "msteps k h = (h\<lparr>ticks := ticks h + of_nat k\<rparr>, [])"
  by (rule msteps_quiet) (use assms in \<open>simp add: mstep_def machine_def pressed_def Let_def\<close>)

lemma phase_idle:
  "state h = 0 \<Longrightarrow> \<not> pressed h \<Longrightarrow> msteps k h = (if k = 0 then h else h\<lparr>event := NONE_PRESS\<rparr>, [])"
proof (induction k arbitrary: h)
  case (Suc k)
  have "mstep h = (h\<lparr>event := NONE_PRESS\<rparr>, [])"
    using Suc.prems by (simp add: mstep_def machine_def pressed_def)
  then show ?case using Suc.IH [of "h\<lparr>event := NONE_PRESS\<rparr>"] Suc.prems by (simp add: pressed_def)
qed simp

lemma phase_hold:
  "state h = 5 \<Longrightarrow> pressed h \<Longrightarrow> cb h LONG_PRESS_HOLD \<Longrightarrow>
   \<exists>t e. msteps k h = (h\<lparr>ticks := t, event := e\<rparr>, replicate k LONG_PRESS_HOLD)"
proof (induction k arbitrary: h)
  case 0
  then show ?case by (cases h) auto
next
  case (Suc k)
  let ?h = "h\<lparr>ticks := ticks h + 1, event := LONG_PRESS_HOLD\<rparr>"
  have "mstep h = (?h, [LONG_PRESS_HOLD])"
    using Suc.prems by (simp add: mstep_def machine_def pressed_def EVENT_CB_def)
  moreover obtain t e where "msteps k ?h = (?h\<lparr>ticks := t, event := e\<rparr>, replicate k LONG_PRESS_HOLD)"
    using Suc.IH [of ?h] Suc.prems by (auto simp: pressed_def)
  ultimately show ?case by (cases h) auto
qed

lemma one_bit_cases: "(x :: 1 word) = y \<or> x = NOT y"
proof (cases "bit x 0 = bit y 0")
  case True
  then have "x = y" by (intro bit_word_eqI) simp
  then show ?thesis ..
next
  case False
  then have "x = NOT y" by (intro bit_word_eqI) (simp add: bit_simps)
  then show ?thesis ..
qed

lemma not_self [simp]: "(x :: 1 word) \<noteq> NOT x" "NOT x \<noteq> (x :: 1 word)"
proof -
  have "bit x 0 \<noteq> bit (NOT x) 0" by (simp add: bit_simps)
  then show "x \<noteq> NOT x" "NOT x \<noteq> x" by metis+
qed

lemma released_level: "\<not> pressed h \<longleftrightarrow> button_level h = NOT (active_level h)"
  using one_bit_cases [of "button_level h" "active_level h"] by (auto simp: pressed_def)

text \<open>
  \<open>btn a s r t h\<close>: a button with active level \<open>a\<close> and every callback attached rests in state \<open>s\<close>
  with repeat count \<open>r\<close>, \<open>t\<close> ticks and a settled level.
\<close>

definition btn :: "1 word \<Rightarrow> 3 word \<Rightarrow> 4 word \<Rightarrow> nat \<Rightarrow> BUTTON_S \<Rightarrow> bool" where
  "btn a s r t h \<longleftrightarrow> active_level h = a \<and> state h = s \<and> repeat h = r \<and> unat (ticks h) = t \<and> debounce_cnt h = 0 \<and>
     (\<forall>e. cb h e)"

definition idle :: "1 word \<Rightarrow> BUTTON_S \<Rightarrow> bool" where
  "idle a h \<longleftrightarrow> active_level h = a \<and> state h = 0 \<and> debounce_cnt h = 0 \<and> \<not> pressed h \<and> (\<forall>e. cb h e)"

abbreviation down :: "1 word \<Rightarrow> nat \<Rightarrow> u8 list" where "down a n \<equiv> replicate n (reading a)"
abbreviation up :: "1 word \<Rightarrow> nat \<Rightarrow> u8 list" where "up a n \<equiv> replicate n (reading (NOT a))"

lemma unat_count: "k < 65536 \<Longrightarrow> unat (0 + of_nat k :: u16) = k"
  by (simp add: unsigned_of_nat take_bit_nat_def)

lemma run_turn:
  assumes "debounce_cnt h = 0" "button_level h \<noteq> l" "6 \<le> n"
    and "msteps 5 h = (h1, e1)" "mstep (h1\<lparr>button_level := l\<rparr>) = (h2, e2)" "msteps (n - 6) h2 = (h3, e3)"
  shows "button_run h (replicate n (reading l)) = (h3, e1 @ e2 @ e3)"
  using run_flip [OF assms(1,2), of "n - 6"] assms(3-6) by simp

lemma first_down:
  assumes "idle a h" "6 \<le> p" "p \<le> 206"
  shows "\<exists>h'. button_run h (down a p) = (h', [PRESS_DOWN]) \<and> btn a 1 1 (p - 6) h' \<and> pressed h'"
proof -
  let ?h2 = "h\<lparr>event := PRESS_DOWN, button_level := a, ticks := 0, repeat := 1, state := 1\<rparr>"
  have m5: "msteps 5 h = (h\<lparr>event := NONE_PRESS\<rparr>, [])" using phase_idle [of h 5] assms(1) by (simp add: idle_def)
  have m: "mstep (h\<lparr>event := NONE_PRESS, button_level := a\<rparr>) = (?h2, [PRESS_DOWN])"
    using assms(1) by (cases h) (simp add: mstep_def machine_def idle_def EVENT_CB_def)
  have q: "msteps (p - 6) ?h2 = (?h2\<lparr>ticks := 0 + of_nat (p - 6)\<rparr>, [])"
    using phase_pressed [of ?h2 "p - 6"] assms by (simp add: pressed_def idle_def)
  have "button_run h (down a p) = (?h2\<lparr>ticks := 0 + of_nat (p - 6)\<rparr>, [] @ [PRESS_DOWN] @ [])"
    by (rule run_turn [OF _ _ assms(2) m5 m q]) (use assms(1) in \<open>auto simp: idle_def pressed_def\<close>)
  then show ?thesis
    using assms unat_count [of "p - 6"] by (auto simp: btn_def idle_def pressed_def simp del: of_nat_diff)
qed

lemma release:
  assumes "btn a s r t h" "pressed h" "s = 1 \<and> t \<le> 195 \<or> s = 3 \<and> t + 6 < 80" "6 \<le> q" "q \<le> 86"
  shows "\<exists>h'. button_run h (up a q) = (h', [PRESS_UP]) \<and> btn a 2 r (q - 6) h' \<and> \<not> pressed h'"
proof -
  have st: "state h = s" "active_level h = a" "unat (ticks h) = t" "button_level h = a" using assms(1,2) by (auto simp: btn_def pressed_def)
  let ?h1 = "h\<lparr>ticks := ticks h + of_nat 5\<rparr>"
  let ?h2 = "h\<lparr>event := PRESS_UP, button_level := NOT a, ticks := 0, state := 2\<rparr>"
  have m5: "msteps 5 h = (?h1, [])"
    using assms(2,3) st phase_pressed [of h 5] phase_again [of h 5] by auto
  have "unat (ticks h + of_nat 6) = t + 6" if "s = 3"
    using that assms(3) st(3) unat_ticks [of "ticks h" 6 80] by simp
  then have sh: "ticks h + 6 < SHORT_TICKS" if "s = 3"
    using that assms(3) by (simp add: word_less_nat_alt tick_consts)
  have m: "mstep (?h1\<lparr>button_level := NOT a\<rparr>) = (?h2, [PRESS_UP])"
    using assms(1,3) st sh sh [unfolded add.commute [of "ticks h" 6]] by (cases h) (auto simp: mstep_def machine_def btn_def EVENT_CB_def)
  have q: "msteps (q - 6) ?h2 = (?h2\<lparr>ticks := 0 + of_nat (q - 6)\<rparr>, [])"
    using phase_released [of ?h2 "q - 6"] assms(5) st by (simp add: pressed_def)
  have "button_run h (up a q) = (?h2\<lparr>ticks := 0 + of_nat (q - 6)\<rparr>, [] @ [PRESS_UP] @ [])"
    by (rule run_turn [OF _ _ assms(4) m5 m q]) (use assms(1) st in \<open>auto simp: btn_def\<close>)
  then show ?thesis
    using assms unat_count [of "q - 6"] by (auto simp: btn_def pressed_def simp del: of_nat_diff)
qed

lemma again_down:
  assumes "btn a 2 r t h" "\<not> pressed h" "t \<le> 75" "6 \<le> p" "p \<le> 1000"
  shows "\<exists>h'. button_run h (down a p) =
      (h', [PRESS_DOWN] @ (if r + 1 = 2 then [DOUBLE_CLICK] else []) @ [PRESS_REPEAT]) \<and> btn a 3 (r + 1) (p - 6) h' \<and> pressed h'"
proof -
  have st: "state h = 2" "active_level h = a" "unat (ticks h) = t" "button_level h \<noteq> a" "repeat h = r"
    using assms(1,2) by (auto simp: btn_def pressed_def)
  let ?h1 = "h\<lparr>ticks := ticks h + of_nat 5\<rparr>"
  let ?h2 = "h\<lparr>event := PRESS_DOWN, button_level := a, ticks := 0, repeat := r + 1, state := 3\<rparr>"
  let ?e = "[PRESS_DOWN] @ (if r + 1 = 2 then [DOUBLE_CLICK] else []) @ [PRESS_REPEAT]"
  have m5: "msteps 5 h = (?h1, [])" using phase_released [of h 5] assms(2,3) st by simp
  have m: "mstep (?h1\<lparr>button_level := a\<rparr>) = (?h2, ?e)"
    using assms(1) st by (cases h) (simp add: mstep_def machine_def btn_def EVENT_CB_def)
  have q: "msteps (p - 6) ?h2 = (?h2\<lparr>ticks := 0 + of_nat (p - 6)\<rparr>, [])"
    using phase_again [of ?h2 "p - 6"] st by (simp add: pressed_def)
  have "button_run h (down a p) = (?h2\<lparr>ticks := 0 + of_nat (p - 6)\<rparr>, [] @ ?e @ [])"
    by (rule run_turn [OF _ _ assms(4) m5 m q]) (use assms(1) st in \<open>auto simp: btn_def\<close>)
  then show ?thesis
    using assms unat_count [of "p - 6"] by (auto simp: btn_def pressed_def simp del: of_nat_diff)
qed

lemma timeout:
  assumes "btn a 2 r t h" "\<not> pressed h" "t \<le> 80" "81 \<le> t + n"
  shows "\<exists>h'. button_run h (up a n) = (h', if r = 1 then [SINGLE_CLICK] else []) \<and> idle a h'"
proof -
  have st: "state h = 2" "active_level h = a" "unat (ticks h) = t" "repeat h = r" "debounce_cnt h = 0" "\<forall>e. cb h e"
    using assms(1) by (auto simp: btn_def)
  have lv: "button_level h = NOT a" using assms(2) st released_level by blast
  let ?k = "80 - t"
  let ?h1 = "h\<lparr>ticks := ticks h + of_nat ?k\<rparr>"
  let ?e = "if r = 1 then [SINGLE_CLICK] else []"
  have r: "button_run h (up a n) = msteps n h" using run_hold [OF st(5), of n] lv by simp
  have q: "msteps ?k h = (?h1, [])" using phase_released [of h ?k] assms(2,3) st by simp
  have "unat (ticks h + of_nat (?k + 1)) = 81" using unat_ticks [of "ticks h" "?k + 1" 81] assms(3) st(3) by simp
  then have to: "SHORT_TICKS < ticks h + (1 + of_nat ?k)" by (simp add: word_less_nat_alt tick_consts add.commute)
  have e: "snd (mstep ?h1) = ?e \<and> state (fst (mstep ?h1)) = 0"
    using st lv to by (simp add: mstep_def machine_def EVENT_CB_def Let_def ac_simps)
  obtain h2 where m: "mstep ?h1 = (h2, ?e)" "state h2 = 0" "button_level h2 = NOT a" "active_level h2 = a"
    "debounce_cnt h2 = 0" "\<forall>e. cb h2 e"
  proof (rule that [of "fst (mstep ?h1)"])
    show "mstep ?h1 = (fst (mstep ?h1), ?e)" by (rule prod_eqI) (simp_all only: e fst_conv snd_conv)
  qed (use e st lv in simp_all)
  define j where "j = n - ?k - 1"
  have id: "msteps j h2 = (if j = 0 then h2 else h2\<lparr>event := NONE_PRESS\<rparr>, [])"
    by (rule phase_idle) (use m in \<open>simp_all add: pressed_def\<close>)
  have n: "n = ?k + (1 + j)" using assms(3,4) by (simp add: j_def)
  have "msteps (?k + (1 + j)) h = (if j = 0 then h2 else h2\<lparr>event := NONE_PRESS\<rparr>, ?e)"
    by (simp only: msteps_add q) (simp add: m(1) id)
  then show ?thesis using r m n by (auto simp: idle_def pressed_def)
qed

lemma run_two:
  "button_run h xs = (h1, e1) \<Longrightarrow> button_run h1 ys = (h2, e2) \<Longrightarrow> button_run h (xs @ ys) = (h2, e1 @ e2)"
  by (simp add: button_run_append)

subsection \<open>Clicks\<close>

definition clicks :: "1 word \<Rightarrow> (nat \<times> nat) list \<Rightarrow> u8 list" where
  "clicks a cs = concat (map (\<lambda>(p, q). down a p @ up a q) cs)"

definition click_evs :: "nat \<Rightarrow> PRESS_EVT list" where
  "click_evs k =
     (if k = 0 then [PRESS_DOWN, PRESS_UP]
      else [PRESS_DOWN] @ (if (of_nat (k + 1) :: 4 word) = 2 then [DOUBLE_CLICK] else []) @ [PRESS_REPEAT, PRESS_UP])"

definition quick :: "nat \<times> nat \<Rightarrow> bool" where
  "quick c \<longleftrightarrow> 6 \<le> fst c \<and> fst c \<le> 79 \<and> 6 \<le> snd c \<and> snd c \<le> 81"

lemma clicks_ok:
  assumes "idle a h"
  shows "cs \<noteq> [] \<Longrightarrow> \<forall>c \<in> set cs. quick c \<Longrightarrow>
    \<exists>h'. button_run h (clicks a cs) = (h', concat (map click_evs [0..<length cs])) \<and>
      btn a 2 (of_nat (length cs)) (snd (last cs) - 6) h' \<and> \<not> pressed h'"
proof (induction cs rule: rev_induct)
  case (snoc c cs)
  obtain p q where c: "c = (p, q)" by (cases c)
  have pq: "6 \<le> p" "p \<le> 79" "6 \<le> q" "q \<le> 81" using snoc.prems c by (simp_all add: quick_def)
  have q86: "q \<le> 86" using pq by simp
  have cl: "clicks a (cs @ [c]) = clicks a cs @ down a p @ up a q" by (simp add: clicks_def c)
  show ?case
  proof (cases "cs = []")
    case True
    obtain h1 where h1: "button_run h (down a p) = (h1, [PRESS_DOWN])" "btn a 1 1 (p - 6) h1" "pressed h1"
      using first_down [OF assms pq(1)] pq by auto
    have "(1 :: 3 word) = 1 \<and> p - 6 \<le> 195 \<or> (1 :: 3 word) = 3 \<and> p - 6 + 6 < 80" using pq by simp
    then obtain h2 where h2: "button_run h1 (up a q) = (h2, [PRESS_UP])" "btn a 2 1 (q - 6) h2" "\<not> pressed h2"
      using release [OF h1(2,3) _ pq(3) q86] by blast
    then show ?thesis using run_two [OF h1(1) h2(1)] True cl c by (auto simp: clicks_def click_evs_def)
  next
    case False
    have qt: "snd (last cs) - 6 \<le> 75" using snoc.prems(2) False by (auto simp: quick_def dest!: bspec [of _ _ "last cs"])
    obtain h0 where h0: "button_run h (clicks a cs) = (h0, concat (map click_evs [0..<length cs]))"
      "btn a 2 (of_nat (length cs)) (snd (last cs) - 6) h0" "\<not> pressed h0"
      using snoc.IH snoc.prems(2) False by auto
    let ?r = "of_nat (length cs) :: 4 word"
    obtain h1 where h1: "button_run h0 (down a p) =
        (h1, [PRESS_DOWN] @ (if ?r + 1 = 2 then [DOUBLE_CLICK] else []) @ [PRESS_REPEAT])"
      "btn a 3 (?r + 1) (p - 6) h1" "pressed h1"
      using again_down [OF h0(2,3) qt pq(1)] pq by auto
    have "(3 :: 3 word) = 1 \<and> p - 6 \<le> 195 \<or> (3 :: 3 word) = 3 \<and> p - 6 + 6 < 80" using pq by simp
    then obtain h2 where h2: "button_run h1 (up a q) = (h2, [PRESS_UP])" "btn a 2 (?r + 1) (q - 6) h2" "\<not> pressed h2"
      using release [OF h1(2,3) _ pq(3) q86] by blast
    have "button_run h (clicks a (cs @ [c])) = (h2, concat (map click_evs [0..<length cs]) @ click_evs (length cs))"
      unfolding cl using run_two [OF h0(1) run_two [OF h1(1) h2(1)]] False by (simp add: click_evs_def add.commute)
    then show ?thesis using h2(2,3) c by (auto simp: add.commute)
  qed
qed simp

lemma of_nat_4: "(of_nat n :: 4 word) = 1 \<longleftrightarrow> n mod 16 = 1"
  using word_of_nat_eq_iff [of n 1, where ?'a = 4] by (simp add: take_bit_eq_mod)

subsection \<open>Long press\<close>

lemma long_down:
  assumes "idle a h" "207 \<le> p"
  shows "\<exists>h'. button_run h (down a p) = (h', [PRESS_DOWN, LONG_PRESS_START] @ replicate (p - 207) LONG_PRESS_HOLD) \<and>
    state h' = 5 \<and> pressed h' \<and> active_level h' = a \<and> debounce_cnt h' = 0 \<and> (\<forall>e. cb h' e)"
proof -
  obtain h1 where h1: "button_run h (down a 206) = (h1, [PRESS_DOWN])" "btn a 1 1 200 h1" "pressed h1"
    using first_down [OF assms(1), of 206] by auto
  have st: "state h1 = 1" "active_level h1 = a" "unat (ticks h1) = 200" "debounce_cnt h1 = 0" "\<forall>e. cb h1 e" "button_level h1 = a"
    using h1(2,3) by (auto simp: btn_def pressed_def)
  let ?h2 = "h1\<lparr>ticks := ticks h1 + 1, event := LONG_PRESS_START, state := 5\<rparr>"
  have "unat (ticks h1 + of_nat 1) = 201" using unat_ticks [of "ticks h1" 1 201] st(3) by simp
  then have "LONG_TICKS < ticks h1 + 1" by (simp add: word_less_nat_alt tick_consts)
  then have m: "mstep h1 = (?h2, [LONG_PRESS_START])"
    using st by (simp add: mstep_def machine_def EVENT_CB_def Let_def)
  obtain t e where k: "msteps (p - 207) ?h2 = (?h2\<lparr>ticks := t, event := e\<rparr>, replicate (p - 207) LONG_PRESS_HOLD)"
    using phase_hold [of ?h2 "p - 207"] st by (auto simp: pressed_def)
  have "button_run h1 (down a (Suc (p - 207))) = (?h2\<lparr>ticks := t, event := e\<rparr>, LONG_PRESS_START # replicate (p - 207) LONG_PRESS_HOLD)"
    using run_hold [OF st(4), of "Suc (p - 207)"] st(6) m k by simp
  then have "button_run h (down a 206 @ down a (Suc (p - 207))) =
      (?h2\<lparr>ticks := t, event := e\<rparr>, [PRESS_DOWN] @ LONG_PRESS_START # replicate (p - 207) LONG_PRESS_HOLD)"
    by (rule run_two [OF h1(1)])
  moreover have "down a 206 @ down a (Suc (p - 207)) = down a p"
    using assms(2) by (simp only: replicate_add [symmetric]) simp
  ultimately show ?thesis using st by (auto simp: pressed_def)
qed

lemma long_release:
  assumes "state h = 5" "pressed h" "active_level h = a" "debounce_cnt h = 0" "\<forall>e. cb h e" "6 \<le> q"
  shows "\<exists>h'. button_run h (up a q) = (h', replicate 5 LONG_PRESS_HOLD @ [PRESS_UP]) \<and> idle a h'"
proof -
  have lv: "button_level h = a" using assms(2,3) by (simp add: pressed_def)
  obtain t e where m5: "msteps 5 h = (h\<lparr>ticks := t, event := e\<rparr>, replicate 5 LONG_PRESS_HOLD)"
    using phase_hold [OF assms(1,2)] assms(5) by blast
  let ?h2 = "h\<lparr>ticks := t + 1, event := PRESS_UP, button_level := NOT a, state := 0\<rparr>"
  have m: "mstep (h\<lparr>ticks := t, event := e, button_level := NOT a\<rparr>) = (?h2, [PRESS_UP])"
    using assms by (cases h) (simp add: mstep_def machine_def EVENT_CB_def)
  have k: "msteps (q - 6) ?h2 = (if q - 6 = 0 then ?h2 else ?h2\<lparr>event := NONE_PRESS\<rparr>, [])"
    by (rule phase_idle) (use assms in \<open>simp_all add: pressed_def\<close>)
  have "button_run h (up a q) = (if q - 6 = 0 then ?h2 else ?h2\<lparr>event := NONE_PRESS\<rparr>, replicate 5 LONG_PRESS_HOLD @ [PRESS_UP] @ [])"
    by (rule run_turn [OF assms(4) _ assms(6) m5 m k]) (simp add: lv)
  then show ?thesis using assms by (auto simp: idle_def pressed_def)
qed

subsection \<open>Reachable states\<close>

inductive btn_reach :: "BUTTON_S \<Rightarrow> bool" where
  init: "btn_reach (button_init l active u)"
| attach: "btn_reach h \<Longrightarrow> btn_reach (button_attach h ev c)"
| tick: "btn_reach h \<Longrightarrow> btn_reach (fst (button_handler l h))"
| link: "btn_reach h \<Longrightarrow> btn_reach (h\<lparr>next_btn := n\<rparr>)"

inductive_cases btn_reachE: "btn_reach h"

definition btn_inv :: "BUTTON_S \<Rightarrow> bool" where
  "btn_inv h \<longleftrightarrow> state h \<in> {0, 1, 2, 3, 5} \<and> debounce_cnt h < 6 \<and>
     (state h \<in> {1, 3, 5} \<longrightarrow> pressed h) \<and> (state h = 2 \<longrightarrow> \<not> pressed h)"

lemma machine_inv:
  "state h \<in> {0, 1, 2, 3, 5} \<Longrightarrow> state (fst (machine h)) \<in> {0, 1, 2, 3, 5} \<and>
    (state (fst (machine h)) \<in> {1, 3, 5} \<longrightarrow> pressed h) \<and> (state (fst (machine h)) \<in> {0, 2} \<longrightarrow> \<not> pressed h)"
  by (elim insertE emptyE; simp add: machine_def pressed_def Let_def)

lemma pressed_machine [simp]: "pressed (fst (machine h)) = pressed h"
  by (simp add: pressed_def)

lemma debounce_keeps [simp]: "state (debounce l h) = state h" "cb (debounce l h) = cb h" "active_level (debounce l h) = active_level h"
  by (simp_all add: debounce_def Let_def)

lemma debounce_cnt_lt: "debounce_cnt h < 6 \<Longrightarrow> debounce_cnt (debounce l h) < 6"
  by (auto simp: debounce_def Let_def DEBOUNCE_TICKS_def not_le)

lemma handler_inv:
  assumes "state h \<in> {0, 1, 2, 3, 5}" "debounce_cnt h < 6"
  shows "btn_inv (fst (button_handler l h)) \<and>
    (pressed (fst (button_handler l h)) \<longleftrightarrow> state (fst (button_handler l h)) \<in> {1, 3, 5})"
proof -
  let ?g = "debounce l (if 0 < state h then h\<lparr>ticks := ticks h + 1\<rparr> else h)"
  have s: "state ?g \<in> {0, 1, 2, 3, 5}" using assms(1) by simp
  have c: "debounce_cnt ?g < 6" by (rule debounce_cnt_lt) (use assms(2) in simp)
  have "fst (button_handler l h) = fst (machine ?g)" by (simp add: button_handler_def)
  moreover have "btn_inv (fst (machine ?g)) \<and> (pressed (fst (machine ?g)) \<longleftrightarrow> state (fst (machine ?g)) \<in> {1, 3, 5})"
    using machine_inv [OF s] c unfolding btn_inv_def pressed_machine machine_keeps by blast
  ultimately show ?thesis by simp
qed

lemma btn_reach_inv: "btn_reach h \<Longrightarrow> btn_inv h"
proof (induction rule: btn_reach.induct)
  case (tick h l)
  then show ?case using handler_inv [of h l] by (simp add: btn_inv_def)
qed (simp_all add: btn_inv_def button_init_def button_attach_def pressed_def)

subsection \<open>Debouncing\<close>

lemma handler_level_cnt:
  "button_level (fst (button_handler l h)) = button_level (debounce l h)"
  "debounce_cnt (fst (button_handler l h)) = debounce_cnt (debounce l h)"
  by (simp_all add: button_handler_def) (simp_all add: debounce_def Let_def)

lemma trailing:
  assumes "debounce_cnt h = 0"
  shows "(let h' = fst (button_run h ls); c = unat (debounce_cnt h') in c < 6 \<and> c \<le> length ls \<and>
    (\<forall>x \<in> set (drop (length ls - c) ls). x \<noteq> reading (button_level h')))"
proof (induction ls rule: rev_induct)
  case Nil
  then show ?case using assms by simp
next
  case (snoc l ls)
  let ?h = "fst (button_run h ls)" and ?h' = "fst (button_run h (ls @ [l]))"
  have h': "?h' = fst (button_handler l ?h)" by (simp add: button_run_append case_prod_unfold Let_def)
  let ?c = "unat (debounce_cnt ?h)"
  have IH: "?c < 6" "?c \<le> length ls" "\<forall>x \<in> set (drop (length ls - ?c) ls). x \<noteq> reading (button_level ?h)"
    using snoc.IH by (simp_all add: Let_def)
  show ?case
  proof (cases "l = reading (button_level ?h) \<or> ?c = 5")
    case True
    then have "debounce_cnt ?h' = 0"
      using word_unat_eq_iff [of "debounce_cnt ?h" 5]
      by (auto simp: h' handler_level_cnt debounce_def reading_def [symmetric] DEBOUNCE_TICKS_def Let_def)
    then show ?thesis by (simp add: Let_def)
  next
    case False
    then have c: "?c < 5" "l \<noteq> reading (button_level ?h)" using IH(1) by auto
    then have u: "unat (debounce_cnt ?h + 1) = ?c + 1" by (simp add: unat_word_ariths)
    then have "\<not> DEBOUNCE_TICKS \<le> debounce_cnt ?h + 1" using c by (simp add: word_le_nat_alt DEBOUNCE_TICKS_def)
    then have n: "debounce_cnt ?h' = debounce_cnt ?h + 1" "button_level ?h' = button_level ?h"
      using c(2) by (simp_all add: h' handler_level_cnt debounce_def reading_def [symmetric] Let_def)
    show ?thesis using IH c by (auto simp: n u Let_def)
  qed
qed

subsection \<open>Properties\<close>

text \<open>C15. Any number of quick clicks: each click reports its press and release, the second one
  (modulo 16) a double click, and after the pause that ends the gesture a single click is
  reported exactly when the number of clicks is 1 modulo 16, because the repeat counter has
  four bits.  The button is idle again.\<close>

theorem button_clicks:
  assumes "idle a h" and "cs \<noteq> []" and "\<forall>c \<in> set cs. quick c" and "81 \<le> n"
  shows "\<exists>h'. button_run h (clicks a cs @ up a n) =
      (h', concat (map click_evs [0..<length cs]) @ (if length cs mod 16 = 1 then [SINGLE_CLICK] else [])) \<and> idle a h'"
proof -
  obtain h1 where h1: "button_run h (clicks a cs) = (h1, concat (map click_evs [0..<length cs]))"
    "btn a 2 (of_nat (length cs)) (snd (last cs) - 6) h1" "\<not> pressed h1"
    using clicks_ok [OF assms(1-3)] by blast
  have "quick (last cs)" using assms(2,3) by simp
  then have "snd (last cs) - 6 \<le> 80" unfolding quick_def by linarith
  then obtain h2 where "button_run h1 (up a n) = (h2, if (of_nat (length cs) :: 4 word) = 1 then [SINGLE_CLICK] else [])" "idle a h2"
    using timeout [OF h1(2,3), of n] assms(4) by auto
  then show ?thesis using run_two [OF h1(1)] by (auto simp: of_nat_4)
qed

definition demo_button :: BUTTON_S where
  "demo_button = (button_init 1 0 7)\<lparr>cb := (\<lambda>_. True)\<rparr>"

lemma demo_button_idle: "idle 0 demo_button"
  by (simp add: demo_button_def button_init_def idle_def pressed_def)

theorem button_clicks_witness:
  "\<exists>h'. button_run demo_button (clicks 0 (replicate 17 (10, 10)) @ up 0 81) =
      (h', concat (map click_evs [0..<17]) @ [SINGLE_CLICK]) \<and> idle 0 h'"
  using button_clicks [OF demo_button_idle, of "replicate 17 (10, 10)" 81] by (simp add: quick_def)

text \<open>C24. A long press, seen as at least 207 pressed readings, reports the press, the start of
  the long press, one hold per further tick (five of them while the release is debounced), and
  the release; the button is idle again.\<close>

theorem button_long_press:
  assumes "idle a h" and "207 \<le> p" and "6 \<le> q"
  shows "\<exists>h'. button_run h (down a p @ up a q) =
      (h', [PRESS_DOWN, LONG_PRESS_START] @ replicate (p - 202) LONG_PRESS_HOLD @ [PRESS_UP]) \<and> idle a h'"
proof -
  obtain h1 where h1: "button_run h (down a p) = (h1, [PRESS_DOWN, LONG_PRESS_START] @ replicate (p - 207) LONG_PRESS_HOLD)"
    "state h1 = 5" "pressed h1" "active_level h1 = a" "debounce_cnt h1 = 0" "\<forall>e. cb h1 e"
    using long_down [OF assms(1,2)] by blast
  obtain h2 where h2: "button_run h1 (up a q) = (h2, replicate 5 LONG_PRESS_HOLD @ [PRESS_UP])" "idle a h2"
    using long_release [OF h1(2-6) assms(3)] by blast
  have r: "replicate (p - 207) LONG_PRESS_HOLD @ replicate 5 LONG_PRESS_HOLD = replicate (p - 202) LONG_PRESS_HOLD"
    using assms(2) by (simp only: replicate_add [symmetric]) simp
  show ?thesis using run_two [OF h1(1) h2(1)] h2(2) by (simp add: r [symmetric])
qed

theorem button_long_press_witness:
  "\<exists>h'. button_run demo_button (down 0 210 @ up 0 6) =
      (h', [PRESS_DOWN, LONG_PRESS_START] @ replicate 8 LONG_PRESS_HOLD @ [PRESS_UP]) \<and> idle 0 h'"
  using button_long_press [OF demo_button_idle, of 210 6] by simp

text \<open>C24. Reachable handles: whatever is attached and whatever the pin reads, the state is one of
  the five states of the switch, the debounce counter stays below its limit, a button in a
  pressed state has the active level and one waiting for another click has not.\<close>

theorem button_reachable_ok:
  assumes "btn_reach h"
  shows "state h \<in> {0, 1, 2, 3, 5} \<and> debounce_cnt h < 6 \<and>
    (state h \<in> {1, 3, 5} \<longrightarrow> button_level h = active_level h) \<and> (state h = 2 \<longrightarrow> button_level h \<noteq> active_level h)"
  using btn_reach_inv [OF assms] by (simp add: btn_inv_def pressed_def)

theorem button_reachable_ok_witness: "state (fst (button_handler 3 (button_init 0 0 7))) \<in> {0, 1, 2, 3, 5}"
  using button_reachable_ok [OF btn_reach.tick [OF btn_reach.init]] by blast

text \<open>C28. Debouncing: the level of a button changes only with a reading that, like the five
  before it, differs from the level; a shorter glitch leaves the level as it is.\<close>

theorem button_debounce_six:
  assumes "debounce_cnt h = 0" and "h1 = fst (button_run h ls)"
    and "button_level (fst (button_handler l h1)) \<noteq> button_level h1"
  shows "5 \<le> length ls \<and> (\<forall>x \<in> set (l # drop (length ls - 5) ls). x \<noteq> reading (button_level h1))"
proof -
  have ch: "l \<noteq> reading (button_level h1)" "DEBOUNCE_TICKS \<le> debounce_cnt h1 + 1"
    using assms(3) by (auto simp: handler_level_cnt debounce_def reading_def [symmetric] Let_def split: if_splits)
  note t = trailing [OF assms(1), of ls, folded assms(2), unfolded Let_def]
  then have u: "unat (debounce_cnt h1 + 1) = unat (debounce_cnt h1) + 1" by (simp add: unat_word_ariths)
  then have "unat (debounce_cnt h1) = 5" using ch(2) t by (simp add: word_le_nat_alt DEBOUNCE_TICKS_def)
  then show ?thesis using t ch(1) by simp
qed

theorem button_debounce_six_witness:
  "button_level (fst (button_run demo_button (replicate 5 0))) = 1 \<and>
   button_level (fst (button_handler 0 (fst (button_run demo_button (replicate 5 0))))) = 0 \<and> 0 \<noteq> reading 1"
proof -
  have r0: "reading 0 = 0" by (simp add: reading_def)
  have h5: "button_run demo_button (replicate 5 (reading 0)) =
      (let (h1, e1) = msteps 5 demo_button in (h1\<lparr>debounce_cnt := 5\<rparr>, e1))"
    using run_count [of demo_button 0 5] by (simp add: demo_button_def button_init_def)
  let ?h1 = "fst (button_run demo_button (replicate 5 0))"
  have l1: "button_level ?h1 = 1" "debounce_cnt ?h1 = 5"
    using h5 unfolding r0 by (simp_all add: case_prod_unfold Let_def) (simp add: demo_button_def button_init_def)
  have "button_level (fst (button_handler (reading 0) ?h1)) = 0"
    by (subst handler_flip) (simp_all add: l1)
  then have ne: "button_level (fst (button_handler 0 ?h1)) \<noteq> button_level ?h1" using l1 r0 by simp
  have z: "debounce_cnt demo_button = 0" by (simp add: demo_button_def button_init_def)
  show ?thesis using button_debounce_six [OF z refl ne] l1 ne \<open>button_level (fst (button_handler (reading 0) ?h1)) = 0\<close> r0 by simp
qed

text \<open>C25. The linked list behaves as a list without duplicates: \<open>button_start\<close> puts a new handle
  in front and refuses a registered one, \<open>button_stop\<close> removes the handle and keeps the order of
  the others and all their fields but the links, and the search finds the first match.  Every
  one of these loops returns.\<close>

theorem button_list_ops:
  assumes "blist (heap s) (head_handle s) xs"
  shows "\<exists>s1 s2. button_start s h = Some (if h \<in> set xs then -1 else 0, s1) \<and>
      blist (heap s1) (head_handle s1) (if h \<in> set xs then xs else h # xs) \<and>
      button_stop s h = Some s2 \<and> blist (heap s2) (head_handle s2) (filter (\<lambda>a. a \<noteq> h) xs) \<and>
      (\<forall>a. \<exists>n. heap s2 a = (heap s a)\<lparr>next_btn := n\<rparr>) \<and>
      button_find_with_user_data s u = Some (find (\<lambda>a. user_data (heap s a) = u) xs)"
proof -
  obtain s2 where s2: "stop_loop s None h = Some s2" "blist (heap s2) (deref s2 None) (filter (\<lambda>a. a \<noteq> h) xs)"
    "\<forall>a. \<exists>n. heap s2 a = (heap s a)\<lparr>next_btn := n\<rparr>"
    using stop_loop_blist [of s None xs h] assms by (auto simp: deref_def)
  have "\<exists>s1. button_start s h = Some (if h \<in> set xs then -1 else 0, s1) \<and>
      blist (heap s1) (head_handle s1) (if h \<in> set xs then xs else h # xs)"
  proof (cases "h \<in> set xs")
    case False
    then have "blist ((heap s)(h := (heap s h)\<lparr>next_btn := head_handle s\<rparr>)) (head_handle s) xs"
      using assms by (subst blist_cong [of xs _ "heap s"]) auto
    then show ?thesis using False by (simp add: button_start_def on_list_blist [OF assms])
  qed (use assms in \<open>simp add: button_start_def on_list_blist [OF assms]\<close>)
  then show ?thesis
    using s2 by (auto simp: button_stop_def deref_def button_find_with_user_data_def find_loop_blist [OF assms])
qed

definition demo_keys :: key_state where
  "demo_keys = \<lparr>head_handle = Some 1, heap = (\<lambda>a. demo_button\<lparr>user_data := a, next_btn := if a = 1 then Some 2 else None\<rparr>)\<rparr>"

lemma demo_keys_list: "blist (heap demo_keys) (head_handle demo_keys) [1, 2]"
  by (simp add: demo_keys_def)

theorem button_list_ops_witness:
  "\<exists>s2. button_stop demo_keys 1 = Some s2 \<and> blist (heap s2) (head_handle s2) [2] \<and>
     button_find_with_user_data demo_keys 2 = Some (Some 2)"
  using button_list_ops [OF demo_keys_list, of 1 2] by (auto simp: demo_keys_def)

text \<open>C28. A timer tick steps every registered button exactly once with the level of its own pin,
  in list order, and touches no other.\<close>

theorem button_ticks_each_once:
  assumes "blist (heap s) (head_handle s) xs"
  shows "\<exists>s'. button_ticks lv s =
      Some (s', concat (map (\<lambda>a. map (Pair a) (snd (button_handler (lv a) (heap s a)))) xs)) \<and>
    (\<forall>a. heap s' a = (if a \<in> set xs then fst (button_handler (lv a) (heap s a)) else heap s a)) \<and>
    blist (heap s') (head_handle s') xs"
proof -
  let ?m = "\<lambda>a. if a \<in> set xs then fst (button_handler (lv a) (heap s a)) else heap s a"
  have "blist ?m (head_handle s) xs" using assms by (subst blist_cong [of xs _ "heap s"]) auto
  then show ?thesis
    by (intro exI [of _ "s\<lparr>heap := ?m\<rparr>"]) (simp add: button_ticks_def ticks_loop_blist [OF assms])
qed

theorem button_ticks_each_once_witness:
  "\<exists>s'. button_ticks (\<lambda>_. 1) demo_keys = Some (s', []) \<and> heap s' 3 = heap demo_keys 3"
proof -
  have "snd (button_handler 1 (heap demo_keys a)) = []" for a
    by (simp add: demo_keys_def demo_button_def button_init_def button_handler_def debounce_def machine_def Let_def)
  then show ?thesis using button_ticks_each_once [OF demo_keys_list, of "\<lambda>_. 1"] by auto
qed

end
