(* ===== verification/DrvModel.thy ===== *)
theory DrvModel
  imports Simulation
begin

text \<open>
  The device model of \<open>driver/common/drv_model.c\<close> and the start-up table of \<open>driver/common/dd.c\<close>: the
  tables of the devices and of the simple devices, which drivers enter by name, and through which
  clients open, close, read, write and control a device.

  A table is the list of its entries; its length is \<open>allocated_size_dev\<close>, and a table that is not
  allocated is empty.  A name or an operation pointer is an option, \<open>None\<close> for \<open>NULL\<close>; a name is the
  string without its terminator.  The functions of a driver are functions on a state \<open>'w\<close> of the
  drivers, which the tables do not read; user buffers and parameters are passed to them as numbers.
  The result \<open>None\<close> is a read through a null pointer, an access outside the table, or an assertion
  that stops the processor; \<open>mal\<close> says whether the allocations succeed.
\<close>

subsection \<open>Tables\<close>

definition DRV_FAILURE :: u32 where "DRV_FAILURE = - 5"
definition DRV_SUCCESS :: u32 where "DRV_SUCCESS = 0"
definition DD_HANDLE_MAGIC_WORD :: u32 where "DD_HANDLE_MAGIC_WORD = 0xA5A50000"
definition DD_HANDLE_MAGIC_MASK :: u32 where "DD_HANDLE_MAGIC_MASK = 0xFFFF0000"
definition DD_HANDLE_ID_MASK :: u32 where "DD_HANDLE_ID_MASK = 0x0000FFFF"
definition DD_HANDLE_UNVALID :: u32 where "DD_HANDLE_UNVALID = - 1"
definition DD_ID_UNVALID :: u32 where "DD_ID_UNVALID = - 1"
definition DD_INITIAL_SIZE :: nat where "DD_INITIAL_SIZE = 10"
definition DD_EXP_STEP_SIZE :: nat where "DD_EXP_STEP_SIZE = 5"
definition DD_MAX_NAME_LEN :: nat where "DD_MAX_NAME_LEN = 16"

datatype DD_STATE = DD_STATE_NODEVICE | DD_STATE_CLOSED | DD_STATE_OPENED | DD_STATE_BREAK | DD_STATE_SUCCESS

record 'w DD_OPERATIONS =
  op_open :: "(u32 \<Rightarrow> 'w \<Rightarrow> u32 \<times> 'w) option"
  op_close :: "('w \<Rightarrow> u32 \<times> 'w) option"
  op_read :: "(u32 \<Rightarrow> u32 \<Rightarrow> u32 \<Rightarrow> 'w \<Rightarrow> u32 \<times> 'w) option"
  op_write :: "(u32 \<Rightarrow> u32 \<Rightarrow> u32 \<Rightarrow> 'w \<Rightarrow> u32 \<times> 'w) option"
  op_control :: "(u32 \<Rightarrow> u32 \<Rightarrow> 'w \<Rightarrow> u32 \<times> 'w) option"

record 'w SDD_OPERATIONS =
  sop_control :: "(u32 \<Rightarrow> u32 \<Rightarrow> 'w \<Rightarrow> u32 \<times> 'w) option"

text \<open>\<open>DRV_DEV_S\<close> and \<open>DRV_SDEV_S\<close> differ in the type of their operations only; their fields \<open>method\<close>
  and \<open>private\<close> are not used.\<close>

record 'op DRV_ENTRY =
  ent_name :: "string option"
  use_cnt :: u32
  ent_state :: DD_STATE
  ent_op :: "'op option"

definition zero_entry :: "'op DRV_ENTRY" where
  "zero_entry = \<lparr>ent_name = None, use_cnt = 0, ent_state = DD_STATE_NODEVICE, ent_op = None\<rparr>"

record 'w drv_model =
  drv_sdev_tbl :: "'w SDD_OPERATIONS DRV_ENTRY list"
  drv_dev_tbl :: "'w DD_OPERATIONS DRV_ENTRY list"
  drv_world :: 'w

definition drv_model_init :: "bool \<Rightarrow> 'w drv_model \<Rightarrow> (u32 \<times> 'w drv_model) option" where
  "drv_model_init mal s =
     (if mal then Some (DRV_SUCCESS, s\<lparr>drv_sdev_tbl := replicate DD_INITIAL_SIZE zero_entry,
                                       drv_dev_tbl := replicate DD_INITIAL_SIZE zero_entry\<rparr>)
      else None)"

definition drv_model_uninit :: "'w drv_model \<Rightarrow> u32 \<times> 'w drv_model" where
  "drv_model_uninit s = (DRV_SUCCESS, s\<lparr>drv_sdev_tbl := [], drv_dev_tbl := []\<rparr>)"

subsection \<open>Handles\<close>

definition ddev_check_handle :: "'w drv_model \<Rightarrow> u32 \<Rightarrow> u32" where
  "ddev_check_handle s handle =
     (if handle AND DD_HANDLE_MAGIC_MASK = DD_HANDLE_MAGIC_WORD \<and>
         unat (handle AND DD_HANDLE_ID_MASK) < length (drv_dev_tbl s)
      then DRV_SUCCESS else DRV_FAILURE)"

definition ddev_make_handle :: "'w drv_model \<Rightarrow> nat \<Rightarrow> u32" where
  "ddev_make_handle s i = (if length (drv_dev_tbl s) \<le> i then DD_HANDLE_UNVALID else of_nat i + DD_HANDLE_MAGIC_WORD)"

definition ddev_get_id_from_handle :: "u32 \<Rightarrow> u32" where
  "ddev_get_id_from_handle handle =
     (if handle AND DD_HANDLE_MAGIC_MASK \<noteq> DD_HANDLE_MAGIC_WORD then DD_ID_UNVALID
      else handle AND DD_HANDLE_ID_MASK)"

subsection \<open>Looking a name up\<close>

text \<open>Whether \<open>strncmp\<close> of an entry's name and \<open>nm\<close> over the length of \<open>nm\<close> is 0.\<close>

definition name_eq :: "string option \<Rightarrow> string \<Rightarrow> bool option" where
  "name_eq a nm = map_option (\<lambda>x. take (length nm) x = nm) a"

text \<open>The index of the first entry whose name compares equal; the table's length if there is none.\<close>

fun find_name :: "string \<Rightarrow> 'op DRV_ENTRY list \<Rightarrow> nat option" where
  "find_name nm [] = Some 0"
| "find_name nm (e # es) =
     do { hit \<leftarrow> name_eq (ent_name e) nm; if hit then Some 0 else map_option Suc (find_name nm es) }"

fun free_index :: "'op DRV_ENTRY list \<Rightarrow> nat" where
  "free_index [] = 0"
| "free_index (e # es) =
     (if ent_name e = None \<and> ent_state e = DD_STATE_NODEVICE then 0 else Suc (free_index es))"

subsection \<open>Opening and closing\<close>

text \<open>The result is the handle and what is written to \<open>*status\<close>; \<open>has_status\<close> says whether the
  pointer is not null.  The length of the name is taken before the test for a null name.\<close>

definition ddev_open :: "string option \<Rightarrow> bool \<Rightarrow> u32 \<Rightarrow> 'w drv_model \<Rightarrow> ((u32 \<times> u32 option) \<times> 'w drv_model) option" where
  "ddev_open dev_name has_status op_flag s =
     do {
       nm \<leftarrow> dev_name;
       if \<not> has_status \<or> DD_MAX_NAME_LEN < length nm then Some ((DD_HANDLE_UNVALID, None), s)
       else do {
         i \<leftarrow> find_name nm (drv_dev_tbl s);
         if length (drv_dev_tbl s) \<le> i then None
         else (let e = drv_dev_tbl s ! i; handle = ddev_make_handle s i in
           if ent_state e = DD_STATE_OPENED
           then Some ((handle, Some DRV_FAILURE),
                  s\<lparr>drv_dev_tbl := (drv_dev_tbl s)[i := e\<lparr>use_cnt := use_cnt e + 1\<rparr>]\<rparr>)
           else if ent_state e = DD_STATE_CLOSED
           then (let (status, w) = (case ent_op e of
                        None \<Rightarrow> (DRV_FAILURE, drv_world s)
                      | Some operation \<Rightarrow>
                          (case op_open operation of None \<Rightarrow> (DRV_FAILURE, drv_world s)
                           | Some f \<Rightarrow> f op_flag (drv_world s)))
                 in Some ((handle, Some status),
                      s\<lparr>drv_dev_tbl := (drv_dev_tbl s)[i := e\<lparr>ent_state := DD_STATE_OPENED, use_cnt := 0 + 1\<rparr>],
                        drv_world := w\<rparr>))
           else None) } }"

definition ddev_close :: "u32 \<Rightarrow> 'w drv_model \<Rightarrow> (u32 \<times> 'w drv_model) option" where
  "ddev_close handle s =
     (let i = ddev_get_id_from_handle handle in
      if i = DD_ID_UNVALID then Some (DRV_FAILURE, s)
      else if length (drv_dev_tbl s) \<le> unat i then None
      else
        (let e = drv_dev_tbl s ! unat i; c = use_cnt e - 1 in
         if c = 0
         then (let w = (case ent_op e of None \<Rightarrow> drv_world s
                       | Some operation \<Rightarrow> (case op_close operation of None \<Rightarrow> drv_world s
                                            | Some f \<Rightarrow> snd (f (drv_world s))))
               in Some (DRV_SUCCESS,
                    s\<lparr>drv_dev_tbl := (drv_dev_tbl s)[unat i := e\<lparr>use_cnt := c, ent_state := DD_STATE_CLOSED\<rparr>],
                      drv_world := w\<rparr>))
         else Some (DRV_SUCCESS, s\<lparr>drv_dev_tbl := (drv_dev_tbl s)[unat i := e\<lparr>use_cnt := c\<rparr>]\<rparr>)))"

text \<open>The entry behind a handle, and its operation on the state of the drivers.\<close>

definition ddev_op :: "('w DD_OPERATIONS \<Rightarrow> ('w \<Rightarrow> u32 \<times> 'w) option) \<Rightarrow> u32 \<Rightarrow> 'w drv_model \<Rightarrow> (u32 \<times> 'w drv_model) option" where
  "ddev_op sel handle s =
     (let i = ddev_get_id_from_handle handle in
      if i = DD_ID_UNVALID then Some (DRV_FAILURE, s)
      else if length (drv_dev_tbl s) \<le> unat i then None
      else
        (case ent_op (drv_dev_tbl s ! unat i) of
           None \<Rightarrow> Some (DRV_FAILURE, s)
         | Some operation \<Rightarrow>
             (case sel operation of
                None \<Rightarrow> Some (DRV_FAILURE, s)
              | Some f \<Rightarrow> (let (status, w) = f (drv_world s) in Some (status, s\<lparr>drv_world := w\<rparr>)))))"

definition ddev_read :: "u32 \<Rightarrow> u32 \<Rightarrow> u32 \<Rightarrow> u32 \<Rightarrow> 'w drv_model \<Rightarrow> (u32 \<times> 'w drv_model) option" where
  "ddev_read handle user_buf count op_flag =
     ddev_op (\<lambda>operation. map_option (\<lambda>f. f user_buf count op_flag) (op_read operation)) handle"

definition ddev_write :: "u32 \<Rightarrow> u32 \<Rightarrow> u32 \<Rightarrow> u32 \<Rightarrow> 'w drv_model \<Rightarrow> (u32 \<times> 'w drv_model) option" where
  "ddev_write handle user_buf count op_flag =
     ddev_op (\<lambda>operation. map_option (\<lambda>f. f user_buf count op_flag) (op_write operation)) handle"

definition ddev_control :: "u32 \<Rightarrow> u32 \<Rightarrow> u32 \<Rightarrow> 'w drv_model \<Rightarrow> (u32 \<times> 'w drv_model) option" where
  "ddev_control handle cmd param =
     ddev_op (\<lambda>operation. map_option (\<lambda>f. f cmd param) (op_control operation)) handle"

definition sddev_control :: "string option \<Rightarrow> u32 \<Rightarrow> u32 \<Rightarrow> 'w drv_model \<Rightarrow> (u32 \<times> 'w drv_model) option" where
  "sddev_control dev_name cmd param s =
     do {
       nm \<leftarrow> dev_name;
       i \<leftarrow> find_name nm (drv_sdev_tbl s);
       if length (drv_sdev_tbl s) \<le> i then None
       else do {
         operation \<leftarrow> ent_op (drv_sdev_tbl s ! i);
         (case sop_control operation of
            None \<Rightarrow> Some (DRV_FAILURE, s)
          | Some f \<Rightarrow> (let (status, w) = f cmd param (drv_world s) in Some (status, s\<lparr>drv_world := w\<rparr>))) } }"

subsection \<open>Entering and removing drivers\<close>

text \<open>The common body of \<open>ddev_register_dev\<close> and \<open>sddev_register_dev\<close> on their tables.  The last entry
  the loop looked at must have operations; after the last place is taken the table grows.\<close>

definition register_in :: "bool \<Rightarrow> string \<Rightarrow> 'op \<Rightarrow> 'op DRV_ENTRY list \<Rightarrow> 'op DRV_ENTRY list option" where
  "register_in mal nm optr t =
     (let i = free_index t;
          t1 = (if i < length t
                then t[i := (t ! i)\<lparr>ent_name := Some nm, ent_op := Some optr, ent_state := DD_STATE_CLOSED\<rparr>] else t) in
      if t = [] \<or> ent_op (t1 ! (if i < length t then i else length t - 1)) = None then None
      else if i = length t - 1
      then (if mal then Some (t1 @ replicate DD_EXP_STEP_SIZE zero_entry) else None)
      else Some t1)"

definition ddev_register_dev :: "bool \<Rightarrow> string option \<Rightarrow> 'w DD_OPERATIONS option \<Rightarrow> 'w drv_model \<Rightarrow> (u32 \<times> 'w drv_model) option" where
  "ddev_register_dev mal dev_name optr s =
     (case (dev_name, optr) of
        (Some nm, Some ops) \<Rightarrow>
          map_option (\<lambda>t. (DRV_SUCCESS, s\<lparr>drv_dev_tbl := t\<rparr>)) (register_in mal nm ops (drv_dev_tbl s))
      | _ \<Rightarrow> Some (DRV_FAILURE, s))"

definition sddev_register_dev :: "bool \<Rightarrow> string option \<Rightarrow> 'w SDD_OPERATIONS option \<Rightarrow> 'w drv_model \<Rightarrow> (u32 \<times> 'w drv_model) option" where
  "sddev_register_dev mal dev_name optr s =
     (case (dev_name, optr) of
        (Some nm, Some ops) \<Rightarrow>
          map_option (\<lambda>t. (DRV_SUCCESS, s\<lparr>drv_sdev_tbl := t\<rparr>)) (register_in mal nm ops (drv_sdev_tbl s))
      | _ \<Rightarrow> Some (DRV_FAILURE, s))"

text \<open>The body of the two removals: the loop runs to \<open>bound\<close>, which for both is the size of the table
  of the devices; it ends with the assertion that it found the name.\<close>

definition unregister_in :: "nat \<Rightarrow> string \<Rightarrow> 'op DRV_ENTRY list \<Rightarrow> 'op DRV_ENTRY list option" where
  "unregister_in bound nm t =
     do {
       i \<leftarrow> find_name nm (take bound t);
       if min bound (length t) \<le> i
       then (if bound = 0 then Some t else None)
       else Some (t[i := (t ! i)\<lparr>ent_name := None, ent_op := None, ent_state := DD_STATE_NODEVICE\<rparr>]) }"

definition ddev_unregister_dev :: "string option \<Rightarrow> 'w drv_model \<Rightarrow> (u32 \<times> 'w drv_model) option" where
  "ddev_unregister_dev dev_name s =
     (case dev_name of None \<Rightarrow> Some (DRV_FAILURE, s)
      | Some nm \<Rightarrow>
          if DD_MAX_NAME_LEN < length nm then Some (DRV_FAILURE, s)
          else map_option (\<lambda>t. (DRV_SUCCESS, s\<lparr>drv_dev_tbl := t\<rparr>)) (unregister_in (length (drv_dev_tbl s)) nm (drv_dev_tbl s)))"

definition sddev_unregister_dev :: "string option \<Rightarrow> 'w drv_model \<Rightarrow> (u32 \<times> 'w drv_model) option" where
  "sddev_unregister_dev dev_name s =
     (case dev_name of None \<Rightarrow> Some (DRV_FAILURE, s)
      | Some nm \<Rightarrow>
          if DD_MAX_NAME_LEN < length nm then Some (DRV_FAILURE, s)
          else map_option (\<lambda>t. (DRV_SUCCESS, s\<lparr>drv_sdev_tbl := t\<rparr>)) (unregister_in (length (drv_dev_tbl s)) nm (drv_sdev_tbl s)))"

subsection \<open>The start-up table\<close>

record 's DD_INIT_S =
  dd_name :: "string option"
  dd_init :: "('s \<Rightarrow> 's option) option"
  dd_exit :: "('s \<Rightarrow> 's option) option"

fun g_dd_init :: "'s DD_INIT_S list \<Rightarrow> 's \<Rightarrow> 's option" where
  "g_dd_init [] s = Some s"
| "g_dd_init (e # es) s =
     (case (dd_name e, dd_init e) of
        (Some _, Some f) \<Rightarrow> do { s1 \<leftarrow> f s; g_dd_init es s1 }
      | _ \<Rightarrow> Some s)"

fun g_dd_exit :: "'s DD_INIT_S list \<Rightarrow> 's \<Rightarrow> 's option" where
  "g_dd_exit [] s = Some s"
| "g_dd_exit (e # es) s =
     (case (dd_name e, dd_exit e) of
        (Some _, Some f) \<Rightarrow> do { s1 \<leftarrow> f s; g_dd_exit es s1 }
      | _ \<Rightarrow> Some s)"


text \<open>The drivers of the first two rows of the table, whose exit functions only remove themselves; their
  \<open>init\<close> functions program the system controller and are arguments.\<close>

definition SCTRL_DEV_NAME :: string where "SCTRL_DEV_NAME = ''sys_ctrl''"
definition ICU_DEV_NAME :: string where "ICU_DEV_NAME = ''icu''"

definition sctrl_exit :: "'w drv_model \<Rightarrow> 'w drv_model option" where
  "sctrl_exit s = map_option snd (sddev_unregister_dev (Some SCTRL_DEV_NAME) s)"

definition icu_exit :: "'w drv_model \<Rightarrow> 'w drv_model option" where
  "icu_exit s = map_option snd (sddev_unregister_dev (Some ICU_DEV_NAME) s)"

definition dd_init_tbl ::
  "('w drv_model \<Rightarrow> 'w drv_model option) \<Rightarrow> ('w drv_model \<Rightarrow> 'w drv_model option) \<Rightarrow> 'w drv_model DD_INIT_S list \<Rightarrow> 'w drv_model DD_INIT_S list" where
  "dd_init_tbl sctrl_init icu_init others =
     \<lparr>dd_name = Some SCTRL_DEV_NAME, dd_init = Some sctrl_init, dd_exit = Some sctrl_exit\<rparr> #
     \<lparr>dd_name = Some ICU_DEV_NAME, dd_init = Some icu_init, dd_exit = Some icu_exit\<rparr> # others"

subsection \<open>Handles are indices\<close>

lemma handle_id:
  assumes "i < 65536"
  shows "ddev_get_id_from_handle (of_nat i + DD_HANDLE_MAGIC_WORD) = of_nat i"
proof -
  have b: "bit (0xFFFF :: u32) n \<longleftrightarrow> n < 16" "bit (0xFFFF0000 :: u32) n \<longleftrightarrow> 16 \<le> n \<and> n < 32"
    "bit (0xA5A50000 :: u32) n \<Longrightarrow> 16 \<le> n" for n
  proof -
    have "(0xFFFF :: u32) = mask 16" "(0xFFFF0000 :: u32) = push_bit 16 (mask 16)" "(0xA5A50000 :: u32) = push_bit 16 0xA5A5"
      by (simp_all add: mask_eq_exp_minus_1 push_bit_eq_mult)
    then show "bit (0xFFFF :: u32) n \<longleftrightarrow> n < 16" "bit (0xFFFF0000 :: u32) n \<longleftrightarrow> 16 \<le> n \<and> n < 32"
      "bit (0xA5A50000 :: u32) n \<Longrightarrow> 16 \<le> n"
      by (auto simp only: bit_mask_iff bit_push_bit_iff possible_bit_word) auto
  qed
  have "take_bit 16 i = i" using assms by (simp add: take_bit_nat_eq_self)
  then have "of_nat i = take_bit 16 (of_nat i :: u32)" by (metis of_nat_take_bit)
  then have low: "n < 16" if "bit (of_nat i :: u32) n" for n using that by (metis bit_take_bit_iff)
  have h: "of_nat i + 0xA5A50000 = of_nat i OR (0xA5A50000 :: u32)"
    by (rule disjunctive_add) (use low b(3) in \<open>auto simp: not_less [symmetric]\<close>)
  have "(of_nat i OR 0xA5A50000) AND 0xFFFF0000 = (0xA5A50000 :: u32)"
    by (rule bit_word_eqI) (use low b in \<open>auto simp: bit_or_iff bit_and_iff not_less [symmetric]\<close>)
  moreover have "(of_nat i OR 0xA5A50000) AND 0xFFFF = (of_nat i :: u32)"
    by (rule bit_word_eqI) (use low b in \<open>auto simp: bit_or_iff bit_and_iff not_less [symmetric]\<close>)
  ultimately show ?thesis
    unfolding ddev_get_id_from_handle_def DD_HANDLE_MAGIC_MASK_def DD_HANDLE_MAGIC_WORD_def DD_HANDLE_ID_MASK_def h by simp
qed

subsection \<open>The registry\<close>

text \<open>What the table of a kind of driver stands for: the registered names in the order of their
  entries, the operations, and how often each is open.\<close>

type_synonym 'op registry = "(string \<times> 'op \<times> nat) list"

definition slot_ok :: "string \<times> 'op \<times> nat \<Rightarrow> 'op DRV_ENTRY \<Rightarrow> bool" where
  "slot_ok r e \<longleftrightarrow> (case r of (nm, ops, c) \<Rightarrow>
     ent_name e = Some nm \<and> ent_op e = Some ops \<and> ent_state e = (if c = 0 then DD_STATE_CLOSED else DD_STATE_OPENED) \<and>
     (c \<noteq> 0 \<longrightarrow> use_cnt e = of_nat c) \<and> c < 2 ^ 32)"

definition slot_free :: "'op DRV_ENTRY \<Rightarrow> bool" where
  "slot_free e \<longleftrightarrow> ent_name e = None \<and> ent_op e = None \<and> ent_state e = DD_STATE_NODEVICE"

definition tbl_rep :: "'op DRV_ENTRY list \<Rightarrow> 'op registry \<Rightarrow> bool" where
  "tbl_rep t R \<longleftrightarrow> (\<exists>es fs. t = es @ fs \<and> list_all2 slot_ok R es \<and> fs \<noteq> [] \<and> (\<forall>f \<in> set fs. slot_free f))"

definition lookup :: "string \<Rightarrow> 'op registry \<Rightarrow> nat" where
  "lookup nm R = length (takeWhile (\<lambda>e. fst e \<noteq> nm) R)"

definition clear_name :: "string \<Rightarrow> 'op registry \<Rightarrow> bool" where
  "clear_name nm R \<longleftrightarrow> nm \<in> fst ` set R \<and>
     list_all (\<lambda>e. take (length nm) (fst e) \<noteq> nm) (takeWhile (\<lambda>e. fst e \<noteq> nm) R)"

lemma lookup_less: "nm \<in> fst ` set R \<Longrightarrow> lookup nm R < length R"
  by (induction R) (auto simp: lookup_def)

lemma lookup_nth: "nm \<in> fst ` set R \<Longrightarrow> fst (R ! lookup nm R) = nm"
  by (induction R) (auto simp: lookup_def)

lemma zero_free [simp]: "slot_free zero_entry"
  by (simp add: slot_free_def zero_entry_def)

lemma find_slots:
  "list_all2 slot_ok R es \<Longrightarrow> clear_name nm R \<Longrightarrow> find_name nm (es @ fs) = Some (lookup nm R)"
proof (induction R arbitrary: es)
  case Nil
  then show ?case by (simp add: clear_name_def)
next
  case (Cons r R)
  obtain e es' where es: "es = e # es'" "slot_ok r e" "list_all2 slot_ok R es'" using Cons.prems(1) by (auto simp: list_all2_Cons1)
  then have nm: "ent_name e = Some (fst r)" by (auto simp: slot_ok_def split: prod.splits)
  show ?case
  proof (cases "fst r = nm")
    case True
    then show ?thesis using es(1) nm by (simp add: name_eq_def lookup_def)
  next
    case False
    then have c: "clear_name nm R" "take (length nm) (fst r) \<noteq> nm" using Cons.prems(2) by (auto simp: clear_name_def)
    then show ?thesis using Cons.IH [OF es(3) c(1)] False es(1) nm by (simp add: name_eq_def lookup_def)
  qed
qed

lemma tbl_find: "tbl_rep t R \<Longrightarrow> clear_name nm R \<Longrightarrow> find_name nm t = Some (lookup nm R)"
  by (auto simp: tbl_rep_def find_slots)

lemma tbl_slot: "tbl_rep t R \<Longrightarrow> i < length R \<Longrightarrow> i < length t \<and> slot_ok (R ! i) (t ! i)"
  by (auto simp: tbl_rep_def nth_append list_all2_conv_all_nth)

lemma tbl_update: "tbl_rep t R \<Longrightarrow> i < length R \<Longrightarrow> slot_ok r e \<Longrightarrow> tbl_rep (t[i := e]) (R[i := r])"
  by (fastforce simp: tbl_rep_def list_update_append list_all2_lengthD intro: list_all2_update_cong)

lemma free_index_slots:
  "list_all2 slot_ok R es \<Longrightarrow> fs \<noteq> [] \<Longrightarrow> slot_free (hd fs) \<Longrightarrow> free_index (es @ fs) = length R"
proof (induction R arbitrary: es)
  case Nil
  then show ?case by (cases fs) (auto simp: slot_free_def)
next
  case (Cons r R)
  obtain e es' where "es = e # es'" "slot_ok r e" "list_all2 slot_ok R es'" using Cons.prems(1) by (auto simp: list_all2_Cons1)
  moreover have "ent_name e \<noteq> None" using \<open>slot_ok r e\<close> by (simp add: slot_ok_def split: prod.splits)
  ultimately show ?case using Cons.IH [of es'] Cons.prems(2,3) by simp
qed

lemma tbl_register:
  assumes "tbl_rep t R"
  shows "\<exists>t'. register_in True nm ops t = Some t' \<and> tbl_rep t' (R @ [(nm, ops, 0)])"
proof -
  obtain es f fs where t: "t = es @ f # fs" "list_all2 slot_ok R es" "slot_free f" "\<forall>f \<in> set fs. slot_free f"
    using assms unfolding tbl_rep_def by (metis list.exhaust list.set_intros)
  have l: "length es = length R" using t(2) by (simp add: list_all2_lengthD)
  have i: "free_index t = length R" using free_index_slots [OF t(2), of "f # fs"] t(1,3) by simp
  let ?e = "f\<lparr>ent_name := Some nm, ent_op := Some ops, ent_state := DD_STATE_CLOSED\<rparr>"
  have t1: "t[length R := (t ! length R)\<lparr>ent_name := Some nm, ent_op := Some ops, ent_state := DD_STATE_CLOSED\<rparr>] = (es @ [?e]) @ fs"
    using t(1) l by (simp add: nth_append list_update_append)
  have so: "list_all2 slot_ok (R @ [(nm, ops, 0)]) (es @ [?e])"
    using t(2) l by (intro list_all2_appendI) (simp_all add: slot_ok_def)
  have nth: "((es @ [?e]) @ fs) ! length R = ?e" using l by (simp add: nth_append)
  show ?thesis
  proof (cases "fs = []")
    case True
    have "register_in True nm ops t = Some ((es @ [?e]) @ replicate DD_EXP_STEP_SIZE zero_entry)"
      unfolding register_in_def i Let_def t1 using t(1) l nth True by simp
    moreover have "tbl_rep ((es @ [?e]) @ replicate DD_EXP_STEP_SIZE zero_entry) (R @ [(nm, ops, 0)])"
      unfolding tbl_rep_def using so by (intro exI conjI) (auto simp: DD_EXP_STEP_SIZE_def)
    ultimately show ?thesis by blast
  next
    case False
    have "register_in True nm ops t = Some ((es @ [?e]) @ fs)"
      unfolding register_in_def i Let_def t1 using t(1) l nth False by auto
    moreover have "tbl_rep ((es @ [?e]) @ fs) (R @ [(nm, ops, 0)])"
      unfolding tbl_rep_def using so False t(4) by blast
    ultimately show ?thesis by blast
  qed
qed

lemma tbl_unregister_last:
  assumes "tbl_rep t (R @ [r])" "clear_name (fst r) (R @ [r])" "fst r \<notin> fst ` set R"
  shows "\<exists>t'. unregister_in (length t) (fst r) t = Some t' \<and> tbl_rep t' R"
proof -
  obtain es f fs where t: "t = (es @ [f]) @ fs" "list_all2 slot_ok R es" "slot_ok r f" "fs \<noteq> []" "\<forall>f \<in> set fs. slot_free f"
    using assms(1) unfolding tbl_rep_def by (auto simp: list_all2_append1 list_all2_Cons1)
  have l: "length es = length R" using t(2) by (simp add: list_all2_lengthD)
  have "takeWhile (\<lambda>e. fst e \<noteq> fst r) (R @ [r]) = R" using assms(3) by (subst takeWhile_append2) (auto simp: image_iff)
  then have "lookup (fst r) (R @ [r]) = length R" by (simp add: lookup_def)
  then have i: "find_name (fst r) t = Some (length R)" using tbl_find [OF assms(1,2)] by simp
  let ?f = "f\<lparr>ent_name := None, ent_op := None, ent_state := DD_STATE_NODEVICE\<rparr>"
  have "t[length R := (t ! length R)\<lparr>ent_name := None, ent_op := None, ent_state := DD_STATE_NODEVICE\<rparr>] = es @ ?f # fs"
    using t(1) l by (simp add: nth_append list_update_append)
  then have "unregister_in (length t) (fst r) t = Some (es @ ?f # fs)"
    using i t(1) l unfolding unregister_in_def by simp
  moreover have "tbl_rep (es @ ?f # fs) R"
    unfolding tbl_rep_def using t(2,5) by (intro exI [of _ es] exI [of _ "?f # fs"]) (simp add: slot_free_def)
  ultimately show ?thesis by blast
qed


subsection \<open>Sequences of calls\<close>

datatype 'w drv_op = RegDev string "'w DD_OPERATIONS" | RegSdev string "'w SDD_OPERATIONS" | UnregDev string
  | OpenDev string u32 | CloseDev u32 | ReadDev u32 u32 u32 u32 | WriteDev u32 u32 u32 u32 | CtlDev u32 u32 u32
  | CtlSdev string u32 u32

datatype drv_out = Ret u32 | Opened u32 u32

fun drv_step :: "'w drv_op \<Rightarrow> 'w drv_model \<Rightarrow> (drv_out \<times> 'w drv_model) option" where
  "drv_step (RegDev nm ops) s = map_option (map_prod Ret id) (ddev_register_dev True (Some nm) (Some ops) s)"
| "drv_step (RegSdev nm ops) s = map_option (map_prod Ret id) (sddev_register_dev True (Some nm) (Some ops) s)"
| "drv_step (UnregDev nm) s = map_option (map_prod Ret id) (ddev_unregister_dev (Some nm) s)"
| "drv_step (OpenDev nm flag) s = map_option (map_prod (\<lambda>(h, st). Opened h (the st)) id) (ddev_open (Some nm) True flag s)"
| "drv_step (CloseDev h) s = map_option (map_prod Ret id) (ddev_close h s)"
| "drv_step (ReadDev h buf n flag) s = map_option (map_prod Ret id) (ddev_read h buf n flag s)"
| "drv_step (WriteDev h buf n flag) s = map_option (map_prod Ret id) (ddev_write h buf n flag s)"
| "drv_step (CtlDev h cmd param) s = map_option (map_prod Ret id) (ddev_control h cmd param s)"
| "drv_step (CtlSdev nm cmd param) s = map_option (map_prod Ret id) (sddev_control (Some nm) cmd param s)"

text \<open>The same calls on the registries: a handle is the index of the name, a driver's \<open>open\<close> runs at
  the first of nested opens and its \<open>close\<close> at the last of the closes.\<close>

record 'w drv_abs =
  devs :: "'w DD_OPERATIONS registry"
  sdevs :: "'w SDD_OPERATIONS registry"
  abs_world :: 'w

definition handle_of :: "nat \<Rightarrow> u32" where "handle_of i = of_nat i + DD_HANDLE_MAGIC_WORD"
definition index_of :: "u32 \<Rightarrow> nat" where "index_of h = unat (h - DD_HANDLE_MAGIC_WORD)"

definition call :: "('w \<Rightarrow> u32 \<times> 'w) option \<Rightarrow> 'w \<Rightarrow> u32 \<times> 'w" where
  "call f w = (case f of None \<Rightarrow> (DRV_FAILURE, w) | Some g \<Rightarrow> g w)"

fun abs_step :: "'w drv_op \<Rightarrow> 'w drv_abs \<Rightarrow> drv_out \<times> 'w drv_abs" where
  "abs_step (RegDev nm ops) a = (Ret DRV_SUCCESS, a\<lparr>devs := devs a @ [(nm, ops, 0)]\<rparr>)"
| "abs_step (RegSdev nm ops) a = (Ret DRV_SUCCESS, a\<lparr>sdevs := sdevs a @ [(nm, ops, 0)]\<rparr>)"
| "abs_step (UnregDev nm) a = (Ret DRV_SUCCESS, a\<lparr>devs := butlast (devs a)\<rparr>)"
| "abs_step (OpenDev nm flag) a =
     (let i = lookup nm (devs a); (n, ops, c) = devs a ! i;
          (st, w) = (if c = 0 then call (map_option (\<lambda>f. f flag) (op_open ops)) (abs_world a) else (DRV_FAILURE, abs_world a))
      in (Opened (handle_of i) st, a\<lparr>devs := (devs a)[i := (n, ops, c + 1)], abs_world := w\<rparr>))"
| "abs_step (CloseDev h) a =
     (let i = index_of h; (n, ops, c) = devs a ! i;
          w = (if c = 1 then snd (call (op_close ops) (abs_world a)) else abs_world a)
      in (Ret DRV_SUCCESS, a\<lparr>devs := (devs a)[i := (n, ops, c - 1)], abs_world := w\<rparr>))"
| "abs_step (ReadDev h buf n flag) a =
     (let (st, w) = call (map_option (\<lambda>f. f buf n flag) (op_read (fst (snd (devs a ! index_of h))))) (abs_world a)
      in (Ret st, a\<lparr>abs_world := w\<rparr>))"
| "abs_step (WriteDev h buf n flag) a =
     (let (st, w) = call (map_option (\<lambda>f. f buf n flag) (op_write (fst (snd (devs a ! index_of h))))) (abs_world a)
      in (Ret st, a\<lparr>abs_world := w\<rparr>))"
| "abs_step (CtlDev h cmd param) a =
     (let (st, w) = call (map_option (\<lambda>f. f cmd param) (op_control (fst (snd (devs a ! index_of h))))) (abs_world a)
      in (Ret st, a\<lparr>abs_world := w\<rparr>))"
| "abs_step (CtlSdev nm cmd param) a =
     (let (st, w) = call (map_option (\<lambda>f. f cmd param) (sop_control (fst (snd (sdevs a ! lookup nm (sdevs a)))))) (abs_world a)
      in (Ret st, a\<lparr>abs_world := w\<rparr>))"

text \<open>What a caller must keep to: only the driver entered last is removed, a name is looked up only if
  no driver entered before begins with it, and a handle is that of an entered device.\<close>

definition handle_ok :: "u32 \<Rightarrow> 'op registry \<Rightarrow> bool" where
  "handle_ok h R \<longleftrightarrow> index_of h < length R"

fun drv_op_ok :: "'w drv_op \<Rightarrow> 'w drv_abs \<Rightarrow> bool" where
  "drv_op_ok (RegDev nm ops) a \<longleftrightarrow> length (devs a) < 65535"
| "drv_op_ok (RegSdev nm ops) a \<longleftrightarrow> True"
| "drv_op_ok (UnregDev nm) a \<longleftrightarrow> devs a \<noteq> [] \<and> fst (last (devs a)) = nm \<and> nm \<notin> fst ` set (butlast (devs a)) \<and>
     clear_name nm (devs a) \<and> length nm \<le> 16"
| "drv_op_ok (OpenDev nm flag) a \<longleftrightarrow> clear_name nm (devs a) \<and> length nm \<le> 16 \<and> snd (snd (devs a ! lookup nm (devs a))) + 1 < 2 ^ 32"
| "drv_op_ok (CloseDev h) a \<longleftrightarrow> handle_ok h (devs a) \<and> 0 < snd (snd (devs a ! index_of h))"
| "drv_op_ok (ReadDev h buf n flag) a \<longleftrightarrow> handle_ok h (devs a)"
| "drv_op_ok (WriteDev h buf n flag) a \<longleftrightarrow> handle_ok h (devs a)"
| "drv_op_ok (CtlDev h cmd param) a \<longleftrightarrow> handle_ok h (devs a)"
| "drv_op_ok (CtlSdev nm cmd param) a \<longleftrightarrow> clear_name nm (sdevs a)"

definition drv_rep :: "'w drv_model \<Rightarrow> 'w drv_abs \<Rightarrow> bool" where
  "drv_rep s a \<longleftrightarrow> tbl_rep (drv_dev_tbl s) (devs a) \<and> tbl_rep (drv_sdev_tbl s) (sdevs a) \<and>
     drv_world s = abs_world a \<and> length (devs a) \<le> 65535"

lemma handle_index:
  assumes "handle_ok h R" "length R \<le> 65535"
  shows "ddev_get_id_from_handle h \<noteq> DD_ID_UNVALID" "unat (ddev_get_id_from_handle h) = index_of h"
proof -
  let ?i = "index_of h"
  have i: "?i < 65535" using assms by (simp add: handle_ok_def)
  have h: "h = of_nat ?i + DD_HANDLE_MAGIC_WORD" by (simp add: index_of_def)
  have id: "ddev_get_id_from_handle h = of_nat ?i" by (subst h) (rule handle_id, use i in simp)
  have u: "unat (of_nat ?i :: u32) = ?i" using i by (simp add: unat_of_nat take_bit_nat_eq_self)
  show "unat (ddev_get_id_from_handle h) = ?i" unfolding id by (rule u)
  show "ddev_get_id_from_handle h \<noteq> DD_ID_UNVALID"
  proof
    assume "ddev_get_id_from_handle h = DD_ID_UNVALID"
    then have "unat (- 1 :: u32) = ?i" using u unfolding id DD_ID_UNVALID_def by simp
    then show False using i by (simp add: unsigned_minus_1_eq_mask mask_eq_exp_minus_1)
  qed
qed

lemma ddev_op_rep:
  assumes rep: "drv_rep s a" and h: "handle_ok h (devs a)"
  shows "\<exists>s'. ddev_op sel h s = Some (fst (call (sel (fst (snd (devs a ! index_of h)))) (abs_world a)), s') \<and>
    drv_rep s' (a\<lparr>abs_world := snd (call (sel (fst (snd (devs a ! index_of h)))) (abs_world a))\<rparr>)"
proof -
  have tb: "tbl_rep (drv_dev_tbl s) (devs a)" and w: "drv_world s = abs_world a" and l: "length (devs a) \<le> 65535"
    using rep by (simp_all add: drv_rep_def)
  note ix = handle_index [OF h l]
  have i: "index_of h < length (devs a)" using h by (simp add: handle_ok_def)
  have sl: "index_of h < length (drv_dev_tbl s)" "ent_op (drv_dev_tbl s ! index_of h) = Some (fst (snd (devs a ! index_of h)))"
    using tbl_slot [OF tb i] by (auto simp: slot_ok_def split: prod.splits)
  show ?thesis
    using ix sl rep w
    by (cases "sel (fst (snd (devs a ! index_of h)))")
      (auto simp: ddev_op_def Let_def call_def drv_rep_def split: prod.splits)
qed

lemma ddev_open_rep:
  assumes rep: "drv_rep s a" and ok: "drv_op_ok (OpenDev nm flag) a"
  shows "\<exists>s'. drv_step (OpenDev nm flag) s = Some (fst (abs_step (OpenDev nm flag) a), s') \<and>
    drv_rep s' (snd (abs_step (OpenDev nm flag) a))"
proof -
  let ?i = "lookup nm (devs a)"
  have tb: "tbl_rep (drv_dev_tbl s) (devs a)" and w: "drv_world s = abs_world a" using rep by (simp_all add: drv_rep_def)
  have cl: "clear_name nm (devs a)" "length nm \<le> 16" using ok by simp_all
  have i: "?i < length (devs a)" using cl by (intro lookup_less) (simp add: clear_name_def)
  obtain n ops c where r: "devs a ! ?i = (n, ops, c)" by (metis prod_cases3)
  define e where "e = drv_dev_tbl s ! ?i"
  have c: "c + 1 < 2 ^ 32" using ok r by simp
  have sl: "?i < length (drv_dev_tbl s)" "ent_name e = Some n" "ent_op e = Some ops"
    "ent_state e = (if c = 0 then DD_STATE_CLOSED else DD_STATE_OPENED)" "c \<noteq> 0 \<longrightarrow> use_cnt e = of_nat c"
    using tbl_slot [OF tb i] r by (auto simp: slot_ok_def e_def)
  have f: "find_name nm (drv_dev_tbl s) = Some ?i" by (rule tbl_find [OF tb cl(1)])
  have hd: "ddev_make_handle s ?i = handle_of ?i" using sl(1) by (simp add: ddev_make_handle_def handle_of_def)
  have new: "tbl_rep ((drv_dev_tbl s)[?i := e']) ((devs a)[?i := (n, ops, c + 1)])"
    if "ent_name e' = Some n" "ent_op e' = Some ops" "ent_state e' = DD_STATE_OPENED" "use_cnt e' = of_nat (c + 1)" for e'
    by (rule tbl_update [OF tb i]) (use that c in \<open>simp add: slot_ok_def\<close>)
  show ?thesis
  proof (cases "c = 0")
    case True
    then show ?thesis
      using f sl hd r cl w rep new [of "e\<lparr>ent_state := DD_STATE_OPENED, use_cnt := 1\<rparr>"] e_def
      by (auto simp: ddev_open_def DD_MAX_NAME_LEN_def Let_def drv_rep_def call_def split: option.splits prod.splits)
  next
    case False
    then show ?thesis
      using f sl hd r cl w rep new [of "e\<lparr>use_cnt := use_cnt e + 1\<rparr>"] e_def
      by (auto simp: ddev_open_def DD_MAX_NAME_LEN_def Let_def drv_rep_def add.commute)
  qed
qed

lemma ddev_close_rep:
  assumes rep: "drv_rep s a" and ok: "drv_op_ok (CloseDev h) a"
  shows "\<exists>s'. drv_step (CloseDev h) s = Some (fst (abs_step (CloseDev h) a), s') \<and> drv_rep s' (snd (abs_step (CloseDev h) a))"
proof -
  let ?i = "index_of h"
  have tb: "tbl_rep (drv_dev_tbl s) (devs a)" and w: "drv_world s = abs_world a" and l: "length (devs a) \<le> 65535"
    using rep by (simp_all add: drv_rep_def)
  have h: "handle_ok h (devs a)" using ok by simp
  note ix = handle_index [OF h l]
  have i: "?i < length (devs a)" using h by (simp add: handle_ok_def)
  obtain n ops c where r: "devs a ! ?i = (n, ops, c)" by (metis prod_cases3)
  define e where "e = drv_dev_tbl s ! ?i"
  have sl: "?i < length (drv_dev_tbl s)" "ent_name e = Some n" "ent_op e = Some ops"
    "ent_state e = (if c = 0 then DD_STATE_CLOSED else DD_STATE_OPENED)" "c \<noteq> 0 \<longrightarrow> use_cnt e = of_nat c" "c < 2 ^ 32"
    using tbl_slot [OF tb i] r by (auto simp: slot_ok_def e_def)
  have c: "0 < c" using ok r by simp
  have u: "use_cnt e - 1 = of_nat (c - 1)" using sl(5) c by simp
  have "unat (of_nat (c - 1) :: u32) = c - 1" using sl(6) by (simp add: unat_of_nat take_bit_nat_eq_self)
  then have z: "(of_nat (c - 1) :: u32) = 0 \<longleftrightarrow> c = 1" using c by (simp only: unat_0_iff [symmetric]) arith
  have new: "tbl_rep ((drv_dev_tbl s)[?i := e']) ((devs a)[?i := (n, ops, c - 1)])"
    if "ent_name e' = Some n" "ent_op e' = Some ops" "ent_state e' = (if c = 1 then DD_STATE_CLOSED else DD_STATE_OPENED)"
      "use_cnt e' = of_nat (c - 1)" for e'
    by (rule tbl_update [OF tb i]) (use that c sl(6) in \<open>auto simp: slot_ok_def\<close>)
  show ?thesis
  proof (cases "c = 1")
    case True
    then show ?thesis
      using ix sl r w rep u new [of "e\<lparr>use_cnt := 0, ent_state := DD_STATE_CLOSED\<rparr>"] e_def
      by (auto simp: ddev_close_def Let_def drv_rep_def call_def split: option.splits)
  next
    case False
    then show ?thesis
      using ix sl r w rep u z c new [of "e\<lparr>use_cnt := use_cnt e - 1\<rparr>"] e_def
      by (auto simp: ddev_close_def Let_def drv_rep_def)
  qed
qed


lemma reg_dev_rep:
  assumes "drv_rep s a" "length (devs a) < 65535"
  shows "\<exists>s'. ddev_register_dev True (Some nm) (Some ops) s = Some (DRV_SUCCESS, s') \<and> drv_rep s' (a\<lparr>devs := devs a @ [(nm, ops, 0)]\<rparr>)"
  using tbl_register [of "drv_dev_tbl s" "devs a" nm ops] assms by (auto simp: drv_rep_def ddev_register_dev_def)

lemma reg_sdev_rep:
  assumes "drv_rep s a"
  shows "\<exists>s'. sddev_register_dev True (Some nm) (Some ops) s = Some (DRV_SUCCESS, s') \<and> drv_rep s' (a\<lparr>sdevs := sdevs a @ [(nm, ops, 0)]\<rparr>)"
  using tbl_register [of "drv_sdev_tbl s" "sdevs a" nm ops] assms by (auto simp: drv_rep_def sddev_register_dev_def)

lemma unreg_dev_rep:
  assumes "drv_rep s a" "drv_op_ok (UnregDev nm) a"
  shows "\<exists>s'. ddev_unregister_dev (Some nm) s = Some (DRV_SUCCESS, s') \<and> drv_rep s' (a\<lparr>devs := butlast (devs a)\<rparr>)"
proof -
  have R: "devs a = butlast (devs a) @ [last (devs a)]" and nm: "fst (last (devs a)) = nm" using assms(2) by simp_all
  obtain t' where t': "unregister_in (length (drv_dev_tbl s)) nm (drv_dev_tbl s) = Some t'" "tbl_rep t' (butlast (devs a))"
    using tbl_unregister_last [of "drv_dev_tbl s" "butlast (devs a)" "last (devs a)"] assms R nm by (auto simp: drv_rep_def)
  then show ?thesis using assms by (auto simp: ddev_unregister_dev_def DD_MAX_NAME_LEN_def drv_rep_def)
qed

lemma ctl_sdev_rep:
  assumes rep: "drv_rep s a" and ok: "clear_name nm (sdevs a)"
  shows "\<exists>s'. drv_step (CtlSdev nm cmd param) s = Some (fst (abs_step (CtlSdev nm cmd param) a), s') \<and>
    drv_rep s' (snd (abs_step (CtlSdev nm cmd param) a))"
proof -
  let ?i = "lookup nm (sdevs a)"
  have tb: "tbl_rep (drv_sdev_tbl s) (sdevs a)" and w: "drv_world s = abs_world a" using rep by (simp_all add: drv_rep_def)
  have i: "?i < length (sdevs a)" using ok by (intro lookup_less) (simp add: clear_name_def)
  have sl: "?i < length (drv_sdev_tbl s)" "ent_op (drv_sdev_tbl s ! ?i) = Some (fst (snd (sdevs a ! ?i)))"
    using tbl_slot [OF tb i] by (auto simp: slot_ok_def split: prod.splits)
  show ?thesis
    using sl tbl_find [OF tb ok] rep w
    by (cases "sop_control (fst (snd (sdevs a ! ?i)))") (auto simp: sddev_control_def call_def drv_rep_def split: prod.splits)
qed

interpretation drv: simulation drv_rep drv_step abs_step drv_op_ok
proof
  fix s :: "'w drv_model" and a x
  assume rep: "drv_rep s a" and ok: "drv_op_ok x a"
  show "\<exists>s'. drv_step x s = Some (fst (abs_step x a), s') \<and> drv_rep s' (snd (abs_step x a))"
  proof (cases x)
    case (RegDev nm ops)
    then show ?thesis using reg_dev_rep [OF rep, of nm ops] ok by auto
  next
    case (RegSdev nm ops)
    then show ?thesis using reg_sdev_rep [OF rep, of nm ops] by auto
  next
    case (UnregDev nm)
    then show ?thesis using unreg_dev_rep [OF rep, of nm] ok by auto
  next
    case (OpenDev nm flag)
    then show ?thesis using ddev_open_rep [OF rep, of nm flag] ok by simp
  next
    case (CloseDev h)
    then show ?thesis using ddev_close_rep [OF rep, of h] ok by simp
  next
    case (ReadDev h buf n flag)
    then show ?thesis
      using ddev_op_rep [OF rep, of h "\<lambda>operation. map_option (\<lambda>f. f buf n flag) (op_read operation)"] ok
      by (auto simp: ddev_read_def split_beta)
  next
    case (WriteDev h buf n flag)
    then show ?thesis
      using ddev_op_rep [OF rep, of h "\<lambda>operation. map_option (\<lambda>f. f buf n flag) (op_write operation)"] ok
      by (auto simp: ddev_write_def split_beta)
  next
    case (CtlDev h cmd param)
    then show ?thesis
      using ddev_op_rep [OF rep, of h "\<lambda>operation. map_option (\<lambda>f. f cmd param) (op_control operation)"] ok
      by (auto simp: ddev_control_def split_beta)
  next
    case (CtlSdev nm cmd param)
    then show ?thesis using ctl_sdev_rep [OF rep] ok by simp
  qed
qed


lemma init_rep:
  "drv_model_init True s0 = Some (r, s) \<Longrightarrow> drv_rep s \<lparr>devs = [], sdevs = [], abs_world = drv_world s0\<rparr>"
  by (auto simp: drv_model_init_def drv_rep_def tbl_rep_def DD_INITIAL_SIZE_def)

subsection \<open>Lookups that go wrong\<close>

lemma find_first_hit:
  assumes "tbl_rep t R" "i < length R" "take (length nm) (fst (R ! i)) = nm" "\<forall>j < i. take (length nm) (fst (R ! j)) \<noteq> nm"
  shows "find_name nm t = Some i"
proof -
  obtain es fs where t: "t = es @ fs" "list_all2 slot_ok R es" using assms(1) by (auto simp: tbl_rep_def)
  have "find_name nm (es @ fs) = Some i" using t(2) assms(2-4)
  proof (induction R arbitrary: es i)
    case (Cons r R)
    obtain e es' where es: "es = e # es'" "slot_ok r e" "list_all2 slot_ok R es'" using Cons.prems(1) by (auto simp: list_all2_Cons1)
    then have nm: "ent_name e = Some (fst r)" by (auto simp: slot_ok_def split: prod.splits)
    show ?case
    proof (cases i)
      case 0
      then show ?thesis using es(1) nm Cons.prems(3) by (simp add: name_eq_def)
    next
      case (Suc k)
      have "find_name nm (es' @ fs) = Some k"
        by (rule Cons.IH [OF es(3)]) (use Cons.prems Suc in auto)
      then show ?thesis using es(1) nm Cons.prems(4) Suc by (auto simp: name_eq_def)
    qed
  qed simp
  then show ?thesis using t(1) by simp
qed

lemma find_at_hole:
  assumes "i < length t" "ent_name (t ! i) = None" "\<forall>j < i. name_eq (ent_name (t ! j)) nm = Some False"
  shows "find_name nm t = None"
  using assms
proof (induction t arbitrary: i)
  case (Cons e t)
  show ?case
  proof (cases i)
    case 0
    then show ?thesis using Cons.prems by (simp add: name_eq_def)
  next
    case (Suc k)
    have "find_name nm t = None" by (rule Cons.IH [of k]) (use Cons.prems Suc in auto)
    then show ?thesis using Cons.prems(3) Suc by (auto split: bind_splits)
  qed
qed simp

lemma tbl_names:
  "tbl_rep t R \<Longrightarrow> i < length R \<Longrightarrow> ent_name (t ! i) = Some (fst (R ! i))"
  using tbl_slot [of t R i] by (auto simp: slot_ok_def split: prod.splits)

subsection \<open>Properties\<close>

text \<open>C8: From the initialised tables, any sequence of entering drivers, removing the one entered
  last, and opening, closing, reading, writing and controlling devices that keeps to the rules of
  \<open>drv_op_ok\<close> runs without a fault and does what the registries say: a handle is the index of its
  name, however the tables have grown; nested opens of a device call the driver's \<open>open\<close> once and the
  matching last close its \<open>close\<close>; only the first open returns the driver's status, every further one
  writes the failure status although it succeeds.\<close>

theorem drv_run_refines_registry:
  assumes "drv_model_init True s0 = Some (r, s)"
    and "ops_ok drv_op_ok abs_step ops \<lparr>devs = [], sdevs = [], abs_world = drv_world s0\<rparr>"
  shows "\<exists>s'. run_ops drv_step ops s =
      Some (fst (spec_ops abs_step ops \<lparr>devs = [], sdevs = [], abs_world = drv_world s0\<rparr>), s') \<and>
    drv_rep s' (snd (spec_ops abs_step ops \<lparr>devs = [], sdevs = [], abs_world = drv_world s0\<rparr>))"
  by (rule drv.run_refines [OF init_rep [OF assms(1)] assms(2)])

definition log_ops :: "nat \<Rightarrow> nat list DD_OPERATIONS" where
  "log_ops k = \<lparr>op_open = Some (\<lambda>_ w. (DRV_SUCCESS, w @ [k])), op_close = Some (\<lambda>w. (DRV_SUCCESS, w @ [k + 1])),
     op_read = None, op_write = None, op_control = None\<rparr>"

definition demo_drv :: "nat list drv_model" where
  "demo_drv = \<lparr>drv_sdev_tbl = [], drv_dev_tbl = [], drv_world = []\<rparr>"

lemma drv_run_refines_registry_witness:
  "\<exists>s s'. drv_model_init True demo_drv = Some (DRV_SUCCESS, s) \<and>
    run_ops drv_step [RegDev ''uart1'' (log_ops 10), RegDev ''flash'' (log_ops 20), OpenDev ''flash'' 0, OpenDev ''flash'' 0,
        CloseDev 0xA5A50001, ReadDev 0xA5A50001 7 8 9, CloseDev 0xA5A50001] s =
      Some ([Ret DRV_SUCCESS, Ret DRV_SUCCESS, Opened 0xA5A50001 DRV_SUCCESS, Opened 0xA5A50001 DRV_FAILURE,
        Ret DRV_SUCCESS, Ret DRV_FAILURE, Ret DRV_SUCCESS], s') \<and> drv_world s' = [20, 21]"
proof -
  obtain s where s: "drv_model_init True demo_drv = Some (DRV_SUCCESS, s)" by (simp add: drv_model_init_def)
  then show ?thesis
    using drv_run_refines_registry [OF s, of "[RegDev ''uart1'' (log_ops 10), RegDev ''flash'' (log_ops 20), OpenDev ''flash'' 0,
      OpenDev ''flash'' 0, CloseDev 0xA5A50001, ReadDev 0xA5A50001 7 8 9, CloseDev 0xA5A50001]"]
    by (auto simp: demo_drv_def clear_name_def lookup_def handle_ok_def index_of_def handle_of_def DD_HANDLE_MAGIC_WORD_def
      call_def log_ops_def drv_rep_def Let_def)
qed

text \<open>A lookup compares the first characters of the entered names with the whole of the name it is
  given, so it opens the first device whose name begins with it, also when a later device has
  exactly that name: asking for a device whose name is the beginning of another's, entered before,
  returns the other's handle.\<close>

theorem drv_open_by_prefix:
  assumes "drv_rep s a" "i < length (devs a)" "take (length nm) (fst (devs a ! i)) = nm"
    and "\<forall>j < i. take (length nm) (fst (devs a ! j)) \<noteq> nm" "length nm \<le> 16"
  shows "\<exists>st s'. ddev_open (Some nm) True flag s = Some ((handle_of i, Some st), s')"
proof -
  have tb: "tbl_rep (drv_dev_tbl s) (devs a)" using assms(1) by (simp add: drv_rep_def)
  have f: "find_name nm (drv_dev_tbl s) = Some i" by (rule find_first_hit [OF tb assms(2-4)])
  have sl: "i < length (drv_dev_tbl s)" "ent_state (drv_dev_tbl s ! i) = DD_STATE_CLOSED \<or> ent_state (drv_dev_tbl s ! i) = DD_STATE_OPENED"
    using tbl_slot [OF tb assms(2)] by (auto simp: slot_ok_def split: prod.splits if_splits)
  then have "ddev_make_handle s i = handle_of i" by (simp add: ddev_make_handle_def handle_of_def)
  then show ?thesis using f sl assms(5) by (auto simp: ddev_open_def DD_MAX_NAME_LEN_def Let_def split: prod.splits)
qed

text \<open>After a driver has been removed, every lookup that has to pass its entry, of a name entered
  later or not at all, compares a null name: opening such a device faults, and so does removing it.\<close>

theorem drv_removal_breaks_lookups:
  assumes rep: "drv_rep s a" and nm: "clear_name nm (devs a)" "length nm \<le> 16"
    and other: "\<forall>j < lookup nm (devs a). take (length x) (fst (devs a ! j)) \<noteq> x" "length x \<le> 16"
  shows "\<exists>s'. ddev_unregister_dev (Some nm) s = Some (DRV_SUCCESS, s') \<and>
    ddev_open (Some x) True flag s' = None \<and> ddev_unregister_dev (Some x) s' = None"
proof -
  let ?i = "lookup nm (devs a)"
  let ?e = "(drv_dev_tbl s ! ?i)\<lparr>ent_name := None, ent_op := None, ent_state := DD_STATE_NODEVICE\<rparr>"
  let ?t = "(drv_dev_tbl s)[?i := ?e]"
  have tb: "tbl_rep (drv_dev_tbl s) (devs a)" using rep by (simp add: drv_rep_def)
  have i: "?i < length (devs a)" using nm by (intro lookup_less) (simp add: clear_name_def)
  have sl: "?i < length (drv_dev_tbl s)" using tbl_slot [OF tb i] by simp
  have un: "ddev_unregister_dev (Some nm) s = Some (DRV_SUCCESS, s\<lparr>drv_dev_tbl := ?t\<rparr>)"
    using tbl_find [OF tb nm(1)] sl nm(2) by (simp add: ddev_unregister_dev_def unregister_in_def DD_MAX_NAME_LEN_def)
  have "find_name x ?t = None"
    by (rule find_at_hole [of ?i]) (use sl i other(1) tbl_names [OF tb] in \<open>auto simp: name_eq_def\<close>)
  then show ?thesis
    using un other(2) by (simp add: ddev_open_def ddev_unregister_dev_def unregister_in_def DD_MAX_NAME_LEN_def)
qed

text \<open>Removing a simple device searches its table only up to the size of the other table: a simple
  device entered beyond that size is not found, and the removal stops in its assertion.\<close>

theorem sddev_unregister_wrong_bound:
  assumes "drv_rep s a" "clear_name nm (sdevs a)" "length nm \<le> 16" "length (drv_dev_tbl s) \<le> lookup nm (sdevs a)"
  shows "sddev_unregister_dev (Some nm) s = None"
proof -
  let ?n = "length (drv_dev_tbl s)"
  have tb: "tbl_rep (drv_sdev_tbl s) (sdevs a)" "tbl_rep (drv_dev_tbl s) (devs a)" using assms(1) by (simp_all add: drv_rep_def)
  have i: "lookup nm (sdevs a) < length (sdevs a)" using assms(2) by (intro lookup_less) (simp add: clear_name_def)
  then have l: "?n < length (drv_sdev_tbl s)" using tbl_slot [OF tb(1) i] assms(4) by simp
  have "find_name nm (take k t) = Some k" if "find_name nm t = Some j" "k \<le> j" "j < length t" for k j and t :: "'a SDD_OPERATIONS DRV_ENTRY list"
    using that by (induction t arbitrary: j k) (auto simp: take_Cons' split: bind_splits if_splits nat.splits)
  then have "find_name nm (take ?n (drv_sdev_tbl s)) = Some ?n"
    using tbl_find [OF tb(1) assms(2)] assms(4) tbl_slot [OF tb(1) i] by blast
  moreover have "?n \<noteq> 0" using tb(2) by (auto simp: tbl_rep_def)
  ultimately show ?thesis using l assms(3) by (simp add: sddev_unregister_dev_def unregister_in_def DD_MAX_NAME_LEN_def)
qed


text \<open>Leaving the drivers in the order of the start-up table faults at the second: the removal of
  the system controller leaves a null name in the first entry, which the removal of the interrupt
  controller compares; whatever other drivers the table lists, and whatever the simple devices
  entered after these two are.\<close>

theorem dd_exit_faults:
  assumes "drv_rep s a" "1 < length (sdevs a)" "fst (sdevs a ! 0) = SCTRL_DEV_NAME"
  shows "g_dd_exit (dd_init_tbl sctrl_init icu_init others) s = None"
proof -
  let ?e = "(drv_sdev_tbl s ! 0)\<lparr>ent_name := None, ent_op := None, ent_state := DD_STATE_NODEVICE\<rparr>"
  let ?t = "(drv_sdev_tbl s)[0 := ?e]"
  let ?n = "length (drv_dev_tbl s)"
  have tb: "tbl_rep (drv_sdev_tbl s) (sdevs a)" "tbl_rep (drv_dev_tbl s) (devs a)" using assms(1) by (simp_all add: drv_rep_def)
  have n: "?n \<noteq> 0" using tb(2) by (auto simp: tbl_rep_def)
  have l: "0 < length (drv_sdev_tbl s)" using tbl_slot [OF tb(1), of 0] assms(2) by linarith
  have nm: "ent_name (drv_sdev_tbl s ! 0) = Some SCTRL_DEV_NAME" using tbl_names [OF tb(1), of 0] assms(2,3) by fastforce
  have "find_name SCTRL_DEV_NAME (take ?n (drv_sdev_tbl s)) = Some 0"
    using l n nm by (cases "drv_sdev_tbl s") (auto simp: take_Cons' name_eq_def)
  then have 1: "sctrl_exit s = Some (s\<lparr>drv_sdev_tbl := ?t\<rparr>)"
    using l n by (simp add: sctrl_exit_def sddev_unregister_dev_def unregister_in_def DD_MAX_NAME_LEN_def SCTRL_DEV_NAME_def)
  have "find_name ICU_DEV_NAME (take ?n ?t) = None"
    by (rule find_at_hole [of 0]) (use l n in simp_all)
  then have 2: "icu_exit (s\<lparr>drv_sdev_tbl := ?t\<rparr>) = None"
    by (simp add: icu_exit_def sddev_unregister_dev_def unregister_in_def DD_MAX_NAME_LEN_def ICU_DEV_NAME_def)
  show ?thesis using 1 2 by (simp add: dd_init_tbl_def)
qed

subsection \<open>Concrete instances\<close>

definition sop :: "nat list SDD_OPERATIONS" where
  "sop = \<lparr>sop_control = None\<rparr>"

definition entered :: "string \<Rightarrow> 'op \<Rightarrow> 'op DRV_ENTRY" where
  "entered nm ops = \<lparr>ent_name = Some nm, use_cnt = 0, ent_state = DD_STATE_CLOSED, ent_op = Some ops\<rparr>"

lemma entered_rep: "fs \<noteq> [] \<Longrightarrow> \<forall>f \<in> set fs. slot_free f \<Longrightarrow>
    tbl_rep (map (\<lambda>(nm, ops). entered nm ops) xs @ fs) (map (\<lambda>(nm, ops). (nm, ops, 0)) xs)"
  unfolding tbl_rep_def by (intro exI conjI) (auto simp: list_all2_conv_all_nth slot_ok_def entered_def split: prod.splits)

definition demo_entered :: "nat list drv_model" where
  "demo_entered = \<lparr>drv_sdev_tbl = map (\<lambda>(nm, ops). entered nm ops) (map (\<lambda>nm. (nm, sop)) [''sys_ctrl'', ''icu'', ''wdt'', ''gpio'',
      ''flash'', ''pwm'', ''irda'', ''saradc'', ''generaldma'', ''ble'', ''sec'']) @ replicate 4 zero_entry,
    drv_dev_tbl = map (\<lambda>(nm, ops). entered nm ops) [(''usb'', log_ops 1), (''uart1'', log_ops 3)] @ replicate 8 zero_entry,
    drv_world = []\<rparr>"

definition demo_regs :: "nat list drv_abs" where
  "demo_regs = \<lparr>devs = map (\<lambda>(nm, ops). (nm, ops, 0)) [(''usb'', log_ops 1), (''uart1'', log_ops 3)],
    sdevs = map (\<lambda>(nm, ops). (nm, ops, 0)) (map (\<lambda>nm. (nm, sop)) [''sys_ctrl'', ''icu'', ''wdt'', ''gpio'',
      ''flash'', ''pwm'', ''irda'', ''saradc'', ''generaldma'', ''ble'', ''sec'']), abs_world = []\<rparr>"

lemma demo_entered_rep: "drv_rep demo_entered demo_regs"
  unfolding drv_rep_def demo_entered_def demo_regs_def drv_model.simps drv_abs.simps
  by (intro conjI entered_rep) simp_all

lemma drv_open_by_prefix_witness:
  "\<exists>st s'. ddev_open (Some ''uart'') True 0 demo_entered = Some ((0xA5A50001, Some st), s')"
  using drv_open_by_prefix [OF demo_entered_rep, of 1 "''uart''" 0]
  by (simp add: demo_regs_def handle_of_def DD_HANDLE_MAGIC_WORD_def)

lemma drv_removal_breaks_lookups_witness:
  "\<exists>s'. ddev_unregister_dev (Some ''usb'') demo_entered = Some (DRV_SUCCESS, s') \<and>
    ddev_open (Some ''uart1'') True 0 s' = None \<and> ddev_unregister_dev (Some ''uart1'') s' = None"
  by (rule drv_removal_breaks_lookups [OF demo_entered_rep]) (simp_all add: demo_regs_def clear_name_def lookup_def)

lemma sddev_unregister_wrong_bound_witness:
  "sddev_unregister_dev (Some ''sec'') demo_entered = None"
  by (rule sddev_unregister_wrong_bound [OF demo_entered_rep])
    (simp_all add: demo_regs_def clear_name_def lookup_def, simp add: demo_entered_def)

lemma dd_exit_faults_witness:
  "g_dd_exit (dd_init_tbl Some Some []) demo_entered = None"
  by (rule dd_exit_faults [OF demo_entered_rep]) (simp_all add: demo_regs_def SCTRL_DEV_NAME_def)

end
