(* ===== verification/TxBuf.thy ===== *)
theory TxBuf
  imports Simulation
begin

text \<open>
  The transmit buffering of \<open>func/rwnx_intf/rw_tx_buffering.c\<close> and the branch of
  \<open>func/rwnx_intf/rw_msdu.c\<close> that uses it: while a station sleeps, or the access point a station is
  joined to is absent, its frames wait in a queue, which is sent when the peer is back and thrown
  away when a timer fires.

  A queue of nodes linked by \<open>list_head\<close> is the list of its nodes; a node carries the number of its
  memory block.  What the code gives to other parts is a list of effects: blocks freed, nodes handed
  to \<open>rwm_transfer_node\<close>, messages posted to the core task, and updates of the traffic indication
  map.  \<open>env\<close> is what the code reads of the MAC: the types of the interfaces, the interface and the
  association number of a station, and whether a peer sleeps or is absent; it may differ from call to
  call.  The result \<open>None\<close> is a write through a null pointer or outside the array of clients, or a
  failed assertion on a timer.
\<close>

subsection \<open>State\<close>

definition VIF_STA :: u8 where "VIF_STA = 0"
definition VIF_IBSS :: u8 where "VIF_IBSS = 1"
definition VIF_AP :: u8 where "VIF_AP = 2"
definition VIF_UNKNOWN :: u8 where "VIF_UNKNOWN = 4"

definition TXU_CNTRL_MORE_DATA :: u16 where "TXU_CNTRL_MORE_DATA = 0x4"
definition TXU_CNTRL_RETRY_IMMEDIATELY :: u16 where "TXU_CNTRL_RETRY_IMMEDIATELY = 0x2000"

definition MAX_BUFING_CLIENT_NUM :: nat where "MAX_BUFING_CLIENT_NUM = 2"
definition MAX_TXBUFFER_COUNT :: nat where "MAX_TXBUFFER_COUNT = 15"
definition TX_BUFING_SRC_STA_PS :: u32 where "TX_BUFING_SRC_STA_PS = 1"
definition TX_BUFING_SRC_P2P_PS :: u32 where "TX_BUFING_SRC_P2P_PS = 16"

record MSDU_NODE_T =
  msdu_blk :: nat
  vif_idx :: u8
  sta_idx :: u8

record tx_bufing_client =
  tb_timer :: bool  \<comment> \<open>whether the timer runs\<close>
  cntrl_src :: u32
  bufing_list :: "MSDU_NODE_T list"

record tx_bufing =
  tx_bufing_en :: bool
  bufing_go_sap :: "u8 \<Rightarrow> tx_bufing_client"
  bufing_gc_sta :: tx_bufing_client
  tx_use_low_rate_once :: bool

record mac_env =
  vif_mgmt_get_type :: "u8 \<Rightarrow> u8"
  sta_mgmt_get_vif_idx :: "u8 \<Rightarrow> u8"
  sta_mgmt_get_aid :: "u8 \<Rightarrow> u8"
  sta_sleeps :: "u8 \<Rightarrow> bool"  \<comment> \<open>\<open>ps_state == PS_MODE_ON\<close>\<close>
  p2p_absent :: "u8 \<Rightarrow> bool"
  timer_ok :: bool  \<comment> \<open>the timer calls succeed\<close>

datatype tx_effect = Freed MSDU_NODE_T | Transferred MSDU_NODE_T u16 | Posted u32 | Tim_update u8 u8 bool

definition zero_client :: tx_bufing_client where
  "zero_client = \<lparr>tb_timer = False, cntrl_src = 0, bufing_list = []\<rparr>"

subsection \<open>Clients\<close>

definition rwm_get_bufing_role :: "u32 \<Rightarrow> u8" where
  "rwm_get_bufing_role trigger_source =
     (if trigger_source = TX_BUFING_SRC_P2P_PS then VIF_STA
      else if trigger_source = TX_BUFING_SRC_STA_PS then VIF_AP else VIF_UNKNOWN)"

text \<open>Which client the pointers of \<open>rwm_get_bufing_list\<close>, \<open>rwm_get_bufing_timer\<close> and
  \<open>rwm_get_bufing_chain\<close> belong to.\<close>

datatype client = Gc_sta | Go_sap u8

definition rwm_get_bufing_chain :: "u8 \<Rightarrow> u8 \<Rightarrow> client option" where
  "rwm_get_bufing_chain client_idx flag =
     (if flag = VIF_STA then Some Gc_sta else if flag = VIF_AP then Some (Go_sap client_idx) else None)"

definition in_range :: "u8 \<Rightarrow> bool" where
  "in_range client_idx \<longleftrightarrow> unat client_idx < MAX_BUFING_CLIENT_NUM"

fun get_client :: "client \<Rightarrow> tx_bufing \<Rightarrow> tx_bufing_client" where
  "get_client Gc_sta g = bufing_gc_sta g"
| "get_client (Go_sap i) g = bufing_go_sap g i"

fun set_client :: "client \<Rightarrow> tx_bufing_client \<Rightarrow> tx_bufing \<Rightarrow> tx_bufing" where
  "set_client Gc_sta c g = g\<lparr>bufing_gc_sta := c\<rparr>"
| "set_client (Go_sap i) c g = g\<lparr>bufing_go_sap := (bufing_go_sap g)(i := c)\<rparr>"

definition rwm_get_client_bufing_count :: "u8 \<Rightarrow> u8 \<Rightarrow> tx_bufing \<Rightarrow> nat" where
  "rwm_get_client_bufing_count client_idx flag g =
     (case rwm_get_bufing_chain client_idx flag of
        None \<Rightarrow> 0
      | Some c \<Rightarrow> if in_range client_idx then length (bufing_list (get_client c g)) else 0)"

definition rwm_pop_bufing_data :: "u8 \<Rightarrow> u8 \<Rightarrow> tx_bufing \<Rightarrow> MSDU_NODE_T option \<times> tx_bufing" where
  "rwm_pop_bufing_data client_idx flag g =
     (case rwm_get_bufing_chain client_idx flag of
        None \<Rightarrow> (None, g)
      | Some c \<Rightarrow>
          if \<not> in_range client_idx then (None, g)
          else (case bufing_list (get_client c g) of
                  [] \<Rightarrow> (None, g)
                | n # ns \<Rightarrow> (Some n, set_client c ((get_client c g)\<lparr>bufing_list := ns\<rparr>) g)))"

definition rwm_push_bufing_data :: "mac_env \<Rightarrow> MSDU_NODE_T \<Rightarrow> u8 \<Rightarrow> tx_bufing \<Rightarrow> tx_effect list \<times> tx_bufing" where
  "rwm_push_bufing_data env node client_idx g =
     (let flag = vif_mgmt_get_type env (vif_idx node);
          (effs, g1, stop) =
            (if MAX_TXBUFFER_COUNT \<le> rwm_get_client_bufing_count client_idx flag g
             then (case rwm_pop_bufing_data client_idx flag g of
                     (Some d, g1) \<Rightarrow> ([Freed d], g1, False)
                   | (None, g1) \<Rightarrow> ([], g1, True))
             else ([], g, False))
      in if stop then (effs, g1)
         else (case rwm_get_bufing_chain client_idx flag of
                 None \<Rightarrow> (effs, g1)
               | Some c \<Rightarrow>
                   if \<not> in_range client_idx then (effs, g1)
                   else (effs, set_client c ((get_client c g1)\<lparr>bufing_list := bufing_list (get_client c g1) @ [node]\<rparr>) g1)))"

subsection \<open>Timers\<close>

definition start_if_stopped :: "mac_env \<Rightarrow> client \<Rightarrow> tx_bufing \<Rightarrow> tx_bufing option" where
  "start_if_stopped env c g =
     (if tb_timer (get_client c g) then Some g
      else if timer_ok env then Some (set_client c ((get_client c g)\<lparr>tb_timer := True\<rparr>) g) else None)"

definition stop_if_running :: "mac_env \<Rightarrow> client \<Rightarrow> tx_bufing \<Rightarrow> tx_bufing option" where
  "stop_if_running env c g =
     (if \<not> tb_timer (get_client c g) then Some g
      else if timer_ok env then Some (set_client c ((get_client c g)\<lparr>tb_timer := False\<rparr>) g) else None)"

lemma get_set_client [simp]: "get_client c (set_client c x g) = x"
  by (cases c) simp_all

lemma get_set_other [simp]: "c \<noteq> d \<Longrightarrow> get_client c (set_client d x g) = get_client c g"
  by (cases c; cases d) simp_all

lemma set_client_en [simp]: "tx_bufing_en (set_client c x g) = tx_bufing_en g"
  by (cases c) simp_all

text \<open>The loop of \<open>rwm_flush_bufing_list\<close> pops and frees until the queue is empty.\<close>

definition queue_len :: "u8 \<Rightarrow> u8 \<Rightarrow> tx_bufing \<Rightarrow> nat" where
  "queue_len client_idx flag g =
     (case rwm_get_bufing_chain client_idx flag of None \<Rightarrow> 0 | Some c \<Rightarrow> length (bufing_list (get_client c g)))"

function flush_loop :: "u8 \<Rightarrow> u8 \<Rightarrow> tx_bufing \<Rightarrow> tx_effect list \<times> tx_bufing" where
  "flush_loop client_idx flag g =
     (case rwm_pop_bufing_data client_idx flag g of
        (None, g1) \<Rightarrow> ([], g1)
      | (Some n, g1) \<Rightarrow> (let (effs, g2) = flush_loop client_idx flag g1 in (Freed n # effs, g2)))"
  by pat_completeness auto

termination
  by (relation "measure (\<lambda>(i, flag, g). queue_len i flag g)")
    (auto simp: rwm_pop_bufing_data_def queue_len_def split: option.splits if_splits list.splits)

declare flush_loop.simps [simp del]

definition rwm_flush_bufing_list :: "mac_env \<Rightarrow> u8 \<Rightarrow> u8 \<Rightarrow> tx_bufing \<Rightarrow> (tx_effect list \<times> tx_bufing) option" where
  "rwm_flush_bufing_list env client_idx flag g =
     (case rwm_get_bufing_chain client_idx flag of
        None \<Rightarrow> Some ([], g)
      | Some c \<Rightarrow>
          if \<not> in_range client_idx then Some ([], g)
          else
            (let (effs, g1) = (if 0 < rwm_get_client_bufing_count client_idx flag g then flush_loop client_idx flag g else ([], g))
             in map_option (\<lambda>g2. (effs, g2)) (stop_if_running env c g1)))"

subsection \<open>Entry points\<close>

definition rwm_tx_bufing_init :: "bool \<Rightarrow> tx_bufing \<Rightarrow> tx_bufing option" where
  "rwm_tx_bufing_init timers_ok g =
     (if \<not> timers_ok then None
      else Some (g\<lparr>tx_bufing_en := True,
        bufing_gc_sta := (bufing_gc_sta g)\<lparr>bufing_list := [], tb_timer := False\<rparr>,
        bufing_go_sap := (\<lambda>i. if in_range i then (bufing_go_sap g i)\<lparr>bufing_list := [], tb_timer := False\<rparr> else bufing_go_sap g i)\<rparr>))"

text \<open>\<open>rwm_tx_bufing_end\<close> clears the source before any test: for an interface that is neither a station
  nor an access point the client pointer is null, and an access point's client may be outside the
  array.\<close>

definition rwm_tx_bufing_end :: "mac_env \<Rightarrow> u8 \<Rightarrow> tx_bufing \<Rightarrow> (tx_effect list \<times> tx_bufing) option" where
  "rwm_tx_bufing_end env client_idx g =
     (let flag = vif_mgmt_get_type env (sta_mgmt_get_vif_idx env client_idx) in
      (case rwm_get_bufing_chain client_idx flag of
         None \<Rightarrow> None
       | Some c \<Rightarrow>
           if flag = VIF_AP \<and> \<not> in_range client_idx then None
           else rwm_flush_bufing_list env client_idx flag (set_client c ((get_client c g)\<lparr>cntrl_src := 0\<rparr>) g)))"

definition rwm_trigger_tx_bufing_start :: "mac_env \<Rightarrow> u32 \<Rightarrow> u8 \<Rightarrow> tx_bufing \<Rightarrow> (tx_effect list \<times> tx_bufing) option" where
  "rwm_trigger_tx_bufing_start env trigger_source client_idx g =
     (let flag = rwm_get_bufing_role trigger_source in
      if \<not> in_range client_idx \<or> trigger_source = 0 \<or> flag = VIF_UNKNOWN then Some ([], g)
      else (case rwm_get_bufing_chain client_idx flag of
              None \<Rightarrow> None
            | Some c \<Rightarrow>
                map_option (\<lambda>g1. ([], g1))
                  (start_if_stopped env c (set_client c ((get_client c g)\<lparr>cntrl_src := cntrl_src (get_client c g) OR trigger_source\<rparr>) g))))"

definition rwm_trigger_tx_bufing_stop :: "mac_env \<Rightarrow> u32 \<Rightarrow> u8 \<Rightarrow> tx_bufing \<Rightarrow> (tx_effect list \<times> tx_bufing) option" where
  "rwm_trigger_tx_bufing_stop env trigger_source client_idx g =
     (let flag = rwm_get_bufing_role trigger_source in
      case rwm_get_bufing_chain client_idx flag of
        None \<Rightarrow> Some ([], g)
      | Some c \<Rightarrow>
          if \<not> in_range client_idx \<or> trigger_source = 0 \<or> flag = VIF_UNKNOWN then Some ([], g)
          else if (cntrl_src (get_client c g) AND trigger_source) = 0 then Some ([], g)
          else
            (let src = cntrl_src (get_client c g) AND NOT trigger_source;
                 g1 = set_client c ((get_client c g)\<lparr>cntrl_src := src\<rparr>) g in
             if src \<noteq> 0 then Some ([], g1)
             else
               (let effs = (if 0 < rwm_get_client_bufing_count client_idx flag g1
                            then [Posted (push_bit 8 (ucast flag) OR ucast client_idx)] else []) in
                map_option (\<lambda>g2. (effs, g2)) (stop_if_running env c g1))))"

definition rwm_gc_tx_bufing_timeout :: "mac_env \<Rightarrow> u8 \<Rightarrow> tx_bufing \<Rightarrow> (tx_effect list \<times> tx_bufing) option" where
  "rwm_gc_tx_bufing_timeout env client_idx g = rwm_flush_bufing_list env client_idx VIF_STA g"

definition rwm_tx_bufing_timeout :: "mac_env \<Rightarrow> u8 \<Rightarrow> tx_bufing \<Rightarrow> (tx_effect list \<times> tx_bufing) option" where
  "rwm_tx_bufing_timeout env client_idx g = rwm_flush_bufing_list env client_idx VIF_AP g"

text \<open>Both functions read \<open>node->vif_idx\<close> before they test \<open>node\<close>, so a null node is \<open>None\<close>.\<close>

definition rwm_tx_bufing_save_data :: "mac_env \<Rightarrow> MSDU_NODE_T option \<Rightarrow> tx_bufing \<Rightarrow> (tx_effect list \<times> tx_bufing) option" where
  "rwm_tx_bufing_save_data env node g =
     (case node of None \<Rightarrow> None
      | Some n \<Rightarrow>
          (let flag = vif_mgmt_get_type env (vif_idx n); client_idx = sta_idx n in
           case rwm_get_bufing_chain client_idx flag of
             None \<Rightarrow> Some ([], g)
           | Some c \<Rightarrow>
               if \<not> in_range client_idx then Some ([], g)
               else map_option (rwm_push_bufing_data env n client_idx)
                 (if rwm_get_client_bufing_count client_idx flag g = 0 then start_if_stopped env c g else Some g)))"

definition rwm_tx_bufing_restore_data :: "mac_env \<Rightarrow> u32 \<Rightarrow> tx_bufing \<Rightarrow> tx_effect list \<times> tx_bufing" where
  "rwm_tx_bufing_restore_data env cid_and_flag g =
     (let flag = (ucast (drop_bit 8 (0xFF00 AND cid_and_flag)) :: u8); client_idx = (ucast (0x00FF AND cid_and_flag) :: u8) in
      case rwm_get_bufing_chain client_idx flag of
        None \<Rightarrow> ([], g)
      | Some c \<Rightarrow>
          if \<not> in_range client_idx \<or> \<not> tx_bufing_en g then ([], g)
          else if sta_sleeps env client_idx \<or> cntrl_src (get_client c g) \<noteq> 0 \<or> p2p_absent env client_idx then ([], g)
          else
            (case rwm_pop_bufing_data client_idx flag g of
               (None, g1) \<Rightarrow> ([], g1)
             | (Some n, g1) \<Rightarrow>
                 (let cnt = rwm_get_client_bufing_count client_idx flag g1 in
                  (Transferred n TXU_CNTRL_MORE_DATA #
                     (if 0 < cnt \<and> cntrl_src (get_client c g1) = 0 then [Posted cid_and_flag]
                      else if cnt = 0
                      then [Tim_update (sta_mgmt_get_vif_idx env client_idx) (sta_mgmt_get_aid env client_idx) False]
                      else []), g1))))"

definition rwm_check_tx_bufing :: "mac_env \<Rightarrow> MSDU_NODE_T option \<Rightarrow> tx_bufing \<Rightarrow> bool option" where
  "rwm_check_tx_bufing env node g =
     (case node of None \<Rightarrow> None
      | Some n \<Rightarrow>
          (let flag = vif_mgmt_get_type env (vif_idx n) in
           if flag = VIF_UNKNOWN then Some False
           else if flag \<noteq> VIF_STA \<and> flag \<noteq> VIF_AP then Some False
           else
             (let client_idx = (if flag = VIF_STA then vif_idx n else sta_idx n) in
              case rwm_get_bufing_chain client_idx flag of
                None \<Rightarrow> Some False
              | Some c \<Rightarrow>
                  if \<not> in_range client_idx \<or> \<not> tx_bufing_en g then Some False
                  else if cntrl_src (get_client c g) = 0 then Some False
                  else Some True)))"

text \<open>The end of \<open>rwm_transfer\<close>, once the node is filled: buffer it or hand it on.\<close>

definition rwm_transfer_end :: "mac_env \<Rightarrow> MSDU_NODE_T \<Rightarrow> tx_bufing \<Rightarrow> (tx_effect list \<times> tx_bufing) option" where
  "rwm_transfer_end env node g =
     do {
       buffered \<leftarrow> rwm_check_tx_bufing env (Some node) g;
       if buffered then rwm_tx_bufing_save_data env (Some node) g
       else if tx_use_low_rate_once g
       then Some ([Transferred node TXU_CNTRL_RETRY_IMMEDIATELY], g\<lparr>tx_use_low_rate_once := False\<rparr>)
       else Some ([Transferred node 0], g) }"

subsection \<open>Sequences of events\<close>

datatype tx_op = Send MSDU_NODE_T | Start u32 u8 | Stop u32 u8 | End u8 | Timeout u8 | Gc_timeout u8 | Restore u32

fun tx_step :: "mac_env \<times> tx_op \<Rightarrow> tx_bufing \<Rightarrow> (tx_effect list \<times> tx_bufing) option" where
  "tx_step (env, Send n) g = rwm_transfer_end env n g"
| "tx_step (env, Start src i) g = rwm_trigger_tx_bufing_start env src i g"
| "tx_step (env, Stop src i) g = rwm_trigger_tx_bufing_stop env src i g"
| "tx_step (env, End i) g = rwm_tx_bufing_end env i g"
| "tx_step (env, Timeout i) g = rwm_tx_bufing_timeout env i g"
| "tx_step (env, Gc_timeout i) g = rwm_gc_tx_bufing_timeout env i g"
| "tx_step (env, Restore cid) g = Some (rwm_tx_bufing_restore_data env cid g)"

text \<open>The queue a node belongs to, given the types of the interfaces; the nodes of queue \<open>c\<close> that a step
  buffers, and those it takes out of the queue.  A node that is handed on without being buffered has
  not the flag \<open>TXU_CNTRL_MORE_DATA\<close>.\<close>

definition queue_of :: "(u8 \<Rightarrow> u8) \<Rightarrow> MSDU_NODE_T \<Rightarrow> client option" where
  "queue_of vt n = rwm_get_bufing_chain (sta_idx n) (vt (vif_idx n))"

fun is_direct :: "tx_effect list \<Rightarrow> bool" where
  "is_direct (Transferred _ f # _) = (f \<noteq> TXU_CNTRL_MORE_DATA)"
| "is_direct _ = False"

fun buffered_by :: "(u8 \<Rightarrow> u8) \<Rightarrow> client \<Rightarrow> mac_env \<times> tx_op \<Rightarrow> tx_effect list \<Rightarrow> MSDU_NODE_T list" where
  "buffered_by vt c (env, Send n) effs = (if queue_of vt n = Some c \<and> \<not> is_direct effs then [n] else [])"
| "buffered_by vt c _ effs = []"

fun leaving :: "(u8 \<Rightarrow> u8) \<Rightarrow> client \<Rightarrow> tx_effect \<Rightarrow> MSDU_NODE_T list" where
  "leaving vt c (Freed n) = (if queue_of vt n = Some c then [n] else [])"
| "leaving vt c (Transferred n f) = (if f = TXU_CNTRL_MORE_DATA \<and> queue_of vt n = Some c then [n] else [])"
| "leaving vt c _ = []"

abbreviation queue :: "client \<Rightarrow> tx_bufing \<Rightarrow> MSDU_NODE_T list" where
  "queue c g \<equiv> bufing_list (get_client c g)"

definition tx_inv :: "(u8 \<Rightarrow> u8) \<Rightarrow> tx_bufing \<Rightarrow> bool" where
  "tx_inv vt g \<longleftrightarrow> (\<forall>c. length (queue c g) \<le> MAX_TXBUFFER_COUNT \<and> (\<forall>n \<in> set (queue c g). queue_of vt n = Some c))"

text \<open>What the events keep to: the interface types do not change, the timer calls succeed, the station
  number of a frame for a station or an access point is in range, and so is the one of a station
  that leaves, whose interface is a station or an access point.\<close>

fun tx_ok :: "(u8 \<Rightarrow> u8) \<Rightarrow> mac_env \<times> tx_op \<Rightarrow> bool" where
  "tx_ok vt (env, x) \<longleftrightarrow> vif_mgmt_get_type env = vt \<and> timer_ok env \<and>
     (case x of Send n \<Rightarrow> queue_of vt n = None \<or> in_range (sta_idx n)
      | End i \<Rightarrow> in_range i \<and> rwm_get_bufing_chain i (vt (sta_mgmt_get_vif_idx env i)) \<noteq> None
      | _ \<Rightarrow> True)"

lemma pop_simp:
  "rwm_get_bufing_chain i flag = Some c \<Longrightarrow> in_range i \<Longrightarrow> rwm_pop_bufing_data i flag g =
     (case queue c g of [] \<Rightarrow> (None, g) | n # ns \<Rightarrow> (Some n, set_client c ((get_client c g)\<lparr>bufing_list := ns\<rparr>) g))"
  by (simp add: rwm_pop_bufing_data_def)

lemma count_simp:
  "rwm_get_bufing_chain i flag = Some c \<Longrightarrow> in_range i \<Longrightarrow> rwm_get_client_bufing_count i flag g = length (queue c g)"
  by (simp add: rwm_get_client_bufing_count_def)

lemma set_set_client [simp]: "set_client c x (set_client c y g) = set_client c x g"
  by (cases c) simp_all

lemma set_get_client [simp]: "set_client c (get_client c g) g = g"
  by (cases c) simp_all

lemma flush_loop_ok:
  assumes "rwm_get_bufing_chain i flag = Some c" "in_range i"
  shows "flush_loop i flag g = (map Freed (queue c g), set_client c ((get_client c g)\<lparr>bufing_list := []\<rparr>) g)"
proof (induction "queue c g" arbitrary: g)
  case Nil
  then have e: "(get_client c g)\<lparr>bufing_list := []\<rparr> = get_client c g" by simp
  show ?case unfolding e using Nil by (simp add: flush_loop.simps [of i flag g] pop_simp [OF assms])
next
  case (Cons n ns)
  let ?g = "set_client c ((get_client c g)\<lparr>bufing_list := ns\<rparr>) g"
  have "flush_loop i flag ?g = (map Freed ns, set_client c ((get_client c g)\<lparr>bufing_list := []\<rparr>) g)"
    using Cons.hyps(1) [of ?g] by simp
  then show ?case using Cons.hyps(2) by (simp add: flush_loop.simps [of i flag g] pop_simp [OF assms] flip: Cons.hyps(2))
qed

text \<open>Setting only the timer or the source of a client leaves every queue.\<close>

lemma queue_set:
  "queue d (set_client c x g) = (if d = c then bufing_list x else queue d g)"
  by simp

lemma stop_timer_ok:
  "timer_ok env \<Longrightarrow> \<exists>g'. stop_if_running env c g = Some g' \<and> (\<forall>d. queue d g' = queue d g) \<and> \<not> tb_timer (get_client c g')"
  by (auto simp: stop_if_running_def queue_set)

lemma start_timer_ok:
  "timer_ok env \<Longrightarrow> \<exists>g'. start_if_stopped env c g = Some g' \<and> (\<forall>d. queue d g' = queue d g) \<and> tb_timer (get_client c g')"
  by (auto simp: start_if_stopped_def queue_set)

lemma flush_ok:
  assumes "rwm_get_bufing_chain i flag = Some c" "in_range i" "timer_ok env"
  shows "\<exists>g'. rwm_flush_bufing_list env i flag g = Some (map Freed (queue c g), g') \<and>
    (\<forall>d. queue d g' = (if d = c then [] else queue d g)) \<and> \<not> tb_timer (get_client c g')"
proof -
  let ?g = "set_client c ((get_client c g)\<lparr>bufing_list := []\<rparr>) g"
  obtain g' where g': "stop_if_running env c ?g = Some g'" "\<forall>d. queue d g' = queue d ?g" "\<not> tb_timer (get_client c g')"
    using stop_timer_ok [OF assms(3)] by blast
  obtain g0 where g0: "stop_if_running env c g = Some g0" "\<forall>d. queue d g0 = queue d g" "\<not> tb_timer (get_client c g0)"
    using stop_timer_ok [OF assms(3)] by blast
  show ?thesis
  proof (cases "queue c g = []")
    case True
    then show ?thesis using g0 assms(1,2) by (auto simp: rwm_flush_bufing_list_def count_simp [OF assms(1,2)])
  next
    case False
    then show ?thesis
      using g' assms(1,2) by (auto simp: rwm_flush_bufing_list_def count_simp [OF assms(1,2)] flush_loop_ok [OF assms(1,2)] queue_set)
  qed
qed

lemma leaving_freed:
  "\<forall>n \<in> set ns. queue_of vt n = Some c \<Longrightarrow> concat (map (leaving vt d) (map Freed ns)) = (if d = c then ns else [])"
  by (induction ns) auto


subsection \<open>What each event does to the queues\<close>

definition queue_law :: "(u8 \<Rightarrow> u8) \<Rightarrow> mac_env \<times> tx_op \<Rightarrow> tx_effect list \<Rightarrow> tx_bufing \<Rightarrow> tx_bufing \<Rightarrow> bool" where
  "queue_law vt x effs g g' \<longleftrightarrow> tx_inv vt g' \<and>
     (\<forall>c. queue c g @ buffered_by vt c x effs = concat (map (leaving vt c) effs) @ queue c g')"

lemma law_same_queues:
  assumes "tx_inv vt g" "\<forall>c. queue c g' = queue c g" "\<forall>c. buffered_by vt c x effs = []" "\<forall>c. concat (map (leaving vt c) effs) = []"
  shows "queue_law vt x effs g g'"
  using assms by (simp add: queue_law_def tx_inv_def)

lemma law_flush:
  assumes "tx_inv vt g" "\<forall>d. queue d g' = (if d = c then [] else queue d g)" "\<forall>d effs. buffered_by vt d x effs = []"
  shows "queue_law vt x (map Freed (queue c g)) g g'"
proof -
  have "\<forall>n \<in> set (queue c g). queue_of vt n = Some c" using assms(1) by (simp add: tx_inv_def)
  then have l: "concat (map (leaving vt d) (map Freed (queue c g))) = (if d = c then queue c g else [])" for d
    by (rule leaving_freed)
  show ?thesis using assms l unfolding queue_law_def tx_inv_def by simp
qed

lemma inv_head:
  assumes "tx_inv vt g" "queue c g = n # ns"
  shows "queue_of vt n = Some c" "length ns \<le> MAX_TXBUFFER_COUNT" "Suc (length ns) \<le> MAX_TXBUFFER_COUNT"
    "\<forall>m \<in> set ns. queue_of vt m = Some c"
proof -
  have "length (queue c g) \<le> MAX_TXBUFFER_COUNT" "\<forall>m \<in> set (queue c g). queue_of vt m = Some c" using assms(1) by (simp_all add: tx_inv_def)
  then show "queue_of vt n = Some c" "length ns \<le> MAX_TXBUFFER_COUNT" "Suc (length ns) \<le> MAX_TXBUFFER_COUNT"
    "\<forall>m \<in> set ns. queue_of vt m = Some c" unfolding assms(2) by simp_all
qed

lemma push_ok:
  assumes ch: "rwm_get_bufing_chain (sta_idx n) (vif_mgmt_get_type env (vif_idx n)) = Some c" "in_range (sta_idx n)"
    and inv: "tx_inv vt g" and vt: "vif_mgmt_get_type env = vt"
  shows "\<exists>effs g'. rwm_push_bufing_data env n (sta_idx n) g = (effs, g') \<and> queue_law vt (env, Send n) effs g g'"
proof -
  have q: "queue_of vt n = Some c" using ch(1) vt by (simp add: queue_of_def)
  have own: "length (queue d g) \<le> MAX_TXBUFFER_COUNT" "\<forall>m \<in> set (queue d g). queue_of vt m = Some d" for d
    using inv by (simp_all add: tx_inv_def)
  show ?thesis
  proof (cases "MAX_TXBUFFER_COUNT \<le> length (queue c g)")
    case True
    then obtain d ds where d: "queue c g = d # ds" by (cases "queue c g") (auto simp: MAX_TXBUFFER_COUNT_def)
    let ?g = "set_client c ((get_client c g)\<lparr>bufing_list := ds @ [n]\<rparr>) g"
    have push: "rwm_push_bufing_data env n (sta_idx n) g = ([Freed d], ?g)"
      using True d ch by (simp add: rwm_push_bufing_data_def Let_def count_simp [OF ch] pop_simp [OF ch])
    have l: "leaving vt e (Freed d) = (if e = c then [d] else [])" for e using inv_head(1) [OF inv d] by auto
    have "queue_law vt (env, Send n) [Freed d] g ?g"
      unfolding queue_law_def tx_inv_def using own inv_head(2-4) [OF inv d] d q by (simp add: queue_set l del: leaving.simps)
    then show ?thesis using push by blast
  next
    case False
    let ?g = "set_client c ((get_client c g)\<lparr>bufing_list := queue c g @ [n]\<rparr>) g"
    have push: "rwm_push_bufing_data env n (sta_idx n) g = ([], ?g)"
      using False ch by (simp add: rwm_push_bufing_data_def Let_def count_simp [OF ch])
    have "queue_law vt (env, Send n) [] g ?g"
      unfolding queue_law_def tx_inv_def using own False q by (simp add: queue_set)
    then show ?thesis using push by blast
  qed
qed

lemma law_from_same:
  assumes "\<forall>c. queue c g1 = queue c g" "queue_law vt x effs g1 g'"
  shows "queue_law vt x effs g g'"
  using assms by (simp add: queue_law_def)

lemma save_ok:
  assumes inv: "tx_inv vt g" and ok: "tx_ok vt (env, Send n)" and ch: "queue_of vt n = Some c"
  shows "\<exists>effs g'. rwm_tx_bufing_save_data env (Some n) g = Some (effs, g') \<and> queue_law vt (env, Send n) effs g g'"
proof -
  have vt: "vif_mgmt_get_type env = vt" and t: "timer_ok env" and r: "in_range (sta_idx n)" using ok ch by simp_all
  have ch': "rwm_get_bufing_chain (sta_idx n) (vif_mgmt_get_type env (vif_idx n)) = Some c" using ch vt by (simp add: queue_of_def)
  obtain g1 where g1: "(if rwm_get_client_bufing_count (sta_idx n) (vif_mgmt_get_type env (vif_idx n)) g = 0
      then start_if_stopped env c g else Some g) = Some g1" "\<forall>d. queue d g1 = queue d g"
    using start_timer_ok [OF t, of c g]
    by (cases "rwm_get_client_bufing_count (sta_idx n) (vif_mgmt_get_type env (vif_idx n)) g = 0") auto
  have inv1: "tx_inv vt g1" using inv g1(2) by (simp add: tx_inv_def)
  obtain effs g' where p: "rwm_push_bufing_data env n (sta_idx n) g1 = (effs, g')" "queue_law vt (env, Send n) effs g1 g'"
    using push_ok [OF ch' r inv1 vt] by blast
  have "rwm_tx_bufing_save_data env (Some n) g = Some (effs, g')"
    using ch' r g1(1) p(1) by (simp add: rwm_tx_bufing_save_data_def Let_def)
  then show ?thesis using law_from_same [OF g1(2) p(2)] by blast
qed

lemma send_ok:
  assumes inv: "tx_inv vt g" and ok: "tx_ok vt (env, Send n)"
  shows "\<exists>effs g'. rwm_transfer_end env n g = Some (effs, g') \<and> queue_law vt (env, Send n) effs g g'"
proof (cases "rwm_check_tx_bufing env (Some n) g = Some True")
  case True
  then obtain c where "queue_of vt n = Some c"
    using ok by (auto simp: rwm_check_tx_bufing_def queue_of_def rwm_get_bufing_chain_def Let_def split: if_splits option.splits)
  then show ?thesis using save_ok [OF inv ok] True by (simp add: rwm_transfer_end_def)
next
  case False
  then have c: "rwm_check_tx_bufing env (Some n) g = Some False"
    by (auto simp: rwm_check_tx_bufing_def Let_def split: if_splits option.splits)
  have gl: "get_client d (g\<lparr>tx_use_low_rate_once := False\<rparr>) = get_client d g" for d by (cases d) simp_all
  have f: "TXU_CNTRL_RETRY_IMMEDIATELY \<noteq> TXU_CNTRL_MORE_DATA" "(0 :: u16) \<noteq> TXU_CNTRL_MORE_DATA"
    by (simp_all add: TXU_CNTRL_RETRY_IMMEDIATELY_def TXU_CNTRL_MORE_DATA_def)
  show ?thesis
    using c inv f by (cases "tx_use_low_rate_once g")
      (auto simp: rwm_transfer_end_def gl intro!: law_same_queues)
qed

lemma restore_ok:
  assumes inv: "tx_inv vt g"
  shows "\<exists>effs g'. rwm_tx_bufing_restore_data env cid g = (effs, g') \<and> queue_law vt (env, Restore cid) effs g g'"
proof -
  define flag where "flag = (ucast (drop_bit 8 (0xFF00 AND cid)) :: u8)"
  define i where "i = (ucast (0x00FF AND cid) :: u8)"
  note unfolds = rwm_tx_bufing_restore_data_def Let_def i_def [symmetric] flag_def [symmetric]
  have idle: "queue_law vt (env, Restore cid) [] g g" by (rule law_same_queues [OF inv]) simp_all
  show ?thesis
  proof (cases "rwm_get_bufing_chain i flag")
    case None
    then show ?thesis unfolding unfolds using idle by simp
  next
    case (Some c)
    note ch = this
    show ?thesis
    proof (cases "in_range i \<and> tx_bufing_en g \<and> \<not> sta_sleeps env i \<and> cntrl_src (get_client c g) = 0 \<and> \<not> p2p_absent env i \<and> queue c g \<noteq> []")
      case False
      then have "rwm_tx_bufing_restore_data env cid g = ([], g)"
        unfolding unfolds using ch by (auto simp: rwm_pop_bufing_data_def split: list.split)
      then show ?thesis using idle by blast
    next
      case True
      then obtain n ns where q: "queue c g = n # ns" by (auto simp: neq_Nil_conv)
      let ?g = "set_client c ((get_client c g)\<lparr>bufing_list := ns\<rparr>) g"
      define rest where "rest = (if ns \<noteq> [] then [Posted cid] else [Tim_update (sta_mgmt_get_vif_idx env i) (sta_mgmt_get_aid env i) False])"
      have r: "rwm_tx_bufing_restore_data env cid g = (Transferred n TXU_CNTRL_MORE_DATA # rest, ?g)"
        unfolding unfolds using True ch q by (simp add: pop_simp [OF ch] count_simp [OF ch] rest_def)
      note hd = inv_head [OF inv q]
      have "concat (map (leaving vt d) rest) = []" for d by (simp add: rest_def)
      moreover have "leaving vt e (Transferred n TXU_CNTRL_MORE_DATA) = (if e = c then [n] else [])" for e using hd(1) by auto
      ultimately have "queue_law vt (env, Restore cid) (Transferred n TXU_CNTRL_MORE_DATA # rest) g ?g"
        using inv q hd(2-4) unfolding queue_law_def tx_inv_def by (simp add: queue_set del: leaving.simps)
      then show ?thesis using r by blast
    qed
  qed
qed

lemma tx_step_ok:
  assumes inv: "tx_inv vt g" and ok: "tx_ok vt (env, x)"
  shows "\<exists>effs g'. tx_step (env, x) g = Some (effs, g') \<and> queue_law vt (env, x) effs g g'"
proof (cases x)
  case (Send n)
  then show ?thesis using send_ok [OF inv] ok by simp
next
  case (Start src i)
  have same: "\<forall>d. queue d (set_client c ((get_client c g)\<lparr>cntrl_src := k\<rparr>) g) = queue d g" for c k by (simp add: queue_set)
  have idle: "queue_law vt (env, Start src i) [] g g'" if "\<forall>d. queue d g' = queue d g" for g'
    by (rule law_same_queues [OF inv that]) simp_all
  show ?thesis
  proof (cases "rwm_get_bufing_chain i (rwm_get_bufing_role src)")
    case None
    then show ?thesis
      using idle [of g] Start by (auto simp: rwm_trigger_tx_bufing_start_def rwm_get_bufing_role_def rwm_get_bufing_chain_def Let_def VIF_AP_def VIF_STA_def VIF_UNKNOWN_def split: if_splits)
  next
    case (Some c)
    obtain g' where "start_if_stopped env c (set_client c ((get_client c g)\<lparr>cntrl_src := cntrl_src (get_client c g) OR src\<rparr>) g) = Some g'"
      "\<forall>d. queue d g' = queue d g"
      using start_timer_ok ok same by fastforce
    then show ?thesis using idle [of g] idle [of g'] Start Some by (auto simp: rwm_trigger_tx_bufing_start_def Let_def)
  qed
next
  case (Stop src i)
  have same: "\<forall>d. queue d (set_client c ((get_client c g)\<lparr>cntrl_src := k\<rparr>) g) = queue d g" for c k by (simp add: queue_set)
  have idle: "queue_law vt (env, Stop src i) effs g g'" if "\<forall>d. queue d g' = queue d g" "effs = [] \<or> (\<exists>k. effs = [Posted k])" for effs g'
    by (rule law_same_queues [OF inv that(1)]) (use that(2) in auto)
  show ?thesis
  proof (cases "rwm_get_bufing_chain i (rwm_get_bufing_role src)")
    case None
    then show ?thesis using idle [of g "[]"] Stop by (simp add: rwm_trigger_tx_bufing_stop_def Let_def)
  next
    case (Some c)
    let ?g = "set_client c ((get_client c g)\<lparr>cntrl_src := cntrl_src (get_client c g) AND NOT src\<rparr>) g"
    obtain g' where "stop_if_running env c ?g = Some g'" "\<forall>d. queue d g' = queue d g"
      using stop_timer_ok ok same by fastforce
    then show ?thesis
      using idle [of g "[]"] idle [of ?g "[]"] idle [of g'] same Stop Some
      by (auto simp: rwm_trigger_tx_bufing_stop_def Let_def)
  qed
next
  case (End i)
  let ?flag = "vif_mgmt_get_type env (sta_mgmt_get_vif_idx env i)"
  obtain c where c: "rwm_get_bufing_chain i ?flag = Some c" and r: "in_range i" and t: "timer_ok env" using ok End by auto
  let ?g = "set_client c ((get_client c g)\<lparr>cntrl_src := 0\<rparr>) g"
  have same: "\<forall>d. queue d ?g = queue d g" by (simp add: queue_set)
  obtain g' where g': "rwm_flush_bufing_list env i ?flag ?g = Some (map Freed (queue c ?g), g')" "\<forall>d. queue d g' = (if d = c then [] else queue d ?g)"
    using flush_ok [OF c r t] by blast
  have "queue_law vt (env, End i) (map Freed (queue c g)) g g'"
    by (rule law_flush [OF inv]) (use g'(2) same in auto)
  then show ?thesis using g'(1) same c r End by (simp add: rwm_tx_bufing_end_def Let_def)
next
  case (Timeout i)
  have t: "timer_ok env" using ok by simp
  show ?thesis
  proof (cases "in_range i")
    case True
    have c: "rwm_get_bufing_chain i VIF_AP = Some (Go_sap i)" by (simp add: rwm_get_bufing_chain_def VIF_AP_def VIF_STA_def)
    obtain g' where g': "rwm_flush_bufing_list env i VIF_AP g = Some (map Freed (queue (Go_sap i) g), g')" "\<forall>d. queue d g' = (if d = Go_sap i then [] else queue d g)"
      using flush_ok [OF c True t] by blast
    have "queue_law vt (env, Timeout i) (map Freed (queue (Go_sap i) g)) g g'" by (rule law_flush [OF inv g'(2)]) simp
    then show ?thesis using g'(1) Timeout by (simp add: rwm_tx_bufing_timeout_def)
  next
    case False
    then show ?thesis using Timeout law_same_queues [OF inv, of g "(env, Timeout i)" "[]"]
      by (simp add: rwm_tx_bufing_timeout_def rwm_flush_bufing_list_def rwm_get_bufing_chain_def)
  qed
next
  case (Gc_timeout i)
  have t: "timer_ok env" using ok by simp
  have c: "rwm_get_bufing_chain i VIF_STA = Some Gc_sta" by (simp add: rwm_get_bufing_chain_def)
  show ?thesis
  proof (cases "in_range i")
    case True
    obtain g' where g': "rwm_flush_bufing_list env i VIF_STA g = Some (map Freed (queue Gc_sta g), g')" "\<forall>d. queue d g' = (if d = Gc_sta then [] else queue d g)"
      using flush_ok [OF c True t] by blast
    have "queue_law vt (env, Gc_timeout i) (map Freed (queue Gc_sta g)) g g'" by (rule law_flush [OF inv g'(2)]) simp
    then show ?thesis using g'(1) Gc_timeout by (simp add: rwm_gc_tx_bufing_timeout_def)
  next
    case False
    then show ?thesis using Gc_timeout law_same_queues [OF inv, of g "(env, Gc_timeout i)" "[]"]
      by (simp add: rwm_gc_tx_bufing_timeout_def rwm_flush_bufing_list_def rwm_get_bufing_chain_def)
  qed
next
  case (Restore cid)
  then show ?thesis using restore_ok [OF inv, of env cid] by auto
qed


subsection \<open>Runs\<close>

lemma tx_run_ok:
  "tx_inv vt g \<Longrightarrow> \<forall>e \<in> set evs. tx_ok vt e \<Longrightarrow>
     \<exists>outs g'. run_ops tx_step evs g = Some (outs, g') \<and> tx_inv vt g' \<and>
       (\<forall>c. queue c g @ concat (map2 (buffered_by vt c) evs outs) = concat (map (leaving vt c) (concat outs)) @ queue c g')"
proof (induction evs arbitrary: g)
  case (Cons e evs)
  obtain env x where e: "e = (env, x)" by fastforce
  obtain effs g1 where 1: "tx_step e g = Some (effs, g1)" "tx_inv vt g1"
    "\<forall>c. queue c g @ buffered_by vt c e effs = concat (map (leaving vt c) effs) @ queue c g1"
    using tx_step_ok [OF Cons.prems(1), of env x] Cons.prems(2) e by (auto simp: queue_law_def)
  obtain outs g2 where 2: "run_ops tx_step evs g1 = Some (outs, g2)" "tx_inv vt g2"
    "\<forall>c. queue c g1 @ concat (map2 (buffered_by vt c) evs outs) = concat (map (leaving vt c) (concat outs)) @ queue c g2"
    using Cons.IH [OF 1(2)] Cons.prems(2) by auto
  have "queue c g @ concat (map2 (buffered_by vt c) (e # evs) (effs # outs)) =
      concat (map (leaving vt c) (concat (effs # outs))) @ queue c g2" for c
  proof -
    have "queue c g @ concat (map2 (buffered_by vt c) (e # evs) (effs # outs)) =
        (queue c g @ buffered_by vt c e effs) @ concat (map2 (buffered_by vt c) evs outs)" by simp
    also have "\<dots> = concat (map (leaving vt c) effs) @ queue c g1 @ concat (map2 (buffered_by vt c) evs outs)"
      using 1(3) by simp
    also have "\<dots> = concat (map (leaving vt c) effs) @ concat (map (leaving vt c) (concat outs)) @ queue c g2"
      using 2(3) by simp
    finally show ?thesis by simp
  qed
  then show ?case using 1(1) 2(1,2) by (intro exI [of _ "effs # outs"] exI [of _ g2]) simp
qed simp

definition tx_boot :: tx_bufing where
  "tx_boot = \<lparr>tx_bufing_en = False, bufing_go_sap = (\<lambda>_. zero_client), bufing_gc_sta = zero_client, tx_use_low_rate_once = False\<rparr>"

lemma tx_init_queues: "rwm_tx_bufing_init True tx_boot = Some g \<Longrightarrow> queue c g = []"
  by (cases c) (auto simp: rwm_tx_bufing_init_def tx_boot_def zero_client_def)

definition cid_of :: "u8 \<Rightarrow> u8 \<Rightarrow> u32" where
  "cid_of flag i = push_bit 8 (ucast flag) OR ucast i"

lemma cid_decode:
  "ucast (drop_bit 8 (0xFF00 AND cid_of flag i)) = flag" "ucast (0x00FF AND cid_of flag i) = i"
proof -
  have m: "(0xFF00 :: u32) = push_bit 8 (mask 8)" "(0x00FF :: u32) = mask 8" by (simp_all add: mask_eq_exp_minus_1 push_bit_eq_mult)
  show "ucast (drop_bit 8 (0xFF00 AND cid_of flag i)) = flag"
    unfolding m cid_of_def by (rule bit_word_eqI) (auto simp: bit_simps dest: bit_imp_le_length)
  show "ucast (0x00FF AND cid_of flag i) = i"
    unfolding m cid_of_def by (rule bit_word_eqI) (auto simp: bit_simps)
qed

lemma restore_cid:
  assumes "rwm_get_bufing_chain i flag = Some c" "in_range i"
  shows "rwm_tx_bufing_restore_data env (cid_of flag i) g =
    (if \<not> tx_bufing_en g \<or> sta_sleeps env i \<or> cntrl_src (get_client c g) \<noteq> 0 \<or> p2p_absent env i then ([], g)
     else case queue c g of
       [] \<Rightarrow> ([], g)
     | n # ns \<Rightarrow> (Transferred n TXU_CNTRL_MORE_DATA #
         (if ns \<noteq> [] then [Posted (cid_of flag i)] else [Tim_update (sta_mgmt_get_vif_idx env i) (sta_mgmt_get_aid env i) False]),
         set_client c ((get_client c g)\<lparr>bufing_list := ns\<rparr>) g))"
  using assms unfolding rwm_tx_bufing_restore_data_def cid_decode Let_def
  by (auto simp: pop_simp [OF assms] count_simp [OF assms] split: list.split)

text \<open>What the steps of a drain of \<open>ns\<close> do.\<close>

fun drain_effects :: "u32 \<Rightarrow> tx_effect \<Rightarrow> MSDU_NODE_T list \<Rightarrow> tx_effect list list" where
  "drain_effects cid tim [] = []"
| "drain_effects cid tim [n] = [[Transferred n TXU_CNTRL_MORE_DATA, tim]]"
| "drain_effects cid tim (n # ns) = [Transferred n TXU_CNTRL_MORE_DATA, Posted cid] # drain_effects cid tim ns"

lemma drain_ok:
  assumes "rwm_get_bufing_chain i flag = Some c" "in_range i" "\<not> sta_sleeps env i" "\<not> p2p_absent env i"
    "tx_bufing_en g" "cntrl_src (get_client c g) = 0"
  shows "\<exists>g'. run_ops tx_step (replicate (length (queue c g)) (env, Restore (cid_of flag i))) g =
      Some (drain_effects (cid_of flag i) (Tim_update (sta_mgmt_get_vif_idx env i) (sta_mgmt_get_aid env i) False) (queue c g), g') \<and>
    queue c g' = []"
  using assms(5,6)
proof (induction "queue c g" arbitrary: g)
  case Nil
  then show ?case by (metis drain_effects.simps(1) list.size(3) replicate_0 run_ops.simps(1))
next
  case (Cons n ns)
  let ?g = "set_client c ((get_client c g)\<lparr>bufing_list := ns\<rparr>) g"
  obtain g' where IH: "run_ops tx_step (replicate (length ns) (env, Restore (cid_of flag i))) ?g =
      Some (drain_effects (cid_of flag i) (Tim_update (sta_mgmt_get_vif_idx env i) (sta_mgmt_get_aid env i) False) ns, g')"
    "queue c g' = []"
    using Cons.hyps(1) [of ?g] Cons.prems by auto
  have q: "queue c g = n # ns" using Cons.hyps(2) by simp
  then show ?case using IH Cons.prems assms(3,4) by (cases ns) (auto simp: restore_cid [OF assms(1,2)])
qed

lemma stop_posts:
  assumes "rwm_get_bufing_chain i (rwm_get_bufing_role src) = Some c" "in_range i" "timer_ok env"
    and "cntrl_src (get_client c g) = src" "queue c g \<noteq> []"
  shows "rwm_trigger_tx_bufing_stop env src i g = Some ([Posted (cid_of (rwm_get_bufing_role src) i)],
    set_client c ((get_client c g)\<lparr>cntrl_src := 0, tb_timer := False\<rparr>) g)"
proof -
  let ?flag = "rwm_get_bufing_role src"
  have src: "src \<noteq> 0" "?flag \<noteq> VIF_UNKNOWN"
    using assms(1) by (auto simp: rwm_get_bufing_role_def rwm_get_bufing_chain_def TX_BUFING_SRC_P2P_PS_def TX_BUFING_SRC_STA_PS_def
        VIF_STA_def VIF_AP_def VIF_UNKNOWN_def split: if_splits)
  let ?g = "set_client c ((get_client c g)\<lparr>cntrl_src := 0\<rparr>) g"
  have t: "stop_if_running env c ?g = Some (set_client c ((get_client c g)\<lparr>cntrl_src := 0, tb_timer := False\<rparr>) g)"
  proof (cases "tb_timer (get_client c g)")
    case True
    then show ?thesis using assms(3) by (simp add: stop_if_running_def)
  next
    case False
    then have e: "(get_client c g)\<lparr>cntrl_src := 0, tb_timer := False\<rparr> = (get_client c g)\<lparr>cntrl_src := 0\<rparr>" by simp
    show ?thesis unfolding e using False by (simp add: stop_if_running_def)
  qed
  show ?thesis
    using assms src t by (simp add: rwm_trigger_tx_bufing_stop_def Let_def count_simp [OF assms(1,2)] cid_of_def)
qed

subsection \<open>Properties\<close>

text \<open>C4: Whatever the frames, sleep and wake indications, departures, timeouts and messages of a run,
  each queue is first in first out and loses nothing: the frames it took in are, in their order, those
  freed or handed on and then those still in it, and it never holds more than 15.\<close>

theorem tx_queues_are_fifo:
  assumes "rwm_tx_bufing_init True tx_boot = Some g" "\<forall>e \<in> set evs. tx_ok vt e"
  shows "\<exists>outs g'. run_ops tx_step evs g = Some (outs, g') \<and>
    (\<forall>c. concat (map2 (buffered_by vt c) evs outs) = concat (map (leaving vt c) (concat outs)) @ queue c g' \<and>
         length (queue c g') \<le> MAX_TXBUFFER_COUNT)"
proof -
  have q: "queue c g = []" for c by (rule tx_init_queues [OF assms(1)])
  then have "tx_inv vt g" by (simp add: tx_inv_def)
  then show ?thesis using tx_run_ok [OF _ assms(2), of g] q unfolding tx_inv_def by fastforce
qed

text \<open>C29: When the last reason to buffer ends and the peer stays awake, the message that
  \<open>rwm_trigger_tx_bufing_stop\<close> posts, and those that its handling posts, empty the queue: one frame
  per message, in order, each with more-data set, and the map of waiting stations is cleared with the
  last.\<close>

theorem tx_stop_drains_queue:
  assumes "rwm_get_bufing_chain i (rwm_get_bufing_role src) = Some c" "in_range i" "timer_ok env"
    and "\<not> sta_sleeps env i" "\<not> p2p_absent env i" "tx_bufing_en g" "cntrl_src (get_client c g) = src" "queue c g \<noteq> []"
  shows "\<exists>g1 g2. rwm_trigger_tx_bufing_stop env src i g = Some ([Posted (cid_of (rwm_get_bufing_role src) i)], g1) \<and>
    run_ops tx_step (replicate (length (queue c g)) (env, Restore (cid_of (rwm_get_bufing_role src) i))) g1 =
      Some (drain_effects (cid_of (rwm_get_bufing_role src) i)
              (Tim_update (sta_mgmt_get_vif_idx env i) (sta_mgmt_get_aid env i) False) (queue c g), g2) \<and>
    queue c g2 = []"
proof -
  let ?flag = "rwm_get_bufing_role src"
  let ?g1 = "set_client c ((get_client c g)\<lparr>cntrl_src := 0, tb_timer := False\<rparr>) g"
  obtain g2 where "run_ops tx_step (replicate (length (queue c ?g1)) (env, Restore (cid_of ?flag i))) ?g1 =
      Some (drain_effects (cid_of ?flag i) (Tim_update (sta_mgmt_get_vif_idx env i) (sta_mgmt_get_aid env i) False) (queue c ?g1), g2)"
    "queue c g2 = []"
    using drain_ok [OF assms(1,2,4,5), of ?g1] assms(6) by auto
  then show ?thesis using stop_posts [OF assms(1-3,7,8)] by simp
qed

text \<open>If the peer falls asleep again before the message is handled, the message is dropped and
  nothing replaces it: the frames stay in the queue while no timer runs, no reason to buffer is set
  and no message is on its way, and every later frame to the peer overtakes them.\<close>

theorem tx_sleep_strands_queue:
  assumes "rwm_get_bufing_chain i (rwm_get_bufing_role src) = Some c" "in_range i" "timer_ok env"
    and "cntrl_src (get_client c g) = src" "queue c g \<noteq> []" "sta_sleeps env' i"
    and "rwm_get_bufing_chain (sta_idx n) (vif_mgmt_get_type env' (vif_idx n)) = Some c" "\<not> tx_use_low_rate_once g"
  shows "\<exists>g1. rwm_trigger_tx_bufing_stop env src i g = Some ([Posted (cid_of (rwm_get_bufing_role src) i)], g1) \<and>
    rwm_tx_bufing_restore_data env' (cid_of (rwm_get_bufing_role src) i) g1 = ([], g1) \<and>
    queue c g1 = queue c g \<and> \<not> tb_timer (get_client c g1) \<and> cntrl_src (get_client c g1) = 0 \<and>
    rwm_transfer_end env' n g1 = Some ([Transferred n 0], g1)"
proof -
  let ?g1 = "set_client c ((get_client c g)\<lparr>cntrl_src := 0, tb_timer := False\<rparr>) g"
  have low: "\<not> tx_use_low_rate_once ?g1" using assms(8) by (cases c) simp_all
  have ch: "rwm_get_bufing_chain (if flag = VIF_STA then vif_idx n else sta_idx n) flag = Some c"
    if "flag = vif_mgmt_get_type env' (vif_idx n)" for flag
    using assms(7) that by (auto simp: rwm_get_bufing_chain_def split: if_splits)
  have "rwm_check_tx_bufing env' (Some n) ?g1 = Some False"
    using ch [OF refl] by (auto simp: rwm_check_tx_bufing_def Let_def)
  then have "rwm_transfer_end env' n ?g1 = Some ([Transferred n 0], ?g1)" using low by (simp add: rwm_transfer_end_def)
  moreover have "rwm_tx_bufing_restore_data env' (cid_of (rwm_get_bufing_role src) i) ?g1 = ([], ?g1)"
    using assms(6) by (simp add: restore_cid [OF assms(1,2)])
  ultimately show ?thesis using stop_posts [OF assms(1-5)] by (intro exI [of _ ?g1]) simp
qed

text \<open>A frame of a station interface that is to be buffered, but whose station number is not that of
  a client (the interface is joined to no access point), is neither queued nor freed nor handed on:
  its block is lost, and the caller sees success.\<close>

theorem tx_unjoined_frame_leaks:
  assumes "vif_mgmt_get_type env (vif_idx n) = VIF_STA" "in_range (vif_idx n)" "\<not> in_range (sta_idx n)"
    and "tx_bufing_en g" "cntrl_src (bufing_gc_sta g) \<noteq> 0"
  shows "rwm_transfer_end env n g = Some ([], g)"
  using assms by (simp add: rwm_transfer_end_def rwm_check_tx_bufing_def rwm_tx_bufing_save_data_def rwm_get_bufing_chain_def
      Let_def VIF_STA_def VIF_UNKNOWN_def)

subsection \<open>Concrete instances\<close>

text \<open>Interface 0 is a station, interface 1 an access point with the stations 0 and 1.\<close>

definition demo_vif :: "u8 \<Rightarrow> u8" where
  "demo_vif i = (if i = 0 then VIF_STA else VIF_AP)"

definition demo_mac :: "bool \<Rightarrow> mac_env" where
  "demo_mac sleeps = \<lparr>vif_mgmt_get_type = demo_vif, sta_mgmt_get_vif_idx = (\<lambda>_. 1), sta_mgmt_get_aid = (\<lambda>i. i + 1),
     sta_sleeps = (\<lambda>_. sleeps), p2p_absent = (\<lambda>_. False), timer_ok = True\<rparr>"

definition frame :: "nat \<Rightarrow> u8 \<Rightarrow> MSDU_NODE_T" where
  "frame k sta = \<lparr>msdu_blk = k, vif_idx = 1, sta_idx = sta\<rparr>"

definition tx_ready :: tx_bufing where
  "tx_ready = the (rwm_tx_bufing_init True tx_boot)"

lemma tx_ready: "rwm_tx_bufing_init True tx_boot = Some tx_ready"
  by (simp add: tx_ready_def rwm_tx_bufing_init_def)

lemmas tx_consts = MAX_BUFING_CLIENT_NUM_def MAX_TXBUFFER_COUNT_def TX_BUFING_SRC_STA_PS_def TX_BUFING_SRC_P2P_PS_def
  VIF_STA_def VIF_AP_def VIF_UNKNOWN_def TXU_CNTRL_MORE_DATA_def TXU_CNTRL_RETRY_IMMEDIATELY_def

theorem tx_queues_are_fifo_witness:
  "\<exists>outs g'. run_ops tx_step [(demo_mac True, Start TX_BUFING_SRC_STA_PS 1), (demo_mac True, Send (frame 7 1)),
      (demo_mac True, Send (frame 8 1)), (demo_mac False, Stop TX_BUFING_SRC_STA_PS 1), (demo_mac False, Restore 0x201)] tx_ready =
    Some (outs, g') \<and> length (queue (Go_sap 1) g') \<le> 15"
proof -
  let ?evs = "[(demo_mac True, Start TX_BUFING_SRC_STA_PS 1), (demo_mac True, Send (frame 7 1)),
      (demo_mac True, Send (frame 8 1)), (demo_mac False, Stop TX_BUFING_SRC_STA_PS 1), (demo_mac False, Restore 0x201)]"
  have "\<forall>e \<in> set ?evs. tx_ok demo_vif e"
    by (simp add: demo_mac_def demo_vif_def frame_def in_range_def tx_consts)
  then obtain outs g' where r: "run_ops tx_step ?evs tx_ready = Some (outs, g')" "\<forall>c. length (queue c g') \<le> MAX_TXBUFFER_COUNT"
    using tx_queues_are_fifo [OF tx_ready, of ?evs demo_vif] by blast
  have "length (queue (Go_sap 1) g') \<le> 15" using r(2) unfolding MAX_TXBUFFER_COUNT_def by blast
  then show ?thesis using r(1) by blast
qed

definition tx_two_waiting :: tx_bufing where
  "tx_two_waiting = set_client (Go_sap 1) \<lparr>tb_timer = True, cntrl_src = TX_BUFING_SRC_STA_PS, bufing_list = [frame 7 1, frame 8 1]\<rparr> tx_ready"

lemma two_waiting_chain: "rwm_get_bufing_chain 1 (rwm_get_bufing_role TX_BUFING_SRC_STA_PS) = Some (Go_sap 1)"
  by (simp add: rwm_get_bufing_role_def rwm_get_bufing_chain_def tx_consts)

lemma two_waiting_en: "tx_bufing_en tx_two_waiting" "\<not> tx_use_low_rate_once tx_two_waiting"
  by (simp_all add: tx_two_waiting_def tx_ready_def rwm_tx_bufing_init_def tx_boot_def)

theorem tx_stop_drains_queue_witness:
  "\<exists>g1 g2. rwm_trigger_tx_bufing_stop (demo_mac False) TX_BUFING_SRC_STA_PS 1 tx_two_waiting = Some ([Posted 0x201], g1) \<and>
    run_ops tx_step [(demo_mac False, Restore 0x201), (demo_mac False, Restore 0x201)] g1 =
      Some ([[Transferred (frame 7 1) 4, Posted 0x201], [Transferred (frame 8 1) 4, Tim_update 1 2 False]], g2) \<and>
    queue (Go_sap 1) g2 = []"
proof -
  have c: "cid_of (rwm_get_bufing_role TX_BUFING_SRC_STA_PS) 1 = 0x201"
    by (simp add: cid_of_def rwm_get_bufing_role_def tx_consts push_bit_eq_mult)
  have q: "queue (Go_sap 1) tx_two_waiting = [frame 7 1, frame 8 1]" by (simp add: tx_two_waiting_def)
  show ?thesis
    using tx_stop_drains_queue [OF two_waiting_chain, of "demo_mac False" tx_two_waiting] two_waiting_en c q
    by (simp add: demo_mac_def in_range_def tx_consts numeral_2_eq_2 tx_two_waiting_def)
qed

theorem tx_sleep_strands_queue_witness:
  "\<exists>g1. rwm_trigger_tx_bufing_stop (demo_mac False) TX_BUFING_SRC_STA_PS 1 tx_two_waiting = Some ([Posted 0x201], g1) \<and>
    rwm_tx_bufing_restore_data (demo_mac True) 0x201 g1 = ([], g1) \<and> queue (Go_sap 1) g1 = [frame 7 1, frame 8 1] \<and>
    rwm_transfer_end (demo_mac True) (frame 9 1) g1 = Some ([Transferred (frame 9 1) 0], g1)"
proof -
  have c: "cid_of (rwm_get_bufing_role TX_BUFING_SRC_STA_PS) 1 = 0x201"
    by (simp add: cid_of_def rwm_get_bufing_role_def tx_consts push_bit_eq_mult)
  have n: "rwm_get_bufing_chain (sta_idx (frame 9 1)) (vif_mgmt_get_type (demo_mac True) (vif_idx (frame 9 1))) = Some (Go_sap 1)"
    by (simp add: frame_def demo_mac_def demo_vif_def rwm_get_bufing_chain_def tx_consts)
  have q: "cntrl_src (get_client (Go_sap 1) tx_two_waiting) = TX_BUFING_SRC_STA_PS" "queue (Go_sap 1) tx_two_waiting = [frame 7 1, frame 8 1]"
    by (simp_all add: tx_two_waiting_def)
  have e: "in_range 1" "timer_ok (demo_mac False)" "sta_sleeps (demo_mac True) 1" by (simp_all add: demo_mac_def in_range_def tx_consts)
  show ?thesis
    using tx_sleep_strands_queue [OF two_waiting_chain e(1,2) q(1) _ e(3) n two_waiting_en(2)] unfolding c q(2) by blast
qed

theorem tx_unjoined_frame_leaks_witness:
  "rwm_transfer_end (demo_mac False) \<lparr>msdu_blk = 1, vif_idx = 0, sta_idx = 2\<rparr>
     (set_client Gc_sta \<lparr>tb_timer = True, cntrl_src = TX_BUFING_SRC_P2P_PS, bufing_list = []\<rparr> tx_ready) =
   Some ([], set_client Gc_sta \<lparr>tb_timer = True, cntrl_src = TX_BUFING_SRC_P2P_PS, bufing_list = []\<rparr> tx_ready)"
  by (rule tx_unjoined_frame_leaks)
    (simp_all add: demo_mac_def demo_vif_def in_range_def tx_consts tx_ready_def rwm_tx_bufing_init_def)

end
