(* ===== verification/Base64.thy ===== *)
theory Base64
  imports Simulation
begin

text \<open>
  The base 64 coder of \<open>func/base64/base_64.c\<close>.  A source is the list of the bytes that may be read, an
  output the list of the bytes that may be written, \<open>None\<close> for a null pointer; the result \<open>None\<close> is an
  access outside them.  \<open>len\<close> is a C \<open>int\<close>; the loops of the decoder compare it as an unsigned number.
  \<open>mal\<close> says whether the table of the decoder can be allocated.
\<close>

subsection \<open>The alphabet\<close>

definition base_64_table :: "u8 list" where
  "base_64_table = cstr ''ABCDEFGHIJKLMNOPQRSTUVWXYZabcdefghijklmnopqrstuvwxyz0123456789+/''"

definition sextet :: "u8 \<Rightarrow> u8" where
  "sextet v = base_64_table ! unat v"

definition PAD :: u8 where "PAD = 0x3D"
definition NEWLINE :: u8 where "NEWLINE = 0x0A"

text \<open>The decoder's table: 0x80 for a byte that is not of the alphabet, and 0 for the padding.\<close>

definition dtable :: "u8 list" where
  "dtable = (fold (\<lambda>i t. t[unat (base_64_table ! i) := of_nat i]) [0..<64] (replicate 256 0x80))[unat PAD := 0]"

subsection \<open>Encoding\<close>

text \<open>The values of the characters of a block, and of the last characters of one or two bytes.\<close>

definition six0 :: "u8 \<Rightarrow> u8" where "six0 a = drop_bit 2 a"
definition six1 :: "u8 \<Rightarrow> u8 \<Rightarrow> u8" where "six1 a b = push_bit 4 (a AND 0x03) OR drop_bit 4 b"
definition six2 :: "u8 \<Rightarrow> u8 \<Rightarrow> u8" where "six2 b c = push_bit 2 (b AND 0x0f) OR drop_bit 6 c"
definition six3 :: "u8 \<Rightarrow> u8" where "six3 c = c AND 0x3f"
definition six1_end :: "u8 \<Rightarrow> u8" where "six1_end a = push_bit 4 (a AND 0x03)"
definition six2_end :: "u8 \<Rightarrow> u8" where "six2_end b = push_bit 2 (b AND 0x0f)"

definition base64_calc_encode_length :: "u32 \<Rightarrow> u32" where
  "base64_calc_encode_length src_Len =
     (let enc_len = src_Len * 4 div 3 + 4; enc_len = enc_len + enc_len div 72 in enc_len + 1)"

text \<open>The loop over blocks of three bytes; it returns what it wrote, the bytes left and the length of
  the line.\<close>

fun enc_blocks :: "u8 list \<Rightarrow> nat \<Rightarrow> u8 list \<times> u8 list \<times> nat" where
  "enc_blocks (a # b # c # bs) line_len =
     (let cs = [sextet (six0 a), sextet (six1 a b),
                sextet (six2 b c), sextet (six3 c)];
          l = line_len + 4;
          (cs', rest, l') = enc_blocks bs (if 72 \<le> l then 0 else l)
      in (cs @ (if 72 \<le> l then [NEWLINE] else []) @ cs', rest, l'))"
| "enc_blocks bs line_len = ([], bs, line_len)"

text \<open>The end of the text, where \<open>left\<close> is \<open>end - in\<close> after the loop and \<open>inp\<close> what can be read there.\<close>

definition enc_tail :: "int \<Rightarrow> u8 list \<Rightarrow> u8 list option" where
  "enc_tail left inp =
     (if left = 0 then Some []
      else do {
        a \<leftarrow> mem_byte inp 0;
        if left = 1 then Some [sextet (six0 a), sextet (six1_end a), PAD, PAD]
        else do {
          b \<leftarrow> mem_byte inp 1;
          Some [sextet (six0 a), sextet (six1 a b),
                sextet (six2_end b), PAD] } })"

text \<open>The result is the return value, what is written to \<open>*out_len\<close>, and the output.\<close>

definition base64_encode :: "u8 list \<Rightarrow> int \<Rightarrow> u8 list option \<Rightarrow> (u8 \<times> nat option \<times> u8 list option) option" where
  "base64_encode src len out =
     (case out of None \<Rightarrow> Some (0, None, None)
      | Some o_buf \<Rightarrow>
          if length src < nat len then None
          else
            (let (cs, rest, line_len) = enc_blocks (take (nat len) src) 0;
                 left = (if len < 0 then len else int (length rest)) in
             do {
               tl_cs \<leftarrow> enc_tail left (if len < 0 then src else rest);
               let l = line_len + length tl_cs;
               let text = cs @ tl_cs @ (if l \<noteq> 0 then [NEWLINE] else []);
               o' \<leftarrow> mem_store o_buf 0 (text @ [0]);
               Some (1, Some (length text), Some o') }))"

subsection \<open>Decoding\<close>

definition valid :: "u8 \<Rightarrow> bool" where
  "valid c \<longleftrightarrow> dtable ! unat c \<noteq> 0x80"

definition base64_calc_decode_length :: "bool \<Rightarrow> u8 list \<Rightarrow> u32 \<Rightarrow> u32 option" where
  "base64_calc_decode_length mal src src_Len =
     (if \<not> mal then Some 0
      else if length src < unat src_Len then None
      else (let dec_len = length (filter valid (take (unat src_Len) src)) in
            Some (if dec_len mod 4 \<noteq> 0 then 0 else of_nat dec_len)))"

text \<open>The loop over the source: the number of characters gathered, the arrays \<open>in\<close> and \<open>block\<close>, and what
  it wrote.\<close>

definition oct0 :: "u8 \<Rightarrow> u8 \<Rightarrow> u8" where "oct0 v0 v1 = push_bit 2 v0 OR drop_bit 4 v1"
definition oct1 :: "u8 \<Rightarrow> u8 \<Rightarrow> u8" where "oct1 v1 v2 = push_bit 4 v1 OR drop_bit 2 v2"
definition oct2 :: "u8 \<Rightarrow> u8 \<Rightarrow> u8" where "oct2 v2 v3 = push_bit 6 v2 OR v3"

record dec_st =
  count :: nat
  inn :: "u8 list"
  block :: "u8 list"
  pos :: "u8 list"

definition dec_step :: "u8 \<Rightarrow> dec_st \<Rightarrow> dec_st" where
  "dec_step c s =
     (let tmp = dtable ! unat c in
      if tmp = 0x80 then s
      else
        (let s1 = s\<lparr>inn := (inn s)[count s := c], block := (block s)[count s := tmp], count := count s + 1\<rparr> in
         if count s1 = 4
         then s1\<lparr>pos := pos s1 @ [oct0 (block s1 ! 0) (block s1 ! 1), oct1 (block s1 ! 1) (block s1 ! 2),
                                  oct2 (block s1 ! 2) (block s1 ! 3)], count := 0\<rparr>
         else s1))"

text \<open>The arrays start with unknown bytes \<open>junk\<close>.  The second output of a call that returns 0 is
  \<open>*out_len\<close> too, unless the number of characters is refused.\<close>

definition base64_decode :: "bool \<Rightarrow> u8 list \<Rightarrow> u8 list \<Rightarrow> int \<Rightarrow> u8 list option \<Rightarrow> (u8 \<times> nat option \<times> u8 list option) option" where
  "base64_decode mal junk src len out =
     (if \<not> mal then Some (0, Some 0, out)
      else
        (let n = unat (of_int len :: u32) in
         if length src < n then None
         else
           (let cnt = length (filter valid (take n src)) in
            if cnt mod 4 \<noteq> 0 then Some (0, None, out)
            else
              (case out of
                 None \<Rightarrow> Some (0, Some (unat (of_nat cnt * 3 div 4 :: u32)), None)
               | Some o_buf \<Rightarrow>
                   (let s = fold dec_step (take n src) \<lparr>count = 0, inn = junk, block = junk, pos = []\<rparr>;
                        p = length (pos s);
                        p' = (if 0 < p then (if inn s ! 2 = PAD then p - 2 else if inn s ! 3 = PAD then p - 1 else p) else p) in
                    map_option (\<lambda>o'. (1, Some p', Some o')) (mem_store o_buf 0 (pos s)))))))"

subsection \<open>The alphabet and the table\<close>

lemma length_table [simp]: "length base_64_table = 64"
  by (simp add: base_64_table_def cstr_def)


lemma dtable_code:
  "dtable =
     replicate 43 0x80 @ [62, 128, 128, 128, 63, 52, 53, 54, 55, 56, 57, 58, 59, 60, 61, 128, 128, 128, 0, 128,
     128, 128, 0, 1, 2, 3, 4, 5, 6, 7, 8, 9, 10, 11, 12, 13, 14, 15, 16, 17, 18, 19, 20, 21, 22, 23, 24, 25, 128,
     128, 128, 128, 128, 128, 26, 27, 28, 29, 30, 31, 32, 33, 34, 35, 36, 37, 38, 39, 40, 41, 42, 43, 44, 45, 46,
     47, 48, 49, 50, 51] @ replicate 133 0x80"
  by code_simp

lemma table_code:
  "list_all2 (\<lambda>c v. dtable ! unat c = v \<and> c \<noteq> PAD) base_64_table (map of_nat [0..<64])"
  unfolding dtable_code by code_simp

lemma table_special: "dtable ! unat NEWLINE = 0x80" "dtable ! unat PAD = 0"
  unfolding dtable_code by code_simp+

lemma sextet_inverse:
  assumes "unat v < 64"
  shows "dtable ! unat (sextet v) = v" "sextet v \<noteq> PAD" "valid (sextet v)"
proof -
  have i: "dtable ! unat (base_64_table ! unat v) = of_nat (unat v) \<and> base_64_table ! unat v \<noteq> PAD"
    using list_all2_nthD [OF table_code, of "unat v"] assms by simp
  then show "dtable ! unat (sextet v) = v" "sextet v \<noteq> PAD" by (simp_all add: sextet_def)
  then show "valid (sextet v)" using assms by (auto simp: valid_def)
qed

lemma valid_special [simp]: "valid PAD" "\<not> valid NEWLINE"
  by (simp_all add: valid_def table_special)

subsection \<open>Six bits\<close>

lemma u8_masks: "(0x03 :: u8) = mask 2" "(0x0f :: u8) = mask 4" "(0x3f :: u8) = mask 6"
  by (simp_all add: mask_eq_exp_minus_1)

lemma below_8: "n < 8 \<Longrightarrow> n = 0 \<or> n = 1 \<or> n = 2 \<or> n = 3 \<or> n = 4 \<or> n = 5 \<or> n = 6 \<or> n = (7 :: nat)"
  by arith

lemma u8_eqI:
  assumes "bit (a :: u8) 0 = bit b 0" "bit a 1 = bit b 1" "bit a 2 = bit b 2" "bit a 3 = bit b 3" "bit a 4 = bit b 4"
    "bit a 5 = bit b 5" "bit a 6 = bit b 6" "bit a 7 = bit b 7"
  shows "a = b"
proof (rule bit_word_eqI)
  fix n assume "n < LENGTH(8)"
  then have "n = 0 \<or> n = 1 \<or> n = 2 \<or> n = 3 \<or> n = 4 \<or> n = 5 \<or> n = 6 \<or> n = 7" by (intro below_8) simp
  then show "bit a n = bit b n" using assms by (elim disjE) simp_all
qed

lemma six_bits:
  assumes "\<not> bit (v :: u8) 6" "\<not> bit v 7"
  shows "unat v < 64"
proof -
  have "take_bit 6 v = v" by (rule u8_eqI) (simp_all add: bit_take_bit_iff assms)
  then have "unat v = take_bit 6 (unat v)" by (metis unsigned_take_bit_eq)
  then show ?thesis using take_bit_nat_less_exp [of 6 "unat v"] by simp
qed

lemma bit_high [simp]: "8 \<le> n \<Longrightarrow> \<not> bit (a :: u8) n"
  by (auto dest: bit_imp_le_length)

lemma small_sextet [simp]:
  "unat (six0 a) < 64" "unat (six1 a b) < 64" "unat (six2 b c) < 64" "unat (six3 c) < 64" "unat (six1_end a) < 64"
  "unat (six2_end b) < 64"
  unfolding u8_masks six0_def six1_def six2_def six3_def six1_end_def six2_end_def by (intro six_bits; simp add: bit_simps)+

lemma sextets_back [simp]:
  "oct0 (six0 a) (six1 a b) = a" "oct0 (six0 a) (six1_end a) = a"
  "oct1 (six1 a b) (six2 b c) = b" "oct1 (six1 a b) (six2_end b) = b" "oct2 (six2 b c) (six3 c) = c"
  unfolding u8_masks six0_def six1_def six2_def six3_def six1_end_def six2_end_def oct0_def oct1_def oct2_def
  by (rule u8_eqI; simp add: bit_simps)+

subsection \<open>The characters of a text\<close>

text \<open>The text without its line feeds.\<close>

fun groups :: "u8 list \<Rightarrow> u8 list" where
  "groups (a # b # c # bs) =
     [sextet (six0 a), sextet (six1 a b),
      sextet (six2 b c), sextet (six3 c)] @ groups bs"
| "groups [a, b] =
     [sextet (six0 a), sextet (six1 a b), sextet (six2_end b), PAD]"
| "groups [a] = [sextet (six0 a), sextet (six1_end a), PAD, PAD]"
| "groups [] = []"

lemma length_groups: "length (groups bs) = 4 * ((length bs + 2) div 3)"
proof (induction bs rule: groups.induct)
  case (1 a b c bs)
  have "(length (a # b # c # bs) + 2) div 3 = ((length bs + 2) + 3) div 3" by (simp add: ac_simps)
  also have "\<dots> = (length bs + 2) div 3 + 1" by (rule div_add_self2) simp
  finally show ?case using 1 by simp
qed simp_all

lemma groups_valid: "filter valid (groups bs) = groups bs"
  by (induction bs rule: groups.induct) (simp_all add: sextet_inverse(3))

lemma enc_blocks_groups:
  assumes "enc_blocks bs l = (cs, rest, l')"
  shows "length rest < 3" "filter valid cs @ groups rest = groups bs"
  using assms
  by (induction bs l arbitrary: cs rest l' rule: enc_blocks.induct)
    (auto simp: Let_def sextet_inverse(3) split: prod.splits if_splits)

lemma enc_tail_groups:
  "length rest < 3 \<Longrightarrow> enc_tail (int (length rest)) rest = Some (groups rest)"
  by (cases rest rule: groups.cases) (auto simp: enc_tail_def mem_byte_def)

text \<open>The line feeds: one after every 72 characters and one at the end.\<close>


text \<open>The line feeds: one after every 72 characters and one at the end.\<close>

lemma enc_blocks_length:
  assumes "enc_blocks bs l = (cs, rest, l')" "l < 72" "4 dvd l"
  shows "l' < 72 \<and> 4 dvd l' \<and> length (filter valid cs) \<le> length cs \<and>
    72 * (length cs - length (filter valid cs)) + l' = l + length (filter valid cs)"
  using assms
proof (induction bs l arbitrary: cs rest l' rule: enc_blocks.induct)
  case (1 a b c bs l)
  let ?l = "if 72 \<le> l + 4 then 0 else l + 4"
  obtain cs1 rest1 l1 where r: "enc_blocks bs ?l = (cs1, rest1, l1)" by (metis prod_cases3)
  have l: "?l < 72" "4 dvd ?l" using "1.prems" by auto
  have l68: "72 \<le> l + 4 \<longleftrightarrow> l = 68" using "1.prems" by (auto elim!: dvdE)
  have IH: "l1 < 72 \<and> 4 dvd l1 \<and> length (filter valid cs1) \<le> length cs1 \<and>
      72 * (length cs1 - length (filter valid cs1)) + l1 = ?l + length (filter valid cs1)"
    by (rule "1.IH" [OF refl refl r l])
  have "cs = [sextet (six0 a), sextet (six1 a b), sextet (six2 b c), sextet (six3 c)] @ (if 72 \<le> l + 4 then [NEWLINE] else []) @ cs1"
    "l' = l1" using "1.prems"(1) r by (auto simp: Let_def)
  moreover obtain k where k: "length cs1 = length (filter valid cs1) + k" using IH le_Suc_ex by blast
  moreover have "72 * k + l1 = ?l + length (filter valid cs1)" using IH unfolding k by simp
  ultimately show ?case using IH l68 by (simp add: sextet_inverse(3) split: if_splits)
qed auto

lemma enc_tail_length:
  "length rest < 3 \<Longrightarrow> length (groups rest) = (if rest = [] then 0 else 4)"
  by (cases rest rule: groups.cases) auto

subsection \<open>Decoding a text\<close>

lemma dec_step_invalid: "\<not> valid c \<Longrightarrow> dec_step c s = s"
  by (simp add: dec_step_def valid_def)

lemma fold_dec_filter: "fold dec_step cs s = fold dec_step (filter valid cs) s"
  by (induction cs arbitrary: s) (auto simp: dec_step_invalid)

lemma dec_step_more:
  "valid c \<Longrightarrow> count s < 3 \<Longrightarrow>
     dec_step c s = s\<lparr>inn := (inn s)[count s := c], block := (block s)[count s := dtable ! unat c], count := count s + 1\<rparr>"
  by (simp add: dec_step_def valid_def Let_def)

lemma dec_step_last:
  "valid c \<Longrightarrow> dec_step c \<lparr>count = 3, inn = [c0, c1, c2, i], block = [v0, v1, v2, v], pos = p\<rparr> =
     \<lparr>count = 0, inn = [c0, c1, c2, c], block = [v0, v1, v2, dtable ! unat c],
      pos = p @ [oct0 v0 v1, oct1 v1 v2, oct2 v2 (dtable ! unat c)]\<rparr>"
  by (simp add: dec_step_def valid_def Let_def numeral_eq_Suc)

lemma dec_four:
  assumes "length (inn s) = 4" "length (block s) = 4" "count s = 0" "valid c0" "valid c1" "valid c2" "valid c3"
  shows "fold dec_step [c0, c1, c2, c3] s =
    \<lparr>count = 0, inn = [c0, c1, c2, c3], block = map (\<lambda>c. dtable ! unat c) [c0, c1, c2, c3],
     pos = pos s @ [oct0 (dtable ! unat c0) (dtable ! unat c1), oct1 (dtable ! unat c1) (dtable ! unat c2),
                    oct2 (dtable ! unat c2) (dtable ! unat c3)]\<rparr>"
proof -
  obtain i0 i1 i2 i3 where i: "inn s = [i0, i1, i2, i3]" using assms(1) by (auto simp: numeral_eq_Suc length_Suc_conv)
  obtain b0 b1 b2 b3 where b: "block s = [b0, b1, b2, b3]" using assms(2) by (auto simp: numeral_eq_Suc length_Suc_conv)
  define p where "p = pos s"
  have s: "s = \<lparr>count = 0, inn = [i0, i1, i2, i3], block = [b0, b1, b2, b3], pos = p\<rparr>" using i b assms(3) p_def by simp
  have 1: "dec_step c0 s = \<lparr>count = 1, inn = [c0, i1, i2, i3], block = [dtable ! unat c0, b1, b2, b3], pos = p\<rparr>"
    unfolding s by (subst dec_step_more) (simp_all add: assms(4))
  have 2: "dec_step c1 (dec_step c0 s) =
      \<lparr>count = 2, inn = [c0, c1, i2, i3], block = [dtable ! unat c0, dtable ! unat c1, b2, b3], pos = p\<rparr>"
    unfolding 1 by (subst dec_step_more) (simp_all add: assms(5))
  have 3: "dec_step c2 (dec_step c1 (dec_step c0 s)) =
      \<lparr>count = 3, inn = [c0, c1, c2, i3], block = [dtable ! unat c0, dtable ! unat c1, dtable ! unat c2, b3], pos = p\<rparr>"
    unfolding 2 by (subst dec_step_more) (simp_all add: assms(6) numeral_eq_Suc)
  show ?thesis unfolding fold_simps 3 dec_step_last [OF assms(7)] p_def by simp
qed

text \<open>What decoding a whole text leaves: its bytes, filled up to a multiple of three, and the last four
  characters.\<close>

lemma fold_dec_groups:
  assumes "length (inn s) = 4" "length (block s) = 4" "count s = 0"
  shows "\<exists>fill s'. fold dec_step (groups bs) s = s' \<and> pos s' = pos s @ bs @ fill \<and>
    (bs \<noteq> [] \<longrightarrow> length fill = (if inn s' ! 2 = PAD then 2 else if inn s' ! 3 = PAD then 1 else 0)) \<and> (bs = [] \<longrightarrow> fill = [])"
  using assms
proof (induction bs arbitrary: s rule: groups.induct)
  case (1 a b c bs)
  let ?s = "fold dec_step [sextet (six0 a), sextet (six1 a b), sextet (six2 b c), sextet (six3 c)] s"
  have s: "?s = \<lparr>count = 0, inn = [sextet (six0 a), sextet (six1 a b), sextet (six2 b c), sextet (six3 c)],
      block = [six0 a, six1 a b, six2 b c, six3 c], pos = pos s @ [a, b, c]\<rparr>"
    by (subst dec_four [OF "1.prems"]) (simp_all add: sextet_inverse)
  obtain fill s' where IH: "fold dec_step (groups bs) ?s = s'" "pos s' = pos ?s @ bs @ fill"
    "bs \<noteq> [] \<longrightarrow> length fill = (if inn s' ! 2 = PAD then 2 else if inn s' ! 3 = PAD then 1 else 0)" "bs = [] \<longrightarrow> fill = []"
    using "1.IH" [of ?s] unfolding s by auto
  have "fold dec_step (groups (a # b # c # bs)) s = s'" by (simp only: groups.simps fold_append comp_apply IH(1))
  moreover have "length fill = (if inn s' ! 2 = PAD then 2 else if inn s' ! 3 = PAD then 1 else 0)"
  proof (cases "bs = []")
    case True
    then have "s' = ?s" "fill = []" using IH(1,4) by auto
    moreover have "sextet (six2 b c) \<noteq> PAD" "sextet (six3 c) \<noteq> PAD" by (simp_all add: sextet_inverse(2))
    ultimately show ?thesis unfolding s by (simp add: numeral_eq_Suc)
  next
    case False
    then show ?thesis using IH(3) by blast
  qed
  ultimately show ?case using IH(2) unfolding s by auto
next
  case (2 a b)
  have "fold dec_step (groups [a, b]) s = \<lparr>count = 0, inn = [sextet (six0 a), sextet (six1 a b), sextet (six2_end b), PAD],
      block = [six0 a, six1 a b, six2_end b, 0], pos = pos s @ [a, b, oct2 (six2_end b) 0]\<rparr>"
    unfolding groups.simps by (subst dec_four [OF "2.prems"]) (simp_all add: sextet_inverse table_special)
  moreover have "sextet (six2_end b) \<noteq> PAD" by (simp add: sextet_inverse(2))
  ultimately show ?case by (auto simp: numeral_eq_Suc)
next
  case (3 a)
  have "fold dec_step (groups [a]) s = \<lparr>count = 0, inn = [sextet (six0 a), sextet (six1_end a), PAD, PAD],
      block = [six0 a, six1_end a, 0, 0], pos = pos s @ [a, oct1 (six1_end a) 0, oct2 0 0]\<rparr>"
    unfolding groups.simps by (subst dec_four [OF "3.prems"]) (simp_all add: sextet_inverse table_special)
  then show ?case by (auto simp: numeral_eq_Suc)
next
  case 4
  then show ?case by simp
qed


subsection \<open>Whole texts\<close>

definition chars :: "nat \<Rightarrow> nat" where "chars n = 4 * ((n + 2) div 3)"
definition feeds :: "nat \<Rightarrow> nat" where "feeds n = (chars n + 71) div 72"

lemma encode_text:
  assumes "length src = n" "chars n + feeds n + 1 \<le> length out"
  shows "\<exists>ts. base64_encode src (int n) (Some out) = Some (1, Some (length ts), Some (ts @ [0] @ drop (length ts + 1) out)) \<and>
    filter valid ts = groups src \<and> length ts = chars n + feeds n"
proof -
  obtain cs rest l where e: "enc_blocks src 0 = (cs, rest, l)" by (metis prod_cases3)
  note g = enc_blocks_groups [OF e]
  have L: "l < 72 \<and> 4 dvd l \<and> length (filter valid cs) \<le> length cs \<and>
      72 * (length cs - length (filter valid cs)) + l = length (filter valid cs)"
    using enc_blocks_length [OF e] by simp
  have t: "enc_tail (int (length rest)) rest = Some (groups rest)" by (rule enc_tail_groups [OF g(1)])
  have lr: "length (groups rest) = (if rest = [] then 0 else 4)" by (rule enc_tail_length [OF g(1)])
  define ts where "ts = cs @ groups rest @ (if l + length (groups rest) \<noteq> 0 then [NEWLINE] else [])"
  have v: "filter valid ts = groups src" using g(2) by (simp add: ts_def groups_valid)
  have c: "length (filter valid cs) + length (groups rest) = chars n"
    using arg_cong [OF g(2), of length] assms(1) by (simp add: chars_def length_groups)
  obtain k where k: "length cs = length (filter valid cs) + k" using L le_Suc_ex by blast
  have k72: "72 * k + l = length (filter valid cs)" using L k by simp
  have "feeds n = k + (if l + length (groups rest) \<noteq> 0 then 1 else 0)"
  proof -
    have "chars n + 71 = 72 * k + (l + length (groups rest) + 71)" using c k72 by simp
    then have "feeds n = k + (l + length (groups rest) + 71) div 72" unfolding feeds_def by simp
    moreover have "l + length (groups rest) \<le> 72" using L lr by (auto elim!: dvdE)
    moreover have "(m + 71) div 72 = (if m \<noteq> 0 then 1 else 0)" if "m \<le> 72" for m :: nat
      using that by (auto intro: div_nat_eqI)
    ultimately show ?thesis by presburger
  qed
  then have len: "length ts = chars n + feeds n" using c k by (cases "groups rest = []") (simp_all add: ts_def)
  have "length (ts @ [0]) \<le> length out" using assms(2) len by simp
  then have "mem_store out 0 (ts @ [0]) = Some (ts @ [0] @ drop (length ts + 1) out)" by simp
  then have "base64_encode src (int n) (Some out) = Some (1, Some (length ts), Some (ts @ [0] @ drop (length ts + 1) out))"
    using e t assms(1) by (simp add: base64_encode_def Let_def ts_def)
  then show ?thesis using v len by blast
qed

lemma unat_small_mult: "unat (a :: u32) * unat b < 2 ^ 32 \<Longrightarrow> unat (a * b) = unat a * unat b"
  by (simp add: unat_word_ariths(2))

lemma unat_small_add: "unat (a :: u32) + unat b < 2 ^ 32 \<Longrightarrow> unat (a + b) = unat a + unat b"
  by (simp add: unat_word_ariths(1))

lemma calc_length:
  assumes "n < 2 ^ 30"
  shows "unat (base64_calc_encode_length (of_nat n)) = n * 4 div 3 + 4 + (n * 4 div 3 + 4) div 72 + 1"
proof -
  define w where "w = (of_nat n :: u32)"
  define q where "q = n * 4 div 3"
  have n: "unat w = n" unfolding w_def using assms by (simp add: unat_of_nat take_bit_nat_eq_self)
  have q: "q < 2 ^ 31" unfolding q_def using assms by simp
  have "unat (w * 4) = n * 4" using unat_small_mult [of w 4] assms n by simp
  then have "unat (w * 4 div 3) = q" by (simp add: unat_div q_def)
  then have b: "unat (w * 4 div 3 + 4) = q + 4" using unat_small_add [of "w * 4 div 3" 4] q by simp
  then have d: "unat ((w * 4 div 3 + 4) div 72) = (q + 4) div 72" by (simp add: unat_div)
  have l: "(q + 4) div 72 < 2 ^ 30" using q by (simp add: less_mult_imp_div_less)
  have "unat (w * 4 div 3 + 4 + (w * 4 div 3 + 4) div 72) = q + 4 + (q + 4) div 72"
    using unat_small_add [of "w * 4 div 3 + 4" "(w * 4 div 3 + 4) div 72"] b d q l by simp
  then show ?thesis
    unfolding base64_calc_encode_length_def Let_def w_def [symmetric] q_def [symmetric]
    using unat_small_add [of "w * 4 div 3 + 4 + (w * 4 div 3 + 4) div 72" 1] q l by simp
qed

lemma calc_suffices: "chars n + feeds n + 1 \<le> n * 4 div 3 + 4 + (n * 4 div 3 + 4) div 72 + 1"
proof -
  define k where "k = n div 3"
  define r where "r = n mod 3"
  have n: "n = 3 * k + r" "r < 3" by (simp_all add: k_def r_def)
  have "chars n < n * 4 div 3 + 4"
  proof -
    have "r = 0 \<or> r = 1 \<or> r = 2" using n(2) by linarith
    then have "4 * ((3 * k + r + 2) div 3) < (3 * k + r) * 4 div 3 + 4" by (elim disjE) simp_all
    then show ?thesis unfolding chars_def n(1) [symmetric] .
  qed
  then have "feeds n \<le> ((n * 4 div 3 + 4) + 72) div 72" unfolding feeds_def by (intro div_le_mono) simp
  then show ?thesis using \<open>chars n < n * 4 div 3 + 4\<close> by simp
qed


lemma decode_text:
  assumes "filter valid ts = groups src" "length ts < 2 ^ 31" "ts = take (length ts) inp" "length junk = 4"
    and "3 * ((length src + 2) div 3) \<le> length out"
  shows "\<exists>o'. base64_decode True junk inp (int (length ts)) (Some out) = Some (1, Some (length src), Some o') \<and>
    take (length src) o' = src"
proof -
  define s0 where "s0 = \<lparr>count = 0, inn = junk, block = junk, pos = []\<rparr>"
  have u: "unat (of_int (int (length ts)) :: u32) = length ts" using assms(2) by (simp add: unat_of_nat take_bit_nat_eq_self)
  have li: "length ts \<le> length inp" using assms(3) by (metis length_take min.cobounded1)
  have cnt: "length (filter valid (take (length ts) inp)) = 4 * ((length src + 2) div 3)"
    unfolding assms(3) [symmetric] assms(1) length_groups by simp
  have s0: "length (inn s0) = 4" "length (block s0) = 4" "count s0 = 0" "pos s0 = []" using assms(4) by (simp_all add: s0_def)
  obtain fill s' where s': "fold dec_step (groups src) s0 = s'" "pos s' = src @ fill"
    "src \<noteq> [] \<longrightarrow> length fill = (if inn s' ! 2 = PAD then 2 else if inn s' ! 3 = PAD then 1 else 0)" "src = [] \<longrightarrow> fill = []"
    using fold_dec_groups [OF s0(1-3), of src] s0(4) by auto
  have f: "fold dec_step (take (length ts) inp) s0 = s'"
    unfolding assms(3) [symmetric] using fold_dec_filter [of ts s0] assms(1) s'(1) by simp
  have "length (pos s') = 3 * ((length src + 2) div 3)"
  proof -
    have p: "length (pos (fold dec_step (groups bs) s)) = length (pos s) + 3 * ((length bs + 2) div 3)"
      if "length (inn s) = 4" "length (block s) = 4" "count s = 0" for bs s
      using that
    proof (induction bs arbitrary: s rule: groups.induct)
      case (1 a b c bs)
      have d: "(length (a # b # c # bs) + 2) div 3 = (length bs + 2) div 3 + 1"
        using div_add_self2 [of 3 "length bs + 2"] by (simp add: ac_simps)
      show ?case
        unfolding d groups.simps fold_append comp_apply
        by (subst "1.IH") (simp_all only: dec_four [OF "1.prems"] sextet_inverse(3) small_sextet, simp_all)
    next
      case (2 a b)
      show ?case unfolding groups.simps by (subst dec_four [OF "2.prems"]) (simp_all add: sextet_inverse(3))
    next
      case (3 a)
      show ?case unfolding groups.simps by (subst dec_four [OF "3.prems"]) (simp_all add: sextet_inverse(3))
    qed simp
    show ?thesis using p [OF s0(1-3), of src] s'(1) s0(4) by simp
  qed
  then have "mem_store out 0 (pos s') = Some (pos s' @ drop (length (pos s')) out)" using assms(5) by simp
  then have "base64_decode True junk inp (int (length ts)) (Some out) = Some (1, Some (length src), Some (pos s' @ drop (length (pos s')) out))"
    unfolding base64_decode_def Let_def u using li cnt s'(2-4) s0_def f by (cases "src = []") auto
  then show ?thesis using s'(2) by auto
qed

subsection \<open>Properties\<close>

text \<open>C18: Decoding inverts encoding: the text of any bytes, line feeds and padding included, is decoded to
  these bytes and their number, when the encoder's output has the size that
  \<open>base64_calc_encode_length\<close> asks for and the decoder's has room for whole blocks of three.\<close>

theorem base64_roundtrip:
  assumes "length src < 2 ^ 29" "unat (base64_calc_encode_length (of_nat (length src))) \<le> length out"
    and "3 * ((length src + 2) div 3) \<le> length out2" "length junk = 4"
  shows "\<exists>m out1 out3. base64_encode src (int (length src)) (Some out) = Some (1, Some m, Some out1) \<and>
    base64_decode True junk out1 (int m) (Some out2) = Some (1, Some (length src), Some out3) \<and>
    take (length src) out3 = src"
proof -
  let ?n = "length src"
  have room: "chars ?n + feeds ?n + 1 \<le> length out"
    using calc_length [of ?n] calc_suffices [of ?n] assms(1,2) by simp
  obtain ts where ts: "base64_encode src (int ?n) (Some out) = Some (1, Some (length ts), Some (ts @ [0] @ drop (length ts + 1) out))"
    "filter valid ts = groups src" "length ts = chars ?n + feeds ?n"
    using encode_text [OF refl room] by blast
  have "chars ?n + feeds ?n < 2 ^ 31"
  proof -
    have "n * 4 div 3 + 4 + (n * 4 div 3 + 4) div 72 + 1 \<le> 2 ^ 31" if "n < 2 ^ 29" for n :: nat
      using that div_le_dividend [of "n * 4 div 3 + 4" 72] by simp
    then show ?thesis using calc_suffices [of ?n] assms(1) by fastforce
  qed
  then show ?thesis using decode_text [OF ts(2), of "ts @ [0] @ drop (length ts + 1) out" junk out2] ts(1,3) assms(3,4) by auto
qed

text \<open>The size that \<open>base64_calc_encode_length\<close> asks for is enough for every source below a gigabyte:
  the encoder writes four characters for three bytes, a line feed after every 72 characters and at the
  end, and the terminator, all inside a buffer of this size.\<close>

theorem base64_encode_fits:
  assumes "length src < 2 ^ 30" "length out = unat (base64_calc_encode_length (of_nat (length src)))"
  shows "\<exists>m out1. base64_encode src (int (length src)) (Some out) = Some (1, Some m, Some out1) \<and>
    m = 4 * ((length src + 2) div 3) + (4 * ((length src + 2) div 3) + 71) div 72 \<and> m < length out \<and> out1 ! m = 0"
proof -
  let ?n = "length src"
  have room: "chars ?n + feeds ?n + 1 \<le> length out"
    using calc_length [of ?n] calc_suffices [of ?n] assms by simp
  show ?thesis using encode_text [OF refl room] room by (auto simp: chars_def feeds_def nth_append)
qed

text \<open>For a source of a gigabyte the same function asks for five bytes, because its product wraps.\<close>

theorem base64_calc_wraps:
  "base64_calc_encode_length (of_nat (2 ^ 30)) = 5"
  by (simp add: base64_calc_encode_length_def)

subsection \<open>Concrete instances\<close>

lemma base64_roundtrip_witness:
  "\<exists>m out1 out3. base64_encode [1, 2, 255, 0] 4 (Some (replicate 20 7)) = Some (1, Some m, Some out1) \<and>
    base64_decode True [9, 9, 9, 9] out1 (int m) (Some (replicate 6 7)) = Some (1, Some 4, Some out3) \<and>
    take 4 out3 = [1, 2, 255, 0]"
proof -
  have l: "length ([1, 2, 255, 0] :: u8 list) = 4" by simp
  have "unat (base64_calc_encode_length (of_nat 4)) \<le> length (replicate 20 (7 :: u8))"
    by (simp add: base64_calc_encode_length_def)
  then show ?thesis
    using base64_roundtrip [of "[1, 2, 255, 0]" "replicate 20 7" "replicate 6 7" "[9, 9, 9, 9]", unfolded l] by (simp only: of_nat_numeral) simp
qed

lemma base64_encode_fits_witness:
  "\<exists>out1. base64_encode [77] 1 (Some (replicate 6 7)) = Some (1, Some 5, Some out1) \<and> out1 ! 5 = 0"
  using base64_encode_fits [of "[77]" "replicate 6 7"] by (simp add: base64_calc_encode_length_def)

end
