(* ===== verification/ConvUtf8.thy ===== *)
theory ConvUtf8
  imports Prelude "HOL-Library.Monad_Syntax"
begin

text \<open>
  Conversion between GB2312 and UTF-8 (\<open>func/utf8/conv_utf8.c\<close>).

  The two tables of \<open>conv_utf8_gb2312_table.h\<close>, 6763 rows of literal data each, are arguments:
  \<open>t_gb2312_utf8\<close> is a list of rows of three bytes and \<open>unicode_to_gb2312\<close> a list of pairs; what a
  property needs of them (that the second is sorted, that the two agree on the characters of the text)
  is a hypothesis.  A string is the list of its bytes without the terminator; the buffer that
  \<open>Utf8ToGb2312\<close> rewrites is the whole list of its bytes.  \<open>None\<close> is an access outside a table or a
  buffer; the argument \<open>mal\<close> says whether \<open>os_malloc\<close> succeeds.
\<close>

type_synonym gb_table = "(u8 \<times> u8 \<times> u8) list"
type_synonym code_table = "(u16 \<times> u16) list"

subsection \<open>From GB2312\<close>

definition gb_index :: "u8 \<Rightarrow> u8 \<Rightarrow> u16" where
  "gb_index hi_bits low_bit =
     (let gb_code = push_bit 8 (ucast hi_bits) + ucast low_bit;
          dist_cnt = ucast hi_bits - 0xB0;
          dist_cnt = dist_cnt * (0xA1 + 0x01)
      in gb_code - 0xB0A1 - dist_cnt)"

text \<open>The outer option is a read outside the table; the inner one the return value 0.\<close>

definition conv_utf8_for_gb2312 :: "gb_table \<Rightarrow> u8 \<Rightarrow> u8 \<Rightarrow> u8 list option option" where
  "conv_utf8_for_gb2312 tbl hi_bits low_bit =
     (if hi_bits < 0xB0 \<or> 0xF7 < hi_bits then Some None
      else if low_bit < 0xA1 \<or> 0xFE < low_bit then Some None
      else (let gb_code = unat (gb_index hi_bits low_bit) in
            if gb_code < length tbl
            then (case tbl ! gb_code of (a, b, c) \<Rightarrow> Some (Some [a, b, c]))
            else None))"

text \<open>The loop of \<open>conv_utf8\<close> on a buffer of \<open>len\<close> bytes of which \<open>out\<close> are written.\<close>

fun conv_loop :: "gb_table \<Rightarrow> nat \<Rightarrow> u8 list \<Rightarrow> u8 list \<Rightarrow> u8 list option" where
  "conv_loop tbl len [] out = (if length out < len then Some out else None)"
| "conv_loop tbl len (p # ps) out =
     do {
       r \<leftarrow> conv_utf8_for_gb2312 tbl p (case ps of [] \<Rightarrow> 0 | q # _ \<Rightarrow> q);
       (case r of
          Some bs \<Rightarrow> if length out + 3 \<le> len then conv_loop tbl len (tl ps) (out @ bs) else None
        | None \<Rightarrow> if length out < len then conv_loop tbl len ps (out @ [p]) else None) }"

text \<open>The result is the string in the new buffer, or the null pointer.\<close>

definition conv_utf8 :: "gb_table \<Rightarrow> bool \<Rightarrow> u8 list \<Rightarrow> u8 list option option" where
  "conv_utf8 tbl mal input =
     (let len = (length input div 2) * 3 + 1 in
      if \<not> mal then Some None
      else map_option Some (conv_loop tbl len input []))"

subsection \<open>To GB2312\<close>

function search_loop :: "code_table \<Rightarrow> u16 \<Rightarrow> int \<Rightarrow> int \<Rightarrow> u16 option" where
  "search_loop tbl unicodeKey first end_i =
     (if first \<le> end_i
      then (let mid = (first + end_i) div 2 in
            if mid < 0 \<or> int (length tbl) \<le> mid then None
            else if fst (tbl ! nat mid) = unicodeKey then Some (snd (tbl ! nat mid))
            else if unicodeKey < fst (tbl ! nat mid) then search_loop tbl unicodeKey first (mid - 1)
            else search_loop tbl unicodeKey (mid + 1) end_i)
      else Some 0)"
  by pat_completeness auto
termination
  by (relation "measure (\<lambda>(_, _, first, end_i). nat (end_i - first + 1))") auto

definition SearchCodeTable :: "code_table \<Rightarrow> u16 \<Rightarrow> u16 option" where
  "SearchCodeTable tbl unicodeKey = search_loop tbl unicodeKey 0 (int (length tbl) - 1)"

function byte_num_loop :: "u8 \<Rightarrow> u8 \<Rightarrow> nat \<Rightarrow> nat" where
  "byte_num_loop firstCh temp num =
     (if temp AND firstCh \<noteq> 0 then byte_num_loop firstCh (drop_bit 1 temp) (num + 1) else num)"
  by pat_completeness auto
termination
proof (relation "measure (\<lambda>(_, temp, _). unat temp)")
  fix firstCh temp :: u8 and num
  assume "temp AND firstCh \<noteq> 0"
  then have "temp \<noteq> 0"
    by (metis and_zero_eq and.commute)
  then have "0 < unat temp"
    by (simp add: unat_gt_0)
  then show "((firstCh, drop_bit 1 temp, num + 1), (firstCh, temp, num)) \<in> measure (\<lambda>(_, temp, _). unat temp)"
    by (simp add: drop_bit_eq_div unat_div)
qed simp

definition GetUtf8ByteNumForWord :: "u8 \<Rightarrow> nat" where
  "GetUtf8ByteNumForWord firstCh = byte_num_loop firstCh 0x80 0"

text \<open>The two bytes that the case of three bytes puts together, the low one first, and the key they
  are read back as.\<close>

definition key_hi :: "u8 \<Rightarrow> u8 \<Rightarrow> u8" where
  "key_hi a b = push_bit 4 (a AND 0x0F) OR (drop_bit 2 b AND 0x0F)"
definition key_lo :: "u8 \<Rightarrow> u8 \<Rightarrow> u8" where
  "key_lo b c = push_bit 6 (b AND 0x03) + (c AND 0x3F)"
definition unicode_key :: "u8 \<Rightarrow> u8 \<Rightarrow> u8 \<Rightarrow> u16" where
  "unicode_key a b c = ucast (key_lo b c) + push_bit 8 (ucast (key_hi a b))"

definition gb_bytes :: "u16 \<Rightarrow> u8 list" where
  "gb_bytes gbKey = [ucast (drop_bit 8 (gbKey AND 0xff00)), ucast (gbKey AND 0x00ff)]"

text \<open>The loop over the string of \<open>len\<close> bytes in \<open>utf8\<close>: \<open>out\<close> are the bytes written to \<open>temp\<close>, which has
  \<open>len\<close> bytes.\<close>

definition put :: "nat \<Rightarrow> u8 list \<Rightarrow> u8 list \<Rightarrow> u8 list option" where
  "put len out bs = (if length out + length bs \<le> len then Some (out @ bs) else None)"

definition utf8_case :: "code_table \<Rightarrow> u8 list \<Rightarrow> nat \<Rightarrow> nat \<Rightarrow> u8 list \<Rightarrow> (nat \<times> u8 list) option" where
  "utf8_case tbl utf8 len i out =
     do {
       a \<leftarrow> mem_byte utf8 i;
       let nbyte = GetUtf8ByteNumForWord a;
       if nbyte = 0 then do { o' \<leftarrow> put len out [a]; Some (1, o') }
       else if nbyte = 2 then do { b \<leftarrow> mem_byte utf8 (i + 1); o' \<leftarrow> put len out [a, b]; Some (2, o') }
       else if nbyte = 3 then do {
         b \<leftarrow> mem_byte utf8 (i + 1);
         c \<leftarrow> mem_byte utf8 (i + 2);
         gbKey \<leftarrow> SearchCodeTable tbl (unicode_key a b c);
         o' \<leftarrow> put len out (gb_bytes gbKey);
         Some (3, o') }
       else if nbyte = 4 \<or> nbyte = 5 \<or> nbyte = 6 then Some (nbyte, out)
       else Some (1, out) }"

lemma utf8_case_moves: "utf8_case tbl utf8 len i out = Some (n, o') \<Longrightarrow> 0 < n"
  by (auto simp: utf8_case_def Let_def split: if_splits bind_splits)

function utf8_loop :: "code_table \<Rightarrow> u8 list \<Rightarrow> nat \<Rightarrow> nat \<Rightarrow> u8 list \<Rightarrow> u8 list option" where
  "utf8_loop tbl utf8 len i out =
     (if i < len
      then (case utf8_case tbl utf8 len i out of
              None \<Rightarrow> None
            | Some (byteCount, o') \<Rightarrow> utf8_loop tbl utf8 len (i + byteCount) o')
      else Some out)"
  by pat_completeness auto
termination
  by (relation "measure (\<lambda>(_, _, len, i, _). len - i)") (auto dest: utf8_case_moves)

text \<open>The argument is a pointer to a buffer; the result is the pointer that is returned and the buffer.\<close>

definition Utf8ToGb2312 :: "code_table \<Rightarrow> bool \<Rightarrow> u8 list option \<Rightarrow> (bool \<times> u8 list option) option" where
  "Utf8ToGb2312 tbl mal utf8 =
     (case utf8 of
        None \<Rightarrow> Some (False, None)
      | Some buf \<Rightarrow>
          let len = c_strlen buf in
          if len = length buf then None
          else if len = 0 then Some (False, Some buf)
          else if \<not> mal then Some (False, Some buf)
          else do {
            out \<leftarrow> utf8_loop tbl buf len 0 [];
            temp \<leftarrow> put len out [0];
            buf' \<leftarrow> mem_store buf 0 temp;
            Some (True, Some buf') })"

subsection \<open>The search is a lookup\<close>

declare search_loop.simps [simp del] byte_num_loop.simps [simp del] utf8_loop.simps [simp del]

lemma map_of_range:
  fixes tbl :: code_table
  assumes "sorted_wrt (<) (map fst tbl)" "i < length tbl" "fst (tbl ! i) = k"
  shows "map_of tbl k = Some (snd (tbl ! i))"
proof -
  have "distinct (map fst tbl)"
    using assms(1) by (simp only: strict_sorted_iff)
  moreover have "(k, snd (tbl ! i)) \<in> set tbl"
    using assms(2,3) by (metis nth_mem prod.collapse)
  ultimately show ?thesis
    by simp
qed

lemma search_loop_ok:
  assumes "sorted_wrt (<) (map fst tbl)" "0 \<le> first" "end_i < int (length tbl)"
    and "\<And>i. i < length tbl \<Longrightarrow> fst (tbl ! i) = k \<Longrightarrow> first \<le> int i \<and> int i \<le> end_i"
  shows "search_loop tbl k first end_i = Some (case map_of tbl k of None \<Rightarrow> 0 | Some g \<Rightarrow> g)"
  using assms
proof (induction tbl k first end_i rule: search_loop.induct)
  case (1 tbl k first end_i)
  show ?case
  proof (cases "first \<le> end_i")
    case False
    then have "k \<notin> fst ` set tbl"
      using "1.prems"(4) by (fastforce simp: in_set_conv_nth)
    then have "map_of tbl k = None"
      by (simp add: map_of_eq_None_iff)
    with False show ?thesis
      by (simp add: search_loop.simps)
  next
    case True
    define mid where "mid = (first + end_i) div 2"
    have mid: "0 \<le> mid" "mid < int (length tbl)" "first \<le> mid" "mid \<le> end_i"
      using True "1.prems"(2,3) by (auto simp: mid_def)
    then have nm: "nat mid < length tbl"
      by linarith
    have less: "fst (tbl ! i) < fst (tbl ! j)" if "i < j" "j < length tbl" for i j
      using "1.prems"(1) that by (auto simp: sorted_wrt_iff_nth_less)
    let ?m = "fst (tbl ! nat mid)"
    consider "?m = k" | "k < ?m" | "?m < k"
      by (metis linorder_less_linear)
    then show ?thesis
    proof cases
      case 1
      then show ?thesis
        using True mid map_of_range [OF "1.prems"(1), of "nat mid" k]
        by (subst search_loop.simps) (simp add: mid_def [symmetric] Let_def)
    next
      case 2
      have "first \<le> int i \<and> int i \<le> mid - 1" if "i < length tbl" "fst (tbl ! i) = k" for i
      proof -
        have "\<not> nat mid < i" "nat mid \<noteq> i"
          using less [of "nat mid" i] that 2 by (auto dest: less_asym)
        then show ?thesis
          using "1.prems"(4) [OF that] mid(1) by linarith
      qed
      then have "search_loop tbl k first (mid - 1) = Some (case map_of tbl k of None \<Rightarrow> 0 | Some g \<Rightarrow> g)"
        using 2 mid "1.prems"(1-3) by (intro "1.IH"(1) [OF True mid_def]) auto
      with 2 less_imp_neq [OF 2] True mid show ?thesis
        by (subst search_loop.simps) (simp add: mid_def [symmetric] Let_def not_le)
    next
      case 3
      have "mid + 1 \<le> int i \<and> int i \<le> end_i" if "i < length tbl" "fst (tbl ! i) = k" for i
      proof -
        have "\<not> i < nat mid" "nat mid \<noteq> i"
          using less [of i "nat mid"] that 3 nm by (auto dest: less_asym)
        then show ?thesis
          using "1.prems"(4) [OF that] mid(1) by linarith
      qed
      then have "search_loop tbl k (mid + 1) end_i = Some (case map_of tbl k of None \<Rightarrow> 0 | Some g \<Rightarrow> g)"
        using 3 mid "1.prems"(1-3) by (intro "1.IH"(2) [OF True mid_def]) auto
      with 3 less_imp_neq [OF 3] less_not_sym [OF 3] True mid show ?thesis
        by (subst search_loop.simps) (simp add: mid_def [symmetric] Let_def not_le)
    qed
  qed
qed

lemma search_ok:
  "sorted_wrt (<) (map fst tbl) \<Longrightarrow> SearchCodeTable tbl k = Some (case map_of tbl k of None \<Rightarrow> 0 | Some g \<Rightarrow> g)"
  by (simp add: SearchCodeTable_def search_loop_ok)

subsection \<open>The length of a character\<close>

definition starts :: "u8 \<Rightarrow> nat" where
  "starts c = length (takeWhile (bit c) [7, 6, 5, 4, 3, 2, 1, 0])"

lemma byte_num_starts: "GetUtf8ByteNumForWord c = starts c"
proof -
  have a: "(push_bit n 1 :: u8) AND c = 0 \<longleftrightarrow> \<not> bit c n" for n
    by (metis and.commute and_exp_eq_0_iff_not_bit push_bit_of_1)
  have b: "0x80 AND c = 0 \<longleftrightarrow> \<not> bit c 7" "0x40 AND c = 0 \<longleftrightarrow> \<not> bit c 6" "0x20 AND c = 0 \<longleftrightarrow> \<not> bit c 5"
    "0x10 AND c = 0 \<longleftrightarrow> \<not> bit c 4" "0x8 AND c = 0 \<longleftrightarrow> \<not> bit c 3" "0x4 AND c = 0 \<longleftrightarrow> \<not> bit c 2"
    "0x2 AND c = 0 \<longleftrightarrow> \<not> bit c 1" "0x1 AND c = 0 \<longleftrightarrow> \<not> bit c 0"
    using a [of 7] a [of 6] a [of 5] a [of 4] a [of 3] a [of 2] a [of 1] a [of 0] by simp_all
  have s7: "byte_num_loop c 0x80 n = (if bit c 7 then byte_num_loop c 0x40 (n + 1) else n)" for n
    by (subst byte_num_loop.simps) (simp add: b)
  have s6: "byte_num_loop c 0x40 n = (if bit c 6 then byte_num_loop c 0x20 (n + 1) else n)" for n
    by (subst byte_num_loop.simps) (simp add: b)
  have s5: "byte_num_loop c 0x20 n = (if bit c 5 then byte_num_loop c 0x10 (n + 1) else n)" for n
    by (subst byte_num_loop.simps) (simp add: b)
  have s4: "byte_num_loop c 0x10 n = (if bit c 4 then byte_num_loop c 0x8 (n + 1) else n)" for n
    by (subst byte_num_loop.simps) (simp add: b)
  have s3: "byte_num_loop c 0x8 n = (if bit c 3 then byte_num_loop c 0x4 (n + 1) else n)" for n
    by (subst byte_num_loop.simps) (simp add: b)
  have s2: "byte_num_loop c 0x4 n = (if bit c 2 then byte_num_loop c 0x2 (n + 1) else n)" for n
    by (subst byte_num_loop.simps) (simp add: b)
  have s1: "byte_num_loop c 0x2 n = (if bit c 1 then byte_num_loop c 0x1 (n + 1) else n)" for n
    by (subst byte_num_loop.simps) (simp add: b)
  have s0: "byte_num_loop c 0x1 n = (if bit c 0 then byte_num_loop c 0x0 (n + 1) else n)" for n
    by (subst byte_num_loop.simps) (simp add: b)
  have z: "byte_num_loop c 0x0 n = n" for n
    by (subst byte_num_loop.simps) simp
  show ?thesis
    unfolding GetUtf8ByteNumForWord_def starts_def
    by (simp add: s7 s6 s5 s4 s3 s2 s1 s0 z del: One_nat_def)
qed

subsection \<open>Texts\<close>

text \<open>A UTF-8 text as a sequence of characters of one, two or three bytes; only the lead bytes and
  the absence of zero bytes matter to the code.\<close>

datatype utf8_char = One u8 | Two u8 u8 | Three u8 u8 u8

fun char_bytes :: "utf8_char \<Rightarrow> u8 list" where
  "char_bytes (One a) = [a]"
| "char_bytes (Two a b) = [a, b]"
| "char_bytes (Three a b c) = [a, b, c]"

fun char_ok :: "utf8_char \<Rightarrow> bool" where
  "char_ok (One a) \<longleftrightarrow> a \<noteq> 0 \<and> starts a = 0"
| "char_ok (Two a b) \<longleftrightarrow> starts a = 2 \<and> b \<noteq> 0"
| "char_ok (Three a b c) \<longleftrightarrow> starts a = 3 \<and> b \<noteq> 0 \<and> c \<noteq> 0"

definition gb_of :: "code_table \<Rightarrow> u16 \<Rightarrow> u8 list" where
  "gb_of tbl u = gb_bytes (case map_of tbl u of None \<Rightarrow> 0 | Some g \<Rightarrow> g)"

fun char_gb :: "code_table \<Rightarrow> utf8_char \<Rightarrow> u8 list" where
  "char_gb tbl (One a) = [a]"
| "char_gb tbl (Two a b) = [a, b]"
| "char_gb tbl (Three a b c) = gb_of tbl (unicode_key a b c)"

definition utf8_text :: "utf8_char list \<Rightarrow> u8 list" where
  "utf8_text cs = concat (map char_bytes cs)"

definition gb_text :: "code_table \<Rightarrow> utf8_char list \<Rightarrow> u8 list" where
  "gb_text tbl cs = concat (map (char_gb tbl) cs)"

fun is_three :: "utf8_char \<Rightarrow> bool" where
  "is_three (Three a b c) \<longleftrightarrow> True"
| "is_three _ \<longleftrightarrow> False"

lemma text_simps [simp]:
  "utf8_text [] = []" "utf8_text (c # cs) = char_bytes c @ utf8_text cs"
  "gb_text tbl [] = []" "gb_text tbl (c # cs) = char_gb tbl c @ gb_text tbl cs"
  by (simp_all add: utf8_text_def gb_text_def)

lemma length_gb_of [simp]: "length (gb_of tbl u) = 2"
  by (simp add: gb_of_def gb_bytes_def)

lemma length_gb_text: "length (utf8_text cs) = length (gb_text tbl cs) + length (filter is_three cs)"
proof (induction cs)
  case (Cons c cs)
  then show ?case
    by (cases c) auto
qed simp

lemma text_nonzero: "list_all char_ok cs \<Longrightarrow> 0 \<notin> set (utf8_text cs)"
proof (induction cs)
  case (Cons c cs)
  moreover have "starts 0 = 0"
    by (simp add: starts_def)
  ultimately show ?case
    by (cases c) auto
qed simp

lemma utf8_case_text:
  assumes "sorted_wrt (<) (map fst tbl)" "char_ok c" "drop i buf = char_bytes c @ rest"
    "length out + length (char_gb tbl c) \<le> len"
  shows "utf8_case tbl buf len i out = Some (length (char_bytes c), out @ char_gb tbl c)"
proof -
  have p: "mem_byte buf (i + k) = Some (char_bytes c ! k)" if "k < length (char_bytes c)" for k
    using mem_byte_drop [OF assms(3) that] .
  show ?thesis
    using assms(2,4) p [of 0] p [of 1] p [of 2] search_ok [OF assms(1)]
    by (cases c) (auto simp: utf8_case_def byte_num_starts put_def gb_of_def gb_bytes_def numeral_2_eq_2)
qed

lemma utf8_loop_text:
  assumes "sorted_wrt (<) (map fst tbl)" "list_all char_ok cs" "len = i + length (utf8_text cs)"
    "drop i buf = utf8_text cs @ rest" "length out \<le> i"
  shows "utf8_loop tbl buf len i out = Some (out @ gb_text tbl cs)"
  using assms(2-)
proof (induction cs arbitrary: i out)
  case Nil
  then show ?case
    by (simp add: utf8_loop.simps)
next
  case (Cons c cs)
  have b: "0 < length (char_bytes c)" "length (char_gb tbl c) \<le> length (char_bytes c)"
    by (cases c; simp)+
  have d: "drop (length (char_bytes c) + i) buf = utf8_text cs @ rest"
    using arg_cong [OF Cons.prems(3), of "drop (length (char_bytes c))"] by simp
  have "utf8_case tbl buf len i out = Some (length (char_bytes c), out @ char_gb tbl c)"
    using Cons.prems b by (intro utf8_case_text [OF assms(1), where rest = "utf8_text cs @ rest"]) auto
  moreover have "utf8_loop tbl buf len (i + length (char_bytes c)) (out @ char_gb tbl c) = Some ((out @ char_gb tbl c) @ gb_text tbl cs)"
    using Cons.prems b d by (intro Cons.IH) (auto simp: add.commute)
  ultimately show ?case
    using Cons.prems(2) b by (subst utf8_loop.simps) simp
qed

lemma gb_text_ok:
  assumes "sorted_wrt (<) (map fst tbl)" "list_all char_ok cs" "cs \<noteq> []"
  shows "Utf8ToGb2312 tbl True (Some (utf8_text cs @ 0 # rest)) =
    (if list_ex is_three cs
     then Some (True, Some (gb_text tbl cs @ 0 # drop (length (gb_text tbl cs) + 1) (utf8_text cs @ 0 # rest)))
     else None)"
proof -
  let ?b = "utf8_text cs @ 0 # rest" and ?n = "length (utf8_text cs)"
  have n: "c_strlen ?b = ?n"
    using text_nonzero [OF assms(2)] by (auto simp: c_strlen_def takeWhile_append)
  have "0 < ?n"
    using assms(3) by (cases cs; cases "hd cs") auto
  moreover have l: "utf8_loop tbl ?b ?n 0 [] = Some (gb_text tbl cs)"
    using utf8_loop_text [OF assms(1,2), of ?n 0 ?b "0 # rest" "[]"] by simp
  moreover have "list_ex is_three cs \<longleftrightarrow> 1 \<le> length (filter is_three cs)"
    by (simp add: list_ex_iff Suc_le_eq filter_empty_conv)
  ultimately show ?thesis
    using length_gb_text [of cs tbl]
    by (auto simp: Utf8ToGb2312_def Let_def n put_def)
qed

text \<open>A GB2312 text: characters of two bytes in the range of the table, and bytes that start none.\<close>

datatype gb_char = Byte u8 | Gb u8 u8

fun gb_char_bytes :: "gb_char \<Rightarrow> u8 list" where
  "gb_char_bytes (Byte b) = [b]"
| "gb_char_bytes (Gb h l) = [h, l]"

fun gb_ok :: "gb_char \<Rightarrow> bool" where
  "gb_ok (Byte b) \<longleftrightarrow> b < 0xB0 \<or> 0xF7 < b"
| "gb_ok (Gb h l) \<longleftrightarrow> 0xB0 \<le> h \<and> h \<le> 0xF7 \<and> 0xA1 \<le> l \<and> l \<le> 0xFE"

fun in_table :: "gb_table \<Rightarrow> gb_char \<Rightarrow> bool" where
  "in_table tbl (Byte b) \<longleftrightarrow> True"
| "in_table tbl (Gb h l) \<longleftrightarrow> (unat h - 0xB0) * 94 + (unat l - 0xA1) < length tbl"

fun to_utf8 :: "gb_table \<Rightarrow> gb_char \<Rightarrow> utf8_char" where
  "to_utf8 tbl (Byte b) = One b"
| "to_utf8 tbl (Gb h l) = (case tbl ! ((unat h - 0xB0) * 94 + (unat l - 0xA1)) of (a, b, c) \<Rightarrow> Three a b c)"

fun is_byte :: "gb_char \<Rightarrow> bool" where
  "is_byte (Byte b) \<longleftrightarrow> True"
| "is_byte (Gb h l) \<longleftrightarrow> False"

definition gb_str :: "gb_char list \<Rightarrow> u8 list" where
  "gb_str cs = concat (map gb_char_bytes cs)"

lemma gb_str_simps [simp]: "gb_str [] = []" "gb_str (c # cs) = gb_char_bytes c @ gb_str cs"
  by (simp_all add: gb_str_def)

lemma gb_index_row:
  assumes "0xB0 \<le> h" "h \<le> 0xF7" "0xA1 \<le> l" "l \<le> 0xFE"
  shows "unat (gb_index h l) = (unat h - 0xB0) * 94 + (unat l - 0xA1)"
proof -
  define x y where "x = unat h" and "y = unat l"
  have b: "176 \<le> x" "x \<le> 247" "161 \<le> y" "y \<le> 254"
    using assms by (simp_all add: word_le_nat_alt x_def y_def)
  have h: "ucast h = (of_nat x :: u16)" and l: "ucast l = (of_nat y :: u16)"
    by (simp_all add: x_def y_def)
  obtain m n where m: "x = m + 176" and n: "y = n + 161"
    using b by (metis add.commute le_Suc_ex)
  have "gb_index h l = of_nat (m * 94 + n)"
    unfolding gb_index_def Let_def push_bit_eq_mult h l m n
    by (simp add: algebra_simps)
  moreover have "m * 94 + n < 65536"
    using b m n by auto
  ultimately have "unat (gb_index h l) = m * 94 + n"
    by (simp only: unat_of_nat) simp
  then show ?thesis
    by (simp add: m n flip: x_def y_def)
qed

lemma conv_loop_full: "len \<le> length out \<Longrightarrow> conv_loop tbl len s out = None"
  by (cases s) (auto split: option.splits bind_splits)

lemma conv_pair:
  assumes "gb_ok (Gb h l)"
  shows "conv_utf8_for_gb2312 tbl h l =
    (if in_table tbl (Gb h l) then Some (Some (char_bytes (to_utf8 tbl (Gb h l)))) else None)"
  using assms gb_index_row [of h l]
  by (auto simp: conv_utf8_for_gb2312_def not_less split: prod.splits)

lemma conv_loop_text:
  assumes "list_all gb_ok cs" "length out < len"
  shows "conv_loop tbl len (gb_str cs) out =
    (if list_all (in_table tbl) cs \<and> length out + length (utf8_text (map (to_utf8 tbl) cs)) < len
     then Some (out @ utf8_text (map (to_utf8 tbl) cs)) else None)"
  using assms
proof (induction cs arbitrary: out)
  case (Cons c cs)
  show ?case
  proof (cases c)
    case (Byte b)
    with Cons.prems have r: "conv_utf8_for_gb2312 tbl b x = Some None" for x
      by (auto simp: conv_utf8_for_gb2312_def)
    show ?thesis
      using Cons.IH [of "out @ [b]"] Cons.prems Byte r conv_loop_full [of len "out @ [b]"]
      by (cases "length out + 1 < len") auto
  next
    case (Gb h l)
    define u where "u = to_utf8 tbl (Gb h l)"
    have u: "length (char_bytes u) = 3"
      by (simp add: u_def split: prod.splits)
    have r: "conv_utf8_for_gb2312 tbl h l = (if in_table tbl c then Some (Some (char_bytes u)) else None)"
      using conv_pair Cons.prems Gb by (simp add: u_def)
    show ?thesis
      using Cons.IH [of "out @ char_bytes u"] Cons.prems Gb r u conv_loop_full [of len "out @ char_bytes u"]
      by (cases "length out + 3 < len") (auto simp del: to_utf8.simps simp flip: u_def)
  qed
qed simp

lemma length_to_utf8:
  "length (utf8_text (map (to_utf8 tbl) cs)) + 2 * length (filter is_byte cs) = 3 * length cs"
  "length (gb_str cs) + length (filter is_byte cs) = 2 * length cs"
proof (induction cs)
  case (Cons c cs)
  case 1 show ?case using Cons by (cases c) (auto split: prod.splits)
  case 2 show ?case using Cons by (cases c) auto
qed simp_all

lemma room_iff:
  fixes n s t g :: nat
  assumes "t + 2 * s = 3 * n" "g + s = 2 * n" "s \<le> n"
  shows "t < g div 2 * 3 + 1 \<longleftrightarrow> s \<noteq> 1"
proof -
  obtain k where k: "n = s + k"
    using assms by (metis le_Suc_ex)
  then have "g = s + 2 * k" "t = s + 3 * k"
    using assms by linarith+
  moreover have "s < s div 2 * 3 + 1 \<longleftrightarrow> s \<noteq> 1"
    by (cases "even s") (auto elim!: evenE oddE)
  ultimately show ?thesis
    by simp
qed

lemma conv_text_ok:
  assumes "list_all gb_ok cs"
  shows "conv_utf8 tbl True (gb_str cs) =
    (if list_all (in_table tbl) cs \<and> length (filter is_byte cs) \<noteq> 1
     then Some (Some (utf8_text (map (to_utf8 tbl) cs))) else None)"
  unfolding conv_utf8_def Let_def
  using conv_loop_text [OF assms, of "[]" "length (gb_str cs) div 2 * 3 + 1" tbl]
    room_iff [OF length_to_utf8(1) [of tbl cs] length_to_utf8(2) [of cs]]
  by (simp add: length_filter_le)

subsection \<open>Both ways\<close>

text \<open>The tables agree on a character.\<close>

fun agree :: "gb_table \<Rightarrow> code_table \<Rightarrow> gb_char \<Rightarrow> bool" where
  "agree gt ct (Byte b) \<longleftrightarrow> b \<noteq> 0 \<and> b < 0x80"
| "agree gt ct (Gb h l) \<longleftrightarrow>
     in_table gt (Gb h l) \<and>
     (case gt ! ((unat h - 0xB0) * 94 + (unat l - 0xA1)) of
        (a, b, c) \<Rightarrow> char_ok (Three a b c) \<and> map_of ct (unicode_key a b c) = Some (push_bit 8 (ucast h) + ucast l))"

lemma gb_bytes_pair: "gb_bytes (push_bit 8 (ucast h) + ucast l) = [h, l]"
proof -
  define g :: u16 where "g = push_bit 8 (ucast h) OR ucast l"
  have g: "push_bit 8 (ucast h) + ucast l = g"
    unfolding g_def by (rule disjunctive_add) (auto simp: bit_simps dest: bit_imp_le_length)
  have b: "bit g n \<longleftrightarrow> bit h (n - 8) \<and> 8 \<le> n \<or> bit l n" for n
    by (auto simp: g_def bit_simps dest: bit_imp_le_length)
  have m: "(0x00FF :: u16) = mask 8" "(0xFF00 :: u16) = push_bit 8 (mask 8)"
    by (simp_all add: mask_eq_exp_minus_1 push_bit_eq_mult)
  have l: "\<not> bit l (8 + n)" for n
    by (auto dest: bit_imp_le_length)
  have "ucast (drop_bit 8 (g AND push_bit 8 (mask 8))) = h"
    by (rule bit_word_eqI)
      (simp only: bit_unsigned_iff bit_drop_bit_eq bit_and_iff bit_push_bit_iff bit_mask_iff b l comp_def possible_bit_word; simp)
  moreover have "ucast (g AND mask 8) = l"
    by (rule bit_word_eqI)
      (simp only: bit_unsigned_iff bit_and_iff bit_mask_iff b possible_bit_word; simp)
  ultimately show ?thesis
    unfolding g gb_bytes_def m by simp
qed

lemma agree_char:
  assumes "agree gt ct c" "gb_ok c"
  shows "char_ok (to_utf8 gt c)" "char_gb ct (to_utf8 gt c) = gb_char_bytes c" "in_table gt c"
    "is_three (to_utf8 gt c) \<longleftrightarrow> \<not> is_byte c"
proof -
  have "starts b = 0" if "b < 0x80" for b :: u8
  proof -
    have "unat b < 2 ^ 7"
      using that by (simp add: word_less_nat_alt)
    then have "\<not> bit (unat b) 7"
      by (simp add: bit_iff_odd)
    then have "\<not> bit b 7"
      by (simp add: bit_unsigned_iff)
    then show ?thesis
      by (simp add: starts_def)
  qed
  then show "char_ok (to_utf8 gt c)" "char_gb ct (to_utf8 gt c) = gb_char_bytes c" "in_table gt c"
    "is_three (to_utf8 gt c) \<longleftrightarrow> \<not> is_byte c"
    using assms by (cases c; auto simp: gb_of_def gb_bytes_pair split: prod.splits)+
qed

text \<open>Where the table is sorted, the bisection of \<open>SearchCodeTable\<close> stops and finds what a lookup from
  the front finds; a key that is not listed gives 0.\<close>

theorem search_code_table_is_lookup:
  "sorted_wrt (<) (map fst tbl) \<Longrightarrow>
     SearchCodeTable tbl key = Some (case map_of tbl key of None \<Rightarrow> 0 | Some gb \<Rightarrow> gb)"
  by (rule search_ok)

definition demo_codes :: code_table where
  "demo_codes = [(0x554A, 0xB0A1), (0x963F, 0xB0A2)]"

definition demo_rows :: gb_table where
  "demo_rows = [(0xE5, 0x95, 0x8A), (0xE9, 0x98, 0xBF)]"

lemma demo_sorted: "sorted_wrt (<) (map fst demo_codes)"
  by (simp add: demo_codes_def)

theorem search_code_table_is_lookup_witness:
  "SearchCodeTable demo_codes 0x963F = Some 0xB0A2 \<and> SearchCodeTable demo_codes 0x4E00 = Some 0"
  using search_code_table_is_lookup [OF demo_sorted, of "0x963F"] search_code_table_is_lookup [OF demo_sorted, of "0x4E00"]
  by (simp add: demo_codes_def)

text \<open>C30: \<open>conv_utf8\<close> converts a text of GB2312 characters and other bytes character by character exactly
  when all its characters are in the table and the number of the other bytes is not one: with one, the
  buffer is a byte short of the terminator.\<close>

theorem conv_utf8_exact:
  assumes "list_all gb_ok cs"
  shows "conv_utf8 tbl True (gb_str cs) =
    (if list_all (in_table tbl) cs \<and> length (filter is_byte cs) \<noteq> 1
     then Some (Some (utf8_text (map (to_utf8 tbl) cs))) else None)"
  using assms by (rule conv_text_ok)

theorem conv_utf8_exact_witness:
  "conv_utf8 demo_rows True (gb_str [Gb 0xB0 0xA2, Byte 0x41]) = None \<and>
   conv_utf8 demo_rows True (gb_str [Gb 0xB0 0xA2, Byte 0x41, Byte 0x42]) = Some (Some [0xE9, 0x98, 0xBF, 0x41, 0x42]) \<and>
   conv_utf8 demo_rows True (gb_str [Gb 0xB0 0xA3]) = None"
  using conv_utf8_exact [of "[Gb 0xB0 0xA2, Byte 0x41]" demo_rows]
    conv_utf8_exact [of "[Gb 0xB0 0xA2, Byte 0x41, Byte 0x42]" demo_rows] conv_utf8_exact [of "[Gb 0xB0 0xA3]" demo_rows]
  by (simp add: demo_rows_def)

text \<open>C31: \<open>Utf8ToGb2312\<close> rewrites a text of characters of one to three bytes in place, when there is one of
  three; a text that does not shrink makes it write the terminator behind its buffer.\<close>

theorem utf8_to_gb_exact:
  assumes "sorted_wrt (<) (map fst tbl)" "list_all char_ok cs" "cs \<noteq> []"
  shows "Utf8ToGb2312 tbl True (Some (utf8_text cs @ 0 # rest)) =
    (if list_ex is_three cs
     then Some (True, Some (gb_text tbl cs @ 0 # drop (length (gb_text tbl cs) + 1) (utf8_text cs @ 0 # rest)))
     else None)"
  using assms by (rule gb_text_ok)

lemma demo_char: "starts 0xE9 = 3" "starts 0x41 = 0" "starts 0xE5 = 3"
  by (simp_all add: starts_def)

theorem utf8_to_gb_exact_witness:
  "Utf8ToGb2312 demo_codes True (Some [0xE9, 0x98, 0xBF, 0x41, 0]) = Some (True, Some [0xB0, 0xA2, 0x41, 0, 0]) \<and>
   Utf8ToGb2312 demo_codes True (Some [0x41, 0]) = None"
  using utf8_to_gb_exact [OF demo_sorted, of "[Three 0xE9 0x98 0xBF, One 0x41]" "[]"]
    utf8_to_gb_exact [OF demo_sorted, of "[One 0x41]" "[]"]
  by (simp add: demo_char gb_of_def demo_codes_def unicode_key_def key_lo_def key_hi_def gb_bytes_def)

text \<open>C19: Where the two tables agree on its characters, a text with a GB2312 character and not just one
  other byte comes back from UTF-8 as it was.\<close>

theorem gb_utf8_roundtrip:
  assumes "sorted_wrt (<) (map fst ct)" "list_all gb_ok cs" "list_all (agree gt ct) cs"
    "\<not> list_all is_byte cs" "length (filter is_byte cs) \<noteq> 1"
  shows "\<exists>utf8 junk. conv_utf8 gt True (gb_str cs) = Some (Some utf8) \<and>
    Utf8ToGb2312 ct True (Some (utf8 @ [0])) = Some (True, Some (gb_str cs @ 0 # junk))"
proof -
  let ?us = "map (to_utf8 gt) cs"
  have a: "list_all (in_table gt) cs" "list_all char_ok ?us" "gb_text ct ?us = gb_str cs"
    "list_ex is_three ?us \<longleftrightarrow> \<not> list_all is_byte cs"
    using assms(2,3) by (induction cs) (auto simp: agree_char)
  then have "conv_utf8 gt True (gb_str cs) = Some (Some (utf8_text ?us))"
    using conv_text_ok [OF assms(2), of gt] assms(5) by simp
  moreover have "?us \<noteq> []"
    using assms(4) by auto
  ultimately show ?thesis
    using gb_text_ok [OF assms(1) a(2), of "[]"] a assms(4) by auto
qed

theorem gb_utf8_roundtrip_witness:
  "\<exists>utf8 junk. conv_utf8 demo_rows True [0xB0, 0xA2, 0x41, 0x42, 0xB0, 0xA1] = Some (Some utf8) \<and>
    Utf8ToGb2312 demo_codes True (Some (utf8 @ [0])) = Some (True, Some ([0xB0, 0xA2, 0x41, 0x42, 0xB0, 0xA1] @ 0 # junk))"
  using gb_utf8_roundtrip [OF demo_sorted, of "[Gb 0xB0 0xA2, Byte 0x41, Byte 0x42, Gb 0xB0 0xA1]" demo_rows]
  by (simp add: demo_char demo_rows_def demo_codes_def unicode_key_def key_lo_def key_hi_def)

end
