(* ===== verification/VideoTransfer.thy ===== *)
theory VideoTransfer
  imports Simulation
begin

text \<open>
  The camera path up to the sender: the receive handlers of \<open>func/camera_intf/camera_intf.c\<close> and
  \<open>func/spidma_intf/spidma_intf.c\<close>, which cut the DMA stream into nodes, and the packet pool of
  \<open>func/video_transfer/video_transfer.c\<close> (\<open>CFG_USE_CAMERA_INTF\<close>, \<open>CFG_GENERAL_DMA\<close>, \<open>TVIDEO_USE_HDR\<close> 1,
  \<open>TVIDEO_DROP_DATA_NONODE\<close> 0).

  An element of the pool is its index; its buffer starts at a fixed place of the pool's memory.  The
  queue operations \<open>co_list_push_back\<close> and \<open>co_list_pop_front\<close> are in a binary library: they are the
  record \<open>co\<close>, and \<open>co_list_ok\<close> is what \<open>ip/common/co_list.h\<close> documents of them.  The client's functions
  work on a state \<open>'w\<close> of their own.  A handler is one step; \<open>None\<close> is an access outside a buffer or a
  division by zero.
\<close>

subsection \<open>Lists of the MAC library\<close>

record 'l co_list_api =
  co_list_init :: 'l
  co_list_push_back :: "'l \<Rightarrow> nat \<Rightarrow> 'l"
  co_list_pop_front :: "'l \<Rightarrow> 'l"
  co_elems :: "'l \<Rightarrow> nat list"  \<comment> \<open>the elements from \<open>first\<close> on\<close>

definition co_list_ok :: "'l co_list_api \<Rightarrow> bool" where
  "co_list_ok co \<longleftrightarrow> co_elems co (co_list_init co) = [] \<and>
     (\<forall>l e. co_elems co (co_list_push_back co l e) = co_elems co l @ [e]) \<and>
     (\<forall>l. co_elems co (co_list_pop_front co l) = tl (co_elems co l))"

definition co_list_pick :: "'l co_list_api \<Rightarrow> 'l \<Rightarrow> nat option" where
  "co_list_pick co l = (case co_elems co l of [] \<Rightarrow> None | e # _ \<Rightarrow> Some e)"

subsection \<open>State\<close>

definition TVIDEO_RXNODE_SIZE_UDP :: u32 where "TVIDEO_RXNODE_SIZE_UDP = 1472"
definition TVIDEO_RXNODE_SIZE_TCP :: u32 where "TVIDEO_RXNODE_SIZE_TCP = 1460"
definition TVIDEO_RXNODE_SIZE :: nat where "TVIDEO_RXNODE_SIZE = 1472"
definition TVIDEO_POOL_CNT :: nat where "TVIDEO_POOL_CNT = 25"
definition TVIDEO_POOL_LEN :: nat where "TVIDEO_POOL_LEN = TVIDEO_RXNODE_SIZE * TVIDEO_POOL_CNT"
definition TVIDEO_OPEN_SCCB :: u16 where "TVIDEO_OPEN_SCCB = 1"
definition TVIDEO_OPEN_SPIDMA :: u16 where "TVIDEO_OPEN_SPIDMA = 2"
definition TVIDEO_SND_UDP :: u16 where "TVIDEO_SND_UDP = 1"
definition TVIDEO_SND_TCP :: u16 where "TVIDEO_SND_TCP = 2"
definition TVIDEO_SND_INTF :: u16 where "TVIDEO_SND_INTF = 3"
definition TVIDEO_SND_BUFFER :: u16 where "TVIDEO_SND_BUFFER = 4"
definition TV_QITEM_COUNT :: nat where "TV_QITEM_COUNT = 60"
definition TV_INT_POLL :: u32 where "TV_INT_POLL = 0"
definition TV_EXIT :: u32 where "TV_EXIT = 1"

record TV_HDR_PARAM_ST =
  param_ptklen :: u32
  param_frame_id :: u32
  param_is_eof :: u32
  param_frame_len :: u32

text \<open>A client's header function returns the bytes it writes at the start of the packet; its send
  function returns the length it took.\<close>

record 'w TVIDEO_SETUP_DESC_ST =
  su_open_type :: u16
  su_send_type :: u16
  su_send_func :: "(u8 list \<Rightarrow> 'w \<Rightarrow> (u32 \<times> 'w) option) option"
  su_pkt_header_size :: u32
  su_add_pkt_header :: "(TV_HDR_PARAM_ST \<Rightarrow> 'w \<Rightarrow> u8 list \<times> 'w) option"

record TVIDEO_DESC_ST =
  rxbuf :: "u8 list"
  rxbuf_len :: u16
  rx_read_len :: u16
  node_len :: u32
  sener_cfg :: u32

record ('l, 'w) tvideo =
  tp_pool :: "u8 list"
  tp_len :: "nat \<Rightarrow> u32"  \<comment> \<open>\<open>buf_len\<close> of the elements\<close>
  tp_free :: 'l
  tp_ready :: 'l
  tp_open_type :: u16
  tp_send_type :: u16
  tp_send_func :: "(u8 list \<Rightarrow> 'w \<Rightarrow> (u32 \<times> 'w) option) option"
  tp_frame_id :: u16
  tp_pkt_header_size :: u16
  tp_add_pkt_header :: "(TV_HDR_PARAM_ST \<Rightarrow> 'w \<Rightarrow> u8 list \<times> 'w) option"
  tv_st :: TVIDEO_DESC_ST
  tv_que :: "u32 list"  \<comment> \<open>\<open>tvideo_msg_que\<close>\<close>
  tv_world :: 'w

definition buf_start :: "nat \<Rightarrow> nat" where
  "buf_start i = i * TVIDEO_RXNODE_SIZE"

subsection \<open>Sensor settings\<close>

definition CMPARAM_SET_PPI :: "u32 \<Rightarrow> u32 \<Rightarrow> u32" where
  "CMPARAM_SET_PPI p x = (p AND NOT (0xFF :: u32)) OR (x AND 0xFF)"
definition CMPARAM_GET_PPI :: "u32 \<Rightarrow> u32" where
  "CMPARAM_GET_PPI p = p AND 0xFF"
definition CMPARAM_SET_FPS :: "u32 \<Rightarrow> u32 \<Rightarrow> u32" where
  "CMPARAM_SET_FPS p x = (p AND NOT (push_bit 8 (0xFF :: u32))) OR push_bit 8 (x AND 0xFF)"
definition CMPARAM_GET_FPS :: "u32 \<Rightarrow> u32" where
  "CMPARAM_GET_FPS p = drop_bit 8 p AND 0xFF"

subsection \<open>The pool\<close>

definition tvideo_intfer_send_msg :: "u32 \<Rightarrow> ('l, 'w) tvideo \<Rightarrow> ('l, 'w) tvideo" where
  "tvideo_intfer_send_msg new_msg s =
     (if length (tv_que s) < TV_QITEM_COUNT then s\<lparr>tv_que := tv_que s @ [new_msg]\<rparr> else s)"

definition tvideo_pool_init :: "'l co_list_api \<Rightarrow> 'w TVIDEO_SETUP_DESC_ST \<Rightarrow> ('l, 'w) tvideo \<Rightarrow> ('l, 'w) tvideo" where
  "tvideo_pool_init co setup s =
     s\<lparr>tp_pool := replicate TVIDEO_POOL_LEN 0, tp_len := \<lambda>i. 0,
       tp_free := fold (\<lambda>i l. co_list_push_back co l i) [0..<TVIDEO_POOL_CNT] (co_list_init co),
       tp_ready := co_list_init co,
       tp_open_type := su_open_type setup, tp_send_type := su_send_type setup,
       tp_send_func := su_send_func setup, tp_frame_id := 0,
       tp_add_pkt_header := su_add_pkt_header setup,
       tp_pkt_header_size := ucast (su_pkt_header_size setup)\<rparr>"

definition tvideo_config_desc :: "u32 \<Rightarrow> u32 \<Rightarrow> ('l, 'w) tvideo \<Rightarrow> ('l, 'w) tvideo" where
  "tvideo_config_desc sensor_ppi sensor_fps s =
     (let n = (if tp_send_type s = TVIDEO_SND_UDP
               then (if tp_open_type s \<noteq> TVIDEO_OPEN_SPIDMA
                     then TVIDEO_RXNODE_SIZE_UDP - ucast (tp_pkt_header_size s) else TVIDEO_RXNODE_SIZE_TCP)
               else if tp_send_type s = TVIDEO_SND_TCP then TVIDEO_RXNODE_SIZE_TCP
               else if tp_send_type s = TVIDEO_SND_INTF
               then TVIDEO_RXNODE_SIZE_UDP - ucast (tp_pkt_header_size s)
               else TVIDEO_RXNODE_SIZE_TCP)
      in s\<lparr>tv_st := (tv_st s)\<lparr>rxbuf_len := ucast (n * 4), node_len := n, rx_read_len := 0,
             sener_cfg := CMPARAM_SET_FPS (CMPARAM_SET_PPI 0 sensor_ppi) sensor_fps\<rparr>\<rparr>)"

text \<open>Writing one packet into the buffer of an element: the header function, then the data.\<close>

definition fill_elem :: "u8 list \<Rightarrow> u32 \<Rightarrow> u32 \<Rightarrow> u32 \<Rightarrow> nat \<Rightarrow> ('l, 'w) tvideo \<Rightarrow> ('l, 'w) tvideo option" where
  "fill_elem curptr newlen is_eof frame_len elem s =
     (if tp_open_type s \<noteq> TVIDEO_OPEN_SPIDMA
      then
        (if is_eof \<noteq> 0 \<and> node_len (tv_st s) = 0 then None
         else
           (let n = node_len (tv_st s);
                pkt_cnt = (if is_eof \<noteq> 0 then frame_len div n + (if frame_len mod n \<noteq> 0 then 1 else 0) else 0);
                param = \<lparr>param_ptklen = newlen, param_frame_id = ucast (tp_frame_id s), param_is_eof = is_eof,
                         param_frame_len = pkt_cnt\<rparr>;
                (hdr, w) = (case tp_add_pkt_header s of None \<Rightarrow> ([], tv_world s) | Some f \<Rightarrow> f param (tv_world s))
            in do {
              m1 \<leftarrow> mem_store (tp_pool s) (buf_start elem) hdr;
              bs \<leftarrow> mem_load curptr 0 (unat newlen);
              m2 \<leftarrow> mem_store m1 (buf_start elem + unat (tp_pkt_header_size s)) bs;
              Some (s\<lparr>tp_pool := m2, tv_world := w,
                      tp_len := (tp_len s)(elem := newlen + ucast (tp_pkt_header_size s))\<rparr>) }))
      else do {
        bs \<leftarrow> mem_load curptr 0 (unat newlen);
        m \<leftarrow> mem_store (tp_pool s) (buf_start elem) bs;
        Some (s\<lparr>tp_pool := m, tp_len := (tp_len s)(elem := newlen)\<rparr>) })"

definition tvideo_rx_handler ::
  "'l co_list_api \<Rightarrow> u8 list \<Rightarrow> u32 \<Rightarrow> u32 \<Rightarrow> u32 \<Rightarrow> ('l, 'w) tvideo \<Rightarrow> ('l, 'w) tvideo option" where
  "tvideo_rx_handler co curptr newlen is_eof frame_len s =
     map_option (tvideo_intfer_send_msg TV_INT_POLL)
       (if newlen = 0 then Some s
        else
          (case co_list_pick co (tp_free s) of
             None \<Rightarrow> Some s
           | Some elem \<Rightarrow>
               let newlen = (if node_len (tv_st s) < newlen then node_len (tv_st s) else newlen) in
               map_option (\<lambda>s1. s1\<lparr>tp_free := co_list_pop_front co (tp_free s1),
                                   tp_ready := co_list_push_back co (tp_ready s1) elem\<rparr>)
                 (fill_elem curptr newlen is_eof frame_len elem s)))"

definition tvideo_end_frame_handler :: "('l, 'w) tvideo \<Rightarrow> ('l, 'w) tvideo" where
  "tvideo_end_frame_handler s =
     tvideo_intfer_send_msg TV_INT_POLL
       (if tp_open_type s \<noteq> TVIDEO_OPEN_SPIDMA then s\<lparr>tp_frame_id := tp_frame_id s + 1\<rparr> else s)"

text \<open>One turn of the loop of \<open>tvideo_poll_handler\<close>: \<open>None\<close> for the pool is the end of the loop.\<close>

definition poll_step :: "'l co_list_api \<Rightarrow> ('l, 'w) tvideo \<Rightarrow> (bool \<times> ('l, 'w) tvideo) option" where
  "poll_step co s =
     (case co_list_pick co (tp_ready s) of
        None \<Rightarrow> Some (False, s)
      | Some elem \<Rightarrow>
          do {
            (taken, s1) \<leftarrow>
              (case tp_send_func s of
                 None \<Rightarrow> Some (True, s)
               | Some f \<Rightarrow> do {
                   bs \<leftarrow> mem_load (tp_pool s) (buf_start elem) (unat (tp_len s elem));
                   (send_len, w) \<leftarrow> f bs (tv_world s);
                   Some (send_len = tp_len s elem, s\<lparr>tv_world := w\<rparr>) });
            Some (if taken
                  then (True, s1\<lparr>tp_ready := co_list_pop_front co (tp_ready s1),
                                 tp_free := co_list_push_back co (tp_free s1) elem\<rparr>)
                  else (False, s1)) })"

partial_function (option) tvideo_poll_handler :: "'l co_list_api \<Rightarrow> ('l, 'w) tvideo \<Rightarrow> ('l, 'w) tvideo option" where
  "tvideo_poll_handler co s =
     (case poll_step co s of
        None \<Rightarrow> None
      | Some (go_on, s1) \<Rightarrow> if go_on then tvideo_poll_handler co s1 else Some s1)"

text \<open>One turn of \<open>video_transfer_main\<close>: the first message of the queue; the result says whether the task
  goes on.\<close>

definition video_transfer_turn :: "'l co_list_api \<Rightarrow> ('l, 'w) tvideo \<Rightarrow> (bool \<times> ('l, 'w) tvideo) option" where
  "video_transfer_turn co s =
     (case tv_que s of
        [] \<Rightarrow> Some (True, s)
      | m # ms \<Rightarrow>
          let s1 = s\<lparr>tv_que := ms\<rparr> in
          if m = TV_INT_POLL then map_option (Pair True) (tvideo_poll_handler co s1)
          else if m = TV_EXIT then Some (False, s1)
          else Some (True, s1))"

subsection \<open>The receive handlers\<close>

text \<open>\<open>hdl\<close> says whether the device is open; \<open>left_len\<close> and \<open>frame_len\<close> are the answers of the DMA and of
  the encoder.\<close>

definition camera_intf_ejpeg_rx_handler :: "'l co_list_api \<Rightarrow> bool \<Rightarrow> ('l, 'w) tvideo \<Rightarrow> ('l, 'w) tvideo option" where
  "camera_intf_ejpeg_rx_handler co hdl s =
     (if \<not> hdl then Some s
      else
        (let d = tv_st s; already_len = rx_read_len d; copy_len = (ucast (node_len d) :: u16) in
         if length (rxbuf d) < unat already_len then None
         else do {
           s1 \<leftarrow> tvideo_rx_handler co (drop (unat already_len) (rxbuf d)) (ucast copy_len) 0 0 s;
           let already_len = already_len + copy_len;
           let already_len = (if rxbuf_len d \<le> already_len then 0 else already_len);
           Some (s1\<lparr>tv_st := (tv_st s1)\<lparr>rx_read_len := already_len\<rparr>\<rparr>) }))"

text \<open>The position is set to 0 after the DMA is restarted, whatever was added to it before.\<close>

definition camera_intf_delay_timer_hdl ::
  "'l co_list_api \<Rightarrow> bool \<Rightarrow> u32 \<Rightarrow> u32 \<Rightarrow> ('l, 'w) tvideo \<Rightarrow> ('l, 'w) tvideo option" where
  "camera_intf_delay_timer_hdl co hdl left_len frame_len s =
     (if \<not> hdl then Some s
      else
        (let d = tv_st s; rec_len = node_len d - left_len in
         if length (rxbuf d) < unat (rx_read_len d) then None
         else do {
           s1 \<leftarrow> (if 0 <s rec_len
                  then tvideo_rx_handler co (drop (unat (rx_read_len d)) (rxbuf d)) rec_len 1 frame_len s
                  else Some s);
           Some (tvideo_end_frame_handler (s1\<lparr>tv_st := (tv_st s1)\<lparr>rx_read_len := 0\<rparr>\<rparr>)) }))"

definition spidma_intf_node_rx_handler :: "'l co_list_api \<Rightarrow> ('l, 'w) tvideo \<Rightarrow> ('l, 'w) tvideo option" where
  "spidma_intf_node_rx_handler co s = camera_intf_ejpeg_rx_handler co True s"

definition spidma_intf_frame_end_handler :: "'l co_list_api \<Rightarrow> u32 \<Rightarrow> ('l, 'w) tvideo \<Rightarrow> ('l, 'w) tvideo option" where
  "spidma_intf_frame_end_handler co left_len s =
     (let d = tv_st s; rec_len = node_len d - left_len in
      if length (rxbuf d) < unat (rx_read_len d) then None
      else do {
        s1 \<leftarrow> (if 0 <s rec_len
               then tvideo_rx_handler co (drop (unat (rx_read_len d)) (rxbuf d)) rec_len 0 0 s else Some s);
        Some (tvideo_end_frame_handler (s1\<lparr>tv_st := (tv_st s1)\<lparr>rx_read_len := 0\<rparr>\<rparr>)) })"

text \<open>What the DMA does between two calls: it writes a node behind the last one that was taken.\<close>

definition dma_node :: "u8 list \<Rightarrow> ('l, 'w) tvideo \<Rightarrow> ('l, 'w) tvideo option" where
  "dma_node bs s =
     do { m \<leftarrow> mem_store (rxbuf (tv_st s)) (unat (rx_read_len (tv_st s))) bs;
          Some (s\<lparr>tv_st := (tv_st s)\<lparr>rxbuf := m\<rparr>\<rparr>) }"

subsection \<open>The pool as a queue of packets\<close>

definition pkt_at :: "('l, 'w) tvideo \<Rightarrow> nat \<Rightarrow> u8 list" where
  "pkt_at s e = take (unat (tp_len s e)) (drop (buf_start e) (tp_pool s))"

definition pool_ok :: "'l co_list_api \<Rightarrow> ('l, 'w) tvideo \<Rightarrow> bool" where
  "pool_ok co s \<longleftrightarrow>
     length (tp_pool s) = TVIDEO_POOL_LEN \<and>
     distinct (co_elems co (tp_free s) @ co_elems co (tp_ready s)) \<and>
     set (co_elems co (tp_free s) @ co_elems co (tp_ready s)) \<subseteq> {..<TVIDEO_POOL_CNT} \<and>
     (\<forall>e \<in> set (co_elems co (tp_ready s)). unat (tp_len s e) \<le> TVIDEO_RXNODE_SIZE)"

lemma elem_room: "e < TVIDEO_POOL_CNT \<Longrightarrow> off \<le> TVIDEO_RXNODE_SIZE \<Longrightarrow> buf_start e + off \<le> TVIDEO_POOL_LEN"
  by (auto simp: TVIDEO_POOL_CNT_def TVIDEO_POOL_LEN_def buf_start_def TVIDEO_RXNODE_SIZE_def)

lemma store_in:
  "k + length bs \<le> length m \<Longrightarrow> \<exists>m'. mem_store m k bs = Some m' \<and> length m' = length m"
  by simp

lemma store_at:
  "mem_store m k bs = Some m' \<Longrightarrow> take (length bs) (drop k m') = bs"
  by (auto simp: mem_store_def split: if_splits)

lemma store_outside:
  assumes "mem_store m k bs = Some m'" "i + n \<le> k \<or> k + length bs \<le> i"
  shows "take n (drop i m') = take n (drop i m)"
proof (rule nth_equalityI)
  have l: "length m' = length m" "k + length bs \<le> length m" "m' = take k m @ bs @ drop (k + length bs) m"
    using assms(1) mem_store_length [OF assms(1)] by (auto simp: mem_store_def split: if_splits)
  then show "length (take n (drop i m')) = length (take n (drop i m))"
    by (simp only: length_take length_drop)
  fix j assume "j < length (take n (drop i m'))"
  then show "take n (drop i m') ! j = take n (drop i m) ! j"
    using assms(2) l(1,2) by (auto simp: nth_append l(3))
qed

lemma store_other:
  assumes "mem_store m (buf_start e + off) bs = Some m'" "off + length bs \<le> TVIDEO_RXNODE_SIZE"
    "e' \<noteq> e" "n \<le> TVIDEO_RXNODE_SIZE"
  shows "take n (drop (buf_start e') m') = take n (drop (buf_start e') m)"
proof (rule store_outside [OF assms(1)])
  have "buf_start e' + TVIDEO_RXNODE_SIZE \<le> buf_start e \<or> buf_start e + TVIDEO_RXNODE_SIZE \<le> buf_start e'"
    using assms(3) by (auto simp: buf_start_def TVIDEO_RXNODE_SIZE_def)
  then show "buf_start e' + n \<le> buf_start e + off \<or> buf_start e + off + length bs \<le> buf_start e'"
    using assms(2,4) by linarith
qed

lemma store_two:
  assumes "mem_store m k xs = Some m1" "mem_store m1 (k + length xs) ys = Some m2"
  shows "take (length xs + length ys) (drop k m2) = xs @ ys"
proof -
  have "take (length xs) (drop k m2) = xs"
    using store_outside [OF assms(2), of k "length xs"] store_at [OF assms(1)] by simp
  moreover have "take (length ys) (drop (length xs) (drop k m2)) = ys"
    using store_at [OF assms(2)] by (simp add: add.commute)
  ultimately show ?thesis
    by (simp add: take_add)
qed

record 'w tv_abs =
  ab_queue :: "u8 list list"
  ab_free :: nat
  ab_msgs :: nat
  ab_frame_id :: u16
  ab_world :: 'w

text \<open>What a node of the camera adds: a packet, unless no element is free.\<close>

definition header_param :: "u32 \<Rightarrow> u32 \<Rightarrow> u32 \<Rightarrow> u32 \<Rightarrow> u16 \<Rightarrow> TV_HDR_PARAM_ST" where
  "header_param n len eof flen fid =
     \<lparr>param_ptklen = len, param_frame_id = ucast fid, param_is_eof = eof,
      param_frame_len = (if eof \<noteq> 0 then flen div n + (if flen mod n \<noteq> 0 then 1 else 0) else 0)\<rparr>"

definition abs_rx :: "(TV_HDR_PARAM_ST \<Rightarrow> 'w \<Rightarrow> u8 list \<times> 'w) \<Rightarrow> u32 \<Rightarrow> u8 list \<Rightarrow> u32 \<Rightarrow> u32 \<Rightarrow> 'w tv_abs \<Rightarrow> 'w tv_abs" where
  "abs_rx hdr n bs eof flen a =
     (let a1 = (if bs = [] \<or> ab_free a = 0 then a
                else (let (h, w) = hdr (header_param n (of_nat (length bs)) eof flen (ab_frame_id a)) (ab_world a) in
                      a\<lparr>ab_queue := ab_queue a @ [h @ bs], ab_free := ab_free a - 1, ab_world := w\<rparr>))
      in a1\<lparr>ab_msgs := min TV_QITEM_COUNT (ab_msgs a + 1)\<rparr>)"

fun deliver :: "(u8 list \<Rightarrow> 'w \<Rightarrow> (u32 \<times> 'w) option) \<Rightarrow> u8 list list \<Rightarrow> 'w \<Rightarrow> 'w option" where
  "deliver send [] w = Some w"
| "deliver send (p # ps) w = do { (n, w1) \<leftarrow> send p w; deliver send ps w1 }"

definition abs_poll :: "(u8 list \<Rightarrow> 'w \<Rightarrow> (u32 \<times> 'w) option) \<Rightarrow> 'w tv_abs \<Rightarrow> 'w tv_abs" where
  "abs_poll send a =
     a\<lparr>ab_queue := [], ab_free := ab_free a + length (ab_queue a),
       ab_world := the (deliver send (ab_queue a) (ab_world a))\<rparr>"

text \<open>The start of a node in the ring of four that the DMA fills.\<close>

definition rx_pos :: "u32 \<Rightarrow> nat \<Rightarrow> u16" where
  "rx_pos n k = ucast (n * of_nat k)"

definition tv_rep ::
  "(TV_HDR_PARAM_ST \<Rightarrow> 'w \<Rightarrow> u8 list \<times> 'w) \<Rightarrow> (u8 list \<Rightarrow> 'w \<Rightarrow> (u32 \<times> 'w) option) \<Rightarrow> nat \<Rightarrow> u32
     \<Rightarrow> 'l co_list_api \<times> ('l, 'w) tvideo \<Rightarrow> 'w tv_abs \<Rightarrow> bool" where
  "tv_rep hdr send hs n = (\<lambda>(co, s) a.
     co_list_ok co \<and> pool_ok co s \<and>
     map (pkt_at s) (co_elems co (tp_ready s)) = ab_queue a \<and>
     length (co_elems co (tp_free s)) = ab_free a \<and>
     tv_que s = replicate (ab_msgs a) TV_INT_POLL \<and> ab_msgs a \<le> TV_QITEM_COUNT \<and>
     tp_frame_id s = ab_frame_id a \<and> tv_world s = ab_world a \<and>
     tp_open_type s \<noteq> TVIDEO_OPEN_SPIDMA \<and> tp_send_func s = Some send \<and> tp_add_pkt_header s = Some hdr \<and>
     unat (tp_pkt_header_size s) = hs \<and> node_len (tv_st s) = n \<and> 0 < n \<and> unat n + hs \<le> TVIDEO_RXNODE_SIZE \<and>
     4 * unat n \<le> length (rxbuf (tv_st s)) \<and> rxbuf_len (tv_st s) = rx_pos n 4 \<and>
     (\<exists>k<4. rx_read_len (tv_st s) = rx_pos n k))"

lemma pick_Some: "co_list_pick co l = Some e \<longleftrightarrow> (\<exists>es. co_elems co l = e # es)"
  by (auto simp: co_list_pick_def split: list.splits)

lemma co_laws:
  assumes "co_list_ok co"
  shows "co_elems co (co_list_init co) = []" "co_elems co (co_list_push_back co l e) = co_elems co l @ [e]"
    "co_elems co (co_list_pop_front co l) = tl (co_elems co l)"
  using assms by (auto simp: co_list_ok_def)

lemma pkt_at_simps [simp]:
  "pkt_at (s\<lparr>tv_que := q\<rparr>) = pkt_at s" "pkt_at (s\<lparr>tv_world := w\<rparr>) = pkt_at s"
  "pkt_at (s\<lparr>tp_free := l\<rparr>) = pkt_at s" "pkt_at (s\<lparr>tp_ready := l\<rparr>) = pkt_at s"
  "pkt_at (s\<lparr>tp_frame_id := i\<rparr>) = pkt_at s" "pkt_at (s\<lparr>tv_st := d\<rparr>) = pkt_at s"
  by (simp_all add: pkt_at_def fun_eq_iff)

lemma send_msg_rep:
  "tv_rep hdr send hs n (co, s) a \<Longrightarrow>
     tv_rep hdr send hs n (co, tvideo_intfer_send_msg TV_INT_POLL s) (a\<lparr>ab_msgs := min TV_QITEM_COUNT (ab_msgs a + 1)\<rparr>)"
  by (auto simp: tv_rep_def tvideo_intfer_send_msg_def pool_ok_def replicate_append_same)

text \<open>The operations of the environment and of the task: the DMA has filled a node, the frame is over with
  the bytes \<open>bs\<close> in the last node, the task takes a message.\<close>

datatype tv_op = Node "u8 list" | Frame_end "u8 list" u32 | Turn

fun tv_step :: "tv_op \<Rightarrow> 'l co_list_api \<times> ('l, 'w) tvideo \<Rightarrow> (unit \<times> 'l co_list_api \<times> ('l, 'w) tvideo) option" where
  "tv_step (Node bs) (co, s) =
     do { s1 \<leftarrow> dma_node bs s; s2 \<leftarrow> camera_intf_ejpeg_rx_handler co True s1; Some ((), co, s2) }"
| "tv_step (Frame_end bs flen) (co, s) =
     do { s1 \<leftarrow> dma_node bs s;
          s2 \<leftarrow> camera_intf_delay_timer_hdl co True (node_len (tv_st s) - of_nat (length bs)) flen s1;
          Some ((), co, s2) }"
| "tv_step Turn (co, s) = map_option (\<lambda>(_, s1). ((), co, s1)) (video_transfer_turn co s)"

fun tv_spec ::
  "(TV_HDR_PARAM_ST \<Rightarrow> 'w \<Rightarrow> u8 list \<times> 'w) \<Rightarrow> (u8 list \<Rightarrow> 'w \<Rightarrow> (u32 \<times> 'w) option) \<Rightarrow> u32 \<Rightarrow> tv_op \<Rightarrow> 'w tv_abs
     \<Rightarrow> unit \<times> 'w tv_abs" where
  "tv_spec hdr send n (Node bs) a = ((), abs_rx hdr n bs 0 0 a)"
| "tv_spec hdr send n (Frame_end bs flen) a =
     (let a1 = (if bs = [] then a else abs_rx hdr n bs 1 flen a) in
      ((), a1\<lparr>ab_frame_id := ab_frame_id a + 1, ab_msgs := min TV_QITEM_COUNT (ab_msgs a1 + 1)\<rparr>))"
| "tv_spec hdr send n Turn a =
     ((), if ab_msgs a = 0 then a else (abs_poll send a)\<lparr>ab_msgs := ab_msgs a - 1\<rparr>)"

fun tv_op_ok :: "(u8 list \<Rightarrow> 'w \<Rightarrow> (u32 \<times> 'w) option) \<Rightarrow> u32 \<Rightarrow> tv_op \<Rightarrow> 'w tv_abs \<Rightarrow> bool" where
  "tv_op_ok send n (Node bs) a \<longleftrightarrow> length bs = unat n"
| "tv_op_ok send n (Frame_end bs flen) a \<longleftrightarrow> length bs \<le> unat n"
| "tv_op_ok send n Turn a \<longleftrightarrow> deliver send (ab_queue a) (ab_world a) \<noteq> None"

lemma unat_ucast16: "unat (ucast (x :: u16) :: u32) = unat x"
proof -
  have "unat x < 2 ^ 16"
    using unsigned_less [of x] by simp
  then show ?thesis
    by (simp add: unsigned_ucast_eq take_bit_nat_eq_self)
qed

lemma rx_position:
  assumes "unat n \<le> TVIDEO_RXNODE_SIZE" "k \<le> 4"
  shows "unat (rx_pos n k) = unat n * k"
proof -
  have "unat n * k \<le> 1472 * 4"
    using assms by (intro mult_le_mono) (auto simp: TVIDEO_RXNODE_SIZE_def)
  moreover from this have "unat (n * of_nat k) = unat n * k"
    using assms(2) by (simp add: unat_word_ariths unat_of_nat)
  ultimately show ?thesis
    by (simp add: rx_pos_def unsigned_ucast_eq take_bit_nat_eq_self)
qed

lemma rx_pos_simps: "rx_pos n 0 = 0" "rx_pos n (Suc 0) = ucast n"
  by (simp_all add: rx_pos_def)

lemma rx_pos_next:
  assumes "unat n \<le> TVIDEO_RXNODE_SIZE" "k < 4"
  shows "rx_pos n k + ucast n = rx_pos n (k + 1)"
proof (rule iffD2 [OF word_unat_eq_iff])
  have "unat n * (k + 1) \<le> 1472 * 4"
    using assms by (intro mult_le_mono) (auto simp: TVIDEO_RXNODE_SIZE_def)
  then have b: "unat n * (k + 1) mod 2 ^ LENGTH(16) = unat n * (k + 1)"
    by (intro mod_less) simp
  have "unat (rx_pos n k + ucast n) = (unat (rx_pos n k) + unat (ucast n :: u16)) mod 2 ^ LENGTH(16)"
    by (rule unat_word_ariths(1))
  also have "unat (rx_pos n k) + unat (ucast n :: u16) = unat n * (k + 1)"
    using rx_position [OF assms(1), of k] rx_position [OF assms(1), of 1] assms(2) by (simp add: rx_pos_simps)
  finally have "unat (rx_pos n k + ucast n) = unat n * (k + 1)"
    unfolding b .
  then show "unat (rx_pos n k + ucast n) = unat (rx_pos n (k + 1))"
    using rx_position [OF assms(1), of "k + 1"] assms(2) by simp
qed

lemma next_position:
  assumes "unat n \<le> TVIDEO_RXNODE_SIZE" "0 < n" "k < 4"
  shows "\<exists>k'<4. (if rx_pos n 4 \<le> rx_pos n k + ucast n then 0 else rx_pos n k + ucast n) = rx_pos n k'"
proof -
  have "0 < unat n"
    using assms(2) by (simp add: unat_gt_0 word_gt_0)
  then have "rx_pos n 4 \<le> rx_pos n (k + 1) \<longleftrightarrow> k = 3"
    using rx_position [OF assms(1), of 4] rx_position [OF assms(1), of "k + 1"] assms(3) by (auto simp: word_le_nat_alt)
  then show ?thesis
    using rx_pos_next [OF assms(1,3)] assms(3) rx_pos_simps(1) [of n]
    by (cases "k = 3") (auto intro: exI [of _ 0] exI [of _ "k + 1"])
qed

lemma co_elems_fold: "co_list_ok co \<Longrightarrow> co_elems co (fold (\<lambda>i l. co_list_push_back co l i) xs l) = co_elems co l @ xs"
  by (induction xs arbitrary: l) (auto simp: co_laws)

definition tv_fresh :: "'w \<Rightarrow> 'w tv_abs" where
  "tv_fresh w = \<lparr>ab_queue = [], ab_free = TVIDEO_POOL_CNT, ab_msgs = 0, ab_frame_id = 0, ab_world = w\<rparr>"

text \<open>What the pool needs of its client: headers have one length, and a packet is taken as a whole.\<close>

locale tv_client =
  fixes hdr :: "TV_HDR_PARAM_ST \<Rightarrow> 'w \<Rightarrow> u8 list \<times> 'w"
    and send :: "u8 list \<Rightarrow> 'w \<Rightarrow> (u32 \<times> 'w) option"
    and hs :: nat
  assumes hdr_length: "length (fst (hdr p w)) = hs"
    and send_all: "send bs w = Some (m, w') \<Longrightarrow> m = of_nat (length bs)"
begin

lemma fill_elem_ok:
  assumes "tp_open_type s \<noteq> TVIDEO_OPEN_SPIDMA" "tp_add_pkt_header s = Some hdr" "unat (tp_pkt_header_size s) = hs"
    "length (tp_pool s) = TVIDEO_POOL_LEN" "e < TVIDEO_POOL_CNT" "0 < node_len (tv_st s)"
    "unat newlen + hs \<le> TVIDEO_RXNODE_SIZE" "unat newlen \<le> length curptr"
    "hdr (header_param (node_len (tv_st s)) newlen eof flen (tp_frame_id s)) (tv_world s) = (h, w)"
  shows "\<exists>m. fill_elem curptr newlen eof flen e s =
      Some (s\<lparr>tp_pool := m, tv_world := w, tp_len := (tp_len s)(e := newlen + ucast (tp_pkt_header_size s))\<rparr>) \<and>
      length m = TVIDEO_POOL_LEN \<and>
      take (unat newlen + hs) (drop (buf_start e) m) = h @ take (unat newlen) curptr \<and>
      (\<forall>e' k. e' \<noteq> e \<longrightarrow> k \<le> TVIDEO_RXNODE_SIZE \<longrightarrow>
         take k (drop (buf_start e') m) = take k (drop (buf_start e') (tp_pool s)))"
proof -
  let ?bs = "take (unat newlen) curptr"
  have h: "length h = hs"
    using hdr_length [of "header_param (node_len (tv_st s)) newlen eof flen (tp_frame_id s)" "tv_world s"] assms(9) by simp
  have r1: "buf_start e + length h \<le> length (tp_pool s)"
    using elem_room [OF assms(5), of hs] assms(4,7) h by simp
  obtain m1 where m1: "mem_store (tp_pool s) (buf_start e) h = Some m1" "length m1 = TVIDEO_POOL_LEN"
    using store_in [OF r1] assms(4) by auto
  have r2: "buf_start e + hs + length ?bs \<le> length m1"
    using elem_room [OF assms(5), of "hs + unat newlen"] assms(7,8) m1(2) by simp
  obtain m2 where m2: "mem_store m1 (buf_start e + hs) ?bs = Some m2" "length m2 = TVIDEO_POOL_LEN"
    using store_in [OF r2] m1(2) by auto
  have "take (unat newlen + hs) (drop (buf_start e) m2) = h @ ?bs"
    using store_two [OF m1(1), of ?bs m2] m2(1) h assms(8) by (simp add: add.commute min_absorb2)
  moreover have "take k (drop (buf_start e') m2) = take k (drop (buf_start e') (tp_pool s))"
    if "e' \<noteq> e" "k \<le> TVIDEO_RXNODE_SIZE" for e' k
    using store_other [OF m2(1) _ that] store_other [of "tp_pool s" e 0 h m1 e' k] m1(1) that assms(7,8) h by simp
  moreover have "fill_elem curptr newlen eof flen e s =
      Some (s\<lparr>tp_pool := m2, tv_world := w, tp_len := (tp_len s)(e := newlen + ucast (tp_pkt_header_size s))\<rparr>)"
    using assms(1-3,6,8,9) m1 m2 by (auto simp: fill_elem_def Let_def header_param_def)
  ultimately show ?thesis
    using m2(2) by blast
qed

abbreviation rep where "rep \<equiv> tv_rep hdr send hs"

lemma rx_taken:
  assumes "rep n (co, s) a" "0 < newlen" "newlen \<le> n" "unat newlen \<le> length curptr" "co_elems co (tp_free s) = e # es"
    "hdr (header_param n newlen eof flen (ab_frame_id a)) (ab_world a) = (h, w)"
  shows "\<exists>s1. fill_elem curptr newlen eof flen e s = Some s1 \<and> tv_st s1 = tv_st s \<and>
    rep n (co, s1\<lparr>tp_free := co_list_pop_front co (tp_free s1), tp_ready := co_list_push_back co (tp_ready s1) e\<rparr>)
      (a\<lparr>ab_queue := ab_queue a @ [h @ take (unat newlen) curptr], ab_free := ab_free a - 1, ab_world := w\<rparr>)"
proof -
  have co: "co_list_ok co"
    using assms(1) by (simp add: tv_rep_def)
  have e: "e < TVIDEO_POOL_CNT" "e \<notin> set (co_elems co (tp_ready s))"
    using assms(1,5) by (auto simp: tv_rep_def pool_ok_def)
  have k: "unat newlen \<le> unat n" "hs = unat (tp_pkt_header_size s)" "unat n + hs \<le> TVIDEO_RXNODE_SIZE"
    using assms(1,3) by (auto simp: tv_rep_def word_le_nat_alt)
  obtain m where m: "fill_elem curptr newlen eof flen e s =
      Some (s\<lparr>tp_pool := m, tv_world := w, tp_len := (tp_len s)(e := newlen + ucast (tp_pkt_header_size s))\<rparr>)"
      "length m = TVIDEO_POOL_LEN" "take (unat newlen + hs) (drop (buf_start e) m) = h @ take (unat newlen) curptr"
      "\<And>e' k. e' \<noteq> e \<Longrightarrow> k \<le> TVIDEO_RXNODE_SIZE \<Longrightarrow>
         take k (drop (buf_start e') m) = take k (drop (buf_start e') (tp_pool s))"
    using fill_elem_ok [of s e newlen curptr eof flen h w] assms e k
    by (auto simp: tv_rep_def pool_ok_def)
  define s1 where "s1 = s\<lparr>tp_pool := m, tv_world := w, tp_len := (tp_len s)(e := newlen + ucast (tp_pkt_header_size s))\<rparr>"
  have len: "unat (newlen + ucast (tp_pkt_header_size s)) = unat newlen + hs"
  proof -
    have "unat (ucast (tp_pkt_header_size s) :: u32) = hs"
      using k(2,3) by (simp add: unsigned_ucast_eq TVIDEO_RXNODE_SIZE_def take_bit_nat_eq_self)
    then show ?thesis
      using k by (subst unat_add_32) (auto simp: TVIDEO_RXNODE_SIZE_def)
  qed
  have "pkt_at s1 e = h @ take (unat newlen) curptr"
    using m(3) len by (simp add: pkt_at_def s1_def)
  moreover have "map (pkt_at s1) (co_elems co (tp_ready s)) = ab_queue a"
  proof -
    have "pkt_at s1 x = pkt_at s x" if "x \<in> set (co_elems co (tp_ready s))" for x
    proof -
      have "x \<noteq> e" "unat (tp_len s x) \<le> TVIDEO_RXNODE_SIZE"
        using that e(2) assms(1) by (auto simp: tv_rep_def pool_ok_def)
      then show ?thesis
        using m(4) by (simp add: pkt_at_def s1_def)
    qed
    then have "map (pkt_at s1) (co_elems co (tp_ready s)) = map (pkt_at s) (co_elems co (tp_ready s))"
      by (intro map_cong refl)
    also have "\<dots> = ab_queue a"
      using assms(1) by (simp add: tv_rep_def)
    finally show ?thesis .
  qed
  ultimately have "rep n (co, s1\<lparr>tp_free := co_list_pop_front co (tp_free s1), tp_ready := co_list_push_back co (tp_ready s1) e\<rparr>)
      (a\<lparr>ab_queue := ab_queue a @ [h @ take (unat newlen) curptr], ab_free := ab_free a - 1, ab_world := w\<rparr>)"
    using assms(1,5) m(2) e len k by (auto simp: tv_rep_def pool_ok_def co_laws [OF co] s1_def)
  then show ?thesis
    using m(1) by (auto simp: s1_def)
qed

lemma rx_handler_rep:
  assumes "rep n (co, s) a" "newlen \<le> n" "unat newlen \<le> length curptr"
  shows "\<exists>s'. tvideo_rx_handler co curptr newlen eof flen s = Some s' \<and> tv_st s' = tv_st s \<and>
    rep n (co, s') (abs_rx hdr n (take (unat newlen) curptr) eof flen a)"
proof -
  have n: "node_len (tv_st s) = n" "length (co_elems co (tp_free s)) = ab_free a"
    using assms(1) by (simp_all add: tv_rep_def)
  have st: "tv_st (tvideo_intfer_send_msg m x) = tv_st x" for m and x :: "('l, 'w) tvideo"
    by (simp add: tvideo_intfer_send_msg_def)
  show ?thesis
  proof (cases "newlen = 0 \<or> ab_free a = 0")
    case True
    then have "tvideo_rx_handler co curptr newlen eof flen s = Some (tvideo_intfer_send_msg TV_INT_POLL s)"
      using n(2) by (auto simp: tvideo_rx_handler_def co_list_pick_def)
    with True show ?thesis
      using send_msg_rep [OF assms(1)] by (auto simp: abs_rx_def st)
  next
    case False
    then obtain e es where e: "co_elems co (tp_free s) = e # es"
      using n(2) by (cases "co_elems co (tp_free s)") auto
    obtain h w where hw: "hdr (header_param n newlen eof flen (ab_frame_id a)) (ab_world a) = (h, w)"
      by fastforce
    have nz: "0 < newlen"
      using False word_gt_0 by blast
    obtain s1 where s1: "fill_elem curptr newlen eof flen e s = Some s1" "tv_st s1 = tv_st s"
      "rep n (co, s1\<lparr>tp_free := co_list_pop_front co (tp_free s1), tp_ready := co_list_push_back co (tp_ready s1) e\<rparr>)
        (a\<lparr>ab_queue := ab_queue a @ [h @ take (unat newlen) curptr], ab_free := ab_free a - 1, ab_world := w\<rparr>)"
      using rx_taken [OF assms(1) nz assms(2,3) e hw] by blast
    have "take (unat newlen) curptr \<noteq> []" "of_nat (length (take (unat newlen) curptr)) = newlen"
      using nz assms(3) by (auto simp: min_absorb2 word_gt_0_no unat_eq_0)
    moreover have "tvideo_rx_handler co curptr newlen eof flen s = Some (tvideo_intfer_send_msg TV_INT_POLL
        (s1\<lparr>tp_free := co_list_pop_front co (tp_free s1), tp_ready := co_list_push_back co (tp_ready s1) e\<rparr>))"
      using False e s1(1) leD [OF assms(2)] n(1) by (simp add: tvideo_rx_handler_def co_list_pick_def)
    ultimately show ?thesis
      using send_msg_rep [OF s1(3)] s1(2) hw False by (auto simp: abs_rx_def st)
  qed
qed

lemma poll_step_rep:
  assumes "rep n (co, s) a" "ab_queue a = p # ps" "send p (ab_world a) = Some (m, w)"
  shows "\<exists>s1. poll_step co s = Some (True, s1) \<and> rep n (co, s1) (a\<lparr>ab_queue := ps, ab_free := ab_free a + 1, ab_world := w\<rparr>)"
proof -
  have co: "co_list_ok co"
    using assms(1) by (simp add: tv_rep_def)
  obtain e es where e: "co_elems co (tp_ready s) = e # es" "pkt_at s e = p" "map (pkt_at s) es = ps"
    using assms(1,2) by (auto simp: tv_rep_def map_eq_Cons_conv)
  have b: "e < TVIDEO_POOL_CNT" "unat (tp_len s e) \<le> TVIDEO_RXNODE_SIZE"
    using assms(1) e(1) by (auto simp: tv_rep_def pool_ok_def)
  have r: "buf_start e + unat (tp_len s e) \<le> length (tp_pool s)"
    using elem_room [OF b] assms(1) by (simp add: tv_rep_def pool_ok_def)
  then have l: "mem_load (tp_pool s) (buf_start e) (unat (tp_len s e)) = Some p" "length p = unat (tp_len s e)"
    using e(2) by (auto simp: pkt_at_def)
  have "m = tp_len s e"
    using send_all [OF assms(3)] l(2) by simp
  then have "poll_step co s = Some (True, s\<lparr>tv_world := w, tp_ready := co_list_pop_front co (tp_ready s),
      tp_free := co_list_push_back co (tp_free s) e\<rparr>)"
    using assms(1,3) e(1) l(1) by (simp add: poll_step_def co_list_pick_def tv_rep_def)
  moreover have "rep n (co, s\<lparr>tv_world := w, tp_ready := co_list_pop_front co (tp_ready s),
      tp_free := co_list_push_back co (tp_free s) e\<rparr>) (a\<lparr>ab_queue := ps, ab_free := ab_free a + 1, ab_world := w\<rparr>)"
    using assms(1) e by (auto simp: tv_rep_def pool_ok_def co_laws [OF co])
  ultimately show ?thesis
    by blast
qed

lemma poll_rep:
  assumes "rep n (co, s) a" "deliver send (ab_queue a) (ab_world a) = Some w"
  shows "\<exists>s'. tvideo_poll_handler co s = Some s' \<and> rep n (co, s') (abs_poll send a)"
  using assms
proof (induction "ab_queue a" arbitrary: s a)
  case Nil
  then have "co_elems co (tp_ready s) = []"
    by (auto simp: tv_rep_def)
  then have "tvideo_poll_handler co s = Some s"
    by (subst tvideo_poll_handler.simps) (simp add: poll_step_def co_list_pick_def)
  moreover have "abs_poll send a = a"
    using Nil.hyps by (simp add: abs_poll_def flip: Nil.hyps)
  ultimately show ?case
    using Nil.prems(1) by simp
next
  case (Cons p ps)
  obtain m w1 where w1: "send p (ab_world a) = Some (m, w1)" "deliver send ps w1 = Some w"
    using Cons.prems(2) by (auto simp flip: Cons.hyps(2) split: bind_splits)
  let ?a = "a\<lparr>ab_queue := ps, ab_free := ab_free a + 1, ab_world := w1\<rparr>"
  obtain s1 where s1: "poll_step co s = Some (True, s1)" "rep n (co, s1) ?a"
    using poll_step_rep [OF Cons.prems(1) Cons.hyps(2) [symmetric] w1(1)] by blast
  obtain s' where "tvideo_poll_handler co s1 = Some s'" "rep n (co, s') (abs_poll send ?a)"
    using Cons.hyps(1) [of ?a s1] s1(2) w1(2) by auto
  moreover have "abs_poll send ?a = abs_poll send a"
    using w1(1) by (simp add: abs_poll_def flip: Cons.hyps(2))
  ultimately show ?case
    using s1(1) by (subst tvideo_poll_handler.simps) simp
qed

lemma turn_rep:
  assumes "rep n (co, s) a" "tv_op_ok send n Turn a"
  shows "\<exists>s'. tv_step Turn (co, s) = Some ((), co, s') \<and> rep n (co, s') (snd (tv_spec hdr send n Turn a))"
proof (cases "ab_msgs a")
  case 0
  then show ?thesis
    using assms(1) by (auto simp: video_transfer_turn_def tv_rep_def)
next
  case (Suc k)
  let ?s = "s\<lparr>tv_que := replicate k TV_INT_POLL\<rparr>" and ?a = "a\<lparr>ab_msgs := k\<rparr>"
  have "rep n (co, ?s) ?a"
    using assms(1) Suc by (auto simp: tv_rep_def pool_ok_def)
  moreover obtain w where "deliver send (ab_queue ?a) (ab_world ?a) = Some w"
    using assms(2) by auto
  ultimately obtain s' where "tvideo_poll_handler co ?s = Some s'" "rep n (co, s') (abs_poll send ?a)"
    using poll_rep by blast
  moreover have "tv_que s = TV_INT_POLL # replicate k TV_INT_POLL"
    using assms(1) Suc by (simp add: tv_rep_def)
  moreover have "abs_poll send ?a = (abs_poll send a)\<lparr>ab_msgs := ab_msgs a - 1\<rparr>"
    using Suc by (simp add: abs_poll_def)
  ultimately show ?thesis
    using Suc by (auto simp: video_transfer_turn_def)
qed

lemma dma_rep:
  assumes "rep n (co, s) a" "length bs \<le> unat n"
  shows "\<exists>s1. dma_node bs s = Some s1 \<and> rep n (co, s1) a \<and>
    unat (rx_read_len (tv_st s1)) + length bs \<le> length (rxbuf (tv_st s1)) \<and>
    take (length bs) (drop (unat (rx_read_len (tv_st s1))) (rxbuf (tv_st s1))) = bs"
proof -
  obtain k where k: "k < 4" "rx_read_len (tv_st s) = rx_pos n k"
    using assms(1) by (auto simp: tv_rep_def)
  have "unat (rx_read_len (tv_st s)) = unat n * k"
    using rx_position [of n k] k assms(1) by (simp add: tv_rep_def)
  moreover have "unat n + unat n * k \<le> unat n * 4"
    using mult_le_mono2 [of "Suc k" 4 "unat n"] k(1) by simp
  moreover have "4 * unat n \<le> length (rxbuf (tv_st s))"
    using assms(1) by (simp add: tv_rep_def)
  ultimately have r: "unat (rx_read_len (tv_st s)) + length bs \<le> length (rxbuf (tv_st s))"
    using assms(2) by linarith
  obtain m where m: "mem_store (rxbuf (tv_st s)) (unat (rx_read_len (tv_st s))) bs = Some m" "length m = length (rxbuf (tv_st s))"
    using store_in [OF r] by blast
  have "rep n (co, s\<lparr>tv_st := (tv_st s)\<lparr>rxbuf := m\<rparr>\<rparr>) a"
    using assms(1) m(2) by (auto simp: tv_rep_def pool_ok_def)
  then show ?thesis
    using m r store_at [OF m(1)] by (auto simp: dma_node_def)
qed

lemma st_rep:
  assumes "rep n (co, s) a" "k < 4" "r = rx_pos n k"
  shows "rep n (co, s\<lparr>tv_st := (tv_st s)\<lparr>rx_read_len := r\<rparr>\<rparr>) a"
  using assms by (auto simp: tv_rep_def pool_ok_def)

lemma node_small: "rep n (co, s) a \<Longrightarrow> unat n \<le> TVIDEO_RXNODE_SIZE"
  by (simp add: tv_rep_def)

lemma node_rep:
  assumes "rep n (co, s) a" "length bs = unat n"
  shows "\<exists>s'. tv_step (Node bs) (co, s) = Some ((), co, s') \<and> rep n (co, s') (abs_rx hdr n bs 0 0 a)"
proof -
  have "length bs \<le> unat n"
    using assms(2) by simp
  then obtain s1 where s1: "dma_node bs s = Some s1" "rep n (co, s1) a"
    "unat (rx_read_len (tv_st s1)) + length bs \<le> length (rxbuf (tv_st s1))"
    "take (length bs) (drop (unat (rx_read_len (tv_st s1))) (rxbuf (tv_st s1))) = bs"
    using dma_rep [OF assms(1)] by meson
  let ?p = "drop (unat (rx_read_len (tv_st s1))) (rxbuf (tv_st s1))"
  obtain k where k: "k < 4" "rx_read_len (tv_st s1) = rx_pos n k"
    using s1(2) by (auto simp: tv_rep_def)
  have d: "node_len (tv_st s1) = n" "rxbuf_len (tv_st s1) = rx_pos n 4" "0 < n"
    using s1(2) by (simp_all add: tv_rep_def)
  have n16: "ucast (ucast n :: u16) = n"
  proof (rule iffD2 [OF word_unat_eq_iff])
    have "unat (ucast (ucast n :: u16) :: u32) = unat (ucast n :: u16)"
      by (rule unat_ucast16)
    also have "\<dots> = unat n"
      using rx_position [OF node_small [OF s1(2)], of 1] by (simp add: rx_pos_simps)
    finally show "unat (ucast (ucast n :: u16) :: u32) = unat n" .
  qed
  obtain s2 where s2: "tvideo_rx_handler co ?p n 0 0 s1 = Some s2" "tv_st s2 = tv_st s1"
    "rep n (co, s2) (abs_rx hdr n (take (unat n) ?p) 0 0 a)"
    using rx_handler_rep [OF s1(2), of n ?p 0 0] s1(3) assms(2) by (auto simp: le_diff_conv2 add.commute)
  define r where "r = (if rx_pos n 4 \<le> rx_pos n k + ucast n then 0 else rx_pos n k + ucast n)"
  obtain k' where k': "k' < 4" "r = rx_pos n k'"
    using next_position [OF node_small [OF s1(2)] d(3) k(1)] unfolding r_def by blast
  have "camera_intf_ejpeg_rx_handler co True s1 = Some (s2\<lparr>tv_st := (tv_st s2)\<lparr>rx_read_len := r\<rparr>\<rparr>)"
    using s1(3) s2(1) by (simp add: camera_intf_ejpeg_rx_handler_def Let_def d(1,2) n16 k(2) s2(2) r_def)
  moreover have "rep n (co, s2\<lparr>tv_st := (tv_st s2)\<lparr>rx_read_len := r\<rparr>\<rparr>) (abs_rx hdr n bs 0 0 a)"
    using st_rep [OF s2(3) k'] s1(4) assms(2) by simp
  ultimately show ?thesis
    using s1(1) by simp
qed

lemma end_handler_rep:
  assumes "rep n (co, s) a"
  shows "rep n (co, tvideo_end_frame_handler s)
    (a\<lparr>ab_frame_id := ab_frame_id a + 1, ab_msgs := min TV_QITEM_COUNT (ab_msgs a + 1)\<rparr>)"
proof -
  have opn: "tp_open_type s \<noteq> TVIDEO_OPEN_SPIDMA"
    using assms by (simp add: tv_rep_def)
  have "rep n (co, s\<lparr>tp_frame_id := tp_frame_id s + 1\<rparr>) (a\<lparr>ab_frame_id := ab_frame_id a + 1\<rparr>)"
    using assms by (auto simp: tv_rep_def pool_ok_def)
  from send_msg_rep [OF this] show ?thesis
    using opn by (simp add: tvideo_end_frame_handler_def)
qed

lemma frame_end_rep:
  assumes "rep n (co, s) a" "length bs \<le> unat n"
  shows "\<exists>s'. tv_step (Frame_end bs flen) (co, s) = Some ((), co, s') \<and> rep n (co, s') (snd (tv_spec hdr send n (Frame_end bs flen) a))"
proof -
  obtain s1 where s1: "dma_node bs s = Some s1" "rep n (co, s1) a"
    "unat (rx_read_len (tv_st s1)) + length bs \<le> length (rxbuf (tv_st s1))"
    "take (length bs) (drop (unat (rx_read_len (tv_st s1))) (rxbuf (tv_st s1))) = bs"
    using dma_rep [OF assms] by meson
  let ?p = "drop (unat (rx_read_len (tv_st s1))) (rxbuf (tv_st s1))" and ?len = "of_nat (length bs) :: u32"
  define a1 where "a1 = (if bs = [] then a else abs_rx hdr n bs 1 flen a)"
  have n: "node_len (tv_st s) = n" "node_len (tv_st s1) = n" "unat n \<le> 1472"
    using assms(1) s1(2) node_small [OF assms(1)] by (simp_all add: tv_rep_def TVIDEO_RXNODE_SIZE_def)
  have len: "unat ?len = length bs"
    using assms(2) n(3) by (simp add: unat_of_nat)
  have sgn: "0 <s ?len \<longleftrightarrow> bs \<noteq> []"
  proof -
    have "sint ?len = int (length bs)"
      using len assms(2) n(3) by (simp only: sint_uint uint_nat len) (simp add: signed_take_bit_int_eq_self)
    then show ?thesis
      by (simp add: word_sless_alt)
  qed
  obtain s2 where s2: "(if 0 <s ?len then tvideo_rx_handler co ?p ?len 1 flen s1 else Some s1) = Some s2" "rep n (co, s2) a1"
    "tv_st s2 = tv_st s1"
  proof (cases "bs = []")
    case False
    have "?len \<le> n"
      using len assms(2) by (simp add: word_le_nat_alt)
    then show ?thesis
      using rx_handler_rep [OF s1(2), of ?len ?p 1 flen] s1(3,4) len sgn False that
      by (auto simp: a1_def le_diff_conv2 add.commute)
  qed (use s1(2) sgn that in \<open>auto simp: a1_def\<close>)
  have "rep n (co, tvideo_end_frame_handler (s2\<lparr>tv_st := (tv_st s2)\<lparr>rx_read_len := 0\<rparr>\<rparr>))
    (snd (tv_spec hdr send n (Frame_end bs flen) a))"
  proof -
    have "ab_frame_id a1 = ab_frame_id a"
      by (simp add: a1_def abs_rx_def Let_def split: prod.splits)
    then have "snd (tv_spec hdr send n (Frame_end bs flen) a)
        = a1\<lparr>ab_frame_id := ab_frame_id a1 + 1, ab_msgs := min TV_QITEM_COUNT (ab_msgs a1 + 1)\<rparr>"
      by (simp add: Let_def flip: a1_def)
    then show ?thesis
      using end_handler_rep [OF st_rep [OF s2(2), of 0 0]] by (simp add: rx_pos_simps)
  qed
  moreover have "camera_intf_delay_timer_hdl co True (n - ?len) flen s1
      = Some (tvideo_end_frame_handler (s2\<lparr>tv_st := (tv_st s2)\<lparr>rx_read_len := 0\<rparr>\<rparr>))"
  proof (cases "0 <s ?len")
    case True
    then have "tvideo_rx_handler co ?p ?len 1 flen s1 = Some s2"
      using s2(1) by (simp only: if_True)
    then show ?thesis
      using s1(3) True by (simp add: camera_intf_delay_timer_hdl_def Let_def n(2) s2(3))
  next
    case False
    then have "s1 = s2"
      using s2(1) by (simp only: if_False option.inject)
    then show ?thesis
      using s1(3) False n(2) by (simp add: camera_intf_delay_timer_hdl_def Let_def)
  qed
  ultimately show ?thesis
    using s1(1) by (auto simp: n(1))
qed

lemma tv_step_law:
  assumes "rep n cs a" "tv_op_ok send n x a"
  shows "\<exists>s'. tv_step x cs = Some (fst (tv_spec hdr send n x a), s') \<and> rep n s' (snd (tv_spec hdr send n x a))"
proof -
  obtain co s where "cs = (co, s)"
    by fastforce
  then show ?thesis
    using assms node_rep [of n co s a] frame_end_rep [of n co s a] turn_rep [of n co s a]
    by (cases x) fastforce+
qed

lemma start_rep:
  assumes "co_list_ok co" "su_open_type setup \<noteq> TVIDEO_OPEN_SPIDMA" "su_send_type setup = TVIDEO_SND_INTF"
    "su_send_func setup = Some send" "su_add_pkt_header setup = Some hdr" "su_pkt_header_size setup = of_nat hs"
    "hs < TVIDEO_RXNODE_SIZE" "4 * TVIDEO_RXNODE_SIZE \<le> length (rxbuf (tv_st s))" "tv_que s = []"
  shows "rep (TVIDEO_RXNODE_SIZE_UDP - of_nat hs)
    (co, tvideo_config_desc ppi fps (tvideo_pool_init co setup s)) (tv_fresh (tv_world s))"
proof -
  have h: "hs < 1472"
    using assms(7) by (simp add: TVIDEO_RXNODE_SIZE_def)
  then have u: "unat (ucast (of_nat hs :: u32) :: u16) = hs" "unat (of_nat hs :: u32) = hs"
    by (simp_all add: unsigned_ucast_eq take_bit_nat_eq_self unat_of_nat)
  have up: "ucast (ucast (of_nat hs :: u32) :: u16) = (of_nat hs :: u32)"
    by (rule iffD2 [OF word_unat_eq_iff]) (simp only: unat_ucast16 u)
  have n: "unat (TVIDEO_RXNODE_SIZE_UDP - of_nat hs) = 1472 - hs"
    using h u(2) by (subst unat_sub) (auto simp: TVIDEO_RXNODE_SIZE_UDP_def word_le_nat_alt)
  then have "0 < TVIDEO_RXNODE_SIZE_UDP - of_nat hs"
    using h by (simp add: word_less_nat_alt)
  then show ?thesis
    using assms n u up h
    by (simp add: tv_rep_def tv_fresh_def pool_ok_def tvideo_config_desc_def tvideo_pool_init_def co_laws co_elems_fold
        Let_def TVIDEO_SND_INTF_def TVIDEO_SND_UDP_def TVIDEO_SND_TCP_def rx_pos_def TVIDEO_RXNODE_SIZE_def)
      (auto intro: exI [of _ 0])
qed

end

end
