(* ===== verification/VideoBuffer.thy ===== *)
theory VideoBuffer
  imports VideoTransfer
begin

text \<open>
  The video buffer of \<open>app/video_work/video_buffer.c\<close>: the client of the packet pool that numbers the
  packets of a frame and puts them together again in the buffer of a reader.

  The pointer \<open>buf_ptr\<close> is its distance from \<open>buf_base\<close>, and the reader's buffer is part of the state
  while he waits.  \<open>video_buffer_read_frame\<close> blocks, so it is two steps: what it does before it waits for
  the semaphore and what it does after.  \<open>None\<close> is an access outside the reader's buffer or through a
  null pointer.
\<close>

subsection \<open>State\<close>

definition VB_HDR_SIZE :: nat where "VB_HDR_SIZE = 4"
definition BUF_STA_INIT :: u32 where "BUF_STA_INIT = 0"
definition BUF_STA_COPY :: u32 where "BUF_STA_COPY = 1"
definition BUF_STA_GET :: u32 where "BUF_STA_GET = 2"
definition BUF_STA_FULL :: u32 where "BUF_STA_FULL = 3"
definition BUF_STA_ERR :: u32 where "BUF_STA_ERR = 4"

record VBUF_ST =
  aready_semaphore :: bool
  buf_base :: "u8 list option"
  buf_len :: u32
  frame_id :: u32
  frame_pkt_cnt :: u32
  buf_ptr :: nat
  frame_len :: u32
  start_buf :: u32

record video_mem =
  g_pkt_seq :: u32
  g_vbuf :: "VBUF_ST option"

subsection \<open>Packets\<close>

definition video_buffer_add_pkt_header :: "TV_HDR_PARAM_ST \<Rightarrow> video_mem \<Rightarrow> u8 list \<times> video_mem" where
  "video_buffer_add_pkt_header param w =
     (let q = g_pkt_seq w + 1 in
      ([ucast (param_frame_id param), ucast (param_is_eof param), ucast (param_frame_len param), ucast q],
       w\<lparr>g_pkt_seq := if param_is_eof param \<noteq> 0 then 0 else q\<rparr>))"

text \<open>The test of a finished frame: the markers of a JPEG image and the length behind them.\<close>

definition right_image :: "u8 list \<Rightarrow> u32 \<Rightarrow> bool option" where
  "right_image b flen =
     do {
       s0 \<leftarrow> mem_byte b 0;
       if s0 \<noteq> 0xFF then Some False else do {
       s1 \<leftarrow> mem_byte b 1;
       if s1 \<noteq> 0xD8 then Some False
       else if flen < 7 then None else do {
       e0 \<leftarrow> mem_byte b (unat (flen - 7));
       if e0 \<noteq> 0xFF then Some False else do {
       e1 \<leftarrow> mem_byte b (unat (flen - 7) + 1);
       if e1 \<noteq> 0xD9 then Some False else do {
       crc \<leftarrow> mem_load b (unat (flen - 7) + 3) 4;
       Some (get32 crc 0 = flen - 5) } } } } }"

text \<open>A packet that follows the last one of its frame.\<close>

definition take_packet :: "u8 list \<Rightarrow> bool \<Rightarrow> u8 list \<Rightarrow> VBUF_ST \<Rightarrow> VBUF_ST option" where
  "take_packet b eof payload v =
     (if of_nat (length payload) \<le> buf_len v - frame_len v
      then do {
        b' \<leftarrow> mem_store b (buf_ptr v) payload;
        let v1 = v\<lparr>buf_base := Some b', frame_len := frame_len v + of_nat (length payload),
                   buf_ptr := buf_ptr v + length payload, frame_pkt_cnt := frame_pkt_cnt v + 1\<rparr>;
        if eof
        then do {
          right \<leftarrow> right_image b' (frame_len v1);
          Some (v1\<lparr>start_buf := if right then BUF_STA_GET else BUF_STA_ERR, aready_semaphore := True\<rparr>) }
        else Some v1 }
      else Some (v\<lparr>start_buf := BUF_STA_FULL, aready_semaphore := True\<rparr>))"

definition video_buffer_recv_video_data :: "u8 list \<Rightarrow> video_mem \<Rightarrow> (u32 \<times> video_mem) option" where
  "video_buffer_recv_video_data data w =
     do {
       v \<leftarrow> g_vbuf w;
       let len = (of_nat (length data) :: u32);
       (case buf_base v of
          None \<Rightarrow> Some (len, w)
        | Some b \<Rightarrow>
            if start_buf v \<noteq> BUF_STA_COPY \<and> start_buf v \<noteq> BUF_STA_INIT then Some (len, w)
            else if length data < VB_HDR_SIZE then Some (len, w)
            else
              (let hid = data ! 0; eof = data ! 1; seq = data ! 3;
                   v1 = (if ucast hid \<noteq> frame_id v \<and> seq = 1
                         then v\<lparr>frame_id := ucast hid, frame_len := 0, frame_pkt_cnt := 0, buf_ptr := 0,
                                start_buf := BUF_STA_COPY\<rparr>
                         else v)
               in if ucast hid = frame_id v1 \<and> frame_pkt_cnt v1 + 1 = ucast seq \<and> start_buf v1 = BUF_STA_COPY
                  then map_option (\<lambda>v2. (len, w\<lparr>g_vbuf := Some v2\<rparr>)) (take_packet b (eof = 1) (drop VB_HDR_SIZE data) v1)
                  else Some (len, w\<lparr>g_vbuf := Some v1\<rparr>))) }"

subsection \<open>The reader\<close>

definition vbuf_boot :: VBUF_ST where
  "vbuf_boot = \<lparr>aready_semaphore = False, buf_base = None, buf_len = 0, frame_id = 0xffff, frame_pkt_cnt = 0,
     buf_ptr = 0, frame_len = 0, start_buf = BUF_STA_INIT\<rparr>"

text \<open>\<open>mal\<close>, \<open>sem_ok\<close> and \<open>init_ret\<close> are the answers of the allocation, of the semaphore and of
  \<open>video_transfer_init\<close>.\<close>

definition video_buffer_open :: "bool \<Rightarrow> bool \<Rightarrow> int \<Rightarrow> video_mem \<Rightarrow> int \<times> video_mem" where
  "video_buffer_open mal sem_ok init_ret w =
     (if g_vbuf w \<noteq> None then (0, w)
      else if \<not> mal then (-6728, w)
      else if \<not> sem_ok then (-1, w)
      else if init_ret \<noteq> 0 then (-6755, w)
      else (1, w\<lparr>g_vbuf := Some vbuf_boot\<rparr>))"

definition video_buffer_setup :: "video_mem TVIDEO_SETUP_DESC_ST" where
  "video_buffer_setup = \<lparr>su_open_type = TVIDEO_OPEN_SCCB, su_send_type = TVIDEO_SND_INTF,
     su_send_func = Some video_buffer_recv_video_data, su_pkt_header_size = of_nat VB_HDR_SIZE,
     su_add_pkt_header = Some video_buffer_add_pkt_header\<rparr>"

text \<open>Before the wait: the error code when the call returns at once, with the length 0.\<close>

definition read_frame_start :: "u8 list option \<Rightarrow> u32 \<Rightarrow> video_mem \<Rightarrow> int option \<times> video_mem" where
  "read_frame_start buf len w =
     (case buf of
        None \<Rightarrow> (Some (-1), w)
      | Some b \<Rightarrow>
          if len = 0 then (Some (-1), w)
          else (case g_vbuf w of
                  None \<Rightarrow> (Some (-5), w)
                | Some v \<Rightarrow>
                    if buf_base v = None
                    then (None, w\<lparr>g_vbuf := Some (v\<lparr>aready_semaphore := False, buf_base := Some b, buf_len := len\<rparr>)\<rparr>)
                    else (Some (-5), w)))"

text \<open>After the wait: the length that is returned, the error code, the reader's buffer and the state.  The
  wait ends with the semaphore when it is set and else with a timeout.\<close>

definition read_frame_finish :: "u32 \<Rightarrow> video_mem \<Rightarrow> ((u32 \<times> int \<times> u8 list) \<times> video_mem) option" where
  "read_frame_finish len w =
     do {
       v \<leftarrow> g_vbuf w;
       b \<leftarrow> buf_base v;
       let (flen, err) =
         (if aready_semaphore v
          then (if start_buf v = BUF_STA_GET then (frame_len v, 0)
                else if start_buf v = BUF_STA_FULL then (0, -2)
                else if start_buf v = BUF_STA_ERR then (0, -3)
                else (0, -4))
          else (0, -5));
       Some ((if len \<le> flen then len else flen, err, b),
         w\<lparr>g_vbuf := Some (v\<lparr>aready_semaphore := False, start_buf := BUF_STA_INIT, buf_base := None, buf_len := 0\<rparr>)\<rparr>) }"

subsection \<open>Receiving a frame\<close>

definition vb_packet :: "u8 \<Rightarrow> u8 \<Rightarrow> u8 \<Rightarrow> nat \<Rightarrow> u8 list \<Rightarrow> u8 list" where
  "vb_packet hid eof cnt q bs = [hid, eof, cnt, of_nat q] @ bs"

text \<open>\<open>copying hid k d r v\<close>: \<open>k\<close> packets with the bytes \<open>d\<close> of frame \<open>hid\<close> are in the reader's buffer, and \<open>r\<close> is the
  rest of the buffer.\<close>

definition copying :: "u8 \<Rightarrow> nat \<Rightarrow> u8 list \<Rightarrow> u8 list \<Rightarrow> VBUF_ST \<Rightarrow> bool" where
  "copying hid k d r v \<longleftrightarrow> start_buf v = BUF_STA_COPY \<and> frame_id v = ucast hid \<and> frame_pkt_cnt v = of_nat k \<and>
     buf_ptr v = length d \<and> frame_len v = of_nat (length d) \<and> buf_base v = Some (d @ r) \<and>
     unat (buf_len v) = length (d @ r)"

definition restarted :: "u8 \<Rightarrow> VBUF_ST \<Rightarrow> VBUF_ST" where
  "restarted hid v = v\<lparr>frame_id := ucast hid, frame_len := 0, frame_pkt_cnt := 0, buf_ptr := 0, start_buf := BUF_STA_COPY\<rparr>"

definition waiting :: "u8 list \<Rightarrow> VBUF_ST \<Rightarrow> bool" where
  "waiting b v \<longleftrightarrow> buf_base v = Some b \<and> unat (buf_len v) = length b \<and>
     (start_buf v = BUF_STA_INIT \<or> start_buf v = BUF_STA_COPY)"

lemma packet_simps [simp]:
  "vb_packet hid eof cnt q bs ! 0 = hid" "vb_packet hid eof cnt q bs ! Suc 0 = eof" "vb_packet hid eof cnt q bs ! 3 = of_nat q"
  "drop VB_HDR_SIZE (vb_packet hid eof cnt q bs) = bs" "length (vb_packet hid eof cnt q bs) = length bs + 4"
  "\<not> n + 4 < VB_HDR_SIZE"
  by (simp_all add: vb_packet_def VB_HDR_SIZE_def)

lemma unat_ucast8: "unat (ucast (x :: u8) :: u32) = unat x"
proof -
  have "unat x < 2 ^ 8"
    using unsigned_less [of x] by simp
  then show ?thesis
    by (simp add: unsigned_ucast_eq take_bit_nat_eq_self)
qed

lemma ucast8_eq: "(ucast (x :: u8) :: u32) = ucast y \<longleftrightarrow> x = y"
  by (simp only: word_unat_eq_iff unat_ucast8)

lemma seq_byte: "k < 256 \<Longrightarrow> ucast (of_nat k :: u8) = (of_nat k :: u32)"
  by (rule iffD2 [OF word_unat_eq_iff]) (simp add: unsigned_ucast_eq unat_of_nat take_bit_nat_eq_self)

lemma seq_one: "k < 255 \<Longrightarrow> (of_nat (Suc k) :: u8) = 1 \<longleftrightarrow> k = 0"
  by (simp add: word_unat_eq_iff unat_of_nat del: of_nat_Suc)

lemma recv_in_order:
  assumes "g_vbuf w = Some v" "copying hid k d r v" "k < 255"
  shows "video_buffer_recv_video_data (vb_packet hid eof cnt (k + 1) bs) w
    = map_option (\<lambda>v2. (of_nat (length bs + 4), w\<lparr>g_vbuf := Some v2\<rparr>)) (take_packet (d @ r) (eof = 1) bs v)"
proof -
  have "frame_pkt_cnt v + 1 = ucast (of_nat (k + 1) :: u8)"
    using assms(2,3) seq_byte [of "k + 1"] by (simp add: copying_def)
  then show ?thesis
    using assms(1,2) by (simp add: video_buffer_recv_video_data_def copying_def Let_def)
qed

lemma recv_first:
  assumes "g_vbuf w = Some v" "waiting b v" "frame_id v \<noteq> ucast hid"
  shows "video_buffer_recv_video_data (vb_packet hid eof cnt 1 bs) w
    = video_buffer_recv_video_data (vb_packet hid eof cnt 1 bs) (w\<lparr>g_vbuf := Some (restarted hid v)\<rparr>)"
    "copying hid 0 [] b (restarted hid v)"
  using assms
  by (auto simp: video_buffer_recv_video_data_def restarted_def waiting_def copying_def Let_def)

lemma recv_other:
  assumes "g_vbuf w = Some v" "copying hid k d r v" "hid' \<noteq> hid" "(of_nat q :: u8) \<noteq> 1"
  shows "video_buffer_recv_video_data (vb_packet hid' eof cnt q bs) w = Some (of_nat (length bs + 4), w)"
proof -
  have "w\<lparr>g_vbuf := Some v\<rparr> = w"
    using assms(1) by (simp flip: assms(1))
  then show ?thesis
    using assms by (simp add: video_buffer_recv_video_data_def copying_def Let_def ucast8_eq)
qed

lemma room_left:
  assumes "copying hid k d r v" "length bs < 2 ^ 32"
  shows "of_nat (length bs) \<le> buf_len v - frame_len v \<longleftrightarrow> length bs \<le> length r"
proof -
  have l: "length d + length r < 4294967296" "unat (buf_len v) = length d + length r"
    using assms(1) unat_lt_2p32 [of "buf_len v"] by (simp_all add: copying_def)
  then have f: "unat (frame_len v) = length d"
    using assms(1) by (simp add: copying_def unat_of_nat)
  then have "unat (buf_len v - frame_len v) = length r"
    using l(2) by (subst unat_sub_no_wrap) (auto simp: word_le_nat_alt)
  then show ?thesis
    using assms(2) by (simp add: word_le_nat_alt unat_of_nat)
qed

definition after_packet :: "u8 list \<Rightarrow> u8 list \<Rightarrow> u8 list \<Rightarrow> VBUF_ST \<Rightarrow> VBUF_ST" where
  "after_packet d bs r v = v\<lparr>buf_base := Some (d @ bs @ drop (length bs) r), frame_len := frame_len v + of_nat (length bs),
     buf_ptr := buf_ptr v + length bs, frame_pkt_cnt := frame_pkt_cnt v + 1\<rparr>"

lemma after_copying:
  assumes "copying hid k d r v" "length bs \<le> length r"
  shows "copying hid (k + 1) (d @ bs) (drop (length bs) r) (after_packet d bs r v)"
  using assms by (simp add: copying_def after_packet_def)

lemma take_packet_fits:
  assumes "copying hid k d r v" "length bs \<le> length r" "length bs < 2 ^ 32"
  shows "take_packet (d @ r) eof bs v =
    (if eof
     then map_option (\<lambda>right. (after_packet d bs r v)\<lparr>start_buf := if right then BUF_STA_GET else BUF_STA_ERR,
                                aready_semaphore := True\<rparr>)
            (right_image (d @ bs @ drop (length bs) r) (of_nat (length (d @ bs))))
     else Some (after_packet d bs r v))"
proof -
  have "mem_store (d @ r) (buf_ptr v) bs = Some (d @ bs @ drop (length bs) r)"
    using assms(1,2) by (simp add: copying_def)
  moreover have "frame_len v + of_nat (length bs) = of_nat (length (d @ bs))"
    using assms(1) by (simp add: copying_def)
  ultimately show ?thesis
    using assms(2) room_left [OF assms(1,3)] assms(1)
    by (simp add: take_packet_def after_packet_def Let_def copying_def map_option_case split: option.splits)
qed

lemma take_packet_full:
  assumes "copying hid k d r v" "length r < length bs" "length bs < 2 ^ 32"
  shows "take_packet (d @ r) eof bs v = Some (v\<lparr>start_buf := BUF_STA_FULL, aready_semaphore := True\<rparr>)"
  using assms(2) room_left [OF assms(1,3)] by (simp add: take_packet_def)

text \<open>The image test, on the bytes of the frame alone.\<close>

definition jpeg_frame :: "u8 list \<Rightarrow> bool" where
  "jpeg_frame D \<longleftrightarrow> 7 \<le> length D \<and> D ! 0 = 0xFF \<and> D ! 1 = 0xD8 \<and>
     D ! (length D - 7) = 0xFF \<and> D ! (length D - 6) = 0xD9 \<and>
     get32 (drop (length D - 4) D) 0 = of_nat (length D - 5)"

lemma right_image_ok:
  assumes "7 \<le> length D" "length D < 2 ^ 32"
  shows "right_image (D @ r) (of_nat (length D)) = Some (jpeg_frame D)"
proof -
  have u: "unat (of_nat (length D) - 7 :: u32) = length D - 7"
    using assms by (subst unat_sub_no_wrap) (auto simp: word_le_nat_alt unat_of_nat)
  have five: "(of_nat (length D) - 5 :: u32) = of_nat (length D - 5)"
    using assms(1) by (simp add: of_nat_diff)
  have g: "\<not> (of_nat (length D) :: u32) < 7"
    using assms by (simp add: word_less_nat_alt unat_of_nat)
  have b: "mem_byte (D @ r) i = Some (D ! i)" if "i < length D" for i
    using that by (simp add: mem_byte_def nth_append)
  have p: "0 < length D" "1 < length D" "length D - 7 < length D" "length D - 6 < length D" "length D - 7 + 1 = length D - 6"
    using assms(1) by linarith+
  note i = p(5) b [OF p(1)] b [OF p(2)] b [OF p(3)] b [OF p(4)]
  have l: "mem_load (D @ r) (length D - 7 + 3) 4 = Some (drop (length D - 4) D)"
    using assms(1) by (simp add: mem_load_def)
  show ?thesis
    unfolding right_image_def jpeg_frame_def u five i l bind.bind_lunit
    using assms(1) g by (simp del: One_nat_def)
qed

subsection \<open>The buffer as client of the pool\<close>

interpretation vb: tv_client video_buffer_add_pkt_header video_buffer_recv_video_data VB_HDR_SIZE
proof
  fix p w
  show "length (fst (video_buffer_add_pkt_header p w)) = VB_HDR_SIZE"
    by (simp add: video_buffer_add_pkt_header_def VB_HDR_SIZE_def Let_def)
next
  fix bs w m w'
  assume "video_buffer_recv_video_data bs w = Some (m, w')"
  then show "m = of_nat (length bs)"
    by (auto simp: video_buffer_recv_video_data_def Let_def split: bind_splits option.splits if_splits)
qed

abbreviation "vb_rep \<equiv> tv_rep video_buffer_add_pkt_header video_buffer_recv_video_data VB_HDR_SIZE"
abbreviation "vb_spec \<equiv> tv_spec video_buffer_add_pkt_header video_buffer_recv_video_data"
abbreviation "vb_op_ok \<equiv> tv_op_ok video_buffer_recv_video_data"
abbreviation "vb_deliver \<equiv> deliver video_buffer_recv_video_data"
abbreviation "vb_rx \<equiv> abs_rx video_buffer_add_pkt_header"

interpretation vbq: simulation "vb_rep n" tv_step "vb_spec n" "vb_op_ok n" for n
  by unfold_locales (rule vb.tv_step_law)

lemma recv_seq:
  "video_buffer_recv_video_data p (w\<lparr>g_pkt_seq := x\<rparr>)
    = map_option (\<lambda>(m, w1). (m, w1\<lparr>g_pkt_seq := x\<rparr>)) (video_buffer_recv_video_data p w)"
  by (auto simp: video_buffer_recv_video_data_def Let_def map_option_case split: option.splits bind_splits)

lemma deliver_append: "deliver send (ps @ qs) w = do { w1 \<leftarrow> deliver send ps w; deliver send qs w1 }"
  by (induction ps arbitrary: w) (auto simp: split: bind_splits)

lemma deliver_seq: "vb_deliver ps (w\<lparr>g_pkt_seq := x\<rparr>) = map_option (\<lambda>w1. w1\<lparr>g_pkt_seq := x\<rparr>) (vb_deliver ps w)"
proof (induction ps arbitrary: w)
  case (Cons p ps)
  then show ?case
    by (cases "video_buffer_recv_video_data p w") (auto simp: recv_seq)
qed simp

text \<open>What becomes of the queue when it is delivered.\<close>

definition settled :: "video_mem tv_abs \<Rightarrow> video_mem option" where
  "settled a = vb_deliver (ab_queue a) (ab_world a)"

definition hid_of :: "u16 \<Rightarrow> u8" where
  "hid_of i = ucast (ucast i :: u32)"

lemma ucast_of_nat8: "ucast (of_nat q :: u32) = (of_nat q :: u8)"
proof (rule iffD2 [OF word_unat_eq_iff])
  have "q mod 2 ^ 32 mod 2 ^ 8 = q mod 2 ^ 8"
    by (rule mod_mod_cancel) simp
  then show "unat (ucast (of_nat q :: u32) :: u8) = unat (of_nat q :: u8)"
    by (simp add: unsigned_ucast_eq unat_of_nat take_bit_eq_mod)
qed

lemma settled_rx:
  assumes "c \<noteq> []" "0 < ab_free a" "settled a = Some w" "g_pkt_seq (ab_world a) = of_nat k"
  shows "\<exists>cnt. settled (vb_rx n c eof flen a) =
    map_option snd (video_buffer_recv_video_data (vb_packet (hid_of (ab_frame_id a)) (ucast eof) cnt (k + 1) c)
      (w\<lparr>g_pkt_seq := if eof \<noteq> 0 then 0 else of_nat (k + 1)\<rparr>))"
proof -
  let ?p = "header_param n (of_nat (length c)) eof flen (ab_frame_id a)"
  let ?q = "if eof \<noteq> 0 then 0 else of_nat (k + 1) :: u32"
  have b: "ucast (of_nat (k + 1) :: u32) = (of_nat (k + 1) :: u8)"
    by (rule ucast_of_nat8)
  have h: "video_buffer_add_pkt_header ?p (ab_world a)
      = ([hid_of (ab_frame_id a), ucast eof, ucast (param_frame_len ?p), of_nat (k + 1)], (ab_world a)\<lparr>g_pkt_seq := ?q\<rparr>)"
    using assms(4) b by (simp add: video_buffer_add_pkt_header_def Let_def header_param_def hid_of_def add.commute)
  have "settled (vb_rx n c eof flen a) =
      vb_deliver (ab_queue a @ [vb_packet (hid_of (ab_frame_id a)) (ucast eof) (ucast (param_frame_len ?p)) (k + 1) c])
        ((ab_world a)\<lparr>g_pkt_seq := ?q\<rparr>)"
    using assms(1,2) h by (simp add: settled_def abs_rx_def Let_def vb_packet_def)
  also have "\<dots> = map_option snd (video_buffer_recv_video_data
      (vb_packet (hid_of (ab_frame_id a)) (ucast eof) (ucast (param_frame_len ?p)) (k + 1) c) (w\<lparr>g_pkt_seq := ?q\<rparr>))"
    using assms(3) by (simp add: deliver_append deliver_seq settled_def map_option_case split: option.splits bind_splits)
  finally show ?thesis
    by blast
qed

text \<open>The frame \<open>hid\<close> after \<open>k\<close> packets with the bytes \<open>d\<close>: where they are when the queue is delivered.\<close>

definition frame_inv :: "u8 \<Rightarrow> u8 list \<Rightarrow> nat \<Rightarrow> u8 list \<Rightarrow> video_mem tv_abs \<Rightarrow> bool" where
  "frame_inv hid b k d a \<longleftrightarrow>
     (\<exists>w v. settled a = Some w \<and> g_vbuf w = Some v \<and> \<not> aready_semaphore v \<and>
        (if k = 0 then d = [] \<and> waiting b v \<and> frame_id v \<noteq> ucast hid
         else copying hid k d (drop (length d) b) v)) \<and>
     length d \<le> length b \<and> g_pkt_seq (ab_world a) = of_nat k \<and> hid_of (ab_frame_id a) = hid \<and>
     (ab_queue a \<noteq> [] \<longrightarrow> 0 < ab_msgs a)"

lemma recv_next:
  assumes "g_vbuf w = Some v" "k < 255" "length bs < 2 ^ 32"
    "if k = 0 then d = [] \<and> waiting b v \<and> frame_id v \<noteq> ucast hid else copying hid k d (drop (length d) b) v"
  shows "\<exists>v1. copying hid k d (drop (length d) b) v1 \<and> aready_semaphore v1 = aready_semaphore v \<and>
    video_buffer_recv_video_data (vb_packet hid eof cnt (k + 1) bs) w =
      map_option (\<lambda>v2. (of_nat (length bs + 4), w\<lparr>g_vbuf := Some v2\<rparr>))
        (take_packet (d @ drop (length d) b) (eof = 1) bs v1)"
proof (cases "k = 0")
  case True
  then show ?thesis
    using recv_first(1) [of w v b hid eof cnt bs] recv_first(2) [of w v b hid] recv_in_order [of "w\<lparr>g_vbuf := Some (restarted hid v)\<rparr>" "restarted hid v" hid 0 "[]" b eof cnt bs]
      assms by (auto simp: restarted_def)
next
  case False
  then show ?thesis
    using recv_in_order [OF assms(1) _ assms(2)] assms(4) by auto
qed

lemma deliver_keeps_seq: "vb_deliver ps w = Some w1 \<Longrightarrow> g_pkt_seq w1 = g_pkt_seq w"
  using deliver_seq [where ps = ps and w = w and x = "g_pkt_seq w"] by (cases w1) auto

lemma frame_inv_node:
  assumes "frame_inv hid b k d a" "0 < ab_free a" "k < 255" "c \<noteq> []" "length (d @ c) \<le> length b" "length c < 2 ^ 32"
  shows "frame_inv hid b (k + 1) (d @ c) (vb_rx n c 0 0 a)"
proof -
  obtain w v where w: "settled a = Some w" "g_vbuf w = Some v"
    "if k = 0 then d = [] \<and> waiting b v \<and> frame_id v \<noteq> ucast hid else copying hid k d (drop (length d) b) v"
    "\<not> aready_semaphore v"
    using assms(1) by (auto simp: frame_inv_def)
  have a: "g_pkt_seq (ab_world a) = of_nat k" "hid_of (ab_frame_id a) = hid"
    using assms(1) by (auto simp: frame_inv_def)
  let ?w = "w\<lparr>g_pkt_seq := of_nat (k + 1)\<rparr>"
  obtain cnt where cnt: "settled (vb_rx n c 0 0 a) = map_option snd (video_buffer_recv_video_data (vb_packet hid 0 cnt (k + 1) c) ?w)"
    using settled_rx [OF assms(4,2) w(1) a(1), of n 0 0] a(2) by auto
  obtain v1 where v1: "copying hid k d (drop (length d) b) v1"
    "video_buffer_recv_video_data (vb_packet hid 0 cnt (k + 1) c) ?w =
      map_option (\<lambda>v2. (of_nat (length c + 4), ?w\<lparr>g_vbuf := Some v2\<rparr>)) (take_packet (d @ drop (length d) b) (0 = (1 :: u8)) c v1)"
    "\<not> aready_semaphore v1"
    using recv_next [of ?w v k c d b hid 0 cnt] w(2-4) assms(3,6) by auto
  have fits: "length c \<le> length (drop (length d) b)"
    using assms(5) by simp
  have "settled (vb_rx n c 0 0 a) = Some (?w\<lparr>g_vbuf := Some (after_packet d c (drop (length d) b) v1)\<rparr>)"
    using cnt v1(2) take_packet_fits [OF v1(1) fits assms(6), of False] by simp
  moreover have "copying hid (k + 1) (d @ c) (drop (length (d @ c)) b) (after_packet d c (drop (length d) b) v1)"
    "\<not> aready_semaphore (after_packet d c (drop (length d) b) v1)"
    using after_copying [OF v1(1) fits] v1(3) by (simp_all add: add.commute after_packet_def)
  moreover have "g_pkt_seq (ab_world (vb_rx n c 0 0 a)) = of_nat (k + 1)" "hid_of (ab_frame_id (vb_rx n c 0 0 a)) = hid"
    "0 < ab_msgs (vb_rx n c 0 0 a)"
    using assms(2,4) a by (simp_all add: abs_rx_def video_buffer_add_pkt_header_def header_param_def Let_def TV_QITEM_COUNT_def)
  ultimately show ?thesis
    using assms(5) by (auto simp: frame_inv_def)
qed

lemma frame_inv_turn:
  assumes "frame_inv hid b k d a"
  shows "frame_inv hid b k d (snd (vb_spec n Turn a))" "vb_op_ok n Turn a"
proof -
  obtain w where w: "settled a = Some w"
    using assms by (auto simp: frame_inv_def)
  show "vb_op_ok n Turn a"
    using w by (simp add: settled_def)
  show "frame_inv hid b k d (snd (vb_spec n Turn a))"
  proof (cases "ab_msgs a = 0")
    case False
    let ?a = "(abs_poll video_buffer_recv_video_data a)\<lparr>ab_msgs := ab_msgs a - 1\<rparr>"
    have "settled ?a = settled a" "g_pkt_seq (ab_world ?a) = g_pkt_seq (ab_world a)" "ab_frame_id ?a = ab_frame_id a"
      "ab_queue ?a = []"
      using w deliver_keeps_seq [of "ab_queue a" "ab_world a" w] by (simp_all add: settled_def abs_poll_def)
    then have "frame_inv hid b k d ?a"
      using assms unfolding frame_inv_def by presburger
    then show ?thesis
      using False by simp
  qed (use assms in simp)
qed

subsection \<open>A frame on its way to the reader\<close>

text \<open>The nodes of a frame, and the turns of the task between them.  \<open>room ops f q\<close>: with \<open>f\<close> free elements and
  \<open>q\<close> waiting packets an element is free for each of the nodes and for one more.\<close>

fun chunks :: "tv_op list \<Rightarrow> u8 list list" where
  "chunks [] = []"
| "chunks (Node bs # ops) = bs # chunks ops"
| "chunks (_ # ops) = chunks ops"

fun within_frame :: "u32 \<Rightarrow> tv_op \<Rightarrow> bool" where
  "within_frame n (Node bs) \<longleftrightarrow> length bs = unat n"
| "within_frame n (Frame_end bs flen) \<longleftrightarrow> False"
| "within_frame n Turn \<longleftrightarrow> True"

fun room :: "tv_op list \<Rightarrow> nat \<Rightarrow> nat \<Rightarrow> bool" where
  "room [] f q \<longleftrightarrow> 0 < f"
| "room (Node bs # ops) f q \<longleftrightarrow> 0 < f \<and> room ops (f - 1) (q + 1)"
| "room (Turn # ops) f q \<longleftrightarrow> room ops (f + q) 0"
| "room (Frame_end bs flen # ops) f q \<longleftrightarrow> False"

lemma turn_room:
  assumes "frame_inv hid b k d a"
  shows "ab_free (snd (vb_spec n Turn a)) = ab_free a + length (ab_queue a)" "ab_queue (snd (vb_spec n Turn a)) = []"
  using assms by (auto simp: frame_inv_def abs_poll_def)

lemma node_room:
  assumes "0 < ab_free a" "c \<noteq> []"
  shows "ab_free (vb_rx n c 0 0 a) = ab_free a - 1" "length (ab_queue (vb_rx n c 0 0 a)) = length (ab_queue a) + 1"
  using assms by (auto simp: abs_rx_def Let_def video_buffer_add_pkt_header_def)

lemma frame_run:
  assumes "frame_inv hid b k d a" "list_all (within_frame n) ops" "0 < n" "room ops (ab_free a) (length (ab_queue a))"
    "k + length (chunks ops) \<le> 255" "length (d @ concat (chunks ops)) \<le> length b"
  shows "ops_ok (vb_op_ok n) (vb_spec n) ops a \<and> 0 < ab_free (snd (spec_ops (vb_spec n) ops a)) \<and>
    frame_inv hid b (k + length (chunks ops)) (d @ concat (chunks ops)) (snd (spec_ops (vb_spec n) ops a))"
  using assms
proof (induction ops arbitrary: k d a)
  case (Cons x ops)
  show ?case
  proof (cases x)
    case (Node c)
    have c: "length c = unat n" "c \<noteq> []" "length c < 2 ^ 32"
      using Cons.prems(2,3) Node unat_lt_2p32 [of n] by (auto simp: word_gt_0 unat_eq_0)
    have "frame_inv hid b (k + 1) (d @ c) (vb_rx n c 0 0 a)"
      using frame_inv_node [OF Cons.prems(1) _ _ c(2) _ c(3)] Cons.prems(4-6) Node by simp
    then show ?thesis
      using Cons.IH [of "k + 1" "d @ c" "vb_rx n c 0 0 a"] Cons.prems Node c node_room [OF _ c(2), of a n]
      by (simp add: split_beta Let_def)
  next
    case Turn
    have "room ops (ab_free (snd (vb_spec n Turn a))) (length (ab_queue (snd (vb_spec n Turn a))))"
      using Cons.prems(4) Turn turn_room [OF Cons.prems(1), of n] by (simp del: tv_spec.simps)
    then show ?thesis
      using Cons.IH [OF frame_inv_turn(1) [OF Cons.prems(1), of n]] frame_inv_turn(2) [OF Cons.prems(1), of n]
        Cons.prems Turn
      by (simp add: split_beta Let_def del: tv_spec.simps tv_op_ok.simps)
  qed (use Cons.prems(2) in simp)
qed simp

lemma frame_end_settled:
  assumes "frame_inv hid b k d a" "0 < ab_free a" "k < 255" "c \<noteq> []" "length (d @ c) \<le> length b" "length b < 2 ^ 32"
    "7 \<le> length (d @ c)"
  shows "\<exists>w v. settled (snd (vb_spec n (Frame_end c flen) a)) = Some w \<and> g_vbuf w = Some v \<and>
    buf_base v = Some (d @ c @ drop (length (d @ c)) b) \<and> frame_len v = of_nat (length (d @ c)) \<and>
    start_buf v = (if jpeg_frame (d @ c) then BUF_STA_GET else BUF_STA_ERR) \<and> aready_semaphore v"
proof -
  obtain w v where w: "settled a = Some w" "g_vbuf w = Some v"
    "if k = 0 then d = [] \<and> waiting b v \<and> frame_id v \<noteq> ucast hid else copying hid k d (drop (length d) b) v"
    using assms(1) by (auto simp: frame_inv_def)
  have a: "g_pkt_seq (ab_world a) = of_nat k" "hid_of (ab_frame_id a) = hid"
    using assms(1) by (auto simp: frame_inv_def)
  let ?w = "w\<lparr>g_pkt_seq := 0\<rparr>"
  obtain cnt where cnt: "settled (vb_rx n c 1 flen a) = map_option snd (video_buffer_recv_video_data (vb_packet hid 1 cnt (k + 1) c) ?w)"
    using settled_rx [OF assms(4,2) w(1) a(1), of n 1 flen] a(2) by auto
  have len: "length c < 2 ^ 32" "length c \<le> length (drop (length d) b)" "length (d @ c) < 2 ^ 32"
    using assms(5,6) by simp_all
  obtain v1 where v1: "copying hid k d (drop (length d) b) v1"
    "video_buffer_recv_video_data (vb_packet hid 1 cnt (k + 1) c) ?w =
      map_option (\<lambda>v2. (of_nat (length c + 4), ?w\<lparr>g_vbuf := Some v2\<rparr>)) (take_packet (d @ drop (length d) b) (1 = (1 :: u8)) c v1)"
    using recv_next [of ?w v k c d b hid 1 cnt] w(2,3) assms(3) len(1) by auto
  have img: "right_image (d @ c @ drop (length (d @ c)) b) (of_nat (length (d @ c))) = Some (jpeg_frame (d @ c))"
    using right_image_ok [OF assms(7) len(3)] by simp
  have "take_packet (d @ drop (length d) b) True c v1 = Some ((after_packet d c (drop (length d) b) v1)
      \<lparr>start_buf := if jpeg_frame (d @ c) then BUF_STA_GET else BUF_STA_ERR, aready_semaphore := True\<rparr>)"
    using take_packet_fits [OF v1(1) len(2,1), of True] img by (simp add: add.commute)
  moreover have "buf_base (after_packet d c (drop (length d) b) v1) = Some (d @ c @ drop (length (d @ c)) b)"
    "frame_len (after_packet d c (drop (length d) b) v1) = of_nat (length (d @ c))"
    using v1(1) by (simp_all add: after_packet_def copying_def add.commute)
  moreover have "settled (snd (vb_spec n (Frame_end c flen) a)) = settled (vb_rx n c 1 flen a)"
    using assms(4) by (simp add: settled_def Let_def)
  ultimately show ?thesis
    using cnt v1(2) by simp
qed

text \<open>A frame begins when no packet waits, the reader has given his buffer and the frame has another number than
  the last one he saw.\<close>

definition frame_start :: "u8 list \<Rightarrow> video_mem tv_abs \<Rightarrow> bool" where
  "frame_start b a \<longleftrightarrow> ab_queue a = [] \<and> g_pkt_seq (ab_world a) = 0 \<and>
     (\<exists>v. g_vbuf (ab_world a) = Some v \<and> \<not> aready_semaphore v \<and> waiting b v \<and>
        frame_id v \<noteq> ucast (hid_of (ab_frame_id a)))"

lemma frame_start_inv: "frame_start b a \<Longrightarrow> frame_inv (hid_of (ab_frame_id a)) b 0 [] a"
  by (auto simp: frame_start_def frame_inv_def settled_def)

lemma spec_ops_append: "snd (spec_ops spec (xs @ ys) a) = snd (spec_ops spec ys (snd (spec_ops spec xs a)))"
  by (induction xs arbitrary: a) (auto simp: split_beta Let_def)

lemma turn_settles:
  assumes "settled a = Some w" "0 < ab_msgs a"
  shows "ab_world (snd (vb_spec n Turn a)) = w" "vb_op_ok n Turn a"
  using assms by (simp_all add: settled_def abs_poll_def)

lemma frame_end_msgs: "0 < ab_msgs (snd (vb_spec n (Frame_end c flen) a))"
  by (simp add: Let_def TV_QITEM_COUNT_def)

text \<open>The frame number of the packets is a byte, so it changes with every frame.\<close>

lemma next_hid: "hid_of (i + 1) \<noteq> hid_of i"
proof -
  have u: "unat (hid_of j) = unat j mod 256" for j
  proof -
    have "unat (ucast x :: u8) = unat x mod 256" for x :: u32
      by (simp add: unsigned_ucast_eq take_bit_eq_mod)
    then show ?thesis
      by (simp only: hid_of_def unat_ucast16)
  qed
  have "unat (i + 1) mod 256 = (unat i + 1) mod 256"
    by (simp add: unat_word_ariths mod_mod_cancel)
  also have "\<dots> \<noteq> unat i mod 256"
    by (simp add: mod_Suc)
  finally show ?thesis
    by (metis u)
qed

text \<open>A frame that never ends: the reader has \<open>k\<close> packets of it, and the packets that come have another frame
  number and numbers behind those of the reader.\<close>

definition stuck_inv :: "u8 \<Rightarrow> nat \<Rightarrow> nat \<Rightarrow> u8 list \<Rightarrow> u8 list \<Rightarrow> video_mem tv_abs \<Rightarrow> bool" where
  "stuck_inv hid q k d r a \<longleftrightarrow>
     (\<exists>w v. settled a = Some w \<and> g_vbuf w = Some v \<and> \<not> aready_semaphore v \<and> copying hid k d r v) \<and>
     0 < q \<and> q < 256 \<and> g_pkt_seq (ab_world a) = of_nat q \<and> hid_of (ab_frame_id a) \<noteq> hid \<and>
     (ab_queue a \<noteq> [] \<longrightarrow> 0 < ab_msgs a)"

lemma seq_not_one: "0 < q \<Longrightarrow> q < 256 \<Longrightarrow> (of_nat (q + 1) :: u8) \<noteq> 1"
  by (simp add: word_unat_eq_iff unat_of_nat mod_Suc del: of_nat_Suc)

lemma stuck_rx:
  assumes "stuck_inv hid q k d r a" "0 < ab_free a" "c \<noteq> []"
  shows "\<exists>w v. settled (vb_rx n c eof flen a) = Some w \<and> g_vbuf w = Some v \<and> \<not> aready_semaphore v \<and> copying hid k d r v"
proof -
  obtain w v where w: "settled a = Some w" "g_vbuf w = Some v" "\<not> aready_semaphore v" "copying hid k d r v"
    using assms(1) by (auto simp: stuck_inv_def)
  have a: "g_pkt_seq (ab_world a) = of_nat q" "hid_of (ab_frame_id a) \<noteq> hid" "0 < q" "q < 256"
    using assms(1) by (auto simp: stuck_inv_def)
  show ?thesis
    using settled_rx [OF assms(3,2) w(1) a(1), of n eof flen] recv_other [OF _ w(4) a(2) seq_not_one [OF a(3,4)]] w(2,3,4)
    by fastforce
qed

lemma stuck_inv_node:
  assumes "stuck_inv hid q k d r a" "c \<noteq> []" "q < 255"
  shows "\<exists>q' \<le> q + 1. stuck_inv hid q' k d r (vb_rx n c 0 0 a)"
proof (cases "ab_free a = 0")
  case True
  have m: "min TV_QITEM_COUNT (ab_msgs a + 1) > 0"
    by (simp add: TV_QITEM_COUNT_def)
  have e: "vb_rx n c 0 0 a = a\<lparr>ab_msgs := min TV_QITEM_COUNT (ab_msgs a + 1)\<rparr>"
    using True by (simp add: abs_rx_def)
  have "stuck_inv hid q k d r (vb_rx n c 0 0 a)"
    using assms(1) m by (simp add: e stuck_inv_def settled_def)
  then show ?thesis
    by (intro exI [of _ q]) simp
next
  case False
  have "g_pkt_seq (ab_world (vb_rx n c 0 0 a)) = of_nat (q + 1)" "ab_frame_id (vb_rx n c 0 0 a) = ab_frame_id a"
    "0 < ab_msgs (vb_rx n c 0 0 a)"
    using False assms(1,2) by (simp_all add: stuck_inv_def abs_rx_def video_buffer_add_pkt_header_def header_param_def Let_def
      TV_QITEM_COUNT_def)
  then have "stuck_inv hid (q + 1) k d r (vb_rx n c 0 0 a)"
    using stuck_rx [OF assms(1) _ assms(2), of n 0 0] False assms by (simp add: stuck_inv_def)
  then show ?thesis
    by blast
qed

lemma stuck_inv_turn:
  assumes "stuck_inv hid q k d r a"
  shows "stuck_inv hid q k d r (snd (vb_spec n Turn a))" "vb_op_ok n Turn a"
proof -
  obtain w where w: "settled a = Some w"
    using assms by (auto simp: stuck_inv_def)
  show "vb_op_ok n Turn a"
    using w by (simp add: settled_def)
  show "stuck_inv hid q k d r (snd (vb_spec n Turn a))"
  proof (cases "ab_msgs a = 0")
    case False
    let ?a = "(abs_poll video_buffer_recv_video_data a)\<lparr>ab_msgs := ab_msgs a - 1\<rparr>"
    have "settled ?a = settled a" "g_pkt_seq (ab_world ?a) = g_pkt_seq (ab_world a)" "ab_frame_id ?a = ab_frame_id a"
      "ab_queue ?a = []"
      using w deliver_keeps_seq [of "ab_queue a" "ab_world a" w] by (simp_all add: settled_def abs_poll_def)
    then have "stuck_inv hid q k d r ?a"
      using assms unfolding stuck_inv_def by presburger
    then show ?thesis
      using False by simp
  qed (use assms in simp)
qed

lemma stuck_run:
  assumes "stuck_inv hid q k d r a" "list_all (within_frame n) ops" "0 < n" "q + length (chunks ops) \<le> 255"
  shows "ops_ok (vb_op_ok n) (vb_spec n) ops a \<and> (\<exists>q'. stuck_inv hid q' k d r (snd (spec_ops (vb_spec n) ops a)))"
  using assms
proof (induction ops arbitrary: q a)
  case (Cons x ops)
  show ?case
  proof (cases x)
    case (Node c)
    have c: "length c = unat n" "c \<noteq> []"
      using Cons.prems(2,3) Node by (auto simp: word_gt_0 unat_eq_0)
    obtain q' where q': "q' \<le> q + 1" "stuck_inv hid q' k d r (vb_rx n c 0 0 a)"
      using stuck_inv_node [OF Cons.prems(1) c(2), of n] Cons.prems(4) Node by auto
    then show ?thesis
      using Cons.IH [OF q'(2)] Cons.prems Node c by (simp add: split_beta Let_def)
  next
    case Turn
    then show ?thesis
      using Cons.IH [OF stuck_inv_turn(1) [OF Cons.prems(1), of n]] stuck_inv_turn(2) [OF Cons.prems(1), of n] Cons.prems
      by (simp add: split_beta Let_def del: tv_spec.simps tv_op_ok.simps)
  qed (use Cons.prems(2) in simp)
qed auto

lemma stuck_end:
  assumes "stuck_inv hid q k d r a"
  shows "\<exists>w v. settled (snd (vb_spec n (Frame_end c flen) a)) = Some w \<and> g_vbuf w = Some v \<and> \<not> aready_semaphore v \<and>
    copying hid k d r v"
proof (cases "c = [] \<or> ab_free a = 0")
  case True
  then have "settled (snd (vb_spec n (Frame_end c flen) a)) = settled a"
    by (auto simp: settled_def Let_def abs_rx_def)
  then show ?thesis
    using assms by (auto simp: stuck_inv_def)
next
  case False
  then have "settled (snd (vb_spec n (Frame_end c flen) a)) = settled (vb_rx n c 1 flen a)"
    by (auto simp: settled_def Let_def)
  then show ?thesis
    using stuck_rx [OF assms, of c n 1 flen] False by simp
qed

text \<open>The end of a frame with nothing in its last node: no packet says that the frame is over.\<close>

lemma empty_end_stuck:
  assumes "frame_inv hid b k d a" "0 < k" "k < 256"
  shows "stuck_inv hid k k d (drop (length d) b) (snd (vb_spec n (Frame_end [] flen) a))" (is "stuck_inv _ _ _ _ _ ?a")
proof -
  have "settled ?a = settled a" "ab_world ?a = ab_world a" "hid_of (ab_frame_id ?a) \<noteq> hid" "0 < ab_msgs ?a"
    using assms(1) next_hid [of "ab_frame_id a"] by (auto simp: settled_def frame_inv_def TV_QITEM_COUNT_def)
  then show ?thesis
    using assms by (auto simp: frame_inv_def stuck_inv_def)
qed

text \<open>A start for the reader: the lists of the library as lists, the module opened, the pool set up with
  the buffer's functions, and a call of \<open>video_buffer_read_frame\<close> with the buffer \<open>b\<close>.\<close>

definition list_api :: "nat list co_list_api" where
  "list_api = \<lparr>co_list_init = [], co_list_push_back = \<lambda>l e. l @ [e], co_list_pop_front = tl, co_elems = \<lambda>l. l\<rparr>"

definition waiting_world :: "u8 list \<Rightarrow> video_mem" where
  "waiting_world b = snd (read_frame_start (Some b) (of_nat (length b))
     (snd (video_buffer_open True True 0 \<lparr>g_pkt_seq = 0, g_vbuf = None\<rparr>)))"

definition started :: "u8 list \<Rightarrow> (nat list, video_mem) tvideo" where
  "started b = tvideo_config_desc 0 0 (tvideo_pool_init list_api video_buffer_setup
     \<lparr>tp_pool = [], tp_len = \<lambda>_. 0, tp_free = [], tp_ready = [], tp_open_type = 0, tp_send_type = 0, tp_send_func = None,
      tp_frame_id = 0, tp_pkt_header_size = 0, tp_add_pkt_header = None,
      tv_st = \<lparr>rxbuf = replicate (4 * TVIDEO_RXNODE_SIZE) 0, rxbuf_len = 0, rx_read_len = 0, node_len = 0, sener_cfg = 0\<rparr>,
      tv_que = [], tv_world = waiting_world b\<rparr>)"

lemma started_rep: "vb_rep 1468 (list_api, started b) (tv_fresh (waiting_world b))"
  using vb.start_rep [of list_api video_buffer_setup "\<lparr>tp_pool = [], tp_len = \<lambda>_. 0, tp_free = [], tp_ready = [],
      tp_open_type = 0, tp_send_type = 0, tp_send_func = None, tp_frame_id = 0, tp_pkt_header_size = 0, tp_add_pkt_header = None,
      tv_st = \<lparr>rxbuf = replicate (4 * TVIDEO_RXNODE_SIZE) 0, rxbuf_len = 0, rx_read_len = 0, node_len = 0, sener_cfg = 0\<rparr>,
      tv_que = [], tv_world = waiting_world b\<rparr>" 0 0]
  by (simp add: started_def co_list_ok_def list_api_def video_buffer_setup_def TVIDEO_OPEN_SCCB_def TVIDEO_OPEN_SPIDMA_def
      VB_HDR_SIZE_def TVIDEO_RXNODE_SIZE_def TVIDEO_RXNODE_SIZE_UDP_def)

lemma started_frame:
  assumes "b \<noteq> []" "length b < 2 ^ 32"
  shows "frame_start b (tv_fresh (waiting_world b))"
proof -
  have "(of_nat (length b) :: u32) \<noteq> 0"
    using assms by (simp add: word_unat_eq_iff unat_of_nat)
  then show ?thesis
    using assms(2) by (simp add: frame_start_def waiting_world_def read_frame_start_def video_buffer_open_def vbuf_boot_def
      tv_fresh_def waiting_def hid_of_def unat_of_nat)
qed

text \<open>A picture of two nodes, the second with the end of the image and its length.\<close>

definition node1 :: "u8 list" where "node1 = 0xFF # 0xD8 # replicate 1466 0"
definition node2 :: "u8 list" where "node2 = [0xFF, 0xD9, 0, 0xBE, 5, 0, 0]"

lemma picture_ok: "jpeg_frame (node1 @ node2)"
  by (simp add: jpeg_frame_def node1_def node2_def nth_append get32_def)

subsection \<open>Properties\<close>

text \<open>C16: The camera's receive handlers, the packet pool and the sending task implement a queue of packets
  in front of the video buffer: whatever the order in which the DMA fills nodes, frames end and the task takes
  a message, the run on the code's state succeeds and its end stands for the value that the specification computes:
  each non-empty node is one packet behind the others unless no element is free, and one message delivers the whole
  queue in its order.  Buffers of different elements never overlap in the pool's memory, no element is lost, and
  nothing is read or written outside the pool or the ring of four nodes.\<close>

theorem video_run_refines_queue:
  assumes "vb_rep n (co, s) a" "ops_ok (vb_op_ok n) (vb_spec n) ops a"
  shows "\<exists>s'. run_ops tv_step ops (co, s) = Some (fst (spec_ops (vb_spec n) ops a), s') \<and>
    vb_rep n s' (snd (spec_ops (vb_spec n) ops a))"
  using vbq.run_refines [OF assms] .

lemma video_run_refines_queue_witness:
  "let a = tv_fresh (waiting_world (replicate 2000 7)); ops = [Node node1, Turn] in
   \<exists>s'. run_ops tv_step ops (list_api, started (replicate 2000 7)) = Some (fst (spec_ops (vb_spec 1468) ops a), s') \<and>
    vb_rep 1468 s' (snd (spec_ops (vb_spec 1468) ops a))"
  unfolding Let_def
proof (rule video_run_refines_queue [OF started_rep])
  have "frame_start (replicate 2000 7) (tv_fresh (waiting_world (replicate 2000 7)))"
    by (rule started_frame) simp_all
  from frame_run [OF frame_start_inv [OF this], of 1468 "[Node node1, Turn]"]
  show "ops_ok (vb_op_ok 1468) (vb_spec 1468) [Node node1, Turn] (tv_fresh (waiting_world (replicate 2000 7)))"
    by (simp add: node1_def tv_fresh_def TVIDEO_POOL_CNT_def del: tv_op_ok.simps tv_spec.simps)
qed

lemma rep_positive: "vb_rep n (co, s) a \<Longrightarrow> 0 < n"
  by (simp add: tv_rep_def)

lemma rep_world: "vb_rep n s a \<Longrightarrow> tv_world (snd s) = ab_world a"
  by (auto simp: tv_rep_def split: prod.splits)

lemma run_then_settle:
  assumes "vb_rep n s a" "ops_ok (vb_op_ok n) (vb_spec n) ops a" "settled (snd (spec_ops (vb_spec n) ops a)) = Some w"
    "0 < ab_msgs (snd (spec_ops (vb_spec n) ops a))"
  shows "\<exists>outs s'. run_ops tv_step (ops @ [Turn]) s = Some (outs, s') \<and> tv_world (snd s') = w"
proof -
  let ?a = "snd (spec_ops (vb_spec n) (ops @ [Turn]) a)"
  have "ops_ok (vb_op_ok n) (vb_spec n) (ops @ [Turn]) a"
    using assms(2) turn_settles(2) [OF assms(3,4)] by (simp add: ops_ok_append del: tv_op_ok.simps)
  then obtain s' where "run_ops tv_step (ops @ [Turn]) s = Some (fst (spec_ops (vb_spec n) (ops @ [Turn]) a), s')"
    "vb_rep n s' ?a"
    using vbq.run_refines [OF assms(1)] by blast
  moreover have "ab_world ?a = w"
    using turn_settles(1) [OF assms(3,4)] by (simp add: spec_ops_append split_beta Let_def del: tv_spec.simps)
  ultimately show ?thesis
    using rep_world by blast
qed

lemma frame_start_length: "frame_start b a \<Longrightarrow> length b < 2 ^ 32"
proof -
  assume "frame_start b a"
  then obtain v :: VBUF_ST where "unat (buf_len v) = length b"
    by (auto simp: frame_start_def waiting_def)
  then show ?thesis
    using unat_lt_2p32 [of "buf_len v"] by simp
qed

text \<open>C17: A frame reaches the reader.  From the moment he waits with an empty queue, when the camera sends
  the nodes of a frame and then its end with a non-empty last node, with any turns of the task between them
  that leave an element free for each node, and when the frame is a JPEG image with its length behind it, has at most 255
  packets and fits the reader's buffer, the next turn of the task finishes the frame: the call returns the length of the
  frame without an error, and the reader's buffer begins with the bytes of the nodes in their order and is as it was behind them.\<close>

theorem video_frame_reaches_reader:
  assumes "vb_rep n (co, s) a" "frame_start b a" "list_all (within_frame n) ops" "room ops (ab_free a) 0"
    "length (chunks ops) < 255" "last_node \<noteq> []" "length last_node \<le> unat n"
    "D = concat (chunks ops) @ last_node" "jpeg_frame D" "length D \<le> length b"
  shows "\<exists>outs s'. run_ops tv_step (ops @ [Frame_end last_node flen, Turn]) (co, s) = Some (outs, s') \<and>
    map_option fst (read_frame_finish (of_nat (length b)) (tv_world (snd s'))) =
      Some (of_nat (length D), 0, D @ drop (length D) b)"
proof -
  let ?k = "length (chunks ops)" and ?d = "concat (chunks ops)" and ?a = "snd (spec_ops (vb_spec n) ops a)"
  have lb: "length b < 2 ^ 32" "7 \<le> length D"
    using frame_start_length [OF assms(2)] assms(9) by (simp_all add: jpeg_frame_def)
  have run: "ops_ok (vb_op_ok n) (vb_spec n) ops a" "0 < ab_free ?a" "frame_inv (hid_of (ab_frame_id a)) b ?k ?d ?a"
    using frame_run [OF frame_start_inv [OF assms(2)] assms(3) rep_positive [OF assms(1)]] assms(2,4,5,8,10)
    by (auto simp: frame_start_def)
  obtain w v where w: "settled (snd (vb_spec n (Frame_end last_node flen) ?a)) = Some w" "g_vbuf w = Some v"
    "buf_base v = Some (?d @ last_node @ drop (length (?d @ last_node)) b)" "frame_len v = of_nat (length (?d @ last_node))"
    "start_buf v = (if jpeg_frame (?d @ last_node) then BUF_STA_GET else BUF_STA_ERR)" "aready_semaphore v"
    using frame_end_settled [OF run(3,2) assms(5,6) _ lb(1)] assms(8,10) lb(2) by blast
  have "ops_ok (vb_op_ok n) (vb_spec n) (ops @ [Frame_end last_node flen]) a"
    using run(1) assms(7) by (simp add: ops_ok_append)
  moreover have "snd (spec_ops (vb_spec n) (ops @ [Frame_end last_node flen]) a) = snd (vb_spec n (Frame_end last_node flen) ?a)"
    by (simp add: spec_ops_append split_beta Let_def del: tv_spec.simps)
  ultimately obtain outs s' where "run_ops tv_step ((ops @ [Frame_end last_node flen]) @ [Turn]) (co, s) = Some (outs, s')"
    "tv_world (snd s') = w"
    using run_then_settle [OF assms(1), of "ops @ [Frame_end last_node flen]" w] w(1) frame_end_msgs by auto
  moreover have "\<not> (of_nat (length b) :: u32) \<le> of_nat (length D) \<or> length b = length D"
    using lb(1) assms(10) by (auto simp: word_le_nat_alt unat_of_nat)
  ultimately show ?thesis
    using w(2-6) assms(8,9) by (auto simp: read_frame_finish_def)
qed

lemma video_frame_reaches_reader_witness:
  "\<exists>outs s'. run_ops tv_step ([Node node1, Turn] @ [Frame_end node2 1475, Turn]) (list_api, started (replicate 2000 7)) = Some (outs, s') \<and>
    map_option fst (read_frame_finish 2000 (tv_world (snd s'))) = Some (1475, 0, node1 @ node2 @ replicate 525 7)"
proof -
  have b: "frame_start (replicate 2000 7) (tv_fresh (waiting_world (replicate 2000 7)))"
    by (rule started_frame) simp_all
  show ?thesis
    using video_frame_reaches_reader [OF started_rep b, of "[Node node1, Turn]" node2 "node1 @ node2" 1475] picture_ok
    by (simp add: node1_def node2_def tv_fresh_def TVIDEO_POOL_CNT_def)
qed

text \<open>C32: A frame that fills its last node exactly is lost, and the frame after it too.  The end of such a
  frame finds no bytes to send, so that no packet is marked as the last one and the packet counter goes on; the packets of
  the next frame then begin behind 1 and are all dropped.  After both frames the call still waits: when it ends
  it returns 0 bytes and the code of a timeout.\<close>

theorem video_exact_multiple_lost:
  assumes "vb_rep n (co, s) a" "frame_start b a" "list_all (within_frame n) ops" "room ops (ab_free a) 0"
    "chunks ops \<noteq> []" "length (concat (chunks ops)) \<le> length b"
    "list_all (within_frame n) ops'" "length (chunks ops) + length (chunks ops') \<le> 255" "length last_node \<le> unat n"
  shows "\<exists>outs s'. run_ops tv_step (ops @ Frame_end [] flen # ops' @ [Frame_end last_node flen', Turn]) (co, s) = Some (outs, s') \<and>
    map_option fst (read_frame_finish (of_nat (length b)) (tv_world (snd s'))) =
      Some (0, -5, concat (chunks ops) @ drop (length (concat (chunks ops))) b)"
proof -
  let ?k = "length (chunks ops)" and ?d = "concat (chunks ops)" and ?h = "hid_of (ab_frame_id a)"
  let ?a1 = "snd (spec_ops (vb_spec n) ops a)"
  let ?a2 = "snd (vb_spec n (Frame_end [] flen) ?a1)"
  let ?a3 = "snd (spec_ops (vb_spec n) ops' ?a2)"
  let ?xs = "ops @ Frame_end [] flen # ops' @ [Frame_end last_node flen']"
  have pos: "0 < n"
    by (rule rep_positive [OF assms(1)])
  have run: "ops_ok (vb_op_ok n) (vb_spec n) ops a" "frame_inv ?h b ?k ?d ?a1"
    using frame_run [OF frame_start_inv [OF assms(2)] assms(3) pos] assms(2,4,6,8) by (auto simp: frame_start_def)
  have "stuck_inv ?h ?k ?k ?d (drop (length ?d) b) ?a2"
    using empty_end_stuck [OF run(2)] assms(5,8) by simp
  then obtain q where q: "ops_ok (vb_op_ok n) (vb_spec n) ops' ?a2" "stuck_inv ?h q ?k ?d (drop (length ?d) b) ?a3"
    using stuck_run [OF _ assms(7) pos assms(8)] by blast
  obtain w v where w: "settled (snd (vb_spec n (Frame_end last_node flen') ?a3)) = Some w" "g_vbuf w = Some v"
    "\<not> aready_semaphore v" "copying ?h ?k ?d (drop (length ?d) b) v"
    using stuck_end [OF q(2)] by blast
  have "ops_ok (vb_op_ok n) (vb_spec n) ?xs a"
    using run(1) q(1) assms(9) by (simp add: ops_ok_append del: tv_spec.simps)
  moreover have "snd (spec_ops (vb_spec n) ?xs a) = snd (vb_spec n (Frame_end last_node flen') ?a3)"
    by (simp add: spec_ops_append split_beta Let_def del: tv_spec.simps)
  ultimately obtain outs s' where "run_ops tv_step (?xs @ [Turn]) (co, s) = Some (outs, s')" "tv_world (snd s') = w"
    using run_then_settle [OF assms(1), of ?xs w] w(1) frame_end_msgs by auto
  then show ?thesis
    using w(2-4) by (auto simp: read_frame_finish_def copying_def)
qed

lemma video_exact_multiple_lost_witness:
  "\<exists>outs s'. run_ops tv_step ([Node node1, Turn] @ Frame_end [] 1468 # [Node node1] @ [Frame_end node2 1475, Turn])
      (list_api, started (replicate 2000 7)) = Some (outs, s') \<and>
    map_option fst (read_frame_finish 2000 (tv_world (snd s'))) = Some (0, -5, node1 @ replicate 532 7)"
proof -
  have b: "frame_start (replicate 2000 7) (tv_fresh (waiting_world (replicate 2000 7)))"
    by (rule started_frame) simp_all
  show ?thesis
    using video_exact_multiple_lost [OF started_rep b, of "[Node node1, Turn]" "[Node node1]" node2 1468 1475]
    by (simp add: node1_def node2_def tv_fresh_def TVIDEO_POOL_CNT_def)
qed

end
