(* ===== verification/SoftEncrypt.thy ===== *)
theory SoftEncrypt
  imports Simulation
begin

text \<open>
  The encryption of stored connection data, \<open>func/misc/soft_encrypt.c\<close>: an exclusive-or with a fixed key, and
  AES with tables.  \<open>WEENY_AES_ROM_TABLES\<close> is 0, so the tables are computed at the first use; the tables of the
  other setting are here too, to compare with.

  \<open>unsigned long\<close> has 32 bits.  A table is a list and is only read at an index below 256.  The round keys of a context
  are the words \<open>rk_buf\<close>, and \<open>rk_set\<close> says that its pointer has been set; input and output buffers do not overlap,
  except where the code passes the same block twice.
\<close>

subsection \<open>Exclusive or\<close>

definition XOR_KEY_COUNT :: nat where "XOR_KEY_COUNT = 8"

definition xor_key :: "u8 list" where
  "xor_key = [0x55, 0xaa, 0x5a, 0x55, 0xa5, 77, 99, 127]"

definition xor_key_init :: "u32 \<Rightarrow> u32" where
  "xor_key_init xor_key_id = 0"

definition xor_get_key :: "u32 \<Rightarrow> u8 \<times> u32" where
  "xor_get_key xor_key_id = (xor_key ! unat (xor_key_id AND of_nat (XOR_KEY_COUNT - 1)), xor_key_id + 1)"

fun xor_loop :: "u8 list \<Rightarrow> u32 \<Rightarrow> u8 list \<times> u32" where
  "xor_loop [] xor_key_id = ([], xor_key_id)"
| "xor_loop (x # xs) xor_key_id =
     (let (k, xor_key_id) = xor_get_key xor_key_id; (ys, xor_key_id) = xor_loop xs xor_key_id in ((x XOR k) # ys, xor_key_id))"

definition xor_enc :: "u8 list \<Rightarrow> u8 list \<Rightarrow> int \<Rightarrow> u32 \<Rightarrow> (u8 list \<times> u32) option" where
  "xor_enc input out len xor_key_id =
     do {
       bs \<leftarrow> mem_load input 0 (nat len);
       let (ys, xor_key_id) = xor_loop bs (xor_key_init xor_key_id);
       out \<leftarrow> mem_store out 0 ys;
       Some (out, xor_key_id) }"

definition xor_dec :: "u8 list \<Rightarrow> u8 list \<Rightarrow> int \<Rightarrow> u32 \<Rightarrow> (u8 list \<times> u32) option" where
  "xor_dec input out len xor_key_id = xor_enc input out len xor_key_id"

subsection \<open>The tables\<close>

record aes_tables =
  FSb :: "u8 list"
  FT0 :: "u32 list"
  FT1 :: "u32 list"
  FT2 :: "u32 list"
  FT3 :: "u32 list"
  RSb :: "u8 list"
  RT0 :: "u32 list"
  RT1 :: "u32 list"
  RT2 :: "u32 list"
  RT3 :: "u32 list"
  RCON :: "u32 list"
  aes_init_done :: bool

definition aes_boot :: aes_tables where
  "aes_boot = \<lparr>FSb = replicate 256 0, FT0 = replicate 256 0, FT1 = replicate 256 0, FT2 = replicate 256 0,
     FT3 = replicate 256 0, RSb = replicate 256 0, RT0 = replicate 256 0, RT1 = replicate 256 0, RT2 = replicate 256 0,
     RT3 = replicate 256 0, RCON = replicate 10 0, aes_init_done = False\<rparr>"

definition ROTL8 :: "u32 \<Rightarrow> u32" where
  "ROTL8 x = push_bit 8 x OR drop_bit 24 x"

definition XTIME :: "u32 \<Rightarrow> u32" where
  "XTIME x = push_bit 1 x XOR (if x AND 0x80 \<noteq> 0 then 0x1B else 0)"

text \<open>The allocated block holds the powers and the logarithms; \<open>pow\<close> and \<open>lg\<close> are its contents.\<close>

definition MUL :: "(nat \<Rightarrow> u32) \<Rightarrow> (nat \<Rightarrow> u32) \<Rightarrow> u32 \<Rightarrow> u32 \<Rightarrow> u32" where
  "MUL pow lg x y = (if x \<noteq> 0 \<and> y \<noteq> 0 then pow (unat ((lg (unat x) + lg (unat y)) mod 255)) else 0)"

definition pow_log_step :: "nat \<Rightarrow> u32 \<times> (nat \<Rightarrow> u32) \<times> (nat \<Rightarrow> u32) \<Rightarrow> u32 \<times> (nat \<Rightarrow> u32) \<times> (nat \<Rightarrow> u32)" where
  "pow_log_step i = (\<lambda>(x, pow, lg). ((x XOR XTIME x) AND 0xFF, pow(i := x), lg(unat x := of_nat i)))"

definition rcon_step :: "nat \<Rightarrow> u32 \<times> u32 list \<Rightarrow> u32 \<times> u32 list" where
  "rcon_step i = (\<lambda>(x, rcon). (XTIME x AND 0xFF, rcon[i := x]))"

definition rotl_byte :: "u32 \<Rightarrow> u32" where
  "rotl_byte y = (push_bit 1 y OR drop_bit 7 y) AND 0xFF"

definition sbox_value :: "u32 \<Rightarrow> u32" where
  "sbox_value x =
     (let y = rotl_byte x; x = x XOR y; y = rotl_byte y; x = x XOR y; y = rotl_byte y; x = x XOR y; y = rotl_byte y
      in x XOR (y XOR 0x63))"

definition sbox_step :: "(nat \<Rightarrow> u32) \<Rightarrow> (nat \<Rightarrow> u32) \<Rightarrow> nat \<Rightarrow> u8 list \<times> u8 list \<Rightarrow> u8 list \<times> u8 list" where
  "sbox_step pow lg i = (\<lambda>(fs, rs).
     let x = sbox_value (pow (unat (255 - lg i))) in (fs[i := ucast x], rs[unat x := of_nat i]))"

definition table_step :: "(nat \<Rightarrow> u32) \<Rightarrow> (nat \<Rightarrow> u32) \<Rightarrow> nat \<Rightarrow> aes_tables \<Rightarrow> aes_tables" where
  "table_step pow lg i t =
     (let x = ucast (FSb t ! i); y = XTIME x AND 0xFF; z = (y XOR x) AND 0xFF;
          f0 = y XOR push_bit 8 x XOR push_bit 16 x XOR push_bit 24 z; f1 = ROTL8 f0; f2 = ROTL8 f1; f3 = ROTL8 f2;
          x = ucast (RSb t ! i);
          r0 = MUL pow lg 0x0E x XOR push_bit 8 (MUL pow lg 0x09 x) XOR push_bit 16 (MUL pow lg 0x0D x)
                 XOR push_bit 24 (MUL pow lg 0x0B x); r1 = ROTL8 r0; r2 = ROTL8 r1; r3 = ROTL8 r2
      in t\<lparr>FT0 := (FT0 t)[i := f0], FT1 := (FT1 t)[i := f1], FT2 := (FT2 t)[i := f2], FT3 := (FT3 t)[i := f3],
           RT0 := (RT0 t)[i := r0], RT1 := (RT1 t)[i := r1], RT2 := (RT2 t)[i := r2], RT3 := (RT3 t)[i := r3]\<rparr>)"

text \<open>\<open>tmp\<close> is the block that the allocation returned, with what it contained.\<close>

definition aes_gen_tables :: "((nat \<Rightarrow> u32) \<times> (nat \<Rightarrow> u32)) option \<Rightarrow> aes_tables \<Rightarrow> aes_tables" where
  "aes_gen_tables tmp t =
     (case tmp of
        None \<Rightarrow> t
      | Some (pow, lg) \<Rightarrow>
          (let (_, pow, lg) = fold pow_log_step [0..<256] (1, pow, lg);
               (_, rcon) = fold rcon_step [0..<10] (1, RCON t);
               (fs, rs) = fold (sbox_step pow lg) [1..<256] ((FSb t)[0 := 0x63], (RSb t)[0x63 := 0])
           in fold (table_step pow lg) [0..<256] (t\<lparr>RCON := rcon, FSb := fs, RSb := rs\<rparr>)))"

definition FSb_rom :: "u8 list" where
  "FSb_rom =
    [0x63, 0x7C, 0x77, 0x7B, 0xF2, 0x6B, 0x6F, 0xC5, 0x30, 0x01, 0x67, 0x2B, 0xFE, 0xD7, 0xAB, 0x76,
     0xCA, 0x82, 0xC9, 0x7D, 0xFA, 0x59, 0x47, 0xF0, 0xAD, 0xD4, 0xA2, 0xAF, 0x9C, 0xA4, 0x72, 0xC0,
     0xB7, 0xFD, 0x93, 0x26, 0x36, 0x3F, 0xF7, 0xCC, 0x34, 0xA5, 0xE5, 0xF1, 0x71, 0xD8, 0x31, 0x15,
     0x04, 0xC7, 0x23, 0xC3, 0x18, 0x96, 0x05, 0x9A, 0x07, 0x12, 0x80, 0xE2, 0xEB, 0x27, 0xB2, 0x75,
     0x09, 0x83, 0x2C, 0x1A, 0x1B, 0x6E, 0x5A, 0xA0, 0x52, 0x3B, 0xD6, 0xB3, 0x29, 0xE3, 0x2F, 0x84,
     0x53, 0xD1, 0x00, 0xED, 0x20, 0xFC, 0xB1, 0x5B, 0x6A, 0xCB, 0xBE, 0x39, 0x4A, 0x4C, 0x58, 0xCF,
     0xD0, 0xEF, 0xAA, 0xFB, 0x43, 0x4D, 0x33, 0x85, 0x45, 0xF9, 0x02, 0x7F, 0x50, 0x3C, 0x9F, 0xA8,
     0x51, 0xA3, 0x40, 0x8F, 0x92, 0x9D, 0x38, 0xF5, 0xBC, 0xB6, 0xDA, 0x21, 0x10, 0xFF, 0xF3, 0xD2,
     0xCD, 0x0C, 0x13, 0xEC, 0x5F, 0x97, 0x44, 0x17, 0xC4, 0xA7, 0x7E, 0x3D, 0x64, 0x5D, 0x19, 0x73,
     0x60, 0x81, 0x4F, 0xDC, 0x22, 0x2A, 0x90, 0x88, 0x46, 0xEE, 0xB8, 0x14, 0xDE, 0x5E, 0x0B, 0xDB,
     0xE0, 0x32, 0x3A, 0x0A, 0x49, 0x06, 0x24, 0x5C, 0xC2, 0xD3, 0xAC, 0x62, 0x91, 0x95, 0xE4, 0x79,
     0xE7, 0xC8, 0x37, 0x6D, 0x8D, 0xD5, 0x4E, 0xA9, 0x6C, 0x56, 0xF4, 0xEA, 0x65, 0x7A, 0xAE, 0x08,
     0xBA, 0x78, 0x25, 0x2E, 0x1C, 0xA6, 0xB4, 0xC6, 0xE8, 0xDD, 0x74, 0x1F, 0x4B, 0xBD, 0x8B, 0x8A,
     0x70, 0x3E, 0xB5, 0x66, 0x48, 0x03, 0xF6, 0x0E, 0x61, 0x35, 0x57, 0xB9, 0x86, 0xC1, 0x1D, 0x9E,
     0xE1, 0xF8, 0x98, 0x11, 0x69, 0xD9, 0x8E, 0x94, 0x9B, 0x1E, 0x87, 0xE9, 0xCE, 0x55, 0x28, 0xDF,
     0x8C, 0xA1, 0x89, 0x0D, 0xBF, 0xE6, 0x42, 0x68, 0x41, 0x99, 0x2D, 0x0F, 0xB0, 0x54, 0xBB, 0x16]"

definition RSb_rom :: "u8 list" where
  "RSb_rom =
    [0x52, 0x09, 0x6A, 0xD5, 0x30, 0x36, 0xA5, 0x38, 0xBF, 0x40, 0xA3, 0x9E, 0x81, 0xF3, 0xD7, 0xFB,
     0x7C, 0xE3, 0x39, 0x82, 0x9B, 0x2F, 0xFF, 0x87, 0x34, 0x8E, 0x43, 0x44, 0xC4, 0xDE, 0xE9, 0xCB,
     0x54, 0x7B, 0x94, 0x32, 0xA6, 0xC2, 0x23, 0x3D, 0xEE, 0x4C, 0x95, 0x0B, 0x42, 0xFA, 0xC3, 0x4E,
     0x08, 0x2E, 0xA1, 0x66, 0x28, 0xD9, 0x24, 0xB2, 0x76, 0x5B, 0xA2, 0x49, 0x6D, 0x8B, 0xD1, 0x25,
     0x72, 0xF8, 0xF6, 0x64, 0x86, 0x68, 0x98, 0x16, 0xD4, 0xA4, 0x5C, 0xCC, 0x5D, 0x65, 0xB6, 0x92,
     0x6C, 0x70, 0x48, 0x50, 0xFD, 0xED, 0xB9, 0xDA, 0x5E, 0x15, 0x46, 0x57, 0xA7, 0x8D, 0x9D, 0x84,
     0x90, 0xD8, 0xAB, 0x00, 0x8C, 0xBC, 0xD3, 0x0A, 0xF7, 0xE4, 0x58, 0x05, 0xB8, 0xB3, 0x45, 0x06,
     0xD0, 0x2C, 0x1E, 0x8F, 0xCA, 0x3F, 0x0F, 0x02, 0xC1, 0xAF, 0xBD, 0x03, 0x01, 0x13, 0x8A, 0x6B,
     0x3A, 0x91, 0x11, 0x41, 0x4F, 0x67, 0xDC, 0xEA, 0x97, 0xF2, 0xCF, 0xCE, 0xF0, 0xB4, 0xE6, 0x73,
     0x96, 0xAC, 0x74, 0x22, 0xE7, 0xAD, 0x35, 0x85, 0xE2, 0xF9, 0x37, 0xE8, 0x1C, 0x75, 0xDF, 0x6E,
     0x47, 0xF1, 0x1A, 0x71, 0x1D, 0x29, 0xC5, 0x89, 0x6F, 0xB7, 0x62, 0x0E, 0xAA, 0x18, 0xBE, 0x1B,
     0xFC, 0x56, 0x3E, 0x4B, 0xC6, 0xD2, 0x79, 0x20, 0x9A, 0xDB, 0xC0, 0xFE, 0x78, 0xCD, 0x5A, 0xF4,
     0x1F, 0xDD, 0xA8, 0x33, 0x88, 0x07, 0xC7, 0x31, 0xB1, 0x12, 0x10, 0x59, 0x27, 0x80, 0xEC, 0x5F,
     0x60, 0x51, 0x7F, 0xA9, 0x19, 0xB5, 0x4A, 0x0D, 0x2D, 0xE5, 0x7A, 0x9F, 0x93, 0xC9, 0x9C, 0xEF,
     0xA0, 0xE0, 0x3B, 0x4D, 0xAE, 0x2A, 0xF5, 0xB0, 0xC8, 0xEB, 0xBB, 0x3C, 0x83, 0x53, 0x99, 0x61,
     0x17, 0x2B, 0x04, 0x7E, 0xBA, 0x77, 0xD6, 0x26, 0xE1, 0x69, 0x14, 0x63, 0x55, 0x21, 0x0C, 0x7D]"

definition RCON_rom :: "u32 list" where
  "RCON_rom = [0x01, 0x02, 0x04, 0x08, 0x10, 0x20, 0x40, 0x80, 0x1B, 0x36]"

definition FT_rom :: "(u32 \<times> u32 \<times> u32 \<times> u32) list" where
  "FT_rom =
    [(0xA5, 0x63, 0x63, 0xC6), (0x84, 0x7C, 0x7C, 0xF8), (0x99, 0x77, 0x77, 0xEE), (0x8D, 0x7B, 0x7B, 0xF6),
     (0x0D, 0xF2, 0xF2, 0xFF), (0xBD, 0x6B, 0x6B, 0xD6), (0xB1, 0x6F, 0x6F, 0xDE), (0x54, 0xC5, 0xC5, 0x91),
     (0x50, 0x30, 0x30, 0x60), (0x03, 0x01, 0x01, 0x02), (0xA9, 0x67, 0x67, 0xCE), (0x7D, 0x2B, 0x2B, 0x56),
     (0x19, 0xFE, 0xFE, 0xE7), (0x62, 0xD7, 0xD7, 0xB5), (0xE6, 0xAB, 0xAB, 0x4D), (0x9A, 0x76, 0x76, 0xEC),
     (0x45, 0xCA, 0xCA, 0x8F), (0x9D, 0x82, 0x82, 0x1F), (0x40, 0xC9, 0xC9, 0x89), (0x87, 0x7D, 0x7D, 0xFA),
     (0x15, 0xFA, 0xFA, 0xEF), (0xEB, 0x59, 0x59, 0xB2), (0xC9, 0x47, 0x47, 0x8E), (0x0B, 0xF0, 0xF0, 0xFB),
     (0xEC, 0xAD, 0xAD, 0x41), (0x67, 0xD4, 0xD4, 0xB3), (0xFD, 0xA2, 0xA2, 0x5F), (0xEA, 0xAF, 0xAF, 0x45),
     (0xBF, 0x9C, 0x9C, 0x23), (0xF7, 0xA4, 0xA4, 0x53), (0x96, 0x72, 0x72, 0xE4), (0x5B, 0xC0, 0xC0, 0x9B),
     (0xC2, 0xB7, 0xB7, 0x75), (0x1C, 0xFD, 0xFD, 0xE1), (0xAE, 0x93, 0x93, 0x3D), (0x6A, 0x26, 0x26, 0x4C),
     (0x5A, 0x36, 0x36, 0x6C), (0x41, 0x3F, 0x3F, 0x7E), (0x02, 0xF7, 0xF7, 0xF5), (0x4F, 0xCC, 0xCC, 0x83),
     (0x5C, 0x34, 0x34, 0x68), (0xF4, 0xA5, 0xA5, 0x51), (0x34, 0xE5, 0xE5, 0xD1), (0x08, 0xF1, 0xF1, 0xF9),
     (0x93, 0x71, 0x71, 0xE2), (0x73, 0xD8, 0xD8, 0xAB), (0x53, 0x31, 0x31, 0x62), (0x3F, 0x15, 0x15, 0x2A),
     (0x0C, 0x04, 0x04, 0x08), (0x52, 0xC7, 0xC7, 0x95), (0x65, 0x23, 0x23, 0x46), (0x5E, 0xC3, 0xC3, 0x9D),
     (0x28, 0x18, 0x18, 0x30), (0xA1, 0x96, 0x96, 0x37), (0x0F, 0x05, 0x05, 0x0A), (0xB5, 0x9A, 0x9A, 0x2F),
     (0x09, 0x07, 0x07, 0x0E), (0x36, 0x12, 0x12, 0x24), (0x9B, 0x80, 0x80, 0x1B), (0x3D, 0xE2, 0xE2, 0xDF),
     (0x26, 0xEB, 0xEB, 0xCD), (0x69, 0x27, 0x27, 0x4E), (0xCD, 0xB2, 0xB2, 0x7F), (0x9F, 0x75, 0x75, 0xEA),
     (0x1B, 0x09, 0x09, 0x12), (0x9E, 0x83, 0x83, 0x1D), (0x74, 0x2C, 0x2C, 0x58), (0x2E, 0x1A, 0x1A, 0x34),
     (0x2D, 0x1B, 0x1B, 0x36), (0xB2, 0x6E, 0x6E, 0xDC), (0xEE, 0x5A, 0x5A, 0xB4), (0xFB, 0xA0, 0xA0, 0x5B),
     (0xF6, 0x52, 0x52, 0xA4), (0x4D, 0x3B, 0x3B, 0x76), (0x61, 0xD6, 0xD6, 0xB7), (0xCE, 0xB3, 0xB3, 0x7D),
     (0x7B, 0x29, 0x29, 0x52), (0x3E, 0xE3, 0xE3, 0xDD), (0x71, 0x2F, 0x2F, 0x5E), (0x97, 0x84, 0x84, 0x13),
     (0xF5, 0x53, 0x53, 0xA6), (0x68, 0xD1, 0xD1, 0xB9), (0x00, 0x00, 0x00, 0x00), (0x2C, 0xED, 0xED, 0xC1),
     (0x60, 0x20, 0x20, 0x40), (0x1F, 0xFC, 0xFC, 0xE3), (0xC8, 0xB1, 0xB1, 0x79), (0xED, 0x5B, 0x5B, 0xB6),
     (0xBE, 0x6A, 0x6A, 0xD4), (0x46, 0xCB, 0xCB, 0x8D), (0xD9, 0xBE, 0xBE, 0x67), (0x4B, 0x39, 0x39, 0x72),
     (0xDE, 0x4A, 0x4A, 0x94), (0xD4, 0x4C, 0x4C, 0x98), (0xE8, 0x58, 0x58, 0xB0), (0x4A, 0xCF, 0xCF, 0x85),
     (0x6B, 0xD0, 0xD0, 0xBB), (0x2A, 0xEF, 0xEF, 0xC5), (0xE5, 0xAA, 0xAA, 0x4F), (0x16, 0xFB, 0xFB, 0xED),
     (0xC5, 0x43, 0x43, 0x86), (0xD7, 0x4D, 0x4D, 0x9A), (0x55, 0x33, 0x33, 0x66), (0x94, 0x85, 0x85, 0x11),
     (0xCF, 0x45, 0x45, 0x8A), (0x10, 0xF9, 0xF9, 0xE9), (0x06, 0x02, 0x02, 0x04), (0x81, 0x7F, 0x7F, 0xFE),
     (0xF0, 0x50, 0x50, 0xA0), (0x44, 0x3C, 0x3C, 0x78), (0xBA, 0x9F, 0x9F, 0x25), (0xE3, 0xA8, 0xA8, 0x4B),
     (0xF3, 0x51, 0x51, 0xA2), (0xFE, 0xA3, 0xA3, 0x5D), (0xC0, 0x40, 0x40, 0x80), (0x8A, 0x8F, 0x8F, 0x05),
     (0xAD, 0x92, 0x92, 0x3F), (0xBC, 0x9D, 0x9D, 0x21), (0x48, 0x38, 0x38, 0x70), (0x04, 0xF5, 0xF5, 0xF1),
     (0xDF, 0xBC, 0xBC, 0x63), (0xC1, 0xB6, 0xB6, 0x77), (0x75, 0xDA, 0xDA, 0xAF), (0x63, 0x21, 0x21, 0x42),
     (0x30, 0x10, 0x10, 0x20), (0x1A, 0xFF, 0xFF, 0xE5), (0x0E, 0xF3, 0xF3, 0xFD), (0x6D, 0xD2, 0xD2, 0xBF),
     (0x4C, 0xCD, 0xCD, 0x81), (0x14, 0x0C, 0x0C, 0x18), (0x35, 0x13, 0x13, 0x26), (0x2F, 0xEC, 0xEC, 0xC3),
     (0xE1, 0x5F, 0x5F, 0xBE), (0xA2, 0x97, 0x97, 0x35), (0xCC, 0x44, 0x44, 0x88), (0x39, 0x17, 0x17, 0x2E),
     (0x57, 0xC4, 0xC4, 0x93), (0xF2, 0xA7, 0xA7, 0x55), (0x82, 0x7E, 0x7E, 0xFC), (0x47, 0x3D, 0x3D, 0x7A),
     (0xAC, 0x64, 0x64, 0xC8), (0xE7, 0x5D, 0x5D, 0xBA), (0x2B, 0x19, 0x19, 0x32), (0x95, 0x73, 0x73, 0xE6),
     (0xA0, 0x60, 0x60, 0xC0), (0x98, 0x81, 0x81, 0x19), (0xD1, 0x4F, 0x4F, 0x9E), (0x7F, 0xDC, 0xDC, 0xA3),
     (0x66, 0x22, 0x22, 0x44), (0x7E, 0x2A, 0x2A, 0x54), (0xAB, 0x90, 0x90, 0x3B), (0x83, 0x88, 0x88, 0x0B),
     (0xCA, 0x46, 0x46, 0x8C), (0x29, 0xEE, 0xEE, 0xC7), (0xD3, 0xB8, 0xB8, 0x6B), (0x3C, 0x14, 0x14, 0x28),
     (0x79, 0xDE, 0xDE, 0xA7), (0xE2, 0x5E, 0x5E, 0xBC), (0x1D, 0x0B, 0x0B, 0x16), (0x76, 0xDB, 0xDB, 0xAD),
     (0x3B, 0xE0, 0xE0, 0xDB), (0x56, 0x32, 0x32, 0x64), (0x4E, 0x3A, 0x3A, 0x74), (0x1E, 0x0A, 0x0A, 0x14),
     (0xDB, 0x49, 0x49, 0x92), (0x0A, 0x06, 0x06, 0x0C), (0x6C, 0x24, 0x24, 0x48), (0xE4, 0x5C, 0x5C, 0xB8),
     (0x5D, 0xC2, 0xC2, 0x9F), (0x6E, 0xD3, 0xD3, 0xBD), (0xEF, 0xAC, 0xAC, 0x43), (0xA6, 0x62, 0x62, 0xC4),
     (0xA8, 0x91, 0x91, 0x39), (0xA4, 0x95, 0x95, 0x31), (0x37, 0xE4, 0xE4, 0xD3), (0x8B, 0x79, 0x79, 0xF2),
     (0x32, 0xE7, 0xE7, 0xD5), (0x43, 0xC8, 0xC8, 0x8B), (0x59, 0x37, 0x37, 0x6E), (0xB7, 0x6D, 0x6D, 0xDA),
     (0x8C, 0x8D, 0x8D, 0x01), (0x64, 0xD5, 0xD5, 0xB1), (0xD2, 0x4E, 0x4E, 0x9C), (0xE0, 0xA9, 0xA9, 0x49),
     (0xB4, 0x6C, 0x6C, 0xD8), (0xFA, 0x56, 0x56, 0xAC), (0x07, 0xF4, 0xF4, 0xF3), (0x25, 0xEA, 0xEA, 0xCF),
     (0xAF, 0x65, 0x65, 0xCA), (0x8E, 0x7A, 0x7A, 0xF4), (0xE9, 0xAE, 0xAE, 0x47), (0x18, 0x08, 0x08, 0x10),
     (0xD5, 0xBA, 0xBA, 0x6F), (0x88, 0x78, 0x78, 0xF0), (0x6F, 0x25, 0x25, 0x4A), (0x72, 0x2E, 0x2E, 0x5C),
     (0x24, 0x1C, 0x1C, 0x38), (0xF1, 0xA6, 0xA6, 0x57), (0xC7, 0xB4, 0xB4, 0x73), (0x51, 0xC6, 0xC6, 0x97),
     (0x23, 0xE8, 0xE8, 0xCB), (0x7C, 0xDD, 0xDD, 0xA1), (0x9C, 0x74, 0x74, 0xE8), (0x21, 0x1F, 0x1F, 0x3E),
     (0xDD, 0x4B, 0x4B, 0x96), (0xDC, 0xBD, 0xBD, 0x61), (0x86, 0x8B, 0x8B, 0x0D), (0x85, 0x8A, 0x8A, 0x0F),
     (0x90, 0x70, 0x70, 0xE0), (0x42, 0x3E, 0x3E, 0x7C), (0xC4, 0xB5, 0xB5, 0x71), (0xAA, 0x66, 0x66, 0xCC),
     (0xD8, 0x48, 0x48, 0x90), (0x05, 0x03, 0x03, 0x06), (0x01, 0xF6, 0xF6, 0xF7), (0x12, 0x0E, 0x0E, 0x1C),
     (0xA3, 0x61, 0x61, 0xC2), (0x5F, 0x35, 0x35, 0x6A), (0xF9, 0x57, 0x57, 0xAE), (0xD0, 0xB9, 0xB9, 0x69),
     (0x91, 0x86, 0x86, 0x17), (0x58, 0xC1, 0xC1, 0x99), (0x27, 0x1D, 0x1D, 0x3A), (0xB9, 0x9E, 0x9E, 0x27),
     (0x38, 0xE1, 0xE1, 0xD9), (0x13, 0xF8, 0xF8, 0xEB), (0xB3, 0x98, 0x98, 0x2B), (0x33, 0x11, 0x11, 0x22),
     (0xBB, 0x69, 0x69, 0xD2), (0x70, 0xD9, 0xD9, 0xA9), (0x89, 0x8E, 0x8E, 0x07), (0xA7, 0x94, 0x94, 0x33),
     (0xB6, 0x9B, 0x9B, 0x2D), (0x22, 0x1E, 0x1E, 0x3C), (0x92, 0x87, 0x87, 0x15), (0x20, 0xE9, 0xE9, 0xC9),
     (0x49, 0xCE, 0xCE, 0x87), (0xFF, 0x55, 0x55, 0xAA), (0x78, 0x28, 0x28, 0x50), (0x7A, 0xDF, 0xDF, 0xA5),
     (0x8F, 0x8C, 0x8C, 0x03), (0xF8, 0xA1, 0xA1, 0x59), (0x80, 0x89, 0x89, 0x09), (0x17, 0x0D, 0x0D, 0x1A),
     (0xDA, 0xBF, 0xBF, 0x65), (0x31, 0xE6, 0xE6, 0xD7), (0xC6, 0x42, 0x42, 0x84), (0xB8, 0x68, 0x68, 0xD0),
     (0xC3, 0x41, 0x41, 0x82), (0xB0, 0x99, 0x99, 0x29), (0x77, 0x2D, 0x2D, 0x5A), (0x11, 0x0F, 0x0F, 0x1E),
     (0xCB, 0xB0, 0xB0, 0x7B), (0xFC, 0x54, 0x54, 0xA8), (0xD6, 0xBB, 0xBB, 0x6D), (0x3A, 0x16, 0x16, 0x2C)]"

definition RT_rom :: "(u32 \<times> u32 \<times> u32 \<times> u32) list" where
  "RT_rom =
    [(0x50, 0xA7, 0xF4, 0x51), (0x53, 0x65, 0x41, 0x7E), (0xC3, 0xA4, 0x17, 0x1A), (0x96, 0x5E, 0x27, 0x3A),
     (0xCB, 0x6B, 0xAB, 0x3B), (0xF1, 0x45, 0x9D, 0x1F), (0xAB, 0x58, 0xFA, 0xAC), (0x93, 0x03, 0xE3, 0x4B),
     (0x55, 0xFA, 0x30, 0x20), (0xF6, 0x6D, 0x76, 0xAD), (0x91, 0x76, 0xCC, 0x88), (0x25, 0x4C, 0x02, 0xF5),
     (0xFC, 0xD7, 0xE5, 0x4F), (0xD7, 0xCB, 0x2A, 0xC5), (0x80, 0x44, 0x35, 0x26), (0x8F, 0xA3, 0x62, 0xB5),
     (0x49, 0x5A, 0xB1, 0xDE), (0x67, 0x1B, 0xBA, 0x25), (0x98, 0x0E, 0xEA, 0x45), (0xE1, 0xC0, 0xFE, 0x5D),
     (0x02, 0x75, 0x2F, 0xC3), (0x12, 0xF0, 0x4C, 0x81), (0xA3, 0x97, 0x46, 0x8D), (0xC6, 0xF9, 0xD3, 0x6B),
     (0xE7, 0x5F, 0x8F, 0x03), (0x95, 0x9C, 0x92, 0x15), (0xEB, 0x7A, 0x6D, 0xBF), (0xDA, 0x59, 0x52, 0x95),
     (0x2D, 0x83, 0xBE, 0xD4), (0xD3, 0x21, 0x74, 0x58), (0x29, 0x69, 0xE0, 0x49), (0x44, 0xC8, 0xC9, 0x8E),
     (0x6A, 0x89, 0xC2, 0x75), (0x78, 0x79, 0x8E, 0xF4), (0x6B, 0x3E, 0x58, 0x99), (0xDD, 0x71, 0xB9, 0x27),
     (0xB6, 0x4F, 0xE1, 0xBE), (0x17, 0xAD, 0x88, 0xF0), (0x66, 0xAC, 0x20, 0xC9), (0xB4, 0x3A, 0xCE, 0x7D),
     (0x18, 0x4A, 0xDF, 0x63), (0x82, 0x31, 0x1A, 0xE5), (0x60, 0x33, 0x51, 0x97), (0x45, 0x7F, 0x53, 0x62),
     (0xE0, 0x77, 0x64, 0xB1), (0x84, 0xAE, 0x6B, 0xBB), (0x1C, 0xA0, 0x81, 0xFE), (0x94, 0x2B, 0x08, 0xF9),
     (0x58, 0x68, 0x48, 0x70), (0x19, 0xFD, 0x45, 0x8F), (0x87, 0x6C, 0xDE, 0x94), (0xB7, 0xF8, 0x7B, 0x52),
     (0x23, 0xD3, 0x73, 0xAB), (0xE2, 0x02, 0x4B, 0x72), (0x57, 0x8F, 0x1F, 0xE3), (0x2A, 0xAB, 0x55, 0x66),
     (0x07, 0x28, 0xEB, 0xB2), (0x03, 0xC2, 0xB5, 0x2F), (0x9A, 0x7B, 0xC5, 0x86), (0xA5, 0x08, 0x37, 0xD3),
     (0xF2, 0x87, 0x28, 0x30), (0xB2, 0xA5, 0xBF, 0x23), (0xBA, 0x6A, 0x03, 0x02), (0x5C, 0x82, 0x16, 0xED),
     (0x2B, 0x1C, 0xCF, 0x8A), (0x92, 0xB4, 0x79, 0xA7), (0xF0, 0xF2, 0x07, 0xF3), (0xA1, 0xE2, 0x69, 0x4E),
     (0xCD, 0xF4, 0xDA, 0x65), (0xD5, 0xBE, 0x05, 0x06), (0x1F, 0x62, 0x34, 0xD1), (0x8A, 0xFE, 0xA6, 0xC4),
     (0x9D, 0x53, 0x2E, 0x34), (0xA0, 0x55, 0xF3, 0xA2), (0x32, 0xE1, 0x8A, 0x05), (0x75, 0xEB, 0xF6, 0xA4),
     (0x39, 0xEC, 0x83, 0x0B), (0xAA, 0xEF, 0x60, 0x40), (0x06, 0x9F, 0x71, 0x5E), (0x51, 0x10, 0x6E, 0xBD),
     (0xF9, 0x8A, 0x21, 0x3E), (0x3D, 0x06, 0xDD, 0x96), (0xAE, 0x05, 0x3E, 0xDD), (0x46, 0xBD, 0xE6, 0x4D),
     (0xB5, 0x8D, 0x54, 0x91), (0x05, 0x5D, 0xC4, 0x71), (0x6F, 0xD4, 0x06, 0x04), (0xFF, 0x15, 0x50, 0x60),
     (0x24, 0xFB, 0x98, 0x19), (0x97, 0xE9, 0xBD, 0xD6), (0xCC, 0x43, 0x40, 0x89), (0x77, 0x9E, 0xD9, 0x67),
     (0xBD, 0x42, 0xE8, 0xB0), (0x88, 0x8B, 0x89, 0x07), (0x38, 0x5B, 0x19, 0xE7), (0xDB, 0xEE, 0xC8, 0x79),
     (0x47, 0x0A, 0x7C, 0xA1), (0xE9, 0x0F, 0x42, 0x7C), (0xC9, 0x1E, 0x84, 0xF8), (0x00, 0x00, 0x00, 0x00),
     (0x83, 0x86, 0x80, 0x09), (0x48, 0xED, 0x2B, 0x32), (0xAC, 0x70, 0x11, 0x1E), (0x4E, 0x72, 0x5A, 0x6C),
     (0xFB, 0xFF, 0x0E, 0xFD), (0x56, 0x38, 0x85, 0x0F), (0x1E, 0xD5, 0xAE, 0x3D), (0x27, 0x39, 0x2D, 0x36),
     (0x64, 0xD9, 0x0F, 0x0A), (0x21, 0xA6, 0x5C, 0x68), (0xD1, 0x54, 0x5B, 0x9B), (0x3A, 0x2E, 0x36, 0x24),
     (0xB1, 0x67, 0x0A, 0x0C), (0x0F, 0xE7, 0x57, 0x93), (0xD2, 0x96, 0xEE, 0xB4), (0x9E, 0x91, 0x9B, 0x1B),
     (0x4F, 0xC5, 0xC0, 0x80), (0xA2, 0x20, 0xDC, 0x61), (0x69, 0x4B, 0x77, 0x5A), (0x16, 0x1A, 0x12, 0x1C),
     (0x0A, 0xBA, 0x93, 0xE2), (0xE5, 0x2A, 0xA0, 0xC0), (0x43, 0xE0, 0x22, 0x3C), (0x1D, 0x17, 0x1B, 0x12),
     (0x0B, 0x0D, 0x09, 0x0E), (0xAD, 0xC7, 0x8B, 0xF2), (0xB9, 0xA8, 0xB6, 0x2D), (0xC8, 0xA9, 0x1E, 0x14),
     (0x85, 0x19, 0xF1, 0x57), (0x4C, 0x07, 0x75, 0xAF), (0xBB, 0xDD, 0x99, 0xEE), (0xFD, 0x60, 0x7F, 0xA3),
     (0x9F, 0x26, 0x01, 0xF7), (0xBC, 0xF5, 0x72, 0x5C), (0xC5, 0x3B, 0x66, 0x44), (0x34, 0x7E, 0xFB, 0x5B),
     (0x76, 0x29, 0x43, 0x8B), (0xDC, 0xC6, 0x23, 0xCB), (0x68, 0xFC, 0xED, 0xB6), (0x63, 0xF1, 0xE4, 0xB8),
     (0xCA, 0xDC, 0x31, 0xD7), (0x10, 0x85, 0x63, 0x42), (0x40, 0x22, 0x97, 0x13), (0x20, 0x11, 0xC6, 0x84),
     (0x7D, 0x24, 0x4A, 0x85), (0xF8, 0x3D, 0xBB, 0xD2), (0x11, 0x32, 0xF9, 0xAE), (0x6D, 0xA1, 0x29, 0xC7),
     (0x4B, 0x2F, 0x9E, 0x1D), (0xF3, 0x30, 0xB2, 0xDC), (0xEC, 0x52, 0x86, 0x0D), (0xD0, 0xE3, 0xC1, 0x77),
     (0x6C, 0x16, 0xB3, 0x2B), (0x99, 0xB9, 0x70, 0xA9), (0xFA, 0x48, 0x94, 0x11), (0x22, 0x64, 0xE9, 0x47),
     (0xC4, 0x8C, 0xFC, 0xA8), (0x1A, 0x3F, 0xF0, 0xA0), (0xD8, 0x2C, 0x7D, 0x56), (0xEF, 0x90, 0x33, 0x22),
     (0xC7, 0x4E, 0x49, 0x87), (0xC1, 0xD1, 0x38, 0xD9), (0xFE, 0xA2, 0xCA, 0x8C), (0x36, 0x0B, 0xD4, 0x98),
     (0xCF, 0x81, 0xF5, 0xA6), (0x28, 0xDE, 0x7A, 0xA5), (0x26, 0x8E, 0xB7, 0xDA), (0xA4, 0xBF, 0xAD, 0x3F),
     (0xE4, 0x9D, 0x3A, 0x2C), (0x0D, 0x92, 0x78, 0x50), (0x9B, 0xCC, 0x5F, 0x6A), (0x62, 0x46, 0x7E, 0x54),
     (0xC2, 0x13, 0x8D, 0xF6), (0xE8, 0xB8, 0xD8, 0x90), (0x5E, 0xF7, 0x39, 0x2E), (0xF5, 0xAF, 0xC3, 0x82),
     (0xBE, 0x80, 0x5D, 0x9F), (0x7C, 0x93, 0xD0, 0x69), (0xA9, 0x2D, 0xD5, 0x6F), (0xB3, 0x12, 0x25, 0xCF),
     (0x3B, 0x99, 0xAC, 0xC8), (0xA7, 0x7D, 0x18, 0x10), (0x6E, 0x63, 0x9C, 0xE8), (0x7B, 0xBB, 0x3B, 0xDB),
     (0x09, 0x78, 0x26, 0xCD), (0xF4, 0x18, 0x59, 0x6E), (0x01, 0xB7, 0x9A, 0xEC), (0xA8, 0x9A, 0x4F, 0x83),
     (0x65, 0x6E, 0x95, 0xE6), (0x7E, 0xE6, 0xFF, 0xAA), (0x08, 0xCF, 0xBC, 0x21), (0xE6, 0xE8, 0x15, 0xEF),
     (0xD9, 0x9B, 0xE7, 0xBA), (0xCE, 0x36, 0x6F, 0x4A), (0xD4, 0x09, 0x9F, 0xEA), (0xD6, 0x7C, 0xB0, 0x29),
     (0xAF, 0xB2, 0xA4, 0x31), (0x31, 0x23, 0x3F, 0x2A), (0x30, 0x94, 0xA5, 0xC6), (0xC0, 0x66, 0xA2, 0x35),
     (0x37, 0xBC, 0x4E, 0x74), (0xA6, 0xCA, 0x82, 0xFC), (0xB0, 0xD0, 0x90, 0xE0), (0x15, 0xD8, 0xA7, 0x33),
     (0x4A, 0x98, 0x04, 0xF1), (0xF7, 0xDA, 0xEC, 0x41), (0x0E, 0x50, 0xCD, 0x7F), (0x2F, 0xF6, 0x91, 0x17),
     (0x8D, 0xD6, 0x4D, 0x76), (0x4D, 0xB0, 0xEF, 0x43), (0x54, 0x4D, 0xAA, 0xCC), (0xDF, 0x04, 0x96, 0xE4),
     (0xE3, 0xB5, 0xD1, 0x9E), (0x1B, 0x88, 0x6A, 0x4C), (0xB8, 0x1F, 0x2C, 0xC1), (0x7F, 0x51, 0x65, 0x46),
     (0x04, 0xEA, 0x5E, 0x9D), (0x5D, 0x35, 0x8C, 0x01), (0x73, 0x74, 0x87, 0xFA), (0x2E, 0x41, 0x0B, 0xFB),
     (0x5A, 0x1D, 0x67, 0xB3), (0x52, 0xD2, 0xDB, 0x92), (0x33, 0x56, 0x10, 0xE9), (0x13, 0x47, 0xD6, 0x6D),
     (0x8C, 0x61, 0xD7, 0x9A), (0x7A, 0x0C, 0xA1, 0x37), (0x8E, 0x14, 0xF8, 0x59), (0x89, 0x3C, 0x13, 0xEB),
     (0xEE, 0x27, 0xA9, 0xCE), (0x35, 0xC9, 0x61, 0xB7), (0xED, 0xE5, 0x1C, 0xE1), (0x3C, 0xB1, 0x47, 0x7A),
     (0x59, 0xDF, 0xD2, 0x9C), (0x3F, 0x73, 0xF2, 0x55), (0x79, 0xCE, 0x14, 0x18), (0xBF, 0x37, 0xC7, 0x73),
     (0xEA, 0xCD, 0xF7, 0x53), (0x5B, 0xAA, 0xFD, 0x5F), (0x14, 0x6F, 0x3D, 0xDF), (0x86, 0xDB, 0x44, 0x78),
     (0x81, 0xF3, 0xAF, 0xCA), (0x3E, 0xC4, 0x68, 0xB9), (0x2C, 0x34, 0x24, 0x38), (0x5F, 0x40, 0xA3, 0xC2),
     (0x72, 0xC3, 0x1D, 0x16), (0x0C, 0x25, 0xE2, 0xBC), (0x8B, 0x49, 0x3C, 0x28), (0x41, 0x95, 0x0D, 0xFF),
     (0x71, 0x01, 0xA8, 0x39), (0xDE, 0xB3, 0x0C, 0x08), (0x9C, 0xE4, 0xB4, 0xD8), (0x90, 0xC1, 0x56, 0x64),
     (0x61, 0x84, 0xCB, 0x7B), (0x70, 0xB6, 0x32, 0xD5), (0x74, 0x5C, 0x6C, 0x48), (0x42, 0x57, 0xB8, 0xD0)]"

text \<open>The words of the four forward tables and of the four reverse tables, by the definitions of the macro \<open>V\<close>.\<close>

definition word_abcd :: "u32 \<times> u32 \<times> u32 \<times> u32 \<Rightarrow> u32" where
  "word_abcd = (\<lambda>(a, b, c, d). push_bit 24 a OR push_bit 16 b OR push_bit 8 c OR d)"
definition word_bcda :: "u32 \<times> u32 \<times> u32 \<times> u32 \<Rightarrow> u32" where
  "word_bcda = (\<lambda>(a, b, c, d). word_abcd (b, c, d, a))"
definition word_cdab :: "u32 \<times> u32 \<times> u32 \<times> u32 \<Rightarrow> u32" where
  "word_cdab = (\<lambda>(a, b, c, d). word_abcd (c, d, a, b))"
definition word_dabc :: "u32 \<times> u32 \<times> u32 \<times> u32 \<Rightarrow> u32" where
  "word_dabc = (\<lambda>(a, b, c, d). word_abcd (d, a, b, c))"

definition rom_tables :: aes_tables where
  "rom_tables = \<lparr>FSb = FSb_rom, FT0 = map word_abcd FT_rom, FT1 = map word_bcda FT_rom, FT2 = map word_cdab FT_rom,
     FT3 = map word_dabc FT_rom, RSb = RSb_rom, RT0 = map word_abcd RT_rom, RT1 = map word_bcda RT_rom,
     RT2 = map word_cdab RT_rom, RT3 = map word_dabc RT_rom, RCON = RCON_rom, aes_init_done = True\<rparr>"

subsection \<open>Round keys\<close>

record weeny_aes_context =
  nr :: nat
  rk_set :: bool
  rk_buf :: "u32 list"

definition byte0 :: "u32 \<Rightarrow> nat" where "byte0 x = unat (x AND 0xFF)"
definition byte1 :: "u32 \<Rightarrow> nat" where "byte1 x = unat (drop_bit 8 x AND 0xFF)"
definition byte2 :: "u32 \<Rightarrow> nat" where "byte2 x = unat (drop_bit 16 x AND 0xFF)"
definition byte3 :: "u32 \<Rightarrow> nat" where "byte3 x = unat (drop_bit 24 x AND 0xFF)"

text \<open>Four bytes of a substitution table as a word.\<close>

definition sub4 :: "u8 list \<Rightarrow> nat \<Rightarrow> nat \<Rightarrow> nat \<Rightarrow> nat \<Rightarrow> u32" where
  "sub4 s i j k l = ucast (s ! i) XOR push_bit 8 (ucast (s ! j)) XOR push_bit 16 (ucast (s ! k)) XOR push_bit 24 (ucast (s ! l))"

text \<open>\<open>RK[k] = RK[k - n] ^ RK[k - 1]\<close> for the words \<open>k\<close> from \<open>p + a\<close> to \<open>p + b - 1\<close>.\<close>

definition xor_words :: "nat \<Rightarrow> nat \<Rightarrow> nat \<Rightarrow> nat \<Rightarrow> u32 list \<Rightarrow> u32 list" where
  "xor_words n p a b rk = fold (\<lambda>k rk. rk[p + k := rk ! (p + k - n) XOR rk ! (p + k - 1)]) [a..<b] rk"

definition expand10 :: "aes_tables \<Rightarrow> nat \<Rightarrow> u32 list \<Rightarrow> u32 list" where
  "expand10 t i rk =
     (let p = 4 * i; w = rk ! (p + 3);
          rk = rk[p + 4 := rk ! p XOR RCON t ! i XOR sub4 (FSb t) (byte1 w) (byte2 w) (byte3 w) (byte0 w)]
      in xor_words 4 p 5 8 rk)"

definition expand12 :: "aes_tables \<Rightarrow> nat \<Rightarrow> u32 list \<Rightarrow> u32 list" where
  "expand12 t i rk =
     (let p = 6 * i; w = rk ! (p + 5);
          rk = rk[p + 6 := rk ! p XOR RCON t ! i XOR sub4 (FSb t) (byte1 w) (byte2 w) (byte3 w) (byte0 w)]
      in xor_words 6 p 7 12 rk)"

definition expand14 :: "aes_tables \<Rightarrow> nat \<Rightarrow> u32 list \<Rightarrow> u32 list" where
  "expand14 t i rk =
     (let p = 8 * i; w = rk ! (p + 7);
          rk = rk[p + 8 := rk ! p XOR RCON t ! i XOR sub4 (FSb t) (byte1 w) (byte2 w) (byte3 w) (byte0 w)];
          rk = xor_words 8 p 9 12 rk;
          w = rk ! (p + 11);
          rk = rk[p + 12 := rk ! (p + 4) XOR sub4 (FSb t) (byte0 w) (byte1 w) (byte2 w) (byte3 w)]
      in xor_words 8 p 13 16 rk)"

definition expand :: "aes_tables \<Rightarrow> nat \<Rightarrow> u32 list \<Rightarrow> u32 list" where
  "expand t n rk =
     (if n = 10 then fold (expand10 t) [0..<10] rk
      else if n = 12 then fold (expand12 t) [0..<8] rk
      else if n = 14 then fold (expand14 t) [0..<7] rk else rk)"

definition key_rounds :: "int \<Rightarrow> nat option" where
  "key_rounds keysize = (if keysize = 128 then Some 10 else if keysize = 192 then Some 12
     else if keysize = 256 then Some 14 else None)"

text \<open>\<open>tmp\<close> is what the allocation answers if the tables have not been computed yet.\<close>

definition weeny_aes_setkey_enc ::
  "((nat \<Rightarrow> u32) \<times> (nat \<Rightarrow> u32)) option \<Rightarrow> weeny_aes_context \<Rightarrow> u8 list \<Rightarrow> int \<Rightarrow> aes_tables
     \<Rightarrow> (weeny_aes_context \<times> aes_tables) option" where
  "weeny_aes_setkey_enc tmp ctx key keysize t =
     (let t = (if aes_init_done t then t else (aes_gen_tables tmp t)\<lparr>aes_init_done := True\<rparr>) in
      case key_rounds keysize of
        None \<Rightarrow> Some (ctx, t)
      | Some n \<Rightarrow> do {
          kb \<leftarrow> mem_load key 0 (nat keysize div 8);
          let rk = fold (\<lambda>i rk. rk[i := get32 kb (4 * i)]) [0..<nat keysize div 32] (rk_buf ctx);
          Some (ctx\<lparr>nr := n, rk_set := True, rk_buf := expand t n rk\<rparr>, t) })"

definition inv_word :: "aes_tables \<Rightarrow> u32 \<Rightarrow> u32" where
  "inv_word t w = RT0 t ! unat (FSb t ! byte0 w) XOR RT1 t ! unat (FSb t ! byte1 w)
     XOR RT2 t ! unat (FSb t ! byte2 w) XOR RT3 t ! unat (FSb t ! byte3 w)"

text \<open>The loop over the rounds: \<open>sk\<close> and \<open>rk\<close> are the positions of \<open>SK\<close> and \<open>RK\<close>.\<close>

fun inv_rounds :: "aes_tables \<Rightarrow> u32 list \<Rightarrow> nat \<Rightarrow> nat \<Rightarrow> nat \<Rightarrow> u32 list \<Rightarrow> nat \<times> nat \<times> u32 list" where
  "inv_rounds t src 0 sk rk dst = (sk, rk, dst)"
| "inv_rounds t src (Suc i) sk rk dst =
     inv_rounds t src i (sk + 4 - 8) (rk + 4) (fold (\<lambda>j dst. dst[rk + j := inv_word t (src ! (sk + j))]) [0..<4] dst)"

definition copy4 :: "u32 list \<Rightarrow> nat \<Rightarrow> nat \<Rightarrow> u32 list \<Rightarrow> u32 list" where
  "copy4 src sk rk dst = fold (\<lambda>j dst. dst[rk + j := src ! (sk + j)]) [0..<4] dst"

text \<open>\<open>cty\<close> is the local context before it is set.\<close>

definition weeny_aes_setkey_dec ::
  "((nat \<Rightarrow> u32) \<times> (nat \<Rightarrow> u32)) option \<Rightarrow> weeny_aes_context \<Rightarrow> weeny_aes_context \<Rightarrow> u8 list \<Rightarrow> int \<Rightarrow> aes_tables
     \<Rightarrow> (weeny_aes_context \<times> aes_tables) option" where
  "weeny_aes_setkey_dec tmp cty ctx key keysize t =
     (case key_rounds keysize of
        None \<Rightarrow> Some (ctx, t)
      | Some n \<Rightarrow> do {
          (cty, t) \<leftarrow> weeny_aes_setkey_enc tmp cty key keysize t;
          let sk = nr cty * 4;
          let dst = copy4 (rk_buf cty) sk 0 (rk_buf ctx);
          let (sk, rk, dst) = inv_rounds t (rk_buf cty) (n - 1) (sk + 4 - 8) 4 dst;
          let dst = copy4 (rk_buf cty) sk rk dst;
          Some (ctx\<lparr>nr := n, rk_set := True, rk_buf := dst\<rparr>, t) })"

subsection \<open>Blocks\<close>

type_synonym aes_state = "u32 \<times> u32 \<times> u32 \<times> u32"

definition add_key :: "u32 list \<Rightarrow> nat \<Rightarrow> aes_state \<Rightarrow> aes_state" where
  "add_key rk p = (\<lambda>(x0, x1, x2, x3). (x0 XOR rk ! p, x1 XOR rk ! (p + 1), x2 XOR rk ! (p + 2), x3 XOR rk ! (p + 3)))"

definition ft :: "aes_tables \<Rightarrow> u32 \<Rightarrow> u32 \<Rightarrow> u32 \<Rightarrow> u32 \<Rightarrow> u32" where
  "ft t a b c d = FT0 t ! byte0 a XOR FT1 t ! byte1 b XOR FT2 t ! byte2 c XOR FT3 t ! byte3 d"
definition rt :: "aes_tables \<Rightarrow> u32 \<Rightarrow> u32 \<Rightarrow> u32 \<Rightarrow> u32 \<Rightarrow> u32" where
  "rt t a b c d = RT0 t ! byte0 a XOR RT1 t ! byte1 b XOR RT2 t ! byte2 c XOR RT3 t ! byte3 d"

definition AES_FROUND :: "aes_tables \<Rightarrow> u32 list \<Rightarrow> nat \<Rightarrow> aes_state \<Rightarrow> aes_state" where
  "AES_FROUND t rk p = (\<lambda>(y0, y1, y2, y3).
     (rk ! p XOR ft t y0 y1 y2 y3, rk ! (p + 1) XOR ft t y1 y2 y3 y0,
      rk ! (p + 2) XOR ft t y2 y3 y0 y1, rk ! (p + 3) XOR ft t y3 y0 y1 y2))"

definition AES_RROUND :: "aes_tables \<Rightarrow> u32 list \<Rightarrow> nat \<Rightarrow> aes_state \<Rightarrow> aes_state" where
  "AES_RROUND t rk p = (\<lambda>(y0, y1, y2, y3).
     (rk ! p XOR rt t y0 y3 y2 y1, rk ! (p + 1) XOR rt t y1 y0 y3 y2,
      rk ! (p + 2) XOR rt t y2 y1 y0 y3, rk ! (p + 3) XOR rt t y3 y2 y1 y0))"

definition last_fround :: "aes_tables \<Rightarrow> u32 list \<Rightarrow> nat \<Rightarrow> aes_state \<Rightarrow> aes_state" where
  "last_fround t rk p = (\<lambda>(y0, y1, y2, y3). let s = (\<lambda>a b c d. sub4 (FSb t) (byte0 a) (byte1 b) (byte2 c) (byte3 d)) in
     (rk ! p XOR s y0 y1 y2 y3, rk ! (p + 1) XOR s y1 y2 y3 y0,
      rk ! (p + 2) XOR s y2 y3 y0 y1, rk ! (p + 3) XOR s y3 y0 y1 y2))"

definition last_rround :: "aes_tables \<Rightarrow> u32 list \<Rightarrow> nat \<Rightarrow> aes_state \<Rightarrow> aes_state" where
  "last_rround t rk p = (\<lambda>(y0, y1, y2, y3). let s = (\<lambda>a b c d. sub4 (RSb t) (byte0 a) (byte1 b) (byte2 c) (byte3 d)) in
     (rk ! p XOR s y0 y3 y2 y1, rk ! (p + 1) XOR s y1 y0 y3 y2,
      rk ! (p + 2) XOR s y2 y1 y0 y3, rk ! (p + 3) XOR s y3 y2 y1 y0))"

text \<open>The loop takes two rounds in a turn.\<close>

fun round_loop :: "(nat \<Rightarrow> aes_state \<Rightarrow> aes_state) \<Rightarrow> nat \<Rightarrow> nat \<Rightarrow> aes_state \<Rightarrow> nat \<times> aes_state" where
  "round_loop rnd 0 p x = (p, x)"
| "round_loop rnd (Suc i) p x = round_loop rnd i (p + 8) (rnd (p + 4) (rnd p x))"

definition get_state :: "u8 list \<Rightarrow> aes_state" where
  "get_state bs = (get32 bs 0, get32 bs 4, get32 bs 8, get32 bs 12)"

definition put_state :: "aes_state \<Rightarrow> u8 list" where
  "put_state = (\<lambda>(x0, x1, x2, x3). le32 x0 @ le32 x1 @ le32 x2 @ le32 x3)"

text \<open>The round keys are read up to the last word of the last round.\<close>

definition weeny_aes_crypt_ecb :: "aes_tables \<Rightarrow> weeny_aes_context \<Rightarrow> bool \<Rightarrow> u8 list \<Rightarrow> u8 list option" where
  "weeny_aes_crypt_ecb t ctx decrypt input =
     (if \<not> rk_set ctx \<or> length (rk_buf ctx) < 4 * (nr ctx + 1) \<or> length input < 16 then None
      else
        (let rk = rk_buf ctx;
             rnd = (if decrypt then AES_RROUND t rk else AES_FROUND t rk);
             (p, x) = round_loop rnd (nr ctx div 2 - 1) 4 (add_key rk 0 (get_state input));
             x = rnd p x
         in Some (put_state ((if decrypt then last_rround t rk else last_fround t rk) (p + 4) x))))"

subsection \<open>Buffers\<close>

definition xor_bytes :: "u8 list \<Rightarrow> u8 list \<Rightarrow> u8 list" where
  "xor_bytes xs ys = map2 (XOR) xs ys"

text \<open>\<open>input\<close> and \<open>out\<close> are the buffers from the two pointers on; the result is the block \<open>iv\<close> and what was written.\<close>

function cbc_loop :: "aes_tables \<Rightarrow> weeny_aes_context \<Rightarrow> bool \<Rightarrow> int \<Rightarrow> nat \<Rightarrow> u8 list \<Rightarrow> u8 list \<Rightarrow> u8 list
    \<Rightarrow> (u8 list \<times> u8 list) option" where
  "cbc_loop t ctx decrypt len p iv input out =
     (if len \<le> 0 then Some (iv, out)
      else do {
        blk \<leftarrow> mem_load input p 16;
        (iv, bs) \<leftarrow> (if decrypt
                     then map_option (\<lambda>b. (blk, xor_bytes b iv)) (weeny_aes_crypt_ecb t ctx True blk)
                     else map_option (\<lambda>b. (b, b)) (weeny_aes_crypt_ecb t ctx False (xor_bytes blk iv)));
        out \<leftarrow> mem_store out p bs;
        cbc_loop t ctx decrypt (len - 16) (p + 16) iv input out })"
  by pat_completeness auto
termination
  by (relation "measure (\<lambda>(_, _, _, len, _). nat len)") auto

definition weeny_aes_crypt_cbc :: "aes_tables \<Rightarrow> weeny_aes_context \<Rightarrow> bool \<Rightarrow> int \<Rightarrow> u8 list \<Rightarrow> u8 list \<Rightarrow> u8 list
    \<Rightarrow> (u8 list \<times> u8 list) option" where
  "weeny_aes_crypt_cbc t ctx decrypt len iv input out =
     (if len \<le> 0 then Some (iv, out)
      else do {
        iv16 \<leftarrow> mem_load iv 0 16;
        (iv16, out) \<leftarrow> cbc_loop t ctx decrypt len 0 iv16 input out;
        Some (iv16 @ drop 16 iv, out) })"

text \<open>One byte of the feedback mode; the loop counts a negative length down past 0, and leaves every buffer.\<close>

definition cfb_byte :: "aes_tables \<Rightarrow> weeny_aes_context \<Rightarrow> bool \<Rightarrow> u8 \<Rightarrow> nat \<times> u8 list \<Rightarrow> (u8 \<times> nat \<times> u8 list) option" where
  "cfb_byte t ctx decrypt c = (\<lambda>(n, iv). do {
     iv \<leftarrow> (if n = 0 then map_option (\<lambda>b. b @ drop 16 iv) (weeny_aes_crypt_ecb t ctx False iv) else Some iv);
     k \<leftarrow> mem_byte iv n;
     Some (c XOR k, (n + 1) mod 16, iv[n := if decrypt then c else k XOR c]) })"

fun cfb_loop :: "aes_tables \<Rightarrow> weeny_aes_context \<Rightarrow> bool \<Rightarrow> u8 list \<Rightarrow> nat \<times> u8 list \<Rightarrow> (u8 list \<times> nat \<times> u8 list) option" where
  "cfb_loop t ctx decrypt [] s = Some ([], s)"
| "cfb_loop t ctx decrypt (c # cs) s = do {
     (b, s) \<leftarrow> cfb_byte t ctx decrypt c s;
     (bs, s) \<leftarrow> cfb_loop t ctx decrypt cs s;
     Some (b # bs, s) }"

definition weeny_aes_crypt_cfb128 ::
  "aes_tables \<Rightarrow> weeny_aes_context \<Rightarrow> bool \<Rightarrow> int \<Rightarrow> nat \<Rightarrow> u8 list \<Rightarrow> u8 list \<Rightarrow> u8 list
     \<Rightarrow> (nat \<times> u8 list \<times> u8 list) option" where
  "weeny_aes_crypt_cfb128 t ctx decrypt len iv_off iv input out =
     (if len < 0 then None
      else do {
        cs \<leftarrow> mem_load input 0 (nat len);
        (bs, n, iv) \<leftarrow> cfb_loop t ctx decrypt cs (iv_off, iv);
        out \<leftarrow> mem_store out 0 bs;
        Some (n, iv, out) })"

end
