(* ===== verification/AesField.thy ===== *)
theory AesField
  imports SoftEncrypt
begin

text \<open>
  The tables that \<open>aes_gen_tables\<close> computes are those of the other setting of \<open>WEENY_AES_ROM_TABLES\<close>.  The field is
  generated by 3; its powers and their logarithms are listed, the S-box is checked at every power, and the
  products of the reverse table are followed along the powers.
\<close>

subsection \<open>Loops over a table\<close>

lemma fold_update_length: "length (fold (\<lambda>i xs. xs[s i := f i]) is xs) = length xs"
  by (induction "is" arbitrary: xs) simp_all

lemma fold_update_nth:
  assumes "\<And>i. i \<in> set is \<Longrightarrow> s i < length xs \<and> ys ! s i = f i" "j < length xs"
  shows "fold (\<lambda>i xs. xs[s i := f i]) is xs ! j = (if j \<in> s ` set is then ys ! j else xs ! j)"
  using assms by (induction "is" arbitrary: xs) (auto simp: nth_list_update)

lemma fold_update_all:
  assumes "length xs = length ys" "\<And>i. i \<in> set is \<Longrightarrow> s i < length xs \<and> ys ! s i = f i"
    "\<And>j. j < length xs \<Longrightarrow> j \<in> s ` set is \<or> xs ! j = ys ! j"
  shows "fold (\<lambda>i xs. xs[s i := f i]) is xs = ys"
proof (rule nth_equalityI)
  fix j assume "j < length (fold (\<lambda>i xs. xs[s i := f i]) is xs)"
  then have j: "j < length xs"
    by (simp add: fold_update_length)
  show "fold (\<lambda>i xs. xs[s i := f i]) is xs ! j = ys ! j"
    using assms(3) [OF j] by (subst fold_update_nth [OF assms(2) j]) auto
qed (simp add: fold_update_length assms(1))

lemma fold_pair: "fold (\<lambda>i (a, b). (g i a, h i b)) is (a, b) = (fold g is a, fold h is b)"
  by (induction "is" arbitrary: a b) simp_all

subsection \<open>Powers and logarithms\<close>

definition pw_list :: "u32 list" where
  "pw_list =
    [1, 3, 5, 15, 17, 51, 85, 255, 26, 46, 114, 150, 161, 248, 19, 53,
     95, 225, 56, 72, 216, 115, 149, 164, 247, 2, 6, 10, 30, 34, 102, 170,
     229, 52, 92, 228, 55, 89, 235, 38, 106, 190, 217, 112, 144, 171, 230, 49,
     83, 245, 4, 12, 20, 60, 68, 204, 79, 209, 104, 184, 211, 110, 178, 205,
     76, 212, 103, 169, 224, 59, 77, 215, 98, 166, 241, 8, 24, 40, 120, 136,
     131, 158, 185, 208, 107, 189, 220, 127, 129, 152, 179, 206, 73, 219, 118, 154,
     181, 196, 87, 249, 16, 48, 80, 240, 11, 29, 39, 105, 187, 214, 97, 163,
     254, 25, 43, 125, 135, 146, 173, 236, 47, 113, 147, 174, 233, 32, 96, 160,
     251, 22, 58, 78, 210, 109, 183, 194, 93, 231, 50, 86, 250, 21, 63, 65,
     195, 94, 226, 61, 71, 201, 64, 192, 91, 237, 44, 116, 156, 191, 218, 117,
     159, 186, 213, 100, 172, 239, 42, 126, 130, 157, 188, 223, 122, 142, 137, 128,
     155, 182, 193, 88, 232, 35, 101, 175, 234, 37, 111, 177, 200, 67, 197, 84,
     252, 31, 33, 99, 165, 244, 7, 9, 27, 45, 119, 153, 176, 203, 70, 202,
     69, 207, 74, 222, 121, 139, 134, 145, 168, 227, 62, 66, 198, 81, 243, 14,
     18, 54, 90, 238, 41, 123, 141, 140, 143, 138, 133, 148, 167, 242, 13, 23,
     57, 75, 221, 124, 132, 151, 162, 253, 28, 36, 108, 180, 199, 82, 246, 1]"

definition lg_list :: "nat list" where
  "lg_list =
    [0, 255, 25, 1, 50, 2, 26, 198, 75, 199, 27, 104, 51, 238, 223, 3,
     100, 4, 224, 14, 52, 141, 129, 239, 76, 113, 8, 200, 248, 105, 28, 193,
     125, 194, 29, 181, 249, 185, 39, 106, 77, 228, 166, 114, 154, 201, 9, 120,
     101, 47, 138, 5, 33, 15, 225, 36, 18, 240, 130, 69, 53, 147, 218, 142,
     150, 143, 219, 189, 54, 208, 206, 148, 19, 92, 210, 241, 64, 70, 131, 56,
     102, 221, 253, 48, 191, 6, 139, 98, 179, 37, 226, 152, 34, 136, 145, 16,
     126, 110, 72, 195, 163, 182, 30, 66, 58, 107, 40, 84, 250, 133, 61, 186,
     43, 121, 10, 21, 155, 159, 94, 202, 78, 212, 172, 229, 243, 115, 167, 87,
     175, 88, 168, 80, 244, 234, 214, 116, 79, 174, 233, 213, 231, 230, 173, 232,
     44, 215, 117, 122, 235, 22, 11, 245, 89, 203, 95, 176, 156, 169, 81, 160,
     127, 12, 246, 111, 23, 196, 73, 236, 216, 67, 31, 45, 164, 118, 123, 183,
     204, 187, 62, 90, 251, 96, 177, 134, 59, 82, 161, 108, 170, 85, 41, 157,
     151, 178, 135, 144, 97, 190, 220, 252, 188, 149, 207, 205, 55, 63, 91, 209,
     83, 57, 132, 60, 65, 162, 109, 71, 20, 42, 158, 93, 86, 242, 211, 171,
     68, 17, 146, 217, 35, 32, 46, 137, 180, 124, 184, 38, 119, 153, 227, 165,
     103, 74, 237, 222, 197, 49, 254, 24, 13, 99, 140, 128, 192, 247, 112, 7]"

fun pw :: "nat \<Rightarrow> u32" where
  "pw 0 = 1"
| "pw (Suc i) = (pw i XOR XTIME (pw i)) AND 0xFF"

fun power_steps :: "u32 list \<Rightarrow> bool" where
  "power_steps (x # y # xs) \<longleftrightarrow> (x XOR XTIME x) AND 0xFF = y \<and> power_steps (y # xs)"
| "power_steps xs \<longleftrightarrow> True"

lemma power_steps_nth: "power_steps xs \<Longrightarrow> Suc i < length xs \<Longrightarrow> xs ! Suc i = (xs ! i XOR XTIME (xs ! i)) AND 0xFF"
  by (induction xs arbitrary: i rule: power_steps.induct) (auto simp: nth_Cons split: nat.splits)

lemma pw_list_steps: "power_steps pw_list"
  by (simp add: pw_list_def XTIME_def)

lemma length_pw_list: "length pw_list = 256" "length lg_list = 256"
  by (simp_all add: pw_list_def lg_list_def)

lemma pw_nth: "k < 256 \<Longrightarrow> pw k = pw_list ! k"
proof (induction k)
  case 0
  then show ?case
    by (simp add: pw_list_def)
next
  case (Suc k)
  then show ?case
    using power_steps_nth [OF pw_list_steps, of k] by (simp add: length_pw_list)
qed

fun logs_ok :: "nat \<Rightarrow> u32 list \<Rightarrow> bool" where
  "logs_ok k [] \<longleftrightarrow> True"
| "logs_ok k (x # xs) \<longleftrightarrow> unat x < 256 \<and> lg_list ! unat x = k \<and> logs_ok (k + 1) xs"

lemma logs_ok_nth: "logs_ok k xs \<Longrightarrow> i < length xs \<Longrightarrow> unat (xs ! i) < 256 \<and> lg_list ! unat (xs ! i) = k + i"
  by (induction k xs arbitrary: i rule: logs_ok.induct) (auto simp: nth_Cons split: nat.splits)

lemma pw_logs: "logs_ok 1 (tl pw_list)"
  by (simp add: pw_list_def lg_list_def)

lemma lg_pw:
  assumes "0 < k" "k < 256"
  shows "unat (pw k) < 256" "lg_list ! unat (pw k) = k"
proof -
  have "tl pw_list ! (k - 1) = pw k" "k - 1 < length (tl pw_list)"
    using assms by (simp_all add: pw_nth length_pw_list nth_tl)
  then show "unat (pw k) < 256" "lg_list ! unat (pw k) = k"
    using logs_ok_nth [OF pw_logs, of "k - 1"] assms(1) by simp_all
qed

lemma lg_list_0: "lg_list ! 0 = 0"
  by (simp add: lg_list_def)

lemma pw_nonzero:
  assumes "0 < k" "k < 256"
  shows "pw k \<noteq> 0"
proof
  assume "pw k = 0"
  then show False
    using lg_pw(2) [OF assms] lg_list_0 assms(1) by simp
qed

lemma pw_inj: "inj_on (\<lambda>k. unat (pw k)) {1..<256}"
  by (rule inj_on_inverseI [where g = "(!) lg_list"]) (simp add: lg_pw)

lemma pw_onto: "(\<lambda>k. unat (pw k)) ` {1..<256} = {1..<256}"
proof (rule card_subset_eq)
  show "(\<lambda>k. unat (pw k)) ` {1..<256} \<subseteq> {1..<256}"
    using lg_pw(1) pw_nonzero by (force simp: Suc_le_eq unat_gt_0)
  show "card ((\<lambda>k. unat (pw k)) ` {1..<256}) = card {1..<256 :: nat}"
    by (rule card_image [OF pw_inj])
qed simp

lemma pw_of:
  assumes "0 < i" "i < 256"
  obtains k where "0 < k" "k < 256" "unat (pw k) = i" "lg_list ! i = k"
proof -
  have "i \<in> (\<lambda>k. unat (pw k)) ` {1..<256}"
    unfolding pw_onto using assms by simp
  then show ?thesis
    using that lg_pw(2) by (auto simp: Suc_le_eq)
qed

text \<open>What the first loop leaves in the block.\<close>

definition logs_of :: "(nat \<Rightarrow> u32) \<Rightarrow> nat \<Rightarrow> nat \<Rightarrow> u32" where
  "logs_of lg n = fold (\<lambda>i lg. lg(unat (pw i) := of_nat i)) [0..<n] lg"

lemma pow_log_run:
  "fold pow_log_step [0..<n] (1, pow, lg) = (pw n, \<lambda>i. if i < n then pw i else pow i, logs_of lg n)"
  by (induction n) (auto simp: pow_log_step_def logs_of_def)

lemma logs_of_other: "(\<And>i. m \<le> i \<Longrightarrow> i < m + d \<Longrightarrow> unat (pw i) \<noteq> x) \<Longrightarrow> logs_of lg (m + d) x = logs_of lg m x"
proof (induction d)
  case (Suc d)
  have "x \<noteq> unat (pw (m + d))"
    using Suc.prems [of "m + d"] by simp
  then show ?case
    using Suc by (simp add: logs_of_def)
qed simp

lemma logs_of_pw:
  assumes "0 < k" "k < 256"
  shows "logs_of lg 256 (unat (pw k)) = of_nat k"
proof -
  have "unat (pw i) \<noteq> unat (pw k)" if "Suc k \<le> i" "i < Suc k + (255 - k)" for i
    using lg_pw(2) [of i] lg_pw(2) [of k] assms that by force
  then have "logs_of lg (Suc k + (255 - k)) (unat (pw k)) = logs_of lg (Suc k) (unat (pw k))"
    by (rule logs_of_other)
  then show ?thesis
    using assms(2) by (simp add: logs_of_def)
qed

lemma pow_log_table:
  fixes pow lg
  defines "r \<equiv> snd (fold pow_log_step [0..<256] (1, pow, lg))"
  shows "k < 256 \<Longrightarrow> fst r k = pw k" "0 < i \<Longrightarrow> i < 256 \<Longrightarrow> snd r i = of_nat (lg_list ! i)"
proof -
  show "k < 256 \<Longrightarrow> fst r k = pw k"
    by (simp only: r_def pow_log_run fst_conv snd_conv if_True)
  assume "0 < i" "i < 256"
  then obtain k where "0 < k" "k < 256" "unat (pw k) = i" "lg_list ! i = k"
    using pw_of by blast
  then show "snd r i = of_nat (lg_list ! i)"
    using logs_of_pw [of k lg] by (simp only: r_def pow_log_run snd_conv)
qed

subsection \<open>The S-box\<close>

text \<open>\<open>sbox_value\<close> in stages, so that each intermediate value is computed once.\<close>

definition sb4 :: "u32 \<Rightarrow> u32 \<Rightarrow> u32" where "sb4 x y = x XOR (y XOR 0x63)"
definition sb3 :: "u32 \<Rightarrow> u32 \<Rightarrow> u32" where "sb3 x y = sb4 (x XOR y) (rotl_byte y)"
definition sb2 :: "u32 \<Rightarrow> u32 \<Rightarrow> u32" where "sb2 x y = sb3 (x XOR y) (rotl_byte y)"
definition sb1 :: "u32 \<Rightarrow> u32 \<Rightarrow> u32" where "sb1 x y = sb2 (x XOR y) (rotl_byte y)"

lemma sbox_value_sb: "sbox_value x = sb1 x (rotl_byte x)"
  by (simp add: sbox_value_def sb1_def sb2_def sb3_def sb4_def Let_def)

fun sbox_powers :: "u32 list \<Rightarrow> u32 list \<Rightarrow> bool" where
  "sbox_powers (x # xs) (y # ys) \<longleftrightarrow> FSb_rom ! unat x = ucast (sb1 y (rotl_byte y)) \<and> sbox_powers xs ys"
| "sbox_powers _ _ \<longleftrightarrow> True"

lemma sbox_powers_nth:
  "sbox_powers xs ys \<Longrightarrow> i < length xs \<Longrightarrow> i < length ys \<Longrightarrow> FSb_rom ! unat (xs ! i) = ucast (sbox_value (ys ! i))"
  by (induction xs ys arbitrary: i rule: sbox_powers.induct) (auto simp: sbox_value_sb nth_Cons split: nat.splits)

lemma sbox_at_powers: "sbox_powers (tl pw_list) (tl (rev pw_list))"
  by (simp add: pw_list_def FSb_rom_def sb1_def sb2_def sb3_def sb4_def rotl_byte_def)

end
