(* ===== verification/AesTables.thy ===== *)
theory AesTables
  imports AesField
begin

text \<open>
  The three loops of \<open>aes_gen_tables\<close>: what they leave in the S-boxes and in the forward and reverse tables, and
  that this is what the literal tables hold.  A word of the forward table is \<open>M0\<close> of an entry of the S-box, a
  word of the reverse table is \<open>N0\<close> of an entry of the inverse, and the other three tables are rotations.
\<close>

subsection \<open>The S-box and its inverse\<close>

lemma rom_lengths: "length FSb_rom = 256" "length RSb_rom = 256" "length RCON_rom = 10" "length FT_rom = 256" "length RT_rom = 256"
  by (simp_all add: FSb_rom_def RSb_rom_def RCON_rom_def FT_rom_def RT_rom_def)

lemma sbox_power:
  assumes "0 < k" "k < 256"
  shows "FSb_rom ! unat (pw k) = ucast (sbox_value (pw (255 - k)))"
proof -
  have "tl pw_list ! (k - 1) = pw k" "tl (rev pw_list) ! (k - 1) = pw (255 - k)"
    "k - 1 < length (tl pw_list)" "k - 1 < length (tl (rev pw_list))"
    using assms by (simp_all add: pw_nth length_pw_list nth_tl rev_nth)
  then show ?thesis
    using sbox_powers_nth [OF sbox_at_powers, of "k - 1"] by (simp only:)
qed

fun inverse_ok :: "nat \<Rightarrow> u8 list \<Rightarrow> bool" where
  "inverse_ok k [] \<longleftrightarrow> True"
| "inverse_ok k (x # xs) \<longleftrightarrow> unat (RSb_rom ! unat x) = k \<and> inverse_ok (k + 1) xs"

lemma inverse_ok_nth: "inverse_ok k xs \<Longrightarrow> i < length xs \<Longrightarrow> unat (RSb_rom ! unat (xs ! i)) = k + i"
  by (induction k xs arbitrary: i rule: inverse_ok.induct) (auto simp: nth_Cons split: nat.splits)

lemma sbox_inverse: "inverse_ok 0 FSb_rom"
  by (simp add: FSb_rom_def RSb_rom_def)

lemma RSb_FSb: "i < 256 \<Longrightarrow> unat (RSb_rom ! unat (FSb_rom ! i)) = i"
  using inverse_ok_nth [OF sbox_inverse] by (simp add: rom_lengths)

lemma unat_u8: "unat (x :: u8) < 256"
  using unsigned_less [of x] by simp

lemma FSb_inj: "inj_on (\<lambda>i. unat (FSb_rom ! i)) {0..<256}"
  by (rule inj_on_inverseI [where g = "\<lambda>x. unat (RSb_rom ! x)"]) (simp add: RSb_FSb)

lemma FSb_onto: "(\<lambda>i. unat (FSb_rom ! i)) ` {0..<256} = {0..<256}"
proof (rule card_subset_eq)
  show "(\<lambda>i. unat (FSb_rom ! i)) ` {0..<256} \<subseteq> {0..<256}"
    using unat_u8 by auto
  show "card ((\<lambda>i. unat (FSb_rom ! i)) ` {0..<256}) = card {0..<256 :: nat}"
    by (rule card_image [OF FSb_inj])
qed simp

lemma FSb_RSb: "i < 256 \<Longrightarrow> unat (FSb_rom ! unat (RSb_rom ! i)) = i"
proof -
  assume "i < 256"
  then have "i \<in> (\<lambda>i. unat (FSb_rom ! i)) ` {0..<256}"
    unfolding FSb_onto by simp
  then show ?thesis
    by (auto simp: RSb_FSb)
qed

text \<open>Words that hold a byte.\<close>

definition byte_word :: "u32 \<Rightarrow> bool" where
  "byte_word x \<longleftrightarrow> take_bit 8 x = x"

lemma and_low_byte: "(x :: u32) AND 0xFF = take_bit 8 x"
  by (simp add: take_bit_eq_mask mask_eq_exp_minus_1)

lemma byte_word_simps [simp]:
  "byte_word x \<Longrightarrow> byte_word y \<Longrightarrow> byte_word (x XOR y)" "byte_word (take_bit 8 x)" "byte_word (ucast (b :: u8))" "byte_word 1"
proof -
  show "byte_word (ucast b)"
    unfolding byte_word_def by (rule bit_word_eqI) (auto simp: bit_simps dest: bit_imp_le_length)
qed (simp_all add: byte_word_def)

lemma byte_word_less: "byte_word x \<Longrightarrow> unat x < 256"
proof -
  assume "byte_word x"
  then have "unat x = take_bit 8 (unat x)"
    by (simp add: byte_word_def flip: unsigned_take_bit_eq)
  also have "\<dots> < 2 ^ 8"
    by (rule take_bit_nat_less_exp)
  finally show ?thesis
    by simp
qed

lemma byte_ucast:
  assumes "byte_word x"
  shows "ucast (ucast x :: u8) = x" "unat (ucast x :: u8) = unat x"
proof -
  show u: "unat (ucast x :: u8) = unat x"
    using byte_word_less [OF assms] by (simp add: unsigned_ucast_eq take_bit_nat_eq_self)
  have "unat (ucast y :: u32) = unat y" for y :: u8
    using unat_u8 [of y] by (simp add: unsigned_ucast_eq take_bit_nat_eq_self)
  then show "ucast (ucast x :: u8) = x"
    by (simp only: word_unat_eq_iff u)
qed

lemma pw_byte [simp]: "byte_word (pw k)"
  by (cases k) (simp_all add: and_low_byte)

lemma sbox_value_byte: "byte_word x \<Longrightarrow> byte_word (sbox_value x)"
proof -
  assume x: "byte_word x"
  have "byte_word 0x63" "byte_word (rotl_byte y)" for y
    by (simp_all add: byte_word_def rotl_byte_def and_low_byte)
  with x show ?thesis
    by (simp add: sbox_value_def Let_def)
qed

lemma unat_byte_index: "k < 256 \<Longrightarrow> unat (of_nat k :: u32) = k"
  by (simp add: unat_of_nat)

lemma sub_byte: "k < 256 \<Longrightarrow> unat (255 - of_nat k :: u32) = 255 - k"
proof -
  assume k: "k < 256"
  have "(of_nat k :: u32) \<le> 255"
    unfolding word_le_nat_alt unat_byte_index [OF k] using k by simp
  then show ?thesis
    by (simp only: unat_sub unat_byte_index [OF k]) simp
qed

text \<open>The second loop: every entry of both boxes.\<close>

lemma sbox_loop:
  assumes pow: "\<And>k. k < 256 \<Longrightarrow> pow k = pw k" and lg: "\<And>i. 0 < i \<Longrightarrow> i < 256 \<Longrightarrow> lg i = of_nat (lg_list ! i)"
    and len: "length fs = 256" "length rs = 256"
  shows "fold (sbox_step pow lg) [1..<256] (fs[0 := 0x63], rs[0x63 := 0]) = (FSb_rom, RSb_rom)"
proof -
  let ?v = "\<lambda>i. sbox_value (pow (unat (255 - lg i)))"
  have v: "(ucast (?v i) :: u8) = FSb_rom ! i" "unat (?v i) = unat (FSb_rom ! i)" if i: "0 < i" "i < 256" for i
  proof -
    obtain k where k: "0 < k" "k < 256" "unat (pw k) = i" "lg_list ! i = k"
      by (rule pw_of [OF i])
    have "unat (255 - of_nat k :: u32) = 255 - k"
      by (rule sub_byte [OF k(2)])
    then have "unat (255 - lg i) = 255 - k"
      by (simp only: lg [OF i] k(4))
    then have e: "?v i = sbox_value (pw (255 - k))"
      using pow k(1) by simp
    then show u: "(ucast (?v i) :: u8) = FSb_rom ! i"
      using sbox_power [OF k(1,2)] k(3) by simp
    show "unat (?v i) = unat (FSb_rom ! i)"
      using byte_ucast(2) [OF sbox_value_byte [OF pw_byte], of "255 - k"] by (simp add: e flip: u)
  qed
  have s: "sbox_step pow lg = (\<lambda>i (fs, rs). (fs[i := ucast (?v i)], rs[unat (?v i) := of_nat i]))"
    by (auto simp: sbox_step_def Let_def fun_eq_iff)
  have z: "FSb_rom ! 0 = 0x63" "RSb_rom ! 0x63 = 0"
    by (simp_all add: FSb_rom_def RSb_rom_def)
  have "fold (\<lambda>i fs. fs[i := ucast (?v i)]) [1..<256] (fs[0 := 0x63]) = FSb_rom"
  proof (rule fold_update_all)
    fix i assume "i \<in> set [1..<256 :: nat]"
    then show "i < length (fs[0 := 0x63]) \<and> FSb_rom ! i = ucast (?v i)"
      using v(1) [of i] len by simp
  next
    fix j assume "j < length (fs[0 := 0x63])"
    then show "j \<in> (\<lambda>i. i) ` set [1..<256] \<or> fs[0 := 0x63] ! j = FSb_rom ! j"
      using len z by (cases j) auto
  qed (simp add: len rom_lengths)
  moreover have "fold (\<lambda>i rs. rs[unat (?v i) := of_nat i]) [1..<256] (rs[0x63 := 0]) = RSb_rom"
  proof (rule fold_update_all)
    fix i assume "i \<in> set [1..<256 :: nat]"
    then have i: "0 < i" "i < 256"
      by auto
    have "RSb_rom ! unat (FSb_rom ! i) = of_nat i"
      using arg_cong [OF RSb_FSb [OF i(2)], of "of_nat :: nat \<Rightarrow> u8"] by simp
    then show "unat (?v i) < length (rs[0x63 := 0]) \<and> RSb_rom ! unat (?v i) = of_nat i"
      using v(2) [OF i] len unat_u8 by simp
  next
    fix j assume j: "j < length (rs[0x63 := 0])"
    then have b: "j < 256"
      using len by simp
    define i where "i = unat (RSb_rom ! j)"
    have i: "i < 256" "unat (FSb_rom ! i) = j"
      using FSb_RSb [OF b] unat_u8 by (simp_all add: i_def)
    show "j \<in> (\<lambda>i. unat (?v i)) ` set [1..<256] \<or> rs[0x63 := 0] ! j = RSb_rom ! j"
    proof (cases "i = 0")
      case True
      then have "j = 0x63"
        using i(2) z(1) by simp
      then show ?thesis
        using z(2) len by simp
    next
      case False
      then have "j = unat (?v i)" "i \<in> set [1..<256]"
        using v(2) [of i] i by simp_all
      then show ?thesis
        by blast
    qed
  qed (simp add: len rom_lengths)
  ultimately show ?thesis
    unfolding s fold_pair by simp
qed

subsection \<open>Products along the powers\<close>

definition xt :: "u32 \<Rightarrow> u32" where "xt x = XTIME x AND 0xFF"

lemma and_80: "x AND 0x80 \<noteq> 0 \<longleftrightarrow> bit (x :: u32) 7"
  using and_exp_eq_0_iff_not_bit [of x 7] by simp

lemma xt_xor: "xt (x XOR y) = xt x XOR xt y"
  by (cases "bit x 7"; cases "bit y 7")
    (simp_all add: xt_def XTIME_def and_80 bit_xor_iff and_low_byte push_bit_xor xor.assoc xor.commute xor.left_commute)

lemma xt_0 [simp]: "xt 0 = 0"
  by (simp add: xt_def XTIME_def)

lemma xt_byte [simp]: "byte_word (xt x)"
  by (simp add: xt_def and_low_byte)

definition T3 :: "u32 \<Rightarrow> u32" where "T3 x = x XOR xt x"

lemma pw_T3: "pw (Suc k) = T3 (pw k)"
proof -
  have "take_bit 8 (pw k) = pw k"
    using pw_byte [of k] by (simp add: byte_word_def)
  then show ?thesis
    by (simp add: T3_def xt_def and_low_byte)
qed

definition gm9 :: "u32 \<Rightarrow> u32" where "gm9 x = xt (xt (xt x)) XOR x"
definition gm11 :: "u32 \<Rightarrow> u32" where "gm11 x = xt (xt (xt x)) XOR xt x XOR x"
definition gm13 :: "u32 \<Rightarrow> u32" where "gm13 x = xt (xt (xt x)) XOR xt (xt x) XOR x"
definition gm14 :: "u32 \<Rightarrow> u32" where "gm14 x = xt (xt (xt x)) XOR xt (xt x) XOR xt x"

lemmas gm_defs = gm9_def gm11_def gm13_def gm14_def

lemma gm_T3: "gm9 (T3 x) = T3 (gm9 x)" "gm11 (T3 x) = T3 (gm11 x)" "gm13 (T3 x) = T3 (gm13 x)" "gm14 (T3 x) = T3 (gm14 x)"
  by (simp_all add: gm_defs T3_def xt_xor xor.assoc xor.left_commute)

lemma gm_0 [simp]: "gm9 0 = 0" "gm11 0 = 0" "gm13 0 = 0" "gm14 0 = 0"
  by (simp_all add: gm_defs)

lemma pw_period: "pw (k + 255) = pw k"
proof (induction k)
  case 0
  then show ?case
    by (simp add: pw_nth pw_list_def del: pw.simps)
qed (simp only: add_Suc pw_T3)

lemma pw_mod: "pw (k mod 255) = pw k"
proof (induction k rule: less_induct)
  case (less k)
  then show ?case
    using pw_period [of "k - 255"] by (cases "k < 255") (auto simp: le_mod_geq)
qed

lemma mul_power:
  assumes "gm 1 = pw l" "\<And>x. gm (T3 x) = T3 (gm x)"
  shows "gm (pw k) = pw (l + k)"
proof (induction k)
  case 0
  then show ?case
    using assms(1) by simp
next
  case (Suc k)
  then show ?case
    by (simp only: pw_T3 assms(2) add_Suc_right)
qed

lemma MUL_gm:
  assumes pow: "\<And>k. k < 256 \<Longrightarrow> pow k = pw k" and lg: "\<And>i. 0 < i \<Longrightarrow> i < 256 \<Longrightarrow> lg i = of_nat (lg_list ! i)"
    and gm: "gm 1 = pw l" "\<And>x. gm (T3 x) = T3 (gm x)" "gm 0 = 0" "0 < l" "l < 256" "c = pw l"
    and x: "byte_word x"
  shows "MUL pow lg c x = gm x"
proof (cases "x = 0")
  case False
  then have i: "0 < unat x" "unat x < 256"
    using byte_word_less [OF x] by (simp_all add: unat_gt_0)
  obtain k where k: "0 < k" "k < 256" "unat (pw k) = unat x" "lg_list ! unat x = k"
    by (rule pw_of [OF i])
  have xk: "x = pw k"
    using k(3) by (simp add: word_unat_eq_iff)
  have lc: "lg (unat c) = of_nat l" "c \<noteq> 0"
    using lg [of "unat c"] lg_pw [OF gm(4,5)] pw_nonzero [OF gm(4,5)] gm(6) by (simp_all add: unat_gt_0)
  have "unat ((of_nat l + of_nat k) mod 255 :: u32) = (l + k) mod 255"
    using gm(5) k(2) by (simp add: unat_mod unat_word_ariths unat_of_nat)
  moreover have "(l + k) mod 255 < 256"
    by (rule less_trans [of _ 255]) simp_all
  ultimately have "MUL pow lg c x = pw ((l + k) mod 255)"
    using False lc lg [OF i] k(4) pow by (simp add: MUL_def)
  then show ?thesis
    using mul_power [OF gm(1,2), of k] by (simp add: pw_mod xk)
qed (simp add: MUL_def gm(3))

text \<open>A column of the forward table, and one of the reverse table.\<close>

definition M0 :: "u32 \<Rightarrow> u32" where
  "M0 x = xt x XOR push_bit 8 x XOR push_bit 16 x XOR push_bit 24 (xt x XOR x)"

definition N0 :: "u32 \<Rightarrow> u32" where
  "N0 x = gm14 x XOR push_bit 8 (gm9 x) XOR push_bit 16 (gm13 x) XOR push_bit 24 (gm11 x)"

definition table_words :: "aes_tables \<Rightarrow> nat \<Rightarrow> u32 \<times> u32" where
  "table_words t i = (M0 (ucast (FSb t ! i)), N0 (ucast (RSb t ! i)))"

lemma gm_1: "gm9 1 = pw 199" "gm11 1 = pw 104" "gm13 1 = pw 238" "gm14 1 = pw 223"
  by (simp_all add: gm_defs xt_def XTIME_def pw_nth pw_list_def)

lemma mul_consts: "(0x09 :: u32) = pw 199" "(0x0B :: u32) = pw 104" "(0x0D :: u32) = pw 238" "(0x0E :: u32) = pw 223"
  by (simp_all add: pw_nth pw_list_def)

lemma table_step_eq:
  assumes "\<And>k. k < 256 \<Longrightarrow> pow k = pw k" "\<And>i. 0 < i \<Longrightarrow> i < 256 \<Longrightarrow> lg i = of_nat (lg_list ! i)"
  shows "table_step pow lg i t =
    (let f = M0 (ucast (FSb t ! i)); r = N0 (ucast (RSb t ! i)) in
     t\<lparr>FT0 := (FT0 t)[i := f], FT1 := (FT1 t)[i := ROTL8 f], FT2 := (FT2 t)[i := ROTL8 (ROTL8 f)],
       FT3 := (FT3 t)[i := ROTL8 (ROTL8 (ROTL8 f))],
       RT0 := (RT0 t)[i := r], RT1 := (RT1 t)[i := ROTL8 r], RT2 := (RT2 t)[i := ROTL8 (ROTL8 r)],
       RT3 := (RT3 t)[i := ROTL8 (ROTL8 (ROTL8 r))]\<rparr>)"
proof -
  note m = MUL_gm [OF assms, where gm = gm9 and l = 199] MUL_gm [OF assms, where gm = gm11 and l = 104]
    MUL_gm [OF assms, where gm = gm13 and l = 238] MUL_gm [OF assms, where gm = gm14 and l = 223]
  let ?r = "ucast (RSb t ! i) :: u32" and ?f = "ucast (FSb t ! i) :: u32"
  have mul: "MUL pow lg 0x09 ?r = gm9 ?r" "MUL pow lg 0x0B ?r = gm11 ?r" "MUL pow lg 0x0D ?r = gm13 ?r"
    "MUL pow lg 0x0E ?r = gm14 ?r"
    by (rule m; (simp only: gm_1 mul_consts gm_0 gm_T3 byte_word_simps | simp; fail))+
  have f: "(xt ?f XOR ?f) AND 0xFF = xt ?f XOR ?f"
    using byte_word_simps(1) [OF xt_byte byte_word_simps(3)] by (simp only: and_low_byte byte_word_def)
  show ?thesis
    by (simp only: table_step_def Let_def mul xt_def [symmetric] f M0_def N0_def)
qed

text \<open>The literal words, one after the other.\<close>

fun words_ok :: "(u32 \<Rightarrow> u32) \<Rightarrow> u8 list \<Rightarrow> (u32 \<times> u32 \<times> u32 \<times> u32) list \<Rightarrow> bool" where
  "words_ok g (x # xs) ((a, b, c, d) # ws) \<longleftrightarrow>
     word_abcd (a, b, c, d) = g (ucast x) \<and> take_bit 8 a = a \<and> take_bit 8 b = b \<and> take_bit 8 c = c \<and> take_bit 8 d = d \<and> words_ok g xs ws"
| "words_ok g [] [] \<longleftrightarrow> True"
| "words_ok g _ _ \<longleftrightarrow> False"

lemma FT_rom_ok: "words_ok M0 FSb_rom FT_rom"
  by (simp add: FSb_rom_def FT_rom_def word_abcd_def M0_def xt_def XTIME_def)

lemma RT_rom_ok: "words_ok N0 RSb_rom RT_rom"
  by (simp add: RSb_rom_def RT_rom_def word_abcd_def N0_def gm_defs xt_def XTIME_def)

lemma words_ok_length: "words_ok g xs ws \<Longrightarrow> length ws = length xs"
  by (induction g xs ws rule: words_ok.induct) auto

lemma words_ok_nth:
  "words_ok g xs ws \<Longrightarrow> i < length xs \<Longrightarrow> word_abcd (ws ! i) = g (ucast (xs ! i)) \<and>
     (case ws ! i of (a, b, c, d) \<Rightarrow> take_bit 8 a = a \<and> take_bit 8 b = b \<and> take_bit 8 c = c \<and> take_bit 8 d = d)"
  by (induction g xs ws arbitrary: i rule: words_ok.induct) (auto simp: nth_Cons split: nat.splits)

text \<open>The macros of the second to the fourth table name the words that \<open>ROTL8\<close> gives.\<close>

lemma byte_bits: "take_bit 8 a = (a :: u32) \<Longrightarrow> bit a n \<Longrightarrow> n < 8"
  by (metis bit_take_bit_iff)

lemma word_rotl:
  assumes "take_bit 8 a = a" "take_bit 8 b = b" "take_bit 8 c = c" "take_bit 8 d = d"
  shows "word_abcd (b, c, d, a) = ROTL8 (word_abcd (a, b, c, d))"
proof (rule bit_word_eqI)
  fix n assume n: "n < LENGTH(32)"
  note b = byte_bits [OF assms(1)] byte_bits [OF assms(2)] byte_bits [OF assms(3)] byte_bits [OF assms(4)]
  show "bit (word_abcd (b, c, d, a)) n = bit (ROTL8 (word_abcd (a, b, c, d))) n"
    using n b [of "n - 24"] b [of "n - 16"] b [of "n - 8"] b [of n]
    by (cases "n < 8"; cases "n < 16"; cases "n < 24") (auto simp: word_abcd_def ROTL8_def bit_simps dest: b)
qed

lemma words_rotl:
  assumes "words_ok g xs ws" "i < length xs"
  shows "word_bcda (ws ! i) = ROTL8 (g (ucast (xs ! i)))" "word_cdab (ws ! i) = ROTL8 (ROTL8 (g (ucast (xs ! i))))"
    "word_dabc (ws ! i) = ROTL8 (ROTL8 (ROTL8 (g (ucast (xs ! i)))))"
proof -
  obtain a b c d where w: "ws ! i = (a, b, c, d)"
    by (cases "ws ! i") auto
  have g: "word_abcd (a, b, c, d) = g (ucast (xs ! i))" "take_bit 8 a = a" "take_bit 8 b = b" "take_bit 8 c = c" "take_bit 8 d = d"
    using words_ok_nth [OF assms] by (simp_all add: w)
  have r: "word_abcd (b, c, d, a) = ROTL8 (g (ucast (xs ! i)))"
    using word_rotl [OF g(2-5)] g(1) by simp
  moreover have r2: "word_abcd (c, d, a, b) = ROTL8 (ROTL8 (g (ucast (xs ! i))))"
    using word_rotl [OF g(3-5,2)] r by simp
  moreover have "word_abcd (d, a, b, c) = ROTL8 (ROTL8 (ROTL8 (g (ucast (xs ! i)))))"
    using word_rotl [OF g(4,5,2,3)] r2 by simp
  ultimately show "word_bcda (ws ! i) = ROTL8 (g (ucast (xs ! i)))" "word_cdab (ws ! i) = ROTL8 (ROTL8 (g (ucast (xs ! i))))"
    "word_dabc (ws ! i) = ROTL8 (ROTL8 (ROTL8 (g (ucast (xs ! i)))))"
    by (simp_all add: w word_bcda_def word_cdab_def word_dabc_def)
qed

lemma rom_words:
  assumes "i < 256"
  shows "FT0 rom_tables ! i = M0 (ucast (FSb_rom ! i))" "FT1 rom_tables ! i = ROTL8 (M0 (ucast (FSb_rom ! i)))"
    "FT2 rom_tables ! i = ROTL8 (ROTL8 (M0 (ucast (FSb_rom ! i))))" "FT3 rom_tables ! i = ROTL8 (ROTL8 (ROTL8 (M0 (ucast (FSb_rom ! i)))))"
    "RT0 rom_tables ! i = N0 (ucast (RSb_rom ! i))" "RT1 rom_tables ! i = ROTL8 (N0 (ucast (RSb_rom ! i)))"
    "RT2 rom_tables ! i = ROTL8 (ROTL8 (N0 (ucast (RSb_rom ! i))))" "RT3 rom_tables ! i = ROTL8 (ROTL8 (ROTL8 (N0 (ucast (RSb_rom ! i)))))"
  using assms words_ok_nth [OF FT_rom_ok, of i] words_ok_nth [OF RT_rom_ok, of i] words_rotl [OF FT_rom_ok, of i]
    words_rotl [OF RT_rom_ok, of i]
  by (simp_all add: rom_tables_def rom_lengths)

text \<open>The third loop.\<close>

lemma table_loop:
  assumes "\<And>k. k < 256 \<Longrightarrow> pow k = pw k" "\<And>i. 0 < i \<Longrightarrow> i < 256 \<Longrightarrow> lg i = of_nat (lg_list ! i)"
    "FSb t = FSb_rom" "RSb t = RSb_rom"
  shows "fold (table_step pow lg) [0..<n] t =
    t\<lparr>FT0 := fold (\<lambda>i xs. xs[i := M0 (ucast (FSb_rom ! i))]) [0..<n] (FT0 t),
      FT1 := fold (\<lambda>i xs. xs[i := ROTL8 (M0 (ucast (FSb_rom ! i)))]) [0..<n] (FT1 t),
      FT2 := fold (\<lambda>i xs. xs[i := ROTL8 (ROTL8 (M0 (ucast (FSb_rom ! i))))]) [0..<n] (FT2 t),
      FT3 := fold (\<lambda>i xs. xs[i := ROTL8 (ROTL8 (ROTL8 (M0 (ucast (FSb_rom ! i)))))]) [0..<n] (FT3 t),
      RT0 := fold (\<lambda>i xs. xs[i := N0 (ucast (RSb_rom ! i))]) [0..<n] (RT0 t),
      RT1 := fold (\<lambda>i xs. xs[i := ROTL8 (N0 (ucast (RSb_rom ! i)))]) [0..<n] (RT1 t),
      RT2 := fold (\<lambda>i xs. xs[i := ROTL8 (ROTL8 (N0 (ucast (RSb_rom ! i))))]) [0..<n] (RT2 t),
      RT3 := fold (\<lambda>i xs. xs[i := ROTL8 (ROTL8 (ROTL8 (N0 (ucast (RSb_rom ! i)))))]) [0..<n] (RT3 t)\<rparr>"
  by (induction n) (simp_all add: table_step_eq [OF assms(1,2)] assms(3,4) Let_def)

lemma fill_table:
  assumes "length xs = 256" "length ys = 256" "\<And>i. i < 256 \<Longrightarrow> ys ! i = f i"
  shows "fold (\<lambda>i xs. xs[i := f i]) [0..<256] xs = ys"
  by (rule fold_update_all) (use assms in auto)

lemma rcon_loop: "snd (fold rcon_step [0..<10] (1, replicate 10 0)) = RCON_rom"
proof -
  have "[0..<10] = [0, 1, 2, 3, 4, 5, 6, 7, 8, 9 :: nat]" "replicate 10 (0 :: u32) = [0, 0, 0, 0, 0, 0, 0, 0, 0, 0]"
    by (simp_all add: upt_rec numeral_eq_Suc)
  then show ?thesis
    by (simp add: rcon_step_def XTIME_def RCON_rom_def)
qed

lemma table_lengths:
  "length (FT0 rom_tables) = 256" "length (FT1 rom_tables) = 256" "length (FT2 rom_tables) = 256" "length (FT3 rom_tables) = 256"
  "length (RT0 rom_tables) = 256" "length (RT1 rom_tables) = 256" "length (RT2 rom_tables) = 256" "length (RT3 rom_tables) = 256"
  by (simp_all add: rom_tables_def rom_lengths)

lemma gen_tables_rom: "aes_gen_tables (Some blk) aes_boot = rom_tables\<lparr>aes_init_done := False\<rparr>"
proof -
  obtain pow0 lg0 where blk: "blk = (pow0, lg0)"
    by fastforce
  obtain x pow lg where r: "fold pow_log_step [0..<256] (1, pow0, lg0) = (x, pow, lg)"
    by (cases "fold pow_log_step [0..<256] (1, pow0, lg0)") auto
  have pl: "\<And>k. k < 256 \<Longrightarrow> pow k = pw k" "\<And>i. 0 < i \<Longrightarrow> i < 256 \<Longrightarrow> lg i = of_nat (lg_list ! i)"
    using pow_log_table [of _ pow0 lg0] unfolding r by simp_all
  obtain y where rc: "fold rcon_step [0..<10] (1, replicate 10 0) = (y, RCON_rom)"
    using rcon_loop by (cases "fold rcon_step [0..<10] (1, replicate 10 0)") simp
  have sb: "fold (sbox_step pow lg) [1..<256] ((replicate 256 0)[0 := 0x63], (replicate 256 0)[0x63 := 0]) = (FSb_rom, RSb_rom)"
    by (rule sbox_loop [OF pl]) simp_all
  let ?t = "aes_boot\<lparr>RCON := RCON_rom, FSb := FSb_rom, RSb := RSb_rom\<rparr>"
  have "aes_gen_tables (Some blk) aes_boot = fold (table_step pow lg) [0..<256] ?t"
    unfolding aes_gen_tables_def by (simp add: blk r rc sb aes_boot_def del: One_nat_def)
  also have "\<dots> = rom_tables\<lparr>aes_init_done := False\<rparr>"
  proof -
    note full = fill_table [OF length_replicate]
    have f: "fold (\<lambda>i xs. xs[i := M0 (ucast (FSb_rom ! i))]) [0..<256] (replicate 256 0) = FT0 rom_tables"
      "fold (\<lambda>i xs. xs[i := ROTL8 (M0 (ucast (FSb_rom ! i)))]) [0..<256] (replicate 256 0) = FT1 rom_tables"
      "fold (\<lambda>i xs. xs[i := ROTL8 (ROTL8 (M0 (ucast (FSb_rom ! i))))]) [0..<256] (replicate 256 0) = FT2 rom_tables"
      "fold (\<lambda>i xs. xs[i := ROTL8 (ROTL8 (ROTL8 (M0 (ucast (FSb_rom ! i)))))]) [0..<256] (replicate 256 0) = FT3 rom_tables"
      "fold (\<lambda>i xs. xs[i := N0 (ucast (RSb_rom ! i))]) [0..<256] (replicate 256 0) = RT0 rom_tables"
      "fold (\<lambda>i xs. xs[i := ROTL8 (N0 (ucast (RSb_rom ! i)))]) [0..<256] (replicate 256 0) = RT1 rom_tables"
      "fold (\<lambda>i xs. xs[i := ROTL8 (ROTL8 (N0 (ucast (RSb_rom ! i))))]) [0..<256] (replicate 256 0) = RT2 rom_tables"
      "fold (\<lambda>i xs. xs[i := ROTL8 (ROTL8 (ROTL8 (N0 (ucast (RSb_rom ! i)))))]) [0..<256] (replicate 256 0) = RT3 rom_tables"
      by (intro full table_lengths rom_words; assumption)+
    have s: "FSb rom_tables = FSb_rom" "RSb rom_tables = RSb_rom" "RCON rom_tables = RCON_rom"
      by (simp_all add: rom_tables_def)
    show ?thesis
      by (subst table_loop [OF pl]) (simp_all add: aes_boot_def f s)
  qed
  finally show ?thesis .
qed

text \<open>C33: The tables computed at the first use are those that the other setting of
  \<open>WEENY_AES_ROM_TABLES\<close> has as literals: both S-boxes, the four forward and the four reverse tables and the round
  constants, whatever the allocated block contained.\<close>

theorem aes_tables_are_rom:
  "aes_gen_tables (Some blk) aes_boot = rom_tables\<lparr>aes_init_done := False\<rparr>"
  by (rule gen_tables_rom)

end
