(* ===== verification/AesKeys.thy ===== *)
theory AesKeys
  imports AesTables
begin

text \<open>
  The key schedule.  \<open>fips_word\<close> is the expansion of FIPS 197 with the words of a column as little-endian
  integers; the three unrolled loops of \<open>weeny_aes_setkey_enc\<close> compute it, whatever the context contained, and
  \<open>weeny_aes_setkey_dec\<close> turns it around and applies \<open>N\<close> to the words of the inner rounds.
\<close>

subsection \<open>Words as four bytes\<close>

definition pack :: "u8 \<Rightarrow> u8 \<Rightarrow> u8 \<Rightarrow> u8 \<Rightarrow> u32" where
  "pack a b c d = ucast a XOR push_bit 8 (ucast b) XOR push_bit 16 (ucast c) XOR push_bit 24 (ucast d)"

lemma sub4_pack: "sub4 s i j k l = pack (s ! i) (s ! j) (s ! k) (s ! l)"
  by (simp add: sub4_def pack_def)

definition b0 :: "u32 \<Rightarrow> u8" where "b0 w = ucast w"
definition b1 :: "u32 \<Rightarrow> u8" where "b1 w = ucast (drop_bit 8 w)"
definition b2 :: "u32 \<Rightarrow> u8" where "b2 w = ucast (drop_bit 16 w)"
definition b3 :: "u32 \<Rightarrow> u8" where "b3 w = ucast (drop_bit 24 w)"

lemmas b_defs = b0_def b1_def b2_def b3_def

lemma unat_ucast_byte: "unat (x AND 0xFF :: u32) = unat (ucast x :: u8)"
  by (simp add: and_low_byte unsigned_ucast_eq unsigned_take_bit_eq)

lemma byte_b: "byte0 w = unat (b0 w)" "byte1 w = unat (b1 w)" "byte2 w = unat (b2 w)" "byte3 w = unat (b3 w)"
  by (simp_all add: byte0_def byte1_def byte2_def byte3_def b_defs unat_ucast_byte)

lemma bit_byte: "bit (b :: u8) n \<Longrightarrow> n < 8"
  using bit_imp_le_length [of b n] by simp

lemma bit_byte_False: "8 \<le> n \<Longrightarrow> \<not> bit (b :: u8) n"
  using bit_byte [of b n] by linarith

lemma bit_pack:
  assumes "n < 32"
  shows "bit (pack a b c d) n =
    (if n < 8 then bit a n else if n < 16 then bit b (n - 8) else if n < 24 then bit c (n - 16) else bit d (n - 24))"
proof -
  have "bit (ucast x :: u32) m = bit (x :: u8) m" if "m < 32" for x m
    using that by (auto simp: bit_simps dest: bit_byte)
  then have "bit (pack a b c d) n = (((bit a n \<noteq> (8 \<le> n \<and> bit b (n - 8))) \<noteq> (16 \<le> n \<and> bit c (n - 16))) \<noteq> (24 \<le> n \<and> bit d (n - 24)))"
    using assms by (simp add: pack_def bit_xor_iff bit_push_bit_iff) blast
  then show ?thesis
    using assms bit_byte_False [of n a] bit_byte_False [of "n - 8" b] bit_byte_False [of "n - 16" c] by simp
qed

lemma bit_b:
  assumes "n < 8"
  shows "bit (b0 w) n = bit w n" "bit (b1 w) n = bit w (n + 8)" "bit (b2 w) n = bit w (n + 16)" "bit (b3 w) n = bit w (n + 24)"
  using assms by (simp_all add: b_defs bit_unsigned_iff bit_drop_bit_eq add.commute)

lemma b_pack [simp]: "b0 (pack a b c d) = a" "b1 (pack a b c d) = b" "b2 (pack a b c d) = c" "b3 (pack a b c d) = d"
  by (rule bit_word_eqI, simp add: bit_b bit_pack)+

lemma pack_b: "pack (b0 w) (b1 w) (b2 w) (b3 w) = w"
  by (rule bit_word_eqI) (simp add: bit_pack bit_b)

lemma pack_xor: "pack a b c d XOR pack a' b' c' d' = pack (a XOR a') (b XOR b') (c XOR c') (d XOR d')"
  by (rule bit_word_eqI) (simp add: bit_pack bit_xor_iff)

lemma ROTL8_pack: "ROTL8 (pack a b c d) = pack d a b c"
proof (rule bit_word_eqI)
  fix n assume n: "n < LENGTH(32)"
  have "bit (ROTL8 w) n = (if n < 8 then bit w (n + 24) else bit w (n - 8))" for w
    using n by (auto simp: ROTL8_def bit_or_iff bit_push_bit_iff bit_drop_bit_eq add.commute dest: bit_imp_le_length)
  then show "bit (ROTL8 (pack a b c d)) n = bit (pack d a b c) n"
    using n by (auto simp: bit_pack)
qed

subsection \<open>The expansion of FIPS 197\<close>

definition sub_word :: "u32 \<Rightarrow> u32" where
  "sub_word w = pack (FSb_rom ! unat (b0 w)) (FSb_rom ! unat (b1 w)) (FSb_rom ! unat (b2 w)) (FSb_rom ! unat (b3 w))"

definition rot_word :: "u32 \<Rightarrow> u32" where
  "rot_word w = pack (b1 w) (b2 w) (b3 w) (b0 w)"

fun fips_word :: "nat \<Rightarrow> u8 list \<Rightarrow> nat \<Rightarrow> u32" where
  "fips_word nk key i =
     (if i < nk \<or> nk = 0 then get32 key (4 * i)
      else fips_word nk key (i - nk) XOR
        (if i mod nk = 0 then sub_word (rot_word (fips_word nk key (i - 1))) XOR RCON_rom ! (i div nk - 1)
         else if 6 < nk \<and> i mod nk = 4 then sub_word (fips_word nk key (i - 1))
         else fips_word nk key (i - 1)))"

declare fips_word.simps [simp del]

definition good :: "nat \<Rightarrow> u8 list \<Rightarrow> nat \<Rightarrow> u32 list \<Rightarrow> bool" where
  "good nk key n rk \<longleftrightarrow> length rk = 68 \<and> n \<le> 68 \<and> (\<forall>i<n. rk ! i = fips_word nk key i)"

lemma good_next:
  assumes "good nk key n rk" "n < 68" "x = fips_word nk key n"
  shows "good nk key (n + 1) (rk[n := x])"
  using assms by (auto simp: good_def nth_list_update less_Suc_eq)

lemma good_nth: "good nk key n rk \<Longrightarrow> i < n \<Longrightarrow> rk ! i = fips_word nk key i"
  by (simp add: good_def)

lemma fips_sub_rot:
  assumes "0 < nk" "nk \<le> n" "n mod nk = 0"
  shows "fips_word nk key n = fips_word nk key (n - nk) XOR RCON_rom ! (n div nk - 1) XOR
    (let w = fips_word nk key (n - 1) in sub4 FSb_rom (byte1 w) (byte2 w) (byte3 w) (byte0 w))"
  using assms
  by (subst fips_word.simps) (simp add: sub_word_def rot_word_def sub4_pack byte_b Let_def xor.assoc xor.left_commute xor.commute)

lemma fips_sub:
  assumes "6 < nk" "nk \<le> n" "n mod nk = 4"
  shows "fips_word nk key n = fips_word nk key (n - nk) XOR
    (let w = fips_word nk key (n - 1) in sub4 FSb_rom (byte0 w) (byte1 w) (byte2 w) (byte3 w))"
  using assms by (subst fips_word.simps) (simp add: sub_word_def sub4_pack byte_b Let_def)

lemma fips_plain:
  assumes "0 < nk" "nk \<le> n" "n mod nk \<noteq> 0" "\<not> (6 < nk \<and> n mod nk = 4)"
  shows "fips_word nk key n = fips_word nk key (n - nk) XOR fips_word nk key (n - 1)"
  using assms by (subst fips_word.simps) auto

lemma xor_words_good:
  assumes "good nk key (p + a) rk" "0 < nk" "nk \<le> p + a" "p + a + m \<le> 68" "p mod nk = 0"
    "list_all (\<lambda>k. k mod nk \<noteq> 0 \<and> \<not> (6 < nk \<and> k mod nk = 4)) [a..<a + m]"
  shows "good nk key (p + (a + m)) (xor_words nk p a (a + m) rk)"
  using assms
proof (induction m)
  case 0
  then show ?case
    by (simp add: xor_words_def)
next
  case (Suc m)
  let ?rk = "xor_words nk p a (a + m) rk" and ?n = "p + (a + m)"
  have g: "good nk key ?n ?rk"
    using Suc by simp
  have "fips_word nk key ?n = fips_word nk key (?n - nk) XOR fips_word nk key (?n - 1)"
  proof (rule fips_plain)
    have "(p + (a + m)) mod nk = (a + m) mod nk"
      using Suc.prems(5) by (simp add: mod_add_left_eq [symmetric, of p])
    moreover have "(a + m) mod nk \<noteq> 0 \<and> \<not> (6 < nk \<and> (a + m) mod nk = 4)"
      using Suc.prems(6) by (simp add: list_all_iff)
    ultimately show "?n mod nk \<noteq> 0" "\<not> (6 < nk \<and> ?n mod nk = 4)"
      by simp_all
  qed (use Suc.prems(2,3) in auto)
  also have "\<dots> = ?rk ! (?n - nk) XOR ?rk ! (?n - 1)"
    using Suc.prems(2,3) by (simp add: good_nth [OF g])
  finally have "good nk key (?n + 1) (?rk[?n := ?rk ! (?n - nk) XOR ?rk ! (?n - 1)])"
    using Suc.prems(4) by (intro good_next [OF g]) auto
  then show ?case
    by (simp add: xor_words_def add.assoc)
qed

text \<open>The first word of a turn of the unrolled loops.\<close>

lemma first_word_good:
  assumes "good nk key (nk * (i + 1)) rk" "0 < nk" "nk * (i + 1) < 68"
  shows "good nk key (nk * i + (nk + 1)) (let w = rk ! (nk * i + nk - 1) in
    rk[nk * i + nk := rk ! (nk * i) XOR RCON_rom ! i XOR sub4 FSb_rom (byte1 w) (byte2 w) (byte3 w) (byte0 w)])"
proof -
  have n: "nk * (i + 1) = nk * i + nk" "(nk * i + nk) mod nk = 0" "(nk * i + nk) div nk - 1 = i"
    using assms(2) by simp_all
  have w: "rk ! (nk * i + nk - 1) = fips_word nk key (nk * i + nk - 1)" "rk ! (nk * i) = fips_word nk key (nk * i)"
    using good_nth [OF assms(1)] assms(2) by simp_all
  have "good nk key (nk * i + nk) rk"
    using assms(1) by (simp add: add.commute)
  then have "good nk key (nk * i + nk + 1) (rk[nk * i + nk := fips_word nk key (nk * i + nk)])"
    using assms(3) by (intro good_next) auto
  then show ?thesis
    using fips_sub_rot [of nk "nk * i + nk" key] assms(2) n by (simp add: Let_def w add.assoc [symmetric] del: One_nat_def add.assoc)
qed

lemma rom_done [simp]: "FSb (rom_tables\<lparr>aes_init_done := d\<rparr>) = FSb_rom" "RCON (rom_tables\<lparr>aes_init_done := d\<rparr>) = RCON_rom"
  by (simp_all add: rom_tables_def)

lemma expand10_good:
  assumes "good 4 key (4 * (i + 1)) rk" "4 * (i + 2) \<le> 68"
  shows "good 4 key (4 * (i + 2)) (expand10 (rom_tables\<lparr>aes_init_done := d\<rparr>) i rk)"
proof -
  let ?rk = "let w = rk ! (4 * i + 4 - 1) in rk[4 * i + 4 := rk ! (4 * i) XOR RCON_rom ! i XOR
    sub4 FSb_rom (byte1 w) (byte2 w) (byte3 w) (byte0 w)]"
  have "good 4 key (4 * i + 5) ?rk"
    using first_word_good [OF assms(1)] assms(2) by simp
  then have "good 4 key (4 * i + (5 + 3)) (xor_words 4 (4 * i) 5 (5 + 3) ?rk)"
    by (rule xor_words_good) (use assms(2) in \<open>simp_all add: upt_rec\<close>)
  then show ?thesis
    by (simp add: expand10_def Let_def add.commute)
qed

lemma expand12_good:
  assumes "good 6 key (6 * (i + 1)) rk" "6 * (i + 2) \<le> 68"
  shows "good 6 key (6 * (i + 2)) (expand12 (rom_tables\<lparr>aes_init_done := d\<rparr>) i rk)"
proof -
  let ?rk = "let w = rk ! (6 * i + 6 - 1) in rk[6 * i + 6 := rk ! (6 * i) XOR RCON_rom ! i XOR
    sub4 FSb_rom (byte1 w) (byte2 w) (byte3 w) (byte0 w)]"
  have "good 6 key (6 * i + 7) ?rk"
    using first_word_good [OF assms(1)] assms(2) by simp
  then have "good 6 key (6 * i + (7 + 5)) (xor_words 6 (6 * i) 7 (7 + 5) ?rk)"
    by (rule xor_words_good) (use assms(2) in \<open>simp_all add: upt_rec\<close>)
  then show ?thesis
    by (simp add: expand12_def Let_def add.commute)
qed

lemma expand14_good:
  assumes "good 8 key (8 * (i + 1)) rk" "8 * (i + 2) \<le> 68"
  shows "good 8 key (8 * (i + 2)) (expand14 (rom_tables\<lparr>aes_init_done := d\<rparr>) i rk)"
proof -
  let ?rk = "let w = rk ! (8 * i + 8 - 1) in rk[8 * i + 8 := rk ! (8 * i) XOR RCON_rom ! i XOR
    sub4 FSb_rom (byte1 w) (byte2 w) (byte3 w) (byte0 w)]"
  let ?rk1 = "xor_words 8 (8 * i) 9 (9 + 3) ?rk"
  have "good 8 key (8 * i + 9) ?rk"
    using first_word_good [OF assms(1)] assms(2) by simp
  then have g: "good 8 key (8 * i + (9 + 3)) ?rk1"
    by (rule xor_words_good) (use assms(2) in \<open>simp_all add: upt_rec\<close>)
  let ?x = "?rk1 ! (8 * i + 4) XOR (let w = ?rk1 ! (8 * i + 11) in sub4 FSb_rom (byte0 w) (byte1 w) (byte2 w) (byte3 w))"
  have "fips_word 8 key (8 * i + (9 + 3)) = ?x"
    using fips_sub [of 8 "8 * i + 12" key] good_nth [OF g, of "8 * i + 4"] good_nth [OF g, of "8 * i + 11"]
    by (simp add: Let_def add.commute)
  then have "good 8 key (8 * i + (9 + 3) + 1) (?rk1[8 * i + (9 + 3) := ?x])"
    using assms(2) by (intro good_next [OF g]) auto
  then have "good 8 key (8 * i + 13) (?rk1[8 * i + 12 := ?x])"
    by (simp only: add.assoc) simp
  then have "good 8 key (8 * i + (13 + 3)) (xor_words 8 (8 * i) 13 (13 + 3) (?rk1[8 * i + 12 := ?x]))"
    by (rule xor_words_good) (use assms(2) in \<open>simp_all add: upt_rec\<close>)
  then show ?thesis
    by (simp add: expand14_def Let_def add.commute)
qed

lemma fold_good:
  assumes "\<And>i rk. good nk key (nk * (i + 1)) rk \<Longrightarrow> nk * (i + 2) \<le> 68 \<Longrightarrow> good nk key (nk * (i + 2)) (f i rk)"
    "good nk key nk rk" "nk * (m + 1) \<le> 68"
  shows "good nk key (nk * (m + 1)) (fold f [0..<m] rk)"
  using assms(3)
proof (induction m)
  case (Suc m)
  then show ?case
    using assms(1) [of m] by simp
qed (simp add: assms(2))

lemma expand_good:
  fixes d defines "t \<equiv> rom_tables\<lparr>aes_init_done := d\<rparr>"
  shows "good 4 key 4 rk \<Longrightarrow> good 4 key 44 (expand t 10 rk)" "good 6 key 6 rk \<Longrightarrow> good 6 key 54 (expand t 12 rk)"
    "good 8 key 8 rk \<Longrightarrow> good 8 key 64 (expand t 14 rk)"
  using fold_good [OF expand10_good, where rk = rk and m = 10] fold_good [OF expand12_good, where rk = rk and m = 8]
    fold_good [OF expand14_good, where rk = rk and m = 7]
  by (simp_all add: expand_def t_def)

text \<open>The first words are those of the key.\<close>

lemma key_words_good:
  assumes "length rk = 68" "length kb = 4 * nk" "nk \<le> 68" "0 < nk"
  shows "good nk kb nk (fold (\<lambda>i rk. rk[i := get32 kb (4 * i)]) [0..<nk] rk)"
proof -
  have "good nk kb m (fold (\<lambda>i rk. rk[i := get32 kb (4 * i)]) [0..<m] rk)" if "m \<le> nk" for m
    using that
  proof (induction m)
    case 0
    then show ?case
      using assms(1) by (simp add: good_def)
  next
    case (Suc m)
    have "get32 kb (4 * m) = fips_word nk kb m"
      using Suc.prems by (subst fips_word.simps) simp
    then show ?case
      using good_next [of nk kb m "fold (\<lambda>i rk. rk[i := get32 kb (4 * i)]) [0..<m] rk"] Suc assms(3) by simp
  qed
  then show ?thesis
    by blast
qed

definition key_words :: "int \<Rightarrow> nat" where
  "key_words keysize = nat keysize div 32"

text \<open>A context is ready for a key when its words are those of the expansion.\<close>

definition enc_ready :: "int \<Rightarrow> u8 list \<Rightarrow> weeny_aes_context \<Rightarrow> bool" where
  "enc_ready keysize key ctx \<longleftrightarrow> key_rounds keysize = Some (nr ctx) \<and> rk_set ctx \<and> length (rk_buf ctx) = 68 \<and>
     (\<forall>i < 4 * (nr ctx + 1). rk_buf ctx ! i = fips_word (key_words keysize) (take (4 * key_words keysize) key) i)"

text \<open>The tables after the first use: computed from the boot state, or still there.\<close>

definition tables_ready :: "((nat \<Rightarrow> u32) \<times> (nat \<Rightarrow> u32)) option \<Rightarrow> aes_tables \<Rightarrow> bool" where
  "tables_ready tmp t \<longleftrightarrow> t = rom_tables \<or> t = aes_boot \<and> tmp \<noteq> None"

lemma tables_after:
  assumes "tables_ready tmp t"
  shows "(if aes_init_done t then t else (aes_gen_tables tmp t)\<lparr>aes_init_done := True\<rparr>) = rom_tables"
proof (cases "t = rom_tables")
  case True
  then show ?thesis
    by (simp add: rom_tables_def)
next
  case False
  then obtain blk where "t = aes_boot" "tmp = Some blk"
    using assms by (auto simp: tables_ready_def)
  moreover have "rom_tables\<lparr>aes_init_done := False, aes_init_done := True\<rparr> = rom_tables"
    by (simp add: rom_tables_def)
  ultimately show ?thesis
    using gen_tables_rom [of blk] by (simp add: aes_boot_def)
qed

lemma key_rounds_cases:
  assumes "key_rounds keysize = Some n"
  obtains "keysize = 128" "n = 10" | "keysize = 192" "n = 12" | "keysize = 256" "n = 14"
  using assms by (auto simp: key_rounds_def split: if_splits)

lemma setkey_enc_ready:
  assumes "tables_ready tmp t" "key_rounds keysize = Some n" "4 * key_words keysize \<le> length key" "length (rk_buf ctx) = 68"
  shows "\<exists>ctx1. weeny_aes_setkey_enc tmp ctx key keysize t = Some (ctx1, rom_tables) \<and> enc_ready keysize key ctx1 \<and> nr ctx1 = n"
proof -
  let ?nk = "key_words keysize" and ?kb = "take (4 * key_words keysize) key"
  let ?rk = "fold (\<lambda>i rk. rk[i := get32 ?kb (4 * i)]) [0..<?nk] (rk_buf ctx)"
  have nk: "nat keysize div 8 = 4 * ?nk" "?nk \<le> 68" "0 < ?nk"
    by (rule key_rounds_cases [OF assms(2)]; simp add: key_words_def)+
  have g: "good ?nk ?kb ?nk ?rk"
    using assms(3,4) nk(2,3) by (intro key_words_good) auto
  have d: "rom_tables\<lparr>aes_init_done := True\<rparr> = rom_tables"
    by (simp add: rom_tables_def)
  have e: "good ?nk ?kb (4 * (n + 1)) (expand rom_tables n ?rk)"
    by (rule key_rounds_cases [OF assms(2)]; insert expand_good [of ?kb ?rk True] g; auto simp: key_words_def d good_def)
  have "weeny_aes_setkey_enc tmp ctx key keysize t
      = Some (ctx\<lparr>nr := n, rk_set := True, rk_buf := expand rom_tables n ?rk\<rparr>, rom_tables)"
    using assms(2,3) nk(1) tables_after [OF assms(1)] by (simp add: weeny_aes_setkey_enc_def key_words_def Let_def)
  moreover have "enc_ready keysize key (ctx\<lparr>nr := n, rk_set := True, rk_buf := expand rom_tables n ?rk\<rparr>)"
    using e assms(2) by (simp add: enc_ready_def good_def)
  ultimately show ?thesis
    by simp
qed

end
