(* ===== verification/AesCipher.thy ===== *)
theory AesCipher
  imports AesKeys
begin

text \<open>
  The block cipher.  A round of the code is a linear map \<open>M\<close> of each column after the S-box and the shift of the
  rows; \<open>N\<close> is the map of the reverse tables and undoes it, by the coefficients of the products.  From this
  follow that decryption undoes encryption under the turned round keys, and that encryption is FIPS 197.
\<close>

subsection \<open>The maps of a column\<close>

text \<open>Products of FIPS 197 on bytes.\<close>

definition x2 :: "u8 \<Rightarrow> u8" where "x2 a = push_bit 1 a XOR (if bit a 7 then 0x1B else 0)"
definition x3 :: "u8 \<Rightarrow> u8" where "x3 a = x2 a XOR a"
definition x9 :: "u8 \<Rightarrow> u8" where "x9 a = x2 (x2 (x2 a)) XOR a"
definition x11 :: "u8 \<Rightarrow> u8" where "x11 a = x2 (x2 (x2 a)) XOR x2 a XOR a"
definition x13 :: "u8 \<Rightarrow> u8" where "x13 a = x2 (x2 (x2 a)) XOR x2 (x2 a) XOR a"
definition x14 :: "u8 \<Rightarrow> u8" where "x14 a = x2 (x2 (x2 a)) XOR x2 (x2 a) XOR x2 a"

lemmas x_defs = x3_def x9_def x11_def x13_def x14_def

lemma xor_cancel: "(x :: u8) XOR (x XOR y) = y"
  by (simp flip: xor.assoc)

lemmas xor_ac = xor.assoc xor.commute xor.left_commute xor_cancel

lemma x2_xor: "x2 (a XOR b) = x2 a XOR x2 b"
  by (cases "bit a 7"; cases "bit b 7") (simp_all add: x2_def bit_xor_iff push_bit_xor xor_ac)

lemma ucast_xor: "(ucast (a XOR b) :: u32) = ucast a XOR ucast (b :: u8)"
  by (rule bit_word_eqI) (auto simp: bit_simps)

lemma push_ucast: "take_bit 8 (push_bit k (ucast a)) = (ucast (push_bit k (a :: u8)) :: u32)"
  by (rule bit_word_eqI) (auto simp: bit_simps dest: bit_byte)

lemma xt_ucast: "xt (ucast a) = ucast (x2 a)"
proof -
  have "bit (ucast a :: u32) 7 = bit a 7" "(0x1B :: u32) = ucast (0x1B :: u8)" "take_bit 8 (0x1B :: u32) = 0x1B"
    by (simp_all add: bit_unsigned_iff)
  then show ?thesis
    using push_ucast [of 1 a] by (simp only: xt_def XTIME_def and_80 and_low_byte x2_def take_bit_xor ucast_xor if_distrib take_bit_0 unsigned_0 split: if_split) simp
qed

lemma M0_pack: "M0 (ucast a) = pack (x2 a) a a (x3 a)"
  by (simp add: M0_def xt_ucast pack_def x3_def ucast_xor)

lemma N0_pack: "N0 (ucast a) = pack (x14 a) (x9 a) (x13 a) (x11 a)"
  by (simp add: N0_def gm_defs xt_ucast pack_def x_defs ucast_xor)

definition M :: "u32 \<Rightarrow> u32" where
  "M w = pack (x2 (b0 w) XOR x3 (b1 w) XOR b2 w XOR b3 w) (b0 w XOR x2 (b1 w) XOR x3 (b2 w) XOR b3 w)
     (b0 w XOR b1 w XOR x2 (b2 w) XOR x3 (b3 w)) (x3 (b0 w) XOR b1 w XOR b2 w XOR x2 (b3 w))"

definition N :: "u32 \<Rightarrow> u32" where
  "N w = pack (x14 (b0 w) XOR x11 (b1 w) XOR x13 (b2 w) XOR x9 (b3 w)) (x9 (b0 w) XOR x14 (b1 w) XOR x11 (b2 w) XOR x13 (b3 w))
     (x13 (b0 w) XOR x9 (b1 w) XOR x14 (b2 w) XOR x11 (b3 w)) (x11 (b0 w) XOR x13 (b1 w) XOR x9 (b2 w) XOR x14 (b3 w))"

lemma M_tables: "M0 (ucast a) XOR ROTL8 (M0 (ucast b)) XOR ROTL8 (ROTL8 (M0 (ucast c))) XOR ROTL8 (ROTL8 (ROTL8 (M0 (ucast d))))
    = M (pack a b c d)"
  by (simp add: M0_pack ROTL8_pack pack_xor M_def)

lemma N_tables: "N0 (ucast a) XOR ROTL8 (N0 (ucast b)) XOR ROTL8 (ROTL8 (N0 (ucast c))) XOR ROTL8 (ROTL8 (ROTL8 (N0 (ucast d))))
    = N (pack a b c d)"
  by (simp add: N0_pack ROTL8_pack pack_xor N_def)

lemma b_xor: "b0 (v XOR w) = b0 v XOR b0 w" "b1 (v XOR w) = b1 v XOR b1 w" "b2 (v XOR w) = b2 v XOR b2 w"
  "b3 (v XOR w) = b3 v XOR b3 w"
  using pack_xor [of "b0 v" "b1 v" "b2 v" "b3 v" "b0 w" "b1 w" "b2 w" "b3 w"] by (simp_all add: pack_b)

lemma M_xor: "M (v XOR w) = M v XOR M w"
  by (simp add: M_def b_xor pack_xor x_defs x2_xor xor_ac)

lemma N_xor: "N (v XOR w) = N v XOR N w"
  by (simp add: N_def b_xor pack_xor x_defs x2_xor xor_ac)

lemma N_M: "N (M w) = w"
proof -
  have "N (M w) = pack (b0 w) (b1 w) (b2 w) (b3 w)"
    by (simp add: N_def M_def x_defs x2_xor xor_ac)
  then show ?thesis
    by (simp only: pack_b)
qed

subsection \<open>Rounds\<close>

definition sbox :: "u8 \<Rightarrow> u8" where "sbox x = FSb_rom ! unat x"
definition inv_sbox :: "u8 \<Rightarrow> u8" where "inv_sbox x = RSb_rom ! unat x"

lemma inv_sbox_sbox: "inv_sbox (sbox x) = x"
  using RSb_FSb [OF unat_u8, of x] by (simp add: sbox_def inv_sbox_def word_unat_eq_iff)

definition sx :: "aes_state \<Rightarrow> aes_state \<Rightarrow> aes_state" where
  "sx = (\<lambda>(a, b, c, d) (a', b', c', d'). (a XOR a', b XOR b', c XOR c', d XOR d'))"

definition each :: "(u32 \<Rightarrow> u32) \<Rightarrow> aes_state \<Rightarrow> aes_state" where
  "each f = (\<lambda>(a, b, c, d). (f a, f b, f c, f d))"

definition row_pack :: "(u8 \<Rightarrow> u8) \<Rightarrow> u32 \<Rightarrow> u32 \<Rightarrow> u32 \<Rightarrow> u32 \<Rightarrow> u32" where
  "row_pack f a b c d = pack (f (b0 a)) (f (b1 b)) (f (b2 c)) (f (b3 d))"

text \<open>The S-box and the shift of the rows, and their inverse.\<close>

definition SS :: "aes_state \<Rightarrow> aes_state" where
  "SS = (\<lambda>(a, b, c, d). (row_pack sbox a b c d, row_pack sbox b c d a, row_pack sbox c d a b, row_pack sbox d a b c))"

definition IS :: "aes_state \<Rightarrow> aes_state" where
  "IS = (\<lambda>(a, b, c, d). (row_pack inv_sbox a d c b, row_pack inv_sbox b a d c, row_pack inv_sbox c b a d,
     row_pack inv_sbox d c b a))"

lemma IS_SS: "IS (SS x) = x"
  by (cases x) (simp add: IS_def SS_def row_pack_def inv_sbox_sbox pack_b)

definition K :: "u32 list \<Rightarrow> nat \<Rightarrow> aes_state" where
  "K rk p = (rk ! p, rk ! (p + 1), rk ! (p + 2), rk ! (p + 3))"

lemma sub4_row: "sub4 FSb_rom (byte0 a) (byte1 b) (byte2 c) (byte3 d) = row_pack sbox a b c d"
  "sub4 RSb_rom (byte0 a) (byte1 b) (byte2 c) (byte3 d) = row_pack inv_sbox a b c d"
  by (simp_all add: sub4_pack row_pack_def byte_b sbox_def inv_sbox_def)

lemma ft_row: "ft rom_tables a b c d = M (row_pack sbox a b c d)"
  by (simp add: ft_def rom_words unat_u8 M_tables row_pack_def byte_b sbox_def)

lemma rt_row: "rt rom_tables a b c d = N (row_pack inv_sbox a b c d)"
  by (simp add: rt_def rom_words unat_u8 N_tables row_pack_def byte_b inv_sbox_def)

lemma rom_boxes: "FSb rom_tables = FSb_rom" "RSb rom_tables = RSb_rom"
  by (simp_all add: rom_tables_def)

lemma rounds_eq:
  "AES_FROUND rom_tables rk p x = sx (K rk p) (each M (SS x))" "last_fround rom_tables rk p x = sx (K rk p) (SS x)"
  "AES_RROUND rom_tables rk p x = sx (K rk p) (each N (IS x))" "last_rround rom_tables rk p x = sx (K rk p) (IS x)"
  "add_key rk p x = sx x (K rk p)"
proof -
  obtain a b c d where x: "x = (a, b, c, d)"
    by (cases x)
  note ds = sx_def K_def each_def SS_def IS_def prod.case
  show "AES_FROUND rom_tables rk p x = sx (K rk p) (each M (SS x))"
    by (simp only: x AES_FROUND_def ft_row ds)
  show "last_fround rom_tables rk p x = sx (K rk p) (SS x)"
    by (simp only: x last_fround_def Let_def rom_boxes sub4_row ds)
  show "AES_RROUND rom_tables rk p x = sx (K rk p) (each N (IS x))"
    by (simp only: x AES_RROUND_def rt_row ds)
  show "last_rround rom_tables rk p x = sx (K rk p) (IS x)"
    by (simp only: x last_rround_def Let_def rom_boxes sub4_row ds)
  show "add_key rk p x = sx x (K rk p)"
    by (simp only: x add_key_def ds)
qed

lemma xor_cancel32: "(x :: u32) XOR (x XOR y) = y"
  by (simp flip: xor.assoc)

lemma sx_cancel: "sx a (sx a b) = b" "sx (sx b a) a = b" "sx (sx a b) a = b" "sx a (sx b a) = b"
  by (cases a; cases b; simp add: sx_def xor.assoc xor.commute xor.left_commute xor_cancel32)+

fun rounds :: "(nat \<Rightarrow> aes_state \<Rightarrow> aes_state) \<Rightarrow> nat \<Rightarrow> nat \<Rightarrow> aes_state \<Rightarrow> aes_state" where
  "rounds rnd p 0 x = x"
| "rounds rnd p (Suc n) x = rnd (p + 4 * n) (rounds rnd p n x)"

lemma rounds_two: "rounds rnd p (Suc (Suc n)) x = rounds rnd (p + 8) n (rnd (p + 4) (rnd p x))"
  by (induction n) (simp_all add: add.assoc)

lemma round_loop_eq: "round_loop rnd i p x = (p + 8 * i, rounds rnd p (2 * i) x)"
proof (induction i arbitrary: p x)
  case (Suc i)
  have "rounds rnd p (2 * Suc i) x = rounds rnd (p + 8) (2 * i) (rnd (p + 4) (rnd p x))"
    using rounds_two [of rnd p "2 * i" x] by simp
  then show ?case
    by (simp add: Suc)
qed simp

lemma crypt_eq:
  assumes "rk_set ctx" "4 * (2 * h + 2 + 1) \<le> length (rk_buf ctx)" "nr ctx = 2 * h + 2" "16 \<le> length input"
  shows "weeny_aes_crypt_ecb t ctx dec input = Some (put_state
    ((if dec then last_rround t (rk_buf ctx) else last_fround t (rk_buf ctx)) (4 * nr ctx)
      (rounds (if dec then AES_RROUND t (rk_buf ctx) else AES_FROUND t (rk_buf ctx)) 4 (nr ctx - 1)
        (add_key (rk_buf ctx) 0 (get_state input)))))"
  using assms by (simp add: weeny_aes_crypt_ecb_def Let_def round_loop_eq add.commute)

subsection \<open>Decryption under the turned round keys\<close>

lemma each_N: "each N (sx x y) = sx (each N x) (each N y)" "each N (each M x) = x"
  by (cases x; cases y; simp add: each_def sx_def N_xor N_M)+

definition turned :: "nat \<Rightarrow> u32 list \<Rightarrow> u32 list \<Rightarrow> bool" where
  "turned n rk dk \<longleftrightarrow> K dk 0 = K rk (4 * n) \<and> (\<forall>j. 0 < j \<and> j < n \<longrightarrow> K dk (4 * j) = each N (K rk (4 * (n - j)))) \<and>
     K dk (4 * n) = K rk 0"

lemma reverse_rounds:
  fixes rk st n
  defines "s \<equiv> \<lambda>i. rounds (AES_FROUND rom_tables rk) 4 i (add_key rk 0 st)"
  defines "c \<equiv> last_fround rom_tables rk (4 * n) (s (n - 1))"
  assumes "turned n rk dk" "0 < n"
  shows "last_rround rom_tables dk (4 * n) (rounds (AES_RROUND rom_tables dk) 4 (n - 1) (add_key dk 0 c)) = st"
proof -
  have rev: "rounds (AES_RROUND rom_tables dk) 4 j (add_key dk 0 c) = SS (s (n - 1 - j))" if "j \<le> n - 1" for j
    using that
  proof (induction j)
    case 0
    then show ?case
      using assms(3) by (simp add: c_def rounds_eq turned_def sx_cancel)
  next
    case (Suc j)
    have k: "K dk (4 + 4 * j) = each N (K rk (4 + 4 * (n - 1 - Suc j)))"
    proof -
      have "K dk (4 * Suc j) = each N (K rk (4 * (n - Suc j)))"
        using assms(3) Suc.prems by (simp add: turned_def del: mult_Suc_right)
      moreover have "4 * (n - Suc j) = 4 + 4 * (n - 1 - Suc j)"
        using Suc.prems by simp
      ultimately show ?thesis
        by (simp del: mult_Suc)
    qed
    have "n - 1 - j = Suc (n - 1 - Suc j)"
      using Suc.prems by simp
    then have step: "s (n - 1 - j) = sx (K rk (4 + 4 * (n - 1 - Suc j))) (each M (SS (s (n - 1 - Suc j))))"
      by (simp only: s_def rounds.simps rounds_eq)
    have "rounds (AES_RROUND rom_tables dk) 4 (Suc j) (add_key dk 0 c)
        = sx (K dk (4 + 4 * j)) (each N (IS (rounds (AES_RROUND rom_tables dk) 4 j (add_key dk 0 c))))"
      by (simp only: rounds.simps rounds_eq)
    also have "\<dots> = sx (K dk (4 + 4 * j)) (each N (s (n - 1 - j)))"
      using Suc by (simp add: IS_SS)
    also have "\<dots> = SS (s (n - 1 - Suc j))"
      by (simp only: k step each_N sx_cancel)
    finally show ?case .
  qed
  have "s 0 = sx st (K rk 0)"
    by (simp add: s_def rounds_eq)
  then show ?thesis
    using rev [of "n - 1"] assms(3) by (simp add: rounds_eq(4) IS_SS turned_def sx_cancel)
qed

lemma get32_pack: "get32 bs i = pack (bs ! i) (bs ! (i + 1)) (bs ! (i + 2)) (bs ! (i + 3))"
proof (rule bit_word_eqI)
  fix n assume n: "n < LENGTH(32)"
  have u: "bit (ucast x :: u32) m = bit (x :: u8) m" if "m < 32" for x m
    using that by (auto simp: bit_simps dest: bit_byte)
  show "bit (get32 bs i) n = bit (pack (bs ! i) (bs ! (i + 1)) (bs ! (i + 2)) (bs ! (i + 3))) n"
    using n bit_byte [of "bs ! i" n] bit_byte [of "bs ! (i + 1)" "n - 8"] bit_byte [of "bs ! (i + 2)" "n - 16"]
    by (auto simp: get32_def bit_pack bit_or_iff bit_push_bit_iff u)
qed

lemma le32_b: "le32 w = [b0 w, b1 w, b2 w, b3 w]"
  by (simp add: le32_def b_defs)

lemma get_put: "get_state (put_state x) = x"
  by (cases x) (simp add: get_state_def put_state_def le32_b get32_pack pack_b)

lemma length_put [simp]: "length (put_state x) = 16"
  by (cases x) (simp add: put_state_def)

lemma put_get_state:
  assumes "length bs = 16"
  shows "put_state (get_state bs) = bs"
proof -
  have "put_state (get_state bs) = map ((!) bs) [0..<16]"
    by (simp add: put_state_def get_state_def le32_b get32_pack upt_rec numeral_eq_Suc)
  also have "\<dots> = bs"
    using map_nth [of bs] assms by simp
  finally show ?thesis .
qed

text \<open>What \<open>weeny_aes_setkey_dec\<close> writes.\<close>

lemma K_nth: "K xs p = K ys q \<longleftrightarrow> (\<forall>j<4. xs ! (p + j) = ys ! (q + j))"
  by (auto simp: K_def numeral_eq_Suc less_Suc_eq)

lemma store4:
  assumes "rk + 4 \<le> length dst"
  shows "length (fold (\<lambda>j dst. dst[rk + j := f j]) [0..<4] dst) = length dst"
    "K (fold (\<lambda>j dst. dst[rk + j := f j]) [0..<4] dst) rk = (f 0, f 1, f 2, f 3)"
    "i < rk \<or> rk + 4 \<le> i \<Longrightarrow> fold (\<lambda>j dst. dst[rk + j := f j]) [0..<4] dst ! i = dst ! i"
proof -
  have "[0..<4] = [0, 1, 2, 3 :: nat]"
    by (simp add: upt_rec)
  then show "length (fold (\<lambda>j dst. dst[rk + j := f j]) [0..<4] dst) = length dst"
    "K (fold (\<lambda>j dst. dst[rk + j := f j]) [0..<4] dst) rk = (f 0, f 1, f 2, f 3)"
    "i < rk \<or> rk + 4 \<le> i \<Longrightarrow> fold (\<lambda>j dst. dst[rk + j := f j]) [0..<4] dst ! i = dst ! i"
    using assms by (auto simp: K_def nth_list_update)
qed

lemma inv_word_N: "inv_word rom_tables w = N w"
proof -
  have "inv_word rom_tables w = N (pack (inv_sbox (sbox (b0 w))) (inv_sbox (sbox (b1 w))) (inv_sbox (sbox (b2 w)))
      (inv_sbox (sbox (b3 w))))"
    by (simp add: inv_word_def rom_words rom_boxes unat_u8 N_tables byte_b inv_sbox_def sbox_def)
  then show ?thesis
    by (simp add: inv_sbox_sbox pack_b)
qed

lemma K_cong: "(\<And>i. p \<le> i \<Longrightarrow> i < p + 4 \<Longrightarrow> xs ! i = ys ! i) \<Longrightarrow> K xs p = K ys p"
  by (simp add: K_nth)

lemma inv_rounds_eq:
  assumes "4 * (m - 1) \<le> sk" "rk + 4 * m \<le> length dst"
  obtains dst' where "inv_rounds rom_tables src m sk rk dst = (sk - 4 * m, rk + 4 * m, dst')" "length dst' = length dst"
    "\<And>i. i < rk \<Longrightarrow> dst' ! i = dst ! i" "\<And>j. j < m \<Longrightarrow> K dst' (rk + 4 * j) = each N (K src (sk - 4 * j))"
  using assms
proof (induction m arbitrary: sk rk dst thesis)
  case 0
  then show ?case
    by simp
next
  case (Suc m)
  let ?d = "fold (\<lambda>j dst. dst[rk + j := inv_word rom_tables (src ! (sk + j))]) [0..<4] dst"
  have r: "rk + 4 \<le> length dst"
    using Suc.prems(3) by simp
  note d = store4 [OF r, where f = "\<lambda>j. inv_word rom_tables (src ! (sk + j))"]
  have "4 * (m - 1) \<le> sk + 4 - 8" "rk + 4 + 4 * m \<le> length ?d"
    using Suc.prems(2,3) d(1) by auto
  then obtain dst' where dst': "inv_rounds rom_tables src m (sk + 4 - 8) (rk + 4) ?d = (sk + 4 - 8 - 4 * m, rk + 4 + 4 * m, dst')"
    "length dst' = length ?d" "\<And>i. i < rk + 4 \<Longrightarrow> dst' ! i = ?d ! i"
    "\<And>j. j < m \<Longrightarrow> K dst' (rk + 4 + 4 * j) = each N (K src (sk + 4 - 8 - 4 * j))"
    using Suc.IH by blast
  have "K dst' (rk + 4 * j) = each N (K src (sk - 4 * j))" if "j < Suc m" for j
  proof (cases j)
    case 0
    have "K dst' rk = K ?d rk"
      by (rule K_cong) (simp add: dst'(3))
    then show ?thesis
      using 0 d(2) by (simp add: inv_word_N each_def K_def)
  next
    case (Suc k)
    then show ?thesis
      using dst'(4) [of k] that by (simp add: add.assoc)
  qed
  moreover have "dst' ! i = dst ! i" if "i < rk" for i
    using dst'(3) [of i] d(3) [of i] that by simp
  ultimately show ?case
    using Suc.prems(1) [of dst'] dst'(1,2) d(1) by simp
qed

lemma copy4_eq:
  assumes "rk + 4 \<le> length dst"
  shows "length (copy4 src sk rk dst) = length dst" "K (copy4 src sk rk dst) rk = K src sk"
    "i < rk \<Longrightarrow> copy4 src sk rk dst ! i = dst ! i"
  using store4 [OF assms, where f = "\<lambda>j. src ! (sk + j)"] by (simp_all add: copy4_def K_def)

lemma setkey_dec_turned:
  assumes "tables_ready tmp t" "key_rounds keysize = Some n" "4 * key_words keysize \<le> length key"
    "length (rk_buf cty) = 68" "length (rk_buf ctx) = 68"
  shows "\<exists>cty1 ctx1. enc_ready keysize key cty1 \<and> nr cty1 = n \<and> nr ctx1 = n \<and> rk_set ctx1 \<and> length (rk_buf ctx1) = 68 \<and>
    weeny_aes_setkey_dec tmp cty ctx key keysize t = Some (ctx1, rom_tables) \<and> turned n (rk_buf cty1) (rk_buf ctx1)"
proof -
  obtain cty1 where cty1: "weeny_aes_setkey_enc tmp cty key keysize t = Some (cty1, rom_tables)" "enc_ready keysize key cty1" "nr cty1 = n"
    using setkey_enc_ready [OF assms(1-4)] by blast
  have n: "0 < n" "4 * n + 4 \<le> 68" "4 * (n - 1) + 4 = 4 * n"
    by (rule key_rounds_cases [OF assms(2)]; simp)+
  let ?src = "rk_buf cty1"
  let ?d0 = "copy4 ?src (n * 4) 0 (rk_buf ctx)"
  have d0: "length ?d0 = 68" "K ?d0 0 = K ?src (4 * n)"
    using copy4_eq [where rk = 0 and dst = "rk_buf ctx" and src = ?src and sk = "n * 4"] assms(5) by (simp_all add: mult.commute)
  obtain d1 where d1: "inv_rounds rom_tables ?src (n - 1) (n * 4 + 4 - 8) 4 ?d0 = (0, 4 * n, d1)" "length d1 = 68"
    "\<And>i. i < 4 \<Longrightarrow> d1 ! i = ?d0 ! i" "\<And>j. j < n - 1 \<Longrightarrow> K d1 (4 + 4 * j) = each N (K ?src (n * 4 + 4 - 8 - 4 * j))"
  proof -
    have c: "4 * (n - 1 - 1) \<le> n * 4 + 4 - 8" "4 + 4 * (n - 1) \<le> length ?d0"
      and e: "n * 4 + 4 - 8 - 4 * (n - 1) = 0" "4 + 4 * (n - 1) = 4 * n"
      using n d0(1) by auto
    show thesis
      by (rule inv_rounds_eq [OF c, where src = ?src, unfolded e d0(1)]) (rule that)
  qed
  let ?d2 = "copy4 ?src 0 (4 * n) d1"
  have d2: "length ?d2 = 68" "K ?d2 (4 * n) = K ?src 0" "\<And>i. i < 4 * n \<Longrightarrow> ?d2 ! i = d1 ! i"
    using copy4_eq [where rk = "4 * n" and dst = d1 and src = ?src and sk = 0] n(2) d1(2) by simp_all
  have "K ?d2 (4 * j) = each N (K ?src (4 * (n - j)))" if "0 < j" "j < n" for j
  proof -
    have "K ?d2 (4 * j) = K d1 (4 * j)"
      using that(2) by (intro K_cong d2(3)) auto
    also have "\<dots> = each N (K ?src (n * 4 + 4 - 8 - 4 * (j - 1)))"
      using d1(4) [of "j - 1"] that by (simp add: algebra_simps)
    also have "n * 4 + 4 - 8 - 4 * (j - 1) = 4 * (n - j)"
      using that by auto
    finally show ?thesis .
  qed
  moreover have "K ?d2 0 = K ?src (4 * n)"
  proof -
    have "K ?d2 0 = K d1 0"
      using n(1) by (intro K_cong d2(3)) auto
    also have "\<dots> = K ?d0 0"
      by (intro K_cong d1(3)) auto
    finally show ?thesis
      using d0(2) by simp
  qed
  ultimately have "turned n ?src ?d2"
    using d2(2) by (simp add: turned_def)
  moreover have "weeny_aes_setkey_dec tmp cty ctx key keysize t = Some (ctx\<lparr>nr := n, rk_set := True, rk_buf := ?d2\<rparr>, rom_tables)"
    using assms(2) cty1 d1(1) by (simp add: weeny_aes_setkey_dec_def)
  ultimately show ?thesis
    using cty1(2,3) d2(1) by (intro exI [of _ cty1] exI [of _ "ctx\<lparr>nr := n, rk_set := True, rk_buf := ?d2\<rparr>"]) simp
qed

end
