(* ===== verification/AesModes.thy ===== *)
theory AesModes
  imports AesCipher
begin

text \<open>
  The properties of \<open>func/misc/soft_encrypt.c\<close>: encryption is FIPS 197, decryption undoes it, the two buffer modes
  are inverse to themselves, and what happens when the tables could not be allocated.  The modes need of the
  cipher only that decryption undoes encryption on blocks: this is the locale \<open>block_cipher\<close>, interpreted on the
  contexts that the two key schedules fill.
\<close>

subsection \<open>FIPS 197\<close>

definition SubBytes :: "u8 list \<Rightarrow> u8 list" where
  "SubBytes s = map sbox s"

text \<open>A state is the list of its columns: row \<open>r\<close> of column \<open>c\<close> is byte \<open>r + 4 * c\<close>.\<close>

definition ShiftRows :: "u8 list \<Rightarrow> u8 list" where
  "ShiftRows s = map (\<lambda>i. s ! ((i + 4 * (i mod 4)) mod 16)) [0..<16]"

definition MixColumns :: "u8 list \<Rightarrow> u8 list" where
  "MixColumns s = concat (map (\<lambda>k. let a = s ! (4 * k); b = s ! (4 * k + 1); c = s ! (4 * k + 2); d = s ! (4 * k + 3) in
     [x2 a XOR x3 b XOR c XOR d, a XOR x2 b XOR x3 c XOR d, a XOR b XOR x2 c XOR x3 d, x3 a XOR b XOR c XOR x2 d]) [0..<4])"

definition AddRoundKey :: "(nat \<Rightarrow> u32) \<Rightarrow> nat \<Rightarrow> u8 list \<Rightarrow> u8 list" where
  "AddRoundKey w r s = xor_bytes s (concat (map (\<lambda>k. le32 (w (4 * r + k))) [0..<4]))"

fun fips_rounds :: "(nat \<Rightarrow> u32) \<Rightarrow> nat \<Rightarrow> u8 list \<Rightarrow> u8 list" where
  "fips_rounds w 0 s = AddRoundKey w 0 s"
| "fips_rounds w (Suc r) s = AddRoundKey w (Suc r) (MixColumns (ShiftRows (SubBytes (fips_rounds w r s))))"

definition fips_cipher :: "nat \<Rightarrow> u8 list \<Rightarrow> u8 list \<Rightarrow> u8 list" where
  "fips_cipher nk key s = (let w = fips_word nk key in
     AddRoundKey w (nk + 6) (ShiftRows (SubBytes (fips_rounds w (nk + 5) s))))"

lemma upt_4: "[0..<4] = [0, 1, 2, 3 :: nat]"
  by (simp add: upt_rec)

lemma upt_16: "[0..<16] = [0, 1, 2, 3, 4, 5, 6, 7, 8, 9, 10, 11, 12, 13, 14, 15 :: nat]"
  by (simp add: upt_rec)

lemma put_SS: "put_state (SS x) = ShiftRows (SubBytes (put_state x))"
  by (cases x) (simp add: SS_def row_pack_def put_state_def le32_b SubBytes_def ShiftRows_def upt_16)

lemma put_M: "put_state (each M x) = MixColumns (put_state x)"
  by (cases x) (simp add: each_def put_state_def le32_b MixColumns_def M_def upt_4 Let_def)

lemma put_key:
  assumes "\<And>k. k < 4 \<Longrightarrow> rk ! (4 * r + k) = w (4 * r + k)"
  shows "put_state (sx (K rk (4 * r)) x) = AddRoundKey w r (put_state x)"
  using assms [of 0] assms [of 1] assms [of 2] assms [of 3]
  by (cases x) (simp add: sx_def K_def put_state_def le32_b AddRoundKey_def upt_4 xor_bytes_def b_xor xor.commute)

definition enc_block :: "u32 list \<Rightarrow> nat \<Rightarrow> u8 list \<Rightarrow> u8 list" where
  "enc_block rk n bs = put_state (last_fround rom_tables rk (4 * n)
     (rounds (AES_FROUND rom_tables rk) 4 (n - 1) (add_key rk 0 (get_state bs))))"

lemma enc_block_fips:
  assumes "\<And>i. i < 4 * (n + 1) \<Longrightarrow> rk ! i = w i" "0 < n" "length bs = 16"
  shows "enc_block rk n bs = AddRoundKey w n (ShiftRows (SubBytes (fips_rounds w (n - 1) bs)))"
proof -
  have "put_state (rounds (AES_FROUND rom_tables rk) 4 i (add_key rk 0 (get_state bs))) = fips_rounds w i bs" if "i \<le> n" for i
    using that
  proof (induction i)
    case 0
    have "put_state (sx (K rk (4 * 0)) (get_state bs)) = AddRoundKey w 0 (put_state (get_state bs))"
      using assms(1) by (intro put_key) simp
    moreover have "sx (K rk 0) (get_state bs) = add_key rk 0 (get_state bs)"
      by (cases "get_state bs") (simp add: sx_def K_def add_key_def xor.commute)
    ultimately show ?case
      using put_get_state [OF assms(3)] by simp
  next
    case (Suc i)
    have "put_state (sx (K rk (4 * Suc i)) x) = AddRoundKey w (Suc i) (put_state x)" for x
      using assms(1) Suc.prems by (intro put_key) simp
    then show ?case
      using Suc by (simp add: rounds_eq put_M put_SS)
  qed
  moreover have "put_state (sx (K rk (4 * n)) x) = AddRoundKey w n (put_state x)" for x
    using assms(1) by (intro put_key) simp
  ultimately show ?thesis
    by (simp add: enc_block_def rounds_eq put_SS)
qed

lemma even_rounds: "key_rounds keysize = Some n \<Longrightarrow> \<exists>h. n = 2 * h + 2 \<and> 4 * (2 * h + 2 + 1) \<le> 68 \<and> n = key_words keysize + 6"
  by (erule key_rounds_cases) (auto simp: key_words_def intro: exI [of _ 4] exI [of _ 5] exI [of _ 6])

lemma ecb_enc_some:
  assumes "enc_ready keysize key ctx" "16 \<le> length bs"
  shows "weeny_aes_crypt_ecb rom_tables ctx False bs = Some (enc_block (rk_buf ctx) (nr ctx) bs)"
proof -
  obtain h where h: "nr ctx = 2 * h + 2" "4 * (2 * h + 2 + 1) \<le> 68"
    using even_rounds [of keysize "nr ctx"] assms(1) unfolding enc_ready_def by blast
  show ?thesis
    using crypt_eq [of ctx h bs rom_tables False] assms h by (simp add: enc_ready_def enc_block_def)
qed

lemma ecb_enc:
  assumes "enc_ready keysize key ctx" "length bs = 16"
  shows "weeny_aes_crypt_ecb rom_tables ctx False bs = Some (enc_block (rk_buf ctx) (nr ctx) bs)"
    "enc_block (rk_buf ctx) (nr ctx) bs = fips_cipher (key_words keysize) (take (4 * key_words keysize) key) bs"
proof -
  show "weeny_aes_crypt_ecb rom_tables ctx False bs = Some (enc_block (rk_buf ctx) (nr ctx) bs)"
    using assms by (intro ecb_enc_some) simp_all
  have h: "nr ctx = key_words keysize + 6"
    using even_rounds [of keysize "nr ctx"] assms(1) unfolding enc_ready_def by blast
  show "enc_block (rk_buf ctx) (nr ctx) bs = fips_cipher (key_words keysize) (take (4 * key_words keysize) key) bs"
    using enc_block_fips [of "nr ctx" "rk_buf ctx" "fips_word (key_words keysize) (take (4 * key_words keysize) key)" bs] assms h
    by (simp add: enc_ready_def fips_cipher_def Let_def add.commute)
qed

subsection \<open>Decryption\<close>

definition dec_ready :: "int \<Rightarrow> u8 list \<Rightarrow> weeny_aes_context \<Rightarrow> bool" where
  "dec_ready keysize key ctx \<longleftrightarrow> (\<exists>e. enc_ready keysize key e \<and> nr e = nr ctx \<and> turned (nr ctx) (rk_buf e) (rk_buf ctx)) \<and>
     rk_set ctx \<and> length (rk_buf ctx) = 68"

lemma setkey_dec_ready:
  assumes "tables_ready tmp t" "key_rounds keysize = Some n" "4 * key_words keysize \<le> length key"
    "length (rk_buf cty) = 68" "length (rk_buf ctx) = 68"
  shows "\<exists>ctx1. weeny_aes_setkey_dec tmp cty ctx key keysize t = Some (ctx1, rom_tables) \<and> dec_ready keysize key ctx1"
  using setkey_dec_turned [OF assms] unfolding dec_ready_def by metis

lemma length_enc_block [simp]: "length (enc_block rk n bs) = 16"
  by (simp add: enc_block_def)

lemma ecb_dec:
  assumes "enc_ready keysize key e" "dec_ready keysize key d" "length bs = 16"
  shows "weeny_aes_crypt_ecb rom_tables d True (enc_block (rk_buf e) (nr e) bs) = Some bs"
proof -
  obtain e' where e': "enc_ready keysize key e'" "nr e' = nr d" "turned (nr d) (rk_buf e') (rk_buf d)"
    "rk_set d" "length (rk_buf d) = 68"
    using assms(2) by (auto simp: dec_ready_def)
  obtain h where h: "nr d = 2 * h + 2" "4 * (2 * h + 2 + 1) \<le> 68"
    using even_rounds [of keysize "nr d"] e'(1,2) unfolding enc_ready_def by auto
  have "enc_block (rk_buf e) (nr e) bs = enc_block (rk_buf e') (nr e') bs"
    using ecb_enc(2) [OF assms(1,3)] ecb_enc(2) [OF e'(1) assms(3)] by simp
  then show ?thesis
    using crypt_eq [of d h "enc_block (rk_buf e) (nr e) bs" rom_tables True] e' h
      reverse_rounds [OF e'(3), of "get_state bs"] put_get_state [OF assms(3)]
    by (simp add: enc_block_def get_put)
qed

subsection \<open>Chaining\<close>

fun cbc_enc :: "(u8 list \<Rightarrow> u8 list) \<Rightarrow> u8 list \<Rightarrow> u8 list list \<Rightarrow> u8 list list" where
  "cbc_enc E iv [] = []"
| "cbc_enc E iv (b # bs) = (let c = E (xor_bytes b iv) in c # cbc_enc E c bs)"

fun cbc_dec :: "(u8 list \<Rightarrow> u8 list) \<Rightarrow> u8 list \<Rightarrow> u8 list list \<Rightarrow> u8 list list" where
  "cbc_dec D iv [] = []"
| "cbc_dec D iv (c # cs) = xor_bytes (D c) iv # cbc_dec D c cs"

lemma length_xor_bytes [simp]: "length (xor_bytes xs ys) = min (length xs) (length ys)"
  by (simp add: xor_bytes_def)

lemma xor_bytes_twice: "length xs = length ys \<Longrightarrow> xor_bytes (xor_bytes xs ys) ys = xs"
  by (induction xs ys rule: list_induct2) (simp_all add: xor_bytes_def xor.assoc)

lemma cbc_enc_shape:
  assumes "\<And>b. length b = 16 \<Longrightarrow> length (F b) = 16"
  shows "length iv = 16 \<Longrightarrow> \<forall>b \<in> set bs. length b = 16 \<Longrightarrow>
    length (cbc_enc F iv bs) = length bs \<and> (\<forall>c \<in> set (cbc_enc F iv bs). length c = 16)"
proof (induction bs arbitrary: iv)
  case (Cons b bs)
  let ?c = "F (xor_bytes b iv)"
  have c: "length ?c = 16"
    using Cons.prems by (intro assms) simp
  have "length (cbc_enc F ?c bs) = length bs \<and> (\<forall>c \<in> set (cbc_enc F ?c bs). length c = 16)"
    using Cons.prems by (intro Cons.IH c) simp_all
  with c show ?case
    by (simp add: Let_def)
qed simp

locale block_cipher =
  fixes E D :: "'k \<Rightarrow> u8 list \<Rightarrow> u8 list"
    and ok :: "'k \<Rightarrow> bool"
  assumes E_length: "ok k \<Longrightarrow> length b = 16 \<Longrightarrow> length (E k b) = 16"
    and D_E: "ok k \<Longrightarrow> length b = 16 \<Longrightarrow> D k (E k b) = b"
begin

lemma cbc_enc_blocks:
  "ok k \<Longrightarrow> length iv = 16 \<Longrightarrow> \<forall>b \<in> set bs. length b = 16 \<Longrightarrow>
     length (cbc_enc (E k) iv bs) = length bs \<and> (\<forall>c \<in> set (cbc_enc (E k) iv bs). length c = 16)"
  by (rule cbc_enc_shape) (simp_all add: E_length)

lemma cbc_inverse:
  "ok k \<Longrightarrow> length iv = 16 \<Longrightarrow> \<forall>b \<in> set bs. length b = 16 \<Longrightarrow> cbc_dec (D k) iv (cbc_enc (E k) iv bs) = bs"
  by (induction bs arbitrary: iv) (simp_all add: E_length D_E Let_def xor_bytes_twice)

text \<open>There are finitely many blocks, so decryption has encryption as its inverse too.\<close>

lemma E_all:
  assumes "ok k"
  shows "E k ` {b. length b = 16} = {b. length b = 16}"
proof (rule endo_inj_surj)
  show "finite {b :: u8 list. length b = 16}"
    using finite_lists_length_eq [of "UNIV :: u8 set" 16] by simp
  show "E k ` {b. length b = 16} \<subseteq> {b. length b = 16}"
    using E_length [OF assms] by auto
  show "inj_on (E k) {b. length b = 16}"
    by (rule inj_on_inverseI [where g = "D k"]) (simp add: D_E [OF assms])
qed

lemma E_D:
  assumes "ok k" "length c = 16"
  shows "length (D k c) = 16" "E k (D k c) = c"
proof -
  obtain b where "length b = 16" "c = E k b"
    using E_all [OF assms(1)] assms(2) by blast
  then show "length (D k c) = 16" "E k (D k c) = c"
    using D_E [OF assms(1)] by simp_all
qed

end

text \<open>A pair of contexts that the two key schedules filled with one key.\<close>

definition keyed :: "weeny_aes_context \<times> weeny_aes_context \<Rightarrow> bool" where
  "keyed = (\<lambda>(e, d). \<exists>keysize key. enc_ready keysize key e \<and> dec_ready keysize key d)"

definition ecb_E :: "weeny_aes_context \<times> weeny_aes_context \<Rightarrow> u8 list \<Rightarrow> u8 list" where
  "ecb_E = (\<lambda>(e, d) b. the (weeny_aes_crypt_ecb rom_tables e False b))"

definition ecb_D :: "weeny_aes_context \<times> weeny_aes_context \<Rightarrow> u8 list \<Rightarrow> u8 list" where
  "ecb_D = (\<lambda>(e, d) b. the (weeny_aes_crypt_ecb rom_tables d True b))"

interpretation aes: block_cipher ecb_E ecb_D keyed
proof
  fix k and b :: "u8 list"
  assume "keyed k" "length b = 16"
  then obtain e d keysize key where k: "k = (e, d)" "enc_ready keysize key e" "dec_ready keysize key d"
    by (auto simp: keyed_def)
  show "length (ecb_E k b) = 16" "ecb_D k (ecb_E k b) = b"
    using ecb_enc(1) [OF k(2) \<open>length b = 16\<close>] ecb_dec [OF k(2,3) \<open>length b = 16\<close>] k(1)
    by (simp_all add: ecb_E_def ecb_D_def)
qed

lemma dec_block:
  assumes "dec_ready keysize key d" "length c = 16"
  shows "\<exists>b. weeny_aes_crypt_ecb rom_tables d True c = Some b \<and> length b = 16"
proof -
  obtain e' where e': "enc_ready keysize key e'" "nr e' = nr d" "rk_set d" "length (rk_buf d) = 68"
    using assms(1) by (auto simp: dec_ready_def)
  obtain h where h: "nr d = 2 * h + 2" "4 * (2 * h + 2 + 1) \<le> 68"
    using even_rounds [of keysize "nr d"] e'(1,2) unfolding enc_ready_def by auto
  show ?thesis
    using crypt_eq [of d h c rom_tables True] e' h assms(2) by simp
qed

declare cbc_loop.simps [simp del]

text \<open>The loop of the code works through the blocks of the buffers.\<close>

lemma load_block:
  assumes "drop p input = b @ rest" "length b = 16" "p \<le> length input"
  shows "mem_load input p 16 = Some b" "drop (p + 16) input = rest" "p + 16 \<le> length input"
proof -
  have "length input - p = 16 + length rest"
    using arg_cong [OF assms(1), of length] assms(2) by simp
  then show l: "p + 16 \<le> length input"
    using assms(3) by linarith
  show "mem_load input p 16 = Some b"
    using l assms(1,2) by simp
  have "drop (p + 16) input = drop 16 (drop p input)"
    by (simp add: add.commute)
  then show "drop (p + 16) input = rest"
    using assms(1,2) by simp
qed

lemma cbc_loop_step:
  assumes "0 < len" "drop p input = b @ rest" "length b = 16" "p \<le> length input" "p + 16 \<le> length out"
    "(if dec then map_option (\<lambda>x. (b, xor_bytes x iv)) (weeny_aes_crypt_ecb t ctx True b)
      else map_option (\<lambda>x. (x, x)) (weeny_aes_crypt_ecb t ctx False (xor_bytes b iv))) = Some (iv', c)" "length c = 16"
  shows "cbc_loop t ctx dec len p iv input out = cbc_loop t ctx dec (len - 16) (p + 16) iv' input (take p out @ c @ drop (p + 16) out)"
proof -
  have "mem_store out p c = Some (take p out @ c @ drop (p + 16) out)"
    using assms(5,7) by simp
  then show ?thesis
    using assms(1,6) load_block(1) [OF assms(2-4)] by (subst cbc_loop.simps) (simp split del: if_split)
qed

lemma cbc_loop_blocks:
  assumes "\<forall>b \<in> set bs. length b = 16" "length iv = 16" "drop p input = concat bs @ rest" "p \<le> length input"
    "p + 16 * length bs \<le> length out"
    "\<And>b iv. length b = 16 \<Longrightarrow> length iv = 16 \<Longrightarrow> (if dec then map_option (\<lambda>x. (b, xor_bytes x iv)) (weeny_aes_crypt_ecb t ctx True b)
      else map_option (\<lambda>x. (x, x)) (weeny_aes_crypt_ecb t ctx False (xor_bytes b iv))) = Some (g b iv, f b iv) \<and> length (f b iv) = 16
      \<and> length (g b iv) = 16"
    "\<And>iv. h iv [] = []" "\<And>b bs iv. h iv (b # bs) = f b iv # h (g b iv) bs"
  shows "\<exists>iv'. length iv' = 16 \<and> cbc_loop t ctx dec (16 * int (length bs)) p iv input out =
    Some (iv', take p out @ concat (h iv bs) @ drop (p + 16 * length bs) out)"
  using assms(1-5)
proof (induction bs arbitrary: iv p out)
  case Nil
  then show ?case
    using assms(7) by (subst cbc_loop.simps) simp
next
  case (Cons b bs)
  have b: "length b = 16" "drop p input = b @ concat bs @ rest"
    using Cons.prems by simp_all
  note s = assms(6) [OF b(1) Cons.prems(2)]
  note l = load_block [OF b(2,1) Cons.prems(4)]
  let ?out = "take p out @ f b iv @ drop (p + 16) out"
  have "cbc_loop t ctx dec (16 * int (length (b # bs))) p iv input out = cbc_loop t ctx dec (16 * int (length bs)) (p + 16) (g b iv) input ?out"
    using cbc_loop_step [OF _ b(2,1) Cons.prems(4) _ conjunct1 [OF s]] s Cons.prems(5) by simp
  moreover obtain iv' where "length iv' = 16" "cbc_loop t ctx dec (16 * int (length bs)) (p + 16) (g b iv) input ?out =
      Some (iv', take (p + 16) ?out @ concat (h (g b iv) bs) @ drop (p + 16 + 16 * length bs) ?out)"
  proof -
    have "\<exists>iv'. length iv' = 16 \<and> cbc_loop t ctx dec (16 * int (length bs)) (p + 16) (g b iv) input ?out =
      Some (iv', take (p + 16) ?out @ concat (h (g b iv) bs) @ drop (p + 16 + 16 * length bs) ?out)"
      by (rule Cons.IH) (use Cons.prems s l in auto)
    then show thesis
      using that by blast
  qed
  moreover have "take (p + 16) ?out = take p out @ f b iv" "drop (p + 16 + 16 * length bs) ?out = drop (p + 16 * length (b # bs)) out"
    using Cons.prems(5) s by (simp_all add: ac_simps)
  ultimately show ?case
    by (simp add: assms(8))
qed

text \<open>Buffers of whole blocks.\<close>

fun chunks16 :: "nat \<Rightarrow> u8 list \<Rightarrow> u8 list list" where
  "chunks16 0 xs = []"
| "chunks16 (Suc m) xs = take 16 xs # chunks16 m (drop 16 xs)"

lemma chunks16_parts:
  "length xs = 16 * m \<Longrightarrow> concat (chunks16 m xs) = xs \<and> length (chunks16 m xs) = m \<and> (\<forall>b \<in> set (chunks16 m xs). length b = 16)"
proof (induction m arbitrary: xs)
  case (Suc m)
  show ?case
    using Suc.IH [of "drop 16 xs"] Suc.prems by simp
qed simp

lemma chunks16_concat: "\<forall>b \<in> set bs. length b = 16 \<Longrightarrow> chunks16 (length bs) (concat bs) = bs"
  by (induction bs) simp_all

lemma sum_list_const16: "\<forall>b \<in> set bs. length b = 16 \<Longrightarrow> sum_list (map length bs) = 16 * length bs"
  by (induction bs) simp_all

lemma cbc_enc_run:
  assumes "enc_ready keysize key e" "length bs = 16 * m" "16 \<le> length iv" "length out = length bs"
  shows "\<exists>iv'. weeny_aes_crypt_cbc rom_tables e False (int (length bs)) iv bs out =
    Some (iv', concat (cbc_enc (enc_block (rk_buf e) (nr e)) (take 16 iv) (chunks16 m bs)))"
proof (cases "m = 0")
  case True
  then show ?thesis
    using assms(2,4) by (simp add: weeny_aes_crypt_cbc_def)
next
  case False
  note c = chunks16_parts [OF assms(2)]
  have "\<exists>iv'. length iv' = 16 \<and> cbc_loop rom_tables e False (16 * int (length (chunks16 m bs))) 0 (take 16 iv) bs out =
    Some (iv', take 0 out @ concat (cbc_enc (enc_block (rk_buf e) (nr e)) (take 16 iv) (chunks16 m bs)) @
      drop (0 + 16 * length (chunks16 m bs)) out)"
    by (rule cbc_loop_blocks [where rest = "[]" and f = "\<lambda>b iv. enc_block (rk_buf e) (nr e) (xor_bytes b iv)"
          and g = "\<lambda>b iv. enc_block (rk_buf e) (nr e) (xor_bytes b iv)"])
      (use c assms in \<open>auto simp: Let_def ecb_enc(1) [OF assms(1)]\<close>)
  then show ?thesis
    using False c assms(2-4) by (auto simp: weeny_aes_crypt_cbc_def)
qed

lemma cbc_dec_run:
  assumes "dec_ready keysize key d" "length bs = 16 * m" "16 \<le> length iv" "length out = length bs"
  shows "\<exists>iv'. weeny_aes_crypt_cbc rom_tables d True (int (length bs)) iv bs out =
    Some (iv', concat (cbc_dec (\<lambda>b. the (weeny_aes_crypt_ecb rom_tables d True b)) (take 16 iv) (chunks16 m bs)))"
proof (cases "m = 0")
  case True
  then show ?thesis
    using assms(2,4) by (simp add: weeny_aes_crypt_cbc_def)
next
  case False
  note c = chunks16_parts [OF assms(2)]
  have "\<exists>iv'. length iv' = 16 \<and> cbc_loop rom_tables d True (16 * int (length (chunks16 m bs))) 0 (take 16 iv) bs out =
    Some (iv', take 0 out @ concat (cbc_dec (\<lambda>b. the (weeny_aes_crypt_ecb rom_tables d True b)) (take 16 iv) (chunks16 m bs)) @
      drop (0 + 16 * length (chunks16 m bs)) out)"
    by (rule cbc_loop_blocks [where rest = "[]" and f = "\<lambda>b iv. xor_bytes (the (weeny_aes_crypt_ecb rom_tables d True b)) iv"
          and g = "\<lambda>b iv. b"])
      (use c assms dec_block [OF assms(1)] in \<open>fastforce+\<close>)
  then show ?thesis
    using False c assms(2-4) by (auto simp: weeny_aes_crypt_cbc_def)
qed

lemma cbc_there_and_back:
  assumes "enc_ready keysize key e" "dec_ready keysize key d" "length data = 16 * m" "16 \<le> length iv"
    "length out = length data" "length out' = length data"
  shows "\<exists>c iv1 iv2. weeny_aes_crypt_cbc rom_tables e False (int (length data)) iv data out = Some (iv1, c) \<and>
    c = concat (cbc_enc (fips_cipher (key_words keysize) (take (4 * key_words keysize) key)) (take 16 iv) (chunks16 m data)) \<and>
    weeny_aes_crypt_cbc rom_tables d True (int (length data)) iv c out' = Some (iv2, data)"
proof -
  have k: "keyed (e, d)"
    using assms(1,2) by (auto simp: keyed_def)
  note c = chunks16_parts [OF assms(3)]
  have iv: "length (take 16 iv) = 16"
    using assms(4) by simp
  let ?F = "fips_cipher (key_words keysize) (take (4 * key_words keysize) key)"
  have E: "cbc_enc f v bs = cbc_enc (ecb_E (e, d)) v bs"
    if "\<forall>b \<in> set bs. length b = 16" "length v = 16" "\<And>b. length b = 16 \<Longrightarrow> f b = ecb_E (e, d) b" for f v bs
    using that(1,2) by (induction bs arbitrary: v) (simp_all add: that(3) Let_def aes.E_length [OF k])
  have eb: "ecb_E (e, d) b = enc_block (rk_buf e) (nr e) b" "ecb_E (e, d) b = ?F b" if "length b = 16" for b
    using ecb_enc [OF assms(1) that] by (simp_all add: ecb_E_def)
  let ?cs = "cbc_enc (ecb_E (e, d)) (take 16 iv) (chunks16 m data)"
  have cs: "length ?cs = m" "\<forall>b \<in> set ?cs. length b = 16"
    using aes.cbc_enc_blocks [OF k iv] c by auto
  have lc: "length (concat ?cs) = length data" "chunks16 m (concat ?cs) = ?cs"
    using chunks16_concat [OF cs(2)] cs assms(3) sum_list_const16 [OF cs(2)] by (simp_all add: length_concat)
  obtain iv1 where 1: "weeny_aes_crypt_cbc rom_tables e False (int (length data)) iv data out = Some (iv1, concat ?cs)"
    using cbc_enc_run [OF assms(1,3,4,5)] E [of "chunks16 m data" "take 16 iv" "enc_block (rk_buf e) (nr e)"] c iv eb(1) by auto
  have "ecb_D (e, d) = (\<lambda>b. the (weeny_aes_crypt_ecb rom_tables d True b))"
    by (simp add: ecb_D_def)
  then obtain iv2 where "weeny_aes_crypt_cbc rom_tables d True (int (length data)) iv (concat ?cs) out' = Some (iv2, data)"
    using cbc_dec_run [OF assms(2), of "concat ?cs" m iv out'] assms(3,4,6) lc aes.cbc_inverse [OF k iv] c by auto
  moreover have "cbc_enc ?F (take 16 iv) (chunks16 m data) = ?cs"
    using E [of "chunks16 m data" "take 16 iv" ?F] c iv eb(2) by auto
  ultimately show ?thesis
    using 1 by simp
qed

subsection \<open>Feedback\<close>

lemma cfb_byte_total:
  assumes "enc_ready keysize key e" "n < 16" "16 \<le> length iv"
  shows "\<exists>x n' iv'. cfb_byte rom_tables e dec c (n, iv) = Some (x, n', iv') \<and> n' < 16 \<and> length iv' = length iv"
proof -
  define blk where "blk = enc_block (rk_buf e) (nr e) iv"
  have b: "weeny_aes_crypt_ecb rom_tables e False iv = Some blk" "length blk = 16"
    using ecb_enc_some [OF assms(1,3)] by (simp_all add: blk_def)
  define iv1 where "iv1 = (if n = 0 then blk @ drop 16 iv else iv)"
  have l: "length iv1 = length iv" "n < length iv1" "iv \<noteq> []"
    using b(2) assms(2,3) by (auto simp: iv1_def)
  have "(if n = 0 then map_option (\<lambda>b. b @ drop 16 iv) (weeny_aes_crypt_ecb rom_tables e False iv) else Some iv) = Some iv1"
    by (simp add: b(1) iv1_def)
  then show ?thesis
    using l mem_byte_Some [OF l(2)] by (simp add: cfb_byte_def)
qed

text \<open>The feedback is the encrypted byte on both sides, so the states stay the same.\<close>

lemma cfb_byte_inverse:
  "cfb_byte t e False c s = Some (x, s') \<Longrightarrow> cfb_byte t e True x s = Some (c, s')"
  by (cases s) (auto simp: cfb_byte_def xor.assoc xor.commute split: bind_splits if_splits)

lemma cfb_loop_inverse:
  "cfb_loop t e False cs s = Some (xs, s') \<Longrightarrow> cfb_loop t e True xs s = Some (cs, s')"
  by (induction cs arbitrary: s xs) (auto split: bind_splits dest!: cfb_byte_inverse)

lemma cfb_loop_total:
  assumes "enc_ready keysize key e" "n < 16" "16 \<le> length iv"
  shows "\<exists>xs n' iv'. cfb_loop rom_tables e dec cs (n, iv) = Some (xs, n', iv') \<and> length xs = length cs \<and> n' < 16 \<and> length iv' = length iv"
  using assms(2,3)
proof (induction cs arbitrary: n iv)
  case (Cons c cs)
  obtain x n1 iv1 where 1: "cfb_byte rom_tables e dec c (n, iv) = Some (x, n1, iv1)" "n1 < 16" "length iv1 = length iv"
    using cfb_byte_total [OF assms(1) Cons.prems, of dec c] by blast
  obtain xs n2 iv2 where "cfb_loop rom_tables e dec cs (n1, iv1) = Some (xs, n2, iv2)" "length xs = length cs" "n2 < 16"
    "length iv2 = length iv1"
    using Cons.IH [of n1 iv1] 1 Cons.prems(2) by auto
  then show ?case
    using 1 by simp
qed simp

lemma cfb_loop_append:
  "cfb_loop t e dec (xs @ ys) s = do { (as, s1) \<leftarrow> cfb_loop t e dec xs s; (bs, s2) \<leftarrow> cfb_loop t e dec ys s1; Some (as @ bs, s2) }"
  by (induction xs arbitrary: s) (auto split: bind_splits)

subsection \<open>Tables that were never computed\<close>

lemma zero_box: "FSb t = replicate 256 0 \<Longrightarrow> sub4 (FSb t) (byte0 a) (byte1 b) (byte2 c) (byte3 d) = 0"
  by (simp add: sub4_def byte_b unat_u8)

lemma zero_tables_constant:
  assumes "FSb t = replicate 256 0"
  shows "last_fround t rk p x = K rk p"
  using zero_box [OF assms] by (cases x) (simp add: last_fround_def K_def)

lemma length_xor_words: "length (xor_words n p a b rk) = length rk"
proof -
  have "length (fold (\<lambda>k rk. rk[p + k := rk ! (p + k - n) XOR rk ! (p + k - 1)]) ks rk) = length rk" for ks
    by (induction ks arbitrary: rk) simp_all
  then show ?thesis
    by (simp add: xor_words_def)
qed

lemma fold_length: "(\<And>i xs. length (f i xs) = length xs) \<Longrightarrow> length (fold f is xs) = length xs"
  by (induction "is" arbitrary: xs) simp_all

lemma length_expand: "length (expand t n rk) = length rk"
  by (simp add: expand_def fold_length expand10_def expand12_def expand14_def Let_def length_xor_words)

subsection \<open>Properties\<close>

text \<open>An example: a context with unknown contents, the key and the block of FIPS 197, appendix C.\<close>

definition raw_ctx :: weeny_aes_context where
  "raw_ctx = \<lparr>nr = 0, rk_set = False, rk_buf = replicate 68 7\<rparr>"

definition any_block :: "((nat \<Rightarrow> u32) \<times> (nat \<Rightarrow> u32)) option" where
  "any_block = Some (\<lambda>i. 5, \<lambda>i. 9)"

definition key16 :: "u8 list" where "key16 = [0, 1, 2, 3, 4, 5, 6, 7, 8, 9, 10, 11, 12, 13, 14, 15]"
definition block16 :: "u8 list" where
  "block16 = [0x00, 0x11, 0x22, 0x33, 0x44, 0x55, 0x66, 0x77, 0x88, 0x99, 0xAA, 0xBB, 0xCC, 0xDD, 0xEE, 0xFF]"

lemma example_ready: "tables_ready any_block aes_boot" "key_rounds 128 = Some 10" "4 * key_words 128 \<le> length key16"
  "length (rk_buf raw_ctx) = 68" "length block16 = 16"
  by (simp_all add: tables_ready_def any_block_def key_rounds_def key_words_def key16_def raw_ctx_def block16_def)

text \<open>C12: The code is AES.  With a key of 128, 192 or 256 bits, a context with any contents, and tables that are
  computed now or were before, the key schedule succeeds and encrypting a block gives what the cipher of FIPS 197 gives,
  with its expansion of the key, \<open>SubBytes\<close>, \<open>ShiftRows\<close>, \<open>MixColumns\<close> and \<open>AddRoundKey\<close>.\<close>

theorem aes_is_fips197:
  assumes "tables_ready tmp t" "key_rounds keysize = Some n" "4 * key_words keysize \<le> length key" "length (rk_buf ctx) = 68"
    "length p = 16"
  shows "\<exists>ctx1. weeny_aes_setkey_enc tmp ctx key keysize t = Some (ctx1, rom_tables) \<and>
    weeny_aes_crypt_ecb rom_tables ctx1 False p = Some (fips_cipher (key_words keysize) (take (4 * key_words keysize) key) p)"
proof -
  obtain ctx1 where "weeny_aes_setkey_enc tmp ctx key keysize t = Some (ctx1, rom_tables)" "enc_ready keysize key ctx1"
    using setkey_enc_ready [OF assms(1-4)] by blast
  then show ?thesis
    using ecb_enc [OF _ assms(5)] by auto
qed

lemma aes_is_fips197_witness:
  "\<exists>ctx1. weeny_aes_setkey_enc any_block raw_ctx key16 128 aes_boot = Some (ctx1, rom_tables) \<and>
    weeny_aes_crypt_ecb rom_tables ctx1 False block16 = Some (fips_cipher 4 key16 block16)"
  using aes_is_fips197 [OF example_ready] by (simp add: key_words_def key16_def)

text \<open>The two directions are inverse bijections of the blocks: with contexts filled from the same key by the two
  key schedules, whatever they contained, decrypting the encryption of any block gives the block, and encrypting its
  decryption gives it too.\<close>

theorem aes_block_roundtrip:
  assumes "tables_ready tmp t" "key_rounds keysize = Some n" "4 * key_words keysize \<le> length key" "length (rk_buf ctx) = 68"
    "length (rk_buf cty) = 68" "length (rk_buf ctx') = 68" "length p = 16"
  shows "\<exists>e d c q. weeny_aes_setkey_enc tmp ctx key keysize t = Some (e, rom_tables) \<and>
    weeny_aes_setkey_dec tmp cty ctx' key keysize t = Some (d, rom_tables) \<and>
    weeny_aes_crypt_ecb rom_tables e False p = Some c \<and> weeny_aes_crypt_ecb rom_tables d True c = Some p \<and>
    weeny_aes_crypt_ecb rom_tables d True p = Some q \<and> weeny_aes_crypt_ecb rom_tables e False q = Some p"
proof -
  obtain e where e: "weeny_aes_setkey_enc tmp ctx key keysize t = Some (e, rom_tables)" "enc_ready keysize key e"
    using setkey_enc_ready [OF assms(1-4)] by blast
  obtain d where d: "weeny_aes_setkey_dec tmp cty ctx' key keysize t = Some (d, rom_tables)" "dec_ready keysize key d"
    using setkey_dec_ready [OF assms(1-3,5,6)] by blast
  obtain q where q: "weeny_aes_crypt_ecb rom_tables d True p = Some q" "length q = 16"
    using dec_block [OF d(2) assms(7)] by blast
  have "keyed (e, d)"
    using e(2) d(2) by (auto simp: keyed_def)
  then have "weeny_aes_crypt_ecb rom_tables e False q = Some p"
    using aes.E_D(2) [of "(e, d)" p] assms(7) q ecb_enc(1) [OF e(2) q(2)] by (simp add: ecb_E_def ecb_D_def)
  then show ?thesis
    using e d q ecb_enc(1) [OF e(2) assms(7)] ecb_dec [OF e(2) d(2) assms(7)] by auto
qed

lemma aes_block_roundtrip_witness:
  "\<exists>e d c q. weeny_aes_setkey_enc any_block raw_ctx key16 128 aes_boot = Some (e, rom_tables) \<and>
    weeny_aes_setkey_dec any_block raw_ctx raw_ctx key16 128 aes_boot = Some (d, rom_tables) \<and>
    weeny_aes_crypt_ecb rom_tables e False block16 = Some c \<and> weeny_aes_crypt_ecb rom_tables d True c = Some block16 \<and>
    weeny_aes_crypt_ecb rom_tables d True block16 = Some q \<and> weeny_aes_crypt_ecb rom_tables e False q = Some block16"
  by (rule aes_block_roundtrip [OF example_ready(1-4,4,4,5)])

text \<open>C34: Buffers of whole blocks come back from the chaining mode: encrypting and then decrypting with the same
  key and start block returns the data, and each block of the encryption is the encryption of the data's block combined
  with the block before it.\<close>

theorem aes_cbc_roundtrip:
  assumes "enc_ready keysize key e" "dec_ready keysize key d" "length data = 16 * m" "16 \<le> length iv"
    "length out = length data" "length out' = length data"
  shows "\<exists>c iv1 iv2. weeny_aes_crypt_cbc rom_tables e False (int (length data)) iv data out = Some (iv1, c) \<and>
    c = concat (cbc_enc (fips_cipher (key_words keysize) (take (4 * key_words keysize) key)) (take 16 iv) (chunks16 m data)) \<and>
    weeny_aes_crypt_cbc rom_tables d True (int (length data)) iv c out' = Some (iv2, data)"
  by (rule cbc_there_and_back [OF assms])

lemma example_keyed:
  "\<exists>e d. enc_ready 128 key16 e \<and> dec_ready 128 key16 d"
  using setkey_enc_ready [OF example_ready(1-4)] setkey_dec_ready [OF example_ready(1-4,4)] by blast

lemma aes_cbc_roundtrip_witness:
  "\<exists>e d c iv1 iv2. weeny_aes_crypt_cbc rom_tables e False 32 (key16 @ [0]) (block16 @ key16) (replicate 32 1) = Some (iv1, c) \<and>
    c = concat (cbc_enc (fips_cipher 4 key16) key16 [block16, key16]) \<and>
    weeny_aes_crypt_cbc rom_tables d True 32 (key16 @ [0]) c (replicate 32 2) = Some (iv2, block16 @ key16)"
proof -
  obtain e d where "enc_ready 128 key16 e" "dec_ready 128 key16 d"
    using example_keyed by blast
  moreover have "chunks16 2 (block16 @ key16) = [block16, key16]"
    by (simp add: numeral_2_eq_2 block16_def key16_def)
  ultimately show ?thesis
    using aes_cbc_roundtrip [of 128 key16 e d "block16 @ key16" 2 "key16 @ [0]" "replicate 32 1" "replicate 32 2"]
    by (fastforce simp: key_words_def key16_def block16_def)
qed

text \<open>C35: The feedback mode takes data of any length, and the receiver may cut it differently.  Data encrypted in one
  call, from any position in the feedback block, come back when the encryption is decrypted in two calls that pass the
  position and the block on, wherever it is cut.\<close>

theorem aes_cfb_roundtrip:
  assumes "enc_ready keysize key e" "n < 16" "16 \<le> length iv" "length out = length xs + length ys"
    "length out1 = length xs" "length out2 = length ys"
  shows "\<exists>c n1 iv1 n2 iv2.
    weeny_aes_crypt_cfb128 rom_tables e False (int (length xs + length ys)) n iv (xs @ ys) out = Some (n2, iv2, c) \<and>
    weeny_aes_crypt_cfb128 rom_tables e True (int (length xs)) n iv (take (length xs) c) out1 = Some (n1, iv1, xs) \<and>
    weeny_aes_crypt_cfb128 rom_tables e True (int (length ys)) n1 iv1 (drop (length xs) c) out2 = Some (n2, iv2, ys)"
proof -
  obtain as n1 iv1 where a: "cfb_loop rom_tables e False xs (n, iv) = Some (as, n1, iv1)" "length as = length xs" "n1 < 16"
    "length iv1 = length iv"
    using cfb_loop_total [OF assms(1-3)] by metis
  obtain bs n2 iv2 where b: "cfb_loop rom_tables e False ys (n1, iv1) = Some (bs, n2, iv2)" "length bs = length ys"
    using cfb_loop_total [OF assms(1) a(3), of iv1 False ys] assms(3) a(4) by auto
  have "cfb_loop rom_tables e False (xs @ ys) (n, iv) = Some (as @ bs, n2, iv2)"
    by (simp add: cfb_loop_append a(1) b(1))
  then show ?thesis
    using cfb_loop_inverse [OF a(1)] cfb_loop_inverse [OF b(1)] a(2) b(2) assms(4-6)
    by (simp add: weeny_aes_crypt_cfb128_def nat_int_add)
qed

lemma aes_cfb_roundtrip_witness:
  "\<exists>e c n1 iv1 n2 iv2.
    weeny_aes_crypt_cfb128 rom_tables e False 3 15 block16 [1, 2, 3] (replicate 3 0) = Some (n2, iv2, c) \<and>
    weeny_aes_crypt_cfb128 rom_tables e True 1 15 block16 (take 1 c) [0] = Some (n1, iv1, [1]) \<and>
    weeny_aes_crypt_cfb128 rom_tables e True 2 n1 iv1 (drop 1 c) [0, 0] = Some (n2, iv2, [2, 3])"
proof -
  obtain e where e: "enc_ready 128 key16 e"
    using example_keyed by blast
  show ?thesis
    by (rule exI [of _ e])
      (use aes_cfb_roundtrip [OF e, of 15 block16 "replicate 3 0" "[1]" "[2, 3]" "[0]" "[0, 0]"] in \<open>simp add: block16_def\<close>)
qed

text \<open>C36: When the allocation at the first use fails, the module encrypts every block to the same sixteen bytes, and
  does so for ever: the key schedule reports nothing, marks the tables as computed, and they stay all zero, so a later
  key schedule with memory to spare keeps them.\<close>

theorem aes_without_memory:
  assumes "key_rounds keysize = Some n" "4 * key_words keysize \<le> length key" "length (rk_buf ctx) = 68"
  shows "\<exists>ctx1 t1. weeny_aes_setkey_enc None ctx key keysize aes_boot = Some (ctx1, t1) \<and>
    (\<exists>c. \<forall>p \<in> {p. length p = 16}. weeny_aes_crypt_ecb t1 ctx1 False p = Some c) \<and>
    (\<exists>ctx2. weeny_aes_setkey_enc tmp ctx key keysize t1 = Some (ctx2, t1))"
proof -
  let ?t = "aes_boot\<lparr>aes_init_done := True\<rparr>"
  let ?rk = "fold (\<lambda>i rk. rk[i := get32 (take (4 * key_words keysize) key) (4 * i)]) [0..<key_words keysize] (rk_buf ctx)"
  let ?c = "ctx\<lparr>nr := n, rk_set := True, rk_buf := expand ?t n ?rk\<rparr>"
  have nk: "nat keysize div 8 = 4 * key_words keysize"
    by (rule key_rounds_cases [OF assms(1)]; simp add: key_words_def)
  have g: "aes_gen_tables None aes_boot = aes_boot" "\<not> aes_init_done aes_boot"
    by (simp_all add: aes_gen_tables_def aes_boot_def)
  have s: "weeny_aes_setkey_enc None ctx key keysize aes_boot = Some (?c, ?t)" "weeny_aes_setkey_enc tmp ctx key keysize ?t = Some (?c, ?t)"
    using assms(1,2) nk g by (simp_all add: weeny_aes_setkey_enc_def key_words_def Let_def)
  obtain h where h: "n = 2 * h + 2" "4 * (2 * h + 2 + 1) \<le> 68"
    using even_rounds [OF assms(1)] by blast
  have "weeny_aes_crypt_ecb ?t ?c False p = Some (put_state (K (rk_buf ?c) (4 * n)))" if "p \<in> {p. length p = 16}" for p
    using crypt_eq [of ?c h p ?t False] that h assms(3) zero_tables_constant [of ?t] length_expand [of ?t n ?rk]
    by (simp add: aes_boot_def fold_update_length)
  then show ?thesis
    using s by blast
qed

lemma aes_without_memory_witness:
  "\<exists>ctx1 t1. weeny_aes_setkey_enc None raw_ctx key16 128 aes_boot = Some (ctx1, t1) \<and>
    (\<exists>c. \<forall>p \<in> {p. length p = 16}. weeny_aes_crypt_ecb t1 ctx1 False p = Some c) \<and>
    (\<exists>ctx2. weeny_aes_setkey_enc any_block raw_ctx key16 128 t1 = Some (ctx2, t1))"
  by (rule aes_without_memory [OF example_ready(2-4)])

end
