(* ===== verification/FastConnect.thy ===== *)
theory FastConnect
  imports AesModes NetParam
begin

text \<open>
  The information about the last connection, of \<open>func/wlan_ui/wlan_ui.c\<close>: it is encrypted with one of the methods of
  \<open>soft_encrypt.c\<close>, kept in the first sector of the partition \<open>BK_PARTITION_NET_PARAM\<close>, and decides at the
  next start whether the station skips the scan.

  The structure \<open>wlan_fast_connect_info\<close> is its bytes, and their number is its size, which the attribute on the last
  member makes a multiple of 16 for AES.  The locals of a call come with the contents they have before they are set.
  The methods are compiled in or out; the model takes them as an argument.
\<close>

subsection \<open>Encryption\<close>

datatype enc_method = ENC_METHOD_NULL | ENC_METHOD_XOR | ENC_METHOD_AES

definition BK_TINY_AES_IV :: "u8 list" where "BK_TINY_AES_IV = cstr ''0123456789ABCEEF''"
definition BK_TINY_AES_KEY :: "u8 list" where "BK_TINY_AES_KEY = cstr ''0123456789ABCEEF0123456789ABCDEF''"

text \<open>The variables of \<open>soft_encrypt.c\<close>, and the locals of a call: the contexts, the block that an allocation of
  \<open>aes_gen_tables\<close> returns, and \<open>tmp_out\<close>.\<close>

record crypt_state =
  cr_tables :: aes_tables
  cr_key_id :: u32

record crypt_locals =
  lc_ctx :: weeny_aes_context
  lc_cty :: weeny_aes_context
  lc_block :: "((nat \<Rightarrow> u32) \<times> (nat \<Rightarrow> u32)) option"
  lc_tmp_out :: "u8 list"

definition fc_info_enc_xor :: "crypt_locals \<Rightarrow> u8 list \<Rightarrow> crypt_state \<Rightarrow> (u8 list \<times> crypt_state) option" where
  "fc_info_enc_xor l fci s =
     do {
       (tmp_out, k) \<leftarrow> xor_enc fci (lc_tmp_out l) (int (length fci)) (cr_key_id s);
       Some (tmp_out, s\<lparr>cr_key_id := k\<rparr>) }"

definition fc_info_dec_xor :: "crypt_locals \<Rightarrow> u8 list \<Rightarrow> crypt_state \<Rightarrow> (u8 list \<times> crypt_state) option" where
  "fc_info_dec_xor l fci s =
     do {
       (tmp_out, k) \<leftarrow> xor_dec fci (lc_tmp_out l) (int (length fci)) (cr_key_id s);
       Some (tmp_out, s\<lparr>cr_key_id := k\<rparr>) }"

definition fc_info_enc_aes :: "crypt_locals \<Rightarrow> u8 list \<Rightarrow> crypt_state \<Rightarrow> (u8 list \<times> crypt_state) option" where
  "fc_info_enc_aes l fci s =
     do {
       (ctx, t) \<leftarrow> weeny_aes_setkey_enc (lc_block l) (lc_ctx l) (BK_TINY_AES_KEY @ [0]) 256 (cr_tables s);
       (iv, tmp_out) \<leftarrow> weeny_aes_crypt_cbc t ctx False (int (length fci)) (BK_TINY_AES_IV @ [0]) fci (replicate (length fci) 0);
       Some (tmp_out, s\<lparr>cr_tables := t\<rparr>) }"

definition fc_info_dec_aes :: "crypt_locals \<Rightarrow> u8 list \<Rightarrow> crypt_state \<Rightarrow> (u8 list \<times> crypt_state) option" where
  "fc_info_dec_aes l fci s =
     do {
       (ctx, t) \<leftarrow> weeny_aes_setkey_dec (lc_block l) (lc_cty l) (lc_ctx l) (BK_TINY_AES_KEY @ [0]) 256 (cr_tables s);
       (iv, tmp_out) \<leftarrow> weeny_aes_crypt_cbc t ctx True (int (length fci)) (BK_TINY_AES_IV @ [0]) fci (replicate (length fci) 0);
       Some (tmp_out, s\<lparr>cr_tables := t\<rparr>) }"

text \<open>The setting selects the pair of functions; without encryption their calls are left out.\<close>

definition fc_info_enc :: "enc_method \<Rightarrow> crypt_locals \<Rightarrow> u8 list \<Rightarrow> crypt_state \<Rightarrow> (u8 list \<times> crypt_state) option" where
  "fc_info_enc mth l fci s =
     (case mth of
        ENC_METHOD_NULL \<Rightarrow> Some (fci, s)
      | ENC_METHOD_XOR \<Rightarrow> fc_info_enc_xor l fci s
      | ENC_METHOD_AES \<Rightarrow> fc_info_enc_aes l fci s)"

definition fc_info_dec :: "enc_method \<Rightarrow> crypt_locals \<Rightarrow> u8 list \<Rightarrow> crypt_state \<Rightarrow> (u8 list \<times> crypt_state) option" where
  "fc_info_dec mth l fci s =
     (case mth of
        ENC_METHOD_NULL \<Rightarrow> Some (fci, s)
      | ENC_METHOD_XOR \<Rightarrow> fc_info_dec_xor l fci s
      | ENC_METHOD_AES \<Rightarrow> fc_info_dec_aes l fci s)"

subsection \<open>In the flash\<close>

definition wlan_read_fast_connect_info ::
  "enc_method \<Rightarrow> part_table \<Rightarrow> crypt_locals \<Rightarrow> nat \<Rightarrow> flash_dev \<Rightarrow> crypt_state \<Rightarrow> (u8 list \<times> crypt_state) option" where
  "wlan_read_fast_connect_info mth pt l n d s =
     (let (fci, _) = bk_flash_read pt d BK_PARTITION_NET_PARAM 0 (of_nat n) in fc_info_dec mth l fci s)"

text \<open>\<open>pre_fci\<close> says whether the allocation succeeds, \<open>l1\<close> and \<open>l2\<close> are the locals of decryption and encryption.  The
  result is the caller's structure, which the call may change, and the flash.\<close>

definition wlan_write_fast_connect_info ::
  "enc_method \<Rightarrow> part_table \<Rightarrow> bool \<Rightarrow> crypt_locals \<Rightarrow> crypt_locals \<Rightarrow> u8 list \<Rightarrow> flash_dev \<Rightarrow> crypt_state
     \<Rightarrow> (u8 list \<times> flash_dev \<times> crypt_state) option" where
  "wlan_write_fast_connect_info mth pt pre_fci l1 l2 fci d s =
     (if \<not> pre_fci then Some (fci, d, s)
      else do {
        (pre, s) \<leftarrow> wlan_read_fast_connect_info mth pt l1 (length fci) d s;
        if pre = fci then Some (fci, d, s)
        else do {
          (d, protect_flag) \<leftarrow> bk_flash_get_security d;
          d \<leftarrow> bk_flash_enable_security d FLASH_PROTECT_NONE;
          (d, _) \<leftarrow> bk_flash_erase pt d BK_PARTITION_NET_PARAM 0 4096;
          (fci, s) \<leftarrow> fc_info_enc mth l2 fci s;
          (d, _) \<leftarrow> bk_flash_write pt d BK_PARTITION_NET_PARAM 0 (Some fci) (of_nat (length fci));
          d \<leftarrow> bk_flash_enable_security d protect_flag;
          Some (fci, d, s) } })"

subsection \<open>At the next start\<close>

text \<open>\<open>strlen\<close> and \<open>strcmp\<close> that find no end of the string in the bytes they are given are \<open>None\<close>.\<close>

definition str_len :: "u8 list \<Rightarrow> nat option" where
  "str_len bs = (if 0 \<in> set bs then Some (c_strlen bs) else None)"

fun str_same :: "u8 list \<Rightarrow> u8 list \<Rightarrow> bool option" where
  "str_same (a # as) (b # bs) = (if a \<noteq> b then Some False else if a = 0 then Some True else str_same as bs)"
| "str_same _ _ = None"

text \<open>The members of the request that are compared.\<close>

record sta_request =
  wifi_ssid :: "u8 list"
  wifi_key :: "u8 list"
  wifi_bssid :: "u8 list"

definition SSID_MAX_LEN :: nat where "SSID_MAX_LEN = 32"

definition fci_bssid :: "u8 list \<Rightarrow> u8 list" where "fci_bssid fci = drop 33 fci"
definition fci_channel :: "u8 list \<Rightarrow> u8" where "fci_channel fci = fci ! 40"
definition fci_psk :: "u8 list \<Rightarrow> u8 list" where "fci_psk fci = drop 41 fci"
definition fci_pwd :: "u8 list \<Rightarrow> u8 list" where "fci_pwd fci = drop 106 fci"

text \<open>The part of \<open>bk_wlan_start_sta\<close> that decides: \<open>fast_connect\<close>, \<open>chan\<close>, and the \<open>psk_len\<close> bytes of the key that
  goes to \<open>wpa_psk_request\<close>.\<close>

definition fast_connect_choice :: "u8 list \<Rightarrow> sta_request \<Rightarrow> (bool \<times> u8 \<times> u8 list option) option" where
  "fast_connect_choice fci req =
     do {
       ssid_len \<leftarrow> str_len fci;
       let ssid_len = min ssid_len SSID_MAX_LEN;
       req_ssid_len \<leftarrow> str_len (wifi_ssid req);
       let req_ssid_len = min req_ssid_len SSID_MAX_LEN;
       same \<leftarrow> (if ssid_len = req_ssid_len \<and> take ssid_len (wifi_ssid req) = take ssid_len fci
                then str_same (wifi_key req) (fci_pwd fci) else Some False);
       same \<leftarrow> (if same then Some True
                else if take 6 (wifi_bssid req) = take 6 (fci_bssid fci)
                then str_same (wifi_key req) (fci_pwd fci) else Some False);
       if same
       then do {
         n \<leftarrow> str_len (fci_psk fci);
         Some (True, fci_channel fci, if n = 0 then None else Some (take 64 (fci_psk fci))) }
       else Some (False, 0, None) }"

subsection \<open>The methods are bijections\<close>

definition info_E :: "enc_method \<Rightarrow> u8 list \<Rightarrow> u8 list" where
  "info_E mth fci =
     (case mth of
        ENC_METHOD_NULL \<Rightarrow> fci
      | ENC_METHOD_XOR \<Rightarrow> fst (xor_loop fci 0)
      | ENC_METHOD_AES \<Rightarrow> concat (cbc_enc (fips_cipher 8 BK_TINY_AES_KEY) BK_TINY_AES_IV (chunks16 (length fci div 16) fci)))"

text \<open>What a call finds: \<open>tmp_out\<close> has the size of the structure, and the tables are or can be computed.\<close>

definition crypt_ok :: "enc_method \<Rightarrow> crypt_locals \<Rightarrow> crypt_state \<Rightarrow> nat \<Rightarrow> bool" where
  "crypt_ok mth l s n \<longleftrightarrow>
     (case mth of
        ENC_METHOD_NULL \<Rightarrow> True
      | ENC_METHOD_XOR \<Rightarrow> length (lc_tmp_out l) = n
      | ENC_METHOD_AES \<Rightarrow> 16 dvd n \<and> tables_ready (lc_block l) (cr_tables s) \<and> length (rk_buf (lc_ctx l)) = 68 \<and>
          length (rk_buf (lc_cty l)) = 68)"

definition tables_after_call :: "enc_method \<Rightarrow> crypt_state \<Rightarrow> bool" where
  "tables_after_call mth s \<longleftrightarrow> (mth = ENC_METHOD_AES \<longrightarrow> cr_tables s = rom_tables)"

lemma crypt_ok_later: "crypt_ok mth l s n \<Longrightarrow> tables_after_call mth s' \<Longrightarrow> crypt_ok mth l s' n"
  by (auto simp: crypt_ok_def tables_after_call_def tables_ready_def split: enc_method.splits)

lemma key_and_iv: "length BK_TINY_AES_KEY = 32" "length BK_TINY_AES_IV = 16"
  by (simp_all add: BK_TINY_AES_KEY_def BK_TINY_AES_IV_def cstr_def)

lemma key_256: "key_rounds 256 = Some 14" "key_words 256 = 8"
  by (simp_all add: key_rounds_def key_words_def)

lemma length_xor_loop [simp]: "length (fst (xor_loop bs k)) = length bs"
  by (induction bs arbitrary: k) (auto simp: split_beta Let_def)

lemma xor_loop_twice: "fst (xor_loop (fst (xor_loop bs k)) k) = bs"
  by (induction bs arbitrary: k) (simp_all add: split_beta Let_def xor_get_key_def xor.assoc)

lemma xor_enc_eq: "length out = length bs \<Longrightarrow> \<exists>k'. xor_enc bs out (int (length bs)) k = Some (fst (xor_loop bs 0), k')"
  using length_xor_loop [of bs 0] by (cases "xor_loop bs 0") (simp add: xor_enc_def xor_key_init_def)

text \<open>Chaining with the key and the start block of the module, in any context that the key schedule filled.\<close>

lemma aes_info:
  assumes "enc_ready 256 (BK_TINY_AES_KEY @ [0]) e" "dec_ready 256 (BK_TINY_AES_KEY @ [0]) d" "16 dvd length fci"
    "length out = length fci" "length out' = length fci"
  shows "\<exists>iv1 iv2. weeny_aes_crypt_cbc rom_tables e False (int (length fci)) (BK_TINY_AES_IV @ [0]) fci out =
      Some (iv1, info_E ENC_METHOD_AES fci) \<and>
    weeny_aes_crypt_cbc rom_tables d True (int (length fci)) (BK_TINY_AES_IV @ [0]) (info_E ENC_METHOD_AES fci) out' = Some (iv2, fci)"
  using cbc_there_and_back [OF assms(1,2) dvd_mult_div_cancel [OF assms(3), symmetric] _ assms(4,5), of "BK_TINY_AES_IV @ [0]"]
  by (simp add: key_and_iv key_256 info_E_def)

lemma some_contexts:
  "\<exists>e d. enc_ready 256 (BK_TINY_AES_KEY @ [0]) e \<and> dec_ready 256 (BK_TINY_AES_KEY @ [0]) d"
proof -
  have t: "tables_ready None rom_tables" "4 * key_words 256 \<le> length (BK_TINY_AES_KEY @ [0])"
    by (simp_all add: tables_ready_def key_256 key_and_iv)
  obtain e where e: "enc_ready 256 (BK_TINY_AES_KEY @ [0]) e"
    using setkey_enc_ready [OF t(1) key_256(1) t(2) example_ready(4)] by (elim exE conjE)
  obtain d where d: "dec_ready 256 (BK_TINY_AES_KEY @ [0]) d"
    using setkey_dec_ready [OF t(1) key_256(1) t(2) example_ready(4,4)] by (elim exE conjE)
  show ?thesis
    by (intro exI conjI, rule e, rule d)
qed

lemma aes_enc_length:
  assumes "16 dvd length fci"
  shows "length (info_E ENC_METHOD_AES fci) = length fci"
proof -
  obtain e d where e: "enc_ready 256 (BK_TINY_AES_KEY @ [0]) e" "dec_ready 256 (BK_TINY_AES_KEY @ [0]) d"
    using some_contexts by blast
  have k: "keyed (e, d)"
    using e by (auto simp: keyed_def)
  let ?n = "length fci div 16" and ?F = "fips_cipher 8 BK_TINY_AES_KEY"
  have c: "concat (chunks16 ?n fci) = fci" "length (chunks16 ?n fci) = ?n" "\<forall>b \<in> set (chunks16 ?n fci). length b = 16"
    using chunks16_parts [OF dvd_mult_div_cancel [OF assms, symmetric]] by blast+
  have F: "length (?F b) = 16" if "length b = 16" for b
    using ecb_enc(2) [OF e(1) that] length_enc_block [of "rk_buf e" "nr e" b] by (simp add: key_256 key_and_iv)
  let ?cs = "cbc_enc ?F BK_TINY_AES_IV (chunks16 ?n fci)"
  have sh: "length ?cs = length (chunks16 ?n fci) \<and> (\<forall>b \<in> set ?cs. length b = 16)"
    by (rule cbc_enc_shape [OF _ key_and_iv(2) c(3)]) (rule F)
  have l: "length (cbc_enc ?F BK_TINY_AES_IV (chunks16 ?n fci)) = ?n"
    by (rule trans [OF conjunct1 [OF sh] c(2)])
  show ?thesis
    unfolding info_E_def enc_method.case length_concat sum_list_const16 [OF conjunct2 [OF sh]] l
    by (rule dvd_mult_div_cancel [OF assms])
qed

lemma enc_run:
  assumes "crypt_ok mth l s (length fci)"
  shows "\<exists>s'. fc_info_enc mth l fci s = Some (info_E mth fci, s') \<and> tables_after_call mth s'"
proof (cases mth)
  case ENC_METHOD_AES
  have a: "16 dvd length fci" "tables_ready (lc_block l) (cr_tables s)" "length (rk_buf (lc_ctx l)) = 68"
    using assms by (simp_all add: crypt_ok_def ENC_METHOD_AES)
  obtain e where e: "weeny_aes_setkey_enc (lc_block l) (lc_ctx l) (BK_TINY_AES_KEY @ [0]) 256 (cr_tables s) = Some (e, rom_tables)"
    "enc_ready 256 (BK_TINY_AES_KEY @ [0]) e"
    using setkey_enc_ready [OF a(2) key_256(1) _ a(3), of "BK_TINY_AES_KEY @ [0]"] by (auto simp: key_256 key_and_iv)
  obtain d where "dec_ready 256 (BK_TINY_AES_KEY @ [0]) d"
    using some_contexts by blast
  then show ?thesis
    using aes_info [OF e(2) _ a(1), of d "replicate (length fci) 0" "replicate (length fci) 0"] e(1)
    by (auto simp: fc_info_enc_def fc_info_enc_aes_def ENC_METHOD_AES tables_after_call_def)
next
  case ENC_METHOD_XOR
  have "length (lc_tmp_out l) = length fci"
    using assms by (simp add: crypt_ok_def ENC_METHOD_XOR)
  from xor_enc_eq [OF this, of "cr_key_id s"] show ?thesis
    by (auto simp: fc_info_enc_def fc_info_enc_xor_def ENC_METHOD_XOR tables_after_call_def info_E_def)
qed (simp add: fc_info_enc_def info_E_def tables_after_call_def)

lemma length_info_E: "(mth = ENC_METHOD_AES \<Longrightarrow> 16 dvd length fci) \<Longrightarrow> length (info_E mth fci) = length fci"
  using aes_enc_length [of fci] by (cases mth) (simp_all add: info_E_def)

lemma dec_run:
  assumes "crypt_ok mth l s (length fci)"
  shows "\<exists>s'. fc_info_dec mth l (info_E mth fci) s = Some (fci, s') \<and> tables_after_call mth s'"
proof (cases mth)
  case ENC_METHOD_AES
  have a: "16 dvd length fci" "tables_ready (lc_block l) (cr_tables s)" "length (rk_buf (lc_ctx l)) = 68" "length (rk_buf (lc_cty l)) = 68"
    using assms by (simp_all add: crypt_ok_def ENC_METHOD_AES)
  obtain d where d: "weeny_aes_setkey_dec (lc_block l) (lc_cty l) (lc_ctx l) (BK_TINY_AES_KEY @ [0]) 256 (cr_tables s) = Some (d, rom_tables)"
    "dec_ready 256 (BK_TINY_AES_KEY @ [0]) d"
    using setkey_dec_ready [OF a(2) key_256(1) _ a(4,3), of "BK_TINY_AES_KEY @ [0]"] by (auto simp: key_256 key_and_iv)
  obtain e where "enc_ready 256 (BK_TINY_AES_KEY @ [0]) e"
    using some_contexts by blast
  then show ?thesis
    using aes_info [OF _ d(2) a(1), of e "replicate (length fci) 0" "replicate (length fci) 0"] d(1) aes_enc_length [OF a(1)]
    by (auto simp: fc_info_dec_def fc_info_dec_aes_def ENC_METHOD_AES tables_after_call_def)
next
  case ENC_METHOD_XOR
  have "length (lc_tmp_out l) = length (fst (xor_loop fci 0))"
    using assms by (simp add: crypt_ok_def ENC_METHOD_XOR)
  from xor_enc_eq [OF this, of "cr_key_id s"] show ?thesis
    by (auto simp: fc_info_dec_def fc_info_dec_xor_def xor_dec_def ENC_METHOD_XOR tables_after_call_def info_E_def xor_loop_twice)
qed (simp add: fc_info_dec_def info_E_def tables_after_call_def)

lemma info_E_surj:
  assumes "mth = ENC_METHOD_AES \<Longrightarrow> 16 dvd length c"
  obtains fci where "c = info_E mth fci" "length fci = length c"
proof -
  let ?A = "{bs :: u8 list. length bs = length c}"
  let ?l = "\<lparr>lc_ctx = raw_ctx, lc_cty = raw_ctx, lc_block = None, lc_tmp_out = replicate (length c) 0\<rparr>"
  let ?s = "\<lparr>cr_tables = rom_tables, cr_key_id = 0\<rparr>"
  have ok: "crypt_ok mth ?l ?s (length c)"
    using assms example_ready(4) by (auto simp: crypt_ok_def tables_ready_def split: enc_method.split)
  have "info_E mth ` ?A = ?A"
  proof (rule endo_inj_surj)
    show "finite ?A"
      using finite_lists_length_eq [of "UNIV :: u8 set" "length c"] by simp
    show "info_E mth ` ?A \<subseteq> ?A"
      using assms by (auto simp: length_info_E)
    have "fst (the (fc_info_dec mth ?l (info_E mth x) ?s)) = x" if "length x = length c" for x
      using dec_run [of mth ?l ?s x] ok that by auto
    then show "inj_on (info_E mth) ?A"
      by (intro inj_on_inverseI [where g = "\<lambda>x. fst (the (fc_info_dec mth ?l x ?s))"]) simp
  qed
  then have "c \<in> info_E mth ` ?A" by simp
  then show thesis using that by auto
qed

subsection \<open>The sector\<close>

lemma sector_rewrite:
  assumes ok: "flash_ok d" and p: "net_part pt d" and n: "length c \<le> 4096"
  obtains d2 d3 where "bk_flash_erase pt (set_flash_protect d FLASH_PROTECT_NONE) BK_PARTITION_NET_PARAM 0 4096 = Some (d2, kNoErr)"
    "bk_flash_write pt d2 BK_PARTITION_NET_PARAM 0 (Some c) (of_nat (length c)) = Some (d3, kNoErr)" "flash_ok d3"
    "fd_cfg d3 = fd_cfg d" "fd_mem d3 = nor_write (nor_erase (fd_mem d) (unat (net_start pt)) 4096) (unat (net_start pt)) c"
proof -
  let ?B = "unat (net_start pt)" and ?d1 = "set_flash_protect d FLASH_PROTECT_NONE"
  have ok1: "flash_ok ?d1" using ok flash_ok_cong [of ?d1 d] by simp
  have cap: "4096 dvd ?B" "?B + 4096 \<le> flash_cap ?d1" using p by (simp_all add: net_part_def flash_cap_def)
  obtain d2 where d2: "abs_er ?d1 ?B 4096 = Some d2" "flash_ok d2" "fd_cfg d2 = fd_cfg d" "fd_mem d2 = nor_erase (fd_mem d) ?B 4096"
    using abs_er_ok [OF ok1, of 4096 ?B] cap by auto
  have cap2: "?B + length c \<le> flash_cap d2" using cap(2) n d2(3) by (simp add: flash_cap_def)
  obtain d3 where d3: "abs_wr d2 ?B c = Some d3" "flash_ok d3" "fd_cfg d3 = fd_cfg d2" "fd_mem d3 = nor_write (fd_mem d2) ?B c"
    using abs_wr_ok [OF d2(2) cap2] by auto
  show thesis
    using part_erase_abs [OF ok1, of BK_PARTITION_NET_PARAM pt 0 4096] part_write_abs [OF d2(2), of BK_PARTITION_NET_PARAM pt 0 c]
      cap cap2 d2 d3 by (intro that [of d2 d3]) (simp_all add: net_start_def)
qed

lemma sector_read:
  assumes "flash_ok d" "net_part pt d" "n \<le> 4096"
  shows "fst (bk_flash_read pt d BK_PARTITION_NET_PARAM 0 (of_nat n)) = slice (fd_mem d) (unat (net_start pt)) n"
  using part_read_abs [OF assms(1), of BK_PARTITION_NET_PARAM pt 0 n] nor.rd_law [OF assms(1), of "unat (net_start pt)" n] assms(2,3)
  by (simp add: net_part_def net_start_def)

lemma read_info:
  assumes "flash_ok d" "net_part pt d" "n \<le> 4096"
  shows "wlan_read_fast_connect_info mth pt l n d s = fc_info_dec mth l (slice (fd_mem d) (unat (net_start pt)) n) s"
  using sector_read [OF assms] by (simp add: wlan_read_fast_connect_info_def split_beta)

lemma crypt_ok_dvd: "crypt_ok mth l s n \<Longrightarrow> mth = ENC_METHOD_AES \<Longrightarrow> 16 dvd n"
  by (simp add: crypt_ok_def)

lemma write_info:
  assumes ok: "flash_ok d" and p: "net_part pt d" and n: "length fci \<le> 4096"
    and l1: "crypt_ok mth l1 s (length fci)" and l2: "crypt_ok mth l2 s (length fci)"
  shows "\<exists>fci' d' s'. wlan_write_fast_connect_info mth pt True l1 l2 fci d s = Some (fci', d', s') \<and> flash_ok d' \<and>
    fd_cfg d' = fd_cfg d \<and> tables_after_call mth s' \<and> slice (fd_mem d') (unat (net_start pt)) (length fci) = info_E mth fci \<and>
    (d' = d \<and> fci' = fci \<or> fci' = info_E mth fci \<and>
      fd_mem d' = nor_write (nor_erase (fd_mem d) (unat (net_start pt)) 4096) (unat (net_start pt)) (info_E mth fci))"
proof -
  let ?B = "unat (net_start pt)"
  have len: "length (info_E mth fci) = length fci"
    by (rule length_info_E) (rule crypt_ok_dvd [OF l1])
  obtain old where old: "slice (fd_mem d) ?B (length fci) = info_E mth old" "length old = length fci"
  proof (rule info_E_surj [of mth "slice (fd_mem d) ?B (length fci)"])
    fix x assume x: "slice (fd_mem d) ?B (length fci) = info_E mth x" "length x = length (slice (fd_mem d) ?B (length fci))"
    have "length x = length fci" using x(2) by simp
    with x(1) show thesis by (rule that)
  qed (use crypt_ok_dvd [OF l1] in simp)
  obtain s1 where s1: "wlan_read_fast_connect_info mth pt l1 (length fci) d s = Some (old, s1)" "tables_after_call mth s1"
    using dec_run [of mth l1 s old] l1 old read_info [OF ok p n] by auto
  show ?thesis
  proof (cases "old = fci")
    case True
    then show ?thesis
      using s1 old ok by (simp add: wlan_write_fast_connect_info_def)
  next
    case False
    let ?c = "info_E mth fci"
    have n': "length ?c \<le> 4096" using n len by simp
    obtain d2 d3 where d: "bk_flash_erase pt (set_flash_protect d FLASH_PROTECT_NONE) BK_PARTITION_NET_PARAM 0 4096 = Some (d2, kNoErr)"
      "bk_flash_write pt d2 BK_PARTITION_NET_PARAM 0 (Some ?c) (of_nat (length ?c)) = Some (d3, kNoErr)" "flash_ok d3"
      "fd_cfg d3 = fd_cfg d" "fd_mem d3 = nor_write (nor_erase (fd_mem d) ?B 4096) ?B ?c"
      by (rule sector_rewrite [OF ok p n'])
    obtain s2 where s2: "fc_info_enc mth l2 fci s1 = Some (?c, s2)" "tables_after_call mth s2"
      using enc_run [OF crypt_ok_later [OF l2 s1(2)]] by blast
    let ?d' = "set_flash_protect d3 (get_flash_protect d)"
    have "wlan_write_fast_connect_info mth pt True l1 l2 fci d s = Some (?c, ?d', s2)"
      using s1(1) False d s2(1) ok by (simp add: wlan_write_fast_connect_info_def get_security_eq enable_security_eq)
    moreover have "flash_ok ?d'" using d(3) flash_ok_cong [of ?d' d3] by simp
    moreover have "slice (fd_mem ?d') ?B (length fci) = ?c"
      using nor_rewrite [OF n', of "fd_mem d" ?B] d(5) len by simp
    ultimately show ?thesis
      using d(4,5) s2(2) by simp
  qed
qed

subsection \<open>The strings of the structure\<close>

definition pad :: "nat \<Rightarrow> u8 list \<Rightarrow> u8 list" where "pad n s = s @ replicate (n - length s) 0"

definition fci_of :: "u8 list \<Rightarrow> u8 list \<Rightarrow> u8 \<Rightarrow> u8 \<Rightarrow> u8 list \<Rightarrow> u8 list \<Rightarrow> u8 list \<Rightarrow> u8 list" where
  "fci_of ssid bssid security channel psk pwd rest = pad 33 ssid @ bssid @ [security, channel] @ pad 65 psk @ pad 65 pwd @ rest"

definition c_string :: "nat \<Rightarrow> u8 list \<Rightarrow> bool" where "c_string n s \<longleftrightarrow> 0 \<notin> set s \<and> length s < n"

lemma length_pad: "c_string n s \<Longrightarrow> length (pad n s) = n"
  by (simp add: pad_def c_string_def)

lemma c_strlen_zero: "0 \<notin> set s \<Longrightarrow> c_strlen (s @ 0 # r) = length s"
  using c_strlen_padded [of s 0 r] by simp

lemma pad_Suc:
  assumes "c_string n s"
  obtains k where "pad n s = s @ replicate (Suc k) 0" "0 \<notin> set s"
  using assms that [of "n - length s - 1"] by (cases "n - length s") (auto simp: pad_def c_string_def)

lemma str_len_pad: "c_string n s \<Longrightarrow> str_len (pad n s @ r) = Some (length s)"
  by (elim pad_Suc) (simp add: str_len_def c_strlen_zero)

lemma str_same_zero:
  "0 \<notin> set s \<Longrightarrow> 0 \<notin> set t \<Longrightarrow> str_same (s @ 0 # r) (t @ 0 # q) = Some (s = t)"
proof (induction s arbitrary: t)
  case Nil
  then show ?case by (cases t) auto
next
  case (Cons a s)
  then show ?case by (cases t) auto
qed

lemma str_same_pad: "c_string n s \<Longrightarrow> c_string m t \<Longrightarrow> str_same (pad n s) (pad m t @ q) = Some (s = t)"
  by (elim pad_Suc) (simp add: str_same_zero)

lemma fci_of_members:
  assumes "c_string 33 ssid" "length bssid = 6" "c_string 65 psk" "c_string 65 pwd"
  shows "fci_bssid (fci_of ssid bssid sec ch psk pwd rest) = bssid @ [sec, ch] @ pad 65 psk @ pad 65 pwd @ rest"
    "fci_channel (fci_of ssid bssid sec ch psk pwd rest) = ch"
    "fci_psk (fci_of ssid bssid sec ch psk pwd rest) = pad 65 psk @ pad 65 pwd @ rest"
    "fci_pwd (fci_of ssid bssid sec ch psk pwd rest) = pad 65 pwd @ rest"
  using assms by (simp_all add: fci_of_def fci_bssid_def fci_channel_def fci_psk_def fci_pwd_def length_pad nth_append)

lemma take_pad: "c_string n s \<Longrightarrow> m \<le> length s \<Longrightarrow> take m (pad n s @ r) = take m s"
  by (simp add: pad_def)

lemma choice_lemma:
  assumes "c_string 33 ssid" "length bssid = 6" "c_string 65 psk" "c_string 65 pwd" "c_string 33 rs" "c_string 108 rk" "length rb = 6"
  shows "fast_connect_choice (fci_of ssid bssid sec ch psk pwd rest) \<lparr>wifi_ssid = pad 33 rs, wifi_key = pad 108 rk, wifi_bssid = rb\<rparr> =
    Some (if rk = pwd \<and> (rs = ssid \<or> rb = bssid) then (True, ch, if psk = [] then None else Some (pad 64 psk)) else (False, 0, None))"
proof -
  note m = fci_of_members [OF assms(1-4), of sec ch rest]
  have l: "length ssid \<le> 32" "length rs \<le> 32" "length psk \<le> 64"
    using assms(1,3,5) by (simp_all add: c_string_def)
  have s1: "str_len (fci_of ssid bssid sec ch psk pwd rest) = Some (length ssid)"
    unfolding fci_of_def by (rule str_len_pad [OF assms(1)])
  have s2: "str_len (pad 33 rs) = Some (length rs)"
    using str_len_pad [OF assms(5), of "[]"] by simp
  have t: "take (length ssid) (fci_of ssid bssid sec ch psk pwd rest) = ssid"
    unfolding fci_of_def take_pad [OF assms(1) order_refl] by simp
  have t': "take (length rs) (pad 33 rs) = rs"
    by (simp add: pad_def)
  have k: "str_same (pad 108 rk) (pad 65 pwd @ rest) = Some (rk = pwd)"
    by (rule str_same_pad [OF assms(6,4)])
  have "length ssid = length rs \<and> take (length ssid) (pad 33 rs) = ssid \<longleftrightarrow> rs = ssid"
    by (metis t')
  then have e: "min (length ssid) SSID_MAX_LEN = min (length rs) SSID_MAX_LEN \<and>
      take (min (length ssid) SSID_MAX_LEN) (pad 33 rs) = take (min (length ssid) SSID_MAX_LEN) (fci_of ssid bssid sec ch psk pwd rest)
    \<longleftrightarrow> rs = ssid"
    using l by (simp add: SSID_MAX_LEN_def min_absorb1 t)
  have b: "take 6 rb = take 6 (bssid @ [sec, ch] @ pad 65 psk @ pad 65 pwd @ rest) \<longleftrightarrow> rb = bssid"
    using assms(2,7) by simp
  have p: "str_len (pad 65 psk @ pad 65 pwd @ rest) = Some (length psk)" "take 64 (pad 65 psk @ pad 65 pwd @ rest) = pad 64 psk"
    using l(3) str_len_pad [OF assms(3)] by (simp_all add: pad_def min_def)
  show ?thesis
    unfolding fast_connect_choice_def sta_request.select_convs m s1 s2 Let_def Option.bind.simps e b k p
    by (cases "rk = pwd"; cases "rs = ssid"; cases "rb = bssid") simp_all
qed

subsection \<open>Properties\<close>

text \<open>C13: What is saved about the connection is read back at the next start, with every method of encryption, whatever
  the locals of the calls contain and with the tables of AES computed anew: saving writes only the sector, and when it
  writes, the caller's structure is left holding what is in the flash.\<close>

theorem fast_connect_saved:
  assumes "flash_ok d" "net_part pt d" "length fci \<le> 4096" "crypt_ok mth l1 s (length fci)" "crypt_ok mth l2 s (length fci)"
    "crypt_ok mth l3 s3 (length fci)"
  shows "\<exists>fci' d' s1 s2. wlan_write_fast_connect_info mth pt True l1 l2 fci d s = Some (fci', d', s1) \<and>
    wlan_read_fast_connect_info mth pt l3 (length fci) d' s3 = Some (fci, s2) \<and>
    (\<forall>x. x < unat (net_start pt) \<or> unat (net_start pt) + 4096 \<le> x \<longrightarrow> fd_mem d' x = fd_mem d x) \<and>
    (d' = d \<and> fci' = fci \<or> fci' = slice (fd_mem d') (unat (net_start pt)) (length fci))"
proof -
  obtain fci' d' s1 where w: "wlan_write_fast_connect_info mth pt True l1 l2 fci d s = Some (fci', d', s1)" "flash_ok d'"
    "fd_cfg d' = fd_cfg d" "slice (fd_mem d') (unat (net_start pt)) (length fci) = info_E mth fci"
    "d' = d \<and> fci' = fci \<or> fci' = info_E mth fci \<and>
      fd_mem d' = nor_write (nor_erase (fd_mem d) (unat (net_start pt)) 4096) (unat (net_start pt)) (info_E mth fci)"
    using write_info [OF assms(1-5)] by blast
  have p: "net_part pt d'"
    using assms(2) w(3) by (simp add: net_part_def flash_cap_def)
  have "length (info_E mth fci) \<le> 4096"
    using length_info_E [of mth fci] crypt_ok_dvd [OF assms(4)] assms(3) by simp
  then have "\<forall>x. x < unat (net_start pt) \<or> unat (net_start pt) + 4096 \<le> x \<longrightarrow> fd_mem d' x = fd_mem d x"
    using w(5) by (auto simp: nor_write_def nor_erase_def)
  then show ?thesis
    using w dec_run [OF assms(6)] read_info [OF w(2) p assms(3)] by fastforce
qed

definition demo_locals :: "nat \<Rightarrow> crypt_locals" where
  "demo_locals n = \<lparr>lc_ctx = raw_ctx, lc_cty = raw_ctx, lc_block = any_block, lc_tmp_out = replicate n 7\<rparr>"

definition demo_crypt :: crypt_state where "demo_crypt = \<lparr>cr_tables = aes_boot, cr_key_id = 0\<rparr>"

definition demo_fci :: "u8 list" where
  "demo_fci = fci_of (cstr ''TL-WR'') [1, 2, 3, 4, 5, 6] 4 11 (replicate 64 0x61) (cstr ''secret'') [0, 0, 0, 0, 0]"

lemma length_demo_fci: "length demo_fci = 176"
  by (simp add: demo_fci_def fci_of_def pad_def cstr_def)

lemma demo_crypt_ok: "crypt_ok mth (demo_locals 176) demo_crypt 176"
  using example_ready(1,4) by (cases mth) (simp_all add: crypt_ok_def demo_locals_def demo_crypt_def)

lemma demo_net_part: "net_part net_pt (demo_dev True)"
  using demo_net_state [of True] by (simp add: net_state_def)

lemma fast_connect_saved_witness:
  "\<exists>fci' d' s1 s2. wlan_write_fast_connect_info ENC_METHOD_AES net_pt True (demo_locals 176) (demo_locals 176) demo_fci (demo_dev True) demo_crypt = Some (fci', d', s1) \<and>
    wlan_read_fast_connect_info ENC_METHOD_AES net_pt (demo_locals 176) 176 d' demo_crypt = Some (demo_fci, s2)"
  using fast_connect_saved [of "demo_dev True" net_pt demo_fci ENC_METHOD_AES "demo_locals 176" demo_crypt "demo_locals 176" "demo_locals 176" demo_crypt]
    demo_net_part demo_crypt_ok demo_dev_ok by (auto simp: length_demo_fci)

text \<open>C37: The station connects without a scan exactly when the key of the request is the stored password and the name or
  the address of the access point is the stored one; it then uses the stored channel, and the stored key of 64 digits
  if there is one, also for a network of another name at the stored address.\<close>

theorem fast_connect_choice_exact:
  assumes "c_string 33 ssid" "length bssid = 6" "c_string 65 psk" "c_string 65 pwd" "c_string 33 rs" "c_string 108 rk" "length rb = 6"
  shows "fast_connect_choice (fci_of ssid bssid sec ch psk pwd rest) \<lparr>wifi_ssid = pad 33 rs, wifi_key = pad 108 rk, wifi_bssid = rb\<rparr> =
    Some (if rk = pwd \<and> (rs = ssid \<or> rb = bssid) then (True, ch, if psk = [] then None else Some (pad 64 psk)) else (False, 0, None))"
  by (rule choice_lemma [OF assms])

lemma fast_connect_choice_exact_witness:
  "fast_connect_choice demo_fci \<lparr>wifi_ssid = pad 33 (cstr ''other''), wifi_key = pad 108 (cstr ''secret''), wifi_bssid = [1, 2, 3, 4, 5, 6]\<rparr> =
    Some (True, 11, Some (replicate 64 0x61))"
  unfolding demo_fci_def
  by (subst fast_connect_choice_exact) (simp_all add: c_string_def cstr_def pad_def)

text \<open>C38: Saving the connection without encryption, as every configuration file sets it, erases the network parameters:
  both are kept at the start of the same partition.  With any parameter stored, such as the MAC address, after saving an
  information that does not itself start like a table, no parameter is found any more.\<close>

theorem fast_connect_erases_parameters:
  assumes "net_state pt d g" "g item \<noteq> None" "8 \<le> length fci" "length fci \<le> 4096" "get32 fci 0 \<noteq> INFO_TLV_HEADER"
  shows "\<exists>d'. wlan_write_fast_connect_info ENC_METHOD_NULL pt True l1 l2 fci d s = Some (fci, d', s) \<and>
    net_state pt d' (\<lambda>_. None) \<and> get_info_item pt d' it p0 p1 p2 = Some (0, [], [], [])"
proof -
  let ?B = "unat (net_start pt)"
  have ok: "flash_ok d" "net_part pt d"
    using assms(1) by (simp_all add: net_state_def)
  obtain es where es: "net_rep (fd_mem d) ?B es"
    using assms(1,2) by (auto simp: net_state_def)
  have "slice (fd_mem d) ?B 8 = take 8 (enc_tbl es)"
    using arg_cong [OF net_rep_parts(1) [OF es], of "take 8"] by (simp add: take_slice)
  then have h: "get32 (slice (fd_mem d) ?B 8) 0 = INFO_TLV_HEADER"
    by (simp add: enc_tbl_def)
  have g: "get32 (take 8 bs) 0 = get32 bs 0" if "8 \<le> length bs" for bs :: "u8 list"
    by (simp add: get32_def)
  have "slice (fd_mem d) ?B 8 = take 8 (slice (fd_mem d) ?B (length fci))"
    using assms(3) by (simp add: take_slice)
  then have ne: "slice (fd_mem d) ?B (length fci) \<noteq> fci"
    using h g [OF assms(3)] assms(5) by auto
  obtain d2 d3 where d: "bk_flash_erase pt (set_flash_protect d FLASH_PROTECT_NONE) BK_PARTITION_NET_PARAM 0 4096 = Some (d2, kNoErr)"
      "bk_flash_write pt d2 BK_PARTITION_NET_PARAM 0 (Some fci) (of_nat (length fci)) = Some (d3, kNoErr)" "flash_ok d3"
      "fd_cfg d3 = fd_cfg d" "fd_mem d3 = nor_write (nor_erase (fd_mem d) ?B 4096) ?B fci"
    by (rule sector_rewrite [OF ok assms(4)])
  let ?d' = "set_flash_protect d3 (get_flash_protect d)"
  have w: "wlan_write_fast_connect_info ENC_METHOD_NULL pt True l1 l2 fci d s = Some (fci, ?d', s)"
    using ne d ok read_info [OF ok assms(4)]
    by (simp add: wlan_write_fast_connect_info_def get_security_eq enable_security_eq fc_info_dec_def fc_info_enc_def)
  have "slice (fd_mem ?d') ?B 8 = take 8 fci"
    using arg_cong [OF nor_rewrite [OF assms(4), of "fd_mem d" ?B], of "take 8"] assms(3) d(5) by (simp add: take_slice)
  then have t: "get32 (slice (fd_mem ?d') ?B 8) 0 \<noteq> INFO_TLV_HEADER"
    using g [OF assms(3)] assms(5) by simp
  have "flash_ok ?d'" "net_part pt ?d'"
    using d(3,4) flash_ok_cong [of ?d' d3] ok(2) by (simp_all add: net_part_def flash_cap_def)
  then show ?thesis
    using w t tbl_absent [OF t] by (simp add: net_state_def get_info_item_def)
qed

definition demo_params :: flash_dev where
  "demo_params = (demo_dev True)\<lparr>fd_mem := nor_write (\<lambda>_. 0xFF) 0x1E1000 (enc_tbl [(WIFI_MAC_ITEM, [1, 2, 3, 4, 5, 6, 0, 0])])\<rparr>"

lemma demo_params_state: "net_state net_pt demo_params (map_of [(WIFI_MAC_ITEM, [1, 2, 3, 4, 5, 6, 0, 0])])"
proof -
  let ?es = "[(WIFI_MAC_ITEM, [1, 2, 3, 4, 5, 6, 0, 0 :: u8])]"
  have "slice (fd_mem demo_params) 0x1E1000 (length (enc_tbl ?es)) = enc_tbl ?es"
    by (simp only: slice_eq_list_iff demo_params_def flash_dev.select_convs flash_dev.simps) (simp add: nor_write_def and_FF and.commute [of 255])
  moreover have l: "net_list ?es"
    by (simp add: net_list_def net_items_def payload_len_def info_item_len_def common_items_def net_item_defs)
  ultimately have rep: "net_rep (fd_mem demo_params) (unat (net_start net_pt)) ?es"
    unfolding net_rep_def net_pt_start by simp
  have ok: "flash_ok demo_params" "net_part net_pt demo_params"
    using flash_ok_cong [of demo_params "demo_dev True"] demo_dev_ok [of True] demo_net_part
    by (simp_all add: demo_params_def net_part_def flash_cap_def)
  show ?thesis
    unfolding net_state_def by (intro conjI disjI2 exI, rule ok(1), rule ok(2), rule rep, rule refl)
qed

lemma fast_connect_erases_parameters_witness:
  "\<exists>d'. wlan_write_fast_connect_info ENC_METHOD_NULL net_pt True (demo_locals 0) (demo_locals 0) demo_fci demo_params demo_crypt = Some (demo_fci, d', demo_crypt) \<and>
    net_state net_pt d' (\<lambda>_. None) \<and> get_info_item net_pt d' WIFI_MAC_ITEM True False False = Some (0, [], [], [])"
  by (rule fast_connect_erases_parameters [OF demo_params_state, of WIFI_MAC_ITEM])
    (simp_all add: length_demo_fci, simp add: demo_fci_def fci_of_def pad_def cstr_def get32_def INFO_TLV_HEADER_def)

end
