(* ===== verification/PowerSave.thy ===== *)
theory PowerSave
  imports Simulation
begin

text \<open>
  Power save of a station, \<open>func/power_save/power_save.c\<close>: when the MAC may sleep, the interrupts and messages that
  wake it, the timers that stand in for a beacon, and the tasks that wait until it is awake; with the messages of
  \<open>app/app.c\<close> and the calls of \<open>func/wlan_ui/wlan_ui.c\<close> that drive it.  \<open>PowerSteps\<close> and \<open>PowerProps\<close> have the steps and what holds of them.

  The settings are those of \<open>SOC_BK7231\<close>: no BLE, no low-voltage sleep, no idle access point.  \<open>env\<close> is what the code
  reads of the supplicant, the MAC and its library when it runs, and may differ from call to call: \<open>ps_sleep_check\<close> says
  whether the library goes on to \<open>power_save_sleep\<close>, and \<open>rwnxl_sleep\<close> whether it put the MAC to sleep (it then has called
  back).  Timers can be created, started and stopped, and requests to the MAC and the memory of a semaphore allocated.
  Messages of other parts, and those of the MCU sleep, are in the queue without their content.  The result \<open>None\<close> is a
  failed assertion.  The radio is as \<open>sys_ctrl.c\<close> keeps it, by the bits
  that hold it; the manual sleep of the whole chip, which writes these variables on its way, is not among the steps.  Left out,
  because nothing here reads them: the register \<open>ICU_ARM_WAKEUP_EN\<close>, the clocks of the MAC and the modem, the enable bit of the idle
  interrupt, the ticks and times that are recorded, and what is started in the MAC library on the way (kernel events, its
  traffic timer, its check for data).
\<close>

subsection \<open>State\<close>

datatype PS_MODE_STATUS = PS_NO_PS_MODE | PS_STANDBY_PS_MODE | PS_MCU_PS_MODE | PS_DTIM_PS_MODE | PS_DTIM_PS_OPENING | PS_DTIM_PS_CLOSING
datatype PS_STA_BEACON_STATE = STA_GET_INIT | STA_GET_TRUE | STA_GET_FALSE | STA_GET_TIMEOUT
datatype PS_ARM_WAKEUP_WAY = PS_ARM_WAKEUP_NONE | PS_ARM_WAKEUP_RW | PS_DTIM_ARM_WAKEUP_PERI | PS_ARM_WAKEUP_PWM
  | PS_ARM_WAKEUP_USER | PS_ARM_WAKEUP_UPING
datatype PS_LISTEN_MODE = PS_LISTEN_MODE_DTIM | PS_LISTEN_MODE_INTERVAL

datatype ps_msg = RF_ENABLE | RF_DISABLE | RF_USER_WKUP | RF_KP_SET | RF_TD_SET | RF_KP_HANDLER | RF_KP_STOP | RF_TD_STOP
  | WAIT_TM_SET | WAIT_TM_HANDLER | RF_PS_TIMER_INIT | RF_PS_TIMER_DEINIT

datatype bus_msg = BMSG_STA_PS_TYPE ps_msg | BMSG_OTHER

datatype ke_req = ME_PS_REQ u8 nat | ME_SET_PS_DISABLE_REQ u8 nat | MM_SET_PS_OPTIONS_REQ u8 u8 nat

record oneshot_timer =
  tm_init :: bool
  tm_running :: bool

record ps_vif =
  vif_active :: bool
  vif_is_sta :: bool  \<comment> \<open>\<open>type == VIF_STA\<close>\<close>
  prevent_sleep :: u32

text \<open>\<open>wk_list\<close> holds the tasks whose semaphores are in the list.\<close>

record STA_PS_INFO =
  ps_arm_wakeup_way :: PS_ARM_WAKEUP_WAY
  ps_real_sleep :: bool
  sleep_first :: bool
  ps_can_sleep :: bool
  listen_int :: u8
  listen_mode :: PS_LISTEN_MODE
  ps_dtim_period :: u8
  ps_dtim_multi :: u8
  waited_beacon :: PS_STA_BEACON_STATE
  ps_beacon_int :: u16
  sleep_count :: u32
  wk_list :: "nat list"

text \<open>The registers of the MAC that the callback writes.\<close>

record nxmac_regs =
  radio_wake_up_time :: u32
  nxmac_listen_interval :: u8
  tsf_mgt_disable :: bool
  atim_w :: u16
  wake_up_sw :: bool
  nxmac_beacon_int :: u16

text \<open>\<open>int_enable\<close> is the register \<open>ICU_INTERRUPT_ENABLE\<close>.  \<open>rf_hold_status\<close>, \<open>rf_sleeped\<close> and \<open>sta_rf_sleeped\<close> are the variables of
  \<open>driver/sys_ctrl/sys_ctrl.c\<close>: the parts that hold the radio, one bit each, whether it is off, and whether the station has given it
  up.  \<open>io_queue\<close> is the queue of the core thread, \<open>ke_msgs\<close> the requests sent to the MAC, \<open>used_list\<close> the interfaces of its list, \<open>released\<close> the tasks whose semaphore
  was set.\<close>

record ps_state =
  bk_ps_mode :: PS_MODE_STATUS
  bk_ps_info :: STA_PS_INFO
  int_enable :: u32
  int_enable_reg_save :: u32
  ps_lock :: u8
  ps_dis_flag :: u32
  ps_keep_timer :: oneshot_timer
  ps_keep_timer_status :: u32
  ps_keep_timer_period :: u32
  ps_reseted_moniter_flag :: bool
  ps_bcn_loss_max_count :: u32
  ps_keep_timer_flag :: bool
  ps_wait_timer :: oneshot_timer
  ps_wait_timer_status :: u32
  ps_wait_timer_period :: u32
  r_wakeup_time :: u16
  ps_vifs :: "ps_vif list"  \<comment> \<open>\<open>vif_info_tab\<close>\<close>
  used_list :: "nat list"
  s_interval :: u16
  rf_ps_enabled :: bool
  nxmac :: nxmac_regs
  rf_hold_status :: u32
  rf_sleeped :: bool
  sta_rf_sleeped :: bool
  io_queue :: "bus_msg list"
  ke_msgs :: "ke_req list"
  released :: "nat list"

datatype rw_evt_type = RW_EVT_STA_IDLE | RW_EVT_STA_CONNECTING | RW_EVT_STA_BEACON_LOSE | RW_EVT_STA_PASSWORD_WRONG
  | RW_EVT_STA_NO_AP_FOUND | RW_EVT_STA_ASSOC_FULL | RW_EVT_STA_DEAUTH | RW_EVT_STA_AUTH_FAILED | RW_EVT_STA_DISASSOC
  | RW_EVT_STA_ASSOC_FAILED | RW_EVT_STA_ACTIVE_DISCONNECTED | RW_EVT_STA_CONNECTED | RW_EVT_STA_GOT_IP

record ps_env =
  mhdr_get_station_status :: rw_evt_type
  only_sta :: bool  \<comment> \<open>\<open>g_wlan_general_param->role == CONFIG_ROLE_STA\<close>\<close>
  wpa_psk_cal_pending :: bool
  ke_evt_get :: bool
  ps_sleep_check :: bool
  get_status_in_doze :: bool
  int_status :: u32
  rwnxl_sleep :: bool
  bk_wlan_has_role_sta :: bool  \<comment> \<open>\<open>bk_wlan_has_role(VIF_STA)\<close>\<close>
  ap_if_ap_rf_sleep :: bool

subsection \<open>Small operations\<close>

definition CORE_QITEM_COUNT :: nat where "CORE_QITEM_COUNT = 64"

definition bmsg_push :: "bus_msg \<Rightarrow> ps_state \<Rightarrow> ps_state" where
  "bmsg_push m s = (if length (io_queue s) < CORE_QITEM_COUNT then s\<lparr>io_queue := io_queue s @ [m]\<rparr> else s)"

definition bmsg_ps_sender :: "ps_msg \<Rightarrow> ps_state \<Rightarrow> ps_state" where
  "bmsg_ps_sender m = bmsg_push (BMSG_STA_PS_TYPE m)"

definition upd_info :: "(STA_PS_INFO \<Rightarrow> STA_PS_INFO) \<Rightarrow> ps_state \<Rightarrow> ps_state" where
  "upd_info f s = s\<lparr>bk_ps_info := f (bk_ps_info s)\<rparr>"

definition power_save_if_rf_sleep :: "ps_state \<Rightarrow> bool" where
  "power_save_if_rf_sleep s = ps_real_sleep (bk_ps_info s)"

definition net_if_is_up :: "ps_env \<Rightarrow> bool" where
  "net_if_is_up e \<longleftrightarrow> mhdr_get_station_status e = RW_EVT_STA_GOT_IP"

definition power_save_if_ps_rf_dtim_enabled :: "ps_state \<Rightarrow> bool" where
  "power_save_if_ps_rf_dtim_enabled s \<longleftrightarrow> bk_ps_mode s = PS_DTIM_PS_MODE"

definition PS_STA_DTIM_SWITCH :: "ps_env \<Rightarrow> ps_state \<Rightarrow> bool" where
  "PS_STA_DTIM_SWITCH e s \<longleftrightarrow> power_save_if_ps_rf_dtim_enabled s \<and> net_if_is_up e \<and> only_sta e"

definition PS_STA_DTIM_CAN_SLEEP :: "ps_env \<Rightarrow> ps_state \<Rightarrow> bool" where
  "PS_STA_DTIM_CAN_SLEEP e s \<longleftrightarrow> PS_STA_DTIM_SWITCH e s \<and>
     (waited_beacon (bk_ps_info s) = STA_GET_TRUE \<or> ps_arm_wakeup_way (bk_ps_info s) = PS_ARM_WAKEUP_USER) \<and> ps_can_sleep (bk_ps_info s)"

definition PS_VIF_WAITING_BCN :: u32 where "PS_VIF_WAITING_BCN = 1"

definition power_save_set_all_vif_prevent_sleep :: "u32 \<Rightarrow> ps_state \<Rightarrow> ps_state" where
  "power_save_set_all_vif_prevent_sleep prevent_bit s =
     s\<lparr>ps_vifs := map (\<lambda>v. if vif_active v \<and> vif_is_sta v then v\<lparr>prevent_sleep := prevent_sleep v OR prevent_bit\<rparr> else v) (ps_vifs s)\<rparr>"

definition power_save_clr_all_vif_prevent_sleep :: "u32 \<Rightarrow> ps_state \<Rightarrow> ps_state" where
  "power_save_clr_all_vif_prevent_sleep prevent_bit s =
     s\<lparr>ps_vifs := map (\<lambda>v. if vif_active v \<and> vif_is_sta v then v\<lparr>prevent_sleep := prevent_sleep v AND NOT prevent_bit\<rparr> else v) (ps_vifs s)\<rparr>"

definition power_save_wkup_event_clear :: "u32 \<Rightarrow> ps_state \<Rightarrow> ps_state" where
  "power_save_wkup_event_clear v s = s\<lparr>ps_dis_flag := ps_dis_flag s AND NOT v\<rparr>"

definition power_save_wkup_event_set :: "u32 \<Rightarrow> ps_state \<Rightarrow> ps_state" where
  "power_save_wkup_event_set v s = s\<lparr>ps_dis_flag := ps_dis_flag s OR v\<rparr>"

subsection \<open>The radio\<close>

definition RF_HOLD_BY_STA_BIT :: u32 where "RF_HOLD_BY_STA_BIT = 1"

definition sctrl_rf_sleep :: "ps_state \<Rightarrow> ps_state" where
  "sctrl_rf_sleep s = (if \<not> rf_sleeped s then s\<lparr>rf_sleeped := True\<rparr> else s)"

definition sctrl_rf_wakeup :: "ps_state \<Rightarrow> ps_state" where
  "sctrl_rf_wakeup s = (if rf_sleeped s then s\<lparr>rf_sleeped := False\<rparr> else s)"

text \<open>The commands \<open>CMD_RF_HOLD_BIT_SET\<close> and \<open>CMD_RF_HOLD_BIT_CLR\<close> of \<open>sctrl_ctrl\<close>; other parts send them with bits of their own.\<close>

definition sctrl_rf_hold_bit_set :: "u32 \<Rightarrow> ps_state \<Rightarrow> ps_state" where
  "sctrl_rf_hold_bit_set b s =
     (let s = s\<lparr>rf_hold_status := rf_hold_status s OR b\<rparr> in if rf_hold_status s \<noteq> 0 then sctrl_rf_wakeup s else s)"

definition sctrl_rf_hold_bit_clr :: "u32 \<Rightarrow> ps_state \<Rightarrow> ps_state" where
  "sctrl_rf_hold_bit_clr b s =
     (let s = s\<lparr>rf_hold_status := rf_hold_status s AND NOT b\<rparr> in if rf_hold_status s = 0 then sctrl_rf_sleep s else s)"

definition power_save_rf_hold_bit_set :: "u32 \<Rightarrow> ps_state \<Rightarrow> ps_state" where
  "power_save_rf_hold_bit_set rf_hold_bit = sctrl_rf_hold_bit_set rf_hold_bit"

definition power_save_rf_hold_bit_clear :: "u32 \<Rightarrow> ps_state \<Rightarrow> ps_state" where
  "power_save_rf_hold_bit_clear rf_hold_bit = sctrl_rf_hold_bit_clr rf_hold_bit"

definition sctrl_sta_rf_sleep :: "ps_env \<Rightarrow> ps_state \<Rightarrow> ps_state" where
  "sctrl_sta_rf_sleep e s =
     (if (\<not> bk_wlan_has_role_sta e \<or> power_save_if_rf_sleep s) \<and> ap_if_ap_rf_sleep e \<and> \<not> sta_rf_sleeped s
      then (sctrl_rf_hold_bit_clr RF_HOLD_BY_STA_BIT s)\<lparr>sta_rf_sleeped := True\<rparr> else s)"

definition sctrl_sta_rf_wakeup :: "ps_state \<Rightarrow> ps_state" where
  "sctrl_sta_rf_wakeup s =
     (if sta_rf_sleeped s then (sctrl_rf_hold_bit_set RF_HOLD_BY_STA_BIT s)\<lparr>sta_rf_sleeped := False\<rparr> else s)"

subsection \<open>Sleeping and waking\<close>

definition FIQ_MAC_WAKEUP :: u32 where "FIQ_MAC_WAKEUP = push_bit 26 1"

text \<open>The interrupts of the MAC that are masked while it sleeps; \<open>FIQ_MAC_GENERAL\<close> is not among those that keep it awake.\<close>

definition mac_busy_bits :: u32 where
  "mac_busy_bits = push_bit 18 1 OR push_bit 17 1 OR push_bit 19 1 OR push_bit 20 1 OR push_bit 21 1"

definition mac_int_bits :: u32 where "mac_int_bits = mac_busy_bits OR push_bit 22 1"

definition power_save_sleep_status_set :: "ps_state \<Rightarrow> ps_state" where
  "power_save_sleep_status_set = upd_info (\<lambda>i. i\<lparr>ps_real_sleep := True, ps_arm_wakeup_way := PS_ARM_WAKEUP_NONE\<rparr>)"

definition power_save_wkup_time_cal :: "ps_state \<Rightarrow> ps_state" where
  "power_save_wkup_time_cal s = s\<lparr>nxmac := (nxmac s)\<lparr>radio_wake_up_time := ucast (r_wakeup_time s) + 12\<rparr>\<rparr>"

definition power_save_mac_idle_callback :: "ps_state \<Rightarrow> ps_state" where
  "power_save_mac_idle_callback s =
     (let li = listen_int (bk_ps_info s);
          s = (if sleep_first (bk_ps_info s)
               then (let s = power_save_wkup_time_cal s
                     in s\<lparr>nxmac := (nxmac s)\<lparr>tsf_mgt_disable := False, nxmac_listen_interval := li, atim_w := 512,
                          wake_up_sw := False, nxmac_beacon_int := ps_beacon_int (bk_ps_info s)\<rparr>\<rparr>)
               else if listen_mode (bk_ps_info s) = PS_LISTEN_MODE_DTIM
               then (let s = power_save_wkup_time_cal s in s\<lparr>nxmac := (nxmac s)\<lparr>nxmac_listen_interval := li\<rparr>\<rparr>)
               else s)
      in upd_info (\<lambda>i. i\<lparr>sleep_count := sleep_count i + 1\<rparr>) s)"

definition power_save_sleep :: "ps_env \<Rightarrow> ps_state \<Rightarrow> bool \<times> ps_state" where
  "power_save_sleep e s =
     (if ps_real_sleep (bk_ps_info s) then (False, s)
      else if \<not> PS_STA_DTIM_CAN_SLEEP e s then (False, s)
      else if get_status_in_doze e then (False, s)
      else if int_status e AND mac_busy_bits \<noteq> 0 then (False, s)
      else
        (let s = s\<lparr>int_enable_reg_save := int_enable s, int_enable := int_enable s AND NOT mac_int_bits\<rparr> in
         if \<not> rwnxl_sleep e then (False, s\<lparr>int_enable := int_enable_reg_save s\<rparr>)
         else
           (let s = power_save_mac_idle_callback s in
            if ps_lock s = 0 then (True, s)
            else
              (let s = power_save_sleep_status_set (s\<lparr>ps_lock := ps_lock s - 1\<rparr>);
                   s = sctrl_sta_rf_sleep e s;
                   s = s\<lparr>int_enable := int_enable s OR FIQ_MAC_WAKEUP\<rparr>
               in (True, if ps_keep_timer_status s = 1 then bmsg_ps_sender RF_KP_STOP s else s)))))"

definition power_save_wakeup :: "ps_state \<Rightarrow> ps_state option" where
  "power_save_wakeup s =
     (let s = upd_info (\<lambda>i. i\<lparr>waited_beacon := STA_GET_FALSE\<rparr>) s; s = sctrl_sta_rf_wakeup s;
          s = (if ps_arm_wakeup_way (bk_ps_info s) = PS_ARM_WAKEUP_RW then power_save_set_all_vif_prevent_sleep PS_VIF_WAITING_BCN s else s);
          s = upd_info (\<lambda>i. i\<lparr>sleep_first := False\<rparr>) s;
          s = s\<lparr>int_enable := (int_enable s OR mac_int_bits) AND NOT FIQ_MAC_WAKEUP\<rparr>
      in if ps_lock s \<noteq> 0 then None else Some (s\<lparr>ps_lock := ps_lock s + 1\<rparr>))"

definition power_save_rf_ps_wkup_semlist_set :: "ps_state \<Rightarrow> ps_state" where
  "power_save_rf_ps_wkup_semlist_set s =
     upd_info (\<lambda>i. i\<lparr>wk_list := []\<rparr>) (s\<lparr>released := released s @ wk_list (bk_ps_info s)\<rparr>)"

definition power_save_dtim_rf_ps_disable_send_msg :: "ps_state \<Rightarrow> ps_state" where
  "power_save_dtim_rf_ps_disable_send_msg s = (if bk_ps_mode s = PS_DTIM_PS_MODE then bmsg_ps_sender RF_DISABLE s else s)"

definition NEED_DISABLE_BIT :: u32 where "NEED_DISABLE_BIT = 1"

definition power_save_dtim_exit_check :: "ps_state \<Rightarrow> ps_state" where
  "power_save_dtim_exit_check s =
     (if ps_dis_flag s AND NEED_DISABLE_BIT \<noteq> 0
      then power_save_wkup_event_clear NEED_DISABLE_BIT (power_save_dtim_rf_ps_disable_send_msg s) else s)"

definition power_save_ieee_dtim_wakeup :: "ps_state \<Rightarrow> ps_state option" where
  "power_save_ieee_dtim_wakeup s =
     (if ps_arm_wakeup_way (bk_ps_info s) \<notin> {PS_ARM_WAKEUP_NONE, PS_ARM_WAKEUP_UPING} \<and> ps_real_sleep (bk_ps_info s)
      then do {
        s \<leftarrow> power_save_wakeup s;
        let s = upd_info (\<lambda>i. i\<lparr>ps_real_sleep := False, ps_can_sleep := True\<rparr>) s;
        let s = (if \<not> sleep_first (bk_ps_info s) \<and> ps_keep_timer_period s \<noteq> 0
                 then bmsg_ps_sender RF_KP_SET (s\<lparr>ps_keep_timer_flag := True\<rparr>) else s);
        let s = power_save_rf_ps_wkup_semlist_set s;
        Some (power_save_dtim_exit_check s) }
      else Some s)"

definition MAC_ARM_WAKEUP_EN_BIT :: u32 where "MAC_ARM_WAKEUP_EN_BIT = push_bit 26 1"

definition power_save_dtim_wake :: "u32 \<Rightarrow> ps_state \<Rightarrow> ps_state option" where
  "power_save_dtim_wake status s =
     (if bk_ps_mode s = PS_DTIM_PS_MODE \<and> ps_arm_wakeup_way (bk_ps_info s) = PS_ARM_WAKEUP_NONE \<and> status AND MAC_ARM_WAKEUP_EN_BIT \<noteq> 0
      then power_save_ieee_dtim_wakeup
        (upd_info (\<lambda>i. i\<lparr>ps_arm_wakeup_way := PS_ARM_WAKEUP_RW\<rparr>) (s\<lparr>int_enable := int_enable s AND NOT FIQ_MAC_WAKEUP\<rparr>))
      else Some s)"

definition power_save_rf_dtim_manual_do_wakeup :: "ps_state \<Rightarrow> ps_state option" where
  "power_save_rf_dtim_manual_do_wakeup s =
     (let way = ps_arm_wakeup_way (bk_ps_info s) in
      if bk_ps_mode s = PS_DTIM_PS_MODE \<and> (way = PS_ARM_WAKEUP_NONE \<or> way = PS_ARM_WAKEUP_UPING) \<and> ps_real_sleep (bk_ps_info s)
      then power_save_ieee_dtim_wakeup
        ((upd_info (\<lambda>i. i\<lparr>ps_arm_wakeup_way := if way = PS_ARM_WAKEUP_UPING then PS_ARM_WAKEUP_RW else PS_ARM_WAKEUP_USER\<rparr>) s)
          \<lparr>int_enable := int_enable s AND NOT FIQ_MAC_WAKEUP\<rparr>)
      else Some s)"

definition power_save_rf_sleep_check :: "ps_env \<Rightarrow> ps_state \<Rightarrow> ps_state" where
  "power_save_rf_sleep_check e s =
     (if PS_STA_DTIM_CAN_SLEEP e s \<and> \<not> ke_evt_get e \<and> io_queue s = [] \<and> ps_sleep_check e
      then snd (power_save_sleep e s) else s)"

subsection \<open>Timers and beacons\<close>

definition power_save_keep_timer_stop :: "ps_state \<Rightarrow> ps_state" where
  "power_save_keep_timer_stop s = s\<lparr>ps_keep_timer := (ps_keep_timer s)\<lparr>tm_running := False\<rparr>, ps_keep_timer_status := 0\<rparr>"

definition power_save_keep_timer_init :: "ps_state \<Rightarrow> ps_state" where
  "power_save_keep_timer_init s =
     (let s = (if tm_init (ps_keep_timer s)
               then (power_save_keep_timer_stop s)\<lparr>ps_keep_timer := \<lparr>tm_init = False, tm_running = False\<rparr>\<rparr> else s)
      in if 0 < ps_keep_timer_period s then s\<lparr>ps_keep_timer := \<lparr>tm_init = True, tm_running = False\<rparr>\<rparr> else s)"

definition power_save_set_keep_timer_time :: "u32 \<Rightarrow> ps_state \<Rightarrow> ps_state" where
  "power_save_set_keep_timer_time time s =
     (if time < 500 then power_save_keep_timer_init (s\<lparr>ps_keep_timer_period := time\<rparr>) else s)"

definition power_save_keep_timer_set :: "ps_state \<Rightarrow> ps_state" where
  "power_save_keep_timer_set s =
     (if tm_init (ps_keep_timer s) \<and> ps_keep_timer_status s = 0
      then s\<lparr>ps_keep_timer_status := 1, ps_keep_timer := (ps_keep_timer s)\<lparr>tm_running := True\<rparr>\<rparr> else s)"

definition power_save_beacon_state_set :: "PS_STA_BEACON_STATE \<Rightarrow> ps_state \<Rightarrow> ps_state" where
  "power_save_beacon_state_set st = upd_info (\<lambda>i. i\<lparr>waited_beacon := st\<rparr>)"

definition PS_BCN_MAX_LOSS_LIMIT :: u32 where "PS_BCN_MAX_LOSS_LIMIT = 5"

definition bmsg_null_sender :: "ps_state \<Rightarrow> ps_state" where
  "bmsg_null_sender s = (if io_queue s = [] then bmsg_push BMSG_OTHER s else s)"

definition power_save_keep_timer_real_handler :: "ps_env \<Rightarrow> ps_state \<Rightarrow> ps_state" where
  "power_save_keep_timer_real_handler e s =
     (if PS_STA_DTIM_SWITCH e s \<and> ps_arm_wakeup_way (bk_ps_info s) = PS_ARM_WAKEUP_RW \<and> \<not> ps_real_sleep (bk_ps_info s)
      then
        (if ps_keep_timer_flag s \<and> waited_beacon (bk_ps_info s) \<noteq> STA_GET_TRUE
         then bmsg_ps_sender RF_KP_SET (s\<lparr>ps_keep_timer_flag := False\<rparr>)
         else if \<not> ps_reseted_moniter_flag s \<and> ps_bcn_loss_max_count s < PS_BCN_MAX_LOSS_LIMIT
         then
           (let s = power_save_clr_all_vif_prevent_sleep PS_VIF_WAITING_BCN (power_save_beacon_state_set STA_GET_TRUE s)
            in bmsg_null_sender (s\<lparr>ps_bcn_loss_max_count := ps_bcn_loss_max_count s + 1\<rparr>))
         else bmsg_null_sender (s\<lparr>ps_reseted_moniter_flag := False\<rparr>))
      else s)"

definition power_save_wait_timer_stop :: "ps_state \<Rightarrow> ps_state" where
  "power_save_wait_timer_stop s = s\<lparr>ps_wait_timer := (ps_wait_timer s)\<lparr>tm_running := False\<rparr>, ps_wait_timer_status := 0\<rparr>"

definition power_save_wait_timer_init :: "ps_state \<Rightarrow> ps_state" where
  "power_save_wait_timer_init s =
     (if tm_init (ps_wait_timer s) then power_save_wait_timer_stop s else s)\<lparr>ps_wait_timer := \<lparr>tm_init = True, tm_running = False\<rparr>\<rparr>"

definition power_save_wait_timer_real_handler :: "ps_env \<Rightarrow> ps_state \<Rightarrow> ps_state" where
  "power_save_wait_timer_real_handler e s =
     (let s = power_save_wait_timer_stop s in if PS_STA_DTIM_SWITCH e s then power_save_beacon_state_set STA_GET_TRUE s else s)"

definition power_save_wait_timer_set :: "ps_env \<Rightarrow> ps_state \<Rightarrow> ps_state" where
  "power_save_wait_timer_set e s = (if PS_STA_DTIM_SWITCH e s then bmsg_ps_sender WAIT_TM_SET s else s)"

definition power_save_wait_timer_start :: "ps_state \<Rightarrow> ps_state" where
  "power_save_wait_timer_start s =
     (if tm_init (ps_wait_timer s) \<and> ps_wait_timer_status s = 0
      then (power_save_beacon_state_set STA_GET_FALSE (s\<lparr>ps_wait_timer_status := 1\<rparr>))\<lparr>ps_wait_timer := (ps_wait_timer s)\<lparr>tm_running := True\<rparr>\<rparr>
      else s)"

text \<open>\<open>irq\<close>: the call is made in an interrupt.\<close>

definition power_save_beacon_state_update :: "bool \<Rightarrow> ps_env \<Rightarrow> ps_state \<Rightarrow> ps_state" where
  "power_save_beacon_state_update irq e s =
     (let s = (if PS_STA_DTIM_SWITCH e s \<and> ps_can_sleep (bk_ps_info s) \<and> waited_beacon (bk_ps_info s) = STA_GET_INIT
               then power_save_beacon_state_set STA_GET_FALSE s else s)
      in if PS_STA_DTIM_SWITCH e s \<and> waited_beacon (bk_ps_info s) \<noteq> STA_GET_TRUE
         then (let s = (power_save_beacon_state_set STA_GET_TRUE s)\<lparr>ps_bcn_loss_max_count := 0\<rparr>
               in if \<not> irq \<and> ps_keep_timer_status s = 1 then power_save_keep_timer_stop s else s)
         else s)"

subsection \<open>Turning power save on and off\<close>

definition power_save_get_rf_ps_dtim_time :: "ps_state \<Rightarrow> u32" where
  "power_save_get_rf_ps_dtim_time s =
     (let i = bk_ps_info s in ucast (ps_dtim_period i) * ucast (ps_dtim_multi i) * ucast (ps_beacon_int i))"

definition power_save_get_wkup_less_time :: "ps_state \<Rightarrow> u32" where
  "power_save_get_wkup_less_time s =
     (let i = bk_ps_info s in
      if listen_mode i = PS_LISTEN_MODE_DTIM
      then ucast (ps_dtim_period i) * ucast (ps_dtim_multi i) * ucast (ps_beacon_int i) * 15
      else ucast (listen_int i) * ucast (ps_beacon_int i) * 15)"

definition power_save_set_dtim_multi :: "u8 \<Rightarrow> ps_state \<Rightarrow> ps_state" where
  "power_save_set_dtim_multi multi =
     upd_info (\<lambda>i. i\<lparr>ps_dtim_multi := if 0 < multi \<and> multi < 100 then multi else 1, listen_mode := PS_LISTEN_MODE_DTIM\<rparr>)"

definition power_save_set_dtim_period :: "u8 \<Rightarrow> ps_state \<Rightarrow> ps_state" where
  "power_save_set_dtim_period period = upd_info (\<lambda>i. i\<lparr>ps_dtim_period := period\<rparr>)"

definition power_save_cal_bcn_listen_int :: "u16 \<Rightarrow> ps_state \<Rightarrow> ps_state" where
  "power_save_cal_bcn_listen_int bcn_int s = (if bcn_int \<noteq> 0 then upd_info (\<lambda>i. i\<lparr>ps_beacon_int := bcn_int\<rparr>) s else s)"

definition PS_DTIM_COUNT :: u8 where "PS_DTIM_COUNT = 1"

definition power_save_set_listen_int :: "u16 \<Rightarrow> ps_state \<Rightarrow> ps_state" where
  "power_save_set_listen_int li = upd_info (\<lambda>i. i\<lparr>listen_int := if 100 < li \<or> li = 0 then PS_DTIM_COUNT else ucast li\<rparr>)"

definition active_sta :: "ps_state \<Rightarrow> nat \<Rightarrow> bool" where
  "active_sta s i \<longleftrightarrow> vif_active (ps_vifs s ! i) \<and> vif_is_sta (ps_vifs s ! i)"

definition other_role_active :: "ps_state \<Rightarrow> bool" where
  "other_role_active s \<longleftrightarrow> list_ex (\<lambda>v. vif_active v \<and> \<not> vif_is_sta v) (ps_vifs s)"

definition ke_send_all :: "(nat \<Rightarrow> ke_req) \<Rightarrow> nat list \<Rightarrow> ps_state \<Rightarrow> ps_state" where
  "ke_send_all f is s = s\<lparr>ke_msgs := ke_msgs s @ map f (filter (active_sta s) is)\<rparr>"

definition power_save_me_ps_first_set_state :: "u8 \<Rightarrow> ps_state \<Rightarrow> ps_state" where
  "power_save_me_ps_first_set_state state s = ke_send_all (ME_PS_REQ state) (used_list s) s"

definition power_save_me_ps_set_all_state :: "u8 \<Rightarrow> ps_state \<Rightarrow> ps_state" where
  "power_save_me_ps_set_all_state state s =
     (if state = 0 \<and> other_role_active s then s
      else ke_send_all (ME_SET_PS_DISABLE_REQ state) [0..<length (ps_vifs s)] s)"

definition power_save_sm_set_all_listen_interval :: "u16 \<Rightarrow> ps_state \<Rightarrow> ps_state" where
  "power_save_sm_set_all_listen_interval interval s =
     (if interval = s_interval s \<or> other_role_active s then s
      else (ke_send_all (MM_SET_PS_OPTIONS_REQ 0 (ucast interval)) [0..<length (ps_vifs s)] s)\<lparr>s_interval := interval\<rparr>)"

definition power_save_sm_set_all_bcmc :: "u8 \<Rightarrow> ps_state \<Rightarrow> ps_state" where
  "power_save_sm_set_all_bcmc bcmc s =
     (if other_role_active s then s else ke_send_all (MM_SET_PS_OPTIONS_REQ bcmc 0) [0..<length (ps_vifs s)] s)"

definition power_save_dtim_ps_init :: "ps_state \<Rightarrow> ps_state" where
  "power_save_dtim_ps_init = upd_info (\<lambda>i. i\<lparr>sleep_count := 0, sleep_first := True, ps_can_sleep := True\<rparr>)"

definition power_save_dtim_ps_exit :: "ps_state \<Rightarrow> ps_state" where
  "power_save_dtim_ps_exit s =
     (let s = power_save_wait_timer_stop (power_save_keep_timer_stop s); s = s\<lparr>nxmac := (nxmac s)\<lparr>nxmac_beacon_int := 0\<rparr>\<rparr>
      in upd_info (\<lambda>i. i\<lparr>sleep_count := 0, ps_dtim_period := 1, ps_dtim_multi := 1, waited_beacon := STA_GET_INIT,
           sleep_first := True, ps_can_sleep := False, ps_real_sleep := False\<rparr>) s)"

definition sta_connected :: "rw_evt_type \<Rightarrow> bool" where
  "sta_connected st \<longleftrightarrow> st = RW_EVT_STA_CONNECTED \<or> st = RW_EVT_STA_GOT_IP"

definition power_save_dtim_enable_handler :: "ps_env \<Rightarrow> ps_state \<Rightarrow> ps_state" where
  "power_save_dtim_enable_handler e s =
     (if sta_connected (mhdr_get_station_status e)
      then
        (let t = power_save_get_rf_ps_dtim_time s;
             s = power_save_set_dtim_multi (if 0 < t \<and> t < 75 then ucast (75 div t + 1) else 1) s;
             s = (power_save_dtim_ps_init s)\<lparr>bk_ps_mode := PS_DTIM_PS_MODE\<rparr>
         in power_save_wait_timer_init s)
      else s)"

text \<open>The confirmation without the restart that \<open>NEED_REBOOT_BIT\<close> asks for.\<close>

definition power_save_dtim_disable_handler :: "ps_state \<Rightarrow> ps_state" where
  "power_save_dtim_disable_handler s = power_save_dtim_ps_exit (s\<lparr>bk_ps_mode := PS_NO_PS_MODE\<rparr>)"

definition PS_MODE_ON_DYN :: u8 where "PS_MODE_ON_DYN = 2"

definition power_save_dtim_enable :: "ps_env \<Rightarrow> ps_state \<Rightarrow> int \<times> ps_state" where
  "power_save_dtim_enable e s =
     (if \<not> net_if_is_up e then (-1, s)
      else if wpa_psk_cal_pending e then (-1, s)
      else if \<not> only_sta e then (-1, s)
      else if bk_ps_mode s \<noteq> PS_NO_PS_MODE then (-1, s)
      else (0, power_save_me_ps_first_set_state PS_MODE_ON_DYN s))"

definition power_save_dtim_disable :: "ps_state \<Rightarrow> ps_state" where
  "power_save_dtim_disable s = (if bk_ps_mode s = PS_DTIM_PS_MODE then power_save_me_ps_set_all_state 1 s else s)"

subsection \<open>The interface of \<open>wlan_ui.c\<close>\<close>

text \<open>A task that finds the MAC asleep puts its semaphore into the list, asks for the wake-up and waits.\<close>

definition power_save_rf_ps_wkup_semlist_wait :: "nat \<Rightarrow> ps_state \<Rightarrow> ps_state" where
  "power_save_rf_ps_wkup_semlist_wait t s = bmsg_ps_sender RF_USER_WKUP (upd_info (\<lambda>i. i\<lparr>wk_list := wk_list i @ [t]\<rparr>) s)"

definition bk_wlan_dtim_rf_ps_mode_do_wakeup :: "nat \<Rightarrow> ps_state \<Rightarrow> ps_state" where
  "bk_wlan_dtim_rf_ps_mode_do_wakeup t s =
     (if power_save_if_ps_rf_dtim_enabled s \<and> power_save_if_rf_sleep s then power_save_rf_ps_wkup_semlist_wait t s else s)"

definition bk_wlan_dtim_rf_ps_mode_enable :: "ps_state \<Rightarrow> ps_state" where
  "bk_wlan_dtim_rf_ps_mode_enable s = bmsg_ps_sender RF_ENABLE (s\<lparr>rf_ps_enabled := True\<rparr>)"

definition bk_wlan_dtim_rf_ps_mode_disable :: "ps_state \<Rightarrow> ps_state" where
  "bk_wlan_dtim_rf_ps_mode_disable s = power_save_dtim_rf_ps_disable_send_msg (s\<lparr>rf_ps_enabled := False\<rparr>)"

definition auto_check_dtim_rf_ps_mode :: "ps_state \<Rightarrow> ps_state" where
  "auto_check_dtim_rf_ps_mode s = (if rf_ps_enabled s then bmsg_ps_sender RF_ENABLE s else s)"

definition bk_wlan_dtim_rf_ps_timer_start :: "ps_state \<Rightarrow> ps_state" where
  "bk_wlan_dtim_rf_ps_timer_start = bmsg_ps_sender RF_PS_TIMER_INIT"

definition bk_wlan_dtim_rf_ps_timer_pause :: "ps_state \<Rightarrow> ps_state" where
  "bk_wlan_dtim_rf_ps_timer_pause = bmsg_ps_sender RF_PS_TIMER_DEINIT"

definition power_save_delay_sleep_check :: "ps_state \<Rightarrow> ps_state" where
  "power_save_delay_sleep_check = bmsg_ps_sender RF_TD_SET"

subsection \<open>The messages to the core thread\<close>

text \<open>\<open>RF_TD_SET\<close> and \<open>RF_TD_STOP\<close> start and stop a timer of the MAC library.\<close>

fun ps_msg_process :: "ps_env \<Rightarrow> ps_msg \<Rightarrow> ps_state \<Rightarrow> ps_state option" where
  "ps_msg_process e RF_ENABLE s = Some (snd (power_save_dtim_enable e s))"
| "ps_msg_process e RF_USER_WKUP s = power_save_rf_dtim_manual_do_wakeup s"
| "ps_msg_process e RF_DISABLE s = map_option power_save_dtim_disable (power_save_rf_dtim_manual_do_wakeup s)"
| "ps_msg_process e RF_TD_SET s = Some s"
| "ps_msg_process e RF_TD_STOP s = Some s"
| "ps_msg_process e WAIT_TM_HANDLER s = Some (power_save_wait_timer_real_handler e s)"
| "ps_msg_process e WAIT_TM_SET s = Some (power_save_wait_timer_start s)"
| "ps_msg_process e RF_KP_HANDLER s = Some (power_save_keep_timer_real_handler e s)"
| "ps_msg_process e RF_KP_SET s = Some (power_save_keep_timer_set s)"
| "ps_msg_process e RF_KP_STOP s = Some (power_save_keep_timer_stop s)"
| "ps_msg_process e RF_PS_TIMER_INIT s = Some (power_save_set_keep_timer_time 20 s)"
| "ps_msg_process e RF_PS_TIMER_DEINIT s = Some (power_save_set_keep_timer_time 0 s)"

text \<open>
  One round of \<open>core_thread_main\<close>: a message is taken; \<open>RF_DISABLE\<close> is handled before the events of the MAC run, the other
  messages of this part after them; then the sleep check.  \<open>Core_run m\<close> is the time when the events run, with the message
  that waits for its handling.
\<close>

datatype core_pc = Core_wait | Core_run "ps_msg option"

fun core_take :: "ps_env \<Rightarrow> ps_state \<Rightarrow> (core_pc \<times> ps_state) option" where
  "core_take e s =
     (case io_queue s of
        [] \<Rightarrow> Some (Core_wait, s)
      | BMSG_OTHER # q \<Rightarrow> Some (Core_run None, s\<lparr>io_queue := q\<rparr>)
      | BMSG_STA_PS_TYPE m # q \<Rightarrow>
          (if m = RF_DISABLE then map_option (\<lambda>s. (Core_run None, s)) (ps_msg_process e m (s\<lparr>io_queue := q\<rparr>))
           else Some (Core_run (Some m), s\<lparr>io_queue := q\<rparr>)))"

definition core_finish :: "ps_env \<Rightarrow> ps_env \<Rightarrow> ps_msg option \<Rightarrow> ps_state \<Rightarrow> ps_state option" where
  "core_finish e1 e2 p s =
     map_option (power_save_rf_sleep_check e2) (case p of None \<Rightarrow> Some s | Some m \<Rightarrow> ps_msg_process e1 m s)"

text \<open>The timers call back in a task of their own.\<close>

definition power_save_keep_timer_handler :: "ps_state \<Rightarrow> ps_state" where
  "power_save_keep_timer_handler s = bmsg_ps_sender RF_KP_HANDLER (s\<lparr>ps_keep_timer := (ps_keep_timer s)\<lparr>tm_running := False\<rparr>\<rparr>)"

definition power_save_wait_timer_handler :: "ps_state \<Rightarrow> ps_state" where
  "power_save_wait_timer_handler s = bmsg_ps_sender WAIT_TM_HANDLER (s\<lparr>ps_wait_timer := (ps_wait_timer s)\<lparr>tm_running := False\<rparr>\<rparr>)"

definition power_save_set_reseted_flag :: "ps_state \<Rightarrow> ps_state" where
  "power_save_set_reseted_flag s = s\<lparr>ps_reseted_moniter_flag := True\<rparr>"

end
