(* ===== verification/PowerSteps.thy ===== *)
theory PowerSteps
  imports PowerSave "HOL-Library.Sublist"
begin

text \<open>
  What may happen to the power save of \<open>PowerSave\<close> and in what order: the rounds of the core thread, the events of the MAC,
  interrupts, timers, the calls of other tasks, and the parts that hold the radio.  The states that are reached are asleep or awake
  as a whole, and no step loses a waiting task or a message; only the confirmation that power save is off, when it comes while
  the MAC sleeps, leads to a third state, for good.
\<close>

subsection \<open>Steps\<close>

text \<open>
  \<open>Take\<close> and \<open>Finish\<close> bound a round of the core thread.  The confirmations of the MAC run inside a round.  The hold bits of the
  radio are set and cleared by any part at any time.
\<close>

datatype ps_event = Take ps_env | Finish ps_env ps_env | EnableCfm ps_env | DisableCfm | Beacon bool ps_env | WaitSet ps_env
  | MacFiq u32 | KeepTimeout | WaitTimeout | OtherMsg | ManualWake | DoWakeup nat | ModeEnable | ModeDisable | AutoCheck
  | TimerStart | TimerPause | DelayCheck | SetMulti u8 | SetPeriod u8 | SetBcnInt u16 | SetListenInt u16 | SetInterval u16
  | SetBcmc u8 | SetReseted | RfHoldSet u32 | RfHoldClear u32

fun ps_may :: "ps_event \<Rightarrow> core_pc \<times> ps_state \<Rightarrow> bool" where
  "ps_may (Take e) (pc, s) \<longleftrightarrow> pc = Core_wait \<and> io_queue s \<noteq> []"
| "ps_may (Finish e1 e2) (pc, s) \<longleftrightarrow> pc \<noteq> Core_wait"
| "ps_may (EnableCfm e) (pc, s) \<longleftrightarrow> pc \<noteq> Core_wait"
| "ps_may DisableCfm (pc, s) \<longleftrightarrow> pc \<noteq> Core_wait"
| "ps_may KeepTimeout (pc, s) \<longleftrightarrow> tm_running (ps_keep_timer s)"
| "ps_may WaitTimeout (pc, s) \<longleftrightarrow> tm_running (ps_wait_timer s)"
| "ps_may _ _ \<longleftrightarrow> True"

fun ps_act :: "ps_event \<Rightarrow> core_pc \<times> ps_state \<Rightarrow> (core_pc \<times> ps_state) option" where
  "ps_act (Take e) (pc, s) = core_take e s"
| "ps_act (Finish e1 e2) (pc, s) =
     (case pc of Core_wait \<Rightarrow> Some (pc, s) | Core_run p \<Rightarrow> map_option (Pair Core_wait) (core_finish e1 e2 p s))"
| "ps_act (EnableCfm e) (pc, s) = Some (pc, power_save_dtim_enable_handler e s)"
| "ps_act DisableCfm (pc, s) = Some (pc, power_save_dtim_disable_handler s)"
| "ps_act (Beacon irq e) (pc, s) = Some (pc, power_save_beacon_state_update irq e s)"
| "ps_act (WaitSet e) (pc, s) = Some (pc, power_save_wait_timer_set e s)"
| "ps_act (MacFiq status) (pc, s) = map_option (Pair pc) (power_save_dtim_wake status s)"
| "ps_act KeepTimeout (pc, s) = Some (pc, power_save_keep_timer_handler s)"
| "ps_act WaitTimeout (pc, s) = Some (pc, power_save_wait_timer_handler s)"
| "ps_act OtherMsg (pc, s) = Some (pc, bmsg_push BMSG_OTHER s)"
| "ps_act ManualWake (pc, s) = map_option (Pair pc) (power_save_rf_dtim_manual_do_wakeup s)"
| "ps_act (DoWakeup t) (pc, s) = Some (pc, bk_wlan_dtim_rf_ps_mode_do_wakeup t s)"
| "ps_act ModeEnable (pc, s) = Some (pc, bk_wlan_dtim_rf_ps_mode_enable s)"
| "ps_act ModeDisable (pc, s) = Some (pc, bk_wlan_dtim_rf_ps_mode_disable s)"
| "ps_act AutoCheck (pc, s) = Some (pc, auto_check_dtim_rf_ps_mode s)"
| "ps_act TimerStart (pc, s) = Some (pc, bk_wlan_dtim_rf_ps_timer_start s)"
| "ps_act TimerPause (pc, s) = Some (pc, bk_wlan_dtim_rf_ps_timer_pause s)"
| "ps_act DelayCheck (pc, s) = Some (pc, power_save_delay_sleep_check s)"
| "ps_act (SetMulti m) (pc, s) = Some (pc, power_save_set_dtim_multi m s)"
| "ps_act (SetPeriod p) (pc, s) = Some (pc, power_save_set_dtim_period p s)"
| "ps_act (SetBcnInt b) (pc, s) = Some (pc, power_save_cal_bcn_listen_int b s)"
| "ps_act (SetListenInt l) (pc, s) = Some (pc, power_save_set_listen_int l s)"
| "ps_act (SetInterval l) (pc, s) = Some (pc, power_save_sm_set_all_listen_interval l s)"
| "ps_act (SetBcmc b) (pc, s) = Some (pc, power_save_sm_set_all_bcmc b s)"
| "ps_act SetReseted (pc, s) = Some (pc, power_save_set_reseted_flag s)"
| "ps_act (RfHoldSet b) (pc, s) = Some (pc, power_save_rf_hold_bit_set b s)"
| "ps_act (RfHoldClear b) (pc, s) = Some (pc, power_save_rf_hold_bit_clear b s)"

inductive ps_run :: "core_pc \<times> ps_state \<Rightarrow> ps_event list \<Rightarrow> core_pc \<times> ps_state \<Rightarrow> bool" where
  ps_run_Nil: "ps_run c [] c"
| ps_run_Cons: "ps_may ev c \<Longrightarrow> ps_act ev c = Some c1 \<Longrightarrow> ps_run c1 evs c2 \<Longrightarrow> ps_run c (ev # evs) c2"

inductive_simps ps_run_simps: "ps_run c [] c2" "ps_run c (ev # evs) c2"

text \<open>The variables when the station was started: it holds the radio, and the interrupts of the MAC are enabled.\<close>

definition ps_start :: "ps_state \<Rightarrow> bool" where
  "ps_start s \<longleftrightarrow> bk_ps_mode s = PS_NO_PS_MODE \<and> ps_arm_wakeup_way (bk_ps_info s) = PS_ARM_WAKEUP_NONE
     \<and> \<not> ps_real_sleep (bk_ps_info s) \<and> \<not> ps_can_sleep (bk_ps_info s) \<and> wk_list (bk_ps_info s) = [] \<and> ps_lock s = 1
     \<and> rf_hold_status s AND RF_HOLD_BY_STA_BIT \<noteq> 0 \<and> \<not> rf_sleeped s \<and> \<not> sta_rf_sleeped s
     \<and> int_enable s AND mac_int_bits = mac_int_bits"

definition ps_reach :: "core_pc \<times> ps_state \<Rightarrow> bool" where
  "ps_reach c \<longleftrightarrow> (\<exists>s evs. ps_start s \<and> ps_run (Core_wait, s) evs c)"

subsection \<open>Asleep or awake\<close>

definition ps_asleep :: "ps_state \<Rightarrow> bool" where
  "ps_asleep s \<longleftrightarrow> ps_real_sleep (bk_ps_info s) \<and> ps_lock s = 0 \<and> bk_ps_mode s = PS_DTIM_PS_MODE
     \<and> ps_arm_wakeup_way (bk_ps_info s) = PS_ARM_WAKEUP_NONE
     \<and> int_enable s AND mac_int_bits = 0 \<and> int_enable s AND FIQ_MAC_WAKEUP \<noteq> 0"

definition ps_awake :: "ps_state \<Rightarrow> bool" where
  "ps_awake s \<longleftrightarrow> \<not> ps_real_sleep (bk_ps_info s) \<and> ps_lock s = 1 \<and> \<not> sta_rf_sleeped s
     \<and> int_enable s AND mac_int_bits = mac_int_bits \<and> wk_list (bk_ps_info s) = []"

text \<open>The third state: power save was confirmed to be off while the MAC slept.\<close>

definition ps_lost :: "ps_state \<Rightarrow> bool" where
  "ps_lost s \<longleftrightarrow> \<not> ps_real_sleep (bk_ps_info s) \<and> ps_lock s = 0 \<and> int_enable s AND mac_int_bits = 0"

fun ps_disabled_asleep :: "ps_event list \<Rightarrow> core_pc \<times> ps_state \<Rightarrow> bool" where
  "ps_disabled_asleep [] c \<longleftrightarrow> False"
| "ps_disabled_asleep (ev # evs) c \<longleftrightarrow> (ev = DisableCfm \<and> ps_real_sleep (bk_ps_info (snd c))) \<or>
     (case ps_act ev c of None \<Rightarrow> False | Some c1 \<Rightarrow> ps_disabled_asleep evs c1)"

text \<open>
  The radio is off when nobody holds it.  As long as nobody else clears (\<open>cl\<close>) the bit of the station, a station that has not given
  the radio up holds it; as long as nobody else sets (\<open>st\<close>) it, a station that has given it up does not hold it; and as long as the
  access point does not use it (\<open>ap\<close>), the station has given it up when the MAC sleeps.
\<close>

definition ps_radio :: "bool \<Rightarrow> bool \<Rightarrow> bool \<Rightarrow> ps_state \<Rightarrow> bool" where
  "ps_radio cl st ap s \<longleftrightarrow> (rf_sleeped s \<longleftrightarrow> rf_hold_status s = 0)
     \<and> (cl \<longrightarrow> \<not> sta_rf_sleeped s \<longrightarrow> rf_hold_status s AND RF_HOLD_BY_STA_BIT \<noteq> 0)
     \<and> (st \<longrightarrow> sta_rf_sleeped s \<longrightarrow> rf_hold_status s AND RF_HOLD_BY_STA_BIT = 0)
     \<and> (ap \<longrightarrow> power_save_if_rf_sleep s \<longrightarrow> sta_rf_sleeped s)"

fun keeps_sta_bit :: "ps_event \<Rightarrow> bool" where
  "keeps_sta_bit (RfHoldClear b) \<longleftrightarrow> b AND RF_HOLD_BY_STA_BIT = 0"
| "keeps_sta_bit _ \<longleftrightarrow> True"

fun leaves_sta_bit :: "ps_event \<Rightarrow> bool" where
  "leaves_sta_bit (RfHoldSet b) \<longleftrightarrow> b AND RF_HOLD_BY_STA_BIT = 0"
| "leaves_sta_bit _ \<longleftrightarrow> True"

fun ap_off :: "ps_event \<Rightarrow> bool" where
  "ap_off (Finish e1 e2) \<longleftrightarrow> ap_if_ap_rf_sleep e2"
| "ap_off _ \<longleftrightarrow> True"

text \<open>What they depend on; most operations leave it alone.\<close>

definition ps_core :: "ps_state \<Rightarrow> PS_MODE_STATUS \<times> PS_ARM_WAKEUP_WAY \<times> bool \<times> u8 \<times> u32 \<times> nat list \<times> nat list
    \<times> (u32 \<times> bool \<times> bool)" where
  "ps_core s = (bk_ps_mode s, ps_arm_wakeup_way (bk_ps_info s), ps_real_sleep (bk_ps_info s), ps_lock s, int_enable s,
     wk_list (bk_ps_info s), released s, rf_hold_status s, rf_sleeped s, sta_rf_sleeped s)"

lemma ps_core_cong:
  "ps_core s = ps_core s' \<Longrightarrow> ps_asleep s = ps_asleep s'" "ps_core s = ps_core s' \<Longrightarrow> ps_awake s = ps_awake s'"
  "ps_core s = ps_core s' \<Longrightarrow> ps_lost s = ps_lost s'" "ps_core s = ps_core s' \<Longrightarrow> ps_radio cl st ap s = ps_radio cl st ap s'"
  by (auto simp: ps_core_def ps_asleep_def ps_awake_def ps_lost_def ps_radio_def power_save_if_rf_sleep_def)

named_theorems ps_frame \<open>operations that leave the core of the state alone\<close>

lemma ps_core_push [ps_frame]:
  "ps_core (bmsg_push m s) = ps_core s" "ps_core (bmsg_ps_sender p s) = ps_core s" "ps_core (bmsg_null_sender s) = ps_core s"
  by (auto simp: bmsg_push_def bmsg_ps_sender_def bmsg_null_sender_def ps_core_def)

lemmas ps_small_defs = upd_info_def ps_core_def power_save_set_all_vif_prevent_sleep_def power_save_clr_all_vif_prevent_sleep_def
  power_save_keep_timer_stop_def power_save_keep_timer_set_def power_save_beacon_state_set_def power_save_wait_timer_stop_def
  power_save_wait_timer_init_def power_save_wait_timer_start_def power_save_set_dtim_multi_def power_save_set_dtim_period_def
  power_save_cal_bcn_listen_int_def power_save_set_listen_int_def power_save_dtim_ps_init_def power_save_set_reseted_flag_def
  power_save_wkup_event_clear_def ke_send_all_def power_save_me_ps_first_set_state_def power_save_me_ps_set_all_state_def
  power_save_sm_set_all_listen_interval_def power_save_sm_set_all_bcmc_def power_save_dtim_disable_def Let_def
  power_save_wkup_time_cal_def power_save_mac_idle_callback_def

lemma ps_core_small [ps_frame]:
  "ps_core (power_save_set_all_vif_prevent_sleep b s) = ps_core s" "ps_core (power_save_clr_all_vif_prevent_sleep b s) = ps_core s"
  "ps_core (power_save_keep_timer_stop s) = ps_core s" "ps_core (power_save_keep_timer_set s) = ps_core s"
  "ps_core (power_save_beacon_state_set st s) = ps_core s" "ps_core (power_save_wait_timer_stop s) = ps_core s"
  "ps_core (power_save_wait_timer_init s) = ps_core s" "ps_core (power_save_wait_timer_start s) = ps_core s"
  "ps_core (power_save_set_dtim_multi m s) = ps_core s" "ps_core (power_save_set_dtim_period p s) = ps_core s"
  "ps_core (power_save_cal_bcn_listen_int c s) = ps_core s" "ps_core (power_save_set_listen_int c s) = ps_core s"
  "ps_core (power_save_dtim_ps_init s) = ps_core s" "ps_core (power_save_set_reseted_flag s) = ps_core s"
  "ps_core (power_save_wkup_event_clear v s) = ps_core s" "ps_core (ke_send_all f is s) = ps_core s"
  "ps_core (power_save_me_ps_first_set_state x s) = ps_core s" "ps_core (power_save_me_ps_set_all_state x s) = ps_core s"
  "ps_core (power_save_sm_set_all_listen_interval l s) = ps_core s" "ps_core (power_save_sm_set_all_bcmc x s) = ps_core s"
  "ps_core (power_save_dtim_disable s) = ps_core s" "ps_core (power_save_mac_idle_callback s) = ps_core s"
  by (simp_all add: ps_small_defs)

lemma ps_core_upd [ps_frame]:
  "ps_core (s\<lparr>ps_keep_timer := t\<rparr>) = ps_core s" "ps_core (s\<lparr>ps_wait_timer := t\<rparr>) = ps_core s"
  "ps_core (s\<lparr>ps_keep_timer_period := n\<rparr>) = ps_core s" "ps_core (s\<lparr>ps_keep_timer_flag := b\<rparr>) = ps_core s"
  "ps_core (s\<lparr>ps_bcn_loss_max_count := n\<rparr>) = ps_core s" "ps_core (s\<lparr>ps_reseted_moniter_flag := b\<rparr>) = ps_core s"
  "ps_core (s\<lparr>io_queue := q\<rparr>) = ps_core s" "ps_core (s\<lparr>rf_ps_enabled := b\<rparr>) = ps_core s"
  "ps_core (s\<lparr>int_enable_reg_save := n\<rparr>) = ps_core s"
  by (simp_all add: ps_core_def)

lemma ps_core_timers [ps_frame]:
  "ps_core (power_save_set_keep_timer_time n s) = ps_core s" "ps_core (power_save_keep_timer_handler s) = ps_core s"
  "ps_core (power_save_wait_timer_handler s) = ps_core s" "ps_core (power_save_wait_timer_real_handler e s) = ps_core s"
  "ps_core (power_save_keep_timer_real_handler e s) = ps_core s" "ps_core (power_save_wait_timer_set e s) = ps_core s"
  "ps_core (power_save_beacon_state_update irq e s) = ps_core s"
  by (simp_all add: power_save_set_keep_timer_time_def power_save_keep_timer_init_def power_save_keep_timer_handler_def
      power_save_wait_timer_handler_def power_save_wait_timer_real_handler_def power_save_keep_timer_real_handler_def
      power_save_wait_timer_set_def power_save_beacon_state_update_def Let_def ps_frame)

lemma ps_core_calls [ps_frame]:
  "ps_core (power_save_dtim_rf_ps_disable_send_msg s) = ps_core s" "ps_core (power_save_dtim_exit_check s) = ps_core s"
  "ps_core (snd (power_save_dtim_enable e s)) = ps_core s" "ps_core (bk_wlan_dtim_rf_ps_mode_enable s) = ps_core s"
  "ps_core (bk_wlan_dtim_rf_ps_mode_disable s) = ps_core s" "ps_core (auto_check_dtim_rf_ps_mode s) = ps_core s"
  "ps_core (bk_wlan_dtim_rf_ps_timer_start s) = ps_core s" "ps_core (bk_wlan_dtim_rf_ps_timer_pause s) = ps_core s"
  "ps_core (power_save_delay_sleep_check s) = ps_core s"
  by (simp_all add: power_save_dtim_rf_ps_disable_send_msg_def power_save_dtim_exit_check_def power_save_dtim_enable_def
      bk_wlan_dtim_rf_ps_mode_enable_def bk_wlan_dtim_rf_ps_mode_disable_def auto_check_dtim_rf_ps_mode_def
      bk_wlan_dtim_rf_ps_timer_start_def bk_wlan_dtim_rf_ps_timer_pause_def power_save_delay_sleep_check_def ps_frame)

lemmas ps_frame_inv = ps_frame [THEN ps_core_cong(1)] ps_frame [THEN ps_core_cong(2)] ps_frame [THEN ps_core_cong(3)]
  ps_frame [THEN ps_core_cong(4)]

text \<open>Messages are only appended.\<close>

named_theorems ps_queue \<open>what operations do to the queue\<close>

lemma io_queue_small [ps_queue]:
  "io_queue (power_save_set_all_vif_prevent_sleep b s) = io_queue s" "io_queue (power_save_clr_all_vif_prevent_sleep b s) = io_queue s"
  "io_queue (power_save_keep_timer_stop s) = io_queue s" "io_queue (power_save_keep_timer_set s) = io_queue s"
  "io_queue (power_save_beacon_state_set st s) = io_queue s" "io_queue (power_save_wait_timer_stop s) = io_queue s"
  "io_queue (power_save_wait_timer_init s) = io_queue s" "io_queue (power_save_wait_timer_start s) = io_queue s"
  "io_queue (power_save_set_dtim_multi m s) = io_queue s" "io_queue (power_save_set_dtim_period p s) = io_queue s"
  "io_queue (power_save_cal_bcn_listen_int c s) = io_queue s" "io_queue (power_save_set_listen_int c s) = io_queue s"
  "io_queue (power_save_dtim_ps_init s) = io_queue s" "io_queue (power_save_set_reseted_flag s) = io_queue s"
  "io_queue (power_save_wkup_event_clear v s) = io_queue s" "io_queue (ke_send_all f is s) = io_queue s"
  "io_queue (power_save_me_ps_first_set_state x s) = io_queue s" "io_queue (power_save_me_ps_set_all_state x s) = io_queue s"
  "io_queue (power_save_sm_set_all_listen_interval l s) = io_queue s" "io_queue (power_save_sm_set_all_bcmc x s) = io_queue s"
  "io_queue (power_save_dtim_disable s) = io_queue s" "io_queue (power_save_mac_idle_callback s) = io_queue s"
  "io_queue (upd_info g s) = io_queue s" "io_queue (power_save_rf_ps_wkup_semlist_set s) = io_queue s"
  "io_queue (power_save_sleep_status_set s) = io_queue s"
  by (simp_all add: ps_small_defs power_save_rf_ps_wkup_semlist_set_def power_save_sleep_status_set_def)

lemma io_queue_push [ps_queue]:
  "prefix (io_queue s) (io_queue (bmsg_push m s))" "prefix (io_queue s) (io_queue (bmsg_ps_sender p s))"
  "prefix (io_queue s) (io_queue (bmsg_null_sender s))"
  by (auto simp: bmsg_push_def bmsg_ps_sender_def bmsg_null_sender_def)

lemma prefix_push:
  "prefix q (io_queue s) \<Longrightarrow> prefix q (io_queue (bmsg_push m s))" "prefix q (io_queue s) \<Longrightarrow> prefix q (io_queue (bmsg_ps_sender p s))"
  "prefix q (io_queue s) \<Longrightarrow> prefix q (io_queue (bmsg_null_sender s))"
  using prefix_order.order_trans io_queue_push by metis+

lemma io_queue_timers [ps_queue]:
  "io_queue (power_save_set_keep_timer_time n s) = io_queue s" "prefix (io_queue s) (io_queue (power_save_keep_timer_handler s))"
  "prefix (io_queue s) (io_queue (power_save_wait_timer_handler s))" "io_queue (power_save_wait_timer_real_handler e s) = io_queue s"
  "prefix (io_queue s) (io_queue (power_save_keep_timer_real_handler e s))" "prefix (io_queue s) (io_queue (power_save_wait_timer_set e s))"
  "io_queue (power_save_beacon_state_update irq e s) = io_queue s"
  by (simp_all add: power_save_set_keep_timer_time_def power_save_keep_timer_init_def power_save_keep_timer_handler_def
      power_save_wait_timer_handler_def power_save_wait_timer_real_handler_def power_save_keep_timer_real_handler_def
      power_save_wait_timer_set_def power_save_beacon_state_update_def Let_def ps_queue prefix_push)

lemma io_queue_calls [ps_queue]:
  "prefix (io_queue s) (io_queue (power_save_dtim_rf_ps_disable_send_msg s))" "prefix (io_queue s) (io_queue (power_save_dtim_exit_check s))"
  "io_queue (snd (power_save_dtim_enable e s)) = io_queue s" "prefix (io_queue s) (io_queue (bk_wlan_dtim_rf_ps_mode_enable s))"
  "prefix (io_queue s) (io_queue (bk_wlan_dtim_rf_ps_mode_disable s))" "prefix (io_queue s) (io_queue (auto_check_dtim_rf_ps_mode s))"
  "prefix (io_queue s) (io_queue (bk_wlan_dtim_rf_ps_timer_start s))" "prefix (io_queue s) (io_queue (bk_wlan_dtim_rf_ps_timer_pause s))"
  "prefix (io_queue s) (io_queue (power_save_delay_sleep_check s))"
  by (simp_all add: power_save_dtim_rf_ps_disable_send_msg_def power_save_dtim_exit_check_def power_save_dtim_enable_def
      bk_wlan_dtim_rf_ps_mode_enable_def bk_wlan_dtim_rf_ps_mode_disable_def auto_check_dtim_rf_ps_mode_def
      bk_wlan_dtim_rf_ps_timer_start_def bk_wlan_dtim_rf_ps_timer_pause_def power_save_delay_sleep_check_def ps_queue prefix_push)

subsection \<open>Waking and falling asleep\<close>

lemma mac_fiq_disjoint: "bit mac_int_bits n \<Longrightarrow> \<not> bit FIQ_MAC_WAKEUP n"
proof
  assume "bit mac_int_bits n" "bit FIQ_MAC_WAKEUP n"
  then have "bit (mac_int_bits AND FIQ_MAC_WAKEUP) n" by (simp add: bit_and_iff)
  moreover have "mac_int_bits AND FIQ_MAC_WAKEUP = 0" by (simp add: mac_int_bits_def mac_busy_bits_def FIQ_MAC_WAKEUP_def)
  ultimately show False by simp
qed

lemma FIQ_nonzero: "FIQ_MAC_WAKEUP \<noteq> 0"
  by (simp add: FIQ_MAC_WAKEUP_def)

lemma int_enable_wake: "(((x::u32) OR mac_int_bits) AND NOT FIQ_MAC_WAKEUP) AND mac_int_bits = mac_int_bits"
  by (rule bit_word_eqI) (auto simp: bit_simps dest: mac_fiq_disjoint)

lemma int_enable_off:
  assumes "(x::u32) AND mac_int_bits = mac_int_bits"
  shows "(x AND NOT FIQ_MAC_WAKEUP) AND mac_int_bits = mac_int_bits"
proof (rule bit_word_eqI)
  fix n assume "n < LENGTH(32)"
  moreover have "bit (x AND mac_int_bits) n = bit mac_int_bits n" using assms by simp
  ultimately show "bit ((x AND NOT FIQ_MAC_WAKEUP) AND mac_int_bits) n = bit mac_int_bits n"
    using mac_fiq_disjoint [of n] by (auto simp: bit_simps)
qed

lemma int_enable_sleep:
  "((x AND NOT mac_int_bits :: u32) OR FIQ_MAC_WAKEUP) AND mac_int_bits = 0" "((x AND NOT mac_int_bits :: u32) OR FIQ_MAC_WAKEUP) AND FIQ_MAC_WAKEUP \<noteq> 0"
proof -
  show "((x AND NOT mac_int_bits :: u32) OR FIQ_MAC_WAKEUP) AND mac_int_bits = 0"
    by (rule bit_word_eqI) (auto simp: bit_simps dest: mac_fiq_disjoint)
  have "bit (((x AND NOT mac_int_bits :: u32) OR FIQ_MAC_WAKEUP) AND FIQ_MAC_WAKEUP) 26"
    by (simp add: bit_and_iff bit_or_iff) (simp add: bit_simps FIQ_MAC_WAKEUP_def)
  then show "((x AND NOT mac_int_bits :: u32) OR FIQ_MAC_WAKEUP) AND FIQ_MAC_WAKEUP \<noteq> 0" by force
qed

lemmas sctrl_defs = sctrl_rf_hold_bit_set_def sctrl_rf_hold_bit_clr_def sctrl_rf_wakeup_def sctrl_rf_sleep_def Let_def

lemma sctrl_frame [simp]:
  "bk_ps_mode (sctrl_sta_rf_sleep e s) = bk_ps_mode s" "bk_ps_info (sctrl_sta_rf_sleep e s) = bk_ps_info s"
  "int_enable (sctrl_sta_rf_sleep e s) = int_enable s" "ps_lock (sctrl_sta_rf_sleep e s) = ps_lock s"
  "io_queue (sctrl_sta_rf_sleep e s) = io_queue s" "released (sctrl_sta_rf_sleep e s) = released s"
  "ps_keep_timer (sctrl_sta_rf_sleep e s) = ps_keep_timer s" "ps_keep_timer_status (sctrl_sta_rf_sleep e s) = ps_keep_timer_status s"
  "ps_keep_timer_period (sctrl_sta_rf_sleep e s) = ps_keep_timer_period s" "ps_keep_timer_flag (sctrl_sta_rf_sleep e s) = ps_keep_timer_flag s"
  "ps_wait_timer (sctrl_sta_rf_sleep e s) = ps_wait_timer s" "ps_bcn_loss_max_count (sctrl_sta_rf_sleep e s) = ps_bcn_loss_max_count s"
  "ps_dis_flag (sctrl_sta_rf_sleep e s) = ps_dis_flag s" "ps_vifs (sctrl_sta_rf_sleep e s) = ps_vifs s"
  "bk_ps_mode (sctrl_sta_rf_wakeup s) = bk_ps_mode s" "bk_ps_info (sctrl_sta_rf_wakeup s) = bk_ps_info s"
  "int_enable (sctrl_sta_rf_wakeup s) = int_enable s" "ps_lock (sctrl_sta_rf_wakeup s) = ps_lock s"
  "io_queue (sctrl_sta_rf_wakeup s) = io_queue s" "released (sctrl_sta_rf_wakeup s) = released s"
  "ps_keep_timer (sctrl_sta_rf_wakeup s) = ps_keep_timer s" "ps_keep_timer_status (sctrl_sta_rf_wakeup s) = ps_keep_timer_status s"
  "ps_keep_timer_period (sctrl_sta_rf_wakeup s) = ps_keep_timer_period s" "ps_keep_timer_flag (sctrl_sta_rf_wakeup s) = ps_keep_timer_flag s"
  "ps_wait_timer (sctrl_sta_rf_wakeup s) = ps_wait_timer s" "ps_bcn_loss_max_count (sctrl_sta_rf_wakeup s) = ps_bcn_loss_max_count s"
  "ps_dis_flag (sctrl_sta_rf_wakeup s) = ps_dis_flag s" "ps_vifs (sctrl_sta_rf_wakeup s) = ps_vifs s"
  "bk_ps_mode (power_save_rf_hold_bit_set b s) = bk_ps_mode s" "bk_ps_info (power_save_rf_hold_bit_set b s) = bk_ps_info s"
  "int_enable (power_save_rf_hold_bit_set b s) = int_enable s" "ps_lock (power_save_rf_hold_bit_set b s) = ps_lock s"
  "io_queue (power_save_rf_hold_bit_set b s) = io_queue s" "released (power_save_rf_hold_bit_set b s) = released s"
  "ps_keep_timer (power_save_rf_hold_bit_set b s) = ps_keep_timer s" "ps_keep_timer_status (power_save_rf_hold_bit_set b s) = ps_keep_timer_status s"
  "ps_keep_timer_period (power_save_rf_hold_bit_set b s) = ps_keep_timer_period s" "ps_keep_timer_flag (power_save_rf_hold_bit_set b s) = ps_keep_timer_flag s"
  "ps_wait_timer (power_save_rf_hold_bit_set b s) = ps_wait_timer s" "ps_bcn_loss_max_count (power_save_rf_hold_bit_set b s) = ps_bcn_loss_max_count s"
  "ps_dis_flag (power_save_rf_hold_bit_set b s) = ps_dis_flag s" "ps_vifs (power_save_rf_hold_bit_set b s) = ps_vifs s"
  "bk_ps_mode (power_save_rf_hold_bit_clear b s) = bk_ps_mode s" "bk_ps_info (power_save_rf_hold_bit_clear b s) = bk_ps_info s"
  "int_enable (power_save_rf_hold_bit_clear b s) = int_enable s" "ps_lock (power_save_rf_hold_bit_clear b s) = ps_lock s"
  "io_queue (power_save_rf_hold_bit_clear b s) = io_queue s" "released (power_save_rf_hold_bit_clear b s) = released s"
  "ps_keep_timer (power_save_rf_hold_bit_clear b s) = ps_keep_timer s" "ps_keep_timer_status (power_save_rf_hold_bit_clear b s) = ps_keep_timer_status s"
  "ps_keep_timer_period (power_save_rf_hold_bit_clear b s) = ps_keep_timer_period s" "ps_keep_timer_flag (power_save_rf_hold_bit_clear b s) = ps_keep_timer_flag s"
  "ps_wait_timer (power_save_rf_hold_bit_clear b s) = ps_wait_timer s" "ps_bcn_loss_max_count (power_save_rf_hold_bit_clear b s) = ps_bcn_loss_max_count s"
  "ps_dis_flag (power_save_rf_hold_bit_clear b s) = ps_dis_flag s" "ps_vifs (power_save_rf_hold_bit_clear b s) = ps_vifs s"
  by (simp_all add: sctrl_sta_rf_sleep_def sctrl_sta_rf_wakeup_def power_save_rf_hold_bit_set_def power_save_rf_hold_bit_clear_def sctrl_defs)

lemma sctrl_sta [simp]:
  "\<not> sta_rf_sleeped (sctrl_sta_rf_wakeup s)" "sta_rf_sleeped (power_save_rf_hold_bit_set b s) = sta_rf_sleeped s"
  "sta_rf_sleeped (power_save_rf_hold_bit_clear b s) = sta_rf_sleeped s"
  by (simp_all add: sctrl_sta_rf_wakeup_def power_save_rf_hold_bit_set_def power_save_rf_hold_bit_clear_def sctrl_defs)

lemma power_save_wakeup_awake:
  assumes "ps_lock s = 0"
  obtains s' where "power_save_wakeup s = Some s'" "bk_ps_mode s' = bk_ps_mode s" "\<not> sta_rf_sleeped s'" "ps_lock s' = 1"
    "int_enable s' AND mac_int_bits = mac_int_bits" "wk_list (bk_ps_info s') = wk_list (bk_ps_info s)" "released s' = released s"
    "ps_arm_wakeup_way (bk_ps_info s') = ps_arm_wakeup_way (bk_ps_info s)" "waited_beacon (bk_ps_info s') = STA_GET_FALSE"
    "\<not> sleep_first (bk_ps_info s')" "ps_keep_timer_period s' = ps_keep_timer_period s" "io_queue s' = io_queue s"
    "ps_keep_timer s' = ps_keep_timer s" "ps_keep_timer_status s' = ps_keep_timer_status s"
proof -
  let ?s = "(if ps_arm_wakeup_way (bk_ps_info s) = PS_ARM_WAKEUP_RW then power_save_set_all_vif_prevent_sleep PS_VIF_WAITING_BCN else id)
    (sctrl_sta_rf_wakeup (s\<lparr>bk_ps_info := bk_ps_info s\<lparr>waited_beacon := STA_GET_FALSE\<rparr>\<rparr>))"
  let ?t = "?s\<lparr>bk_ps_info := bk_ps_info ?s\<lparr>sleep_first := False\<rparr>,
    int_enable := (int_enable ?s OR mac_int_bits) AND NOT FIQ_MAC_WAKEUP, ps_lock := ps_lock ?s + 1\<rparr>"
  have "power_save_wakeup s = Some ?t"
    using assms by (simp add: power_save_wakeup_def Let_def upd_info_def power_save_set_all_vif_prevent_sleep_def)
  then show ?thesis using assms
    by (intro that [of ?t]) (assumption | simp add: power_save_set_all_vif_prevent_sleep_def int_enable_wake)+
qed

text \<open>A wake-up releases the tasks in the list.\<close>

lemma power_save_ieee_dtim_wakeup_awake:
  assumes "ps_lock s = 0" "ps_real_sleep (bk_ps_info s)" "ps_arm_wakeup_way (bk_ps_info s) \<in> {PS_ARM_WAKEUP_RW, PS_ARM_WAKEUP_USER}"
  obtains s' where "power_save_ieee_dtim_wakeup s = Some s'" "ps_awake s'" "released s' = released s @ wk_list (bk_ps_info s)"
    "prefix (io_queue s) (io_queue s')"
proof -
  from power_save_wakeup_awake [OF assms(1)] obtain s1 where s1: "power_save_wakeup s = Some s1" "\<not> sta_rf_sleeped s1" "ps_lock s1 = 1"
    "int_enable s1 AND mac_int_bits = mac_int_bits" "wk_list (bk_ps_info s1) = wk_list (bk_ps_info s)" "released s1 = released s"
    "io_queue s1 = io_queue s" by metis
  define s2 where "s2 = upd_info (\<lambda>i. i\<lparr>ps_real_sleep := False, ps_can_sleep := True\<rparr>) s1"
  define s3 where "s3 = (if \<not> sleep_first (bk_ps_info s2) \<and> ps_keep_timer_period s2 \<noteq> 0
    then bmsg_ps_sender RF_KP_SET (s2\<lparr>ps_keep_timer_flag := True\<rparr>) else s2)"
  define s4 where "s4 = power_save_rf_ps_wkup_semlist_set s3"
  have c: "ps_core s3 = ps_core s2" by (simp add: s3_def ps_frame)
  have q: "prefix (io_queue s) (io_queue s4)"
    by (simp add: s4_def s3_def s2_def ps_queue prefix_push s1(7))
  have aw: "ps_awake s4" and r: "released s4 = released s @ wk_list (bk_ps_info s)"
    using s1 c by (auto simp: s4_def s2_def ps_awake_def ps_core_def upd_info_def power_save_rf_ps_wkup_semlist_set_def)
  have "power_save_ieee_dtim_wakeup s = Some (power_save_dtim_exit_check s4)"
    using assms by (auto simp: power_save_ieee_dtim_wakeup_def s1(1) Let_def s4_def s3_def s2_def)
  moreover have "released (power_save_dtim_exit_check s4) = released s4"
    using ps_core_calls(2) [of s4] by (simp add: ps_core_def)
  ultimately show ?thesis
    using that aw r q prefix_order.order_trans [OF q io_queue_calls(2) [of s4]]
      ps_core_cong(2) [OF ps_core_calls(2) [of s4]] by metis
qed

text \<open>The MAC wakes, by its interrupt or by hand.\<close>

lemma power_save_dtim_wake_asleep:
  assumes "ps_asleep s" "status AND MAC_ARM_WAKEUP_EN_BIT \<noteq> 0"
  obtains s' where "power_save_dtim_wake status s = Some s'" "ps_awake s'" "released s' = released s @ wk_list (bk_ps_info s)"
    "prefix (io_queue s) (io_queue s')"
proof -
  let ?s = "upd_info (\<lambda>i. i\<lparr>ps_arm_wakeup_way := PS_ARM_WAKEUP_RW\<rparr>) (s\<lparr>int_enable := int_enable s AND NOT FIQ_MAC_WAKEUP\<rparr>)"
  have "power_save_dtim_wake status s = power_save_ieee_dtim_wakeup ?s" "ps_lock ?s = 0" "ps_real_sleep (bk_ps_info ?s)"
    "ps_arm_wakeup_way (bk_ps_info ?s) \<in> {PS_ARM_WAKEUP_RW, PS_ARM_WAKEUP_USER}" "released ?s = released s"
    "wk_list (bk_ps_info ?s) = wk_list (bk_ps_info s)" "io_queue ?s = io_queue s"
    using assms by (simp_all add: power_save_dtim_wake_def ps_asleep_def upd_info_def)
  then show ?thesis using that power_save_ieee_dtim_wakeup_awake [of ?s] by metis
qed

lemma manual_do_wakeup_asleep:
  assumes "ps_asleep s"
  obtains s' where "power_save_rf_dtim_manual_do_wakeup s = Some s'" "ps_awake s'"
    "released s' = released s @ wk_list (bk_ps_info s)" "prefix (io_queue s) (io_queue s')"
proof -
  let ?s = "(upd_info (\<lambda>i. i\<lparr>ps_arm_wakeup_way := PS_ARM_WAKEUP_USER\<rparr>) s)\<lparr>int_enable := int_enable s AND NOT FIQ_MAC_WAKEUP\<rparr>"
  have "power_save_rf_dtim_manual_do_wakeup s = power_save_ieee_dtim_wakeup ?s" "ps_lock ?s = 0" "ps_real_sleep (bk_ps_info ?s)"
    "ps_arm_wakeup_way (bk_ps_info ?s) \<in> {PS_ARM_WAKEUP_RW, PS_ARM_WAKEUP_USER}" "released ?s = released s"
    "wk_list (bk_ps_info ?s) = wk_list (bk_ps_info s)" "io_queue ?s = io_queue s"
    using assms by (simp_all add: power_save_rf_dtim_manual_do_wakeup_def ps_asleep_def upd_info_def Let_def)
  then show ?thesis using that power_save_ieee_dtim_wakeup_awake [of ?s] by metis
qed

lemma manual_do_wakeup_awake: "\<not> ps_real_sleep (bk_ps_info s) \<Longrightarrow> power_save_rf_dtim_manual_do_wakeup s = Some s"
  by (simp add: power_save_rf_dtim_manual_do_wakeup_def Let_def)

text \<open>An interrupt while the MAC is awake changes the way at most.\<close>

lemma power_save_dtim_wake_awake:
  assumes "ps_awake s"
  obtains s' where "power_save_dtim_wake status s = Some s'" "ps_awake s'" "released s' = released s" "io_queue s' = io_queue s"
proof -
  have "\<exists>s'. power_save_dtim_wake status s = Some s' \<and> ps_awake s' \<and> released s' = released s \<and> io_queue s' = io_queue s"
    using assms by (simp add: power_save_dtim_wake_def power_save_ieee_dtim_wakeup_def ps_awake_def upd_info_def int_enable_off)
  then show ?thesis using that by blast
qed

lemma power_save_sleep_awake:
  assumes "ps_awake s"
  shows "ps_awake (snd (power_save_sleep e s)) \<or> ps_asleep (snd (power_save_sleep e s))"
    "released (snd (power_save_sleep e s)) = released s" "prefix (io_queue s) (io_queue (snd (power_save_sleep e s)))"
    "wk_list (bk_ps_info (snd (power_save_sleep e s))) = []"
proof -
  let ?s1 = "s\<lparr>int_enable_reg_save := int_enable s, int_enable := int_enable s AND NOT mac_int_bits\<rparr>"
  let ?s2 = "power_save_mac_idle_callback ?s1"
  define s3 where "s3 = (sctrl_sta_rf_sleep e (power_save_sleep_status_set (?s2\<lparr>ps_lock := ps_lock ?s2 - 1\<rparr>)))\<lparr>
    int_enable := int_enable (power_save_sleep_status_set (?s2\<lparr>ps_lock := ps_lock ?s2 - 1\<rparr>)) OR FIQ_MAC_WAKEUP\<rparr>"
  have c: "ps_core ?s2 = ps_core ?s1" by (rule ps_core_small)
  have m: "PS_STA_DTIM_CAN_SLEEP e s \<Longrightarrow> bk_ps_mode s = PS_DTIM_PS_MODE"
    by (simp add: PS_STA_DTIM_CAN_SLEEP_def PS_STA_DTIM_SWITCH_def power_save_if_ps_rf_dtim_enabled_def)
  have s3: "ps_lock s3 = 0" "ps_real_sleep (bk_ps_info s3)" "ps_arm_wakeup_way (bk_ps_info s3) = PS_ARM_WAKEUP_NONE"
    "int_enable s3 = (int_enable s AND NOT mac_int_bits) OR FIQ_MAC_WAKEUP" "bk_ps_mode s3 = bk_ps_mode s"
    "wk_list (bk_ps_info s3) = []" "released s3 = released s" "io_queue s3 = io_queue s"
    using c assms by (simp_all add: s3_def power_save_sleep_status_set_def upd_info_def ps_core_def ps_awake_def ps_queue)
  have l: "ps_lock ?s2 \<noteq> 0" using c assms by (simp add: ps_core_def ps_awake_def)
  define r where "r = snd (power_save_sleep e s)"
  have "r = s \<or> r = s\<lparr>int_enable_reg_save := int_enable s\<rparr> \<or>
    (bk_ps_mode s = PS_DTIM_PS_MODE \<and> (r = s3 \<or> r = bmsg_ps_sender RF_KP_STOP s3))"
    using m l by (auto simp: r_def power_save_sleep_def Let_def s3_def)
  moreover have "bk_ps_mode s = PS_DTIM_PS_MODE \<Longrightarrow> ps_asleep s3" "bk_ps_mode s = PS_DTIM_PS_MODE \<Longrightarrow> ps_asleep (bmsg_ps_sender RF_KP_STOP s3)"
    unfolding ps_frame_inv by (simp_all add: ps_asleep_def s3 int_enable_sleep FIQ_nonzero)
  moreover have "released (bmsg_ps_sender RF_KP_STOP s3) = released s" "wk_list (bk_ps_info (bmsg_ps_sender RF_KP_STOP s3)) = []"
    "prefix (io_queue s) (io_queue (bmsg_ps_sender RF_KP_STOP s3))"
    using s3 io_queue_push(2) [of s3 RF_KP_STOP] ps_core_push(2) [of RF_KP_STOP s3] by (simp_all add: ps_core_def)
  ultimately show "ps_awake (snd (power_save_sleep e s)) \<or> ps_asleep (snd (power_save_sleep e s))"
    "released (snd (power_save_sleep e s)) = released s" "prefix (io_queue s) (io_queue (snd (power_save_sleep e s)))"
    "wk_list (bk_ps_info (snd (power_save_sleep e s))) = []"
    unfolding r_def [symmetric] using assms s3 by (auto simp: ps_awake_def)
qed

subsection \<open>Every step\<close>

definition ps_ok :: "ps_state \<Rightarrow> bool" where
  "ps_ok s \<longleftrightarrow> ps_awake s \<or> ps_asleep s"

text \<open>A step loses no task that waits, and none of the messages \<open>q\<close>.\<close>

definition ps_grow :: "bus_msg list \<Rightarrow> ps_state \<Rightarrow> ps_state \<Rightarrow> bool" where
  "ps_grow q s s' \<longleftrightarrow> ps_ok s' \<and> prefix q (io_queue s') \<and> set (released s) \<subseteq> set (released s')
     \<and> set (wk_list (bk_ps_info s)) \<subseteq> set (released s') \<union> set (wk_list (bk_ps_info s'))"

lemma ps_ok_core: "ps_core s' = ps_core s \<Longrightarrow> ps_ok s' = ps_ok s"
  by (simp add: ps_ok_def ps_core_cong [of s' s])

lemma ps_grow_frame: "ps_core s' = ps_core s \<Longrightarrow> prefix q (io_queue s') \<Longrightarrow> ps_ok s \<Longrightarrow> ps_grow q s s'"
  using ps_ok_core [of s' s] by (simp add: ps_grow_def) (simp add: ps_core_def)

lemma ps_grow_released:
  "ps_ok s' \<Longrightarrow> prefix q (io_queue s') \<Longrightarrow> released s' = released s @ wk_list (bk_ps_info s) \<Longrightarrow> ps_grow q s s'"
  by (auto simp: ps_grow_def)

lemma ps_grow_trans: "ps_grow q s1 s2 \<Longrightarrow> ps_grow (io_queue s2) s2 s3 \<Longrightarrow> ps_grow q s1 s3"
  unfolding ps_grow_def using prefix_order.order_trans by blast

lemma ps_grow_queue: "ps_grow q s1 s2 \<Longrightarrow> prefix q' q \<Longrightarrow> ps_grow q' s1 s2"
  unfolding ps_grow_def using prefix_order.order_trans by blast

lemma awake_not_real_sleep: "ps_awake s \<Longrightarrow> \<not> ps_real_sleep (bk_ps_info s)" "ps_asleep s \<Longrightarrow> ps_real_sleep (bk_ps_info s)"
  by (simp_all add: ps_awake_def ps_asleep_def)

lemma manual_do_wakeup_grow:
  assumes "ps_ok s"
  obtains s' where "power_save_rf_dtim_manual_do_wakeup s = Some s'" "ps_grow (io_queue s) s s'" "ps_awake s'"
proof (cases "ps_asleep s")
  case True
  then show ?thesis using manual_do_wakeup_asleep that ps_grow_released unfolding ps_ok_def by metis
next
  case False
  then have a: "ps_awake s" using assms by (simp add: ps_ok_def)
  then show ?thesis using that [of s] manual_do_wakeup_awake [OF awake_not_real_sleep(1)] assms ps_grow_frame [of s s] by simp
qed

lemma power_save_dtim_wake_grow:
  assumes "ps_ok s"
  obtains s' where "power_save_dtim_wake status s = Some s'" "ps_grow (io_queue s) s s'"
proof -
  consider "ps_asleep s" "status AND MAC_ARM_WAKEUP_EN_BIT \<noteq> 0" | "ps_asleep s" "status AND MAC_ARM_WAKEUP_EN_BIT = 0" | "ps_awake s"
    using assms by (auto simp: ps_ok_def)
  then show ?thesis
  proof cases
    case 1
    then show ?thesis using power_save_dtim_wake_asleep that ps_grow_released unfolding ps_ok_def by metis
  next
    case 2
    then show ?thesis using that [of s] assms ps_grow_frame [of s s] by (simp add: power_save_dtim_wake_def)
  next
    case 3
    from power_save_dtim_wake_awake [OF 3, of status] obtain s' where s': "power_save_dtim_wake status s = Some s'" "ps_awake s'"
      "released s' = released s" "io_queue s' = io_queue s" by blast
    have "wk_list (bk_ps_info s) = []" using 3 by (simp add: ps_awake_def)
    then show ?thesis using that [OF s'(1)] s' by (simp add: ps_grow_released ps_ok_def)
  qed
qed

lemma ps_msg_process_grow:
  assumes "ps_ok s"
  obtains s' where "ps_msg_process e m s = Some s'" "ps_grow (io_queue s) s s'"
    "m = RF_USER_WKUP \<or> m = RF_DISABLE \<Longrightarrow> ps_awake s'"
proof -
  obtain w where w: "power_save_rf_dtim_manual_do_wakeup s = Some w" "ps_grow (io_queue s) s w" "ps_awake w"
    using manual_do_wakeup_grow [OF assms] .
  have "ps_grow (io_queue w) w (power_save_dtim_disable w)" "ps_awake (power_save_dtim_disable w)"
    using w(2,3) by (auto intro!: ps_grow_frame simp: ps_frame ps_queue ps_ok_def ps_frame_inv)
  then have d: "ps_grow (io_queue s) s (power_save_dtim_disable w)" "ps_awake (power_save_dtim_disable w)"
    using ps_grow_trans [OF w(2)] by auto
  show ?thesis
    using that w d by (cases m) (simp_all add: ps_grow_frame ps_frame ps_queue assms)
qed

lemma rf_sleep_check_grow: "ps_ok s \<Longrightarrow> ps_grow (io_queue s) s (power_save_rf_sleep_check e s)"
proof (cases "ps_asleep s")
  case True
  then have "power_save_rf_sleep_check e s = s"
    by (simp add: power_save_rf_sleep_check_def power_save_sleep_def awake_not_real_sleep)
  then show "ps_ok s \<Longrightarrow> ?thesis" by (simp add: ps_grow_frame)
next
  case False
  show ?thesis if "ps_ok s"
  proof -
    have a: "ps_awake s" using that False by (simp add: ps_ok_def)
    then show ?thesis
      using power_save_sleep_awake [OF a, of e] that
      by (auto simp: power_save_rf_sleep_check_def ps_grow_def ps_ok_def ps_awake_def)
  qed
qed

lemma core_finish_grow:
  assumes "ps_ok s"
  obtains s' where "core_finish e1 e2 p s = Some s'" "ps_grow (io_queue s) s s'"
    "p = Some RF_USER_WKUP \<Longrightarrow> set (wk_list (bk_ps_info s)) \<subseteq> set (released s')"
proof (cases p)
  case None
  then show ?thesis using that rf_sleep_check_grow [OF assms] by (simp add: core_finish_def)
next
  case (Some m)
  obtain t where t: "ps_msg_process e1 m s = Some t" "ps_grow (io_queue s) s t" "m = RF_USER_WKUP \<or> m = RF_DISABLE \<Longrightarrow> ps_awake t"
    using ps_msg_process_grow [OF assms] by metis
  have g: "ps_grow (io_queue t) t (power_save_rf_sleep_check e2 t)"
    using rf_sleep_check_grow t(2) by (simp add: ps_grow_def)
  show ?thesis
  proof (rule that)
    show "core_finish e1 e2 p s = Some (power_save_rf_sleep_check e2 t)" by (simp add: core_finish_def Some t(1))
    show "ps_grow (io_queue s) s (power_save_rf_sleep_check e2 t)" by (rule ps_grow_trans [OF t(2) g])
    show "set (wk_list (bk_ps_info s)) \<subseteq> set (released (power_save_rf_sleep_check e2 t))" if "p = Some RF_USER_WKUP"
    proof -
      have "wk_list (bk_ps_info t) = []" using t(3) that Some by (simp add: ps_awake_def)
      then show ?thesis using t(2) g unfolding ps_grow_def by auto
    qed
  qed
qed

lemma dtim_confirm_grow:
  "ps_ok s \<Longrightarrow> ps_grow (io_queue s) s (power_save_dtim_enable_handler e s)"
  "ps_awake s \<Longrightarrow> ps_grow (io_queue s) s (power_save_dtim_disable_handler s)"
proof -
  show "ps_ok s \<Longrightarrow> ps_grow (io_queue s) s (power_save_dtim_enable_handler e s)"
    by (auto simp: power_save_dtim_enable_handler_def ps_grow_def ps_ok_def ps_awake_def ps_asleep_def ps_small_defs)
  show "ps_awake s \<Longrightarrow> ps_grow (io_queue s) s (power_save_dtim_disable_handler s)"
    by (auto simp: power_save_dtim_disable_handler_def power_save_dtim_ps_exit_def ps_grow_def ps_ok_def ps_awake_def ps_small_defs)
qed

lemma do_wakeup_grow:
  assumes "ps_ok s"
  shows "ps_grow (io_queue s) s (bk_wlan_dtim_rf_ps_mode_do_wakeup t s)"
proof (cases "power_save_if_ps_rf_dtim_enabled s \<and> power_save_if_rf_sleep s")
  case True
  define w where "w = upd_info (\<lambda>i. i\<lparr>wk_list := wk_list i @ [t]\<rparr>) s"
  have "ps_asleep s" using True assms by (auto simp: ps_ok_def power_save_if_rf_sleep_def awake_not_real_sleep)
  then have "ps_ok w" "ps_grow (io_queue s) s w" by (auto simp: w_def ps_grow_def ps_ok_def ps_asleep_def upd_info_def)
  moreover have "ps_grow (io_queue w) w (bmsg_ps_sender RF_USER_WKUP w)"
    using \<open>ps_ok w\<close> by (simp add: ps_grow_frame ps_frame ps_queue)
  ultimately have "ps_grow (io_queue s) s (bmsg_ps_sender RF_USER_WKUP w)" using ps_grow_trans by blast
  then show ?thesis
    using True by (simp add: bk_wlan_dtim_rf_ps_mode_do_wakeup_def power_save_rf_ps_wkup_semlist_wait_def w_def)
qed (auto simp: bk_wlan_dtim_rf_ps_mode_do_wakeup_def assms intro: ps_grow_frame)

lemma rf_hold_grow:
  "ps_ok s \<Longrightarrow> ps_grow (io_queue s) s (power_save_rf_hold_bit_set b s)"
  "ps_ok s \<Longrightarrow> ps_grow (io_queue s) s (power_save_rf_hold_bit_clear b s)"
  by (simp_all add: ps_grow_def ps_ok_def ps_awake_def ps_asleep_def)

text \<open>The message that a step of the core thread takes leaves the queue; nothing else does.\<close>

fun ps_rest :: "ps_event \<Rightarrow> ps_state \<Rightarrow> bus_msg list" where
  "ps_rest (Take e) s = tl (io_queue s)"
| "ps_rest _ s = io_queue s"

lemma ps_act_grow:
  assumes "ps_may ev (pc, s)" "ps_ok s" "\<not> (ev = DisableCfm \<and> ps_real_sleep (bk_ps_info s))"
  obtains pc' s' where "ps_act ev (pc, s) = Some (pc', s')" "ps_grow (ps_rest ev s) s s'"
proof (cases ev)
  case (Take e)
  obtain x q where q: "io_queue s = x # q" using assms(1) Take by (cases "io_queue s") auto
  let ?s = "s\<lparr>io_queue := q\<rparr>"
  have ok: "ps_ok ?s" using assms(2) ps_ok_core [of ?s s] by (simp add: ps_frame)
  have g: "ps_grow q s ?s" using assms(2) by (auto intro!: ps_grow_frame simp: ps_frame)
  obtain t where t: "ps_msg_process e RF_DISABLE ?s = Some t" "ps_grow (io_queue ?s) ?s t"
    using ps_msg_process_grow [OF ok] by metis
  have "\<exists>pc' s'. ps_act ev (pc, s) = Some (pc', s') \<and> ps_grow q s s'"
    using g ps_grow_trans [OF g t(2)] t(1) by (cases x) (auto simp: Take q)
  then show ?thesis using that by (auto simp: Take q)
next
  case (Finish e1 e2)
  then obtain p where p: "pc = Core_run p" using assms(1) by (cases pc) auto
  show ?thesis using core_finish_grow [OF assms(2), of e1 e2 p] that by (force simp: Finish p)
next
  case (MacFiq status)
  show ?thesis using power_save_dtim_wake_grow [OF assms(2), of status] that by (force simp: MacFiq)
next
  case ManualWake
  show ?thesis using manual_do_wakeup_grow [OF assms(2)] that by (force simp: ManualWake)
next
  case DisableCfm
  then have "ps_awake s" using assms by (auto simp: ps_ok_def awake_not_real_sleep)
  then show ?thesis using that DisableCfm dtim_confirm_grow by simp
next
  case (EnableCfm e)
  then show ?thesis using that dtim_confirm_grow(1) [OF assms(2)] by simp
next
  case (DoWakeup t)
  then show ?thesis using that do_wakeup_grow [OF assms(2)] by simp
next
  case (RfHoldSet b)
  then show ?thesis using that rf_hold_grow(1) [OF assms(2)] by simp
next
  case (RfHoldClear b)
  then show ?thesis using that rf_hold_grow(2) [OF assms(2)] by simp
qed (use that assms(2) in \<open>simp_all add: ps_grow_frame ps_frame ps_queue\<close>)

subsection \<open>The third state is for good\<close>

lemma int_mask: "(x AND NOT y :: u32) AND y = 0" "(x :: u32) AND y = 0 \<Longrightarrow> (x AND NOT z) AND y = 0"
proof -
  show "(x AND NOT y) AND y = 0" by (rule bit_word_eqI) (auto simp: bit_simps)
  show "(x AND NOT z) AND y = 0" if "x AND y = 0"
  proof (rule bit_word_eqI)
    fix n
    have "\<not> (bit x n \<and> bit y n)" using that by (metis bit_and_iff bit_0_eq bot_apply bot_bool_def)
    then show "bit ((x AND NOT z) AND y) n = bit 0 n" by (auto simp: bit_simps)
  qed
qed

lemma lost_sleep_check: "ps_lost s \<Longrightarrow> ps_lost (power_save_rf_sleep_check e s)"
  using ps_core_small(22) [of "s\<lparr>int_enable_reg_save := int_enable s, int_enable := int_enable s AND NOT mac_int_bits\<rparr>"]
  by (simp add: power_save_rf_sleep_check_def power_save_sleep_def ps_lost_def Let_def ps_core_def int_mask)

lemma lost_msg:
  assumes "ps_lost s"
  obtains s' where "ps_msg_process e m s = Some s'" "ps_lost s'"
proof -
  have "\<not> ps_real_sleep (bk_ps_info s)" using assms by (simp add: ps_lost_def)
  then have "\<exists>s'. ps_msg_process e m s = Some s' \<and> ps_lost s'"
    using assms by (cases m) (simp_all add: ps_frame_inv manual_do_wakeup_awake)
  then show ?thesis using that by blast
qed

lemma lost_dtim_wake:
  assumes "ps_lost s"
  obtains s' where "power_save_dtim_wake status s = Some s'" "ps_lost s'"
proof -
  have "\<exists>s'. power_save_dtim_wake status s = Some s' \<and> ps_lost s'"
    using assms by (simp add: power_save_dtim_wake_def power_save_ieee_dtim_wakeup_def ps_lost_def upd_info_def int_mask)
  then show ?thesis using that by blast
qed

lemma lost_confirm:
  "ps_lost s \<Longrightarrow> ps_lost (power_save_dtim_enable_handler e s)" "ps_lost s \<Longrightarrow> ps_lost (power_save_dtim_disable_handler s)"
  "ps_asleep s \<Longrightarrow> ps_lost (power_save_dtim_disable_handler s)"
  by (auto simp: power_save_dtim_enable_handler_def power_save_dtim_disable_handler_def power_save_dtim_ps_exit_def ps_lost_def
      ps_asleep_def ps_small_defs)

lemma ps_act_lost:
  assumes "ps_may ev (pc, s)" "ps_lost s"
  obtains pc' s' where "ps_act ev (pc, s) = Some (pc', s')" "ps_lost s'"
proof (cases ev)
  case (Take e)
  obtain x q where q: "io_queue s = x # q" using assms(1) Take by (cases "io_queue s") auto
  have l: "ps_lost (s\<lparr>io_queue := q\<rparr>)" using assms(2) by (simp add: ps_frame_inv)
  obtain t where t: "ps_msg_process e RF_DISABLE (s\<lparr>io_queue := q\<rparr>) = Some t" "ps_lost t" using lost_msg [OF l] .
  have "\<exists>pc' s'. ps_act ev (pc, s) = Some (pc', s') \<and> ps_lost s'" using l t by (cases x) (auto simp: Take q)
  then show ?thesis using that by blast
next
  case (Finish e1 e2)
  then obtain p where p: "pc = Core_run p" using assms(1) by (cases pc) auto
  show ?thesis
  proof (cases p)
    case None
    then show ?thesis using that lost_sleep_check [OF assms(2)] by (simp add: Finish p core_finish_def)
  next
    case (Some m)
    obtain t where "ps_msg_process e1 m s = Some t" "ps_lost t" using lost_msg [OF assms(2)] .
    then show ?thesis using that lost_sleep_check by (simp add: Finish p core_finish_def Some)
  qed
next
  case (MacFiq status)
  obtain t where "power_save_dtim_wake status s = Some t" "ps_lost t" using lost_dtim_wake [OF assms(2)] .
  then show ?thesis using that by (simp add: MacFiq)
next
  case ManualWake
  then show ?thesis using that manual_do_wakeup_awake assms(2) by (simp add: ps_lost_def)
next
  case (DoWakeup t)
  have "bk_wlan_dtim_rf_ps_mode_do_wakeup t s = s"
    using assms(2) by (simp add: bk_wlan_dtim_rf_ps_mode_do_wakeup_def power_save_if_rf_sleep_def ps_lost_def)
  then show ?thesis using that DoWakeup assms(2) by simp
next
  case (RfHoldSet b)
  have "ps_lost (power_save_rf_hold_bit_set b s)" using assms(2) by (simp add: ps_lost_def)
  then show ?thesis using that RfHoldSet by simp
next
  case (RfHoldClear b)
  have "ps_lost (power_save_rf_hold_bit_clear b s)" using assms(2) by (simp add: ps_lost_def)
  then show ?thesis using that RfHoldClear by simp
qed (use that assms(2) in \<open>simp_all add: ps_frame_inv lost_confirm\<close>)

text \<open>A run from the start: asleep or awake, unless power save was confirmed off while the MAC slept.\<close>

lemma ps_start_ok: "ps_start s \<Longrightarrow> ps_ok s"
  by (simp add: ps_start_def ps_ok_def ps_awake_def)

lemma ps_run_lost: "ps_run c evs c' \<Longrightarrow> ps_lost (snd c) \<Longrightarrow> ps_lost (snd c')"
proof (induction rule: ps_run.induct)
  case (ps_run_Cons ev c c1 evs c2)
  obtain pc s where c: "c = (pc, s)" by force
  obtain pc' s' where "ps_act ev (pc, s) = Some (pc', s')" "ps_lost s'"
    using ps_act_lost ps_run_Cons.hyps(1) ps_run_Cons.prems c by (metis snd_conv)
  then show ?case using ps_run_Cons by (auto simp: c)
qed simp

lemma ps_run_ok:
  "ps_run c evs c' \<Longrightarrow> ps_ok (snd c) \<Longrightarrow> if ps_disabled_asleep evs c then ps_lost (snd c') else ps_ok (snd c')"
proof (induction rule: ps_run.induct)
  case (ps_run_Cons ev c c1 evs c2)
  obtain pc s where c: "c = (pc, s)" by force
  show ?case
  proof (cases "ev = DisableCfm \<and> ps_real_sleep (bk_ps_info s)")
    case True
    then have "ps_asleep s" using ps_run_Cons.prems by (auto simp: c ps_ok_def ps_awake_def)
    then have "ps_lost (snd c1)" using ps_run_Cons.hyps(2) True lost_confirm(3) by (auto simp: c)
    then show ?thesis using ps_run_lost [OF ps_run_Cons.hyps(3)] True by (simp add: c)
  next
    case False
    moreover have "ps_may ev (pc, s)" "ps_ok s" using ps_run_Cons.hyps(1) ps_run_Cons.prems by (simp_all add: c)
    ultimately obtain pc' s' where "ps_act ev (pc, s) = Some (pc', s')" "ps_grow (ps_rest ev s) s s'" using ps_act_grow by metis
    then have "ps_ok (snd c1)" using ps_run_Cons.hyps(2) by (auto simp: c ps_grow_def)
    then show ?thesis using ps_run_Cons.IH ps_run_Cons.hyps(2) False by (auto simp: c)
  qed
qed simp

lemma ps_run_states: "ps_run c evs c' \<Longrightarrow> ps_ok (snd c) \<or> ps_lost (snd c) \<Longrightarrow> ps_ok (snd c') \<or> ps_lost (snd c')"
  using ps_run_ok ps_run_lost by (meson)

lemma ps_reach_states: "ps_reach c \<Longrightarrow> ps_ok (snd c) \<or> ps_lost (snd c)"
  unfolding ps_reach_def using ps_run_states ps_start_ok by fastforce

lemma ps_reach_ok: "ps_reach (pc, s) \<Longrightarrow> ps_real_sleep (bk_ps_info s) \<Longrightarrow> ps_ok s"
  using ps_reach_states by (fastforce simp: ps_lost_def)

subsection \<open>The radio on the way\<close>

lemma radio_upd:
  "ps_radio cl st ap (s\<lparr>int_enable := x\<rparr>) = ps_radio cl st ap s" "ps_radio cl st ap (s\<lparr>ps_lock := l\<rparr>) = ps_radio cl st ap s"
  by (simp_all add: ps_radio_def power_save_if_rf_sleep_def)

lemma hold_and_or: "(h OR b :: u32) AND c = (h AND c) OR (b AND c)" "b AND c = 0 \<Longrightarrow> (h AND NOT b :: u32) AND c = h AND c"
proof -
  show "(h OR b) AND c = (h AND c) OR (b AND c)" by (rule bit_word_eqI) (auto simp: bit_simps)
  show "(h AND NOT b) AND c = h AND c" if "b AND c = 0"
  proof (rule bit_word_eqI)
    fix n assume "n < LENGTH(32)"
    moreover have "\<not> (bit b n \<and> bit c n)" using that by (metis bit_and_iff bit_0_eq bot_apply bot_bool_def)
    ultimately show "bit ((h AND NOT b) AND c) n = bit (h AND c) n" by (auto simp: bit_simps)
  qed
qed

lemma hold_not_zero: "(h AND NOT b :: u32) = 0 \<Longrightarrow> b AND c = 0 \<Longrightarrow> h AND c = 0"
  using hold_and_or(2) [of b c h] by simp

lemma hold_or_zero: "(h OR b :: u32) = 0 \<longleftrightarrow> h = 0 \<and> b = 0"
  by (metis or_eq_0_iff)

lemma radio_hold:
  "ps_radio cl st ap s \<Longrightarrow> (st \<longrightarrow> b AND RF_HOLD_BY_STA_BIT = 0) \<Longrightarrow> ps_radio cl st ap (power_save_rf_hold_bit_set b s)"
  "ps_radio cl st ap s \<Longrightarrow> (cl \<longrightarrow> b AND RF_HOLD_BY_STA_BIT = 0) \<Longrightarrow> ps_radio cl st ap (power_save_rf_hold_bit_clear b s)"
  by (auto simp: ps_radio_def power_save_rf_hold_bit_set_def power_save_rf_hold_bit_clear_def sctrl_defs hold_and_or hold_or_zero
      power_save_if_rf_sleep_def int_mask dest: hold_not_zero)

lemma radio_sleep:
  assumes "ps_radio cl st ap s" "ap \<longrightarrow> ap_if_ap_rf_sleep e"
  shows "ps_radio cl st ap (sctrl_sta_rf_sleep e (power_save_sleep_status_set s))"
  using assms
  by (auto simp: ps_radio_def power_save_sleep_status_set_def sctrl_sta_rf_sleep_def sctrl_defs power_save_if_rf_sleep_def upd_info_def int_mask)

lemma radio_wakeup:
  assumes "ps_radio cl st ap s"
  shows "ps_radio cl st ap (upd_info (\<lambda>i. i\<lparr>ps_real_sleep := False, ps_can_sleep := True\<rparr>) (sctrl_sta_rf_wakeup s))"
  using assms
  by (auto simp: ps_radio_def sctrl_sta_rf_wakeup_def sctrl_defs power_save_if_rf_sleep_def upd_info_def hold_and_or hold_or_zero
      RF_HOLD_BY_STA_BIT_def)

lemma ps_radio_cong:
  "rf_hold_status s' = rf_hold_status s \<Longrightarrow> rf_sleeped s' = rf_sleeped s \<Longrightarrow> sta_rf_sleeped s' = sta_rf_sleeped s
     \<Longrightarrow> ps_real_sleep (bk_ps_info s') = ps_real_sleep (bk_ps_info s) \<Longrightarrow> ps_radio cl st ap s' = ps_radio cl st ap s"
  by (simp add: ps_radio_def power_save_if_rf_sleep_def)

lemma radio_wkup_semlist: "ps_radio cl st ap (power_save_rf_ps_wkup_semlist_set s) = ps_radio cl st ap s"
  by (rule ps_radio_cong) (simp_all add: power_save_rf_ps_wkup_semlist_set_def upd_info_def)

lemma radio_power_save_wakeup:
  assumes "power_save_wakeup s = Some s1" "ps_radio cl st ap s"
  shows "ps_radio cl st ap (upd_info (\<lambda>i. i\<lparr>ps_real_sleep := False, ps_can_sleep := True\<rparr>) s1)"
proof -
  let ?s = "upd_info (\<lambda>i. i\<lparr>waited_beacon := STA_GET_FALSE\<rparr>) s"
  have "ps_radio cl st ap ?s" using assms(2) by (simp add: ps_radio_def power_save_if_rf_sleep_def upd_info_def)
  note r = radio_wakeup [OF this]
  have "rf_hold_status s1 = rf_hold_status (sctrl_sta_rf_wakeup ?s)" "rf_sleeped s1 = rf_sleeped (sctrl_sta_rf_wakeup ?s)"
    "sta_rf_sleeped s1 = sta_rf_sleeped (sctrl_sta_rf_wakeup ?s)"
    using assms(1) by (auto simp: power_save_wakeup_def Let_def upd_info_def power_save_set_all_vif_prevent_sleep_def split: if_splits)
  then show ?thesis by (intro iffD2 [OF ps_radio_cong r]) (simp_all add: upd_info_def)
qed

lemma radio_ieee_wakeup:
  assumes "power_save_ieee_dtim_wakeup s = Some s'" "ps_radio cl st ap s"
  shows "ps_radio cl st ap s'"
proof (cases "ps_arm_wakeup_way (bk_ps_info s) \<notin> {PS_ARM_WAKEUP_NONE, PS_ARM_WAKEUP_UPING} \<and> ps_real_sleep (bk_ps_info s)")
  case True
  then obtain s1 where s1: "power_save_wakeup s = Some s1"
    using assms(1) by (auto simp: power_save_ieee_dtim_wakeup_def bind_eq_Some_conv)
  let ?s2 = "upd_info (\<lambda>i. i\<lparr>ps_real_sleep := False, ps_can_sleep := True\<rparr>) s1"
  have "ps_radio cl st ap ?s2" by (rule radio_power_save_wakeup [OF s1 assms(2)])
  moreover have "s' = power_save_dtim_exit_check (power_save_rf_ps_wkup_semlist_set
    (if \<not> sleep_first (bk_ps_info ?s2) \<and> ps_keep_timer_period ?s2 \<noteq> 0 then bmsg_ps_sender RF_KP_SET (?s2\<lparr>ps_keep_timer_flag := True\<rparr>) else ?s2))"
    using assms(1) True s1 by (simp add: power_save_ieee_dtim_wakeup_def Let_def)
  ultimately show ?thesis by (simp add: ps_frame_inv radio_wkup_semlist)
next
  case False
  then show ?thesis using assms unfolding power_save_ieee_dtim_wakeup_def if_not_P [OF False] by simp
qed

lemma radio_way: "ps_radio cl st ap (upd_info (\<lambda>i. i\<lparr>ps_arm_wakeup_way := w\<rparr>) s) = ps_radio cl st ap s"
  by (rule ps_radio_cong) (simp_all add: upd_info_def)

lemma radio_wake_calls:
  "power_save_dtim_wake status s = Some s' \<Longrightarrow> ps_radio cl st ap s \<Longrightarrow> ps_radio cl st ap s'"
  "power_save_rf_dtim_manual_do_wakeup s = Some s' \<Longrightarrow> ps_radio cl st ap s \<Longrightarrow> ps_radio cl st ap s'"
  unfolding power_save_dtim_wake_def power_save_rf_dtim_manual_do_wakeup_def Let_def
  by (auto dest!: radio_ieee_wakeup simp: radio_way radio_upd split: if_splits)

lemma radio_power_save_sleep:
  assumes "ps_radio cl st ap s" "ap \<longrightarrow> ap_if_ap_rf_sleep e"
  shows "ps_radio cl st ap (snd (power_save_sleep e s))"
proof -
  let ?s1 = "s\<lparr>int_enable_reg_save := int_enable s, int_enable := int_enable s AND NOT mac_int_bits\<rparr>"
  let ?s2 = "power_save_mac_idle_callback ?s1"
  let ?s3 = "sctrl_sta_rf_sleep e (power_save_sleep_status_set (?s2\<lparr>ps_lock := ps_lock ?s2 - 1\<rparr>))"
  have r2: "ps_radio cl st ap ?s2" using assms(1) by (simp add: ps_frame_inv radio_upd)
  have "ps_radio cl st ap ?s3" by (rule radio_sleep [OF _ assms(2)]) (simp add: radio_upd r2)
  then show ?thesis using assms(1) r2 by (simp add: power_save_sleep_def Let_def radio_upd ps_frame_inv)
qed

lemma radio_sleep_check:
  "ps_radio cl st ap s \<Longrightarrow> (ap \<longrightarrow> ap_if_ap_rf_sleep e) \<Longrightarrow> ps_radio cl st ap (power_save_rf_sleep_check e s)"
  by (simp add: power_save_rf_sleep_check_def radio_power_save_sleep)

lemma radio_confirm:
  "ps_radio cl st ap s \<Longrightarrow> ps_radio cl st ap (power_save_dtim_enable_handler e s)"
  "ps_radio cl st ap s \<Longrightarrow> ps_radio cl st ap (power_save_dtim_disable_handler s)"
  by (auto simp: power_save_dtim_enable_handler_def power_save_dtim_disable_handler_def power_save_dtim_ps_exit_def ps_radio_def
      ps_small_defs power_save_if_rf_sleep_def)

lemma radio_msg: "ps_msg_process e m s = Some s' \<Longrightarrow> ps_radio cl st ap s \<Longrightarrow> ps_radio cl st ap s'"
  by (cases m) (auto simp: ps_frame_inv dest: radio_wake_calls)

lemma radio_do_wakeup: "ps_radio cl st ap (bk_wlan_dtim_rf_ps_mode_do_wakeup t s) = ps_radio cl st ap s"
proof -
  have "ps_radio cl st ap (upd_info (\<lambda>i. i\<lparr>wk_list := wk_list i @ [t]\<rparr>) s) = ps_radio cl st ap s"
    by (rule ps_radio_cong) (simp_all add: upd_info_def)
  then show ?thesis by (simp add: bk_wlan_dtim_rf_ps_mode_do_wakeup_def power_save_rf_ps_wkup_semlist_wait_def ps_frame_inv)
qed

lemma ps_act_radio:
  assumes "ps_act ev (pc, s) = Some (pc', s')" "ps_radio cl st ap s"
    and "cl \<longrightarrow> keeps_sta_bit ev" "st \<longrightarrow> leaves_sta_bit ev" "ap \<longrightarrow> ap_off ev"
  shows "ps_radio cl st ap s'"
proof (cases ev)
  case (Take e)
  then show ?thesis using assms(1,2)
    by (auto simp: ps_frame_inv simp del: ps_msg_process.simps dest: radio_msg split: list.splits bus_msg.splits if_splits)
next
  case (Finish e1 e2)
  then show ?thesis using assms
    by (auto simp: core_finish_def radio_sleep_check dest: radio_msg split: core_pc.splits option.splits)
qed (use assms in \<open>auto simp: ps_frame_inv radio_hold radio_do_wakeup radio_confirm dest: radio_wake_calls\<close>)

lemma ps_run_radio:
  "ps_run c evs c' \<Longrightarrow> ps_radio cl st ap (snd c) \<Longrightarrow> (cl \<longrightarrow> list_all keeps_sta_bit evs) \<Longrightarrow> (st \<longrightarrow> list_all leaves_sta_bit evs)
     \<Longrightarrow> (ap \<longrightarrow> list_all ap_off evs) \<Longrightarrow> ps_radio cl st ap (snd c')"
proof (induction rule: ps_run.induct)
  case (ps_run_Cons ev c c1 evs c2)
  obtain pc s pc1 s1 where c: "c = (pc, s)" "c1 = (pc1, s1)" by force
  have "ps_radio cl st ap s1" using ps_act_radio [of ev pc s pc1 s1] ps_run_Cons.hyps(2) ps_run_Cons.prems c by simp
  then show ?case using ps_run_Cons.IH ps_run_Cons.prems c by simp
qed simp

lemma ps_start_radio: "ps_start s \<Longrightarrow> ps_radio cl st ap s"
  by (auto simp: ps_start_def ps_radio_def power_save_if_rf_sleep_def)

end
