(* ===== verification/PowerProps.thy ===== *)
theory PowerProps
  imports PowerSteps
begin

text \<open>
  What holds of the runs of \<open>PowerSteps\<close>: a task that waits for the MAC gets its semaphore, a lost beacon keeps the MAC awake, the
  sleep interval after the confirmation of power save; and the end of power save at the wrong time.
\<close>

subsection \<open>A waiting task gets its semaphore\<close>

fun ps_finish :: "ps_event \<Rightarrow> bool" where
  "ps_finish (Finish e1 e2) \<longleftrightarrow> True"
| "ps_finish _ \<longleftrightarrow> False"

definition ps_rounds :: "ps_event list \<Rightarrow> nat" where
  "ps_rounds evs = length (filter ps_finish evs)"

abbreviation user_wkup :: bus_msg where "user_wkup \<equiv> BMSG_STA_PS_TYPE RF_USER_WKUP"

text \<open>The semaphore of \<open>t\<close> is set, or will be at the latest when \<open>k\<close> more rounds are over.\<close>

definition ps_due :: "nat \<Rightarrow> nat \<Rightarrow> core_pc \<times> ps_state \<Rightarrow> bool" where
  "ps_due t k c \<longleftrightarrow> t \<in> set (released (snd c)) \<or>
     (t \<in> set (wk_list (bk_ps_info (snd c))) \<and>
       (fst c = Core_run (Some RF_USER_WKUP) \<and> 1 \<le> k \<or>
        (\<exists>pre. prefix (pre @ [user_wkup]) (io_queue (snd c)) \<and> length pre + (if fst c = Core_wait then 1 else 2) \<le> k)))"

lemma ps_due_0: "ps_due t 0 c \<Longrightarrow> t \<in> set (released (snd c))"
  by (auto simp: ps_due_def split: if_splits)

lemma ps_act_pc:
  "ps_act ev (pc, s) = Some (pc', s') \<Longrightarrow> (\<nexists>e. ev = Take e) \<Longrightarrow> \<not> ps_finish ev \<Longrightarrow> pc' = pc"
  by (cases ev) (auto split: core_pc.splits)

lemma ps_due_take:
  assumes "ps_may (Take e) (pc, s)" "ps_ok s" "ps_due t k (pc, s)" "ps_act (Take e) (pc, s) = Some (pc', s')"
  shows "ps_due t k (pc', s')"
proof -
  have g: "ps_grow (tl (io_queue s)) s s'" using ps_act_grow [OF assms(1,2)] assms(4) by fastforce
  show ?thesis
  proof (cases "t \<in> set (released s')")
    case False
    then have "t \<notin> set (released s)" and w: "t \<in> set (wk_list (bk_ps_info s'))"
      using g assms(3) by (auto simp: ps_grow_def ps_due_def)
    then obtain pre where pre: "prefix (pre @ [user_wkup]) (io_queue s)" "length pre + 1 \<le> k" and pc: "pc = Core_wait"
      using assms(1,3) by (auto simp: ps_due_def)
    show ?thesis
    proof (cases pre)
      case Nil
      then obtain q where "io_queue s = user_wkup # q" using pre(1) by (auto simp: prefix_def)
      then have "pc' = Core_run (Some RF_USER_WKUP)" using assms(4) by auto
      then show ?thesis using w pre(2) by (simp add: ps_due_def)
    next
      case (Cons x pre')
      then have "prefix (pre' @ [user_wkup]) (tl (io_queue s))" using pre(1) by (auto simp: prefix_def)
      then have "prefix (pre' @ [user_wkup]) (io_queue s')"
        using g prefix_order.order_trans unfolding ps_grow_def by blast
      then show ?thesis using w pre(2) Cons by (auto simp: ps_due_def intro!: exI [of _ pre'])
    qed
  qed (simp add: ps_due_def)
qed

lemma ps_due_finish:
  assumes "ps_may (Finish e1 e2) (pc, s)" "ps_ok s" "ps_due t k (pc, s)" "ps_act (Finish e1 e2) (pc, s) = Some (pc', s')"
  shows "ps_due t (k - 1) (pc', s')"
proof -
  obtain p where p: "pc = Core_run p" using assms(1) by (cases pc) auto
  obtain s1 where "core_finish e1 e2 p s = Some s1" "ps_grow (io_queue s) s s1"
    "p = Some RF_USER_WKUP \<Longrightarrow> set (wk_list (bk_ps_info s)) \<subseteq> set (released s1)"
    using core_finish_grow [OF assms(2)] by metis
  then have f: "pc' = Core_wait" "ps_grow (io_queue s) s s'"
    "p = Some RF_USER_WKUP \<Longrightarrow> set (wk_list (bk_ps_info s)) \<subseteq> set (released s')" using assms(4) p by auto
  show ?thesis
  proof (cases "t \<in> set (released s')")
    case False
    then have "t \<notin> set (released s)" and w: "t \<in> set (wk_list (bk_ps_info s'))" "t \<in> set (wk_list (bk_ps_info s))"
      using f(2) assms(3) by (auto simp: ps_grow_def ps_due_def)
    then have "p \<noteq> Some RF_USER_WKUP" using f(3) False by auto
    then obtain pre where "prefix (pre @ [user_wkup]) (io_queue s)" "length pre + 2 \<le> k"
      using assms(3) p \<open>t \<notin> set (released s)\<close> by (auto simp: ps_due_def)
    then have "prefix (pre @ [user_wkup]) (io_queue s')" "length pre + 1 \<le> k - 1"
      using f(2) prefix_order.order_trans unfolding ps_grow_def by (blast, simp)
    then show ?thesis using w(1) f(1) unfolding ps_due_def by auto
  qed (simp add: ps_due_def)
qed

lemma ps_due_other:
  assumes "ps_may ev (pc, s)" "ps_ok s" "ps_due t k (pc, s)" "ps_act ev (pc, s) = Some (pc', s')"
    and ev: "\<nexists>e. ev = Take e" "\<not> ps_finish ev" and d: "\<not> (ev = DisableCfm \<and> ps_real_sleep (bk_ps_info s))"
  shows "ps_due t k (pc', s')"
proof -
  have "ps_rest ev s = io_queue s" using ev(1) by (cases ev) auto
  then have g: "ps_grow (io_queue s) s s'" using ps_act_grow [OF assms(1,2) d] assms(4) by fastforce
  have "prefix q (io_queue s) \<Longrightarrow> prefix q (io_queue s')" for q
    using g prefix_order.order_trans unfolding ps_grow_def by blast
  then show ?thesis
    using g assms(3) ps_act_pc [OF assms(4) ev] unfolding ps_grow_def ps_due_def by auto blast+
qed

lemma ps_due_run:
  "ps_run c evs c' \<Longrightarrow> ps_ok (snd c) \<Longrightarrow> \<not> ps_disabled_asleep evs c \<Longrightarrow> ps_due t k c \<Longrightarrow> ps_due t (k - ps_rounds evs) c'"
proof (induction arbitrary: k rule: ps_run.induct)
  case (ps_run_Cons ev c c1 evs c2)
  obtain pc s pc1 s1 where c: "c = (pc, s)" "c1 = (pc1, s1)" by force
  have h: "ps_may ev (pc, s)" "ps_ok s" "ps_due t k (pc, s)" "ps_act ev (pc, s) = Some (pc1, s1)"
    and d: "\<not> (ev = DisableCfm \<and> ps_real_sleep (bk_ps_info s))" "\<not> ps_disabled_asleep evs c1"
    using ps_run_Cons.hyps ps_run_Cons.prems c by auto
  have ok: "ps_ok (snd c1)" using ps_act_grow [OF h(1,2) d(1)] h(4) c by (force simp: ps_grow_def)
  consider e where "ev = Take e" | e1 e2 where "ev = Finish e1 e2" | "\<nexists>e. ev = Take e" "\<not> ps_finish ev" by (cases ev) auto
  then have "ps_due t (k - (if ps_finish ev then 1 else 0)) c1"
  proof cases
    case 1
    have "ps_due t k (pc1, s1)" using h unfolding 1 by (rule ps_due_take)
    then show ?thesis using 1 c by simp
  next
    case (2 e1 e2)
    have "ps_due t (k - 1) (pc1, s1)" using h unfolding 2 by (rule ps_due_finish)
    then show ?thesis using 2 c by simp
  next
    case 3
    then show ?thesis using ps_due_other [OF h 3 d(1)] c by simp
  qed
  from ps_run_Cons.IH [OF ok d(2) this] show ?case by (cases "ps_finish ev") (simp_all add: ps_rounds_def)
qed (simp add: ps_rounds_def)

lemma do_wakeup_due:
  assumes "ps_ok s" "ps_real_sleep (bk_ps_info s)" "length (io_queue s) < CORE_QITEM_COUNT"
  shows "ps_due t (length (io_queue s) + 2) (pc, bk_wlan_dtim_rf_ps_mode_do_wakeup t s)"
proof -
  have "bk_ps_mode s = PS_DTIM_PS_MODE" using assms(1,2) by (auto simp: ps_ok_def ps_awake_def ps_asleep_def)
  then have "bk_wlan_dtim_rf_ps_mode_do_wakeup t s =
      (upd_info (\<lambda>i. i\<lparr>wk_list := wk_list i @ [t]\<rparr>) s)\<lparr>io_queue := io_queue s @ [user_wkup]\<rparr>"
    using assms(2,3) by (simp add: bk_wlan_dtim_rf_ps_mode_do_wakeup_def power_save_rf_ps_wkup_semlist_wait_def
        power_save_if_ps_rf_dtim_enabled_def power_save_if_rf_sleep_def bmsg_ps_sender_def bmsg_push_def upd_info_def)
  then show ?thesis by (auto simp: ps_due_def upd_info_def intro!: exI [of _ "io_queue s"])
qed

subsection \<open>A run from the start\<close>

text \<open>Steps that compute, the state of a station whose power save was never on, and a MAC that lets it sleep.\<close>

fun ps_exec :: "ps_event list \<Rightarrow> core_pc \<times> ps_state \<Rightarrow> (core_pc \<times> ps_state) option" where
  "ps_exec [] c = Some c"
| "ps_exec (ev # evs) c = (if ps_may ev c then Option.bind (ps_act ev c) (ps_exec evs) else None)"

lemma ps_exec_run: "ps_exec evs c = Some c' \<Longrightarrow> ps_run c evs c'"
  by (induction evs arbitrary: c) (auto simp: ps_run_simps bind_eq_Some_conv split: if_splits)

lemma ps_run_append: "ps_run c (es @ fs) c' \<longleftrightarrow> (\<exists>c1. ps_run c es c1 \<and> ps_run c1 fs c')"
  by (induction es arbitrary: c) (auto simp: ps_run_simps)

definition ps_boot :: ps_state where
  "ps_boot = \<lparr>bk_ps_mode = PS_NO_PS_MODE,
     bk_ps_info = \<lparr>ps_arm_wakeup_way = PS_ARM_WAKEUP_NONE, ps_real_sleep = False, sleep_first = True, ps_can_sleep = False,
       listen_int = PS_DTIM_COUNT, listen_mode = PS_LISTEN_MODE_DTIM, ps_dtim_period = 1, ps_dtim_multi = 1,
       waited_beacon = STA_GET_INIT, ps_beacon_int = 0, sleep_count = 0, wk_list = []\<rparr>,
     int_enable = mac_int_bits, int_enable_reg_save = 0, ps_lock = 1, ps_dis_flag = 0,
     ps_keep_timer = \<lparr>tm_init = False, tm_running = False\<rparr>, ps_keep_timer_status = 0, ps_keep_timer_period = 0,
     ps_reseted_moniter_flag = False, ps_bcn_loss_max_count = 0, ps_keep_timer_flag = True,
     ps_wait_timer = \<lparr>tm_init = False, tm_running = False\<rparr>, ps_wait_timer_status = 0, ps_wait_timer_period = 20,
     r_wakeup_time = 50, ps_vifs = [\<lparr>vif_active = True, vif_is_sta = True, prevent_sleep = 0\<rparr>, \<lparr>vif_active = False, vif_is_sta = False, prevent_sleep = 0\<rparr>],
     used_list = [0], s_interval = 0, rf_ps_enabled = False,
     nxmac = \<lparr>radio_wake_up_time = 0, nxmac_listen_interval = 0, tsf_mgt_disable = True, atim_w = 0, wake_up_sw = False, nxmac_beacon_int = 0\<rparr>,
     rf_hold_status = RF_HOLD_BY_STA_BIT, rf_sleeped = False, sta_rf_sleeped = False, io_queue = [], ke_msgs = [], released = []\<rparr>"

definition ps_env_up :: ps_env where
  "ps_env_up = \<lparr>mhdr_get_station_status = RW_EVT_STA_GOT_IP, only_sta = True, wpa_psk_cal_pending = False, ke_evt_get = False,
     ps_sleep_check = True, get_status_in_doze = False, int_status = 0, rwnxl_sleep = True,
     bk_wlan_has_role_sta = True, ap_if_ap_rf_sleep = True\<rparr>"

text \<open>The beacon interval is learnt, the keep timer made, power save asked for and confirmed, a beacon seen: the MAC sleeps.\<close>

definition ps_first_sleep :: "ps_event list" where
  "ps_first_sleep = [SetBcnInt 30, TimerStart, Take ps_env_up, Finish ps_env_up ps_env_up, ModeEnable, Take ps_env_up,
     EnableCfm ps_env_up, Beacon True ps_env_up, Finish ps_env_up ps_env_up]"

definition ps_asleep_state :: ps_state where
  "ps_asleep_state = (case ps_exec ps_first_sleep (Core_wait, ps_boot) of None \<Rightarrow> ps_boot | Some c \<Rightarrow> snd c)"

lemma ps_boot_start: "ps_start ps_boot"
  by (simp add: ps_start_def ps_boot_def RF_HOLD_BY_STA_BIT_def)

lemma ps_exec_first_sleep: "ps_exec ps_first_sleep (Core_wait, ps_boot) = Some (Core_wait, ps_asleep_state)"
proof -
  have "case ps_exec ps_first_sleep (Core_wait, ps_boot) of None \<Rightarrow> False | Some c \<Rightarrow> fst c = Core_wait"
    by code_simp
  then show ?thesis by (auto simp: ps_asleep_state_def split: option.splits)
qed

lemma ps_asleep_state_reach: "ps_reach (Core_wait, ps_asleep_state)"
  unfolding ps_reach_def using ps_exec_run [OF ps_exec_first_sleep] ps_boot_start by blast

lemma ps_asleep_state_asleep: "ps_asleep ps_asleep_state"
  by code_simp

subsection \<open>A lost beacon\<close>

text \<open>
  The MAC woke by itself, no beacon came, and the keep timer has run off: its status still says that it runs, so that it is
  not started again.  The messages and events that would help are those of a beacon, of the wait timer, of the keep timer
  being made anew, and the end of power save.
\<close>

fun ps_helps :: "ps_msg \<Rightarrow> bool" where
  "ps_helps m \<longleftrightarrow> m \<in> {RF_KP_STOP, RF_KP_HANDLER, WAIT_TM_SET, WAIT_TM_HANDLER, RF_PS_TIMER_INIT, RF_PS_TIMER_DEINIT}"

fun ps_relief :: "ps_event \<Rightarrow> bool" where
  "ps_relief (Beacon irq e) \<longleftrightarrow> True"
| "ps_relief (WaitSet e) \<longleftrightarrow> True"
| "ps_relief DisableCfm \<longleftrightarrow> True"
| "ps_relief TimerStart \<longleftrightarrow> True"
| "ps_relief TimerPause \<longleftrightarrow> True"
| "ps_relief _ \<longleftrightarrow> False"

definition ps_key :: "ps_state \<Rightarrow> bool \<times> PS_ARM_WAKEUP_WAY \<times> PS_STA_BEACON_STATE \<times> u32 \<times> bool \<times> bool \<times> u32" where
  "ps_key s = (ps_real_sleep (bk_ps_info s), ps_arm_wakeup_way (bk_ps_info s), waited_beacon (bk_ps_info s),
     ps_keep_timer_status s, tm_running (ps_keep_timer s), tm_running (ps_wait_timer s), ps_bcn_loss_max_count s)"

definition ps_stuck :: "u32 \<Rightarrow> core_pc \<times> ps_state \<Rightarrow> bool" where
  "ps_stuck n c \<longleftrightarrow> ps_key (snd c) = (False, PS_ARM_WAKEUP_RW, STA_GET_FALSE, 1, False, False, n)
     \<and> (\<forall>m. BMSG_STA_PS_TYPE m \<in> set (io_queue (snd c)) \<longrightarrow> \<not> ps_helps m) \<and> (\<forall>m. fst c = Core_run (Some m) \<longrightarrow> \<not> ps_helps m)"

lemma ps_key_calls:
  "ps_key (bmsg_push b s) = ps_key s" "ps_key (bmsg_ps_sender m s) = ps_key s"
  "ps_key (s\<lparr>io_queue := q\<rparr>) = ps_key s" "ps_key (s\<lparr>rf_ps_enabled := x\<rparr>) = ps_key s"
  "ps_key (ke_send_all f is s) = ps_key s" "ps_key (power_save_set_reseted_flag s) = ps_key s"
  "ps_key (power_save_set_dtim_multi k s) = ps_key s" "ps_key (power_save_set_dtim_period k s) = ps_key s"
  "ps_key (power_save_cal_bcn_listen_int c s) = ps_key s" "ps_key (power_save_set_listen_int c s) = ps_key s"
  "ps_key (power_save_sm_set_all_listen_interval c s) = ps_key s" "ps_key (power_save_sm_set_all_bcmc k s) = ps_key s"
  "ps_key (power_save_dtim_disable s) = ps_key s" "ps_key (snd (power_save_dtim_enable e s)) = ps_key s"
  "ps_key (power_save_rf_hold_bit_set h s) = ps_key s" "ps_key (power_save_rf_hold_bit_clear h s) = ps_key s"
  by (simp_all add: ps_key_def bmsg_push_def bmsg_ps_sender_def ps_small_defs power_save_dtim_enable_def)

lemma ps_key_stuck:
  assumes "ps_key s = (False, PS_ARM_WAKEUP_RW, STA_GET_FALSE, 1, False, False, n)"
  shows "power_save_rf_sleep_check e s = s" "power_save_rf_dtim_manual_do_wakeup s = Some s"
    "power_save_dtim_wake status s = Some s" "power_save_keep_timer_set s = s"
    "ps_key (power_save_dtim_enable_handler e s) = ps_key s" "bk_wlan_dtim_rf_ps_mode_do_wakeup t s = s"
  using assms
  by (simp_all add: ps_key_def power_save_rf_sleep_check_def PS_STA_DTIM_CAN_SLEEP_def power_save_rf_dtim_manual_do_wakeup_def
      power_save_dtim_wake_def power_save_keep_timer_set_def power_save_dtim_enable_handler_def Let_def ps_small_defs
      bk_wlan_dtim_rf_ps_mode_do_wakeup_def power_save_if_rf_sleep_def)

lemma set_push: "set (io_queue (bmsg_push b s)) \<subseteq> insert b (set (io_queue s))"
  by (auto simp: bmsg_push_def)

lemma ps_stuck_frame:
  "ps_stuck n (pc, s) \<Longrightarrow> ps_key s' = ps_key s \<Longrightarrow> io_queue s' = io_queue s \<Longrightarrow> ps_stuck n (pc, s')"
  by (simp add: ps_stuck_def)

lemma ps_stuck_push: "ps_stuck n (pc, s) \<Longrightarrow> b \<noteq> BMSG_OTHER \<longrightarrow> (\<exists>m. b = BMSG_STA_PS_TYPE m \<and> \<not> ps_helps m) \<Longrightarrow> ps_stuck n (pc, bmsg_push b s)"
  using set_push [of b s] by (auto simp: ps_stuck_def ps_key_calls)

lemma ps_stuck_msg:
  assumes "ps_stuck n (Core_run p, s)"
  shows "\<exists>s'. core_finish e1 e2 p s = Some s' \<and> ps_stuck n (Core_wait, s')"
proof -
  have k: "ps_key s = (False, PS_ARM_WAKEUP_RW, STA_GET_FALSE, 1, False, False, n)" using assms by (simp add: ps_stuck_def)
  have w: "ps_stuck n (Core_wait, s)" using assms by (simp add: ps_stuck_def)
  have "\<exists>s'. (case p of None \<Rightarrow> Some s | Some m \<Rightarrow> ps_msg_process e1 m s) = Some s' \<and> ps_stuck n (Core_wait, s')"
  proof (cases p)
    case (Some m)
    then have "\<not> ps_helps m" using assms by (simp add: ps_stuck_def)
    then show ?thesis
      using w Some by (cases m) (simp_all add: ps_key_stuck [OF k] ps_stuck_frame [OF w] ps_key_calls ps_queue)
  qed (use w in simp)
  then obtain s' where s': "(case p of None \<Rightarrow> Some s | Some m \<Rightarrow> ps_msg_process e1 m s) = Some s'" "ps_stuck n (Core_wait, s')" by blast
  then have "ps_key s' = (False, PS_ARM_WAKEUP_RW, STA_GET_FALSE, 1, False, False, n)" by (simp add: ps_stuck_def)
  then show ?thesis using s' by (simp add: core_finish_def ps_key_stuck)
qed

lemma ps_stuck_take:
  assumes "ps_stuck n (Core_wait, s)" "io_queue s \<noteq> []"
  shows "\<exists>c'. core_take e s = Some c' \<and> ps_stuck n c'"
proof -
  obtain b q where q: "io_queue s = b # q" using assms(2) by (cases "io_queue s") auto
  let ?s = "s\<lparr>io_queue := q\<rparr>"
  have st: "ps_stuck n (Core_wait, ?s)" using assms(1) q by (simp add: ps_stuck_def ps_key_calls)
  then have k: "ps_key ?s = (False, PS_ARM_WAKEUP_RW, STA_GET_FALSE, 1, False, False, n)" by (simp add: ps_stuck_def)
  have "ps_stuck n (Core_run None, power_save_dtim_disable ?s)"
    using st by (simp add: ps_stuck_def ps_key_calls ps_queue)
  then show ?thesis
    using st assms(1) q by (cases b) (auto simp: ps_key_stuck [OF k] ps_stuck_def)
qed

lemma ps_stuck_act:
  assumes "ps_stuck n c" "ps_may ev c" "ps_act ev c = Some c'" "\<not> ps_relief ev"
  shows "ps_stuck n c'"
proof -
  obtain pc s where c: "c = (pc, s)" by force
  have k: "ps_key s = (False, PS_ARM_WAKEUP_RW, STA_GET_FALSE, 1, False, False, n)" using assms(1) by (simp add: ps_stuck_def c)
  have st: "ps_stuck n (pc, s)" using assms(1) c by simp
  note push = ps_stuck_push [where n = n and pc = pc]
  note simps = c ps_key_stuck [OF k] ps_stuck_frame [OF st] ps_key_calls ps_queue
  show ?thesis
  proof (cases ev)
    case (Take e)
    then show ?thesis using ps_stuck_take [of n s e] assms c by auto
  next
    case (Finish e1 e2)
    then obtain p where "pc = Core_run p" using assms(2) c by (cases pc) auto
    then show ?thesis using ps_stuck_msg [of n p s e1 e2] assms Finish c by auto
  next
    case (EnableCfm e)
    have "io_queue (power_save_dtim_enable_handler e s) = io_queue s"
      by (simp add: power_save_dtim_enable_handler_def ps_small_defs)
    then show ?thesis using assms(3) st EnableCfm by (auto simp: simps)
  next
    case KeepTimeout
    then show ?thesis using assms(2) k c by (simp add: ps_key_def)
  next
    case WaitTimeout
    then show ?thesis using assms(2) k c by (simp add: ps_key_def)
  next
    case ModeEnable
    have "ps_stuck n (pc, s\<lparr>rf_ps_enabled := True\<rparr>)" using st by (simp add: ps_stuck_def ps_key_calls)
    then show ?thesis using assms(3) ModeEnable push
      by (auto simp: c bk_wlan_dtim_rf_ps_mode_enable_def bmsg_ps_sender_def)
  next
    case ModeDisable
    have "ps_stuck n (pc, s\<lparr>rf_ps_enabled := False\<rparr>)" using st by (simp add: ps_stuck_def ps_key_calls)
    then show ?thesis using assms(3) ModeDisable push
      by (auto simp: c bk_wlan_dtim_rf_ps_mode_disable_def power_save_dtim_rf_ps_disable_send_msg_def bmsg_ps_sender_def split: if_splits)
  next
    case AutoCheck
    then show ?thesis using assms(3) push [OF st] st
      by (auto simp: c auto_check_dtim_rf_ps_mode_def bmsg_ps_sender_def split: if_splits)
  next
    case DelayCheck
    then show ?thesis using assms(3) push [OF st] by (auto simp: c power_save_delay_sleep_check_def bmsg_ps_sender_def)
  next
    case OtherMsg
    then show ?thesis using assms(3) push [OF st] by (auto simp: c)
  qed (use assms(3,4) st in \<open>auto simp: simps\<close>)
qed

lemma ps_stuck_run: "ps_run c evs c' \<Longrightarrow> ps_stuck n c \<Longrightarrow> \<not> list_ex ps_relief evs \<Longrightarrow> ps_stuck n c'"
  by (induction rule: ps_run.induct) (auto dest: ps_stuck_act)

text \<open>The wake-up of the MAC asks for the keep timer; when it runs off without a beacon, it is asked for once more, in vain.\<close>

definition ps_woken :: "u32 \<Rightarrow> bool \<Rightarrow> u32 \<Rightarrow> bool \<Rightarrow> bus_msg list \<Rightarrow> ps_state \<Rightarrow> bool" where
  "ps_woken st run n flag q s \<longleftrightarrow> ps_key s = (False, PS_ARM_WAKEUP_RW, STA_GET_FALSE, st, run, False, n) \<and> tm_init (ps_keep_timer s)
     \<and> ps_keep_timer_flag s = flag \<and> bk_ps_mode s = PS_DTIM_PS_MODE \<and> io_queue s = q"

lemma ps_woken_no_sleep: "ps_woken st run n flag q s \<Longrightarrow> power_save_rf_sleep_check e s = s"
  by (simp add: ps_woken_def ps_key_def power_save_rf_sleep_check_def PS_STA_DTIM_CAN_SLEEP_def)

lemma mac_wake_asks_for_timer:
  assumes "ps_asleep s" "status AND MAC_ARM_WAKEUP_EN_BIT \<noteq> 0" "tm_init (ps_keep_timer s)" "ps_keep_timer_status s = 0"
    "ps_keep_timer_period s \<noteq> 0" "\<not> tm_running (ps_keep_timer s)" "\<not> tm_running (ps_wait_timer s)" "io_queue s = []"
    "ps_dis_flag s AND NEED_DISABLE_BIT = 0"
  shows "\<exists>s'. power_save_dtim_wake status s = Some s' \<and>
    ps_woken 0 False (ps_bcn_loss_max_count s) True [BMSG_STA_PS_TYPE RF_KP_SET] s'"
  using assms
  by (simp add: ps_asleep_def power_save_dtim_wake_def power_save_ieee_dtim_wakeup_def power_save_wakeup_def Let_def upd_info_def
      power_save_set_all_vif_prevent_sleep_def bmsg_ps_sender_def bmsg_push_def CORE_QITEM_COUNT_def
      power_save_rf_ps_wkup_semlist_set_def power_save_dtim_exit_check_def ps_woken_def ps_key_def)

lemma woken_starts_timer:
  "ps_woken 0 run n True [] s \<Longrightarrow> ps_woken 1 True n True [] (power_save_keep_timer_set s)"
  by (simp add: ps_woken_def ps_key_def power_save_keep_timer_set_def)

lemma woken_timeout:
  "ps_woken 1 True n True [] s \<Longrightarrow> ps_woken 1 False n True [BMSG_STA_PS_TYPE RF_KP_HANDLER] (power_save_keep_timer_handler s)"
  by (simp add: ps_woken_def ps_key_def power_save_keep_timer_handler_def bmsg_ps_sender_def bmsg_push_def CORE_QITEM_COUNT_def)

lemma woken_handler:
  assumes "ps_woken 1 False n True [] s" "net_if_is_up e" "only_sta e"
  shows "ps_woken 1 False n False [BMSG_STA_PS_TYPE RF_KP_SET] (power_save_keep_timer_real_handler e s)"
  using assms by (simp add: ps_woken_def ps_key_def power_save_keep_timer_real_handler_def PS_STA_DTIM_SWITCH_def
      power_save_if_ps_rf_dtim_enabled_def bmsg_ps_sender_def bmsg_push_def CORE_QITEM_COUNT_def)

lemma woken_take:
  "ps_woken st run n flag [BMSG_STA_PS_TYPE m] s \<Longrightarrow> m \<noteq> RF_DISABLE \<Longrightarrow>
     \<exists>s'. core_take e s = Some (Core_run (Some m), s') \<and> ps_woken st run n flag [] s'"
  by (simp add: ps_woken_def ps_key_calls)

lemma woken_round:
  assumes "ps_run (Core_wait, s) (Take e # Finish e1 e2 # evs) c" "ps_woken st run n flag [BMSG_STA_PS_TYPE m] s" "m \<noteq> RF_DISABLE"
    and f: "\<And>s. ps_woken st run n flag [] s \<Longrightarrow> \<exists>s'. ps_msg_process e1 m s = Some s' \<and> ps_woken st' run' n flag' q s'"
  shows "\<exists>s'. ps_run (Core_wait, s') evs c \<and> ps_woken st' run' n flag' q s'"
proof -
  obtain s1 where s1: "core_take e s = Some (Core_run (Some m), s1)" "ps_woken st run n flag [] s1"
    using woken_take [OF assms(2,3)] by blast
  obtain s2 where s2: "ps_msg_process e1 m s1 = Some s2" "ps_woken st' run' n flag' q s2" using f [OF s1(2)] by blast
  have "core_finish e1 e2 (Some m) s1 = Some s2" by (simp add: core_finish_def s2(1) ps_woken_no_sleep [OF s2(2)])
  then show ?thesis using assms(1) s1(1) s2(2) by (auto simp: ps_run_simps simp del: core_take.simps)
qed

lemma woken_stuck: "ps_woken 1 False n False [BMSG_STA_PS_TYPE RF_KP_SET] s \<Longrightarrow> ps_stuck n (Core_wait, s)"
  by (simp add: ps_woken_def ps_stuck_def)

definition ps_lost_beacon :: "ps_env \<Rightarrow> u32 \<Rightarrow> ps_event list" where
  "ps_lost_beacon e status = [MacFiq status, Take e, Finish e e, KeepTimeout, Take e, Finish e e]"

lemma lost_beacon_stuck:
  assumes "ps_asleep s" "status AND MAC_ARM_WAKEUP_EN_BIT \<noteq> 0" "tm_init (ps_keep_timer s)" "ps_keep_timer_status s = 0"
    "ps_keep_timer_period s \<noteq> 0" "\<not> tm_running (ps_keep_timer s)" "\<not> tm_running (ps_wait_timer s)" "io_queue s = []"
    "ps_dis_flag s AND NEED_DISABLE_BIT = 0" and e: "net_if_is_up e" "only_sta e"
    and run: "ps_run (Core_wait, s) (ps_lost_beacon e status @ evs) c"
  shows "\<exists>c1. ps_run c1 evs c \<and> ps_stuck (ps_bcn_loss_max_count s) c1"
proof -
  let ?n = "ps_bcn_loss_max_count s"
  obtain s1 where s1: "power_save_dtim_wake status s = Some s1" "ps_woken 0 False ?n True [BMSG_STA_PS_TYPE RF_KP_SET] s1"
    using mac_wake_asks_for_timer [OF assms(1-9)] by blast
  have r1: "ps_run (Core_wait, s1) (Take e # Finish e e # KeepTimeout # Take e # Finish e e # evs) c"
    using run s1(1) by (simp add: ps_lost_beacon_def ps_run_simps del: core_take.simps)
  obtain s2 where r2: "ps_run (Core_wait, s2) (KeepTimeout # Take e # Finish e e # evs) c" and s2: "ps_woken 1 True ?n True [] s2"
    using woken_round [OF r1 s1(2), of 1 True True "[]"] woken_starts_timer by auto
  have r3: "ps_run (Core_wait, power_save_keep_timer_handler s2) (Take e # Finish e e # evs) c"
    using r2 by (simp add: ps_run_simps del: core_take.simps)
  obtain s3 where "ps_run (Core_wait, s3) evs c" "ps_woken 1 False ?n False [BMSG_STA_PS_TYPE RF_KP_SET] s3"
    using woken_round [OF r3 woken_timeout [OF s2], of 1 False False "[BMSG_STA_PS_TYPE RF_KP_SET]"] woken_handler [OF _ e] by auto
  then show ?thesis using woken_stuck by blast
qed

subsection \<open>The sleep interval\<close>

lemma unat_u8_u16: "unat (a::u8) \<le> 255" "unat (b::u16) \<le> 65535"
proof -
  have "unat a < 2 ^ LENGTH(8)" "unat b < 2 ^ LENGTH(16)" by (rule unsigned_less)+
  then show "unat a \<le> 255" "unat b \<le> 65535" by simp_all
qed

lemma unat_ucast_u32: "unat (ucast (a::u8) :: u32) = unat a" "unat (ucast (b::u16) :: u32) = unat b"
  using unat_u8_u16(1) [of a] unat_u8_u16(2) [of b] by (simp_all add: unsigned_ucast_eq take_bit_eq_mod)

lemma unat_dtim_time:
  "unat (power_save_get_rf_ps_dtim_time s)
    = unat (ps_dtim_period (bk_ps_info s)) * unat (ps_dtim_multi (bk_ps_info s)) * unat (ps_beacon_int (bk_ps_info s))"
proof -
  let ?i = "bk_ps_info s"
  have "unat (ps_dtim_period ?i) \<le> 255" "unat (ps_dtim_multi ?i) \<le> 255" "unat (ps_beacon_int ?i) \<le> 65535"
    by (rule unat_u8_u16)+
  moreover from this have "unat (ps_dtim_period ?i) * unat (ps_dtim_multi ?i) \<le> 255 * 255" using mult_le_mono by blast
  ultimately have "unat (ps_dtim_period ?i) * unat (ps_dtim_multi ?i) < 2 ^ 32"
    "unat (ps_dtim_period ?i) * unat (ps_dtim_multi ?i) * unat (ps_beacon_int ?i) < 2 ^ 32"
    using mult_le_mono [of "unat (ps_dtim_period ?i) * unat (ps_dtim_multi ?i)" "255 * 255" "unat (ps_beacon_int ?i)" 65535] by simp_all
  then show ?thesis
    by (simp add: power_save_get_rf_ps_dtim_time_def Let_def unat_word_ariths unat_ucast_u32)
qed

lemma enable_multi:
  assumes "sta_connected (mhdr_get_station_status e)" "t = unat (power_save_get_rf_ps_dtim_time s)"
  shows "unat (ps_dtim_multi (bk_ps_info (power_save_dtim_enable_handler e s))) = (if 0 < t \<and> t < 75 then 75 div t + 1 else 1)"
proof -
  let ?w = "power_save_get_rf_ps_dtim_time s"
  have w: "(0 < ?w \<and> ?w < 75) = (0 < t \<and> t < 75)" by (simp add: assms(2) word_less_nat_alt)
  show ?thesis
  proof (cases "0 < t \<and> t < 75")
    case True
    let ?m = "ucast (75 div ?w + 1) :: u8"
    have d: "75 div t \<le> 75" by simp
    then have l: "75 div t < 4294967296" "Suc (75 div t) < 4294967296" "Suc (75 div t) < 256" "75 div t < 99" by linarith+
    then have "unat (75 div ?w + 1) = 75 div t + 1" by (simp add: unat_word_ariths unat_div flip: assms(2))
    then have u: "unat ?m = 75 div t + 1" using l(3) by (simp add: unsigned_ucast_eq take_bit_eq_mod)
    then have "0 < ?m" "?m < 100" using l(4) by (simp_all add: word_less_nat_alt)
    then show ?thesis using True w u assms(1)
      by (simp add: power_save_dtim_enable_handler_def ps_small_defs)
  next
    case False
    then show ?thesis using w assms(1) by (auto simp: power_save_dtim_enable_handler_def ps_small_defs)
  qed
qed

lemma enable_time:
  assumes "sta_connected (mhdr_get_station_status e)" "t = unat (power_save_get_rf_ps_dtim_time s)"
  shows "unat (power_save_get_rf_ps_dtim_time (power_save_dtim_enable_handler e s))
    = unat (ps_dtim_period (bk_ps_info s)) * unat (ps_beacon_int (bk_ps_info s)) * (if 0 < t \<and> t < 75 then 75 div t + 1 else 1)"
proof -
  have "ps_dtim_period (bk_ps_info (power_save_dtim_enable_handler e s)) = ps_dtim_period (bk_ps_info s)"
    "ps_beacon_int (bk_ps_info (power_save_dtim_enable_handler e s)) = ps_beacon_int (bk_ps_info s)"
    by (simp_all add: power_save_dtim_enable_handler_def ps_small_defs)
  then show ?thesis by (simp add: unat_dtim_time enable_multi [OF assms])
qed

lemma next_multiple:
  assumes "0 < (t::nat)" "t < 75"
  shows "75 < t * (75 div t + 1)" "t * (75 div t + 1) \<le> 75 + t"
proof -
  have e: "t * (75 div t) + 75 mod t = 75" "75 mod t < t" using assms(1) by simp_all
  then show "75 < t * (75 div t + 1)" "t * (75 div t + 1) \<le> 75 + t" unfolding distrib_left mult_1_right by linarith+
qed

lemma ps_act_some: "ps_may ev (pc, s) \<Longrightarrow> ps_ok s \<or> ps_lost s \<Longrightarrow> ps_act ev (pc, s) \<noteq> None"
proof (cases "ev = DisableCfm")
  case False
  then show "ps_may ev (pc, s) \<Longrightarrow> ps_ok s \<or> ps_lost s \<Longrightarrow> ?thesis"
    using ps_act_grow [of ev pc s] ps_act_lost [of ev pc s] by (metis option.distinct(1))
qed simp

subsection \<open>Properties\<close>

text \<open>C6: From the start of the station on, whatever the tasks, the interrupts, the timers, the events of the MAC and the other parts that
  hold the radio do, in any order: no step that may come next fails the assertion on the lock; and the MAC is asleep (power save
  on, \<open>ps_lock\<close> 0, the wake-up interrupt of the MAC enabled and its other interrupts masked) or awake (\<open>ps_lock\<close> 1, its interrupts
  enabled, the radio not given up by the station, no task waiting), or else power save was confirmed to be off while the MAC slept,
  and then it never sleeps or wakes again.  The radio is off exactly when no part holds it.  If nobody else ever cleared the hold bit
  of the station, a station awake holds the radio, which is on; if nobody else ever set it and the access point was never using the
  radio at the sleep check of a round, a station asleep does not hold the radio.\<close>

lemma power_save_consistent:
  assumes "ps_start s" "ps_run (Core_wait, s) evs (pc, s')"
  shows "(\<forall>ev. ps_may ev (pc, s') \<longrightarrow> ps_act ev (pc, s') \<noteq> None)
    \<and> (if ps_disabled_asleep evs (Core_wait, s) then ps_lost s' else ps_awake s' \<or> ps_asleep s')
    \<and> (rf_sleeped s' \<longleftrightarrow> rf_hold_status s' = 0)
    \<and> (list_all keeps_sta_bit evs \<longrightarrow> ps_awake s' \<longrightarrow> rf_hold_status s' AND RF_HOLD_BY_STA_BIT \<noteq> 0 \<and> \<not> rf_sleeped s')
    \<and> (list_all leaves_sta_bit evs \<longrightarrow> list_all ap_off evs \<longrightarrow> ps_asleep s' \<longrightarrow> rf_hold_status s' AND RF_HOLD_BY_STA_BIT = 0)"
proof (intro conjI allI impI)
  fix ev assume "ps_may ev (pc, s')"
  moreover have "ps_ok s' \<or> ps_lost s'" using ps_run_states [OF assms(2)] ps_start_ok [OF assms(1)] by simp
  ultimately show "ps_act ev (pc, s') \<noteq> None" by (rule ps_act_some)
next
  show "if ps_disabled_asleep evs (Core_wait, s) then ps_lost s' else ps_awake s' \<or> ps_asleep s'"
    using ps_run_ok [OF assms(2)] ps_start_ok [OF assms(1)] by (simp add: ps_ok_def split: if_splits)
next
  have r: "ps_radio (list_all keeps_sta_bit evs) (list_all leaves_sta_bit evs) (list_all ap_off evs) s'"
    using ps_run_radio [OF assms(2)] ps_start_radio [OF assms(1)] by simp
  show "rf_sleeped s' \<longleftrightarrow> rf_hold_status s' = 0" using r by (simp add: ps_radio_def)
  show "rf_hold_status s' AND RF_HOLD_BY_STA_BIT \<noteq> 0" "\<not> rf_sleeped s'" if "list_all keeps_sta_bit evs" "ps_awake s'"
    using r that by (auto simp: ps_radio_def ps_awake_def)
  show "rf_hold_status s' AND RF_HOLD_BY_STA_BIT = 0"
    if "list_all leaves_sta_bit evs" "list_all ap_off evs" "ps_asleep s'"
    using r that by (simp add: ps_radio_def ps_asleep_def power_save_if_rf_sleep_def)
qed

text \<open>Another part holds the radio while the MAC sleeps: it is on.\<close>

lemma power_save_consistent_witness:
  "\<exists>s'. ps_exec (ps_first_sleep @ [RfHoldSet (push_bit 14 1)]) (Core_wait, ps_boot) = Some (Core_wait, s') \<and> ps_asleep s' \<and> \<not> rf_sleeped s'
     \<and> rf_hold_status s' AND RF_HOLD_BY_STA_BIT = 0"
proof -
  let ?evs = "ps_first_sleep @ [RfHoldSet (push_bit 14 1)]"
  have c: "case ps_exec ?evs (Core_wait, ps_boot) of None \<Rightarrow> False | Some (pc, s') \<Rightarrow> pc = Core_wait \<and> ps_real_sleep (bk_ps_info s') \<and> rf_hold_status s' \<noteq> 0"
    by code_simp
  then obtain s' where s': "ps_exec ?evs (Core_wait, ps_boot) = Some (Core_wait, s')" "ps_real_sleep (bk_ps_info s')" "rf_hold_status s' \<noteq> 0"
    by (auto split: option.splits)
  have d: "\<not> ps_disabled_asleep ?evs (Core_wait, ps_boot)" "list_all leaves_sta_bit ?evs" "list_all ap_off ?evs" by code_simp+
  note p = power_save_consistent [OF ps_boot_start ps_exec_run [OF s'(1)]]
  then have "ps_asleep s'" using d(1) s'(2) by (auto simp: ps_awake_def)
  then show ?thesis using p d s' by auto
qed

text \<open>C5: A task that finds the MAC asleep and waits for it is released: if its message finds room in the queue, then after as many rounds of
  the core thread as there were messages before it and two more, whatever happens in between (the MAC may sleep again), except that power save is confirmed to be off
  while the MAC sleeps.\<close>

lemma waiting_task_released:
  assumes "ps_reach (pc, s)" "ps_real_sleep (bk_ps_info s)" "length (io_queue s) < CORE_QITEM_COUNT"
    and "ps_run (pc, s) (DoWakeup t # evs) c" "length (io_queue s) + 2 \<le> ps_rounds evs"
    and "\<not> ps_disabled_asleep (DoWakeup t # evs) (pc, s)"
  shows "t \<in> set (released (snd c))"
proof -
  have ok: "ps_ok s" by (rule ps_reach_ok [OF assms(1,2)])
  let ?w = "bk_wlan_dtim_rf_ps_mode_do_wakeup t s"
  have "ps_run (pc, ?w) evs c" using assms(4) by (simp add: ps_run_simps)
  moreover have "ps_ok ?w" using do_wakeup_grow [OF ok] by (simp add: ps_grow_def)
  moreover have "\<not> ps_disabled_asleep evs (pc, ?w)" using assms(6) by simp
  ultimately have "ps_due t (length (io_queue s) + 2 - ps_rounds evs) c"
    using ps_due_run do_wakeup_due [OF ok assms(2,3)] by (metis snd_conv)
  then show ?thesis using ps_due_0 assms(5) by simp
qed

text \<open>C39: A beacon is lost once and the station stays awake: when the MAC woke by itself and the keep timer ran off before a beacon came,
  then until a beacon, the wait timer, a new keep timer or the end of power save, the MAC does not sleep again, and the loss is never
  counted (the limit of five lost beacons is not used).\<close>

lemma lost_beacon_keeps_awake:
  assumes "ps_asleep s" "status AND MAC_ARM_WAKEUP_EN_BIT \<noteq> 0" "tm_init (ps_keep_timer s)" "ps_keep_timer_status s = 0"
    "ps_keep_timer_period s \<noteq> 0" "\<not> tm_running (ps_keep_timer s)" "\<not> tm_running (ps_wait_timer s)" "io_queue s = []"
    "ps_dis_flag s AND NEED_DISABLE_BIT = 0" "net_if_is_up e" "only_sta e"
    and "ps_run (Core_wait, s) (ps_lost_beacon e status @ evs) c" "\<not> list_ex ps_relief evs"
  shows "\<not> ps_real_sleep (bk_ps_info (snd c)) \<and> ps_bcn_loss_max_count (snd c) = ps_bcn_loss_max_count s"
proof -
  obtain c1 where "ps_run c1 evs c" "ps_stuck (ps_bcn_loss_max_count s) c1" using lost_beacon_stuck [OF assms(1-12)] by blast
  then show ?thesis using ps_stuck_run assms(13) by (fastforce simp: ps_stuck_def ps_key_def)
qed

text \<open>C40: When power save is confirmed with the multiplier 1, the sleep interval becomes a multiple of the old one, above 75 milliseconds
  and at most one old interval more, where the old one is shorter; an interval of 75 or more is kept.\<close>

lemma dtim_time_after_enable:
  assumes "sta_connected (mhdr_get_station_status e)" "ps_dtim_multi (bk_ps_info s) = 1"
    and "t = unat (power_save_get_rf_ps_dtim_time s)" "0 < t" "t' = unat (power_save_get_rf_ps_dtim_time (power_save_dtim_enable_handler e s))"
  shows "if t < 75 then t dvd t' \<and> 75 < t' \<and> t' \<le> 75 + t else t' = t"
proof -
  have p: "unat (ps_dtim_period (bk_ps_info s)) * unat (ps_beacon_int (bk_ps_info s)) = t"
    using assms(2,3) by (simp add: unat_dtim_time)
  have t': "t' = t * (if t < 75 then 75 div t + 1 else 1)" using enable_time [OF assms(1,3)] assms(4,5) p by simp
  show ?thesis
  proof (cases "t < 75")
    case True
    have "t' = t * (75 div t + 1)" using True t' by simp
    then show ?thesis using True next_multiple [OF assms(4) True] by (metis dvd_triv_left)
  qed (simp add: t')
qed

text \<open>A second confirmation undoes the first.\<close>

lemma dtim_time_second_confirmation:
  assumes "sta_connected (mhdr_get_station_status e)" "ps_dtim_multi (bk_ps_info s) = 1"
    "0 < unat (power_save_get_rf_ps_dtim_time s)" "unat (power_save_get_rf_ps_dtim_time s) < 75"
  shows "unat (power_save_get_rf_ps_dtim_time (power_save_dtim_enable_handler e (power_save_dtim_enable_handler e s)))
    = unat (power_save_get_rf_ps_dtim_time s)"
proof -
  let ?s = "power_save_dtim_enable_handler e s"
  have "75 < unat (power_save_get_rf_ps_dtim_time ?s)"
    using enable_time [OF assms(1) refl, of s] assms(2-4) next_multiple(1) [OF assms(3,4)] by (simp add: unat_dtim_time)
  moreover have "ps_dtim_period (bk_ps_info ?s) = ps_dtim_period (bk_ps_info s)" "ps_beacon_int (bk_ps_info ?s) = ps_beacon_int (bk_ps_info s)"
    by (simp_all add: power_save_dtim_enable_handler_def ps_small_defs)
  ultimately show ?thesis using enable_time [OF assms(1) refl, of ?s] assms(2) by (simp add: unat_dtim_time)
qed

text \<open>Power save that is confirmed to be off while the MAC sleeps (the code prints an error and goes on) leaves it asleep for good: the
  station does not take the radio back, the interrupts of the MAC stay masked, neither the wake-up interrupt nor a wake-up by
  hand has any effect, and the tasks that wait are not released.\<close>

lemma disable_confirmed_asleep:
  assumes "ps_asleep s" "s' = power_save_dtim_disable_handler s"
  shows "rf_hold_status s' = rf_hold_status s \<and> sta_rf_sleeped s' = sta_rf_sleeped s \<and> rf_sleeped s' = rf_sleeped s \<and> int_enable s' AND mac_int_bits = 0 \<and> released s' = released s \<and> wk_list (bk_ps_info s') = wk_list (bk_ps_info s)
     \<and> \<not> power_save_if_rf_sleep s' \<and> power_save_dtim_wake status s' = Some s' \<and> power_save_rf_dtim_manual_do_wakeup s' = Some s'"
  using assms by (simp add: power_save_dtim_disable_handler_def power_save_dtim_ps_exit_def ps_asleep_def ps_small_defs
      power_save_if_rf_sleep_def power_save_dtim_wake_def power_save_rf_dtim_manual_do_wakeup_def)

lemma disable_confirmed_asleep_witness:
  "rf_sleeped (power_save_dtim_disable_handler ps_asleep_state)"
proof -
  have "rf_sleeped ps_asleep_state" by code_simp
  then show ?thesis using disable_confirmed_asleep [OF ps_asleep_state_asleep refl] by simp
qed

lemma dtim_time_after_enable_witness:
  "75 < unat (power_save_get_rf_ps_dtim_time (power_save_dtim_enable_handler ps_env_up (power_save_cal_bcn_listen_int 30 ps_boot)))"
proof -
  let ?s = "power_save_cal_bcn_listen_int 30 ps_boot"
  have "unat (power_save_get_rf_ps_dtim_time ?s) = 30" by code_simp
  moreover have "sta_connected (mhdr_get_station_status ps_env_up)" "ps_dtim_multi (bk_ps_info ?s) = 1" by code_simp+
  ultimately show ?thesis using dtim_time_after_enable [of ps_env_up ?s 30] by simp
qed

lemma waiting_task_released_witness:
  "7 \<in> set (released (snd (the (ps_exec [DoWakeup 7, Take ps_env_up, Finish ps_env_up ps_env_up, OtherMsg, Take ps_env_up,
     Finish ps_env_up ps_env_up] (Core_wait, ps_asleep_state)))))"
proof -
  let ?evs = "[DoWakeup 7, Take ps_env_up, Finish ps_env_up ps_env_up, OtherMsg, Take ps_env_up, Finish ps_env_up ps_env_up]"
  have "ps_exec ?evs (Core_wait, ps_asleep_state) \<noteq> None" "ps_real_sleep (bk_ps_info ps_asleep_state)" "io_queue ps_asleep_state = []"
    by code_simp+
  then have "ps_run (Core_wait, ps_asleep_state) ?evs (the (ps_exec ?evs (Core_wait, ps_asleep_state)))"
    using ps_exec_run by auto
  moreover have "\<not> ps_disabled_asleep ?evs (Core_wait, ps_asleep_state)" by code_simp
  ultimately show ?thesis using waiting_task_released [OF ps_asleep_state_reach, of 7 "tl ?evs"]
    \<open>ps_real_sleep _\<close> \<open>io_queue _ = _\<close> by (simp add: ps_rounds_def CORE_QITEM_COUNT_def)
qed

lemma lost_beacon_keeps_awake_witness:
  "\<not> ps_real_sleep (bk_ps_info (snd (the (ps_exec (ps_lost_beacon ps_env_up MAC_ARM_WAKEUP_EN_BIT @
     [Take ps_env_up, Finish ps_env_up ps_env_up, OtherMsg, Take ps_env_up, Finish ps_env_up ps_env_up]) (Core_wait, ps_asleep_state)))))"
proof -
  let ?fs = "[Take ps_env_up, Finish ps_env_up ps_env_up, OtherMsg, Take ps_env_up, Finish ps_env_up ps_env_up]"
  let ?evs = "ps_lost_beacon ps_env_up MAC_ARM_WAKEUP_EN_BIT @ ?fs"
  have "ps_exec ?evs (Core_wait, ps_asleep_state) \<noteq> None" by code_simp
  then have r: "ps_run (Core_wait, ps_asleep_state) ?evs (the (ps_exec ?evs (Core_wait, ps_asleep_state)))"
    using ps_exec_run by auto
  have f: "MAC_ARM_WAKEUP_EN_BIT AND MAC_ARM_WAKEUP_EN_BIT \<noteq> 0" "tm_init (ps_keep_timer ps_asleep_state)"
    "ps_keep_timer_status ps_asleep_state = 0" "ps_keep_timer_period ps_asleep_state \<noteq> 0" "\<not> tm_running (ps_keep_timer ps_asleep_state)"
    "\<not> tm_running (ps_wait_timer ps_asleep_state)" "io_queue ps_asleep_state = []" "ps_dis_flag ps_asleep_state AND NEED_DISABLE_BIT = 0"
    "net_if_is_up ps_env_up" "only_sta ps_env_up" "\<not> list_ex ps_relief ?fs"
    by code_simp+
  show ?thesis using lost_beacon_keeps_awake [OF ps_asleep_state_asleep f(1-10) r f(11)] by simp
qed

end
