(* ===== verification/Spec2Isabelle.thy ===== *)
theory Spec2Isabelle
  imports Prelude RingBuffer KvProps NetParam RoleProps Intc RtcTime MultiButton DrvModel TxBuf Base64 ConvUtf8 VideoBuffer FastConnect PowerProps
begin

text \<open>
  A verification library for the Beken FreeRTOS SDK: the parts of \<open>beken378\<close> that keep state or convert
  data by themselves, below the application and beside the vendored stacks.  File names are relative to
  \<open>src/beken378\<close>.

  \<^bold>\<open>The parts and how they interact.\<close>  At start-up \<open>driver/common/dd.c\<close> enters the drivers into the tables of
  \<open>driver/common/drv_model.c\<close>, through which the others open, read, write and control them.  The flash driver
  is one of them; the partition layer gives it names and bounds, and the key-value store and the network
  parameter table keep their records in partitions of it.  Interrupts reach their handlers through the
  list of \<open>driver/intc/intc.c\<close>.  The role launcher brings the station and the soft access point up in
  an order; frames of a sleeping peer wait in the transmit buffers; the audio ring buffer, the push
  buttons, calendar time, base 64 and the GB2312 conversion stand alone.  The camera handlers put the
  nodes of the DMA into the packet pool of the video transfer, whose task hands them to the video buffer,
  where a reader waits for a whole frame.  The information about the last connection is encrypted and kept in
  the partition of the network parameters.  Power save puts the MAC and the radio to sleep between beacons; the dispatch of
  \<open>intc.c\<close> wakes them first, and the core thread of \<open>app.c\<close> serves the tasks that need them awake.

  \<^bold>\<open>Conventions.\<close>  C integers are words of their width, so wrap-around is part of the model; \<open>int\<close> is used
  where the C type is \<open>int\<close> or a 64 bit time and the hypotheses keep it in range.  A buffer is the list of its
  bytes; an access outside a buffer or a table, a use of a null pointer, a use of freed memory and a failed
  assertion are the outcome \<open>None\<close> of the operation.  Errors the code reports are return values.  Allocation
  is an argument that says whether it succeeds, where the code can fail on it.

  \<^bold>\<open>Which theory models what.\<close>
  \<^item> \<open>Prelude\<close>: bytes, buffers, little-endian words, strings.  \<open>Simulation\<close>: a locale that lifts one step of a
    refinement to any sequence of operations under a contract; interpreted by \<open>NetParam\<close>, \<open>Intc\<close>,
    \<open>DrvModel\<close> and \<open>VideoBuffer\<close>.
  \<^item> \<open>RingBuffer\<close>: \<open>driver/audio/ring_buffer.c\<close>, every function.  The locale of a bounded byte queue is
    interpreted on it; it behaves as a FIFO under any run of reads and writes.
  \<^item> \<open>Flash\<close>: the flash array and the registers of the chip, and \<open>driver/flash/flash.c\<close>, every function; the chip
    follows the data sheets (programming clears bits, erasing sets a sector, the protection field locks the
    array).  \<open>FlashProtect\<close>: the protection read back is the one set, on every chip of the table but one.
    \<open>FlashOps\<close>: the page write and \<open>flash_write\<close>, \<open>flash_read\<close>, \<open>flash_ctrl\<close>; a write programs exactly its range.
  \<^item> \<open>FlashPart\<close>: \<open>func/user_driver/BkDriverFlash.c\<close>, its four partition tables, absolute and partition access.
    \<open>NorStore\<close>: the locale that is the contract between the flash and its users, its interpretation on the
    driver, and the partition properties (write then read, exact erase, tables disjoint and in range).
  \<^item> \<open>KeyValue\<close>: \<open>func/key_value_flash/flash_namespace_value.c\<close>, the namespace table, the name tables and their
    data sectors, and the OTA area.  \<open>KvRep\<close> relates a block of the flash to the list of its entries, live and
    masked; \<open>KvProof\<close>, \<open>KvStore\<close> and \<open>KvMore\<close> verify the operations on it; \<open>KvProps\<close> states that the store is a
    finite map, with the exact condition under which a write finds room.
  \<^item> \<open>NetParam\<close>: \<open>func/net_param_intf/net_param.c\<close>, the type-length-value table rewritten as a whole.
  \<^item> \<open>RoleLaunch\<close>: \<open>func/joint_up/role_launch.c\<close>, every function compiled with \<open>RL_SUPPORT_FAST_CONNECT\<close> 0, on a
    heap of entities.  \<open>RoleProps\<close>: the states reachable under requests, timer firings and answers of the Wi-Fi
    code, ownership of the entities, and service of a queued request.
  \<^item> \<open>Intc\<close>: registration, removal, change and dispatch of \<open>driver/intc/intc.c\<close> on the linked list of
    \<open>common/doubly_list.h\<close>; it refines a table sorted by priority, and what registering a number twice does.
  \<^item> \<open>DrvModel\<close>: \<open>driver/common/drv_model.c\<close> and \<open>dd.c\<close>; the two tables refine two lists of named drivers.
  \<^item> \<open>TxBuf\<close>: \<open>func/rwnx_intf/rw_tx_buffering.c\<close> and the end of \<open>rwm_transfer\<close> in \<open>rw_msdu.c\<close>; the queues keep every
    frame, in order, until it is transferred or freed.
  \<^item> \<open>RtcTime\<close>: \<open>func/rtc/rtc_time.c\<close> against the Gregorian calendar.  \<open>MultiButton\<close>: \<open>func/key/multi_button.c\<close>,
    its state machine under streams of readings and its list of handles.
  \<^item> \<open>Base64\<close>: \<open>func/base64/base_64.c\<close>.  \<open>ConvUtf8\<close>: \<open>func/utf8/conv_utf8.c\<close> with its two tables as arguments.
  \<^item> \<open>VideoTransfer\<close>: the pool and the task of \<open>func/video_transfer/video_transfer.c\<close>, and the handlers of
    \<open>camera_intf.c\<close> and \<open>spidma_intf.c\<close> that feed it; its locale states what a client's header and send functions
    promise, and from it follows that the pool is a queue of packets.  \<open>VideoBuffer\<close>: \<open>app/video_work/video_buffer.c\<close> as
    the client: a frame reaches its reader, or is lost when its last node is empty.
  \<^item> \<open>SoftEncrypt\<close>: \<open>func/misc/soft_encrypt.c\<close>, every function, and the literal tables of its other setting.
    \<open>AesField\<close> and \<open>AesTables\<close>: the computed tables are the literal ones.  \<open>AesKeys\<close>: the key schedules against the
    expansion of FIPS 197.  \<open>AesCipher\<close>: the rounds on columns, and decryption under the turned round keys.
    \<open>AesModes\<close>: the block cipher is that of FIPS 197; the locale of a block cipher, interpreted on the contexts the
    schedules fill, gives the inverse modes.
  \<^item> \<open>FastConnect\<close>: of \<open>func/wlan_ui/wlan_ui.c\<close> the stored connection: \<open>fc_info_enc\<close>, \<open>fc_info_dec\<close>, reading, writing, and
    the decision of \<open>bk_wlan_start_sta\<close>, on the flash through the contract of \<open>NorStore\<close>, beside the table of \<open>NetParam\<close>.
  \<^item> \<open>PowerSave\<close>: \<open>func/power_save/power_save.c\<close>, with the messages and the loop of the core thread in \<open>app/app.c\<close> and the calls of
    \<open>wlan_ui.c\<close>, and the hold bits of the radio in \<open>driver/sys_ctrl/sys_ctrl.c\<close>.  \<open>PowerSteps\<close>: the steps of tasks, interrupts, timers,
    the MAC and the other holders of the radio in any order; every state is asleep or awake as a whole, and no step loses a task that
    waits, except after a confirmation that power save is off while the MAC sleeps, which leads to a third state for good; who holds
    the radio.  \<open>PowerProps\<close>: waiting tasks are released in bounded time; what one lost beacon
    does; the sleep interval.

  \<^bold>\<open>What the lemmas show.\<close>  For the stateful parts the first groups of lemmas give each operation on the
  representation, branch by branch; the invariant and its preservation follow, and the properties are
  statements on runs of operations (refinement, reachability) or exact statements on one call.  Where the
  code misbehaves, a theorem gives the condition: an undefined access, a loop that never returns, data
  lost.

  \<^bold>\<open>Bounds, fuel and termination.\<close>  There is no fuel (\<open>hdl_steps\<close> of \<open>Intc\<close> counts iterations to say that a
  dispatch runs on for ever).  Loops of the code that end are functions with a measure;
  the loops over linked lists of \<open>Intc\<close> and \<open>MultiButton\<close>, the search of \<open>NetParam\<close> and the loop of
  \<open>VideoTransfer\<close> over its queue, which need not end on any data, are \<open>partial_function (option)\<close>, and the properties prove that they return on
  well-formed data (and for \<open>NetParam\<close> and \<open>Intc\<close> that there is data on which they do not).  Addresses are below
  16 megabytes, times below \<open>2 ^ 55\<close> seconds, the parameter table has at most 304 bytes, base 64 sources are below
  a gigabyte where a length is computed.

  \<^bold>\<open>What is assumed.\<close>
  \<^item> Flash: \<open>fd_locked\<close> says which protection words of an unlisted chip lock the array; the status write bypass
    callback is not registered; the polling of the busy bit and the masking of interrupts have no effect; in
    the partition layer \<open>ddev_open\<close> succeeds.
  \<^item> Key-value store: two keys are different strings of which neither is a combined key that the code maps to
    the other; a partition of n namespaces has \<open>2 * n + 1\<close> sectors.
  \<^item> Calendar time: fields are \<open>int\<close>; reading the clock device is left out.  Buttons: callbacks do not write the
    handle, and the mutex makes an operation atomic.
  \<^item> Role launcher: handlers run one at a time; the Wi-Fi code is a function from the request to the list of
    status calls it answers with; an entity allocation that the code asserts succeeds.
  \<^item> Interrupt list: handlers do not change the list, and the status word is an argument.  Device model:
    driver functions act on a state of their own and do not enter the tables; names contain no zero byte.
  \<^item> Transmit buffering: what the MAC answers (interface types, stations, sleep state) is an argument of every
    call; there are two clients, the value of \<open>CFG_STA_MAX\<close>; timers can be started and stopped in the runs.
  \<^item> Base 64 and GB2312: input and output buffers do not overlap; what the tables must satisfy is a hypothesis.
  \<^item> Video: the lists of the MAC library behave as \<open>ip/common/co_list.h\<close> says; a handler and the handling of one
    message are each one step; the DMA writes a node where the handler will read it.
  \<^item> Encryption: a table is read at an index below 256, contexts have their 68 words, input and output do not
    overlap where the code does not pass one buffer twice; locals and allocated blocks have any contents.
  \<^item> Power save: what the MAC library answers is an argument of each call; a handler is one step, since it runs with
    interrupts masked or in the core thread alone; the other parts that use the radio set and clear hold bits at any time; the
    settings are those of \<open>SOC_BK7231\<close>.

  \<^bold>\<open>Not modelled.\<close>  The vendored code (lwIP, mbed TLS, wolfSSL, the kernels under \<open>os\<close>, FAT, USB, MQTT, cJSON,
  easy flash), the MAC and supplicant code under \<open>ip\<close> and \<open>func/hostapd\<close>, whose library part is not in the repository, the BLE
  stack, and the drivers that are sequences of register writes, among them the interrupt control unit (\<open>driver/icu/icu.c\<close>)
  and the system control driver, except the hold bits of the radio.  Of \<open>func/power_save\<close> the low-voltage sleep, its clock compensation and the idle access point, which
  other settings compile, and the sleep of the MCU, which is the timers and clocks of the chip; of \<open>rw_msdu.c\<close> the transmit and receive paths, which pass descriptors of
  the MAC library on.  Of the modelled files, the test commands and the calls of a device that do
  nothing else are left out; of \<open>intc.c\<close> the vectors, the trap dumps and the enabling calls.
\<close>

end
